(* ===== verification/Prelude.thy ===== *)
theory Prelude
  imports Main "HOL-Library.Word" "HOL-Library.Monad_Syntax"
begin

section \<open>Shared types, the byte memory and the hint collections\<close>

text \<open>
  What every component shares: the C integer types as words (\<open>types.h\<close>), the flat
  byte memory the kernel addresses, little-endian 32-bit loads and stores, C strings in
  memory, and the lemma collections the component proofs simplify with.

  Conventions of the whole development:
  \<^item> \<open>uint32_t\<close>, \<open>uint8_t\<close> and addresses are words, so that wrap-around is the machine's;
    \<open>int32_t\<close> return values are \<open>int\<close> (\<open>-1\<close> is the code's error return);
  \<^item> a result of type \<open>option\<close> is \<open>None\<close> where the C code has no result: a loop
    that never ends, a call through a NULL pointer, an access outside an array;
  \<^item> a state-changing function takes its state and returns the new one.
\<close>

unbundle bit_operations_syntax

type_synonym u8 = "8 word"
type_synonym u16 = "16 word"
type_synonym u32 = "32 word"
type_synonym addr = "32 word"
type_synonym mem = "32 word \<Rightarrow> 8 word"

named_theorems mem_simps \<open>loads from memory after stores\<close>
named_theorems inv_intros \<open>operations that preserve a component's invariant\<close>
named_theorems eval_defs \<open>definitions unfolded to evaluate a closed witness\<close>

subsection \<open>Word arithmetic\<close>

lemma word_Suc_of_nat [simp]: "(of_nat (Suc n) :: 'a::len word) = 1 + of_nat n"
  by simp

lemma word_pos_unat: "(x :: 'a::len word) \<noteq> 0 \<Longrightarrow> unat x = Suc (unat (x - 1))"
  by (simp add: unat_minus_one unat_gt_0)

text \<open>Membership of an address in a region \<open>[d, d + n)\<close>, read modulo the address space.\<close>

lemma region_step:
  fixes a d n :: "'a::len word"
  assumes "n \<noteq> 0"
  shows "a - d < n \<longleftrightarrow> a = d \<or> a - (d + 1) < n - 1"
proof -
  have "a - (d + 1) = (a - d) - 1" by simp
  moreover have "k < n \<longleftrightarrow> k = 0 \<or> k - 1 < n - 1" for k :: "'a word"
  proof (cases "k = 0")
    case True
    then show ?thesis using assms by (simp add: word_neq_0_conv)
  next
    case False
    then show ?thesis
      using assms word_pos_unat [of k] word_pos_unat [of n]
      by (simp add: word_less_nat_alt)
  qed
  ultimately have "a - d < n \<longleftrightarrow> a - d = 0 \<or> (a - d) - 1 < n - 1" by blast
  then show ?thesis by (simp add: diff_diff_eq)
qed

lemma region_start: "(n :: 'a::len word) \<noteq> 0 \<Longrightarrow> d - d < n"
  by (simp add: word_neq_0_conv)

lemma of_nat_inj_word:
  "i < 2 ^ LENGTH('a) \<Longrightarrow> j < 2 ^ LENGTH('a) \<Longrightarrow>
    (of_nat i :: 'a::len word) = of_nat j \<longleftrightarrow> i = j"
  by (simp add: word_of_nat_eq_iff take_bit_nat_eq_self)

subsection \<open>Little-endian loads and stores\<close>

text \<open>The 32-bit access of the x86: four bytes, least significant first.\<close>

definition rd32 :: "mem \<Rightarrow> addr \<Rightarrow> u32" where
  "rd32 m a = ucast (m a) OR push_bit 8 (ucast (m (a + 1)))
     OR push_bit 16 (ucast (m (a + 2))) OR push_bit 24 (ucast (m (a + 3)))"

definition wr32 :: "mem \<Rightarrow> addr \<Rightarrow> u32 \<Rightarrow> mem" where
  "wr32 m a v = m(a := ucast v, a + 1 := ucast (drop_bit 8 v),
     a + 2 := ucast (drop_bit 16 v), a + 3 := ucast (drop_bit 24 v))"

lemma rd32_wr32 [mem_simps]: "rd32 (wr32 m a v) a = v"
proof -
  have "rd32 (wr32 m a v) a = ucast (ucast v :: u8) OR push_bit 8 (ucast (ucast (drop_bit 8 v) :: u8))
     OR push_bit 16 (ucast (ucast (drop_bit 16 v) :: u8)) OR push_bit 24 (ucast (ucast (drop_bit 24 v) :: u8))"
    by (simp add: rd32_def wr32_def)
  also have "\<dots> = v"
    by (rule bit_word_eqI, rename_tac n, case_tac "n < 16"; case_tac "n < 24")
      (auto simp: bit_simps)
  finally show ?thesis .
qed

subsection \<open>Byte sequences and C strings in memory\<close>

text \<open>\<open>load m a n\<close> is the \<open>n\<close> bytes from \<open>a\<close>; \<open>put m a xs\<close> writes \<open>xs\<close> from \<open>a\<close> upwards.\<close>

definition load :: "mem \<Rightarrow> addr \<Rightarrow> nat \<Rightarrow> u8 list" where
  "load m a n = map (\<lambda>i. m (a + of_nat i)) [0..<n]"

fun put :: "mem \<Rightarrow> addr \<Rightarrow> u8 list \<Rightarrow> mem" where
  "put m a [] = m"
| "put m a (x # xs) = put (m(a := x)) (a + 1) xs"

lemma length_load [simp]: "length (load m a n) = n"
  by (simp add: load_def)

lemma nth_load [simp]: "i < n \<Longrightarrow> load m a n ! i = m (a + of_nat i)"
  by (simp add: load_def)

text \<open>\<open>string_at m a xs\<close>: the C string at \<open>a\<close> is \<open>xs\<close>, ended by the first NUL byte.\<close>

definition string_at :: "mem \<Rightarrow> addr \<Rightarrow> u8 list \<Rightarrow> bool" where
  "string_at m a xs \<longleftrightarrow> length xs < 2 ^ 32 \<and> 0 \<notin> set xs \<and>
     (\<forall>i < length xs. m (a + of_nat i) = xs ! i) \<and> m (a + of_nat (length xs)) = 0"

lemma string_at_Nil: "string_at m a [] \<longleftrightarrow> m a = 0"
  by (simp add: string_at_def)

lemma string_at_nth: "string_at m a xs \<Longrightarrow> i < length xs \<Longrightarrow> m (a + of_nat i) = xs ! i"
  by (simp add: string_at_def)

lemma string_at_end: "string_at m a xs \<Longrightarrow> m (a + of_nat (length xs)) = 0"
  by (simp add: string_at_def)

lemma string_at_nonzero: "string_at m a xs \<Longrightarrow> i < length xs \<Longrightarrow> m (a + of_nat i) \<noteq> 0"
  by (metis nth_mem string_at_def)

lemma string_at_Cons:
  "string_at m a (x # xs) \<longleftrightarrow>
     m a = x \<and> x \<noteq> 0 \<and> string_at m (a + 1) xs \<and> Suc (length xs) < 2 ^ 32"
proof -
  have "(\<forall>i < length (x # xs). m (a + of_nat i) = (x # xs) ! i) \<longleftrightarrow>
      m a = x \<and> (\<forall>i < length xs. m (a + 1 + of_nat i) = xs ! i)"
    by (simp add: All_less_Suc2 add.assoc)
  then show ?thesis unfolding string_at_def by (auto simp: add.assoc)
qed

lemmas string_at_eval = string_at_Cons string_at_Nil

lemma string_at_drop: "string_at m a xs \<Longrightarrow> j \<le> length xs \<Longrightarrow> string_at m (a + of_nat j) (drop j xs)"
  unfolding string_at_def by (auto dest: in_set_dropD simp flip: of_nat_add simp: add.assoc)

subsection \<open>Regions of the address space\<close>

text \<open>
  \<open>filled\<close> and \<open>copied\<close> are the reference meaning of the block operations of
  \<open>lib.c\<close>: the first \<open>n\<close> bytes from \<open>d\<close> (modulo the address space) take their new
  values, everything else is untouched.
\<close>

definition filled :: "mem \<Rightarrow> addr \<Rightarrow> nat \<Rightarrow> u8 \<Rightarrow> mem" where
  "filled m d n x = (\<lambda>a. if unat (a - d) < n then x else m a)"

definition copied :: "mem \<Rightarrow> addr \<Rightarrow> addr \<Rightarrow> nat \<Rightarrow> mem" where
  "copied m d s n = (\<lambda>a. if unat (a - d) < n then m (s + (a - d)) else m a)"

lemma unat_sub_of_nat:
  fixes x :: u32
  assumes "n < 2 ^ 32"
  shows "unat (x - of_nat n) = (if n \<le> unat x then unat x - n else unat x + 2 ^ 32 - n)"
  using assms by (simp add: unat_sub_if' unat_of_nat take_bit_nat_eq_self)

lemma unat_u32 [simp]: "unat (x :: u32) < 4294967296"
  using unsigned_less [of x] by simp

lemma unat_u32_le [simp]: "unat (x :: u32) \<le> 4294967296"
  using unat_u32 [of x] by (rule less_imp_le)

lemma unat_eq_of_nat: "n < 2 ^ 32 \<Longrightarrow> unat (x :: u32) = n \<longleftrightarrow> x = of_nat n"
  by (auto simp: unat_of_nat take_bit_nat_eq_self)

lemma unat_u8 [simp]: "unat (x :: u8) < 256"
  using unsigned_less [of x] by simp

lemma unat_less_Suc: "i < (n :: u32) \<Longrightarrow> unat (i + 1) = Suc (unat i)"
proof -
  assume "i < n"
  then have "Suc (unat i) < 4294967296"
    by (intro le_less_trans [OF _ unat_u32 [of n]]) (simp add: word_less_nat_alt Suc_le_eq)
  then show ?thesis by (simp add: unat_word_ariths)
qed

lemma unat_of_nat_below: "j < unat (n :: u32) \<Longrightarrow> unat (of_nat j :: u32) = j"
  by (simp add: unat_of_nat take_bit_nat_eq_self less_trans [OF _ unat_u32])

lemma of_nat_below: "j < unat (n :: u32) \<Longrightarrow> of_nat j < n"
  by (simp add: word_less_nat_alt unat_of_nat_below)

lemma ucast_u8_u32 [simp]: "ucast (ucast (x :: u8) :: u32) = x"
  by (rule bit_word_eqI) (auto simp: bit_simps dest: bit_imp_le_length)

text \<open>Reading an \<open>int32_t\<close>: values that fit are themselves.\<close>

lemma sint_fits:
  assumes "- (2 ^ 31) \<le> i" "i < 2 ^ 31"
  shows "sint (word_of_int i :: u32) = i"
  using assms by (simp add: signed_of_int signed_take_bit_int_eq_self)

lemma sint_of_nat_fits: "n < 2 ^ 31 \<Longrightarrow> sint (of_nat n :: u32) = int n"
  using sint_fits [of "int n"] by simp

lemma filled_0 [simp]: "filled m d 0 x = m"
  by (simp add: filled_def)

lemma filled_1: "filled m d (Suc 0) x = m(d := x)"
  by (auto simp: filled_def fun_eq_iff unat_eq_0)

lemma filled_append:
  assumes "n + k \<le> 2 ^ 32" "n < 2 ^ 32"
  shows "filled (filled m d n x) (d + of_nat n) k x = filled m d (n + k) x"
proof
  fix a
  have "unat (a - (d + of_nat n)) = unat (a - d - of_nat n)" by (simp add: diff_diff_eq)
  then have *: "unat (a - (d + of_nat n)) =
      (if n \<le> unat (a - d) then unat (a - d) - n else unat (a - d) + 2 ^ 32 - n)"
    using assms by (simp only: unat_sub_of_nat)
  show "filled (filled m d n x) (d + of_nat n) k x a = filled m d (n + k) x a"
    unfolding filled_def * using assms unat_u32 [of "a - d"] by auto
qed

lemma filled_Suc:
  "Suc n \<le> 2 ^ 32 \<Longrightarrow> filled m d (Suc n) x = (filled m d n x)(d + of_nat n := x)"
  using filled_append [of n 1 m d x] by (simp add: filled_1)

lemma filled_Cons:
  "Suc n \<le> 2 ^ 32 \<Longrightarrow> filled (m(d := x)) (d + 1) n x = filled m d (Suc n) x"
  using filled_append [of 1 n m d x] by (simp add: filled_1)

lemma filled_4: "filled m d 4 x = m(d := x, d + 1 := x, d + 2 := x, d + 3 := x)"
proof -
  have "filled m d (Suc (Suc (Suc (Suc 0)))) x = m(d := x, d + 1 := x, d + 2 := x, d + 3 := x)"
    by (simp add: filled_Suc)
  then show ?thesis by (simp add: eval_nat_numeral)
qed

text \<open>
  A forward copy is right when no byte is overwritten before it is read, a backward copy
  when no byte is read after it is overwritten.
\<close>

definition fwd_ok :: "addr \<Rightarrow> addr \<Rightarrow> nat \<Rightarrow> bool" where
  "fwd_ok d s n \<longleftrightarrow> (\<forall>i j. i < j \<and> j < n \<longrightarrow> d + of_nat i \<noteq> s + of_nat j)"

definition bwd_ok :: "addr \<Rightarrow> addr \<Rightarrow> nat \<Rightarrow> bool" where
  "bwd_ok d s n \<longleftrightarrow> (\<forall>i j. j < i \<and> i < n \<longrightarrow> d + of_nat i \<noteq> s + of_nat j)"

definition disjoint_regions :: "addr \<Rightarrow> addr \<Rightarrow> nat \<Rightarrow> bool" where
  "disjoint_regions d s n \<longleftrightarrow> (\<forall>i < n. \<forall>j < n. d + of_nat i \<noteq> s + of_nat j)"

lemma fwd_okD: "fwd_ok d s n \<Longrightarrow> i < j \<Longrightarrow> j < n \<Longrightarrow> d + of_nat i \<noteq> s + of_nat j"
  by (simp add: fwd_ok_def)

lemma bwd_okD: "bwd_ok d s n \<Longrightarrow> j < i \<Longrightarrow> i < n \<Longrightarrow> d + of_nat i \<noteq> s + of_nat j"
  by (simp add: bwd_ok_def)

lemma disjoint_fwd_ok: "disjoint_regions d s n \<Longrightarrow> fwd_ok d s n"
  by (auto simp: disjoint_regions_def fwd_ok_def)

lemma disjoint_bwd_ok: "disjoint_regions d s n \<Longrightarrow> bwd_ok d s n"
  by (auto simp: disjoint_regions_def bwd_ok_def)

lemma disjoint_below:
  assumes "unat d + n \<le> unat s" "unat s + n \<le> 2 ^ 32"
  shows "disjoint_regions d s n" "disjoint_regions s d n"
proof -
  have "d + of_nat i \<noteq> s + of_nat j" if "i < n" "j < n" for i j
  proof
    assume eq: "d + of_nat i = s + of_nat j"
    have "i < 2 ^ 32" "j < 2 ^ 32" using that assms by simp_all
    then have "unat (d + of_nat i) = unat d + i" "unat (s + of_nat j) = unat s + j"
      using that assms by (simp_all add: unat_word_ariths unat_of_nat take_bit_nat_eq_self)
    with eq that assms show False by simp
  qed
  then show "disjoint_regions d s n" "disjoint_regions s d n"
    unfolding disjoint_regions_def by metis+
qed

lemma copied_0 [simp]: "copied m d s 0 = m"
  by (simp add: copied_def)

lemma copied_1: "copied m d s (Suc 0) = m(d := m s)"
  by (auto simp: copied_def fun_eq_iff unat_eq_0)

lemma copied_append:
  assumes ok: "fwd_ok d s (n + k)" and bound: "n + k \<le> 2 ^ 32" "n < 2 ^ 32"
  shows "copied (copied m d s n) (d + of_nat n) (s + of_nat n) k = copied m d s (n + k)"
proof
  fix a
  have "unat (a - (d + of_nat n)) = unat (a - d - of_nat n)" by (simp add: diff_diff_eq)
  then have u: "unat (a - (d + of_nat n)) =
      (if n \<le> unat (a - d) then unat (a - d) - n else unat (a - d) + 2 ^ 32 - n)"
    using bound by (simp only: unat_sub_of_nat)
  have src: "s + of_nat n + (a - (d + of_nat n)) = s + (a - d)" by simp
  have keep: "\<not> unat (s + (a - d) - d) < n" if "n \<le> unat (a - d)" "unat (a - d) < n + k"
  proof
    assume i: "unat (s + (a - d) - d) < n"
    have "d + of_nat (unat (s + (a - d) - d)) = s + of_nat (unat (a - d))" by simp
    with ok i that show False unfolding fwd_ok_def
      by (metis less_le_trans)
  qed
  show "copied (copied m d s n) (d + of_nat n) (s + of_nat n) k a = copied m d s (n + k) a"
  proof (cases "n \<le> unat (a - d)")
    case True
    then show ?thesis using keep unfolding copied_def src u by auto
  next
    case False
    then show ?thesis using bound unfolding copied_def u by auto
  qed
qed

subsection \<open>Writing a byte sequence\<close>

lemma put_outside:
  "length xs \<le> unat (a - d) \<Longrightarrow> put m d xs a = m a"
proof (induction xs arbitrary: m d)
  case (Cons x xs)
  then have "a \<noteq> d" "a - d \<noteq> 0" by auto
  moreover have "length xs \<le> unat (a - (d + 1))"
    using Cons.prems \<open>a - d \<noteq> 0\<close> unat_minus_one [of "a - d"] by (simp add: diff_diff_eq)
  ultimately show ?case using Cons.IH by simp
qed simp

lemma put_inside:
  "i < length xs \<Longrightarrow> length xs \<le> 2 ^ 32 \<Longrightarrow> put m d xs (d + of_nat i) = xs ! i"
proof (induction xs arbitrary: m d i)
  case (Cons x xs)
  show ?case
  proof (cases i)
    case 0
    have "length xs \<le> unat (d - (d + 1))"
      using Cons.prems by (simp add: unsigned_minus_1_eq_mask mask_eq_exp_minus_1)
    with 0 show ?thesis by (simp add: put_outside)
  next
    case (Suc j)
    with Cons.prems have "put (m(d := x)) (d + 1) xs (d + 1 + of_nat j) = xs ! j"
      by (intro Cons.IH) simp_all
    with Suc show ?thesis by (simp add: add.assoc)
  qed
qed simp

lemma put_append: "put m a (xs @ ys) = put (put m a xs) (a + of_nat (length xs)) ys"
  by (induction xs arbitrary: m a) (simp_all add: add.assoc)

lemma string_at_put:
  assumes "length xs < 2 ^ 32" "0 \<notin> set xs"
  shows "string_at (put m a (xs @ [0])) a xs"
  unfolding string_at_def
  using assms put_inside [of _ "xs @ [0]" m a] by (auto simp: nth_append)

lemma load_put: "length xs \<le> 2 ^ 32 \<Longrightarrow> load (put m a xs) a (length xs) = xs"
  by (rule nth_equalityI) (simp_all add: put_inside)

lemma string_at_exists:
  assumes "m b = 0"
  shows "\<exists>xs. string_at m s xs"
proof -
  define n where "n = (LEAST n. m (s + of_nat n) = 0)"
  have ex: "m (s + of_nat (unat (b - s))) = 0" using assms by simp
  then have "m (s + of_nat n) = 0" unfolding n_def by (rule LeastI)
  moreover have "n \<le> unat (b - s)" unfolding n_def using ex by (rule Least_le)
  then have "n < 2 ^ 32" using unat_u32 [of "b - s"] by (simp del: unat_u32)
  moreover have "m (s + of_nat i) \<noteq> 0" if "i < n" for i
    using not_less_Least [of i "\<lambda>n. m (s + of_nat n) = 0"] that unfolding n_def by blast
  ultimately have "string_at m s (load m s n)"
    by (auto simp: string_at_def load_def)
  then show ?thesis ..
qed

lemma string_at_unique:
  assumes "string_at m s xs" "string_at m s ys"
  shows "xs = ys"
proof (rule nth_equalityI)
  have "\<not> length xs < length ys"
    using string_at_end [OF assms(1)] string_at_nonzero [OF assms(2), of "length xs"] by blast
  moreover have "\<not> length ys < length xs"
    using string_at_end [OF assms(2)] string_at_nonzero [OF assms(1), of "length ys"] by blast
  ultimately show len: "length xs = length ys" by simp
  show "xs ! i = ys ! i" if "i < length xs" for i
    using string_at_nth [OF assms(1) that] string_at_nth [OF assms(2), of i] len that by simp
qed

text \<open>A name field: its bytes up to the first NUL.\<close>

lemma takeWhile_nonzero_eq:
  "(0 :: 'a :: zero) \<notin> set xs \<Longrightarrow>
    takeWhile (\<lambda>b. b \<noteq> 0) ys = xs \<longleftrightarrow> (\<exists>zs. ys = xs @ zs \<and> (zs = [] \<or> hd zs = 0))"
proof (induction ys arbitrary: xs)
  case Nil
  then show ?case by auto
next
  case (Cons y ys)
  show ?case
  proof (cases xs)
    case Nil
    then show ?thesis by auto
  next
    case (Cons x xs')
    then show ?thesis using Cons.IH [of xs'] Cons.prems by auto
  qed
qed

subsection \<open>Tables of slots\<close>

lemma find_upt_Some:
  "List.find P [a..<b] = Some k \<longleftrightarrow> a \<le> k \<and> k < b \<and> P k \<and> (\<forall>j. a \<le> j \<and> j < k \<longrightarrow> \<not> P j)"
proof (induction "b - a" arbitrary: a)
  case 0
  then show ?case by simp
next
  case (Suc n)
  then have ab: "a < b" "List.find P [a..<b] = (if P a then Some a else List.find P [Suc a..<b])"
    by (simp_all add: upt_conv_Cons)
  have "n = b - Suc a" using Suc.hyps(2) by simp
  note IH = Suc.hyps(1) [OF this]
  show ?case
  proof (cases "P a")
    case True
    then show ?thesis using ab by (auto simp: le_less)
  next
    case False
    then have "a \<le> k \<and> P k \<longleftrightarrow> Suc a \<le> k \<and> P k" by (auto simp: le_less Suc_le_eq)
    moreover have "(\<forall>j. a \<le> j \<and> j < k \<longrightarrow> \<not> P j) \<longleftrightarrow> (\<forall>j. Suc a \<le> j \<and> j < k \<longrightarrow> \<not> P j)"
      using False by (metis Suc_leI Suc_leD le_less)
    ultimately show ?thesis using False ab(2) IH by auto
  qed
qed

lemma find_upt_None: "List.find P [a..<b] = None \<longleftrightarrow> (\<forall>j. a \<le> j \<and> j < b \<longrightarrow> \<not> P j)"
  by (auto simp: find_None_iff)

text \<open>
  A table whose slots \<open>lo\<close> to \<open>hi - 1\<close> are handed out lowest first: the task table and the
  descriptor tables of the tasks. The client relies on what the search, the taking and the
  freeing of a slot promise.
\<close>

locale slot_table =
  fixes valid :: "'t \<Rightarrow> bool"
    and used :: "'t \<Rightarrow> nat \<Rightarrow> bool"
    and search :: "'t \<Rightarrow> nat option"
    and occupy :: "nat \<Rightarrow> 't \<Rightarrow> 't"
    and release :: "nat \<Rightarrow> 't \<Rightarrow> 't"
    and lo hi :: nat
  assumes search_None: "valid t \<Longrightarrow> search t = None \<longleftrightarrow> (\<forall>j. lo \<le> j \<and> j < hi \<longrightarrow> used t j)"
    and search_Some: "valid t \<Longrightarrow> search t = Some k \<longleftrightarrow>
      lo \<le> k \<and> k < hi \<and> \<not> used t k \<and> (\<forall>j. lo \<le> j \<and> j < k \<longrightarrow> used t j)"
    and valid_occupy: "valid t \<Longrightarrow> k < hi \<Longrightarrow> valid (occupy k t)"
    and valid_release: "valid t \<Longrightarrow> k < hi \<Longrightarrow> valid (release k t)"
    and used_occupy: "valid t \<Longrightarrow> k < hi \<Longrightarrow> used (occupy k t) j \<longleftrightarrow> j = k \<or> used t j"
    and used_release: "valid t \<Longrightarrow> k < hi \<Longrightarrow> used (release k t) j \<longleftrightarrow> j \<noteq> k \<and> used t j"
begin

lemma search_total: "valid t \<Longrightarrow> (\<exists>j. lo \<le> j \<and> j < hi \<and> \<not> used t j) \<Longrightarrow> \<exists>k. search t = Some k"
  using search_None [of t] by (cases "search t") auto

lemma occupied_not_found:
  "valid t \<Longrightarrow> search t = Some k \<Longrightarrow> search (occupy k t) = Some j \<Longrightarrow> k < j"
  using search_Some [of t k] search_Some [of "occupy k t" j] valid_occupy [of t k] used_occupy [of t k]
  by (metis nat_neq_iff)

lemma release_finds_again:
  "valid t \<Longrightarrow> search t = Some k \<Longrightarrow> search (release k (occupy k t)) = Some k"
  using search_Some [of t k] search_Some [of "release k (occupy k t)" k]
    valid_occupy [of t k] valid_release [of "occupy k t" k] used_occupy [of t k] used_release [of "occupy k t" k]
  by auto

lemma fill:
  assumes "valid t" "\<forall>j. lo \<le> j \<and> j < hi \<longrightarrow> (used t j \<longleftrightarrow> j < lo + n)" "lo + n < hi"
  shows "search t = Some (lo + n)"
  using search_Some [OF assms(1), of "lo + n"] assms(2,3) by auto

end

end
