(* ===== verification/LibMem.thy ===== *)
theory LibMem
  imports Prelude
begin

section \<open>Block operations of lib.c: memset, memcpy, memmove\<close>

text \<open>
  The inline assembly of \<open>student-distrib/lib.c\<close>, instruction by instruction: the byte
  loop that runs until the destination is aligned, the \<open>rep stosl\<close>/\<open>rep movsl\<close> word
  loop, and the byte loop for what is left. Each is proved equal to the reference
  meaning \<open>filled\<close> or \<open>copied\<close> of the prelude. Registers are words; \<open>rep\<close> counts
  \<open>ecx\<close> down, which the model does on \<open>unat ecx\<close>.
\<close>

subsection \<open>The string instructions\<close>

fun rep_stosl :: "nat \<Rightarrow> mem \<Rightarrow> addr \<Rightarrow> u32 \<Rightarrow> mem \<times> addr" where
  "rep_stosl 0 m edi eax = (m, edi)"
| "rep_stosl (Suc ecx) m edi eax = rep_stosl ecx (wr32 m edi eax) (edi + 4) eax"

fun rep_stosw :: "nat \<Rightarrow> mem \<Rightarrow> addr \<Rightarrow> u16 \<Rightarrow> mem \<times> addr" where
  "rep_stosw 0 m edi ax = (m, edi)"
| "rep_stosw (Suc ecx) m edi ax =
     rep_stosw ecx (m(edi := ucast ax, edi + 1 := ucast (drop_bit 8 ax))) (edi + 2) ax"

fun rep_movsl :: "nat \<Rightarrow> mem \<Rightarrow> addr \<Rightarrow> addr \<Rightarrow> mem \<times> addr \<times> addr" where
  "rep_movsl 0 m edi esi = (m, edi, esi)"
| "rep_movsl (Suc ecx) m edi esi =
     rep_movsl ecx (wr32 m edi (rd32 m esi)) (edi + 4) (esi + 4)"

text \<open>\<open>movsb\<close> steps by \<open>+1\<close> with the direction flag clear, by \<open>-1\<close> with it set.\<close>

fun rep_movsb :: "bool \<Rightarrow> nat \<Rightarrow> mem \<Rightarrow> addr \<Rightarrow> addr \<Rightarrow> mem" where
  "rep_movsb df 0 m edi esi = m"
| "rep_movsb df (Suc ecx) m edi esi =
     (if df then rep_movsb df ecx (m(edi := m esi)) (edi - 1) (esi - 1)
      else rep_movsb df ecx (m(edi := m esi)) (edi + 1) (esi + 1))"

subsection \<open>memset\<close>

fun memset_bottom :: "nat \<Rightarrow> mem \<Rightarrow> addr \<Rightarrow> u32 \<Rightarrow> mem" where
  "memset_bottom 0 m edi eax = m"
| "memset_bottom (Suc edx) m edi eax = memset_bottom edx (m(edi := ucast eax)) (edi + 1) eax"

function memset_top :: "mem \<Rightarrow> addr \<Rightarrow> u32 \<Rightarrow> u32 \<Rightarrow> mem" where
  "memset_top m edi ecx eax =
     (if ecx = 0 then m
      else if edi AND 3 = 0 then
        (let (m', edi') = rep_stosl (unat (drop_bit 2 ecx)) m edi eax
         in memset_bottom (unat (ecx AND 3)) m' edi' eax)
      else memset_top (m(edi := ucast eax)) (edi + 1) (ecx - 1) eax)"
  by pat_completeness auto
termination
  by (relation "measure (\<lambda>(m, edi, ecx, eax). unat ecx)") (auto simp: measure_unat)

definition memset :: "mem \<Rightarrow> addr \<Rightarrow> u32 \<Rightarrow> u32 \<Rightarrow> mem" where
  "memset m s c n =
     (let c = c AND 0xFF
      in memset_top m s n (push_bit 24 c OR push_bit 16 c OR push_bit 8 c OR c))"

definition memset_word :: "mem \<Rightarrow> addr \<Rightarrow> u32 \<Rightarrow> u32 \<Rightarrow> mem" where
  "memset_word m s c n = fst (rep_stosw (unat n) m s (ucast c))"

definition memset_dword :: "mem \<Rightarrow> addr \<Rightarrow> u32 \<Rightarrow> u32 \<Rightarrow> mem" where
  "memset_dword m s c n = fst (rep_stosl (unat n) m s c)"

subsection \<open>memcpy and memmove\<close>

fun memcpy_bottom :: "nat \<Rightarrow> mem \<Rightarrow> addr \<Rightarrow> addr \<Rightarrow> mem" where
  "memcpy_bottom 0 m edi esi = m"
| "memcpy_bottom (Suc edx) m edi esi = memcpy_bottom edx (m(edi := m esi)) (edi + 1) (esi + 1)"

function memcpy_top :: "mem \<Rightarrow> addr \<Rightarrow> addr \<Rightarrow> u32 \<Rightarrow> mem" where
  "memcpy_top m edi esi ecx =
     (if ecx = 0 then m
      else if edi AND 3 = 0 then
        (let (m', edi', esi') = rep_movsl (unat (drop_bit 2 ecx)) m edi esi
         in memcpy_bottom (unat (ecx AND 3)) m' edi' esi')
      else memcpy_top (m(edi := m esi)) (edi + 1) (esi + 1) (ecx - 1))"
  by pat_completeness auto
termination
  by (relation "measure (\<lambda>(m, edi, esi, ecx). unat ecx)") (auto simp: measure_unat)

definition memcpy :: "mem \<Rightarrow> addr \<Rightarrow> addr \<Rightarrow> u32 \<Rightarrow> mem" where
  "memcpy m dest src n = memcpy_top m dest src n"

text \<open>
  \<open>memmove\<close> returns the memory and the direction flag it leaves: the backward branch
  executes \<open>std\<close> and nothing executes \<open>cld\<close> after the copy.
\<close>

definition memmove :: "mem \<Rightarrow> addr \<Rightarrow> addr \<Rightarrow> u32 \<Rightarrow> mem \<times> bool" where
  "memmove m dest src n =
     (if dest \<le> src then (rep_movsb False (unat n) m dest src, False)
      else (rep_movsb True (unat n) m (dest + n - 1) (src + n - 1), True))"

declare memset_top.simps [simp del] memcpy_top.simps [simp del]

subsection \<open>memset fills exactly its region\<close>

lemma unat_split4: "unat (n :: u32) = 4 * unat (drop_bit 2 n) + unat (n AND 3)"
proof -
  have "n AND 3 = take_bit 2 n" by (simp add: take_bit_eq_mask mask_numeral)
  then show ?thesis by (simp add: take_bit_eq_mod drop_bit_eq_div unat_div unat_mod)
qed

lemma wr32_filled:
  assumes "ucast w = x" "ucast (drop_bit 8 w) = x" "ucast (drop_bit 16 w) = x"
    "ucast (drop_bit 24 w) = x"
  shows "wr32 m d w = filled m d 4 x"
  using assms by (simp add: wr32_def filled_4)

lemma rep_stosl_filled:
  assumes w: "\<And>m d. wr32 m d w = filled m d 4 x"
  shows "4 * k \<le> 2 ^ 32 \<Longrightarrow>
    rep_stosl k m d w = (filled m d (4 * k) x, d + of_nat (4 * k))"
proof (induction k arbitrary: m d)
  case (Suc k)
  then show ?case
    using filled_append [of 4 "4 * k" m d x] by (simp add: w algebra_simps)
qed simp

lemma memset_bottom_filled:
  assumes "ucast w = x"
  shows "k \<le> 2 ^ 32 \<Longrightarrow> memset_bottom k m d w = filled m d k x"
  using assms by (induction k arbitrary: m d) (simp_all add: filled_Cons)

lemma memset_top_filled:
  assumes w: "\<And>m d. wr32 m d w = filled m d 4 x" "ucast w = x"
  shows "memset_top m d n w = filled m d (unat n) x"
  using w
proof (induction m d n w rule: memset_top.induct)
  case (1 m d n w)
  show ?case
  proof (cases "n = 0 \<or> d AND 3 = 0")
    case True
    have "4 * unat (drop_bit 2 n) + unat (n AND 3) \<le> 2 ^ 32"
      and "unat (drop_bit 2 n) < 2 ^ 30"
      using unat_split4 [of n] unat_u32 [of n] by simp_all
    with True "1.prems" show ?thesis
      using rep_stosl_filled [OF "1.prems"(1), of "unat (drop_bit 2 n)" m d] filled_append [of "4 * unat (drop_bit 2 n)" "unat (n AND 3)" m d x] unat_split4 [of n]
      by (subst memset_top.simps) (auto simp: memset_bottom_filled)
  next
    case False
    then have "memset_top m d n w = memset_top (m(d := ucast w)) (d + 1) (n - 1) w"
      by (subst memset_top.simps) simp
    also have "\<dots> = filled (m(d := ucast w)) (d + 1) (unat (n - 1)) x"
      using False "1.prems" by (intro "1.IH") simp_all
    also have "\<dots> = filled (m(d := x)) (d + 1) (unat (n - 1)) x"
      using "1.prems" by simp
    also have "\<dots> = filled m d (unat n) x"
      using False unat_u32 [of n] word_pos_unat [of n] by (simp add: filled_Cons)
    finally show ?thesis .
  qed
qed

lemma memset_pattern:
  fixes c :: u32
  defines "w \<equiv> (let c = c AND 0xFF in push_bit 24 c OR push_bit 16 c OR push_bit 8 c OR c)"
  shows "ucast w = (ucast c :: u8)" "ucast (drop_bit 8 w) = (ucast c :: u8)"
    "ucast (drop_bit 16 w) = (ucast c :: u8)" "ucast (drop_bit 24 w) = (ucast c :: u8)"
proof -
  have c: "c AND 0xFF = take_bit 8 c" by (simp add: take_bit_eq_mask mask_numeral)
  show "ucast w = (ucast c :: u8)" "ucast (drop_bit 8 w) = (ucast c :: u8)"
    "ucast (drop_bit 16 w) = (ucast c :: u8)" "ucast (drop_bit 24 w) = (ucast c :: u8)"
    unfolding w_def Let_def c by (rule bit_word_eqI, auto simp: bit_simps)+
qed

lemma memset_filled: "memset m s c n = filled m s (unat n) (ucast c)"
  unfolding memset_def Let_def
  using memset_top_filled [OF wr32_filled, OF memset_pattern(1-4) memset_pattern(1)]
  by (simp add: Let_def)

subsection \<open>memcpy and memmove copy exactly their region\<close>

lemma fwd_ok_mono: "fwd_ok d s n \<Longrightarrow> k \<le> n \<Longrightarrow> fwd_ok d s k"
  by (auto simp: fwd_ok_def)

lemma fwd_ok_shift: "fwd_ok d s (k + n) \<Longrightarrow> fwd_ok (d + of_nat k) (s + of_nat k) n"
  unfolding fwd_ok_def
  by (metis (no_types, opaque_lifting) add.assoc add_less_cancel_left of_nat_add)

lemma copied_Suc:
  "fwd_ok d s (Suc n) \<Longrightarrow> Suc n \<le> 2 ^ 32 \<Longrightarrow>
    copied (m(d := m s)) (d + 1) (s + 1) n = copied m d s (Suc n)"
  using copied_append [of d s 1 n m] by (simp add: copied_1)

lemma memcpy_bottom_copied:
  "fwd_ok d s k \<Longrightarrow> k \<le> 2 ^ 32 \<Longrightarrow> memcpy_bottom k m d s = copied m d s k"
proof (induction k arbitrary: m d s)
  case (Suc k)
  then show ?case using fwd_ok_shift [of d s 1 k] by (simp add: copied_Suc)
qed simp

lemma memcpy_bottom_add:
  "memcpy_bottom (j + k) m d s =
    memcpy_bottom k (memcpy_bottom j m d s) (d + of_nat j) (s + of_nat j)"
  by (induction j arbitrary: m d s) (simp_all add: add.assoc)

text \<open>One \<open>movsl\<close> is four \<open>movsb\<close>, as long as it overwrites nothing it still reads.\<close>

lemma movsl_bytes:
  assumes "fwd_ok d s 4"
  shows "wr32 m d (rd32 m s) = memcpy_bottom 4 m d s"
proof -
  have b: "ucast (rd32 m s) = m s" "ucast (drop_bit 8 (rd32 m s)) = m (s + 1)"
    "ucast (drop_bit 16 (rd32 m s)) = m (s + 2)" "ucast (drop_bit 24 (rd32 m s)) = m (s + 3)"
    unfolding rd32_def by (rule bit_word_eqI, auto simp: bit_simps dest: bit_imp_le_length)+
  have ne: "d \<noteq> s + 1" "d \<noteq> s + 2" "d \<noteq> s + 3" "d + 1 \<noteq> s + 2" "d + 1 \<noteq> s + 3" "d + 2 \<noteq> s + 3"
    using fwd_okD [OF assms, of 0 1] fwd_okD [OF assms, of 0 2] fwd_okD [OF assms, of 0 3]
      fwd_okD [OF assms, of 1 2] fwd_okD [OF assms, of 1 3] fwd_okD [OF assms, of 2 3]
    by simp_all
  have "memcpy_bottom (Suc (Suc (Suc (Suc 0)))) m d s =
      m(d := m s, d + 1 := m (s + 1), d + 2 := m (s + 2), d + 3 := m (s + 3))"
    using ne by (simp add: add.assoc)
  moreover have "Suc (Suc (Suc (Suc 0))) = 4" by simp
  ultimately show ?thesis by (simp only: wr32_def b)
qed

lemma rep_movsl_bytes:
  "fwd_ok d s (4 * k) \<Longrightarrow>
    rep_movsl k m d s = (memcpy_bottom (4 * k) m d s, d + of_nat (4 * k), s + of_nat (4 * k))"
proof (induction k arbitrary: m d s)
  case (Suc k)
  then have "fwd_ok d s 4" "fwd_ok (d + 4) (s + 4) (4 * k)"
    using fwd_ok_mono [of d s "4 * Suc k" 4] fwd_ok_shift [of d s 4 "4 * k"] by simp_all
  with Suc.IH show ?case
    using memcpy_bottom_add [of 4 "4 * k" m d s] by (simp add: movsl_bytes algebra_simps)
qed simp

lemma memcpy_top_bytes:
  "fwd_ok d s (unat n) \<Longrightarrow> memcpy_top m d s n = memcpy_bottom (unat n) m d s"
proof (induction m d s n rule: memcpy_top.induct)
  case (1 m d s n)
  show ?case
  proof (cases "n = 0 \<or> d AND 3 = 0")
    case True
    have "fwd_ok d s (4 * unat (drop_bit 2 n))"
      using "1.prems" unat_split4 [of n] by (auto intro: fwd_ok_mono)
    with True show ?thesis
      using memcpy_bottom_add [of "4 * unat (drop_bit 2 n)" "unat (n AND 3)" m d s]
        unat_split4 [of n]
      by (subst memcpy_top.simps) (auto simp: rep_movsl_bytes)
  next
    case False
    then have n: "unat n = 1 + unat (n - 1)" using word_pos_unat [of n] by simp
    from False have "memcpy_top m d s n = memcpy_top (m(d := m s)) (d + 1) (s + 1) (n - 1)"
      by (subst memcpy_top.simps) simp
    also have "\<dots> = memcpy_bottom (unat (n - 1)) (m(d := m s)) (d + 1) (s + 1)"
      using False "1.prems" fwd_ok_shift [of d s 1 "unat (n - 1)"] n
      by (intro "1.IH") simp_all
    also have "\<dots> = memcpy_bottom (unat n) m d s"
      using n by simp
    finally show ?thesis .
  qed
qed

lemma memcpy_copied:
  "fwd_ok d s (unat n) \<Longrightarrow> memcpy m d s n = copied m d s (unat n)"
  using memcpy_top_bytes [of d s n m] memcpy_bottom_copied [of d s "unat n" m] unat_u32 [of n]
  by (simp add: memcpy_def)

lemma rep_movsb_fwd: "rep_movsb False k m d s = memcpy_bottom k m d s"
  by (induction k arbitrary: m d s) simp_all

lemma copied_Suc_last:
  assumes ok: "bwd_ok d s (Suc n)" and b: "Suc n \<le> 2 ^ 32"
  shows "copied (m(d + of_nat n := m (s + of_nat n))) d s n = copied m d s (Suc n)"
proof
  fix a
  have last: "unat (a - d) = n \<longleftrightarrow> a = d + of_nat n"
    using b unat_eq_of_nat [of n "a - d"] by (auto simp: diff_eq_eq add.commute)
  have ne: "s + (a - d) \<noteq> d + of_nat n" if "unat (a - d) < n"
    using bwd_okD [OF ok that] by auto
  show "copied (m(d + of_nat n := m (s + of_nat n))) d s n a = copied m d s (Suc n) a"
    using last ne unfolding copied_def by (auto simp: less_Suc_eq)
qed

lemma rep_movsb_bwd:
  "bwd_ok d s k \<Longrightarrow> k \<le> 2 ^ 32 \<Longrightarrow>
    rep_movsb True k m (d + of_nat k - 1) (s + of_nat k - 1) = copied m d s k"
proof (induction k arbitrary: m)
  case (Suc k)
  from Suc.prems have "bwd_ok d s k" by (auto simp: bwd_ok_def)
  then show ?case using Suc.IH Suc.prems copied_Suc_last [of d s k m] by simp
qed simp

text \<open>
  Two regions that do not wrap around the address space may overlap in any way: whichever
  branch \<open>memmove\<close> takes, the direction suits it.
\<close>

definition no_wrap :: "addr \<Rightarrow> u32 \<Rightarrow> bool" where
  "no_wrap a n \<longleftrightarrow> unat a + unat n \<le> 2 ^ 32"

lemma unat_add_no_wrap:
  "no_wrap a n \<Longrightarrow> i < unat n \<Longrightarrow> unat (a + of_nat i) = unat a + i"
  unfolding no_wrap_def using unat_u32 [of n]
  by (simp add: unat_word_ariths unat_of_nat take_bit_nat_eq_self)

lemma no_wrap_fwd_ok:
  assumes "no_wrap d n" "no_wrap s n" "d \<le> s"
  shows "fwd_ok d s (unat n)"
  unfolding fwd_ok_def
proof (intro allI impI notI)
  fix i j assume ij: "i < j \<and> j < unat n" and eq: "d + of_nat i = s + of_nat j"
  then have "unat d + i = unat s + j"
    using unat_add_no_wrap [OF assms(1), of i] unat_add_no_wrap [OF assms(2), of j] by simp
  with ij assms(3) show False by (simp add: word_le_nat_alt)
qed

lemma no_wrap_bwd_ok:
  assumes "no_wrap d n" "no_wrap s n" "s \<le> d"
  shows "bwd_ok d s (unat n)"
  unfolding bwd_ok_def
proof (intro allI impI notI)
  fix i j assume ij: "j < i \<and> i < unat n" and eq: "d + of_nat i = s + of_nat j"
  then have "unat d + i = unat s + j"
    using unat_add_no_wrap [OF assms(1), of i] unat_add_no_wrap [OF assms(2), of j] by simp
  with ij assms(3) show False by (simp add: word_le_nat_alt)
qed

lemma memmove_copied:
  assumes "no_wrap d n" "no_wrap s n"
  shows "memmove m d s n = (copied m d s (unat n), s < d)"
proof (cases "d \<le> s")
  case True
  then have "fwd_ok d s (unat n)" using assms by (intro no_wrap_fwd_ok)
  with True show ?thesis
    using unat_u32 [of n] memcpy_bottom_copied [of d s "unat n" m]
    by (simp add: memmove_def rep_movsb_fwd not_less)
next
  case False
  then have "bwd_ok d s (unat n)" using assms by (intro no_wrap_bwd_ok) auto
  then show ?thesis
    using rep_movsb_bwd [of d s "unat n" m] False unat_u32 [of n]
    by (simp add: memmove_def not_le)
qed

lemma copied_put:
  assumes "n \<le> 2 ^ 32"
  shows "copied m d s n = put m d (load m s n)"
proof
  fix a
  show "copied m d s n a = put m d (load m s n) a"
  proof (cases "unat (a - d) < n")
    case True
    then show ?thesis
      using put_inside [of "unat (a - d)" "load m s n" m d] assms
      by (simp add: copied_def)
  next
    case False
    then show ?thesis by (simp add: copied_def put_outside)
  qed
qed

lemma memcpy_put: "disjoint_regions d s (unat n) \<Longrightarrow> memcpy m d s n = put m d (load m s (unat n))"
  by (simp add: memcpy_copied disjoint_fwd_ok copied_put)

subsection \<open>Properties\<close>

text \<open>C25: \<open>memmove\<close> on regions that do not run over the end of the address space copies its
  source as it was before the call, overlapping or not, and writes nothing else; it returns
  with the direction flag set exactly when the destination lies above the source.\<close>
theorem memmove_correct:
  assumes "no_wrap d n" "no_wrap s n"
  shows "fst (memmove m d s n) a = (if a - d < n then m (s + (a - d)) else m a) \<and>
    (snd (memmove m d s n) \<longleftrightarrow> s < d)"
  using memmove_copied [OF assms] by (simp add: copied_def word_less_nat_alt)

lemma memmove_correct_witness:
  "fst (memmove (\<lambda>a. ucast a) 1 0 4) 4 = 3 \<and> snd (memmove (\<lambda>a. ucast a) 1 0 4)"
  using memmove_correct [of 1 4 0 "\<lambda>a. ucast a" 4] by (simp add: no_wrap_def)

text \<open>\<open>memset\<close> stores the low byte of \<open>c\<close> at the \<open>n\<close> addresses from \<open>s\<close>, for every
  alignment and every \<open>n\<close>, and \<open>memcpy\<close> of a region disjoint from its source copies it;
  neither touches any other byte.\<close>
theorem memset_memcpy_correct:
  assumes "disjoint_regions d s (unat n)"
  shows "memset m d c n a = (if a - d < n then ucast c else m a) \<and>
    memcpy m d s n a = (if a - d < n then m (s + (a - d)) else m a)"
  using memcpy_copied [OF disjoint_fwd_ok [OF assms], of m]
  by (simp add: memset_filled filled_def copied_def word_less_nat_alt)

lemma memset_memcpy_correct_witness:
  "memset (\<lambda>_. 7) 1 0x141 6 6 = 0x41 \<and> memcpy (\<lambda>a. ucast a) 1 9 6 6 = 14"
  using memset_memcpy_correct [of 1 9 6 "\<lambda>_. 7" "0x141" 6]
    memset_memcpy_correct [of 1 9 6 "\<lambda>a. ucast a" 0 6]
  by (simp add: disjoint_below)

end
