(* ===== verification/LibString.thy ===== *)
theory LibString
  imports LibMem
begin

section \<open>String functions of lib.c\<close>

text \<open>
  \<open>strlen\<close>, \<open>strrev\<close>, \<open>itoa\<close>, \<open>strncmp\<close>, \<open>strcpy\<close> and \<open>strncpy\<close> of
  \<open>student-distrib/lib.c\<close> over the byte memory. The scans with no bound
  (\<open>strlen\<close>, \<open>strcpy\<close>, \<open>itoa\<close> with a radix below 2) are partial functions: \<open>None\<close> is a
  scan that never ends.
\<close>

subsection \<open>strlen\<close>

partial_function (option) strlen_from :: "mem \<Rightarrow> addr \<Rightarrow> u32 \<Rightarrow> u32 option" where
  "strlen_from m s len =
     (if m (s + len) = 0 then Some len else strlen_from m s (len + 1))"

definition strlen :: "mem \<Rightarrow> addr \<Rightarrow> u32 option" where
  "strlen m s = strlen_from m s 0"

declare strlen_from.simps [code]

lemma strlen_from_string:
  assumes "string_at m s xs"
  shows "k \<le> length xs \<Longrightarrow> strlen_from m s (of_nat (length xs - k)) = Some (of_nat (length xs))"
proof (induction k)
  case 0
  then show ?case using string_at_end [OF assms] by (subst strlen_from.simps) simp
next
  case (Suc k)
  let ?i = "length xs - Suc k"
  have "m (s + of_nat ?i) \<noteq> 0"
    using Suc.prems by (intro string_at_nonzero [OF assms]) simp
  moreover have "of_nat ?i + 1 = (of_nat (length xs - k) :: u32)"
    using Suc.prems by (metis Suc_diff_Suc Suc_le_lessD add.commute of_nat_Suc)
  ultimately show ?case using Suc by (subst strlen_from.simps) simp
qed

lemma strlen_string: "string_at m s xs \<Longrightarrow> strlen m s = Some (of_nat (length xs))"
  using strlen_from_string [of m s xs "length xs"] by (simp add: strlen_def)

text \<open>Whatever \<open>strlen\<close> returns, the string it measured is there.\<close>

lemma strlen_from_SomeD:
  assumes "strlen_from m s k = Some n"
  shows "m (s + n) = 0"
  using assms
proof (rule strlen_from.raw_induct [where P = "\<lambda>m s k n. m (s + n) = 0", rotated])
  fix f m s k n
  assume IH: "\<And>m s k n. f m s k = Some n \<Longrightarrow> m (s + n) = 0"
    and eq: "(if m (s + k) = 0 then Some k else f m s (k + 1)) = Some n"
  show "m (s + n) = 0"
  proof (cases "m (s + k) = 0")
    case True
    with eq show ?thesis by simp
  next
    case False
    with eq have "f m s (k + 1) = Some n" by simp
    then show ?thesis by (rule IH)
  qed
qed

text \<open>\<open>strlen\<close> returns exactly when there is a NUL byte anywhere in memory.\<close>

lemma strlen_None_iff: "strlen m s = None \<longleftrightarrow> (\<forall>a. m a \<noteq> 0)"
proof
  assume "strlen m s = None"
  then show "\<forall>a. m a \<noteq> 0"
    using string_at_exists [of m _ s] strlen_string by fastforce
next
  assume nz: "\<forall>a. m a \<noteq> 0"
  show "strlen m s = None"
    using strlen_from_SomeD [of m s 0] nz by (cases "strlen m s") (auto simp: strlen_def)
qed

subsection \<open>strrev\<close>

text \<open>\<open>beg\<close> and \<open>end\<close> are the \<open>int32_t\<close> indices; \<open>s[i]\<close> is the byte at \<open>s + i\<close>.\<close>

function strrev_loop :: "mem \<Rightarrow> addr \<Rightarrow> int \<Rightarrow> int \<Rightarrow> mem" where
  "strrev_loop m s beg en =
     (if beg < en then
        strrev_loop (m(s + word_of_int en := m (s + word_of_int beg),
                       s + word_of_int beg := m (s + word_of_int en))) s (beg + 1) (en - 1)
      else m)"
  by pat_completeness auto
termination
  by (relation "measure (\<lambda>(m, s, beg, en). nat (en - beg))") auto

declare strrev_loop.simps [simp del]

definition strrev :: "mem \<Rightarrow> addr \<Rightarrow> mem option" where
  "strrev m s = do { n \<leftarrow> strlen m s; Some (strrev_loop m s 0 (sint (n - 1))) }"

text \<open>What the loop does: the bytes with index in \<open>[b, e]\<close> change places about the middle.\<close>

definition mirrored :: "mem \<Rightarrow> addr \<Rightarrow> int \<Rightarrow> int \<Rightarrow> mem" where
  "mirrored m s b e = (\<lambda>a. let i = uint (a - s) in
     if b \<le> i \<and> i \<le> e then m (s + word_of_int (b + e - i)) else m a)"

lemma index_inj:
  "0 \<le> i \<Longrightarrow> i < 2 ^ 32 \<Longrightarrow> 0 \<le> j \<Longrightarrow> j < 2 ^ 32 \<Longrightarrow>
    (word_of_int i :: u32) = word_of_int j \<longleftrightarrow> i = j"
  by (auto simp: word_of_int_eq_iff take_bit_int_eq_self)

lemma mirrored_at:
  "0 \<le> i \<Longrightarrow> i < 2 ^ 32 \<Longrightarrow> mirrored m s b e (s + word_of_int i) =
    (if b \<le> i \<and> i \<le> e then m (s + word_of_int (b + e - i)) else m (s + word_of_int i))"
  by (simp add: mirrored_def uint_word_of_int take_bit_int_eq_self del: of_int_add of_int_diff)

lemma index_exhaust:
  obtains i where "(a :: u32) = s + word_of_int i" "0 \<le> i" "i < 2 ^ 32"
proof
  show "a = s + word_of_int (uint (a - s))" by simp
  show "0 \<le> uint (a - s)" by simp
  show "uint (a - s) < 2 ^ 32" using uint_lt2p [of "a - s"] by simp
qed

lemma strrev_loop_mirrored:
  "0 \<le> b \<Longrightarrow> e < 2 ^ 32 \<Longrightarrow> strrev_loop m s b e = mirrored m s b e"
proof (induction m s b e rule: strrev_loop.induct)
  case (1 m s b e)
  show ?case
  proof (cases "b < e")
    case True
    let ?m = "m(s + word_of_int e := m (s + word_of_int b), s + word_of_int b := m (s + word_of_int e))"
    have "strrev_loop m s b e = mirrored ?m s (b + 1) (e - 1)"
      using True "1.prems" by (subst strrev_loop.simps) (simp, intro "1.IH", simp_all)
    also have "\<dots> = mirrored m s b e"
    proof
      fix a
      obtain i where a: "a = s + word_of_int i" "0 \<le> i" "i < 2 ^ 32" by (rule index_exhaust)
      consider "i = b" | "i = e" | "b < i" "i < e" | "i < b \<or> e < i" by linarith
      then show "mirrored ?m s (b + 1) (e - 1) a = mirrored m s b e a"
        unfolding a(1) using a(2,3) True "1.prems"
        by cases (auto simp: mirrored_at index_inj simp del: of_int_add of_int_diff)
    qed
    finally show ?thesis .
  next
    case False
    have "mirrored m s b e a = m a" for a
    proof -
      obtain i where a: "a = s + word_of_int i" "0 \<le> i" "i < 2 ^ 32" by (rule index_exhaust)
      have "b + e - i = i" if "b \<le> i" "i \<le> e" using that False by linarith
      then show ?thesis
        unfolding a(1) using a(2,3) by (auto simp: mirrored_at simp del: of_int_add of_int_diff)
    qed
    with False show ?thesis by (subst strrev_loop.simps) auto
  qed
qed

lemma strrev_string:
  assumes s: "string_at m s xs" and len: "length xs < 2 ^ 31"
  shows "\<exists>m'. strrev m s = Some m' \<and> string_at m' s (rev xs) \<and>
    (\<forall>a. length xs \<le> unat (a - s) \<longrightarrow> m' a = m a)"
proof -
  let ?n = "int (length xs)"
  let ?m = "mirrored m s 0 (?n - 1)"
  have "sint (of_nat (length xs) - 1 :: u32) = ?n - 1"
  proof -
    have "sint (word_of_int (?n - 1) :: u32) = ?n - 1"
      using len by (intro sint_fits) simp_all
    then show ?thesis by simp
  qed
  then have run: "strrev m s = Some ?m"
    using len by (simp add: strrev_def strlen_string [OF s] strrev_loop_mirrored)
  have at: "?m (s + word_of_int i) = m (s + word_of_int (?n - 1 - i))" if "0 \<le> i" "i < ?n" for i
    using that len by (simp add: mirrored_at del: of_int_add of_int_diff)
  have out: "?m a = m a" if "length xs \<le> unat (a - s)" for a
  proof -
    have "?n \<le> int (unat (a - s))" using that by (simp only: of_nat_le_iff)
    then show ?thesis by (simp add: mirrored_def Let_def)
  qed
  have "string_at ?m s (rev xs)"
    unfolding string_at_def
  proof (intro conjI allI impI)
    show "length (rev xs) < 2 ^ 32" "0 \<notin> set (rev xs)" using s by (simp_all add: string_at_def)
    fix i assume i: "i < length (rev xs)"
    have e: "?n - 1 - int i = int (length xs - 1 - i)" using i by simp
    have "?m (s + of_nat i) = m (s + of_nat (length xs - 1 - i))"
      using at [of "int i", unfolded e] i by (simp del: of_nat_diff)
    then show "?m (s + of_nat i) = rev xs ! i"
      using i string_at_nth [OF s, of "length xs - 1 - i"] by (simp add: rev_nth)
  next
    show "?m (s + of_nat (length (rev xs))) = 0"
      using out [of "s + of_nat (length xs)"] string_at_end [OF s] len
      by (simp add: unat_of_nat take_bit_nat_eq_self)
  qed
  then show ?thesis using run out by blast
qed

subsection \<open>itoa\<close>

text \<open>The table \<open>lookup\<close>: 36 digits and the literal's NUL.\<close>

definition itoa_lookup :: "u8 list" where
  "itoa_lookup = map of_char ''0123456789ABCDEFGHIJKLMNOPQRSTUVWXYZ'' @ [0]"

text \<open>
  The digit loop. A radix of 0 is the divide error of \<open>newval % radix\<close>, a digit of 37 or
  more is past the table (both \<open>None\<close>); a radix of 1 never gets \<open>newval\<close> to 0.
\<close>

partial_function (option) itoa_loop :: "mem \<Rightarrow> addr \<Rightarrow> u32 \<Rightarrow> u32 \<Rightarrow> (mem \<times> addr) option" where
  "itoa_loop m newbuf newval radix =
     (if newval = 0 then Some (m, newbuf)
      else if radix = 0 \<or> length itoa_lookup \<le> unat (newval mod radix) then None
      else itoa_loop (m(newbuf := itoa_lookup ! unat (newval mod radix))) (newbuf + 1)
             (newval div radix) radix)"

declare itoa_loop.simps [code]

definition itoa :: "mem \<Rightarrow> u32 \<Rightarrow> addr \<Rightarrow> u32 \<Rightarrow> mem option" where
  "itoa m value buf radix =
     (if value = 0 then Some (m(buf := 0x30, buf + 1 := 0))
      else do {
        (m1, newbuf) \<leftarrow> itoa_loop m buf value radix;
        strrev (m1(newbuf := 0)) buf
      })"

text \<open>The reference: the digits of a number, least significant first, and their value.\<close>

fun digits_lsf :: "nat \<Rightarrow> nat \<Rightarrow> nat list" where
  "digits_lsf r n = (if n = 0 \<or> r < 2 then [] else n mod r # digits_lsf r (n div r))"

declare digits_lsf.simps [simp del]

definition digits_value :: "nat \<Rightarrow> nat list \<Rightarrow> nat" where
  "digits_value r ds = foldr (\<lambda>d acc. d + r * acc) ds 0"

definition digit_bytes :: "nat \<Rightarrow> nat \<Rightarrow> u8 list" where
  "digit_bytes r n = map (\<lambda>d. itoa_lookup ! d) (digits_lsf r n)"

text \<open>The text \<open>itoa\<close> leaves: most significant digit first, a single \<open>0\<close> for zero.\<close>

definition number_text :: "nat \<Rightarrow> nat \<Rightarrow> u8 list" where
  "number_text r n = (if n = 0 then [0x30] else rev (digit_bytes r n))"

lemma digits_lsf_less: "d \<in> set (digits_lsf r n) \<Longrightarrow> d < r"
proof (induction r n rule: digits_lsf.induct)
  case (1 r n)
  then show ?case by (subst (asm) (2) digits_lsf.simps) (auto split: if_splits)
qed

lemma digits_value_digits: "2 \<le> r \<Longrightarrow> digits_value r (digits_lsf r n) = n"
proof (induction r n rule: digits_lsf.induct)
  case (1 r n)
  then show ?case
    by (subst digits_lsf.simps) (auto simp: digits_value_def)
qed

lemma length_digits_lsf: "2 \<le> r \<Longrightarrow> n < 2 ^ k \<Longrightarrow> length (digits_lsf r n) \<le> k"
proof (induction k arbitrary: n)
  case 0
  then show ?case by (simp add: digits_lsf.simps)
next
  case (Suc k)
  show ?case
  proof (cases "n = 0")
    case True
    then show ?thesis by (simp add: digits_lsf.simps)
  next
    case False
    have "n div r \<le> n div 2" using Suc.prems(1) by (simp add: div_le_mono2)
    also have "n div 2 < 2 ^ k" using Suc.prems(2) by simp
    finally have "length (digits_lsf r (n div r)) \<le> k" using Suc by blast
    then show ?thesis using False Suc.prems(1) by (subst digits_lsf.simps) simp
  qed
qed

lemma itoa_lookup_table:
  "itoa_lookup = [0x30, 0x31, 0x32, 0x33, 0x34, 0x35, 0x36, 0x37, 0x38, 0x39, 0x41, 0x42, 0x43,
     0x44, 0x45, 0x46, 0x47, 0x48, 0x49, 0x4A, 0x4B, 0x4C, 0x4D, 0x4E, 0x4F, 0x50, 0x51, 0x52,
     0x53, 0x54, 0x55, 0x56, 0x57, 0x58, 0x59, 0x5A, 0]"
  by (simp add: itoa_lookup_def)

lemma itoa_lookup_nonzero: "d < 36 \<Longrightarrow> itoa_lookup ! d \<noteq> 0"
proof -
  have "list_all (\<lambda>d. itoa_lookup ! d \<noteq> 0) [0..<36]"
    by (simp add: itoa_lookup_table upt_rec)
  then show "d < 36 \<Longrightarrow> ?thesis" by (simp add: list_all_iff)
qed

lemma digit_bytes_step:
  "n \<noteq> 0 \<Longrightarrow> 2 \<le> r \<Longrightarrow> digit_bytes r n = itoa_lookup ! (n mod r) # digit_bytes r (n div r)"
  unfolding digit_bytes_def by (subst digits_lsf.simps) simp

lemma digit_bytes_0 [simp]: "digit_bytes r 0 = []"
  by (simp add: digit_bytes_def digits_lsf.simps)

lemma itoa_loop_digits:
  assumes r: "2 \<le> unat r" "unat r \<le> 36"
  shows "itoa_loop m nb v r = Some (put m nb (digit_bytes (unat r) (unat v)),
    nb + of_nat (length (digit_bytes (unat r) (unat v))))"
proof (induction "unat v" arbitrary: m nb v rule: less_induct)
  case less
  show ?case
  proof (cases "v = 0")
    case True
    then show ?thesis by (subst itoa_loop.simps) simp
  next
    case False
    then have v: "unat v \<noteq> 0" by (simp add: unat_eq_0)
    have d: "unat v mod unat r < 36" using r mod_less_divisor [of "unat r" "unat v"] by linarith
    have "unat (v div r) < unat v" using r v by (simp add: unat_div)
    then have IH: "itoa_loop (m(nb := itoa_lookup ! unat (v mod r))) (nb + 1) (v div r) r =
        Some (put (m(nb := itoa_lookup ! unat (v mod r))) (nb + 1) (digit_bytes (unat r) (unat (v div r))),
          nb + 1 + of_nat (length (digit_bytes (unat r) (unat (v div r)))))"
      by (rule less)
    have "r \<noteq> 0" using r by auto
    moreover have "\<not> length itoa_lookup \<le> unat (v mod r)"
      using d by (simp add: itoa_lookup_table unat_mod)
    ultimately show ?thesis
      using False v r IH
      by (subst itoa_loop.simps) (simp add: digit_bytes_step unat_mod unat_div add.assoc)
  qed
qed

lemma digit_bytes_nonzero: "r \<le> 36 \<Longrightarrow> 0 \<notin> set (digit_bytes r n)"
  using digits_lsf_less [of _ r n] itoa_lookup_nonzero by (force simp: digit_bytes_def)

lemma length_digit_bytes: "2 \<le> r \<Longrightarrow> length (digit_bytes r (unat (v :: u32))) \<le> 32"
  using length_digits_lsf [of r "unat v" 32] by (simp add: digit_bytes_def)

lemma itoa_number_text:
  assumes r: "2 \<le> unat r" "unat r \<le> 36"
  shows "\<exists>m'. itoa m v buf r = Some m' \<and> string_at m' buf (number_text (unat r) (unat v)) \<and>
    (\<forall>a. 33 \<le> unat (a - buf) \<longrightarrow> m' a = m a)"
proof (cases "v = 0")
  case True
  then show ?thesis
    by (auto simp: itoa_def number_text_def string_at_def less_Suc_eq)
next
  case False
  let ?ds = "digit_bytes (unat r) (unat v)"
  let ?m = "put m buf (?ds @ [0])"
  have len: "length ?ds \<le> 32" using r(1) by (rule length_digit_bytes)
  then have "string_at ?m buf ?ds"
    using r digit_bytes_nonzero by (intro string_at_put) auto
  then obtain m' where m': "strrev ?m buf = Some m'" "string_at m' buf (rev ?ds)"
    and out: "\<And>a. length ?ds \<le> unat (a - buf) \<Longrightarrow> m' a = ?m a"
    using strrev_string [of ?m buf ?ds] len by auto
  have "itoa m v buf r = Some m'"
    using False m'(1) by (simp add: itoa_def itoa_loop_digits [OF r] put_append)
  moreover have "m' a = m a" if "33 \<le> unat (a - buf)" for a
    using that len out [of a] put_outside [of "?ds @ [0]" a buf m] by simp
  ultimately show ?thesis
    using m'(2) False by (auto simp: number_text_def unat_eq_0)
qed

text \<open>Reading the text back gives the number: the digits of \<open>number_text\<close> are its value.\<close>

definition byte_digit :: "u8 \<Rightarrow> nat" where
  "byte_digit b = (if unat b \<le> 0x39 then unat b - 0x30 else unat b - 0x41 + 10)"

definition parse_number :: "nat \<Rightarrow> u8 list \<Rightarrow> nat" where
  "parse_number r bs = digits_value r (map byte_digit (rev bs))"

lemma byte_digit_lookup: "d < 36 \<Longrightarrow> byte_digit (itoa_lookup ! d) = d"
proof -
  have "list_all (\<lambda>d. byte_digit (itoa_lookup ! d) = d) [0..<36]"
    by (simp add: itoa_lookup_table byte_digit_def upt_rec)
  then show "d < 36 \<Longrightarrow> ?thesis" by (simp add: list_all_iff)
qed

lemma parse_number_text:
  assumes "2 \<le> r" "r \<le> 36"
  shows "parse_number r (number_text r n) = n"
proof (cases "n = 0")
  case True
  then show ?thesis by (simp add: number_text_def parse_number_def digits_value_def byte_digit_def)
next
  case False
  have "map byte_digit (digit_bytes r n) = digits_lsf r n"
    using digits_lsf_less [of _ r n] assms(2)
    by (force simp: digit_bytes_def byte_digit_lookup intro!: map_idI)
  then show ?thesis
    using False assms(1) by (simp add: number_text_def parse_number_def rev_map digits_value_digits)
qed

subsection \<open>strncmp\<close>

text \<open>
  \<open>i\<close> is an \<open>int32_t\<close> compared with the \<open>uint32_t\<close> bound, so the comparison is
  unsigned; the bytes are \<open>int8_t\<close>, so the result is a difference of signed bytes.
\<close>

function strncmp_loop :: "mem \<Rightarrow> addr \<Rightarrow> addr \<Rightarrow> u32 \<Rightarrow> u32 \<Rightarrow> int" where
  "strncmp_loop m s1 s2 n i =
     (if i < n then
        (if m (s1 + i) \<noteq> m (s2 + i) \<or> m (s1 + i) = 0
         then sint (m (s1 + i)) - sint (m (s2 + i))
         else strncmp_loop m s1 s2 n (i + 1))
      else 0)"
  by pat_completeness auto
termination
proof (relation "measure (\<lambda>(m, s1, s2, n, i). unat (n - i))")
  fix m :: mem and s1 s2 n i :: u32
  assume "i < n"
  then have "n - i \<noteq> 0" by auto
  then show "((m, s1, s2, n, i + 1), (m, s1, s2, n, i)) \<in>
      measure (\<lambda>(m, s1, s2, n, i). unat (n - i))"
    using measure_unat [of "n - i"] by (simp add: diff_diff_eq)
qed simp

declare strncmp_loop.simps [simp del]

definition strncmp :: "mem \<Rightarrow> addr \<Rightarrow> addr \<Rightarrow> u32 \<Rightarrow> int" where
  "strncmp m s1 s2 n = strncmp_loop m s1 s2 n 0"

text \<open>Equal up to the first NUL of \<open>s1\<close> or the bound, whichever comes first.\<close>

definition agree_upto :: "mem \<Rightarrow> addr \<Rightarrow> addr \<Rightarrow> nat \<Rightarrow> nat \<Rightarrow> bool" where
  "agree_upto m s1 s2 i n \<longleftrightarrow> (\<forall>k. i \<le> k \<and> k < n \<and> (\<forall>j. i \<le> j \<and> j < k \<longrightarrow> m (s1 + of_nat j) \<noteq> 0)
     \<longrightarrow> m (s1 + of_nat k) = m (s2 + of_nat k))"

lemma agree_upto_step:
  "i < n \<Longrightarrow> agree_upto m s1 s2 i n \<longleftrightarrow> m (s1 + of_nat i) = m (s2 + of_nat i) \<and>
    (m (s1 + of_nat i) \<noteq> 0 \<longrightarrow> agree_upto m s1 s2 (Suc i) n)"
proof (intro iffI conjI impI)
  assume "i < n" "agree_upto m s1 s2 i n"
  then show "m (s1 + of_nat i) = m (s2 + of_nat i)" by (auto simp: agree_upto_def)
next
  assume ag: "agree_upto m s1 s2 i n" and nz: "m (s1 + of_nat i) \<noteq> 0"
  show "agree_upto m s1 s2 (Suc i) n"
    unfolding agree_upto_def
  proof (intro allI impI, elim conjE)
    fix k assume k: "Suc i \<le> k" "k < n" "\<forall>j. Suc i \<le> j \<and> j < k \<longrightarrow> m (s1 + of_nat j) \<noteq> 0"
    then have "m (s1 + of_nat j) \<noteq> 0" if "i \<le> j" "j < k" for j
      using nz that by (cases "j = i") simp_all
    with ag k show "m (s1 + of_nat k) = m (s2 + of_nat k)" by (simp add: agree_upto_def)
  qed
next
  assume "m (s1 + of_nat i) = m (s2 + of_nat i) \<and>
    (m (s1 + of_nat i) \<noteq> 0 \<longrightarrow> agree_upto m s1 s2 (Suc i) n)"
  then show "agree_upto m s1 s2 i n"
    unfolding agree_upto_def
  proof (intro allI impI, elim conjE)
    fix k assume eq: "m (s1 + of_nat i) = m (s2 + of_nat i)"
      and rest: "m (s1 + of_nat i) \<noteq> 0 \<longrightarrow> (\<forall>k. Suc i \<le> k \<and> k < n \<and>
        (\<forall>j. Suc i \<le> j \<and> j < k \<longrightarrow> m (s1 + of_nat j) \<noteq> 0) \<longrightarrow>
        m (s1 + of_nat k) = m (s2 + of_nat k))"
      and k: "i \<le> k" "k < n" "\<forall>j. i \<le> j \<and> j < k \<longrightarrow> m (s1 + of_nat j) \<noteq> 0"
    show "m (s1 + of_nat k) = m (s2 + of_nat k)"
    proof (cases "k = i")
      case True
      with eq show ?thesis by simp
    next
      case False
      with k have "Suc i \<le> k" "m (s1 + of_nat i) \<noteq> 0" by simp_all
      with rest k show ?thesis by simp
    qed
  qed
qed

lemma strncmp_loop_eq0: "strncmp_loop m s1 s2 n i = 0 \<longleftrightarrow> agree_upto m s1 s2 (unat i) (unat n)"
proof (induction m s1 s2 n i rule: strncmp_loop.induct)
  case (1 m s1 s2 n i)
  show ?case
  proof (cases "i < n")
    case True
    then have "unat (i + 1) = Suc (unat i)" by (rule unat_less_Suc)
    then have step: "agree_upto m s1 s2 (unat i) (unat n) \<longleftrightarrow> m (s1 + i) = m (s2 + i) \<and>
        (m (s1 + i) \<noteq> 0 \<longrightarrow> agree_upto m s1 s2 (unat (i + 1)) (unat n))"
      using True agree_upto_step [of "unat i" "unat n" m s1 s2] by (simp add: word_less_nat_alt)
    show ?thesis
    proof (cases "m (s1 + i) \<noteq> m (s2 + i) \<or> m (s1 + i) = 0")
      case stop: True
      have "sint (m (s1 + i)) - sint (m (s2 + i)) = 0 \<longleftrightarrow> m (s1 + i) = m (s2 + i)"
        using signed_word_eqI by auto
      moreover have "strncmp_loop m s1 s2 n i = sint (m (s1 + i)) - sint (m (s2 + i))"
        using True stop by (subst strncmp_loop.simps) (simp only: if_True)
      ultimately show ?thesis using step stop by (simp only: simp_thms) blast
    next
      case go: False
      have "strncmp_loop m s1 s2 n i = strncmp_loop m s1 s2 n (i + 1)"
        using True go by (subst strncmp_loop.simps) (simp only: if_True if_False)
      then show ?thesis using "1.IH" [OF True go] step go by simp
    qed
  next
    case False
    then show ?thesis
      by (subst strncmp_loop.simps) (auto simp: agree_upto_def word_less_nat_alt)
  qed
qed

lemma strncmp_eq0: "strncmp m s1 s2 n = 0 \<longleftrightarrow> agree_upto m s1 s2 0 (unat n)"
  by (simp add: strncmp_def strncmp_loop_eq0)

text \<open>On two strings: they agree on the first \<open>n\<close> bytes, the NUL that ends them included.\<close>

lemma strncmp_strings:
  assumes xs: "string_at m s1 xs" and ys: "string_at m s2 ys"
  shows "strncmp m s1 s2 n = 0 \<longleftrightarrow> take (unat n) (xs @ [0]) = take (unat n) (ys @ [0])"
proof -
  have at: "m (s1 + of_nat k) = (xs @ [0]) ! k" if "k \<le> length xs" for k
    using that string_at_nth [OF xs] string_at_end [OF xs] by (cases "k = length xs") (auto simp: nth_append)
  have bt: "m (s2 + of_nat k) = (ys @ [0]) ! k" if "k \<le> length ys" for k
    using that string_at_nth [OF ys] string_at_end [OF ys] by (cases "k = length ys") (auto simp: nth_append)
  show ?thesis
    unfolding strncmp_eq0
  proof
    assume ag: "agree_upto m s1 s2 0 (unat n)"
    have eq: "k < unat n \<Longrightarrow> k \<le> length xs \<Longrightarrow> m (s1 + of_nat k) = m (s2 + of_nat k)" for k
      using ag string_at_nonzero [OF xs] unfolding agree_upto_def by auto
    show "take (unat n) (xs @ [0]) = take (unat n) (ys @ [0])"
    proof (rule nth_equalityI)
      have "length xs \<le> length ys" if "length ys < unat n"
        using eq [of "length ys"] string_at_end [OF ys] string_at_nonzero [OF xs, of "length ys"] that
        by (metis not_less less_imp_le)
      moreover have "length ys \<le> length xs" if "length xs < unat n"
        using eq [of "length xs"] string_at_end [OF xs] string_at_nonzero [OF ys, of "length xs"] that
        by (metis not_less order.refl)
      ultimately show len: "length (take (unat n) (xs @ [0])) = length (take (unat n) (ys @ [0]))"
        by (cases "length xs < unat n"; cases "length ys < unat n") (auto simp: min_def)
      fix i assume "i < length (take (unat n) (xs @ [0]))"
      then show "take (unat n) (xs @ [0]) ! i = take (unat n) (ys @ [0]) ! i"
        using eq [of i] at [of i] bt [of i] len by (auto simp del: take_append)
    qed
  next
    assume eq: "take (unat n) (xs @ [0]) = take (unat n) (ys @ [0])"
    show "agree_upto m s1 s2 0 (unat n)"
      unfolding agree_upto_def
    proof (intro allI impI, elim conjE)
      fix k assume k: "k < unat n" "\<forall>j. 0 \<le> j \<and> j < k \<longrightarrow> m (s1 + of_nat j) \<noteq> 0"
      have "k \<le> length xs" using k(2) string_at_end [OF xs] by (metis le0 not_less)
      moreover have "k \<le> length ys"
        using arg_cong [OF eq, of length] \<open>k \<le> length xs\<close> k(1) by auto
      moreover have "(xs @ [0]) ! k = (ys @ [0]) ! k"
        using arg_cong [OF eq, of "\<lambda>l. l ! k"] k(1) by (simp del: take_append)
      ultimately show "m (s1 + of_nat k) = m (s2 + of_nat k)" using at bt by simp
    qed
  qed
qed

text \<open>A string against a field of \<open>k\<close> bytes that is NUL-terminated only when shorter.\<close>

lemma strncmp_field:
  assumes s: "string_at m s1 xs" and n: "unat n \<le> k" "length xs < unat n \<or> length xs = unat n \<and> unat n = k"
  shows "strncmp m s1 a n = 0 \<longleftrightarrow> takeWhile (\<lambda>b. b \<noteq> 0) (load m a k) = xs"
proof -
  have nz: "0 \<notin> set xs" and len: "length xs \<le> k" using s n by (auto simp: string_at_def)
  have at: "m (s1 + of_nat k) = (xs @ [0]) ! k" if "k \<le> length xs" for k
    using that string_at_nth [OF s] string_at_end [OF s] by (cases "k = length xs") (auto simp: nth_append)
  have "strncmp m s1 a n = 0 \<longleftrightarrow> (\<forall>i < unat n. i \<le> length xs \<longrightarrow> (xs @ [0]) ! i = m (a + of_nat i))"
    unfolding strncmp_eq0 agree_upto_def
  proof (intro iffI allI impI)
    fix i assume ag: "\<forall>k. 0 \<le> k \<and> k < unat n \<and> (\<forall>j. 0 \<le> j \<and> j < k \<longrightarrow> m (s1 + of_nat j) \<noteq> 0) \<longrightarrow>
        m (s1 + of_nat k) = m (a + of_nat k)" and i: "i < unat n" "i \<le> length xs"
    then have "m (s1 + of_nat i) = m (a + of_nat i)"
      using string_at_nonzero [OF s] by auto
    with at i show "(xs @ [0]) ! i = m (a + of_nat i)" by simp
  next
    fix i assume eq: "\<forall>i < unat n. i \<le> length xs \<longrightarrow> (xs @ [0]) ! i = m (a + of_nat i)"
      and i: "0 \<le> i \<and> i < unat n \<and> (\<forall>j. 0 \<le> j \<and> j < i \<longrightarrow> m (s1 + of_nat j) \<noteq> 0)"
    then have "i \<le> length xs" using string_at_end [OF s] by (metis le0 not_less)
    with eq i at show "m (s1 + of_nat i) = m (a + of_nat i)" by simp
  qed
  also have "\<dots> \<longleftrightarrow> (\<exists>zs. load m a k = xs @ zs \<and> (zs = [] \<or> hd zs = 0))"
  proof
    assume eq: "\<forall>i < unat n. i \<le> length xs \<longrightarrow> (xs @ [0]) ! i = m (a + of_nat i)"
    have "m (a + of_nat i) = xs ! i" if "i < length xs" for i
      using eq [rule_format, of i] n(2) that by (auto simp: nth_append)
    then have "take (length xs) (load m a k) = xs"
      using len by (intro nth_equalityI) auto
    then have "load m a k = xs @ drop (length xs) (load m a k)" by (metis append_take_drop_id)
    moreover have "hd (drop (length xs) (load m a k)) = 0" if "length xs < k"
      using eq n that by (auto simp: hd_drop_conv_nth)
    ultimately show "\<exists>zs. load m a k = xs @ zs \<and> (zs = [] \<or> hd zs = 0)"
      by (cases "length xs < k") auto
  next
    assume "\<exists>zs. load m a k = xs @ zs \<and> (zs = [] \<or> hd zs = 0)"
    then obtain zs where zs: "load m a k = xs @ zs" "zs = [] \<or> hd zs = 0" by blast
    show "\<forall>i < unat n. i \<le> length xs \<longrightarrow> (xs @ [0]) ! i = m (a + of_nat i)"
    proof (intro allI impI)
      fix i assume i: "i < unat n" "i \<le> length xs"
      then have "m (a + of_nat i) = (xs @ zs) ! i" using n zs(1) nth_load [of i k m a] by simp
      moreover have "zs \<noteq> [] \<and> hd zs = 0" if "i = length xs"
        using zs i n that arg_cong [OF zs(1), of length] by auto
      ultimately show "(xs @ [0]) ! i = m (a + of_nat i)"
        using i by (cases "i = length xs") (auto simp: nth_append hd_conv_nth)
    qed
  qed
  finally show ?thesis using takeWhile_nonzero_eq [OF nz] by blast
qed

subsection \<open>strcpy and strncpy\<close>

partial_function (option) strcpy_loop :: "mem \<Rightarrow> addr \<Rightarrow> addr \<Rightarrow> u32 \<Rightarrow> mem option" where
  "strcpy_loop m dest src i =
     (if m (src + i) = 0 then Some (m(dest + i := 0))
      else strcpy_loop (m(dest + i := m (src + i))) dest src (i + 1))"

declare strcpy_loop.simps [code]

definition strcpy :: "mem \<Rightarrow> addr \<Rightarrow> addr \<Rightarrow> mem option" where
  "strcpy m dest src = strcpy_loop m dest src 0"

function strncpy_copy :: "mem \<Rightarrow> addr \<Rightarrow> addr \<Rightarrow> u32 \<Rightarrow> u32 \<Rightarrow> mem \<times> u32" where
  "strncpy_copy m dest src n i =
     (if m (src + i) \<noteq> 0 \<and> i < n
      then strncpy_copy (m(dest + i := m (src + i))) dest src n (i + 1) else (m, i))"
  by pat_completeness auto
termination
  by (relation "measure (\<lambda>(m, d, s, n, i). unat n - unat i)")
    (auto simp: unat_less_Suc word_less_nat_alt)

function strncpy_pad :: "mem \<Rightarrow> addr \<Rightarrow> u32 \<Rightarrow> u32 \<Rightarrow> mem" where
  "strncpy_pad m dest n i =
     (if i < n then strncpy_pad (m(dest + i := 0)) dest n (i + 1) else m)"
  by pat_completeness auto
termination
  by (relation "measure (\<lambda>(m, d, n, i). unat n - unat i)")
    (auto simp: unat_less_Suc word_less_nat_alt)

declare strncpy_copy.simps [simp del] strncpy_pad.simps [simp del]

definition strncpy :: "mem \<Rightarrow> addr \<Rightarrow> addr \<Rightarrow> u32 \<Rightarrow> mem" where
  "strncpy m dest src n =
     (let (m1, i) = strncpy_copy m dest src n 0 in strncpy_pad m1 dest n i)"

lemma put_snoc: "put m a (xs @ [x]) = (put m a xs)(a + of_nat (length xs) := x)"
  by (simp add: put_append)

lemma put_disjoint_src:
  assumes "disjoint_regions d s n" "length xs \<le> n" "n \<le> 2 ^ 32" "j < n"
  shows "put m d xs (s + of_nat j) = m (s + of_nat j)"
proof (rule put_outside, rule ccontr)
  assume "\<not> length xs \<le> unat (s + of_nat j - d)"
  then have "unat (s + of_nat j - d) < n" using assms(2) by simp
  moreover have "d + of_nat (unat (s + of_nat j - d)) = s + of_nat j" by simp
  ultimately show False using assms(1,4) unfolding disjoint_regions_def by blast
qed

lemma strcpy_string:
  assumes s: "string_at m src xs" and dj: "disjoint_regions dest src (Suc (length xs))"
  shows "strcpy m dest src = Some (put m dest (xs @ [0]))"
proof -
  have len: "length xs < 2 ^ 32" using s by (simp add: string_at_def)
  have src: "put m dest ys (src + of_nat j) = m (src + of_nat j)"
    if "length ys \<le> length xs" "j \<le> length xs" for ys j
    using put_disjoint_src [OF dj, of ys j m] that len by simp
  have "strcpy_loop (put m dest (take (length xs - k) xs)) dest src (of_nat (length xs - k)) =
      Some (put m dest (xs @ [0]))" if "k \<le> length xs" for k
    using that
  proof (induction k)
    case 0
    then show ?case
      using src [of xs "length xs"] string_at_end [OF s]
      by (subst strcpy_loop.simps) (simp add: put_snoc)
  next
    case (Suc k)
    define i where "i = length xs - Suc k"
    have i: "i < length xs" "length xs - k = Suc i" using Suc.prems by (auto simp: i_def)
    have b: "put m dest (take i xs) (src + of_nat i) = xs ! i"
      using src [of "take i xs" i] string_at_nth [OF s i(1)] i by simp
    then have "put m dest (take i xs) (src + of_nat i) \<noteq> 0"
      using i s by (metis nth_mem string_at_def)
    moreover have "(put m dest (take i xs))(dest + of_nat i := xs ! i) = put m dest (take (Suc i) xs)"
      using i put_snoc [of m dest "take i xs" "xs ! i"] by (simp add: take_Suc_conv_app_nth)
    moreover have "strcpy_loop (put m dest (take (Suc i) xs)) dest src (of_nat i + 1) =
        Some (put m dest (xs @ [0]))"
      using Suc.IH [unfolded i(2)] Suc.prems by (simp add: add.commute)
    ultimately show ?case
      using b unfolding i_def [symmetric] by (subst strcpy_loop.simps) (simp only: if_False)
  qed
  from this [of "length xs"] show ?thesis by (simp add: strcpy_def)
qed

lemma strncpy_pad_put:
  "k \<le> unat n \<Longrightarrow> length zs = unat n - k \<Longrightarrow>
    strncpy_pad (put m dest zs) dest n (of_nat (unat n - k)) = put m dest (zs @ replicate k 0)"
proof (induction k arbitrary: zs)
  case 0
  then show ?case by (subst strncpy_pad.simps) simp
next
  case (Suc k)
  define i where "i = unat n - Suc k"
  have i: "i < unat n" "unat n - k = Suc i" "length zs = i" using Suc.prems by (auto simp: i_def)
  have "strncpy_pad (put m dest (zs @ [0])) dest n (of_nat i + 1) =
      put m dest ((zs @ [0]) @ replicate k 0)"
    using Suc.IH [of "zs @ [0]", unfolded i(2)] Suc.prems(1) i(3) by (simp add: add.commute)
  moreover have "(put m dest zs)(dest + of_nat i := 0) = put m dest (zs @ [0])"
    using i(3) by (simp add: put_snoc)
  ultimately show ?case
    using of_nat_below [OF i(1)] unfolding i_def [symmetric]
    by (subst strncpy_pad.simps) (simp only: if_True, simp)
qed

text \<open>A padded copy: the first \<open>n\<close> bytes of the string, then NULs up to \<open>n\<close>.\<close>

lemma strncpy_copy_put:
  assumes s: "string_at m src xs" and dj: "disjoint_regions dest src (unat n)"
  shows "k \<le> min (length xs) (unat n) \<Longrightarrow>
    strncpy_copy (put m dest (take (min (length xs) (unat n) - k) xs)) dest src n
        (of_nat (min (length xs) (unat n) - k)) =
      (put m dest (take (unat n) xs), of_nat (min (length xs) (unat n)))"
proof (induction k)
  case 0
  let ?l = "min (length xs) (unat n)"
  have "put m dest (take (unat n) xs) (src + of_nat (length xs)) = 0" if "length xs < unat n"
    using put_disjoint_src [OF dj, of "take (unat n) xs" "length xs" m] that string_at_end [OF s] by simp
  then have stop: "put m dest (take (unat n) xs) (src + of_nat ?l) = 0 \<or> \<not> of_nat ?l < n"
    by (cases "length xs < unat n") (simp_all add: min_def)
  have "strncpy_copy (put m dest (take (unat n) xs)) dest src n (of_nat ?l) =
      (put m dest (take (unat n) xs), of_nat ?l)"
    using stop by (subst strncpy_copy.simps) (simp only: simp_thms if_False split: if_splits, blast)
  moreover have "take ?l xs = take (unat n) xs" by (simp add: min_def)
  ultimately show ?case by (simp only: diff_zero)
next
  case (Suc k)
  define i where "i = min (length xs) (unat n) - Suc k"
  have i: "i < length xs" "i < unat n" "min (length xs) (unat n) - k = Suc i"
    using Suc.prems by (auto simp: i_def)
  have b: "put m dest (take i xs) (src + of_nat i) = xs ! i"
    using put_disjoint_src [OF dj, of "take i xs" i m] string_at_nth [OF s i(1)] i by simp
  then have nz: "put m dest (take i xs) (src + of_nat i) \<noteq> 0"
    using i s by (metis nth_mem string_at_def)
  have up: "(put m dest (take i xs))(dest + of_nat i := xs ! i) = put m dest (take (Suc i) xs)"
    using i put_snoc [of m dest "take i xs" "xs ! i"] by (simp add: take_Suc_conv_app_nth)
  have "strncpy_copy (put m dest (take i xs)) dest src n (of_nat i) =
      strncpy_copy (put m dest (take (Suc i) xs)) dest src n (of_nat i + 1)"
    using nz of_nat_below [OF i(2)] b up by (subst strncpy_copy.simps) (simp only: simp_thms if_True)
  then show ?case
    using Suc.IH [unfolded i(3)] Suc.prems unfolding i_def [symmetric] by (simp add: add.commute)
qed

lemma strncpy_string:
  assumes s: "string_at m src xs" and dj: "disjoint_regions dest src (unat n)"
  shows "strncpy m dest src n =
    put m dest (take (unat n) xs @ replicate (unat n - length xs) 0)"
proof -
  let ?l = "min (length xs) (unat n)"
  have c: "strncpy_copy m dest src n 0 = (put m dest (take (unat n) xs), of_nat ?l)"
    using strncpy_copy_put [OF s dj, of ?l] by simp
  have "unat n - (unat n - ?l) = ?l" "unat n - ?l = unat n - length xs" by auto
  then show ?thesis
    using strncpy_pad_put [of "unat n - ?l" n "take (unat n) xs" m dest]
    by (simp add: strncpy_def c)
qed

subsection \<open>Properties\<close>

text \<open>C26: \<open>itoa\<close> in a radix from 2 to 36 writes the digits of the value, most significant
  first and NUL-terminated, inside 33 bytes; reading them back gives the value.\<close>
theorem itoa_roundtrip:
  assumes "2 \<le> unat r" "unat r \<le> 36"
  shows "\<exists>m' text. itoa m v buf r = Some m' \<and> string_at m' buf text \<and>
    parse_number (unat r) text = unat v \<and> (\<forall>a. 33 \<le> a - buf \<longrightarrow> m' a = m a)"
  using itoa_number_text [OF assms, of m v buf] parse_number_text [OF assms, of "unat v"]
  by (fastforce simp: word_le_nat_alt)

lemma itoa_roundtrip_witness:
  "\<exists>m' text. itoa (\<lambda>_. 0) 255 0x1000 16 = Some m' \<and> string_at m' 0x1000 text \<and>
    parse_number 16 text = 255"
  using itoa_roundtrip [of 16 "\<lambda>_. 0" 255 "0x1000"] by auto

text \<open>on NUL-terminated strings \<open>strlen\<close> counts, \<open>strncmp\<close> is 0 exactly when the strings
  agree on their first \<open>n\<close> bytes with the NUL, and \<open>strcpy\<close> into a disjoint buffer leaves
  the same string there.\<close>
theorem string_functions_correct:
  assumes "string_at m s1 xs" "string_at m s2 ys" "disjoint_regions d s1 (Suc (length xs))"
  shows "strlen m s1 = Some (of_nat (length xs)) \<and>
    (strncmp m s1 s2 n = 0 \<longleftrightarrow> take (unat n) (xs @ [0]) = take (unat n) (ys @ [0])) \<and>
    (\<exists>m'. strcpy m d s1 = Some m' \<and> string_at m' d xs)"
proof -
  have "length xs < 2 ^ 32" "0 \<notin> set xs" using assms(1) by (auto simp: string_at_def)
  then show ?thesis
    using strlen_string [OF assms(1)] strncmp_strings [OF assms(1,2)]
      strcpy_string [OF assms(1,3)] string_at_put by auto
qed

lemma string_functions_correct_witness:
  "\<exists>m'. strcpy (\<lambda>_. 0) 8 1 = Some m' \<and> string_at m' 8 []"
  using string_functions_correct [of "\<lambda>_. 0" 1 "[]" 2 "[]" 8 1]
  by (simp add: string_at_def disjoint_regions_def)

text \<open>\<open>strrev\<close> reverses a string in place and touches nothing else; \<open>strncpy\<close> copies at
  most \<open>n\<close> bytes of it and pads with NUL up to exactly \<open>n\<close>.\<close>
theorem strrev_strncpy_correct:
  assumes "string_at m s xs" "length xs < 2 ^ 31" "disjoint_regions d s (unat n)"
  shows "(\<exists>m'. strrev m s = Some m' \<and> string_at m' s (rev xs) \<and>
      (\<forall>a. length xs \<le> unat (a - s) \<longrightarrow> m' a = m a)) \<and>
    load (strncpy m d s n) d (unat n) = take (unat n) xs @ replicate (unat n - length xs) 0"
proof -
  let ?ys = "take (unat n) xs @ replicate (unat n - length xs) 0"
  have len: "length ?ys = unat n" by simp
  have "load (put m d ?ys) d (length ?ys) = ?ys"
    by (rule load_put) (simp only: len, simp)
  then show ?thesis
    using strrev_string [OF assms(1,2)] strncpy_string [OF assms(1,3)] by (simp only: len)
qed

lemma strrev_strncpy_correct_witness:
  "\<exists>m'. strrev ((\<lambda>_. 0)(0 := 0x61, 1 := 0x62)) 0 = Some m' \<and> string_at m' 0 [0x62, 0x61]"
  using strrev_strncpy_correct [of "(\<lambda>_. 0)(0 := 0x61, 1 := 0x62)" 0 "[0x61, 0x62]" 8 4]
  by (auto simp: string_at_eval disjoint_below)

end
