(* ===== verification/Machine.thy ===== *)
theory Machine
  imports LibString
begin

section \<open>The machine: memory, I/O ports, the interrupt flag\<close>

text \<open>
  The state of the processor and its buses that the kernel's C code touches: the flat
  memory, every byte written to an I/O port in order (\<open>outb\<close> of \<open>lib.h\<close>), and the
  interrupt flag (\<open>cli\<close>/\<open>sti\<close>). What a port read returns is decided by the device, which
  is not part of the repository: \<open>inb\<close> takes it as a parameter, a function of the writes
  the device has seen and of the port.

  Each component's theory extends this record by the globals its C file declares, so that
  the last extension is the whole kernel's state and every operation is stated on the
  part it knows.
\<close>

record machine =
  memory :: mem
  ports :: "(u32 \<times> u8) list"
  int_flag :: bool

type_synonym device = "(u32 \<times> u8) list \<Rightarrow> u32 \<Rightarrow> u8"

definition outb :: "u32 \<Rightarrow> u32 \<Rightarrow> 'a machine_scheme \<Rightarrow> 'a machine_scheme" where
  "outb data port s = s\<lparr>ports := ports s @ [(port, ucast data)]\<rparr>"

text \<open>\<open>inb\<close> zero-extends the byte the device answers with.\<close>

definition inb :: "device \<Rightarrow> u32 \<Rightarrow> 'a machine_scheme \<Rightarrow> u32" where
  "inb dev port s = ucast (dev (ports s) port)"

definition cli :: "'a machine_scheme \<Rightarrow> 'a machine_scheme" where
  "cli s = s\<lparr>int_flag := False\<rparr>"

definition sti :: "'a machine_scheme \<Rightarrow> 'a machine_scheme" where
  "sti s = s\<lparr>int_flag := True\<rparr>"

text \<open>What a device latched: the last byte written to one of its ports.\<close>

definition last_out :: "u32 \<Rightarrow> (u32 \<times> u8) list \<Rightarrow> u8 option" where
  "last_out port l = map_of (rev l) port"

named_theorems port_simps \<open>port traffic of the operations\<close>

lemma last_out_snoc [port_simps]:
  "last_out port (l @ [(q, b)]) = (if q = port then Some b else last_out port l)"
  by (simp add: last_out_def)

lemma ports_outb [port_simps]: "ports (outb d p s) = ports s @ [(p, ucast d)]"
  by (simp add: outb_def)

lemma ports_cli_sti [port_simps]: "ports (cli s) = ports s" "ports (sti s) = ports s"
  by (simp_all add: cli_def sti_def)

lemma memory_ports [simp]:
  "memory (outb d p s) = memory s" "memory (cli s) = memory s" "memory (sti s) = memory s"
  "machine.more (outb d p s) = machine.more s" "machine.more (cli s) = machine.more s"
  "machine.more (sti s) = machine.more s"
  by (simp_all add: outb_def cli_def sti_def)

lemma int_flag_ports [simp]:
  "int_flag (outb d p s) = int_flag s" "\<not> int_flag (cli s)" "int_flag (sti s)"
  by (simp_all add: outb_def cli_def sti_def)

end
