(* ===== verification/Pic.thy ===== *)
theory Pic
  imports Machine
begin

section \<open>The 8259 interrupt controllers (i8259.c)\<close>

text \<open>
  The shadow masks \<open>master_mask\<close> and \<open>slave_mask\<close> and the four operations of
  \<open>student-distrib/i8259.c\<close>. A set bit masks its line. The masks are \<open>uint8_t\<close>, so
  \<open>mask -= (0x1 << irq_num)\<close> is an 8-bit subtraction.
\<close>

record pic = machine +
  master_mask :: u8
  slave_mask :: u8

definition MASTER_8259_PORT :: u32 where "MASTER_8259_PORT = 0x20"
definition SLAVE_8259_PORT :: u32 where "SLAVE_8259_PORT = 0xA0"
definition MASTER_8259_DATA :: u32 where "MASTER_8259_DATA = 0x21"
definition SLAVE_8259_DATA :: u32 where "SLAVE_8259_DATA = 0xA1"
definition ICW1 :: u32 where "ICW1 = 0x11"
definition ICW2_MASTER :: u32 where "ICW2_MASTER = 0x20"
definition ICW2_SLAVE :: u32 where "ICW2_SLAVE = 0x28"
definition ICW3_MASTER :: u32 where "ICW3_MASTER = 0x04"
definition ICW3_SLAVE :: u32 where "ICW3_SLAVE = 0x02"
definition ICW4 :: u32 where "ICW4 = 0x01"
definition EOI :: u32 where "EOI = 0x60"

lemmas pic_consts = MASTER_8259_PORT_def SLAVE_8259_PORT_def MASTER_8259_DATA_def
  SLAVE_8259_DATA_def ICW1_def ICW2_MASTER_def ICW2_SLAVE_def ICW3_MASTER_def
  ICW3_SLAVE_def ICW4_def EOI_def

definition i8259_init :: "'a pic_scheme \<Rightarrow> 'a pic_scheme" where
  "i8259_init s =
     (let s = outb 0xFF MASTER_8259_DATA s;
          s = outb 0xFF SLAVE_8259_DATA s;
          s = outb ICW1 MASTER_8259_PORT s;
          s = outb ICW2_MASTER MASTER_8259_DATA s;
          s = outb ICW3_MASTER MASTER_8259_DATA s;
          s = outb ICW4 MASTER_8259_DATA s;
          s = outb ICW1 SLAVE_8259_PORT s;
          s = outb ICW2_SLAVE SLAVE_8259_DATA s;
          s = outb ICW3_SLAVE SLAVE_8259_DATA s;
          s = outb ICW4 SLAVE_8259_DATA s;
          s = outb (ucast (master_mask s)) MASTER_8259_DATA s
      in outb (ucast (slave_mask s)) SLAVE_8259_DATA s)"

definition enable_irq :: "u32 \<Rightarrow> 'a pic_scheme \<Rightarrow> 'a pic_scheme" where
  "enable_irq irq_num s =
     (if irq_num < 8 then
        (let mask = 0xFF - push_bit (unat irq_num) 1;
             s = s\<lparr>master_mask := master_mask s AND mask\<rparr>
         in outb (ucast (master_mask s)) MASTER_8259_DATA s)
      else if 8 \<le> irq_num \<and> irq_num < 16 then
        (let mask = 0xFF - push_bit (unat (irq_num - 8)) 1;
             s = s\<lparr>slave_mask := slave_mask s AND mask\<rparr>
         in outb (ucast (slave_mask s)) SLAVE_8259_DATA s)
      else s)"

definition disable_irq :: "u32 \<Rightarrow> 'a pic_scheme \<Rightarrow> 'a pic_scheme" where
  "disable_irq irq_num s =
     (if irq_num < 8 then
        (let mask = 0 + push_bit (unat irq_num) 1;
             s = s\<lparr>master_mask := master_mask s OR mask\<rparr>
         in outb (ucast (master_mask s)) MASTER_8259_DATA s)
      else if 8 \<le> irq_num \<and> irq_num < 16 then
        (let mask = 0 + push_bit (unat (irq_num - 8)) 1;
             s = s\<lparr>slave_mask := slave_mask s OR mask\<rparr>
         in outb (ucast (slave_mask s)) SLAVE_8259_DATA s)
      else s)"

definition send_eoi :: "u32 \<Rightarrow> 'a pic_scheme \<Rightarrow> 'a pic_scheme" where
  "send_eoi irq_num s =
     (if irq_num < 8 then outb (EOI OR irq_num) MASTER_8259_PORT s
      else if 8 \<le> irq_num \<and> irq_num < 16 then
        outb (EOI OR 0x2) MASTER_8259_PORT (outb (EOI OR (irq_num - 8)) SLAVE_8259_PORT s)
      else s)"

subsection \<open>Which lines are enabled\<close>

definition irq_enabled :: "'a pic_scheme \<Rightarrow> u32 \<Rightarrow> bool" where
  "irq_enabled s irq_num =
     (if irq_num < 8 then \<not> bit (master_mask s) (unat irq_num)
      else irq_num < 16 \<and> \<not> bit (slave_mask s) (unat (irq_num - 8)))"

lemma single_bit_mask: "(0xFF :: u8) - push_bit k 1 = NOT (push_bit k 1)"
  by (simp add: not_eq_complement)

lemma unat_minus_8: "8 \<le> unat (x :: u32) \<Longrightarrow> unat (x - 8) = unat x - 8"
  by (simp add: unat_sub_if')

lemma irq_enabled_enable:
  assumes i: "i < 16"
  shows "irq_enabled (enable_irq i s) j \<longleftrightarrow> j = i \<or> irq_enabled s j"
proof (cases "i < 8")
  case True
  then show ?thesis
    unfolding enable_irq_def irq_enabled_def Let_def single_bit_mask
    by (auto simp: outb_def bit_and_iff bit_not_iff bit_exp_iff word_less_nat_alt word_unat_eq_iff)
next
  case False
  have u: "unat (i - 8) < 8" "j - 8 = i - 8 \<longleftrightarrow> j = i"
    using i False by (auto simp: word_less_nat_alt unat_sub_if')
  have "unat (j - 8) = unat (i - 8) \<longleftrightarrow> j = i"
    using u(2) word_unat_eq_iff by metis
  then show ?thesis
    using i False u(1)
    unfolding enable_irq_def irq_enabled_def Let_def single_bit_mask
    by (auto simp: outb_def bit_and_iff bit_not_iff bit_exp_iff word_less_nat_alt word_le_nat_alt
        not_less unat_minus_8)
qed

lemma irq_enabled_disable:
  assumes i: "i < 16"
  shows "irq_enabled (disable_irq i s) j \<longleftrightarrow> j \<noteq> i \<and> irq_enabled s j"
proof (cases "i < 8")
  case True
  then show ?thesis
    unfolding disable_irq_def irq_enabled_def Let_def
    by (auto simp: outb_def bit_or_iff bit_exp_iff word_less_nat_alt word_unat_eq_iff)
next
  case False
  have u: "unat (i - 8) < 8" "j - 8 = i - 8 \<longleftrightarrow> j = i"
    using i False by (auto simp: word_less_nat_alt unat_sub_if')
  have "unat (j - 8) = unat (i - 8) \<longleftrightarrow> j = i"
    using u(2) word_unat_eq_iff by metis
  then show ?thesis
    using i False u(1)
    unfolding disable_irq_def irq_enabled_def Let_def
    by (auto simp: outb_def bit_or_iff bit_exp_iff word_less_nat_alt word_le_nat_alt
        not_less unat_minus_8)
qed

lemma irq_invalid: "16 \<le> i \<Longrightarrow> enable_irq i s = s" "16 \<le> i \<Longrightarrow> disable_irq i s = s"
  by (auto simp: enable_irq_def disable_irq_def word_less_nat_alt word_le_nat_alt)

subsection \<open>The interface drivers rely on\<close>

text \<open>
  What \<open>rtc_init\<close>, \<open>keyboard_init\<close> and \<open>pit_init\<close> use of the controller: a line
  becomes enabled or disabled and no other line changes.
\<close>

locale irq_controller =
  fixes enable :: "u32 \<Rightarrow> 's \<Rightarrow> 's"
    and disable :: "u32 \<Rightarrow> 's \<Rightarrow> 's"
    and enabled :: "'s \<Rightarrow> u32 \<Rightarrow> bool"
  assumes enabled_enable: "i < 16 \<Longrightarrow> enabled (enable i s) j \<longleftrightarrow> j = i \<or> enabled s j"
    and enabled_disable: "i < 16 \<Longrightarrow> enabled (disable i s) j \<longleftrightarrow> j \<noteq> i \<and> enabled s j"
    and enable_invalid: "16 \<le> i \<Longrightarrow> enable i s = s"
    and disable_invalid: "16 \<le> i \<Longrightarrow> disable i s = s"
begin

lemma enabled_fold:
  "enabled (fold enable is s) j \<longleftrightarrow> j \<in> set (filter (\<lambda>i. i < 16) is) \<or> enabled s j"
  by (induction "is" arbitrary: s) (auto simp: enabled_enable enable_invalid not_less)

lemma disable_enable:
  "\<not> enabled s i \<Longrightarrow> enabled (disable i (enable i s)) = enabled s"
  by (cases "i < 16") (auto simp: fun_eq_iff enabled_enable enabled_disable enable_invalid
      disable_invalid not_less)

lemma enable_commute: "enabled (enable i (enable j s)) = enabled (enable j (enable i s))"
  by (cases "i < 16"; cases "j < 16")
    (auto simp: fun_eq_iff enabled_enable enable_invalid not_less)

end

interpretation pic_irq: irq_controller enable_irq disable_irq irq_enabled
  by unfold_locales (simp_all add: irq_enabled_enable irq_enabled_disable irq_invalid)

subsection \<open>The shadow masks are what the controllers hold\<close>

text \<open>
  \<open>pic_synced\<close>: the last byte written to each data port is the mask the code remembers.
  \<open>i8259_init\<close> establishes it (the mask is written after the initialisation words) and
  every operation keeps it.
\<close>

definition pic_synced :: "'a pic_scheme \<Rightarrow> bool" where
  "pic_synced s \<longleftrightarrow> last_out MASTER_8259_DATA (ports s) = Some (master_mask s) \<and>
     last_out SLAVE_8259_DATA (ports s) = Some (slave_mask s)"

lemma masks_outb [simp]:
  "master_mask (outb d p s) = master_mask s" "slave_mask (outb d p s) = slave_mask s"
  by (simp_all add: outb_def)

lemma pic_synced_init [inv_intros]: "pic_synced (i8259_init s)"
  by (simp add: pic_synced_def i8259_init_def Let_def outb_def last_out_def pic_consts)

lemma pic_synced_enable [inv_intros]: "pic_synced s \<Longrightarrow> pic_synced (enable_irq i s)"
  by (simp add: pic_synced_def enable_irq_def Let_def outb_def last_out_def pic_consts)

lemma pic_synced_disable [inv_intros]: "pic_synced s \<Longrightarrow> pic_synced (disable_irq i s)"
  by (simp add: pic_synced_def disable_irq_def Let_def outb_def last_out_def pic_consts)

lemma pic_synced_eoi [inv_intros]: "pic_synced s \<Longrightarrow> pic_synced (send_eoi i s)"
  by (simp add: pic_synced_def send_eoi_def outb_def last_out_def pic_consts)

lemma send_eoi_masks [simp]:
  "master_mask (send_eoi i s) = master_mask s" "slave_mask (send_eoi i s) = slave_mask s"
  "memory (send_eoi i s) = memory s" "pic.more (send_eoi i s) = pic.more s"
  by (simp_all add: send_eoi_def outb_def)

lemma enable_irq_frame [simp]:
  "memory (enable_irq i s) = memory s" "pic.more (enable_irq i s) = pic.more s"
  "int_flag (enable_irq i s) = int_flag s"
  by (simp_all add: enable_irq_def outb_def Let_def)

text \<open>An end-of-interrupt for a slave line also acknowledges the cascade line 2 of the master.\<close>

lemma send_eoi_ports:
  "ports (send_eoi i s) = ports s @
     (if i < 8 then [(0x20, ucast (0x60 OR i))]
      else if i < 16 then [(0xA0, ucast (0x60 OR (i - 8))), (0x20, 0x62)] else [])"
  by (auto simp: send_eoi_def port_simps pic_consts word_less_nat_alt word_le_nat_alt)

subsection \<open>Properties\<close>

datatype pic_op = Enable u32 | Disable u32 | Acknowledge u32

fun run_pic_op :: "pic_op \<Rightarrow> 'a pic_scheme \<Rightarrow> 'a pic_scheme" where
  "run_pic_op (Enable i) s = enable_irq i s"
| "run_pic_op (Disable i) s = disable_irq i s"
| "run_pic_op (Acknowledge i) s = send_eoi i s"

text \<open>What the operations say about a line: its last switch, or the setting before them.\<close>

fun line_after :: "u32 \<Rightarrow> bool \<Rightarrow> pic_op list \<Rightarrow> bool" where
  "line_after j b [] = b"
| "line_after j b (Enable i # ops) = line_after j (b \<or> i < 16 \<and> j = i) ops"
| "line_after j b (Disable i # ops) = line_after j (b \<and> \<not> (i < 16 \<and> j = i)) ops"
| "line_after j b (Acknowledge i # ops) = line_after j b ops"

lemma irq_enabled_eoi [simp]: "irq_enabled (send_eoi i s) = irq_enabled s"
  by (simp add: fun_eq_iff irq_enabled_def)

lemma irq_enabled_run:
  "irq_enabled (fold run_pic_op ops s) j = line_after j (irq_enabled s j) ops"
proof (induction ops arbitrary: s)
  case (Cons op ops)
  show ?case
  proof (cases op)
    case (Enable i)
    with Cons show ?thesis
      by (cases "i < 16") (auto simp: pic_irq.enabled_enable pic_irq.enable_invalid not_less
          intro!: arg_cong [where f = "\<lambda>b. line_after j b ops"])
  next
    case (Disable i)
    with Cons show ?thesis
      by (cases "i < 16") (auto simp: pic_irq.enabled_disable pic_irq.disable_invalid not_less
          intro!: arg_cong [where f = "\<lambda>b. line_after j b ops"])
  qed (use Cons in simp)
qed simp

lemma pic_synced_run: "pic_synced s \<Longrightarrow> pic_synced (fold run_pic_op ops s)"
proof (induction ops arbitrary: s)
  case (Cons op ops)
  then show ?case by (cases op) (simp_all add: inv_intros)
qed simp

lemma masks_init [simp]:
  "master_mask (i8259_init s) = master_mask s" "slave_mask (i8259_init s) = slave_mask s"
  by (simp_all add: i8259_init_def Let_def)

text \<open>After \<open>i8259_init\<close> and any sequence of mask changes and acknowledgements the two
  controllers hold the masks the driver remembers, and an interrupt line is enabled exactly
  when the last change of that line enabled it; line numbers from 16 on change nothing.\<close>
theorem pic_masks_correct:
  "let s' = fold run_pic_op ops (i8259_init s) in
     last_out MASTER_8259_DATA (ports s') = Some (master_mask s') \<and>
     last_out SLAVE_8259_DATA (ports s') = Some (slave_mask s') \<and>
     irq_enabled s' j = line_after j (irq_enabled s j) ops"
proof -
  have "irq_enabled (i8259_init s) j = irq_enabled s j" by (simp add: irq_enabled_def)
  then show ?thesis
    using pic_synced_run [OF pic_synced_init, of ops s]
    by (simp add: irq_enabled_run pic_synced_def Let_def)
qed

end
