(* ===== verification/Rtc.thy ===== *)
theory Rtc
  imports Pic
begin

section \<open>The real-time clock (rtc.c)\<close>

text \<open>
  \<open>student-distrib/rtc.c\<close>: the hardware runs at 1024 Hz and a read waits for
  \<open>1024 / virt_freq\<close> interrupts. The CMOS answers come from the device parameter. The
  spin loop of \<open>rtc_read\<close> is run against a schedule, one entry per test of the loop
  condition: whether an RTC interrupt is handled before the next test. \<open>None\<close> is a loop
  still spinning when the schedule ends, or the division by a zero \<open>virt_freq\<close>.
\<close>

record rtc = pic +
  virt_freq :: u32
  rtc_inter_count :: u32

definition RTC_PORT :: u32 where "RTC_PORT = 0x70"
definition CMOS_PORT :: u32 where "CMOS_PORT = 0x71"
definition STATUS_REG_A :: u32 where "STATUS_REG_A = 0x8A"
definition STATUS_REG_B :: u32 where "STATUS_REG_B = 0x8B"
definition STATUS_REG_C :: u32 where "STATUS_REG_C = 0x8C"
definition RTC_IRQ_NUM :: u32 where "RTC_IRQ_NUM = 0x08"

lemmas rtc_consts = RTC_PORT_def CMOS_PORT_def STATUS_REG_A_def STATUS_REG_B_def
  STATUS_REG_C_def RTC_IRQ_NUM_def

text \<open>The rate code of the \<open>switch\<close>; \<open>None\<close> is its default branch.\<close>

definition rtc_rate_code :: "u32 \<Rightarrow> u32 option" where
  "rtc_rate_code new_frequency =
     (if new_frequency = 2 then Some 0x0F
      else if new_frequency = 4 then Some 0x0E
      else if new_frequency = 8 then Some 0x0D
      else if new_frequency = 16 then Some 0x0C
      else if new_frequency = 32 then Some 0x0B
      else if new_frequency = 64 then Some 0x0A
      else if new_frequency = 128 then Some 0x09
      else if new_frequency = 256 then Some 0x08
      else if new_frequency = 512 then Some 0x07
      else if new_frequency = 1024 then Some 0x06
      else None)"

definition rtc_set_frequency ::
  "device \<Rightarrow> u32 \<Rightarrow> 'a rtc_scheme \<Rightarrow> u32 \<times> 'a rtc_scheme" where
  "rtc_set_frequency dev new_frequency s =
     (case rtc_rate_code new_frequency of
        None \<Rightarrow> (-1, s)
      | Some send_rtc_freq \<Rightarrow>
          (let s = cli s;
               s = outb STATUS_REG_A RTC_PORT s;
               prev = inb dev CMOS_PORT s;
               s = outb STATUS_REG_A RTC_PORT s;
               s = outb ((prev AND 0xF0) OR send_rtc_freq) CMOS_PORT s
           in (0, sti s)))"

definition rtc_init :: "device \<Rightarrow> 'a rtc_scheme \<Rightarrow> 'a rtc_scheme" where
  "rtc_init dev s =
     (let s = cli s;
          s = outb STATUS_REG_B RTC_PORT s;
          prev = inb dev CMOS_PORT s;
          s = outb STATUS_REG_B RTC_PORT s;
          s = outb (prev OR 0x40) CMOS_PORT s;
          s = snd (rtc_set_frequency dev 1024 s);
          s = s\<lparr>virt_freq := 2\<rparr>;
          s = s\<lparr>rtc_inter_count := 0\<rparr>;
          s = enable_irq RTC_IRQ_NUM s
      in sti s)"

text \<open>The \<open>inb\<close> of register C has no effect on the kernel's state.\<close>

definition rtc_handler :: "'a rtc_scheme \<Rightarrow> 'a rtc_scheme" where
  "rtc_handler s =
     (let s = s\<lparr>rtc_inter_count := rtc_inter_count s + 1\<rparr>;
          s = outb STATUS_REG_C RTC_PORT s
      in send_eoi RTC_IRQ_NUM s)"

definition rtc_write :: "addr \<Rightarrow> u32 \<Rightarrow> 'a rtc_scheme \<Rightarrow> int \<times> 'a rtc_scheme" where
  "rtc_write buf nbytes s =
     (if nbytes \<noteq> 4 then (-1, s)
      else (let v = rd32 (memory s) buf in
        if v \<le> 1024 \<and> 2 \<le> v \<and> v AND (v - 1) = 0
        then (0, s\<lparr>rtc_inter_count := 0, virt_freq := v\<rparr>)
        else (-1, s)))"

fun rtc_spin :: "bool list \<Rightarrow> 'a rtc_scheme \<Rightarrow> ('a rtc_scheme \<times> bool list) option" where
  "rtc_spin irqs s =
     (if virt_freq s = 0 then None
      else if rtc_inter_count s < 1024 div virt_freq s then
        (case irqs of
           [] \<Rightarrow> None
         | fires # rest \<Rightarrow> rtc_spin rest (if fires then rtc_handler s else s))
      else Some (s, irqs))"

declare rtc_spin.simps [simp del]

definition rtc_read :: "bool list \<Rightarrow> 'a rtc_scheme \<Rightarrow> (int \<times> 'a rtc_scheme \<times> bool list) option" where
  "rtc_read irqs s =
     (case rtc_spin irqs (s\<lparr>rtc_inter_count := 0\<rparr>) of
        None \<Rightarrow> None
      | Some (s', rest) \<Rightarrow> Some (0, s', rest))"

definition rtc_open :: "'a rtc_scheme \<Rightarrow> int \<times> 'a rtc_scheme" where
  "rtc_open s = (0, s\<lparr>virt_freq := 2\<rparr>)"

definition rtc_close :: "'a rtc_scheme \<Rightarrow> int \<times> 'a rtc_scheme" where
  "rtc_close s = (0, s)"

subsection \<open>Valid frequencies\<close>

lemma nat_power_of_two:
  "(0::nat) < n \<Longrightarrow> n AND (n - 1) = 0 \<longleftrightarrow> (\<exists>k. n = 2 ^ k)"
proof (induction n rule: less_induct)
  case (less n)
  show ?case
  proof (cases "even n")
    case True
    then obtain m where m: "n = 2 * m" "0 < m" using less.prems by (auto elim: evenE)
    have "n div 2 = m" "(n - 1) div 2 = m - 1" "even n" using m by simp_all
    then have "n AND (n - 1) = 2 * (m AND (m - 1))"
      using and_rec [of n "n - 1"] by simp
    moreover have "(\<exists>k. m = 2 ^ k) \<longleftrightarrow> (\<exists>k. n = 2 ^ k)"
    proof
      assume "\<exists>k. n = 2 ^ k"
      then obtain k where k: "n = 2 ^ k" by blast
      then obtain j where "k = Suc j" using True m by (cases k) auto
      then show "\<exists>k. m = 2 ^ k" using k m by auto
    qed (use m in \<open>auto intro: exI [of _ "Suc _"]\<close>)
    ultimately show ?thesis using less.IH [of m] m by simp
  next
    case False
    then obtain m where m: "n = 1 + 2 * m" by (metis oddE add.commute)
    have "n div 2 = m" "(n - 1) div 2 = m" "even (n - 1)" using m by simp_all
    then have "n AND (n - 1) = 2 * m"
      using and_rec [of n "n - 1"] by simp
    moreover have "(\<exists>k. n = 2 ^ k) \<longleftrightarrow> m = 0"
    proof
      assume "\<exists>k. n = 2 ^ k"
      then obtain k where k: "n = 2 ^ k" by blast
      with False have "k = 0" by (cases k) auto
      with k m show "m = 0" by simp
    qed (use m in \<open>auto intro: exI [of _ 0]\<close>)
    ultimately show ?thesis by simp
  qed
qed

definition valid_freqs :: "u32 list" where
  "valid_freqs = [2, 4, 8, 16, 32, 64, 128, 256, 512, 1024]"

lemma power_of_two_range:
  "2 \<le> (2::nat) ^ k \<Longrightarrow> (2::nat) ^ k \<le> 1024 \<Longrightarrow> k \<in> set [1, 2, 3, 4, 5, 6, 7, 8, 9, 10]"
proof -
  assume l: "2 \<le> (2::nat) ^ k" and u: "(2::nat) ^ k \<le> 1024"
  from l have "k \<noteq> 0" by (cases k) auto
  moreover have "(2::nat) ^ k \<le> 2 ^ 10" using u by simp
  then have "k \<le> 10" by (simp only: power_increasing_iff)
  ultimately show ?thesis by (simp add: numeral_eq_Suc) arith
qed

lemma freq_check_iff:
  "v \<le> 1024 \<and> 2 \<le> v \<and> v AND (v - 1) = 0 \<longleftrightarrow> v \<in> set valid_freqs"
proof
  assume v: "v \<le> 1024 \<and> 2 \<le> v \<and> v AND (v - 1) = 0"
  then have "v \<noteq> 0" by auto
  have "unat (v AND (v - 1)) = 0" using v by simp
  then have "unat v AND (unat v - 1) = 0"
    using \<open>v \<noteq> 0\<close> by (simp add: unsigned_and_eq unat_minus_one)
  then obtain k where k: "unat v = 2 ^ k"
    using nat_power_of_two [of "unat v"] \<open>v \<noteq> 0\<close> by (auto simp: unat_gt_0)
  then have "k \<in> set [1, 2, 3, 4, 5, 6, 7, 8, 9, 10]"
    using v by (intro power_of_two_range) (simp_all add: word_le_nat_alt)
  moreover have "v = of_nat (2 ^ k)"
    unfolding k [symmetric] by simp
  ultimately show "v \<in> set valid_freqs"
    unfolding valid_freqs_def by (simp only: list.set insert_iff empty_iff) (elim disjE, simp_all)
next
  assume "v \<in> set valid_freqs"
  then show "v \<le> 1024 \<and> 2 \<le> v \<and> v AND (v - 1) = 0"
    unfolding valid_freqs_def by (simp only: list.set insert_iff empty_iff) (elim disjE, simp_all)
qed

text \<open>Every frequency the \<open>switch\<close> knows is encoded as the data sheet says: \<open>32768 >> (code - 1)\<close>.\<close>

lemma rtc_rate_code_valid: "rtc_rate_code f = Some c \<Longrightarrow> f \<in> set valid_freqs"
  by (auto simp: rtc_rate_code_def valid_freqs_def split: if_splits)

lemma rtc_rate_code_value:
  "rtc_rate_code f = Some c \<Longrightarrow> f = drop_bit (unat c - 1) 32768 \<and> c < 16"
  by (auto simp: rtc_rate_code_def split: if_splits)

lemma rtc_rate_code_total: "f \<in> set valid_freqs \<Longrightarrow> \<exists>c. rtc_rate_code f = Some c"
  by (auto simp: rtc_rate_code_def valid_freqs_def)

subsection \<open>The driver's invariant\<close>

definition rtc_ok :: "'a rtc_scheme \<Rightarrow> bool" where
  "rtc_ok s \<longleftrightarrow> virt_freq s \<in> set valid_freqs"

lemma rtc_fields_outb [simp]:
  "virt_freq (outb d p s) = virt_freq s" "rtc_inter_count (outb d p s) = rtc_inter_count s"
  "virt_freq (enable_irq i s) = virt_freq s" "rtc_inter_count (enable_irq i s) = rtc_inter_count s"
  "virt_freq (cli s) = virt_freq s" "virt_freq (sti s) = virt_freq s"
  "rtc_inter_count (sti s) = rtc_inter_count s"
  "virt_freq (send_eoi i s) = virt_freq s" "rtc_inter_count (send_eoi i s) = rtc_inter_count s"
  by (simp_all add: outb_def enable_irq_def cli_def sti_def send_eoi_def Let_def)

lemma rtc_handler_fields [simp]:
  "virt_freq (rtc_handler s) = virt_freq s"
  "rtc_inter_count (rtc_handler s) = rtc_inter_count s + 1"
  "memory (rtc_handler s) = memory s" "rtc.more (rtc_handler s) = rtc.more s"
  by (simp_all add: rtc_handler_def Let_def) (simp_all add: outb_def send_eoi_def)

lemma rtc_ok_init [inv_intros]: "rtc_ok (rtc_init dev s)"
  by (simp add: rtc_ok_def rtc_init_def Let_def valid_freqs_def)

lemma rtc_ok_handler [inv_intros]: "rtc_ok s \<Longrightarrow> rtc_ok (rtc_handler s)"
  by (simp add: rtc_ok_def)

lemma rtc_ok_write [inv_intros]: "rtc_ok s \<Longrightarrow> rtc_ok (snd (rtc_write buf n s))"
  using freq_check_iff by (simp add: rtc_ok_def rtc_write_def Let_def)

lemma rtc_ok_open [inv_intros]: "rtc_ok (snd (rtc_open s))"
  by (simp add: rtc_ok_def rtc_open_def valid_freqs_def)

lemma rtc_ok_close [inv_intros]: "rtc_ok s \<Longrightarrow> rtc_ok (snd (rtc_close s))"
  by (simp add: rtc_close_def)

text \<open>The number of interrupts a read waits for.\<close>

definition rtc_period :: "'a rtc_scheme \<Rightarrow> nat" where
  "rtc_period s = unat (1024 div virt_freq s)"

lemma rtc_period_pos: "rtc_ok s \<Longrightarrow> virt_freq s \<noteq> 0 \<and> rtc_period s * unat (virt_freq s) = 1024"
  unfolding rtc_ok_def rtc_period_def valid_freqs_def
  by (simp only: list.set insert_iff empty_iff) (elim disjE, simp_all add: unat_div)

lemma rtc_spin_done:
  "rtc_ok s \<Longrightarrow> unat (rtc_inter_count s) = rtc_period s \<Longrightarrow> rtc_spin irqs s = Some (s, irqs)"
  using rtc_period_pos [of s]
  by (subst rtc_spin.simps) (simp add: word_less_nat_alt rtc_period_def)

lemma rtc_spin_step:
  assumes "rtc_ok s" "unat (rtc_inter_count s) < rtc_period s"
  shows "rtc_spin [] s = None"
    and "rtc_spin (fires # rest) s = rtc_spin rest (if fires then rtc_handler s else s)"
    and "unat (rtc_inter_count s + 1) = Suc (unat (rtc_inter_count s))"
proof -
  have "virt_freq s \<noteq> 0" using rtc_period_pos assms by blast
  moreover have less: "rtc_inter_count s < 1024 div virt_freq s"
    using assms(2) by (simp add: word_less_nat_alt rtc_period_def)
  ultimately show "rtc_spin [] s = None"
    and "rtc_spin (fires # rest) s = rtc_spin rest (if fires then rtc_handler s else s)"
    by (subst rtc_spin.simps, simp)+
  from less show "unat (rtc_inter_count s + 1) = Suc (unat (rtc_inter_count s))"
    by (rule unat_less_Suc)
qed

text \<open>
  The spin loop consumes the schedule up to the interrupt that completes the period and
  no further; with fewer interrupts it does not return.
\<close>

lemma rtc_spin_returns:
  "rtc_ok s \<Longrightarrow> unat (rtc_inter_count s) + k = rtc_period s \<Longrightarrow> k \<le> count_list irqs True \<Longrightarrow>
    \<exists>s' pre rest. rtc_spin irqs s = Some (s', rest) \<and> irqs = pre @ rest \<and>
      count_list pre True = k \<and> virt_freq s' = virt_freq s \<and> memory s' = memory s \<and>
      unat (rtc_inter_count s') = rtc_period s"
proof (induction irqs arbitrary: s k)
  case Nil
  then show ?case by (simp add: rtc_spin_done)
next
  case (Cons fires irqs)
  show ?case
  proof (cases k)
    case 0
    with Cons.prems show ?thesis by (auto simp: rtc_spin_done intro: exI [of _ "[]"])
  next
    case (Suc j)
    define t where "t = (if fires then rtc_handler s else s)"
    let ?k = "if fires then j else k"
    have less: "unat (rtc_inter_count s) < rtc_period s" using Cons.prems(2) Suc by simp
    have t: "rtc_ok t" "rtc_period t = rtc_period s" "virt_freq t = virt_freq s"
        "memory t = memory s" "unat (rtc_inter_count t) + ?k = rtc_period s"
      using Cons.prems(1,2) Suc rtc_spin_step(3) [OF Cons.prems(1) less]
      by (simp_all add: t_def rtc_ok_def rtc_period_def)
    moreover have "?k \<le> count_list irqs True" using Cons.prems(3) Suc by (simp split: if_splits)
    ultimately obtain s' pre rest where ih: "rtc_spin irqs t = Some (s', rest)"
        "irqs = pre @ rest" "count_list pre True = ?k" "virt_freq s' = virt_freq t"
        "memory s' = memory t" "unat (rtc_inter_count s') = rtc_period t"
      using Cons.IH [of t ?k] by auto
    then show ?thesis
      using rtc_spin_step(2) [OF Cons.prems(1) less, of fires irqs] t Suc
      by (intro exI [of _ s'] exI [of _ "fires # pre"] exI [of _ rest]) (simp add: t_def)
  qed
qed

lemma rtc_spin_waits:
  "rtc_ok s \<Longrightarrow> unat (rtc_inter_count s) + k = rtc_period s \<Longrightarrow> count_list irqs True < k \<Longrightarrow>
    rtc_spin irqs s = None"
proof (induction irqs arbitrary: s k)
  case Nil
  then show ?case by (simp add: rtc_spin_step)
next
  case (Cons fires irqs)
  then have less: "unat (rtc_inter_count s) < rtc_period s" by simp
  have "rtc_spin irqs (if fires then rtc_handler s else s) = None"
    using Cons.prems rtc_spin_step(3) [OF Cons.prems(1) less]
    by (intro Cons.IH [of _ "if fires then k - 1 else k"])
      (auto simp: rtc_ok_def rtc_period_def)
  with Cons.prems(1) less show ?case by (simp add: rtc_spin_step)
qed

lemma rtc_read_returns:
  assumes "rtc_ok s" "rtc_period s \<le> count_list irqs True"
  shows "\<exists>s' pre rest. rtc_read irqs s = Some (0, s', rest) \<and> irqs = pre @ rest \<and>
    count_list pre True = rtc_period s \<and> virt_freq s' = virt_freq s \<and> memory s' = memory s"
  using rtc_spin_returns [of "s\<lparr>rtc_inter_count := 0\<rparr>" "rtc_period s" irqs] assms
  by (force simp: rtc_read_def rtc_ok_def rtc_period_def)

lemma rtc_read_waits:
  "rtc_ok s \<Longrightarrow> count_list irqs True < rtc_period s \<Longrightarrow> rtc_read irqs s = None"
  using rtc_spin_waits [of "s\<lparr>rtc_inter_count := 0\<rparr>" "rtc_period s" irqs]
  by (simp add: rtc_read_def rtc_ok_def rtc_period_def)

subsection \<open>Properties\<close>


text \<open>\<open>rtc_write\<close> accepts exactly a 4-byte write of a power of two from 2 to 1024, which
  becomes the frequency; it refuses everything else with -1 and an unchanged state.\<close>
theorem rtc_write_correct:
  "rtc_write buf n s =
    (if n = 4 \<and> rd32 (memory s) buf \<in> {2, 4, 8, 16, 32, 64, 128, 256, 512, 1024}
     then (0, s\<lparr>rtc_inter_count := 0, virt_freq := rd32 (memory s) buf\<rparr>) else (-1, s))"
  using freq_check_iff [of "rd32 (memory s) buf"]
  by (auto simp: rtc_write_def Let_def valid_freqs_def)


end
