(* ===== verification/Screen.thy ===== *)
theory Screen
  imports Rtc
begin

section \<open>The text console of lib.c\<close>

text \<open>
  \<open>clear\<close>, \<open>scroll_up\<close>, \<open>putc\<close>, \<open>puts\<close>, \<open>printf\<close> and the cursor functions of
  \<open>student-distrib/lib.c\<close>. The text-mode frame buffer is the 4000 bytes of memory at
  \<open>VIDEO\<close>: a character byte and an attribute byte per cell, 25 rows of 80. The cursor is
  \<open>int\<close>: \<open>back_space\<close> can make it negative.
\<close>

record screen = rtc +
  screen_x :: int
  screen_y :: int

definition NUM_COLS :: int where "NUM_COLS = 80"
definition NUM_ROWS :: int where "NUM_ROWS = 25"
definition VIDEO :: addr where "VIDEO = 0xB8000"
definition ATTRIB :: u8 where "ATTRIB = 0x7"

lemmas screen_consts = NUM_COLS_def NUM_ROWS_def VIDEO_def ATTRIB_def

text \<open>A store to \<open>*(video_mem + offset)\<close>.\<close>

definition video_store :: "int \<Rightarrow> u8 \<Rightarrow> 'a screen_scheme \<Rightarrow> 'a screen_scheme" where
  "video_store off b s = s\<lparr>memory := (memory s)(VIDEO + word_of_int off := b)\<rparr>"

definition clear :: "'a screen_scheme \<Rightarrow> 'a screen_scheme" where
  "clear s = fold (\<lambda>i s. video_store (i * 2 + 1) ATTRIB (video_store (i * 2) 0x20 s))
     [0..NUM_ROWS * NUM_COLS - 1] s"

definition scroll_up :: "'a screen_scheme \<Rightarrow> 'a screen_scheme" where
  "scroll_up s =
     (let s = s\<lparr>memory := fst (memmove (memory s) VIDEO (VIDEO + word_of_int (NUM_COLS * 2))
                 (word_of_int (NUM_COLS * (NUM_ROWS - 1) * 2)))\<rparr>;
          s = fold (\<lambda>i. video_store ((NUM_COLS * (NUM_ROWS - 1) + i) * 2) 0x20) [0..NUM_COLS - 1] s
      in s\<lparr>screen_x := 0, screen_y := 24\<rparr>)"

definition getYpos :: "'a screen_scheme \<Rightarrow> int" where
  "getYpos s = screen_y s"

definition setScreenPos :: "int \<Rightarrow> int \<Rightarrow> 'a screen_scheme \<Rightarrow> 'a screen_scheme" where
  "setScreenPos x y s = s\<lparr>screen_x := x, screen_y := y\<rparr>"

definition back_space :: "'a screen_scheme \<Rightarrow> 'a screen_scheme" where
  "back_space s = s\<lparr>screen_x := screen_x s - 1\<rparr>"

definition reset_position :: "'a screen_scheme \<Rightarrow> 'a screen_scheme" where
  "reset_position s = s\<lparr>screen_x := 0, screen_y := 0\<rparr>"

definition putc :: "u8 \<Rightarrow> 'a screen_scheme \<Rightarrow> 'a screen_scheme" where
  "putc c s =
     (if c = 0x0A \<or> c = 0x0D then
        (if screen_y s = NUM_ROWS - 1 then scroll_up s
         else s\<lparr>screen_y := screen_y s + 1, screen_x := 0\<rparr>)
      else
        (let s = video_store ((NUM_COLS * screen_y s + screen_x s) * 2) c s;
             s = video_store ((NUM_COLS * screen_y s + screen_x s) * 2 + 1) ATTRIB s
         in if screen_x s = NUM_COLS - 1 then
              (let s = s\<lparr>screen_x := 0\<rparr>
               in if screen_y s = NUM_ROWS - 1 then scroll_up s
                  else s\<lparr>screen_y := screen_y s + 1\<rparr>)
            else s\<lparr>screen_x := screen_x s + 1\<rparr>))"

text \<open>\<open>puts\<close> reads the string while it writes the screen; the result is the byte count.\<close>

partial_function (option) puts_loop ::
    "addr \<Rightarrow> u32 \<Rightarrow> 'a screen_scheme \<Rightarrow> (u32 \<times> 'a screen_scheme) option" where
  "puts_loop str index s =
     (if memory s (str + index) = 0 then Some (index, s)
      else puts_loop str (index + 1) (putc (memory s (str + index)) s))"

declare puts_loop.simps [code]

definition puts :: "addr \<Rightarrow> 'a screen_scheme \<Rightarrow> (u32 \<times> 'a screen_scheme) option" where
  "puts str s = puts_loop str 0 s"

definition test_interrupts :: "'a screen_scheme \<Rightarrow> 'a screen_scheme" where
  "test_interrupts s = fold (\<lambda>i s. video_store (i * 2) (memory s (VIDEO + word_of_int (i * 2)) + 1) s)
     [0..NUM_ROWS * NUM_COLS - 1] s"

subsection \<open>printf\<close>

text \<open>
  \<open>esp\<close> is the address of the next variadic argument on the stack and \<open>conv_buf\<close> the
  address of the local conversion buffer. \<open>skip_hash\<close> is the \<open>goto format_char_switch\<close>
  loop: it returns the position of the conversion character and whether a \<open>#\<close> was seen.
\<close>

partial_function (option) skip_hash :: "mem \<Rightarrow> addr \<Rightarrow> bool \<Rightarrow> (addr \<times> bool) option" where
  "skip_hash m buf alternate =
     (if m buf = 0x23 then skip_hash m (buf + 1) True else Some (buf, alternate))"

declare skip_hash.simps [code]

function pad_zeros :: "mem \<Rightarrow> addr \<Rightarrow> int \<Rightarrow> mem" where
  "pad_zeros m conv_buf i =
     (if i < 8 then pad_zeros (m(conv_buf + word_of_int i := 0x30)) conv_buf (i + 1) else m)"
  by pat_completeness auto
termination
  by (relation "measure (\<lambda>(m, b, i). nat (8 - i))") auto

declare pad_zeros.simps [simp del]

definition printf_hex ::
    "bool \<Rightarrow> u32 \<Rightarrow> addr \<Rightarrow> 'a screen_scheme \<Rightarrow> 'a screen_scheme option" where
  "printf_hex alternate value conv_buf s =
     (if \<not> alternate then do {
        m \<leftarrow> itoa (memory s) value conv_buf 16;
        (n, s) \<leftarrow> puts conv_buf (s\<lparr>memory := m\<rparr>);
        Some s
      } else do {
        m \<leftarrow> itoa (memory s) value (conv_buf + 8) 16;
        starting_index \<leftarrow> strlen m (conv_buf + 8);
        (n, s) \<leftarrow> puts (conv_buf + starting_index)
          (s\<lparr>memory := pad_zeros m conv_buf (sint starting_index)\<rparr>);
        Some s
      })"

definition printf_unsigned ::
    "u32 \<Rightarrow> addr \<Rightarrow> 'a screen_scheme \<Rightarrow> 'a screen_scheme option" where
  "printf_unsigned value conv_buf s = do {
     m \<leftarrow> itoa (memory s) value conv_buf 10;
     (n, s) \<leftarrow> puts conv_buf (s\<lparr>memory := m\<rparr>);
     Some s
   }"

definition printf_signed ::
    "u32 \<Rightarrow> addr \<Rightarrow> 'a screen_scheme \<Rightarrow> 'a screen_scheme option" where
  "printf_signed value conv_buf s = do {
     m \<leftarrow> (if sint value < 0
          then itoa ((memory s)(conv_buf := 0x2D)) (- value) (conv_buf + 1) 10
          else itoa (memory s) value conv_buf 10);
     (n, s) \<leftarrow> puts conv_buf (s\<lparr>memory := m\<rparr>);
     Some s
   }"

text \<open>One conversion: the new state and the new argument pointer.\<close>

definition printf_convert ::
    "u8 \<Rightarrow> bool \<Rightarrow> addr \<Rightarrow> addr \<Rightarrow> 'a screen_scheme \<Rightarrow> ('a screen_scheme \<times> addr) option" where
  "printf_convert c alternate esp conv_buf s =
     (let arg = rd32 (memory s) esp in
      if c = 0x25 then Some (putc 0x25 s, esp)
      else if c = 0x78 then do { s \<leftarrow> printf_hex alternate arg conv_buf s; Some (s, esp + 4) }
      else if c = 0x75 then do { s \<leftarrow> printf_unsigned arg conv_buf s; Some (s, esp + 4) }
      else if c = 0x64 then do { s \<leftarrow> printf_signed arg conv_buf s; Some (s, esp + 4) }
      else if c = 0x63 then Some (putc (ucast arg) s, esp + 4)
      else if c = 0x73 then do { (n, s) \<leftarrow> puts arg s; Some (s, esp + 4) }
      else Some (s, esp))"

text \<open>
  The main loop. After a conversion the code steps over the conversion character whatever
  it was, the terminating NUL of a format that ends in \<open>%\<close> included.
\<close>

partial_function (option) printf_loop ::
    "addr \<Rightarrow> addr \<Rightarrow> addr \<Rightarrow> 'a screen_scheme \<Rightarrow> (addr \<times> 'a screen_scheme) option" where
  "printf_loop buf esp conv_buf s =
     (if memory s buf = 0 then Some (buf, s)
      else if memory s buf = 0x25 then do {
        (buf, alternate) \<leftarrow> skip_hash (memory s) (buf + 1) False;
        (s, esp) \<leftarrow> printf_convert (memory s buf) alternate esp conv_buf s;
        printf_loop (buf + 1) esp conv_buf s
      }
      else printf_loop (buf + 1) esp conv_buf (putc (memory s buf) s))"

declare printf_loop.simps [code]

definition printf :: "addr \<Rightarrow> addr \<Rightarrow> addr \<Rightarrow> 'a screen_scheme \<Rightarrow> (u32 \<times> 'a screen_scheme) option" where
  "printf format esp conv_buf s = do {
     (buf, s) \<leftarrow> printf_loop format esp conv_buf s;
     Some (buf - format, s)
   }"

subsection \<open>The frame buffer as bytes\<close>

definition vbyte :: "'a screen_scheme \<Rightarrow> int \<Rightarrow> u8" where
  "vbyte s off = memory s (VIDEO + word_of_int off)"

definition in_video :: "addr \<Rightarrow> bool" where
  "in_video a \<longleftrightarrow> unat (a - VIDEO) < 4000"

lemma vbyte_store:
  "0 \<le> i \<Longrightarrow> i < 2 ^ 32 \<Longrightarrow> 0 \<le> j \<Longrightarrow> j < 2 ^ 32 \<Longrightarrow>
    vbyte (video_store i b s) j = (if i = j then b else vbyte s j)"
  using index_inj [of i j] by (auto simp: vbyte_def video_store_def)

lemma unat_word_of_int: "0 \<le> i \<Longrightarrow> i < 2 ^ 32 \<Longrightarrow> unat (word_of_int i :: u32) = nat i"
  by (simp add: unat_eq_nat_uint uint_word_of_int take_bit_int_eq_self)

lemma in_video_iff: "0 \<le> i \<Longrightarrow> i < 2 ^ 32 \<Longrightarrow> in_video (VIDEO + word_of_int i) \<longleftrightarrow> i < 4000"
  by (auto simp: in_video_def unat_word_of_int)

lemma video_store_outside:
  "0 \<le> i \<Longrightarrow> i < 4000 \<Longrightarrow> \<not> in_video a \<Longrightarrow> memory (video_store i b s) a = memory s a"
  using in_video_iff [of i] by (auto simp: video_store_def)

lemma video_store_fields [simp]:
  "screen_x (video_store i b s) = screen_x s" "screen_y (video_store i b s) = screen_y s"
  "ports (video_store i b s) = ports s" "screen.more (video_store i b s) = screen.more s"
  by (simp_all add: video_store_def)

text \<open>Two states with the same bytes everywhere: one equation per offset.\<close>

lemma memory_eqI: "(\<And>i. 0 \<le> i \<Longrightarrow> i < 2 ^ 32 \<Longrightarrow> vbyte s i = m (VIDEO + word_of_int i)) \<Longrightarrow> memory s = m"
  by (rule ext) (metis index_exhaust vbyte_def)

lemma clear_fold:
  "n \<le> 2000 \<Longrightarrow> 0 \<le> j \<Longrightarrow> j < 2 ^ 32 \<Longrightarrow>
    vbyte (fold (\<lambda>i s. video_store (i * 2 + 1) ATTRIB (video_store (i * 2) 0x20 s)) [0..int n - 1] s) j =
      (if j < 2 * int n then (if even j then 0x20 else ATTRIB) else vbyte s j)"
proof (induction n)
  case (Suc n)
  have u: "[0..int (Suc n) - 1] = [0..int n - 1] @ [int n]"
    using upto_rec2 [of 0 "int n"] by simp
  have "j = 2 * int n \<or> j = 2 * int n + 1 \<or> j < 2 * int n \<or> 2 * int n + 1 < j" by linarith
  then show ?case
    using Suc unfolding u by (auto simp: vbyte_store mult.commute)
qed simp

lemma clear_vbyte:
  "0 \<le> j \<Longrightarrow> j < 2 ^ 32 \<Longrightarrow>
    vbyte (clear s) j = (if j < 4000 then (if even j then 0x20 else ATTRIB) else vbyte s j)"
  using clear_fold [of 2000 j s] by (simp add: clear_def screen_consts)

lemma fold_video_store_fields:
  "screen_x (fold (\<lambda>i. video_store (f i) (g i)) is s) = screen_x s \<and>
   screen_y (fold (\<lambda>i. video_store (f i) (g i)) is s) = screen_y s"
  by (induction "is" arbitrary: s) simp_all

lemma blank_row_fold:
  "n \<le> 80 \<Longrightarrow> 0 \<le> j \<Longrightarrow> j < 2 ^ 32 \<Longrightarrow>
    vbyte (fold (\<lambda>i. video_store ((80 * 24 + i) * 2) 0x20) [0..int n - 1] s) j =
      (if even j \<and> 3840 \<le> j \<and> j < 3840 + 2 * int n then 0x20 else vbyte s j)"
proof (induction n)
  case (Suc n)
  have u: "[0..int (Suc n) - 1] = [0..int n - 1] @ [int n]"
    using upto_rec2 [of 0 "int n"] by simp
  have "j = 3840 + 2 * int n \<or> j = 3840 + 2 * int n + 1 \<or> j < 3840 + 2 * int n
      \<or> 3840 + 2 * int n + 1 < j" by linarith
  then show ?case
    using Suc unfolding u by (auto simp: vbyte_store)
qed auto

text \<open>Scrolling: every row takes the next one's bytes, the last row's characters go blank.\<close>

lemma scroll_up_vbyte:
  assumes j: "0 \<le> j" "j < 2 ^ 32"
  shows "vbyte (scroll_up s) j =
    (if j < 3840 then vbyte s (j + 160)
     else if j < 4000 \<and> even j then 0x20 else vbyte s j)"
proof -
  let ?s = "s\<lparr>memory := copied (memory s) VIDEO (VIDEO + 160) 3840\<rparr>"
  have mm: "memmove (memory s) VIDEO (VIDEO + 160) 3840 =
      (copied (memory s) VIDEO (VIDEO + 160) 3840, False)"
    using memmove_copied [of VIDEO 3840 "VIDEO + 160" "memory s"]
    by (simp add: no_wrap_def VIDEO_def)
  have "vbyte (scroll_up s) j =
      vbyte (fold (\<lambda>i. video_store ((80 * 24 + i) * 2) 0x20) [0..int 80 - 1] ?s) j"
    unfolding scroll_up_def Let_def vbyte_def by (simp add: mm NUM_COLS_def NUM_ROWS_def)
  also have "\<dots> = (if even j \<and> 3840 \<le> j \<and> j < 4000 then 0x20 else vbyte ?s j)"
    using blank_row_fold [of 80 j ?s] j by simp
  also have "vbyte ?s j = (if j < 3840 then vbyte s (j + 160) else vbyte s j)"
    using j by (auto simp: vbyte_def copied_def unat_word_of_int algebra_simps)
  finally show ?thesis by auto
qed

lemma scroll_up_cursor [simp]: "screen_x (scroll_up s) = 0" "screen_y (scroll_up s) = 24"
  by (simp_all add: scroll_up_def Let_def)

text \<open>
  Console output changes the memory and the cursor and nothing else of the kernel's state.
\<close>

definition screen_only :: "'a screen_scheme \<Rightarrow> 'a screen_scheme \<Rightarrow> bool" where
  "screen_only s t \<longleftrightarrow> (\<exists>m x y. t = s\<lparr>memory := m, screen_x := x, screen_y := y\<rparr>)"

lemma screen_only_refl [simp, intro!]: "screen_only s s"
  unfolding screen_only_def
  by (rule exI [of _ "memory s"], rule exI [of _ "screen_x s"], rule exI [of _ "screen_y s"]) simp

lemma screen_only_trans: "screen_only s t \<Longrightarrow> screen_only t u \<Longrightarrow> screen_only s u"
  unfolding screen_only_def by force

lemma screen_only_fields:
  "screen_only s t \<Longrightarrow> screen.more t = screen.more s \<and> ports t = ports s \<and>
    virt_freq t = virt_freq s \<and> rtc_inter_count t = rtc_inter_count s \<and>
    master_mask t = master_mask s \<and> slave_mask t = slave_mask s \<and> int_flag t = int_flag s"
  by (auto simp: screen_only_def)

lemma screen_only_updates [simp]:
  "screen_only s (s\<lparr>memory := m\<rparr>)" "screen_only s (s\<lparr>screen_x := x\<rparr>)"
  "screen_only s (s\<lparr>screen_y := y\<rparr>)" "screen_only s (s\<lparr>screen_x := x, screen_y := y\<rparr>)"
  "screen_only s (s\<lparr>screen_y := y, screen_x := x\<rparr>)"
  "screen_only s (video_store i b s)"
  unfolding screen_only_def video_store_def
  by (cases s; auto intro: exI [of _ "memory s"] exI [of _ "screen_x s"] exI [of _ "screen_y s"])+

text \<open>Extending a run of console output by one more step.\<close>

lemma screen_only_steps [intro!]:
  "screen_only s t \<Longrightarrow> screen_only s (t\<lparr>memory := m\<rparr>)"
  "screen_only s t \<Longrightarrow> screen_only s (t\<lparr>screen_x := x\<rparr>)"
  "screen_only s t \<Longrightarrow> screen_only s (t\<lparr>screen_y := y\<rparr>)"
  "screen_only s t \<Longrightarrow> screen_only s (t\<lparr>screen_x := x, screen_y := y\<rparr>)"
  "screen_only s t \<Longrightarrow> screen_only s (t\<lparr>screen_y := y, screen_x := x\<rparr>)"
  "screen_only s t \<Longrightarrow> screen_only s (video_store i b t)"
  using screen_only_updates screen_only_trans by blast+

lemma screen_only_fold:
  "screen_only s t \<Longrightarrow> (\<And>i u. screen_only s u \<Longrightarrow> screen_only s (f i u)) \<Longrightarrow>
    screen_only s (fold f is t)"
  by (induction "is" arbitrary: t) auto

lemma screen_only_clear: "screen_only s (clear s)"
  unfolding clear_def by (rule screen_only_fold) auto

lemma screen_only_scroll [intro!]: "screen_only s t \<Longrightarrow> screen_only s (scroll_up t)"
  unfolding scroll_up_def Let_def by (rule screen_only_steps, rule screen_only_fold) auto

lemma screen_only_putc: "screen_only s (putc c s)"
  unfolding putc_def Let_def by (auto split: if_split simp del: screen_only_updates)

lemma screen_only_cursor [simp]:
  "screen_only s (back_space s)" "screen_only s (reset_position s)" "screen_only s (setScreenPos x y s)"
  by (simp_all add: back_space_def reset_position_def setScreenPos_def)

subsection \<open>The cursor stays on the screen\<close>

definition cursor_ok :: "'a screen_scheme \<Rightarrow> bool" where
  "cursor_ok s \<longleftrightarrow> 0 \<le> screen_x s \<and> screen_x s < NUM_COLS \<and> 0 \<le> screen_y s \<and> screen_y s < NUM_ROWS"

lemma cursor_ok_putc [inv_intros]: "cursor_ok s \<Longrightarrow> cursor_ok (putc c s)"
  by (auto simp: cursor_ok_def putc_def Let_def screen_consts)

lemma cursor_ok_reset [inv_intros]: "cursor_ok (reset_position s)"
  by (simp add: cursor_ok_def reset_position_def screen_consts)

lemma cursor_ok_scroll [inv_intros]: "cursor_ok (scroll_up s)"
  by (simp add: cursor_ok_def screen_consts)

text \<open>With the cursor on the screen, output stays inside the frame buffer.\<close>

lemma outside_video_index:
  assumes "\<not> in_video a"
  obtains i where "a = VIDEO + word_of_int i" "4000 \<le> i" "i < 2 ^ 32"
proof -
  obtain i where i: "a = VIDEO + word_of_int i" "0 \<le> i" "i < 2 ^ 32" by (rule index_exhaust)
  then have "4000 \<le> i" using assms in_video_iff [of i] by simp
  with i that show thesis by blast
qed

lemma scroll_up_outside: "\<not> in_video a \<Longrightarrow> memory (scroll_up s) a = memory s a"
  by (erule outside_video_index) (use scroll_up_vbyte [of _ s] in \<open>simp add: vbyte_def\<close>)

lemma clear_outside: "\<not> in_video a \<Longrightarrow> memory (clear s) a = memory s a"
  by (erule outside_video_index) (use clear_vbyte [of _ s] in \<open>simp add: vbyte_def\<close>)

lemma scroll_up_memory_cong: "memory (scroll_up (s\<lparr>screen_x := x\<rparr>)) = memory (scroll_up s)"
  by (rule memory_eqI) (simp add: scroll_up_vbyte flip: vbyte_def, simp add: vbyte_def)

lemma putc_outside:
  assumes "cursor_ok s" "\<not> in_video a"
  shows "memory (putc c s) a = memory s a"
proof -
  let ?i = "(80 * screen_y s + screen_x s) * 2"
  have "0 \<le> ?i" "?i + 1 < 4000" using assms(1) by (auto simp: cursor_ok_def screen_consts)
  then have "memory (video_store (?i + 1) ATTRIB (video_store ?i c s)) a = memory s a"
    using assms(2) by (simp add: video_store_outside)
  then show ?thesis
    using assms(2) by (auto simp: putc_def Let_def scroll_up_outside NUM_COLS_def algebra_simps)
qed

subsection \<open>The abstract text screen\<close>

text \<open>
  What \<open>putc\<close> promises, without addresses: a grid of characters and a cursor; a
  character is stored and the cursor advances, a line end goes to the next row, and past
  the last row the grid moves up.
\<close>

type_synonym text_screen = "(nat \<Rightarrow> nat \<Rightarrow> u8) \<times> nat \<times> nat"

definition spec_newline :: "text_screen \<Rightarrow> text_screen" where
  "spec_newline t = (case t of (g, r, c) \<Rightarrow>
     if r = 24 then ((\<lambda>i j. if i < 24 then g (Suc i) j else if i = 24 \<and> j < 80 then 0x20 else 0), 24, 0)
     else (g, Suc r, 0))"

definition spec_putc :: "u8 \<Rightarrow> text_screen \<Rightarrow> text_screen" where
  "spec_putc ch t = (case t of (g, r, c) \<Rightarrow>
     if ch = 0x0A \<or> ch = 0x0D then spec_newline (g, r, c)
     else if c = 79 then spec_newline (g(r := (g r)(c := ch)), r, c)
     else (g(r := (g r)(c := ch)), r, Suc c))"

definition grid :: "'a screen_scheme \<Rightarrow> nat \<Rightarrow> nat \<Rightarrow> u8" where
  "grid s r c = (if r < 25 \<and> c < 80 then vbyte s ((80 * int r + int c) * 2) else 0)"

definition text_of :: "'a screen_scheme \<Rightarrow> text_screen" where
  "text_of s = (grid s, nat (screen_y s), nat (screen_x s))"

lemma grid_scroll_up:
  "grid (scroll_up s) = (\<lambda>i j. if i < 24 then grid s (Suc i) j else if i = 24 \<and> j < 80 then 0x20 else 0)"
proof (intro ext)
  fix i j :: nat
  consider "i < 24" "j < 80" | "i = 24" "j < 80" | "24 < i \<or> 80 \<le> j" by linarith
  then show "grid (scroll_up s) i j =
      (if i < 24 then grid s (Suc i) j else if i = 24 \<and> j < 80 then 0x20 else 0)"
    by cases (auto simp: grid_def scroll_up_vbyte algebra_simps)
qed

lemma grid_cong: "memory s = memory t \<Longrightarrow> grid s = grid t"
  by (simp add: grid_def vbyte_def fun_eq_iff)

lemma grid_cursor [simp]:
  "grid (s\<lparr>screen_x := x\<rparr>) = grid s" "grid (s\<lparr>screen_y := y\<rparr>) = grid s"
  by (rule grid_cong, simp)+

lemma grid_put_cell:
  assumes "r < 25" "c < 80" "k = (80 * int r + int c) * 2"
  shows "grid (video_store (k + 1) a (video_store k b s)) = (grid s)(r := (grid s r)(c := b))"
proof (intro ext)
  fix i j
  have bounds: "0 \<le> k" "k + 1 < 2 ^ 32" using assms by simp_all
  show "grid (video_store (k + 1) a (video_store k b s)) i j = ((grid s)(r := (grid s r)(c := b))) i j"
  proof (cases "i < 25 \<and> j < 80")
    case True
    let ?k = "(80 * int i + int j) * 2"
    have "0 \<le> ?k" "?k < 2 ^ 32" using True by simp_all
    moreover have "?k \<noteq> k + 1" using assms(3) by presburger
    moreover have "?k = k \<longleftrightarrow> i = r \<and> j = c"
    proof
      assume "?k = k"
      then have "int (80 * i + j) = int (80 * r + c)" using assms(3) by simp
      then have "80 * i + j = 80 * r + c" by (simp only: of_nat_eq_iff)
      then have "(80 * i + j) div 80 = (80 * r + c) div 80" "(80 * i + j) mod 80 = (80 * r + c) mod 80"
        by simp_all
      then show "i = r \<and> j = c" using True assms(2) by simp
    qed (use assms(3) in simp)
    ultimately show ?thesis
      using True bounds by (auto simp: grid_def vbyte_store)
  next
    case False
    then show ?thesis using assms by (auto simp: grid_def)
  qed
qed

text \<open>\<open>putc\<close> implements the abstract screen.\<close>

lemma putc_text_of:
  assumes "cursor_ok s"
  shows "text_of (putc ch s) = spec_putc ch (text_of s)"
proof -
  let ?r = "nat (screen_y s)" and ?c = "nat (screen_x s)"
  have rc: "?r < 25" "?c < 80" "int ?r = screen_y s" "int ?c = screen_x s"
    using assms by (auto simp: cursor_ok_def screen_consts)
  have put: "grid (video_store ((80 * screen_y s + screen_x s) * 2 + 1) ATTRIB
      (video_store ((80 * screen_y s + screen_x s) * 2) ch s)) =
      (grid s)(?r := (grid s ?r)(?c := ch))"
    using rc by (intro grid_put_cell) simp_all
  have nl: "text_of (if screen_y t = 24 then scroll_up t else t\<lparr>screen_y := screen_y t + 1, screen_x := 0\<rparr>) =
      spec_newline (g, nat (screen_y t), k)" if "grid t = g" "0 \<le> screen_y t" for t :: "'a screen_scheme" and g k
    using that by (auto simp: text_of_def spec_newline_def grid_scroll_up nat_add_distrib)
  consider "ch = 0x0A \<or> ch = 0x0D" | "\<not> (ch = 0x0A \<or> ch = 0x0D)" "screen_x s = 79"
    | "\<not> (ch = 0x0A \<or> ch = 0x0D)" "screen_x s \<noteq> 79" by blast
  then show ?thesis
  proof cases
    case 1
    then show ?thesis
      using nl [of s "grid s" ?c] rc by (simp add: putc_def screen_consts spec_putc_def text_of_def)
  next
    case 2
    let ?t = "(video_store ((80 * screen_y s + screen_x s) * 2 + 1) ATTRIB
      (video_store ((80 * screen_y s + screen_x s) * 2) ch s))\<lparr>screen_x := 0\<rparr>"
    have "text_of (putc ch s) = text_of (if screen_y ?t = 24 then scroll_up ?t
        else ?t\<lparr>screen_y := screen_y ?t + 1, screen_x := 0\<rparr>)"
      using 2 by (simp add: putc_def Let_def NUM_COLS_def NUM_ROWS_def text_of_def)
    also have "\<dots> = spec_newline ((grid s)(?r := (grid s ?r)(?c := ch)), ?r, ?c)"
      using nl [of ?t "(grid s)(?r := (grid s ?r)(?c := ch))" ?c] put rc by simp
    finally show ?thesis using 2 by (simp add: spec_putc_def text_of_def)
  next
    case 3
    then have "?c \<noteq> 79" "nat (screen_x s + 1) = Suc ?c" using rc by linarith+
    with 3 show ?thesis
      using put by (simp add: putc_def Let_def NUM_COLS_def NUM_ROWS_def spec_putc_def text_of_def)
  qed
qed

subsection \<open>puts and printf write what they are given\<close>

text \<open>A string none of whose bytes lies in the frame buffer survives being printed.\<close>

definition string_off_screen :: "'a screen_scheme \<Rightarrow> addr \<Rightarrow> u8 list \<Rightarrow> bool" where
  "string_off_screen s a xs \<longleftrightarrow> string_at (memory s) a xs \<and>
     (\<forall>i \<le> length xs. \<not> in_video (a + of_nat i))"

lemma cursor_ok_fold_putc [inv_intros]: "cursor_ok s \<Longrightarrow> cursor_ok (fold putc xs s)"
  by (induction xs arbitrary: s) (simp_all add: cursor_ok_putc)

lemma fold_putc_outside:
  "cursor_ok s \<Longrightarrow> \<not> in_video a \<Longrightarrow> memory (fold putc xs s) a = memory s a"
  by (induction xs arbitrary: s) (simp_all add: cursor_ok_putc putc_outside)

lemma screen_only_fold_putc: "screen_only s (fold putc xs s)"
  by (rule screen_only_fold) (auto intro: screen_only_trans screen_only_putc)

lemma string_tail:
  assumes "string_at m a (x # xs)"
  shows "m a = x" "x \<noteq> 0" "string_at m (a + 1) xs"
proof -
  show "m a = x" using string_at_nth [OF assms, of 0] by simp
  show "x \<noteq> 0" using assms by (auto simp: string_at_def)
  have "m (a + 1 + of_nat i) = xs ! i" if "i < length xs" for i
    using string_at_nth [OF assms, of "Suc i"] that by (simp add: add.assoc)
  moreover have "m (a + 1 + of_nat (length xs)) = 0"
    using string_at_end [OF assms] by (simp add: add.assoc)
  ultimately show "string_at m (a + 1) xs"
    using assms by (simp add: string_at_def)
qed

lemma off_screen_tail:
  assumes "string_off_screen s a (x # xs)"
  shows "string_off_screen s (a + 1) xs"
proof -
  have "\<not> in_video (a + 1 + of_nat i)" if "i \<le> length xs" for i
    using assms that unfolding string_off_screen_def
    by (metis Suc_le_mono add.assoc length_Cons of_nat_Suc add.commute)
  then show ?thesis
    using assms string_tail(3) by (auto simp: string_off_screen_def)
qed

lemma off_screen_putc:
  assumes "cursor_ok s" "string_off_screen s a xs"
  shows "string_off_screen (putc c s) a xs"
proof -
  have "memory (putc c s) (a + of_nat i) = memory s (a + of_nat i)" if "i \<le> length xs" for i
    using assms that by (intro putc_outside) (auto simp: string_off_screen_def)
  then show ?thesis
    using assms(2) by (auto simp: string_off_screen_def string_at_def)
qed

lemma puts_loop_string:
  "cursor_ok s \<Longrightarrow> string_off_screen s (str + i) xs \<Longrightarrow>
    puts_loop str i s = Some (i + of_nat (length xs), fold putc xs s)"
proof (induction xs arbitrary: i s)
  case Nil
  then show ?case
    by (subst puts_loop.simps) (simp add: string_off_screen_def string_at_Nil)
next
  case (Cons x xs)
  have st: "string_at (memory s) (str + i) (x # xs)"
    using Cons.prems(2) by (simp add: string_off_screen_def)
  have "string_off_screen (putc x s) (str + (i + 1)) xs"
    using off_screen_putc [OF Cons.prems(1) off_screen_tail [OF Cons.prems(2)]]
    by (simp add: add.assoc)
  then have "puts_loop str (i + 1) (putc x s) = Some (i + 1 + of_nat (length xs), fold putc xs (putc x s))"
    using Cons.prems(1) by (intro Cons.IH) (simp_all add: cursor_ok_putc)
  then show ?case
    using string_tail(1,2) [OF st] by (subst puts_loop.simps) (simp add: add.assoc)
qed

lemma puts_string:
  "cursor_ok s \<Longrightarrow> string_off_screen s str xs \<Longrightarrow>
    puts str s = Some (of_nat (length xs), fold putc xs s)"
  using puts_loop_string [of s str 0 xs] by (simp add: puts_def)

text \<open>A format without \<open>%\<close> is printed as it is and its length returned.\<close>

lemma printf_loop_plain:
  "cursor_ok s \<Longrightarrow> string_off_screen s buf xs \<Longrightarrow> 0x25 \<notin> set xs \<Longrightarrow>
    printf_loop buf esp conv s = Some (buf + of_nat (length xs), fold putc xs s)"
proof (induction xs arbitrary: buf s)
  case Nil
  then show ?case
    by (subst printf_loop.simps) (simp add: string_off_screen_def string_at_Nil)
next
  case (Cons x xs)
  have st: "string_at (memory s) buf (x # xs)"
    using Cons.prems(2) by (simp add: string_off_screen_def)
  have "printf_loop (buf + 1) esp conv (putc x s) =
      Some (buf + 1 + of_nat (length xs), fold putc xs (putc x s))"
    using Cons.prems off_screen_putc [OF Cons.prems(1) off_screen_tail [OF Cons.prems(2)]]
    by (intro Cons.IH) (simp_all add: cursor_ok_putc)
  then show ?case
    using string_tail(1,2) [OF st] Cons.prems(3)
    by (subst printf_loop.simps) (simp add: add.assoc)
qed

lemma printf_plain:
  "cursor_ok s \<Longrightarrow> string_off_screen s format xs \<Longrightarrow> 0x25 \<notin> set xs \<Longrightarrow>
    printf format esp conv s = Some (of_nat (length xs), fold putc xs s)"
  by (simp add: printf_def printf_loop_plain)

subsection \<open>Printing numbers\<close>

lemma puts_text:
  assumes "cursor_ok s" "string_off_screen s str xs"
  shows "\<exists>s'. puts str s = Some (of_nat (length xs), s') \<and> cursor_ok s' \<and>
    text_of s' = fold spec_putc xs (text_of s) \<and> screen_only s s' \<and>
    (\<forall>a. \<not> in_video a \<longrightarrow> memory s' a = memory s a)"
proof -
  have "text_of (fold putc xs s) = fold spec_putc xs (text_of s)"
    using assms(1) by (induction xs arbitrary: s) (simp_all add: putc_text_of cursor_ok_putc)
  then show ?thesis
    using puts_string [OF assms] cursor_ok_fold_putc fold_putc_outside assms(1)
      screen_only_fold_putc by fastforce
qed

lemma text_of_memory:
  assumes "\<And>a. in_video a \<Longrightarrow> m a = memory s a"
  shows "text_of (s\<lparr>memory := m\<rparr>) = text_of s"
proof -
  have "m (VIDEO + word_of_int ((80 * int r + int c) * 2)) =
      memory s (VIDEO + word_of_int ((80 * int r + int c) * 2))" if "r < 25" "c < 80" for r c
    using that by (intro assms) (subst in_video_iff, simp_all)
  then show ?thesis by (simp add: text_of_def grid_def vbyte_def fun_eq_iff)
qed

lemma cursor_ok_memory [simp]: "cursor_ok (s\<lparr>memory := m\<rparr>) = cursor_ok s"
  by (simp add: cursor_ok_def)

text \<open>The 64-byte conversion buffer on the stack is not in the frame buffer.\<close>

definition conv_off_screen :: "addr \<Rightarrow> bool" where
  "conv_off_screen conv_buf \<longleftrightarrow> (\<forall>i < 64. \<not> in_video (conv_buf + of_nat i))"

lemma length_digits_pow: "2 \<le> r \<Longrightarrow> n < r ^ k \<Longrightarrow> length (digits_lsf r n) \<le> k"
proof (induction k arbitrary: n)
  case (Suc k)
  then have "n div r < r ^ k" by (simp add: less_mult_imp_div_less mult.commute)
  then show ?case
    using Suc.IH [of "n div r"] Suc.prems by (subst digits_lsf.simps) simp
qed (simp add: digits_lsf.simps)

lemma length_number_text:
  "2 \<le> r \<Longrightarrow> n < r ^ k \<Longrightarrow> 0 < k \<Longrightarrow> length (number_text r n) \<le> k"
  using length_digits_pow by (simp add: number_text_def digit_bytes_def)

lemma number_text_32: "2 \<le> r \<Longrightarrow> length (number_text r (unat (v :: u32))) \<le> 32"
  using length_digit_bytes by (simp add: number_text_def)

lemma itoa_off_screen:
  assumes c: "conv_off_screen conv" and j: "j \<le> 8" and r: "2 \<le> unat r" "unat r \<le> 36"
  shows "\<exists>m'. itoa (memory s) v (conv + of_nat j) r = Some m' \<and>
    string_off_screen (s\<lparr>memory := m'\<rparr>) (conv + of_nat j) (number_text (unat r) (unat v)) \<and>
    text_of (s\<lparr>memory := m'\<rparr>) = text_of s \<and>
    (\<forall>i < j. m' (conv + of_nat i) = memory s (conv + of_nat i))"
proof -
  let ?b = "conv + of_nat j" and ?t = "number_text (unat r) (unat v)"
  obtain m' where m': "itoa (memory s) v ?b r = Some m'" "string_at m' ?b ?t"
    and out: "\<And>a. 33 \<le> unat (a - ?b) \<Longrightarrow> m' a = memory s a"
    using itoa_number_text [OF r, of "memory s" v ?b] by blast
  have off: "\<not> in_video (?b + of_nat i)" if "i < 56" for i
  proof -
    have "?b + of_nat i = conv + of_nat (j + i)" by (simp add: add.assoc)
    moreover have "j + i < 64" using j that by simp
    ultimately show ?thesis using c unfolding conv_off_screen_def by metis
  qed
  have "m' a = memory s a" if "in_video a" for a
  proof (rule out, rule ccontr)
    assume "\<not> 33 \<le> unat (a - ?b)"
    then show False using off [of "unat (a - ?b)"] that by simp
  qed
  moreover have "m' (conv + of_nat i) = memory s (conv + of_nat i)" if "i < j" for i
  proof (rule out)
    have "conv + of_nat i - ?b = - of_nat (j - i)" using that by (simp add: of_nat_diff)
    moreover have "unat (- of_nat (j - i) :: u32) = 2 ^ 32 - (j - i)"
      using that j unat_sub_of_nat [of "j - i" 0] by simp
    ultimately show "33 \<le> unat (conv + of_nat i - ?b)" using j that by simp
  qed
  moreover have "string_off_screen (s\<lparr>memory := m'\<rparr>) ?b ?t"
    unfolding string_off_screen_def using m'(2) off number_text_32 [OF r(1), of v] by simp
  ultimately show ?thesis using m'(1) text_of_memory by blast
qed


lemma printf_unsigned_text:
  assumes "cursor_ok s" "conv_off_screen conv"
  shows "\<exists>s'. printf_unsigned v conv s = Some s' \<and> cursor_ok s' \<and>
    text_of s' = fold spec_putc (number_text 10 (unat v)) (text_of s)"
proof -
  obtain m' where m': "itoa (memory s) v conv 10 = Some m'"
      "string_off_screen (s\<lparr>memory := m'\<rparr>) conv (number_text 10 (unat v))"
      "text_of (s\<lparr>memory := m'\<rparr>) = text_of s"
    using itoa_off_screen [OF assms(2), of 0 10 s v] by auto
  then show ?thesis
    using puts_text [of "s\<lparr>memory := m'\<rparr>" conv "number_text 10 (unat v)"] assms(1)
    by (auto simp: printf_unsigned_def)
qed

text \<open>A negative number is its sign and the digits of its absolute value.\<close>

lemma string_off_screen_Cons:
  assumes "string_off_screen s (a + 1) xs" "memory s a = x" "x \<noteq> 0" "\<not> in_video a"
    "length xs < 100"
  shows "string_off_screen s a (x # xs)"
proof -
  have "\<not> in_video (a + of_nat i)" if "i \<le> Suc (length xs)" for i
    using assms that by (cases i) (auto simp: string_off_screen_def add.assoc)
  then show ?thesis
    using assms by (simp add: string_off_screen_def string_at_Cons)
qed

lemma unat_uminus_neg:
  assumes "sint (v :: u32) < 0"
  shows "unat (- v) = nat (- sint v)"
proof -
  have "- (2 ^ 31) \<le> sint v" using sint_greater_eq [of v] by simp
  moreover have "- v = word_of_int (- sint v)" by simp
  ultimately show ?thesis using assms by (simp add: unat_word_of_int del: of_int_minus)
qed

lemma printf_signed_text:
  assumes "cursor_ok s" "conv_off_screen conv"
  shows "\<exists>s'. printf_signed v conv s = Some s' \<and> cursor_ok s' \<and>
    text_of s' = fold spec_putc ((if sint v < 0 then [0x2D] else []) @
      number_text 10 (nat \<bar>sint v\<bar>)) (text_of s)"
proof (cases "sint v < 0")
  case True
  let ?s = "s\<lparr>memory := (memory s)(conv := 0x2D)\<rparr>"
  have off: "\<not> in_video conv" using assms(2) by (auto simp: conv_off_screen_def dest: spec [of _ 0])
  obtain m' where m': "itoa (memory ?s) (- v) (conv + of_nat 1) 10 = Some m'"
      "string_off_screen (?s\<lparr>memory := m'\<rparr>) (conv + of_nat 1) (number_text 10 (unat (- v)))"
      "text_of (?s\<lparr>memory := m'\<rparr>) = text_of ?s" "m' conv = 0x2D"
    using itoa_off_screen [OF assms(2), of 1 10 ?s "- v"] by auto
  have "string_off_screen (?s\<lparr>memory := m'\<rparr>) conv (0x2D # number_text 10 (unat (- v)))"
    using m' off number_text_32 [of 10 "- v"] by (intro string_off_screen_Cons) simp_all
  moreover have "text_of ?s = text_of s" using off by (intro text_of_memory) auto
  moreover have "number_text 10 (unat (- v)) = number_text 10 (nat \<bar>sint v\<bar>)"
    using True by (simp add: unat_uminus_neg)
  ultimately show ?thesis
    using puts_text [of "?s\<lparr>memory := m'\<rparr>" conv "0x2D # number_text 10 (unat (- v))"]
      assms(1) m' True by (auto simp: printf_signed_def)
next
  case False
  then have "nat \<bar>sint v\<bar> = unat v"
    using sint_less [of v] unat_word_of_int [of "sint v"] by simp
  with False show ?thesis
    using printf_unsigned_text [OF assms, of v] by (simp add: printf_signed_def printf_unsigned_def)
qed

text \<open>\<open>%#x\<close> prints exactly eight hexadecimal digits.\<close>

lemma pad_zeros_put: "n \<le> 8 \<Longrightarrow> pad_zeros m b (8 - int n) = put m (b + of_nat (8 - n)) (replicate n 0x30)"
proof (induction n arbitrary: m)
  case (Suc n)
  have "pad_zeros m b (8 - int (Suc n)) =
      pad_zeros (m(b + of_nat (8 - Suc n) := 0x30)) b (8 - int n)"
    using Suc.prems by (subst pad_zeros.simps) (simp add: of_nat_diff)
  moreover have "b + of_nat (8 - n) = b + of_nat (8 - Suc n) + 1"
    using Suc.prems by (simp add: Suc_diff_Suc)
  ultimately show ?case using Suc by (simp only: replicate_Suc put.simps)
qed (simp add: pad_zeros.simps)

lemma string_at_prepend:
  assumes "string_at m (a + of_nat (length zs)) xs" "0 \<notin> set zs" "length zs + length xs < 2 ^ 32"
  shows "string_at (put m a zs) a (zs @ xs)"
proof -
  have "put m a zs (a + of_nat i) = (zs @ xs @ [0]) ! i" if "i \<le> length zs + length xs" for i
  proof (cases "i < length zs")
    case True
    then show ?thesis using assms(3) by (simp add: put_inside nth_append)
  next
    case False
    have "unat (of_nat i :: u32) = i"
      using that assms(3) by (simp add: unat_of_nat take_bit_nat_eq_self)
    then have "put m a zs (a + of_nat i) = m (a + of_nat (length zs) + of_nat (i - length zs))"
      using False by (simp add: put_outside add.assoc flip: of_nat_add)
    also have "\<dots> = (xs @ [0]) ! (i - length zs)"
    proof (cases "i - length zs < length xs")
      case True
      then show ?thesis using string_at_nth [OF assms(1)] by (simp add: nth_append)
    next
      case ge: False
      then have "i - length zs = length xs" using that by simp
      then show ?thesis using string_at_end [OF assms(1)] by (simp only: nth_append_length)
    qed
    finally show ?thesis using False by (simp add: nth_append)
  qed
  from this this [of "length zs + length xs"] show ?thesis
    using assms by (auto simp: string_at_def nth_append)
qed


lemma printf_hex_text:
  fixes v :: u32
  assumes "cursor_ok s" "conv_off_screen conv"
  defines "ds \<equiv> number_text 16 (unat v)"
  shows "\<exists>s'. printf_hex alternate v conv s = Some s' \<and> cursor_ok s' \<and>
    text_of s' = fold spec_putc ((if alternate then replicate (8 - length ds) 0x30 else []) @ ds)
      (text_of s)"
proof (cases alternate)
  case False
  obtain m' where m': "itoa (memory s) v conv 16 = Some m'"
      "string_off_screen (s\<lparr>memory := m'\<rparr>) conv ds"
      "text_of (s\<lparr>memory := m'\<rparr>) = text_of s"
    using itoa_off_screen [OF assms(2), of 0 16 s v] by (auto simp: ds_def)
  with False show ?thesis
    using puts_text [of "s\<lparr>memory := m'\<rparr>" conv ds] assms(1) by (auto simp: printf_hex_def)
next
  case True
  have len: "length ds \<le> 8" unfolding ds_def
    using unat_u32 [of v] by (intro length_number_text) simp_all
  let ?l = "length ds" and ?zs = "replicate (8 - length ds) (0x30 :: u8)"
  obtain m' where m': "itoa (memory s) v (conv + of_nat 8) 16 = Some m'"
      "string_off_screen (s\<lparr>memory := m'\<rparr>) (conv + of_nat 8) ds"
      "text_of (s\<lparr>memory := m'\<rparr>) = text_of s"
    using itoa_off_screen [OF assms(2), of 8 16 s v] by (auto simp: ds_def)
  let ?m = "put m' (conv + of_nat ?l) ?zs"
  have l8: "conv + of_nat ?l + of_nat (length ?zs) = conv + of_nat 8"
    using len by (simp add: add.assoc flip: of_nat_add)
  have off: "\<not> in_video (conv + of_nat ?l + of_nat i)" if "i \<le> 8" for i
    using assms(2) len that unfolding conv_off_screen_def
    by (auto simp: add.assoc simp flip: of_nat_add)
  have "string_at ?m (conv + of_nat ?l) (?zs @ ds)"
    using m'(2) l8 len by (intro string_at_prepend) (simp_all only: string_off_screen_def, simp_all)
  moreover have "\<not> in_video (conv + of_nat ?l + of_nat i)" if "i \<le> length (?zs @ ds)" for i
    using that len by (intro off) simp
  ultimately have str: "string_off_screen (s\<lparr>memory := ?m\<rparr>) (conv + of_nat ?l) (?zs @ ds)"
    by (simp add: string_off_screen_def)
  have "?m a = m' a" if "in_video a" for a
  proof (rule put_outside, rule ccontr)
    assume "\<not> length ?zs \<le> unat (a - (conv + of_nat ?l))"
    then have "unat (a - (conv + of_nat ?l)) \<le> 8" by simp
    then show False using off [of "unat (a - (conv + of_nat ?l))"] that by simp
  qed
  then have "text_of (s\<lparr>memory := ?m\<rparr>) = text_of (s\<lparr>memory := m'\<rparr>)"
    using text_of_memory [of ?m "s\<lparr>memory := m'\<rparr>"] by simp
  moreover have "strlen m' (conv + 8) = Some (of_nat ?l)"
    using m'(2) strlen_string by (simp add: string_off_screen_def)
  moreover have "pad_zeros m' conv (sint (of_nat ?l :: u32)) = ?m"
    using pad_zeros_put [of "8 - ?l" m' conv] len by (simp add: sint_of_nat_fits of_nat_diff)
  ultimately show ?thesis
    using puts_text [OF _ str] assms(1) m'(1,3) True by (auto simp: printf_hex_def)
qed

subsection \<open>Properties\<close>

text \<open>C23: Printing a C string that lies outside the frame buffer writes exactly its characters:
  the text screen the user sees becomes the abstract screen after those characters, wrapping
  and scrolling included, the cursor stays on the screen and no byte outside the frame
  buffer changes.\<close>
theorem puts_refines:
  assumes "cursor_ok s" "string_off_screen s str xs"
  shows "\<exists>s'. puts str s = Some (of_nat (length xs), s') \<and> cursor_ok s' \<and>
    text_of s' = fold spec_putc xs (text_of s) \<and>
    (\<forall>a. \<not> in_video a \<longrightarrow> memory s' a = memory s a)"
proof -
  have "text_of (fold putc xs s) = fold spec_putc xs (text_of s)"
    using assms(1) by (induction xs arbitrary: s) (simp_all add: putc_text_of cursor_ok_putc)
  then show ?thesis
    using puts_string [OF assms] cursor_ok_fold_putc fold_putc_outside assms(1) by fastforce
qed

lemma puts_refines_witness:
  "\<exists>s s' :: screen. puts 0x1000 s = Some (1, s') \<and> text_of s' = spec_putc 0x41 (text_of s)"
proof -
  define s :: screen where "s = \<lparr>memory = (\<lambda>_. 0)(0x1000 := 0x41), ports = [], int_flag = True,
     master_mask = 0, slave_mask = 0, virt_freq = 2, rtc_inter_count = 0, screen_x = 0, screen_y = 24\<rparr>"
  have "cursor_ok s" by (simp add: s_def cursor_ok_def screen_consts)
  moreover have "string_off_screen s 0x1000 [0x41]"
    by (simp add: s_def string_off_screen_def string_at_eval in_video_def VIDEO_def le_Suc_eq)
  ultimately show ?thesis using puts_refines [of s "0x1000" "[0x41]"] by auto
qed

lemma parse_number_zeros: "parse_number r (replicate n 0x30 @ ds) = parse_number r ds"
proof -
  have "digits_value r (ds @ replicate n 0) = digits_value r ds" for ds
    by (induction ds) (auto simp: digits_value_def intro!: foldr_cong, induction n, simp_all)
  then show ?thesis
    by (simp add: parse_number_def byte_digit_def)
qed

text \<open>\<open>printf\<close>'s conversions print the number they are given: \<open>%u\<close> its decimal digits,
  \<open>%d\<close> a sign for a negative value and the digits of the absolute value, \<open>%x\<close> its
  hexadecimal digits and \<open>%#x\<close> exactly eight of them, zeros first.\<close>
theorem printf_numbers_correct:
  assumes "cursor_ok s" "conv_off_screen conv"
  shows "(\<exists>s'. printf_convert 0x75 alternate esp conv s = Some (s', esp + 4) \<and>
      text_of s' = fold spec_putc (number_text 10 (unat (rd32 (memory s) esp))) (text_of s)) \<and>
    (\<exists>s'. printf_convert 0x64 alternate esp conv s = Some (s', esp + 4) \<and>
      text_of s' = fold spec_putc ((if sint (rd32 (memory s) esp) < 0 then [0x2D] else []) @
        number_text 10 (nat \<bar>sint (rd32 (memory s) esp)\<bar>)) (text_of s)) \<and>
    (\<exists>s' ds. printf_convert 0x78 alternate esp conv s = Some (s', esp + 4) \<and>
      text_of s' = fold spec_putc ds (text_of s) \<and>
      parse_number 16 ds = unat (rd32 (memory s) esp) \<and> (alternate \<longrightarrow> length ds = 8))"
proof -
  let ?v = "rd32 (memory s) esp"
  let ?h = "number_text 16 (unat ?v)"
  let ?ds = "(if alternate then replicate (8 - length ?h) 0x30 else []) @ ?h"
  have "parse_number 16 ?ds = unat ?v"
    by (simp add: parse_number_zeros parse_number_text)
  moreover have "length ?h \<le> 8"
    using unat_u32 [of ?v] by (intro length_number_text) simp_all
  then have "alternate \<longrightarrow> length ?ds = 8" by simp
  moreover obtain su ss sh where conv:
      "printf_unsigned ?v conv s = Some su" "printf_signed ?v conv s = Some ss"
      "printf_hex alternate ?v conv s = Some sh"
      "text_of su = fold spec_putc (number_text 10 (unat ?v)) (text_of s)"
      "text_of ss = fold spec_putc ((if sint ?v < 0 then [0x2D] else []) @
        number_text 10 (nat \<bar>sint ?v\<bar>)) (text_of s)"
      "text_of sh = fold spec_putc ?ds (text_of s)"
    using printf_unsigned_text [OF assms, of ?v] printf_signed_text [OF assms, of ?v]
      printf_hex_text [OF assms, of alternate ?v] by metis
  ultimately show ?thesis
    unfolding printf_convert_def Let_def
    by (intro conjI exI [of _ su] exI [of _ ss] exI [of _ sh] exI [of _ ?ds]) simp_all
qed

lemma printf_numbers_correct_witness:
  "\<exists>s s' :: screen. printf_convert 0x64 False 0x1000 0x2000 s = Some (s', 0x1004)"
proof -
  define s :: screen where "s = \<lparr>memory = \<lambda>_. 0xFF, ports = [], int_flag = True,
     master_mask = 0, slave_mask = 0, virt_freq = 2, rtc_inter_count = 0, screen_x = 0, screen_y = 24\<rparr>"
  have "cursor_ok s" by (simp add: s_def cursor_ok_def screen_consts)
  moreover have "conv_off_screen 0x2000"
  proof -
    have "\<not> unat (0x2000 + of_nat i - VIDEO) < 4000" if "i < 64" for i
    proof -
      have "(0x2000 :: u32) + of_nat i - VIDEO = of_nat (4294221824 + i)" by (simp add: VIDEO_def)
      then show ?thesis using that by (simp only: unat_of_nat take_bit_nat_eq_self) simp
    qed
    then show ?thesis by (simp add: conv_off_screen_def in_video_def)
  qed
  ultimately show ?thesis using printf_numbers_correct [of s "0x2000" False "0x1000"] by auto
qed

end
