(* ===== verification/Paging.thy ===== *)
theory Paging
  imports Screen
begin

section \<open>Paging (paging.c)\<close>

text \<open>
  The page directory, the page table of the first 4 MB, the video page table and the
  control registers of \<open>student-distrib/paging.c\<close>. The three arrays have \<open>oneK\<close> entries;
  every index the code uses is below 1024 (a 32-bit address divided by 4 MB, or a loop
  counter), so an array is a function of its index. Where the linker puts them is a
  parameter, \<open>tables\<close>.

  \<open>tlb\<close> is what the processor may have cached, by page number. \<open>memory\<close> is what the kernel's
  addresses show under the current directory; the directory entry of the program window
  at 128 MB is the only one whose change moves memory the kernel reads or writes, so
  \<open>frames\<close> holds what the physical frames behind that window contain.
\<close>

record paging = screen +
  page_directory :: "nat \<Rightarrow> u32"
  page_table :: "nat \<Rightarrow> u32"
  video_page :: "nat \<Rightarrow> u32"
  cr0 :: u32
  cr3 :: u32
  cr4 :: u32
  tlb :: "u32 \<Rightarrow> (addr \<times> bool) option"
  frames :: mem

record tables =
  directory_addr :: addr
  table_addr :: addr
  video_page_addr :: addr

definition oneK :: u32 where "oneK = 1024"
definition fourK :: u32 where "fourK = 4096"
definition fourM :: u32 where "fourM = 0x400000"
definition eightM :: u32 where "eightM = 0x800000"
definition video_mem_offset :: nat where "video_mem_offset = 0xb8"
definition video_mem_addr :: addr where "video_mem_addr = 0xb8000"
definition virtual_mem :: addr where "virtual_mem = 0x8000000"
definition addr_148MB :: addr where "addr_148MB = 0x9400000"

lemmas paging_consts = oneK_def fourK_def fourM_def eightM_def video_mem_offset_def
  video_mem_addr_def virtual_mem_def addr_148MB_def

text \<open>Loading \<open>cr3\<close> drops every cached translation.\<close>

definition load_cr3 :: "u32 \<Rightarrow> 'a paging_scheme \<Rightarrow> 'a paging_scheme" where
  "load_cr3 v s = s\<lparr>cr3 := v, tlb := \<lambda>_. None\<rparr>"

definition flush_TLB :: "'a paging_scheme \<Rightarrow> 'a paging_scheme" where
  "flush_TLB s = load_cr3 (cr3 s) s"

text \<open>
  A store to \<open>page_directory[i]\<close>. The window's entry decides which frame the 4 MB at
  128 MB show: the bytes shown so far stay behind in their frame, the new frame's appear.
\<close>

definition in_window :: "addr \<Rightarrow> bool" where
  "in_window a \<longleftrightarrow> a - virtual_mem < fourM"

definition large_frame :: "u32 \<Rightarrow> addr" where
  "large_frame e = e AND 0xFFC00000"

definition maps_large :: "u32 \<Rightarrow> bool" where
  "maps_large e \<longleftrightarrow> bit e 0 \<and> bit e 7"

definition saved_frames :: "'a paging_scheme \<Rightarrow> mem" where
  "saved_frames s = (let e = page_directory s 32 in
     if maps_large e
     then (\<lambda>p. if p - large_frame e < fourM then memory s (virtual_mem + (p - large_frame e)) else frames s p)
     else frames s)"

definition set_directory :: "nat \<Rightarrow> u32 \<Rightarrow> 'a paging_scheme \<Rightarrow> 'a paging_scheme" where
  "set_directory i v s =
     (if i = 32 \<and> maps_large v then
        (let fr = saved_frames s
         in s\<lparr>page_directory := (page_directory s)(i := v), frames := fr,
              memory := (\<lambda>a. if in_window a then fr (large_frame v + (a - virtual_mem)) else memory s a)\<rparr>)
      else s\<lparr>page_directory := (page_directory s)(i := v)\<rparr>)"

text \<open>One turn of the loop of \<open>paging_init\<close>, then the function.\<close>

definition init_entry :: "nat \<Rightarrow> 'a paging_scheme \<Rightarrow> 'a paging_scheme" where
  "init_entry i s =
     (let s = set_directory i 0x2 s
      in if i = video_mem_offset then s\<lparr>page_table := (page_table s)(i := of_nat i * fourK OR 0x3)\<rparr>
         else s\<lparr>page_table := (page_table s)(i := of_nat i * fourK OR 0x2)\<rparr>)"

definition paging_init :: "tables \<Rightarrow> 'a paging_scheme \<Rightarrow> 'a paging_scheme" where
  "paging_init L s =
     (let s = fold init_entry [0..<1024] s;
          s = set_directory 0 (table_addr L OR 0x3) s;
          s = set_directory 1 (oneK * fourK OR 0x83) s;
          s = s\<lparr>cr4 := cr4 s OR 0x10\<rparr>;
          s = load_cr3 (directory_addr L) s
      in s\<lparr>cr0 := cr0 s OR 0x80000000\<rparr>)"

definition syscall_paging_setup :: "addr \<Rightarrow> 'a paging_scheme \<Rightarrow> 'a paging_scheme" where
  "syscall_paging_setup a s =
     (let i = unat (virtual_mem div fourM)
      in flush_TLB (set_directory i (a OR 0x87) s))"

definition video_entry :: "addr \<Rightarrow> nat \<Rightarrow> 'a paging_scheme \<Rightarrow> 'a paging_scheme" where
  "video_entry physical j s =
     (if j = 0 then s\<lparr>video_page := (video_page s)(0 := physical OR 0x7)\<rparr>
      else s\<lparr>video_page := (video_page s)(j := 0x2)\<rparr>)"

definition videomem_map :: "tables \<Rightarrow> addr \<Rightarrow> addr \<Rightarrow> 'a paging_scheme \<Rightarrow> 'a paging_scheme" where
  "videomem_map L virtual physical s =
     (let i = unat (virtual div fourM);
          s = set_directory i (video_page_addr L OR 0x7) s
      in flush_TLB (fold (video_entry physical) [0..<1024] s))"

definition videomem_unmap :: "addr \<Rightarrow> addr \<Rightarrow> 'a paging_scheme \<Rightarrow> 'a paging_scheme" where
  "videomem_unmap virtual physical s =
     (let i = unat (virtual div fourM);
          s = s\<lparr>video_page := (video_page s)(0 := 0x02)\<rparr>
      in flush_TLB (set_directory i 0x02 s))"

subsection \<open>The address translation the tables describe\<close>

text \<open>
  The processor's walk, by page number: the frame address and whether user code may use
  it. A directory entry that names neither table of the kernel translates nothing.
\<close>

definition table_of :: "tables \<Rightarrow> 'a paging_scheme \<Rightarrow> u32 \<Rightarrow> (nat \<Rightarrow> u32) option" where
  "table_of L s e = (let f = e AND 0xFFFFF000 in
     if f = table_addr L then Some (page_table s)
     else if f = video_page_addr L then Some (video_page s) else None)"

definition walk :: "tables \<Rightarrow> 'a paging_scheme \<Rightarrow> u32 \<Rightarrow> (addr \<times> bool) option" where
  "walk L s vpn =
     (let e = page_directory s (unat (vpn div 1024)); k = vpn mod 1024 in
      if \<not> bit e 0 then None
      else if bit e 7 then Some (large_frame e + k * 4096, bit e 2)
      else (case table_of L s e of
          None \<Rightarrow> None
        | Some t \<Rightarrow> (let p = t (unat k) in
            if bit p 0 then Some (p AND 0xFFFFF000, bit e 2 \<and> bit p 2) else None)))"

text \<open>An access: the cached translation if there is one, else the walk's, which is cached.\<close>

definition mmu :: "tables \<Rightarrow> u32 \<Rightarrow> 'a paging_scheme \<Rightarrow> (addr \<times> bool) option \<times> 'a paging_scheme" where
  "mmu L vpn s = (case tlb s vpn of
       Some e \<Rightarrow> (Some e, s)
     | None \<Rightarrow> (walk L s vpn, s\<lparr>tlb := (tlb s)(vpn := walk L s vpn)\<rparr>))"

definition tlb_coherent :: "tables \<Rightarrow> 'a paging_scheme \<Rightarrow> bool" where
  "tlb_coherent L s \<longleftrightarrow> (\<forall>vpn e. tlb s vpn = Some e \<longrightarrow> walk L s vpn = Some e)"

definition tables_ok :: "tables \<Rightarrow> bool" where
  "tables_ok L \<longleftrightarrow> table_addr L AND 0xFFF = 0 \<and> video_page_addr L AND 0xFFF = 0 \<and>
     table_addr L \<noteq> video_page_addr L"

lemma directory_set [simp]:
  "page_directory (set_directory i v s) = (page_directory s)(i := v)"
  "page_table (set_directory i v s) = page_table s"
  "video_page (set_directory i v s) = video_page s"
  "cr0 (set_directory i v s) = cr0 s" "cr3 (set_directory i v s) = cr3 s"
  "cr4 (set_directory i v s) = cr4 s" "tlb (set_directory i v s) = tlb s"
  "paging.more (set_directory i v s) = paging.more s"
  by (simp_all add: set_directory_def Let_def)

lemma flush_fields [simp]:
  "page_directory (flush_TLB s) = page_directory s" "page_table (flush_TLB s) = page_table s"
  "video_page (flush_TLB s) = video_page s" "memory (flush_TLB s) = memory s"
  "frames (flush_TLB s) = frames s" "tlb (flush_TLB s) = (\<lambda>_. None)"
  "paging.more (flush_TLB s) = paging.more s"
  by (simp_all add: flush_TLB_def load_cr3_def)

lemma walk_cong:
  "page_directory s = page_directory t \<Longrightarrow> page_table s = page_table t \<Longrightarrow>
    video_page s = video_page t \<Longrightarrow> walk L s = walk L t"
  by (simp add: walk_def table_of_def fun_eq_iff Let_def)

lemma flushed_coherent: "tlb s = (\<lambda>_. None) \<Longrightarrow> tlb_coherent L s"
  by (simp add: tlb_coherent_def)

lemma coherent_setup [inv_intros]: "tlb_coherent L (syscall_paging_setup a s)"
  by (rule flushed_coherent) (simp add: syscall_paging_setup_def Let_def)

lemma coherent_map [inv_intros]: "tlb_coherent L (videomem_map T v p s)"
  by (rule flushed_coherent) (simp add: videomem_map_def Let_def)

lemma coherent_unmap [inv_intros]: "tlb_coherent L (videomem_unmap v p s)"
  by (rule flushed_coherent) (simp add: videomem_unmap_def Let_def)

lemma coherent_init [inv_intros]: "tlb_coherent L (paging_init T s)"
  by (rule flushed_coherent) (simp add: paging_init_def load_cr3_def Let_def)

lemma mmu_correct:
  assumes "tlb_coherent L s"
  shows "fst (mmu L vpn s) = walk L s vpn" "tlb_coherent L (snd (mmu L vpn s))"
proof -
  have "walk L (s\<lparr>tlb := t\<rparr>) = walk L s" for t by (rule walk_cong) simp_all
  then show "fst (mmu L vpn s) = walk L s vpn" "tlb_coherent L (snd (mmu L vpn s))"
    using assms by (auto simp: mmu_def tlb_coherent_def split: option.split)
qed

subsection \<open>Entries\<close>

lemma entry_frame:
  fixes t :: u32
  assumes "t AND 0xFFF = 0" "f AND 0xFFFFF000 = 0"
  shows "(t OR f) AND 0xFFFFF000 = t"
proof -
  have "(0xFFF :: u32) OR 0xFFFFF000 = -1" by simp
  then have "t = t AND (0xFFF OR 0xFFFFF000)" by (simp only: bit.conj_one_right)
  also have "\<dots> = (t AND 0xFFF) OR (t AND 0xFFFFF000)" by (rule bit.conj_disj_distrib)
  finally have "t AND 0xFFFFF000 = t" using assms(1) by simp
  then show ?thesis using assms(2) by (simp add: bit.conj_disj_distrib2)
qed

lemma entry_large:
  fixes t :: u32
  assumes "t AND 0x3FFFFF = 0" "f AND 0xFFC00000 = 0"
  shows "large_frame (t OR f) = t"
proof -
  have "(0x3FFFFF :: u32) OR 0xFFC00000 = -1" by simp
  then have "t = t AND (0x3FFFFF OR 0xFFC00000)" by (simp only: bit.conj_one_right)
  also have "\<dots> = (t AND 0x3FFFFF) OR (t AND 0xFFC00000)" by (rule bit.conj_disj_distrib)
  finally have "t AND 0xFFC00000 = t" using assms(1) by simp
  then show ?thesis using assms(2) by (simp add: large_frame_def bit.conj_disj_distrib2)
qed

lemma entry_bit:
  fixes t :: u32
  assumes "t AND m = 0" "bit m k"
  shows "bit (t OR f) k = bit f k"
proof -
  have "\<not> bit (t AND m) k" using assms(1) by simp
  then show ?thesis using assms(2) by (simp add: bit_and_iff bit_or_iff)
qed

lemma bits_numeral [simp]:
  "bit (0xFFF :: u32) 0" "bit (0xFFF :: u32) 2" "bit (0xFFF :: u32) 7"
  "bit (0x3FFFFF :: u32) 0" "bit (0x3FFFFF :: u32) 2" "bit (0x3FFFFF :: u32) 7"
  by (simp_all add: bit_iff_odd_drop_bit drop_bit_eq_div unsigned_numeral)

subsection \<open>paging_init\<close>

definition init_page :: "nat \<Rightarrow> u32" where
  "init_page i = (if i = video_mem_offset then of_nat i * fourK OR 0x3 else of_nat i * fourK OR 0x2)"

lemma not_large_2: "\<not> maps_large 2" by (simp add: maps_large_def)

lemma init_entry_eq:
  "init_entry i s = s\<lparr>page_directory := (page_directory s)(i := 0x2),
     page_table := (page_table s)(i := init_page i)\<rparr>"
  by (simp add: init_entry_def set_directory_def not_large_2 init_page_def)

lemma init_fold:
  "fold init_entry [0..<n] s =
   s\<lparr>page_directory := (\<lambda>i. if i < n then 0x2 else page_directory s i),
     page_table := (\<lambda>i. if i < n then init_page i else page_table s i)\<rparr>"
proof (induction n)
  case (Suc n)
  have "(\<lambda>i. if i < Suc n then 2 else page_directory s i) =
      (\<lambda>i. if i < n then 2 else page_directory s i)(n := 2)"
    "(\<lambda>i. if i < Suc n then init_page i else page_table s i) =
      (\<lambda>i. if i < n then init_page i else page_table s i)(n := init_page n)"
    by (auto simp: fun_eq_iff less_Suc_eq)
  moreover have "fold init_entry [0..<Suc n] s = init_entry n (fold init_entry [0..<n] s)" by simp
  ultimately show ?case unfolding Suc.IH by (simp only:) (simp add: init_entry_eq [of n])
qed simp

lemma paging_init_tables:
  "page_directory (paging_init L s) = (\<lambda>i. if i = 0 then table_addr L OR 0x3
      else if i = 1 then 0x400083 else if i < 1024 then 0x2 else page_directory s i)"
  "page_table (paging_init L s) = (\<lambda>i. if i < 1024 then init_page i else page_table s i)"
  "memory (paging_init L s) = memory s" "frames (paging_init L s) = frames s"
  "cr0 (paging_init L s) = cr0 s OR 0x80000000" "cr4 (paging_init L s) = cr4 s OR 0x10"
  "cr3 (paging_init L s) = directory_addr L"
  unfolding paging_init_def init_fold Let_def
  by (simp_all add: load_cr3_def set_directory_def fun_eq_iff paging_consts)

lemma init_page_present: "i < 1024 \<Longrightarrow> bit (init_page i) 0 \<longleftrightarrow> i = 0xB8"
  by (auto simp: init_page_def bit_or_iff bit_0 paging_consts even_or_iff)

lemma init_page_video: "init_page 184 = 0xB8003"
  by (simp add: init_page_def paging_consts)

lemma walk_init:
  assumes L: "tables_ok L" and vpn: "vpn < 0x100000"
  shows "walk L (paging_init L s) vpn =
    (if vpn = 0xB8 then Some (0xB8000, False)
     else if 0x400 \<le> vpn \<and> vpn < 0x800 then Some (vpn * 4096, False) else None)"
proof -
  have L': "table_addr L AND 0xFFF = 0" using L by (simp add: tables_ok_def)
  have tab: "table_of L t (table_addr L OR 3) = Some (page_table t)" for t :: "'a paging_scheme"
    using entry_frame [OF L', of 3] by (simp add: table_of_def Let_def)
  have e0: "bit (table_addr L OR 3) 0" "\<not> bit (table_addr L OR 3) 7" "\<not> bit (table_addr L OR 3) 2"
    using entry_bit [OF L', of _ 3] by simp_all
  have n: "unat vpn < 1048576" using vpn by (simp add: word_less_nat_alt)
  have d: "unat (vpn div 1024) = unat vpn div 1024" "unat (vpn mod 1024) = unat vpn mod 1024"
    by (simp_all add: unat_div unat_mod)
  consider "unat vpn < 1024" | "1024 \<le> unat vpn" "unat vpn < 2048" | "2048 \<le> unat vpn" by linarith
  then show ?thesis
  proof cases
    case 1
    then have "unat vpn div 1024 = 0" "unat vpn mod 1024 = unat vpn" by simp_all
    then show ?thesis
      using 1 e0 tab
      by (auto simp: walk_def d paging_init_tables init_page_present Let_def word_unat_eq_iff
          word_le_nat_alt init_page_video)
  next
    case 2
    then have "unat vpn div 1024 = 1" by simp
    moreover have "large_frame 0x400083 = 0x400000" "bit (0x400083 :: u32) 0" "bit (0x400083 :: u32) 7"
      "\<not> bit (0x400083 :: u32) 2"
      by (simp_all add: large_frame_def)
    moreover have "0x400000 + (vpn mod 1024) * 4096 = vpn * 4096"
    proof -
      have "unat vpn mod 1024 = unat vpn - 1024" using 2 by (simp add: mod_if)
      then have "vpn mod 1024 = vpn - 1024"
        using 2 d(2) by (simp add: word_unat_eq_iff unat_sub_if')
      moreover have "(vpn - 1024) * 4096 = vpn * 4096 - 0x400000" by (simp add: left_diff_distrib)
      ultimately show ?thesis by (simp only:) simp
    qed
    moreover have "vpn \<noteq> 0xB8" using 2 by (auto simp: word_unat_eq_iff)
    ultimately show ?thesis
      using 2 by (auto simp: walk_def d paging_init_tables Let_def word_less_nat_alt word_le_nat_alt)
  next
    case 3
    then have "2 \<le> unat vpn div 1024" "unat vpn div 1024 < 1024" using n by linarith+
    then show ?thesis
      using 3 by (auto simp: walk_def d paging_init_tables Let_def word_unat_eq_iff word_less_nat_alt word_le_nat_alt)
  qed
qed


subsection \<open>The program window and the video page\<close>

lemma window_index: "unat (virtual_mem div fourM) = 32" "unat (addr_148MB div fourM) = 37"
  by (simp_all add: paging_consts unat_div)

definition task_frame :: "u32 \<Rightarrow> addr" where
  "task_frame tid = eightM + tid * fourM"

lemma task_frame_aligned: "task_frame tid AND 0x3FFFFF = 0"
proof -
  have "task_frame tid = push_bit 22 (tid + 2)"
    by (simp add: task_frame_def paging_consts push_bit_eq_mult algebra_simps)
  moreover have "push_bit 22 (tid + 2) AND (0x3FFFFF :: u32) = 0"
  proof (rule bit_word_eqI)
    fix n assume "n < LENGTH(32)"
    have "bit (0x3FFFFF :: u32) n \<longleftrightarrow> n < 22"
    proof -
      have "(0x3FFFFF :: u32) = mask 22" by (simp add: mask_eq_exp_minus_1)
      then show ?thesis using \<open>n < LENGTH(32)\<close> by (simp only: bit_mask_iff) simp
    qed
    then show "bit (push_bit 22 (tid + 2) AND (0x3FFFFF :: u32)) n = bit (0 :: u32) n"
      by (auto simp: bit_and_iff bit_push_bit_iff)
  qed
  ultimately show ?thesis by simp
qed

lemma task_entry:
  "large_frame (task_frame tid OR 0x87) = task_frame tid" "bit (task_frame tid OR 0x87) 0"
  "bit (task_frame tid OR 0x87) 7" "bit (task_frame tid OR 0x87) 2" "maps_large (task_frame tid OR 0x87)"
proof -
  show "large_frame (task_frame tid OR 0x87) = task_frame tid"
    using task_frame_aligned by (rule entry_large) simp
  show "bit (task_frame tid OR 0x87) 0" "bit (task_frame tid OR 0x87) 7" "bit (task_frame tid OR 0x87) 2"
    using entry_bit [OF task_frame_aligned, of _ tid "0x87"] by simp_all
  then show "maps_large (task_frame tid OR 0x87)" by (simp add: maps_large_def)
qed

lemma setup_fields [simp]:
  "page_directory (syscall_paging_setup a s) = (page_directory s)(32 := a OR 0x87)"
  "page_table (syscall_paging_setup a s) = page_table s"
  "video_page (syscall_paging_setup a s) = video_page s"
  "paging.more (syscall_paging_setup a s) = paging.more s"
  by (simp_all add: syscall_paging_setup_def window_index Let_def)

lemma walk_setup:
  assumes "vpn < 0x100000"
  shows "walk L (syscall_paging_setup (task_frame tid) s) vpn =
    (if vpn div 1024 = 32 then Some (task_frame tid + (vpn mod 1024) * 4096, True)
     else walk L s vpn)"
proof -
  have "unat (vpn div 1024) = 32 \<longleftrightarrow> vpn div 1024 = 32" by (simp add: word_unat_eq_iff)
  then show ?thesis
    using task_entry by (auto simp: walk_def table_of_def Let_def)
qed

lemma task_frame_inj:
  assumes "i < 6" "j < 6" "i \<noteq> j" "o1 < fourM" "o2 < fourM"
  shows "task_frame i + o1 \<noteq> task_frame j + o2" "eightM \<le> task_frame i + o1"
proof -
  have u: "unat (task_frame k + o') = 0x800000 + unat k * 0x400000 + unat o'"
    if "k < 6" "o' < fourM" for k o'
    using that by (simp add: task_frame_def paging_consts word_less_nat_alt unat_word_ariths)
  have ne: "unat i \<noteq> unat j" using assms(3) by (simp add: word_unat_eq_iff)
  have "0x800000 + unat i * 0x400000 + unat o1 \<noteq> 0x800000 + unat j * 0x400000 + unat o2"
    using assms(4,5) ne by (simp add: paging_consts word_less_nat_alt)
  then show "task_frame i + o1 \<noteq> task_frame j + o2"
    using u [OF assms(1,4)] u [OF assms(2,5)] by metis
  show "eightM \<le> task_frame i + o1"
    using u [OF assms(1,4)] by (simp add: word_le_nat_alt paging_consts)
qed

text \<open>The bytes of a task come back with its frame.\<close>

lemma set_window:
  "set_directory 32 (task_frame tid OR 0x87) s =
     s\<lparr>page_directory := (page_directory s)(32 := task_frame tid OR 0x87), frames := saved_frames s,
       memory := (\<lambda>a. if in_window a then saved_frames s (task_frame tid + (a - virtual_mem))
                      else memory s a)\<rparr>"
  by (simp only: set_directory_def task_entry Let_def simp_thms if_True)

lemma setup_memory:
  "memory (syscall_paging_setup (task_frame tid) s) =
     (\<lambda>a. if in_window a then saved_frames s (task_frame tid + (a - virtual_mem)) else memory s a)"
  "frames (syscall_paging_setup (task_frame tid) s) = saved_frames s"
  by (simp_all add: syscall_paging_setup_def window_index Let_def set_window)

lemma saved_frames_cong:
  fixes s t :: "'a paging_scheme"
  assumes "page_directory t = page_directory s" "frames t = frames s" "\<And>a. in_window a \<Longrightarrow> memory t a = memory s a"
  shows "saved_frames t = saved_frames s"
proof
  fix p
  have "in_window (virtual_mem + o')" if "o' < fourM" for o' using that by (simp add: in_window_def)
  then show "saved_frames t p = saved_frames s p" using assms by (simp add: saved_frames_def Let_def)
qed

lemma saved_frames_setup:
  assumes "page_directory s 32 = task_frame tid OR 0x87" "in_window a"
  shows "saved_frames s (task_frame tid + (a - virtual_mem)) = memory s a"
  using assms by (simp add: saved_frames_def task_entry in_window_def)

lemma saved_frames_other:
  assumes "page_directory s 32 = task_frame tid OR 0x87" "in_window a" "tid < 6" "j < 6" "j \<noteq> tid"
  shows "saved_frames s (task_frame j + (a - virtual_mem)) = frames s (task_frame j + (a - virtual_mem))"
proof -
  have "\<not> task_frame j + (a - virtual_mem) - task_frame tid < fourM"
  proof
    let ?o = "task_frame j + (a - virtual_mem) - task_frame tid"
    assume "?o < fourM"
    then have "task_frame tid + ?o \<noteq> task_frame j + (a - virtual_mem)"
      using assms by (intro task_frame_inj(1)) (auto simp: in_window_def)
    then show False by simp
  qed
  then show ?thesis using assms(1) by (simp add: saved_frames_def task_entry)
qed

text \<open>
  What a task's 4 MB contain, whichever task is running: the window for the task it shows,
  its frame for the others.
\<close>

definition task_memory :: "u32 \<Rightarrow> 'a paging_scheme \<Rightarrow> addr \<Rightarrow> u8" where
  "task_memory tid s off = saved_frames s (task_frame tid + off)"

lemma task_memory_setup:
  assumes "i < 6" "j < 6" "off < fourM"
  shows "task_memory i (syscall_paging_setup (task_frame j) s) off = task_memory i s off"
proof -
  let ?s = "syscall_paging_setup (task_frame j) s" and ?a = "virtual_mem + off"
  have w: "in_window ?a" "?a - virtual_mem = off" using assms by (simp_all add: in_window_def)
  show ?thesis
  proof (cases "i = j")
    case True
    then show ?thesis
      using saved_frames_setup [of ?s j ?a] w by (simp add: task_memory_def setup_memory)
  next
    case False
    then show ?thesis
      using saved_frames_other [of ?s j ?a i] w assms by (simp add: task_memory_def setup_memory)
  qed
qed

lemma task_memory_window:
  assumes "off < fourM"
  shows "memory (syscall_paging_setup (task_frame j) s) (virtual_mem + off) = task_memory j s off"
  using assms by (simp add: setup_memory task_memory_def in_window_def)


lemma fold_video_page:
  "fold (video_entry p) [0..<n] s =
     s\<lparr>video_page := (\<lambda>j. if j < n then (if j = 0 then p OR 0x7 else 0x2) else video_page s j)\<rparr>"
proof (induction n)
  case (Suc n)
  let ?f = "\<lambda>j. if j = 0 then p OR 0x7 else 0x2"
  have "(\<lambda>j. if j < Suc n then ?f j else video_page s j) =
      (\<lambda>j. if j < n then ?f j else video_page s j)(n := ?f n)"
    by (auto simp: fun_eq_iff less_Suc_eq)
  moreover have "fold (video_entry p) [0..<Suc n] s = video_entry p n (fold (video_entry p) [0..<n] s)"
    by simp
  ultimately show ?case unfolding Suc.IH by (simp only:) (simp add: video_entry_def)
qed simp

lemma map_fields:
  "page_directory (videomem_map L addr_148MB p s) = (page_directory s)(37 := video_page_addr L OR 0x7)"
  "page_table (videomem_map L addr_148MB p s) = page_table s"
  "video_page (videomem_map L addr_148MB p s) =
     (\<lambda>j. if j < 1024 then (if j = 0 then p OR 0x7 else 0x2) else video_page s j)"
  "memory (videomem_map L addr_148MB p s) = memory s"
  "frames (videomem_map L addr_148MB p s) = frames s"
  "paging.more (videomem_map L addr_148MB p s) = paging.more s"
  unfolding videomem_map_def Let_def window_index fold_video_page
  by (simp_all add: fun_eq_iff) (simp_all add: set_directory_def)

lemma unmap_fields:
  "page_directory (videomem_unmap addr_148MB p s) = (page_directory s)(37 := 0x2)"
  "page_table (videomem_unmap addr_148MB p s) = page_table s"
  "video_page (videomem_unmap addr_148MB p s) = (video_page s)(0 := 0x2)"
  "memory (videomem_unmap addr_148MB p s) = memory s"
  "frames (videomem_unmap addr_148MB p s) = frames s"
  "paging.more (videomem_unmap addr_148MB p s) = paging.more s"
  unfolding videomem_unmap_def Let_def window_index
  by (simp_all add: set_directory_def)

lemma videomem_screen:
  fixes s :: "'a paging_scheme"
  shows "screen_x (videomem_map L addr_148MB p s) = screen_x s" "screen_y (videomem_map L addr_148MB p s) = screen_y s"
    "screen_x (videomem_unmap addr_148MB p s) = screen_x s" "screen_y (videomem_unmap addr_148MB p s) = screen_y s"
  unfolding videomem_map_def videomem_unmap_def Let_def window_index fold_video_page
  by (simp_all add: set_directory_def flush_TLB_def load_cr3_def)

text \<open>No other directory entry names the video page table.\<close>

definition video_page_private :: "tables \<Rightarrow> 'a paging_scheme \<Rightarrow> bool" where
  "video_page_private L s \<longleftrightarrow> (\<forall>i < 1024. i \<noteq> 37 \<longrightarrow> bit (page_directory s i) 0 \<longrightarrow>
     \<not> bit (page_directory s i) 7 \<longrightarrow> page_directory s i AND 0xFFFFF000 \<noteq> video_page_addr L)"

lemma directory_index: "vpn < 0x100000 \<Longrightarrow> unat (vpn div 1024 :: u32) < 1024"
  by (simp add: unat_div word_less_nat_alt)

lemma private_init: "tables_ok L \<Longrightarrow> video_page_private L (paging_init L s)"
  using entry_frame [of "table_addr L" 3]
  by (auto simp: video_page_private_def paging_init_tables tables_ok_def)

lemma private_setup [inv_intros]:
  "video_page_private L s \<Longrightarrow> video_page_private L (syscall_paging_setup (task_frame tid) s)"
  by (auto simp: video_page_private_def task_entry)

lemma private_map [inv_intros]:
  "video_page_private L s \<Longrightarrow> video_page_private L (videomem_map L addr_148MB p s)"
  by (auto simp: video_page_private_def map_fields)

lemma private_unmap [inv_intros]:
  "video_page_private L s \<Longrightarrow> video_page_private L (videomem_unmap addr_148MB p s)"
  by (auto simp: video_page_private_def unmap_fields)

lemma walk_map:
  assumes L: "tables_ok L" and priv: "video_page_private L s" and vpn: "vpn < 0x100000"
  shows "walk L (videomem_map L addr_148MB video_mem_addr s) vpn =
    (if vpn div 1024 = 37 then (if vpn = 0x9400 then Some (video_mem_addr, True) else None)
     else walk L s vpn)"
proof -
  have L': "video_page_addr L AND 0xFFF = 0" using L by (simp add: tables_ok_def)
  let ?s = "videomem_map L addr_148MB video_mem_addr s" and ?e = "video_page_addr L OR 7"
  have e: "bit ?e 0" "\<not> bit ?e 7" "bit ?e 2" "?e AND 0xFFFFF000 = video_page_addr L"
    using entry_bit [OF L', of _ 7] entry_frame [OF L', of 7] by simp_all
  have d: "unat (vpn div 1024) = 37 \<longleftrightarrow> vpn div 1024 = 37" by (simp add: word_unat_eq_iff)
  have l: "unat (vpn div 1024) < 1024" using directory_index vpn .
  show ?thesis
  proof (cases "vpn div 1024 = 37")
    case True
    then have dm: "unat vpn div 1024 = 37" using unat_div [of vpn 1024] by simp
    have m: "unat (vpn mod 1024) = unat vpn mod 1024" by (simp add: unat_mod)
    have k: "unat vpn mod 1024 = 0 \<longleftrightarrow> vpn = 0x9400"
      using dm div_mult_mod_eq [of "unat vpn" 1024] by (auto simp: word_unat_eq_iff)
    have "table_of L ?s ?e = Some (video_page ?s)"
      using e(4) L by (auto simp: table_of_def Let_def tables_ok_def)
    then show ?thesis
      using True e dm m k by (auto simp: walk_def map_fields Let_def video_mem_addr_def)
  next
    case False
    let ?d = "page_directory s (unat (vpn div 1024))"
    have "walk L ?s vpn = walk L s vpn" if "bit ?d 0" "\<not> bit ?d 7"
    proof -
      have "?d AND 0xFFFFF000 \<noteq> video_page_addr L"
        using priv that False d l unfolding video_page_private_def by metis
      then show ?thesis using False d by (simp add: walk_def map_fields table_of_def Let_def)
    qed
    then show ?thesis using False d by (cases "bit ?d 0 \<and> \<not> bit ?d 7") (auto simp: walk_def map_fields Let_def)
  qed
qed

lemma walk_unmap:
  assumes priv: "video_page_private L s" and vpn: "vpn < 0x100000"
  shows "walk L (videomem_unmap addr_148MB p s) vpn = (if vpn div 1024 = 37 then None else walk L s vpn)"
proof (cases "vpn div 1024 = 37")
  case True
  then show ?thesis by (simp add: walk_def unmap_fields Let_def)
next
  case False
  then have d: "unat (vpn div 1024) \<noteq> 37" by (simp add: word_unat_eq_iff)
  let ?d = "page_directory s (unat (vpn div 1024))"
  have "?d AND 0xFFFFF000 \<noteq> video_page_addr L" if "bit ?d 0" "\<not> bit ?d 7"
    using priv that d directory_index [OF vpn] unfolding video_page_private_def by metis
  then show ?thesis
    using False d by (auto simp: walk_def unmap_fields Let_def table_of_def)
qed

subsection \<open>Properties\<close>

text \<open>After \<open>paging_init\<close> paging is on and exactly the kernel's 4 MB page at 4 MB and the
  text-mode video page are mapped, each to itself and for the kernel only; every other page
  of the 4 GB, page 0 included, faults.\<close>
theorem paging_init_correct:
  assumes "tables_ok L" "vpn < 0x100000"
  shows "walk L (paging_init L s) vpn =
      (if vpn = 0xB8 then Some (0xB8000, False)
       else if 0x400 \<le> vpn \<and> vpn < 0x800 then Some (vpn * 4096, False) else None) \<and>
    bit (cr0 (paging_init L s)) 31 \<and> bit (cr4 (paging_init L s)) 4 \<and>
    cr3 (paging_init L s) = directory_addr L \<and> memory (paging_init L s) = memory s"
proof -
  have "bit (0x80000000 :: u32) 31" "bit (0x10 :: u32) 4"
    by (simp_all add: bit_iff_odd_drop_bit drop_bit_eq_div)
  then show ?thesis
    using walk_init [OF assms, of s] by (simp only: paging_init_tables) (simp add: bit_or_iff)
qed

lemma paging_init_correct_witness:
  "\<forall>s :: paging. walk \<lparr>directory_addr = 0x400000, table_addr = 0x401000, video_page_addr = 0x402000\<rparr>
     (paging_init \<lparr>directory_addr = 0x400000, table_addr = 0x401000, video_page_addr = 0x402000\<rparr> s) 0x401
   = Some (0x401000, False)"
proof
  fix s :: paging
  let ?L = "\<lparr>directory_addr = 0x400000, table_addr = 0x401000, video_page_addr = 0x402000\<rparr>"
  show "walk ?L (paging_init ?L s) 0x401 = Some (0x401000, False)"
    using paging_init_correct [of ?L "0x401" s] by (simp add: tables_ok_def)
qed



datatype paging_op = Access u32 | Setup addr | Map addr addr | Unmap addr addr

fun run_paging_op :: "tables \<Rightarrow> paging_op \<Rightarrow> 'a paging_scheme \<Rightarrow> 'a paging_scheme" where
  "run_paging_op L (Access vpn) s = snd (mmu L vpn s)"
| "run_paging_op L (Setup a) s = syscall_paging_setup a s"
| "run_paging_op L (Map v p) s = videomem_map L v p s"
| "run_paging_op L (Unmap v p) s = videomem_unmap v p s"

lemma coherent_run: "tlb_coherent L s \<Longrightarrow> tlb_coherent L (fold (run_paging_op L) ops s)"
proof (induction ops arbitrary: s)
  case (Cons op ops)
  then show ?case by (cases op) (simp_all add: inv_intros mmu_correct)
qed simp

text \<open>C28: No stale translation is ever used: after \<open>paging_init\<close> and any interleaving of memory
  accesses (which fill the TLB) with task switches and changes of the video page, an access
  is translated by the tables as they are now.\<close>
theorem tlb_never_stale:
  "let s' = fold (run_paging_op L) ops (paging_init L s) in fst (mmu L vpn s') = walk L s' vpn"
  unfolding Let_def by (intro mmu_correct(1) coherent_run coherent_init)

text \<open>Mapping the video page makes exactly the page at 148 MB a user alias of the frame buffer
  and unmapping it takes it away again; every other translation is what it was before.\<close>
theorem vidmap_roundtrip:
  assumes "tables_ok L" "video_page_private L s" "vpn < 0x100000"
  shows "walk L (videomem_map L addr_148MB video_mem_addr s) 0x9400 = Some (0xB8000, True) \<and>
    (vpn div 1024 \<noteq> 37 \<longrightarrow> walk L (videomem_map L addr_148MB video_mem_addr s) vpn = walk L s vpn) \<and>
    walk L (videomem_unmap addr_148MB video_mem_addr (videomem_map L addr_148MB video_mem_addr s)) vpn =
      (if vpn div 1024 = 37 then None else walk L s vpn)"
  using walk_map [OF assms] walk_map [OF assms(1,2), of "0x9400"]
    walk_unmap [OF private_map [OF assms(2)] assms(3), of video_mem_addr video_mem_addr]
  by (simp add: video_mem_addr_def)

lemma vidmap_roundtrip_witness:
  "\<forall>s :: paging. let L = \<lparr>directory_addr = 0x400000, table_addr = 0x401000, video_page_addr = 0x402000\<rparr> in
     walk L (videomem_map L addr_148MB video_mem_addr (paging_init L s)) 0x9400 = Some (0xB8000, True)"
proof
  fix s :: paging
  let ?L = "\<lparr>directory_addr = 0x400000, table_addr = 0x401000, video_page_addr = 0x402000\<rparr>"
  have "tables_ok ?L" by (simp add: tables_ok_def)
  then show "let L = ?L in walk L (videomem_map L addr_148MB video_mem_addr (paging_init L s)) 0x9400 =
      Some (0xB8000, True)"
    using vidmap_roundtrip [of ?L "paging_init ?L s" 0] private_init [of ?L s] by (simp add: Let_def)
qed

end
