(* ===== verification/Fs.thy ===== *)
theory Fs
  imports Paging
begin

section \<open>The read-only file system (fs_module.c)\<close>

text \<open>
  \<open>student-distrib/fs_module.c\<close> over the file system image the boot loader placed at
  \<open>boot_block\<close>: 4096-byte blocks, the boot block with its counts and 63 directory entries of
  64 bytes, then the inodes (a length and 1023 block numbers), then the data blocks. The
  functions read the image from memory with the code's own address arithmetic, on words.

  A pointer to a local variable or to a field of the file descriptor is modelled by its
  value, passed in and returned; a \<open>dentry_t\<close> pointer that may be NULL is an option. A
  pointer into user memory is an address.
\<close>

record fs = paging +
  boot_block :: addr

record dentry =
  d_name :: "u8 list"
  d_type :: u32
  d_inode :: u32
  d_reserved :: "u8 list"

definition MAX_FILENAME :: int where "MAX_FILENAME = 32"
definition MAX_FILECOUNT :: int where "MAX_FILECOUNT = 63"

text \<open>The structs of \<open>fs_module.h\<close> as address arithmetic.\<close>

definition boot_dir_entries :: "mem \<Rightarrow> addr \<Rightarrow> u32" where "boot_dir_entries m bb = rd32 m bb"
definition boot_inodes :: "mem \<Rightarrow> addr \<Rightarrow> u32" where "boot_inodes m bb = rd32 m (bb + 4)"
definition boot_data_blocks :: "mem \<Rightarrow> addr \<Rightarrow> u32" where "boot_data_blocks m bb = rd32 m (bb + 8)"

definition entry_addr :: "addr \<Rightarrow> u32 \<Rightarrow> addr" where
  "entry_addr bb i = bb + 64 + 64 * i"

definition dentry_at :: "mem \<Rightarrow> addr \<Rightarrow> dentry" where
  "dentry_at m a = \<lparr>d_name = load m a 32, d_type = rd32 m (a + 32), d_inode = rd32 m (a + 36),
     d_reserved = load m (a + 40) 24\<rparr>"

definition inode_addr :: "addr \<Rightarrow> u32 \<Rightarrow> addr" where
  "inode_addr bb inode = bb + 4096 * (inode + 1)"

definition inode_length :: "mem \<Rightarrow> addr \<Rightarrow> u32" where
  "inode_length m ia = rd32 m ia"

definition inode_block :: "mem \<Rightarrow> addr \<Rightarrow> u32 \<Rightarrow> u32" where
  "inode_block m ia i = rd32 m (ia + 4 + 4 * i)"

definition block_addr :: "mem \<Rightarrow> addr \<Rightarrow> u32 \<Rightarrow> addr" where
  "block_addr m bb data = bb + 4096 * (boot_inodes m bb + data + 1)"

definition fs_init :: "addr \<Rightarrow> 'a fs_scheme \<Rightarrow> 'a fs_scheme" where
  "fs_init module_start s = s\<lparr>boot_block := module_start\<rparr>"

subsection \<open>Directory entries\<close>

text \<open>
  The loop of \<open>read_dentry_by_name\<close>; \<open>fname_length\<close> grows by one per entry until it is 32,
  and the entry found is the result.
\<close>

function search_entry :: "mem \<Rightarrow> addr \<Rightarrow> addr \<Rightarrow> int \<Rightarrow> int \<Rightarrow> addr option" where
  "search_entry m bb fname i fname_length =
     (if i < MAX_FILECOUNT then
        (let f = entry_addr bb (word_of_int i);
             fname_length = (if fname_length < MAX_FILENAME then fname_length + 1 else fname_length)
         in if strncmp m fname f (word_of_int fname_length) = 0 then Some f
            else search_entry m bb fname (i + 1) fname_length)
      else None)"
  by pat_completeness auto
termination
  by (relation "measure (\<lambda>(m, bb, fname, i, l). nat (MAX_FILECOUNT - i))")
    (auto simp: MAX_FILECOUNT_def)

declare search_entry.simps [simp del]

definition read_dentry_by_name ::
  "mem \<Rightarrow> addr \<Rightarrow> addr \<Rightarrow> dentry option \<Rightarrow> (int \<times> dentry option) option" where
  "read_dentry_by_name m bb fname dentry = do {
     n \<leftarrow> strlen m fname;
     let fname_length = sint n;
     if fname_length > MAX_FILENAME then Some (-1, dentry)
     else if dentry = None then Some (-1, dentry)
     else (case search_entry m bb fname 0 fname_length of
         Some f \<Rightarrow> Some (0, Some (dentry_at m f))
       | None \<Rightarrow> Some (-1, dentry))
   }"

definition read_dentry_by_index ::
  "mem \<Rightarrow> addr \<Rightarrow> u32 \<Rightarrow> dentry option \<Rightarrow> int \<times> dentry option" where
  "read_dentry_by_index m bb index dentry =
     (if dentry = None then (-1, dentry)
      else if index \<ge> boot_dir_entries m bb then (-1, dentry)
      else (0, Some (dentry_at m (entry_addr bb index))))"

subsection \<open>File data\<close>

text \<open>
  The block loop of \<open>read_data\<close>: \<open>i\<close> runs from the first to the last block; \<open>nbytes\<close> is
  the clamped one, \<open>last_block\<close> the one computed before clamping. The result is the number
  of bytes copied and the memory.
\<close>

function read_blocks ::
  "addr \<Rightarrow> addr \<Rightarrow> u32 \<Rightarrow> addr \<Rightarrow> u32 \<Rightarrow> u32 \<Rightarrow> u32 \<Rightarrow> nat \<Rightarrow> u32 \<Rightarrow> mem \<Rightarrow> u32 \<times> mem" where
  "read_blocks bb inode_temp offset buf nbytes first_block last_block i bytes_copied m =
     (if i \<le> unat last_block then
        (let data = inode_block m inode_temp (of_nat i);
             data_location = block_addr m bb data;
             start_offset = (if i = unat first_block then offset mod 4096 else 0)
         in if i = unat last_block \<and> last_block * 4096 > inode_length m inode_temp
            then (bytes_copied, m)
            else (let end_offset = (if i = unat last_block then (offset + nbytes) mod 4096 else 4096);
                      len = end_offset - start_offset;
                      m = memcpy m (buf + bytes_copied) (data_location + start_offset) len
                  in read_blocks bb inode_temp offset buf nbytes first_block last_block (Suc i)
                       (bytes_copied + len) m))
      else (bytes_copied, m))"
  by pat_completeness auto
termination
  by (relation "measure (\<lambda>(bb, t, off, b, l, f, last, i, c, m). Suc (unat last) - i)") auto

declare read_blocks.simps [simp del]

definition read_data :: "addr \<Rightarrow> u32 \<Rightarrow> u32 \<Rightarrow> addr \<Rightarrow> u32 \<Rightarrow> mem \<Rightarrow> int \<times> mem" where
  "read_data bb inode offset buf nbytes m =
     (let first_block = offset div 4096;
          last_block = (offset + nbytes) div 4096
      in if buf = 0 then (-1, m)
         else if inode \<ge> boot_inodes m bb then (-1, m)
         else (let inode_temp = inode_addr bb inode;
                   flen = inode_length m inode_temp;
                   nbytes = (if offset + nbytes > flen then flen - offset else nbytes)
               in if offset \<ge> flen then (0, m)
                  else (let (n, m) = read_blocks bb inode_temp offset buf nbytes first_block
                              last_block (unat first_block) 0 m
                        in (sint n, m))))"

subsection \<open>The file and directory operations\<close>

text \<open>
  The entries of \<open>file_fops\<close> and \<open>dir_fops\<close>. \<open>open\<close> returns the result and the inode
  field, \<open>read\<close> the result, the inode, the file position and the new state.
\<close>

definition file_open :: "u32 \<Rightarrow> addr \<Rightarrow> 'a fs_scheme \<Rightarrow> (int \<times> u32) option" where
  "file_open inode filename s = do {
     (r, f) \<leftarrow> read_dentry_by_name (memory s) (boot_block s) filename
       (Some \<lparr>d_name = [], d_type = 0, d_inode = 0, d_reserved = []\<rparr>);
     if r = -1 then Some (-1, inode) else Some (0, d_inode (the f))
   }"

definition file_close :: "u32 \<Rightarrow> int \<times> u32" where
  "file_close inode = (0, 0)"

definition file_write :: "u32 \<Rightarrow> u32 \<Rightarrow> addr \<Rightarrow> u32 \<Rightarrow> int" where
  "file_write inode offset buf len = -1"

definition file_read ::
  "u32 \<Rightarrow> u32 \<Rightarrow> addr \<Rightarrow> u32 \<Rightarrow> 'a fs_scheme \<Rightarrow> int \<times> u32 \<times> u32 \<times> 'a fs_scheme" where
  "file_read inode offset buf len s =
     (let (result, m) = read_data (boot_block s) inode offset buf len (memory s);
          offset = (if result > 0 then offset + word_of_int result else offset)
      in (result, inode, offset, s\<lparr>memory := m\<rparr>))"

definition dir_open :: "u32 \<Rightarrow> addr \<Rightarrow> 'a fs_scheme \<Rightarrow> (int \<times> u32) option" where
  "dir_open inode filename s = do {
     (r, f) \<leftarrow> read_dentry_by_name (memory s) (boot_block s) filename
       (Some \<lparr>d_name = [], d_type = 0, d_inode = 0, d_reserved = []\<rparr>);
     if r = -1 then Some (-1, inode) else Some (0, d_inode (the f))
   }"

definition dir_close :: "u32 \<Rightarrow> int \<times> u32" where
  "dir_close inode = (0, 0)"

definition dir_write :: "u32 \<Rightarrow> u32 \<Rightarrow> addr \<Rightarrow> u32 \<Rightarrow> int" where
  "dir_write inode offset buf len = -1"

definition directory_read :: "u32 \<Rightarrow> addr \<Rightarrow> u32 \<Rightarrow> 'a fs_scheme \<Rightarrow> (int \<times> 'a fs_scheme) option" where
  "directory_read offset buf len s =
     (if offset \<ge> word_of_int MAX_FILECOUNT then Some (-1, s)
      else if buf = 0 then Some (-1, s)
      else do {
        let len = (if len > word_of_int MAX_FILENAME then word_of_int MAX_FILENAME else len);
        let f = entry_addr (boot_block s) offset;
        n \<leftarrow> strlen (memory s) f;
        let len = (if len > n then n else len);
        Some (sint len, s\<lparr>memory := memcpy (memory s) buf f len\<rparr>)
      })"

definition dir_read ::
  "u32 \<Rightarrow> u32 \<Rightarrow> addr \<Rightarrow> u32 \<Rightarrow> 'a fs_scheme \<Rightarrow> (int \<times> u32 \<times> u32 \<times> 'a fs_scheme) option" where
  "dir_read inode offset buf len s = do {
     (result, s) \<leftarrow> directory_read offset buf len s;
     Some (result, inode, if result > 0 then offset + 1 else offset, s)
   }"

subsection \<open>Finding a directory entry\<close>

text \<open>The name of an entry: its 32 bytes up to the first NUL.\<close>

definition entry_name :: "mem \<Rightarrow> addr \<Rightarrow> nat \<Rightarrow> u8 list" where
  "entry_name m bb i = takeWhile (\<lambda>b. b \<noteq> 0) (load m (entry_addr bb (of_nat i)) 32)"

definition lookup :: "mem \<Rightarrow> addr \<Rightarrow> u8 list \<Rightarrow> nat option" where
  "lookup m bb name = List.find (\<lambda>i. entry_name m bb i = name) [0..<63]"

lemma search_entry_find:
  assumes s: "string_at m fname xs" and len: "length xs \<le> 32"
  shows "k \<le> 63 \<Longrightarrow> l = min 32 (length xs + j) \<Longrightarrow>
    search_entry m bb fname (63 - int k) (int l) =
      map_option (\<lambda>i. entry_addr bb (of_nat i)) (List.find (\<lambda>i. entry_name m bb i = xs) [63 - k..<63])"
proof (induction k arbitrary: j l)
  case 0
  then show ?case by (simp add: search_entry.simps MAX_FILECOUNT_def)
next
  case (Suc k)
  let ?i = "63 - Suc k" and ?l = "min 32 (length xs + Suc j)"
  have i: "63 - int (Suc k) = int ?i" using Suc.prems by simp
  have l: "(if int l < MAX_FILENAME then int l + 1 else int l) = int ?l"
    using Suc.prems(2) by (auto simp: MAX_FILENAME_def)
  have cmp: "strncmp m fname (entry_addr bb (of_nat ?i)) (of_nat ?l) = 0 \<longleftrightarrow> entry_name m bb ?i = xs"
    unfolding entry_name_def
    using len by (intro strncmp_field [OF s]) (auto simp: unat_of_nat take_bit_nat_eq_self min_def)
  have up: "[?i..<63] = ?i # [63 - k..<63]"
  proof -
    have "Suc ?i = 63 - k" using Suc.prems(1) by simp
    then show ?thesis using upt_conv_Cons [of ?i 63] by simp
  qed
  have "search_entry m bb fname (int ?i) (int l) =
      (if entry_name m bb ?i = xs then Some (entry_addr bb (of_nat ?i))
       else search_entry m bb fname (63 - int k) (int ?l))"
    using Suc.prems(1) cmp
    by (subst search_entry.simps) (simp only: l Let_def, simp add: MAX_FILECOUNT_def of_nat_diff)
  then show ?case
    using Suc.IH [of ?l "Suc j"] Suc.prems(1) unfolding i up by simp
qed

lemma read_dentry_by_name_lookup:
  assumes s: "string_at m fname xs" and len: "length xs < 2 ^ 31"
  shows "read_dentry_by_name m bb fname (Some d) =
    Some (case (if length xs \<le> 32 then lookup m bb xs else None) of
        Some i \<Rightarrow> (0, Some (dentry_at m (entry_addr bb (of_nat i))))
      | None \<Rightarrow> (-1, Some d))"
proof -
  have n: "strlen m fname = Some (of_nat (length xs))" "sint (of_nat (length xs) :: u32) = int (length xs)"
    using strlen_string [OF s] sint_of_nat_fits [OF len] by simp_all
  show ?thesis
  proof (cases "length xs \<le> 32")
    case True
    then show ?thesis
      using n search_entry_find [OF s True, of 63 "length xs" 0 bb]
      by (auto simp: read_dentry_by_name_def MAX_FILENAME_def Let_def lookup_def min_def split: option.splits)
  next
    case False
    then show ?thesis using n by (simp add: read_dentry_by_name_def MAX_FILENAME_def Let_def)
  qed
qed

subsection \<open>The image and the bytes of a file\<close>

text \<open>
  A well-formed image: its blocks fit the address space and every block number an inode
  holds, the unused ones included, names a data block (image builders fill the rest with 0).
\<close>

definition image_size :: "mem \<Rightarrow> addr \<Rightarrow> nat" where
  "image_size m bb = 4096 * (1 + unat (boot_inodes m bb) + unat (boot_data_blocks m bb))"

definition in_image :: "mem \<Rightarrow> addr \<Rightarrow> addr \<Rightarrow> bool" where
  "in_image m bb a \<longleftrightarrow> unat (a - bb) < image_size m bb"

definition image_ok :: "mem \<Rightarrow> addr \<Rightarrow> bool" where
  "image_ok m bb \<longleftrightarrow> image_size m bb \<le> 2 ^ 32 \<and>
     (\<forall>inode < boot_inodes m bb. \<forall>i < 1023.
        inode_block m (inode_addr bb inode) (of_nat i) < boot_data_blocks m bb)"

definition off_image :: "mem \<Rightarrow> addr \<Rightarrow> addr \<Rightarrow> nat \<Rightarrow> bool" where
  "off_image m bb buf n \<longleftrightarrow> n < 2 ^ 32 \<and> (\<forall>k < n. \<not> in_image m bb (buf + of_nat k))"

text \<open>Byte \<open>k\<close> of a file's block chain; the file is its first \<open>inode_length\<close> bytes.\<close>

definition file_byte :: "mem \<Rightarrow> addr \<Rightarrow> u32 \<Rightarrow> nat \<Rightarrow> u8" where
  "file_byte m bb inode k =
     m (block_addr m bb (inode_block m (inode_addr bb inode) (of_nat (k div 4096))) + of_nat (k mod 4096))"

definition file_size :: "mem \<Rightarrow> addr \<Rightarrow> u32 \<Rightarrow> nat" where
  "file_size m bb inode = unat (inode_length m (inode_addr bb inode))"

lemma in_image_offset: "image_size m bb \<le> 2 ^ 32 \<Longrightarrow> k < image_size m bb \<Longrightarrow> in_image m bb (bb + of_nat k)"
  by (simp add: in_image_def unat_of_nat take_bit_nat_eq_self)

lemma put_off_image:
  assumes "off_image m bb buf n" "length xs \<le> n" "in_image m bb a"
  shows "put m buf xs a = m a"
proof (rule put_outside, rule ccontr)
  assume "\<not> length xs \<le> unat (a - buf)"
  then have "unat (a - buf) < n" using assms(2) by simp
  moreover have "buf + of_nat (unat (a - buf)) = a" by simp
  ultimately show False using assms(1,3) unfolding off_image_def by metis
qed

lemma rd32_put_off_image:
  assumes off: "off_image m bb buf n" "length xs \<le> n" and size: "image_size m bb \<le> 2 ^ 32"
    and k: "k + 3 < image_size m bb"
  shows "rd32 (put m buf xs) (bb + of_nat k) = rd32 m (bb + of_nat k)"
proof -
  have "put m buf xs (bb + of_nat k + of_nat j) = m (bb + of_nat k + of_nat j)" if "j \<le> 3" for j
    using in_image_offset [OF size, of "k + j"] that k
    by (intro put_off_image [OF off]) (simp add: add.assoc)
  from this [of 0] this [of 1] this [of 2] this [of 3] show ?thesis
    by (simp add: rd32_def)
qed

lemma boot_fields_put:
  assumes off: "off_image m bb buf n" "length xs \<le> n" and size: "image_size m bb \<le> 2 ^ 32"
  shows "boot_inodes (put m buf xs) bb = boot_inodes m bb"
    "boot_data_blocks (put m buf xs) bb = boot_data_blocks m bb"
    "boot_dir_entries (put m buf xs) bb = boot_dir_entries m bb"
  using rd32_put_off_image [OF assms, of 4] rd32_put_off_image [OF assms, of 8]
    rd32_put_off_image [OF assms, of 0]
  by (simp_all add: boot_inodes_def boot_data_blocks_def boot_dir_entries_def image_size_def)

lemma inode_addr_offset: "inode_addr bb inode = bb + of_nat (4096 * (unat inode + 1))"
  by (simp add: inode_addr_def algebra_simps)

lemma inode_in_image:
  "inode < boot_inodes m bb \<Longrightarrow> j < 4096 \<Longrightarrow> 4096 * (unat inode + 1) + j < image_size m bb"
  by (simp add: image_size_def word_less_nat_alt)

lemma inode_fields_put:
  assumes off: "off_image m bb buf n" "length xs \<le> n" and size: "image_size m bb \<le> 2 ^ 32"
    and inode: "inode < boot_inodes m bb"
  shows "inode_length (put m buf xs) (inode_addr bb inode) = inode_length m (inode_addr bb inode)"
    "i < 1023 \<Longrightarrow> inode_block (put m buf xs) (inode_addr bb inode) (of_nat i) =
       inode_block m (inode_addr bb inode) (of_nat i)"
proof -
  have "rd32 (put m buf xs) (bb + of_nat (4096 * (unat inode + 1) + j)) =
      rd32 m (bb + of_nat (4096 * (unat inode + 1) + j))" if "j + 3 < 4096" for j
    using inode_in_image [OF inode that] by (intro rd32_put_off_image [OF off size]) (simp add: add.assoc)
  from this [of 0] this [of "4 + 4 * i"]
  show "inode_length (put m buf xs) (inode_addr bb inode) = inode_length m (inode_addr bb inode)"
    "i < 1023 \<Longrightarrow> inode_block (put m buf xs) (inode_addr bb inode) (of_nat i) =
       inode_block m (inode_addr bb inode) (of_nat i)"
    by (simp_all add: inode_length_def inode_block_def inode_addr_offset add.assoc)
qed

lemma block_in_image:
  assumes size: "image_size m bb \<le> 2 ^ 32" and b: "b < boot_data_blocks m bb" and k: "k < 4096"
  shows "in_image m bb (block_addr m bb b + of_nat k)"
proof -
  let ?o = "4096 * (unat (boot_inodes m bb) + unat b + 1) + k"
  have "block_addr m bb b + of_nat k = bb + of_nat ?o"
    by (simp add: block_addr_def algebra_simps)
  moreover have "?o < image_size m bb" using b k by (simp add: image_size_def word_less_nat_alt)
  ultimately show ?thesis using in_image_offset [OF size, of ?o] by (simp only:)
qed

lemma file_byte_put:
  assumes ok: "image_ok m bb" and off: "off_image m bb buf n" "length xs \<le> n"
    and inode: "inode < boot_inodes m bb" and k: "k div 4096 < 1023"
  shows "file_byte (put m buf xs) bb inode k = file_byte m bb inode k"
proof -
  have size: "image_size m bb \<le> 2 ^ 32" using ok by (simp add: image_ok_def)
  have "inode_block m (inode_addr bb inode) (of_nat (k div 4096)) < boot_data_blocks m bb"
    using ok inode k by (simp add: image_ok_def)
  then show ?thesis
    using inode_fields_put(2) [OF off size inode k] boot_fields_put(1) [OF off size]
      put_off_image [OF off block_in_image [OF size, of _ "k mod 4096"]]
    by (simp add: file_byte_def block_addr_def)
qed


subsection \<open>What read_data copies\<close>

text \<open>
  The end of the range \<open>read_data\<close> really copies: the requested end cut at the end of the
  file, unless the last block asked for starts beyond the end of the file; then the blocks
  before it are copied whole.
\<close>

definition read_end :: "nat \<Rightarrow> nat \<Rightarrow> nat \<Rightarrow> nat" where
  "read_end flen offset nbytes =
     (let last = (offset + nbytes) div 4096 in
      if last * 4096 > flen then last * 4096 else min (offset + nbytes) flen)"

lemma load_file_bytes:
  assumes "pos div 4096 = i" "pos + k \<le> Suc i * 4096"
  shows "load m (block_addr m bb (inode_block m (inode_addr bb inode) (of_nat i)) + of_nat (pos mod 4096)) k =
    map (file_byte m bb inode) [pos..<pos + k]"
proof (rule nth_equalityI)
  fix j assume "j < length (load m (block_addr m bb (inode_block m (inode_addr bb inode) (of_nat i)) + of_nat (pos mod 4096)) k)"
  then have j: "j < k" by simp
  define r where "r = pos mod 4096"
  then have r: "pos mod 4096 = r" "pos = r + i * 4096" "r < 4096"
    using assms(1) div_mult_mod_eq [of pos 4096] by simp_all
  then have "pos + j = (r + j) + i * 4096" "r + j < 4096" using assms(2) j by simp_all
  then have "(pos + j) div 4096 = i \<and> (pos + j) mod 4096 = pos mod 4096 + j"
    using r(1) by (simp only: div_mult_self1 mod_mult_self1) simp
  then show "load m (block_addr m bb (inode_block m (inode_addr bb inode) (of_nat i)) + of_nat (pos mod 4096)) k ! j =
      map (file_byte m bb inode) [pos..<pos + k] ! j"
    using j by (simp add: file_byte_def add.assoc)
qed simp

lemma copy_step:
  assumes ok: "image_ok m bb" and inode: "inode < boot_inodes m bb"
    and off: "off_image m bb buf n" and i: "pos div 4096 = i" "i < 1023"
    and k: "pos + k \<le> Suc i * 4096" and le: "offset \<le> pos" "pos + k - offset \<le> n"
  defines "M \<equiv> put m buf (map (file_byte m bb inode) [offset..<pos])"
  shows "memcpy M (buf + of_nat (pos - offset))
      (block_addr M bb (inode_block M (inode_addr bb inode) (of_nat i)) + of_nat (pos mod 4096)) (of_nat k) =
    put m buf (map (file_byte m bb inode) [offset..<pos + k])"
proof -
  let ?xs = "map (file_byte m bb inode) [offset..<pos]"
  let ?d = "buf + of_nat (pos - offset) :: addr"
  let ?b = "inode_block m (inode_addr bb inode) (of_nat i)"
  let ?s = "block_addr m bb ?b + of_nat (pos mod 4096)"
  have size: "image_size m bb \<le> 2 ^ 32" using ok by (simp add: image_ok_def)
  have len: "length ?xs \<le> n" using le by simp
  have M1: "inode_block M (inode_addr bb inode) (of_nat i) = ?b"
    unfolding M_def by (rule inode_fields_put(2) [OF off len size inode i(2)])
  have M2: "block_addr M bb b = block_addr m bb b" for b
    unfolding M_def block_addr_def boot_fields_put(1) [OF off len size] ..
  have "pos = i * 4096 + pos mod 4096" using i(1) by (metis div_mult_mod_eq)
  moreover have "pos + k \<le> 4096 + i * 4096" using k by simp
  ultimately have kk: "pos mod 4096 + k \<le> 4096" by linarith
  then have k4: "k \<le> 4096" by linarith
  have b: "?b < boot_data_blocks m bb" using ok inode i(2) by (simp add: image_ok_def)
  have src: "in_image m bb (?s + of_nat j)" if "j < k" for j
    using block_in_image [OF size b, of "pos mod 4096 + j"] kk that by (simp add: add.assoc)
  have "?d + of_nat a \<noteq> ?s + of_nat j" if "a < k" "j < k" for a j
  proof -
    have "\<not> in_image m bb (buf + of_nat (pos - offset + a))"
    proof -
      have "pos - offset + a < n" using le that by linarith
      then show ?thesis using off unfolding off_image_def by blast
    qed
    moreover have "?d + of_nat a = buf + of_nat (pos - offset + a)" by (simp add: add.assoc)
    ultimately show ?thesis using src [OF that(2)] by metis
  qed
  then have "disjoint_regions ?d ?s (unat (of_nat k :: u32))"
    using k4 by (simp add: disjoint_regions_def unat_of_nat take_bit_nat_eq_self)
  then have "memcpy M ?d ?s (of_nat k) = put M ?d (load M ?s k)"
    using memcpy_put k4 by (simp add: unat_of_nat take_bit_nat_eq_self)
  also have "load M ?s k = load m ?s k"
    using put_off_image [OF off len src] by (intro nth_equalityI) (simp_all add: M_def)
  also have "\<dots> = map (file_byte m bb inode) [pos..<pos + k]"
    using load_file_bytes [OF i(1) k] .
  also have "put M ?d \<dots> = put m buf (?xs @ map (file_byte m bb inode) [pos..<pos + k])"
    using le(1) by (simp add: M_def put_append)
  also have "?xs @ map (file_byte m bb inode) [pos..<pos + k] = map (file_byte m bb inode) [offset..<pos + k]"
    unfolding upt_add_eq_append [OF le(1)] by (rule map_append [symmetric])
  finally show ?thesis by (simp only: M1 M2)
qed


lemma div_pos_mod: "pos div 4096 = (i :: nat) \<Longrightarrow> pos = i * 4096 + pos mod 4096 \<and> pos mod 4096 < 4096"
  using div_mult_mod_eq [of pos 4096] by simp

text \<open>
  One turn of the loop from file position \<open>pos\<close>, in block \<open>i\<close>: the bytes up to \<open>pos + k\<close>
  arrive behind those already copied.
\<close>

lemma mod_4096_of_nat: "(x :: u32) mod 4096 = of_nat (unat x mod 4096)"
proof -
  have "x mod 4096 = of_nat (unat (x mod 4096))" by simp
  also have "unat (x mod 4096) = unat x mod 4096" by (simp add: unat_mod)
  finally show ?thesis .
qed

lemma start_offset_pos:
  assumes "pos = max (unat offset) (i * 4096)" "unat offset div 4096 \<le> i"
  shows "(if i = unat (offset div 4096) then offset mod 4096 else 0) = (of_nat (pos mod 4096) :: u32)"
proof -
  have d: "unat (offset div 4096) = unat offset div 4096" by (simp add: unat_div)
  show ?thesis
  proof (cases "i = unat offset div 4096")
    case True
    then have "pos = unat offset" using assms(1) div_times_less_eq_dividend [of "unat offset" 4096] by simp
    moreover have "offset mod 4096 = of_nat (unat offset mod 4096)" by (rule mod_4096_of_nat)
    ultimately show ?thesis using True d by simp
  next
    case False
    then have "unat offset div 4096 < i" using assms(2) by simp
    then have "unat offset < i * 4096" by (simp add: less_mult_imp_div_less div_less_iff_less_mult)
    then show ?thesis using False d assms(1) by simp
  qed
qed

lemma read_blocks_turn:
  fixes offset nbytes :: u32
  assumes pos: "pos = max (unat offset) (i * 4096)" "unat offset div 4096 \<le> i" "pos div 4096 = i"
    and lst: "i \<le> lst" "lst < 1023"
    and go: "\<not> (i = lst \<and> of_nat lst * 4096 > inode_length M ia)"
    and fin: "fin = (if i = lst then unat (offset + nbytes) mod 4096 else 4096)" "pos mod 4096 \<le> fin"
  shows "read_blocks bb ia offset buf nbytes (offset div 4096) (of_nat lst) i c M =
    read_blocks bb ia offset buf nbytes (offset div 4096) (of_nat lst) (Suc i)
      (c + of_nat (fin - pos mod 4096))
      (memcpy M (buf + c) (block_addr M bb (inode_block M ia (of_nat i)) + of_nat (pos mod 4096))
        (of_nat (fin - pos mod 4096)))"
proof -
  have u: "unat (of_nat lst :: u32) = lst" using lst(2) by (simp add: unat_of_nat take_bit_nat_eq_self)
  have "(offset + nbytes) mod 4096 = of_nat (unat (offset + nbytes) mod 4096)"
    by (rule mod_4096_of_nat)
  then have e: "(if i = lst then (offset + nbytes) mod 4096 else 4096) = of_nat fin"
    using fin(1) by simp
  have len: "of_nat fin - of_nat (pos mod 4096) = (of_nat (fin - pos mod 4096) :: u32)"
    using fin(2) by (simp add: of_nat_diff)
  show ?thesis
    unfolding read_blocks.simps [of bb ia offset buf nbytes "offset div 4096" "of_nat lst" i]
      Let_def u start_offset_pos [OF pos(1,2)] e len
    using go lst(1) by (simp only: if_True if_False simp_thms)
qed

lemma read_blocks_done:
  "lst < 1023 \<Longrightarrow> read_blocks bb ia offset buf nbytes f (of_nat lst) (Suc lst) c M = (c, M)"
  by (subst read_blocks.simps) (simp add: unat_of_nat take_bit_nat_eq_self)

lemma read_blocks_break:
  "lst < 1023 \<Longrightarrow> of_nat lst * 4096 > inode_length M ia \<Longrightarrow>
    read_blocks bb ia offset buf nbytes f (of_nat lst) lst c M = (c, M)"
  by (subst read_blocks.simps) (simp add: unat_of_nat take_bit_nat_eq_self Let_def)


lemma read_blocks_correct:
  fixes offset nbytes :: u32
  assumes ok: "image_ok m bb" and inode: "inode < boot_inodes m bb"
    and lt: "unat offset < file_size m bb inode"
    and lst: "lst = (unat offset + req) div 4096" "lst < 1023"
    and clamp: "unat (offset + nbytes) = min (unat offset + req) (file_size m bb inode)"
    and E: "E = read_end (file_size m bb inode) (unat offset) req"
    and off: "off_image m bb buf (E - unat offset)"
  shows "unat offset div 4096 \<le> i \<Longrightarrow> i \<le> lst \<Longrightarrow> pos = max (unat offset) (i * 4096) \<Longrightarrow>
    read_blocks bb (inode_addr bb inode) offset buf nbytes (offset div 4096) (of_nat lst) i
      (of_nat (pos - unat offset)) (put m buf (map (file_byte m bb inode) [unat offset..<pos])) =
    (of_nat (E - unat offset), put m buf (map (file_byte m bb inode) [unat offset..<E]))"
proof (induction "lst - i" arbitrary: i pos)
  case 0
  let ?o = "unat offset" and ?M = "put m buf (map (file_byte m bb inode) [unat offset..<pos])"
  have i: "i = lst" using 0 by simp
  have req: "lst * 4096 \<le> ?o + req" "?o + req < Suc lst * 4096"
    using lst(1) div_pos_mod [of "?o + req" lst] by auto
  have size: "image_size m bb \<le> 2 ^ 32" using ok by (simp add: image_ok_def)
  have l4: "unat (of_nat lst * 4096 :: u32) = lst * 4096"
    using lst(2) by (simp add: unat_word_ariths unat_of_nat take_bit_nat_eq_self)
  show ?case
  proof (cases "lst * 4096 > file_size m bb inode")
    case True
    then have "E = lst * 4096" "pos = lst * 4096"
      using E lt lst(1) 0 i by (simp_all add: read_end_def)
    moreover have "inode_length ?M (inode_addr bb inode) = inode_length m (inode_addr bb inode)"
      using calculation by (intro inode_fields_put(1) [OF off _ size inode]) simp
    ultimately show ?thesis
      using True i lst(2) l4 by (simp add: read_blocks_break word_less_nat_alt file_size_def)
  next
    case False
    then have e: "E = min (?o + req) (file_size m bb inode)"
      using E lst(1) by (simp add: read_end_def Let_def)
    then have E2: "pos \<le> E" "lst * 4096 \<le> E" "E < Suc lst * 4096"
      using False req lt 0 i by auto
    then have Ediv: "E div 4096 = lst" by (intro div_nat_eqI) simp_all
    have pdiv: "pos div 4096 = lst" using E2 0 i by (intro div_nat_eqI) auto
    have sE: "unat (offset + nbytes) = E" using clamp e by simp
    have mE: "E = lst * 4096 + E mod 4096" "pos = lst * 4096 + pos mod 4096"
      using div_pos_mod [OF Ediv] div_pos_mod [OF pdiv] by blast+
    have fin: "unat (offset + nbytes) mod 4096 - pos mod 4096 = E - pos"
      unfolding sE using mE E2(1) by linarith
    have fin2: "pos mod 4096 \<le> unat (offset + nbytes) mod 4096"
      unfolding sE using mE E2(1) by linarith
    have go: "\<not> of_nat lst * 4096 > inode_length ?M (inode_addr bb inode)"
      using inode_fields_put(1) [OF off _ size inode, of "map (file_byte m bb inode) [unat offset..<pos]"]
        False l4 E2(1) by (simp add: word_less_nat_alt file_size_def)
    have "read_blocks bb (inode_addr bb inode) offset buf nbytes (offset div 4096) (of_nat lst) lst
        (of_nat (pos - ?o)) ?M =
      read_blocks bb (inode_addr bb inode) offset buf nbytes (offset div 4096) (of_nat lst) (Suc lst)
        (of_nat (pos - ?o) + of_nat (E - pos))
        (memcpy ?M (buf + of_nat (pos - ?o)) (block_addr ?M bb (inode_block ?M (inode_addr bb inode) (of_nat lst))
          + of_nat (pos mod 4096)) (of_nat (E - pos)))"
    proof -
      have p: "pos = max ?o (lst * 4096)" "?o div 4096 \<le> lst" using 0 i by simp_all
      show ?thesis
        by (rule read_blocks_turn [OF p pdiv order.refl lst(2) _ _ fin2, unfolded fin]) (use go in simp_all)
    qed
    also have "memcpy ?M (buf + of_nat (pos - ?o)) (block_addr ?M bb (inode_block ?M (inode_addr bb inode) (of_nat lst))
          + of_nat (pos mod 4096)) (of_nat (E - pos)) = put m buf (map (file_byte m bb inode) [?o..<pos + (E - pos)])"
      using E2 0 by (intro copy_step [OF ok inode off pdiv lst(2)]) auto
    also have "of_nat (pos - ?o) + of_nat (E - pos) = (of_nat (E - ?o) :: u32)"
      using E2(1) 0 by (simp flip: of_nat_add)
    finally show ?thesis using i E2(1) read_blocks_done [OF lst(2)] by simp
  qed
next
  case (Suc k)
  let ?o = "unat offset" and ?M = "put m buf (map (file_byte m bb inode) [unat offset..<pos])"
  have i: "i < lst" using Suc.hyps(2) by simp
  have o: "?o < Suc i * 4096" using Suc.prems(1) by (simp add: div_less_iff_less_mult flip: less_Suc_eq_le)
  then have pdiv: "pos div 4096 = i" using Suc.prems(3) by (intro div_nat_eqI) auto
  have e: "Suc i * 4096 \<le> E"
  proof -
    have "Suc i * 4096 \<le> lst * 4096" using i by (intro mult_right_mono) simp_all
    moreover have "lst * 4096 \<le> ?o + req" using lst(1) by simp
    ultimately show ?thesis using E lst(1) by (auto simp: read_end_def Let_def)
  qed
  have p: "pos + (4096 - pos mod 4096) = Suc i * 4096" using div_pos_mod [OF pdiv] by simp
  have "read_blocks bb (inode_addr bb inode) offset buf nbytes (offset div 4096) (of_nat lst) i
      (of_nat (pos - ?o)) ?M =
    read_blocks bb (inode_addr bb inode) offset buf nbytes (offset div 4096) (of_nat lst) (Suc i)
      (of_nat (pos - ?o) + of_nat (4096 - pos mod 4096))
      (memcpy ?M (buf + of_nat (pos - ?o)) (block_addr ?M bb (inode_block ?M (inode_addr bb inode) (of_nat i))
        + of_nat (pos mod 4096)) (of_nat (4096 - pos mod 4096)))"
    using i Suc.prems lst(2) pdiv by (intro read_blocks_turn) auto
  also have "memcpy ?M (buf + of_nat (pos - ?o)) (block_addr ?M bb (inode_block ?M (inode_addr bb inode) (of_nat i))
      + of_nat (pos mod 4096)) (of_nat (4096 - pos mod 4096)) =
    put m buf (map (file_byte m bb inode) [?o..<pos + (4096 - pos mod 4096)])"
    using p e i lst(2) Suc.prems(3) by (intro copy_step [OF ok inode off pdiv]) auto
  also have "of_nat (pos - ?o) + of_nat (4096 - pos mod 4096) = (of_nat (Suc i * 4096 - ?o) :: u32)"
  proof -
    have "?o \<le> pos" "pos mod 4096 \<le> 4096" using Suc.prems(3) by simp_all
    then have "(pos - ?o) + (4096 - pos mod 4096) = Suc i * 4096 - ?o" using p by linarith
    then show ?thesis unfolding of_nat_add [symmetric] by (rule arg_cong)
  qed
  also have "pos + (4096 - pos mod 4096) = Suc i * 4096" by (rule p)
  finally show ?case
    using Suc.hyps(1) [of "Suc i" "Suc i * 4096"] Suc.hyps(2) Suc.prems i o by simp
qed


text \<open>What \<open>read_data\<close> returns and copies, exactly.\<close>

lemma read_data_spec:
  assumes ok: "image_ok m bb" and inode: "inode < boot_inodes m bb" and buf: "buf \<noteq> 0"
    and req: "unat offset + unat nbytes < 1023 * 4096"
    and off: "off_image m bb buf (read_end (file_size m bb inode) (unat offset) (unat nbytes) - unat offset)"
  shows "read_data bb inode offset buf nbytes m =
    (if file_size m bb inode \<le> unat offset then (0, m)
     else (let E = read_end (file_size m bb inode) (unat offset) (unat nbytes)
           in (int (E - unat offset), put m buf (map (file_byte m bb inode) [unat offset..<E]))))"
proof (cases "file_size m bb inode \<le> unat offset")
  case True
  then show ?thesis
    using inode buf by (simp add: read_data_def Let_def word_le_nat_alt word_less_nat_alt file_size_def)
next
  case False
  let ?flen = "inode_length m (inode_addr bb inode)"
  let ?c = "if offset + nbytes > ?flen then ?flen - offset else nbytes"
  let ?lst = "(unat offset + unat nbytes) div 4096"
  have sum: "unat (offset + nbytes) = unat offset + unat nbytes"
    using req by (simp add: unat_word_ariths)
  have last: "(offset + nbytes) div 4096 = of_nat ?lst"
  proof -
    have "(offset + nbytes) div 4096 = of_nat (unat ((offset + nbytes) div 4096))" by simp
    also have "unat ((offset + nbytes) div 4096) = ?lst" by (simp only: unat_div sum) simp
    finally show ?thesis .
  qed
  have clamp: "unat (offset + ?c) = min (unat offset + unat nbytes) (file_size m bb inode)"
    using sum by (auto simp: word_less_nat_alt file_size_def)
  have l: "?lst < 1023" using req by (simp add: div_less_iff_less_mult)
  have f: "unat (offset div 4096) = unat offset div 4096" by (simp add: unat_div)
  have "read_blocks bb (inode_addr bb inode) offset buf ?c (offset div 4096) (of_nat ?lst)
      (unat offset div 4096) (of_nat (unat offset - unat offset))
      (put m buf (map (file_byte m bb inode) [unat offset..<unat offset])) =
    (of_nat (read_end (file_size m bb inode) (unat offset) (unat nbytes) - unat offset),
     put m buf (map (file_byte m bb inode)
       [unat offset..<read_end (file_size m bb inode) (unat offset) (unat nbytes)]))"
    using False
    by (intro read_blocks_correct [OF ok inode _ refl l clamp refl off]) (auto simp: div_le_mono)
  moreover have "read_end (file_size m bb inode) (unat offset) (unat nbytes) < 2 ^ 31"
    using req by (auto simp: read_end_def Let_def min_def)
  ultimately show ?thesis
    using False inode buf
    by (simp add: read_data_def Let_def last f sint_of_nat_fits word_le_nat_alt word_less_nat_alt file_size_def)
qed

subsection \<open>Directory listing\<close>

lemma takeWhile_load:
  assumes "string_at m a xs"
  shows "takeWhile (\<lambda>b. b \<noteq> 0) (load m a k) = take k xs"
proof -
  have nz: "0 \<notin> set (take k xs)" using assms by (auto simp: string_at_def dest: in_set_takeD)
  have "load m a k = take k xs @ drop (length (take k xs)) (load m a k)"
    using string_at_nth [OF assms] by (intro nth_equalityI) (auto simp: nth_append)
  moreover have "drop (length (take k xs)) (load m a k) = [] \<or>
      hd (drop (length (take k xs)) (load m a k)) = 0"
    using string_at_end [OF assms] by (cases "length xs < k") (auto simp: hd_drop_conv_nth)
  ultimately show ?thesis using takeWhile_nonzero_eq [OF nz] by blast
qed

lemma sint_small: "unat (x :: u32) < 2 ^ 31 \<Longrightarrow> sint x = int (unat x)"
  using sint_of_nat_fits [of "unat x"] by simp

lemma max_words: "(word_of_int MAX_FILECOUNT :: u32) = 63" "(word_of_int MAX_FILENAME :: u32) = 32"
  by (simp_all add: MAX_FILECOUNT_def MAX_FILENAME_def)

lemma directory_read_name:
  assumes i: "i < 63" and str: "\<exists>a. memory s a = 0"
    and buf: "buf \<noteq> 0" "disjoint_regions buf (entry_addr (boot_block s) (of_nat i)) 32"
  shows "directory_read (of_nat i) buf n s =
    (let name = take (unat n) (entry_name (memory s) (boot_block s) i)
     in Some (int (length name), s\<lparr>memory := put (memory s) buf name\<rparr>))"
proof -
  let ?m = "memory s" and ?f = "entry_addr (boot_block s) (of_nat i)"
  obtain xs where xs: "string_at ?m ?f xs" using str string_at_exists by blast
  then have "strlen ?m ?f = Some (of_nat (length xs))" by (rule strlen_string)
  have len: "length xs < 2 ^ 32" using xs by (simp add: string_at_def)
  have name: "entry_name ?m (boot_block s) i = take 32 xs"
    by (simp add: entry_name_def takeWhile_load [OF xs])
  let ?l = "if (if n > 32 then 32 else n) > of_nat (length xs) then of_nat (length xs) else (if n > 32 then 32 else n)"
  have l: "unat (?l :: u32) = min (unat n) (min 32 (length xs))"
    using len by (auto simp: word_less_nat_alt unat_of_nat take_bit_nat_eq_self min_def)
  have "disjoint_regions buf ?f (unat ?l)"
    using buf(2) unfolding l disjoint_regions_def by simp
  then have "memcpy ?m buf ?f ?l = put ?m buf (load ?m ?f (unat ?l))" by (rule memcpy_put)
  also have "load ?m ?f (unat ?l) = take (unat n) (take 32 xs)"
    using string_at_nth [OF xs] unfolding l by (intro nth_equalityI) auto
  finally have cp: "memcpy ?m buf ?f ?l = put ?m buf (take (unat n) (take 32 xs))" .
  have "sint ?l = int (unat ?l)" by (rule sint_small) (unfold l, simp)
  then have sl: "sint ?l = int (length (take (unat n) (take 32 xs)))"
    unfolding l by simp
  have "\<not> (of_nat i :: u32) \<ge> 63" using i by (simp add: word_le_nat_alt unat_of_nat take_bit_nat_eq_self)
  then show ?thesis
    using \<open>strlen ?m ?f = _\<close> buf(1) cp sl
    unfolding directory_read_def max_words by (simp add: name Let_def split del: if_split)
qed

subsection \<open>Properties\<close>

text \<open>A small image for the concrete instances: one inode, one data block, one 5-byte file.\<close>

definition demo_image :: mem where
  "demo_image = (\<lambda>_. 0)(0x100000 := 1, 0x100004 := 1, 0x100008 := 1, 0x100040 := 0x61,
     0x100060 := 2, 0x101000 := 5, 0x102000 := 0x48, 0x102001 := 0x69, 0x10 := 0x61)"

lemma demo_counts [simp]:
  "boot_inodes demo_image 0x100000 = 1" "boot_data_blocks demo_image 0x100000 = 1"
  "boot_dir_entries demo_image 0x100000 = 1" "file_size demo_image 0x100000 0 = 5"
  by (simp_all add: boot_inodes_def boot_data_blocks_def boot_dir_entries_def file_size_def
      inode_length_def inode_addr_def rd32_def demo_image_def)

lemma demo_inode_block:
  "i < 1023 \<Longrightarrow> inode_block demo_image (inode_addr 0x100000 0) (of_nat i) = 0"
proof -
  assume i: "i < 1023"
  have "demo_image (0x101000 + of_nat (4 + 4 * i + j)) = 0" if "j < 4" for j
  proof -
    have "unat (0x101000 + of_nat (4 + 4 * i + j) :: u32) = 0x101004 + 4 * i + j"
      using i that by (simp add: unat_word_ariths unat_of_nat take_bit_nat_eq_self)
    then show ?thesis using i that by (auto simp: demo_image_def word_unat_eq_iff)
  qed
  from this [of 0] this [of 1] this [of 2] this [of 3] show ?thesis
    by (simp add: inode_block_def inode_addr_def rd32_def add.assoc)
qed

lemma demo_image_ok: "image_ok demo_image 0x100000"
proof -
  have "inode < 1 \<Longrightarrow> inode = 0" for inode :: u32 by (simp add: word_less_nat_alt unat_eq_0)
  then show ?thesis by (auto simp: image_ok_def image_size_def demo_inode_block)
qed

lemma demo_off_image: "off_image demo_image 0x100000 0x1000 n" if "n \<le> 0x1000"
proof -
  have "\<not> unat (0x1000 + of_nat k - 0x100000 :: u32) < 12288" if "k < 0x1000" for k
  proof -
    have "(0x1000 + of_nat k - 0x100000 :: u32) = of_nat (4293922816 + k)" by simp
    then show ?thesis using that by (simp only: unat_of_nat take_bit_nat_eq_self) simp
  qed
  then show ?thesis using that by (simp add: off_image_def in_image_def image_size_def)
qed

definition demo_fs :: fs where
  "demo_fs = \<lparr>memory = demo_image, ports = [], int_flag = True, master_mask = 0, slave_mask = 0,
     virt_freq = 2, rtc_inter_count = 0, screen_x = 0, screen_y = 0, page_directory = \<lambda>_. 0,
     page_table = \<lambda>_. 0, video_page = \<lambda>_. 0, cr0 = 0, cr3 = 0, cr4 = 0, tlb = \<lambda>_. None,
     frames = \<lambda>_. 0, boot_block = 0x100000\<rparr>"

lemma demo_fs_fields [simp]: "memory demo_fs = demo_image" "boot_block demo_fs = 0x100000"
  by (simp_all add: demo_fs_def)

lemma demo_entry_name: "entry_name demo_image 0x100000 0 = [0x61]"
  unfolding entry_name_def entry_addr_def
  by (subst takeWhile_load [of _ _ "[0x61]"]) (simp_all add: string_at_eval demo_image_def)

text \<open>Looking a name up finds the first of the 63 directory entries whose name field is
  exactly the string, names of the full 32 bytes with no NUL included, and hands its 64
  bytes back; a longer name or one that no entry has gives -1 and leaves the caller's
  buffer alone.\<close>
theorem read_dentry_by_name_correct:
  assumes "string_at m fname xs" "length xs < 2 ^ 31"
  shows "read_dentry_by_name m bb fname (Some d) =
    (case List.find (\<lambda>i. entry_name m bb i = xs) [0..<63] of
       Some i \<Rightarrow> Some (0, Some (dentry_at m (entry_addr bb (of_nat i))))
     | None \<Rightarrow> Some (-1, Some d))"
proof -
  have "length (entry_name m bb i) \<le> 32" for i
    using length_takeWhile_le [of "\<lambda>b. b \<noteq> 0" "load m (entry_addr bb (of_nat i)) 32"]
    by (simp add: entry_name_def)
  then have "List.find (\<lambda>i. entry_name m bb i = xs) [0..<63] = None" if "32 < length xs"
    using that by (auto simp: find_None_iff) (metis not_less)
  then show ?thesis
    unfolding read_dentry_by_name_lookup [OF assms] lookup_def by (auto split: option.split)
qed

lemma read_dentry_by_name_correct_witness:
  "\<forall>d. read_dentry_by_name demo_image 0x100000 0x10 (Some d) =
     Some (0, Some (dentry_at demo_image 0x100040))"
proof
  fix d
  have str: "string_at demo_image 0x10 [0x61]" by (simp add: string_at_eval demo_image_def)
  have "List.find (\<lambda>i. entry_name demo_image 0x100000 i = [0x61]) [0..<63] = Some 0"
    by (subst upt_conv_Cons) (simp_all add: demo_entry_name)
  then show "read_dentry_by_name demo_image 0x100000 0x10 (Some d) =
      Some (0, Some (dentry_at demo_image 0x100040))"
    using read_dentry_by_name_correct [OF str, of "0x100000" d] by (simp add: entry_addr_def)
qed






text \<open>Reading the directory at position \<open>i\<close> copies the name of entry \<open>i\<close>, cut to the buffer and
  to 32 bytes, without a NUL, returns its length and steps to the next entry when there was
  a name; from position 63 on it returns -1 and changes nothing.\<close>
theorem dir_read_correct:
  assumes "\<exists>a. memory s a = 0" "buf \<noteq> 0" "disjoint_regions buf (entry_addr (boot_block s) pos) 32"
  shows "dir_read inode pos buf n s =
    (if pos \<ge> 63 then Some (-1, inode, pos, s)
     else (let name = take (unat n) (entry_name (memory s) (boot_block s) (unat pos))
           in Some (int (length name), inode, if name = [] then pos else pos + 1,
                s\<lparr>memory := put (memory s) buf name\<rparr>)))"
proof (cases "pos \<ge> 63")
  case True
  then show ?thesis by (simp add: dir_read_def directory_read_def MAX_FILECOUNT_def)
next
  case False
  then have "unat pos < 63" by (simp add: word_le_nat_alt)
  then show ?thesis
    using directory_read_name [of "unat pos" s buf n] assms False
    by (simp add: dir_read_def Let_def)
qed

lemma dir_read_correct_witness:
  "\<exists>s'. dir_read 7 0 0x1000 32 demo_fs = Some (1, 7, 1, s')"
proof -
  have "\<exists>a. memory demo_fs a = 0" by (rule exI [of _ 0]) (simp add: demo_image_def)
  moreover have "disjoint_regions 0x1000 (entry_addr (boot_block demo_fs) 0) 32"
    by (rule disjoint_below(1)) (simp_all add: entry_addr_def)
  ultimately show ?thesis
    using dir_read_correct [of demo_fs "0x1000" 0 7 32] demo_entry_name by (simp add: Let_def)
qed

text \<open>Reading a file in order returns the file: from a position whose block-aligned end the
  file does not pass, \<open>file_read\<close> copies the next bytes of the file and moves the position
  behind them, and at the end it returns 0 and keeps the position.\<close>
theorem file_read_sequential:
  assumes "image_ok (memory s) (boot_block s)" "inode < boot_inodes (memory s) (boot_block s)"
    and "buf \<noteq> 0" "unat pos + unat n < 1023 * 4096"
    and "off_image (memory s) (boot_block s) buf (unat n)"
    and "unat pos \<le> file_size (memory s) (boot_block s) inode"
    and "(unat pos + unat n) div 4096 * 4096 \<le> file_size (memory s) (boot_block s) inode"
  shows "let fsize = file_size (memory s) (boot_block s) inode; k = min (unat n) (fsize - unat pos)
    in file_read inode pos buf n s = (int k, inode, pos + of_nat k,
      s\<lparr>memory := put (memory s) buf
         (map (file_byte (memory s) (boot_block s) inode) [unat pos..<unat pos + k])\<rparr>)"
proof -
  let ?m = "memory s" and ?bb = "boot_block s"
  let ?k = "min (unat n) (file_size ?m ?bb inode - unat pos)"
  have E: "read_end (file_size ?m ?bb inode) (unat pos) (unat n) = unat pos + ?k"
    using assms(6,7) by (simp add: read_end_def Let_def)
  have off: "off_image ?m ?bb buf (read_end (file_size ?m ?bb inode) (unat pos) (unat n) - unat pos)"
  proof -
    have "?k < 2 ^ 32" using unat_u32 [of n] by (auto simp: min_def simp del: unat_u32)
    then show ?thesis using assms(5) unfolding E by (auto simp: off_image_def)
  qed
  have "read_data ?bb inode pos buf n ?m =
      (int ?k, put ?m buf (map (file_byte ?m ?bb inode) [unat pos..<unat pos + ?k]))"
    unfolding read_data_spec [OF assms(1-4) off] E using assms(6) by (auto simp: Let_def)
  then show ?thesis by (auto simp: file_read_def Let_def)
qed

lemma file_read_sequential_witness:
  "\<exists>s'. file_read 0 2 0x1000 100 demo_fs = (3, 0, 5, s') \<and> memory s' 0x1000 = 0"
proof -
  have "file_byte demo_image 0x100000 0 k = 0" if "2 \<le> k" "k < 4096" for k
  proof -
    have "unat (0x102000 + of_nat k :: u32) = 0x102000 + k"
      using that by (simp add: unat_word_ariths unat_of_nat take_bit_nat_eq_self)
    then show ?thesis
      using demo_inode_block [of 0] that
      by (simp add: file_byte_def block_addr_def) (auto simp: demo_image_def word_unat_eq_iff)
  qed
  then show ?thesis
    using file_read_sequential [of demo_fs 0 "0x1000" 2 100] demo_image_ok demo_off_image [of 100]
    by (simp add: Let_def upt_rec)
qed

subsection \<open>Memories with the same image\<close>

definition same_image :: "addr \<Rightarrow> mem \<Rightarrow> mem \<Rightarrow> bool" where
  "same_image bb m m' \<longleftrightarrow> image_size m bb \<le> 2 ^ 32 \<and> (\<forall>a. in_image m bb a \<longrightarrow> m' a = m a)"

lemma same_image_at:
  "same_image bb m m' \<Longrightarrow> k < image_size m bb \<Longrightarrow> m' (bb + of_nat k) = m (bb + of_nat k)"
  by (simp add: same_image_def in_image_offset)

lemma same_image_rd32:
  assumes "same_image bb m m'" "k + 3 < image_size m bb"
  shows "rd32 m' (bb + of_nat k) = rd32 m (bb + of_nat k)"
  using same_image_at [OF assms(1), of k] same_image_at [OF assms(1), of "k + 1"]
    same_image_at [OF assms(1), of "k + 2"] same_image_at [OF assms(1), of "k + 3"] assms(2)
  by (simp add: rd32_def ac_simps)

lemma same_image_boot:
  assumes "same_image bb m m'"
  shows "boot_inodes m' bb = boot_inodes m bb" "boot_data_blocks m' bb = boot_data_blocks m bb"
    "image_size m' bb = image_size m bb" "in_image m' bb = in_image m bb"
proof -
  have s: "4096 \<le> image_size m bb" by (simp add: image_size_def)
  show a: "boot_inodes m' bb = boot_inodes m bb" "boot_data_blocks m' bb = boot_data_blocks m bb"
    using same_image_rd32 [OF assms, of 4] same_image_rd32 [OF assms, of 8] s
    by (simp_all add: boot_inodes_def boot_data_blocks_def)
  show i: "image_size m' bb = image_size m bb" by (simp add: image_size_def a)
  show "in_image m' bb = in_image m bb" by (simp add: in_image_def i fun_eq_iff)
qed

lemma same_image_inode:
  assumes "same_image bb m m'" "ino < boot_inodes m bb"
  shows "file_size m' bb ino = file_size m bb ino"
    "i < 1023 \<Longrightarrow> inode_block m' (inode_addr bb ino) (of_nat i) = inode_block m (inode_addr bb ino) (of_nat i)"
proof -
  have r: "rd32 m' (inode_addr bb ino + of_nat j) = rd32 m (inode_addr bb ino + of_nat j)"
    if "j + 3 < 4096" for j
  proof -
    have "inode_addr bb ino + of_nat j = bb + of_nat (4096 * (unat ino + 1) + j)"
      by (simp add: inode_addr_offset)
    then show ?thesis
      using same_image_rd32 [OF assms(1), of "4096 * (unat ino + 1) + j"]
        inode_in_image [OF assms(2), of "j + 3"] that by (simp add: add.assoc)
  qed
  show "file_size m' bb ino = file_size m bb ino"
    using r [of 0] by (simp add: file_size_def inode_length_def)
  show "inode_block m' (inode_addr bb ino) (of_nat i) = inode_block m (inode_addr bb ino) (of_nat i)"
    if "i < 1023"
    using r [of "4 + 4 * i"] that by (simp add: inode_block_def add.assoc)
qed

lemma same_image_ok:
  assumes "same_image bb m m'" "image_ok m bb"
  shows "image_ok m' bb" "off_image m' bb buf n = off_image m bb buf n"
    "ino < boot_inodes m bb \<Longrightarrow> k div 4096 < 1023 \<Longrightarrow> file_byte m' bb ino k = file_byte m bb ino k"
proof -
  note b = same_image_boot [OF assms(1)]
  show "image_ok m' bb"
    using assms(2) same_image_inode(2) [OF assms(1)] by (auto simp: image_ok_def b)
  show "off_image m' bb buf n = off_image m bb buf n" by (simp add: off_image_def b)
  show "file_byte m' bb ino k = file_byte m bb ino k"
    if i: "ino < boot_inodes m bb" and k: "k div 4096 < 1023"
  proof -
    let ?b = "inode_block m (inode_addr bb ino) (of_nat (k div 4096))"
    have "?b < boot_data_blocks m bb" using assms(2) i k by (simp add: image_ok_def)
    then have "in_image m bb (block_addr m bb ?b + of_nat (k mod 4096))"
      using assms(2) by (intro block_in_image) (simp_all add: image_ok_def)
    moreover have "block_addr m' bb ?b = block_addr m bb ?b" by (simp add: block_addr_def b)
    ultimately show ?thesis
      using same_image_inode(2) [OF assms(1) i k] assms(1) by (simp add: file_byte_def same_image_def)
  qed
qed

lemma same_entry:
  assumes b: "\<And>j. j < 64 \<Longrightarrow> m' (entry_addr bb (of_nat i) + of_nat j) = m (entry_addr bb (of_nat i) + of_nat j)"
  shows "load m' (entry_addr bb (of_nat i)) 32 = load m (entry_addr bb (of_nat i)) 32"
    "dentry_at m' (entry_addr bb (of_nat i)) = dentry_at m (entry_addr bb (of_nat i))"
    "entry_name m' bb i = entry_name m bb i"
proof -
  have l: "load m' (entry_addr bb (of_nat i) + of_nat j) k = load m (entry_addr bb (of_nat i) + of_nat j) k"
    if "j + k \<le> 64" for j k
    using b [of "j + _"] that by (intro nth_equalityI) (simp_all add: add.assoc)
  have r: "rd32 m' (entry_addr bb (of_nat i) + of_nat j) = rd32 m (entry_addr bb (of_nat i) + of_nat j)"
    if "j + 3 < 64" for j
    using b [of j] b [of "j + 1"] b [of "j + 2"] b [of "j + 3"] that by (simp add: rd32_def ac_simps)
  show "load m' (entry_addr bb (of_nat i)) 32 = load m (entry_addr bb (of_nat i)) 32"
    using l [of 0 32] by simp
  then show "entry_name m' bb i = entry_name m bb i" by (simp add: entry_name_def)
  show "dentry_at m' (entry_addr bb (of_nat i)) = dentry_at m (entry_addr bb (of_nat i))"
    using l [of 0 32] l [of 40 24] r [of 32] r [of 36] by (simp add: dentry_at_def)
qed

lemma same_entries:
  assumes h: "\<And>k. k < 4096 \<Longrightarrow> m' (bb + of_nat k) = m (bb + of_nat k)" and i: "i < 63"
  shows "load m' (entry_addr bb (of_nat i)) 32 = load m (entry_addr bb (of_nat i)) 32"
    "dentry_at m' (entry_addr bb (of_nat i)) = dentry_at m (entry_addr bb (of_nat i))"
    "entry_name m' bb i = entry_name m bb i"
proof -
  have b: "m' (entry_addr bb (of_nat i) + of_nat j) = m (entry_addr bb (of_nat i) + of_nat j)" if "j < 64" for j
    using h [of "64 + 64 * i + j"] i that by (simp add: entry_addr_def add.assoc)
  show "load m' (entry_addr bb (of_nat i)) 32 = load m (entry_addr bb (of_nat i)) 32"
    "dentry_at m' (entry_addr bb (of_nat i)) = dentry_at m (entry_addr bb (of_nat i))"
    "entry_name m' bb i = entry_name m bb i"
    by (rule same_entry, rule b, assumption)+
qed

lemma same_image_entry:
  assumes "same_image bb m m'" "i < 63"
  shows "load m' (entry_addr bb (of_nat i)) 32 = load m (entry_addr bb (of_nat i)) 32"
    "dentry_at m' (entry_addr bb (of_nat i)) = dentry_at m (entry_addr bb (of_nat i))"
    "entry_name m' bb i = entry_name m bb i"
proof -
  have "m' (bb + of_nat k) = m (bb + of_nat k)" if "k < 4096" for k
    using same_image_at [OF assms(1), of k] that by (simp add: image_size_def)
  note e = same_entries [of m' bb m, OF this assms(2)]
  show "load m' (entry_addr bb (of_nat i)) 32 = load m (entry_addr bb (of_nat i)) 32"
    "dentry_at m' (entry_addr bb (of_nat i)) = dentry_at m (entry_addr bb (of_nat i))"
    "entry_name m' bb i = entry_name m bb i"
    using e by simp_all
qed

lemma same_image_lookup: "same_image bb m m' \<Longrightarrow> lookup m' bb name = lookup m bb name"
  unfolding lookup_def by (intro find_cong refl) (simp add: same_image_entry(3))

lemma same_image_trans: "same_image bb m m' \<Longrightarrow> same_image bb m' m'' \<Longrightarrow> same_image bb m m''"
  using same_image_boot [of bb m m'] by (simp add: same_image_def)

lemma same_image_put:
  "image_ok m bb \<Longrightarrow> off_image m bb buf n \<Longrightarrow> length xs \<le> n \<Longrightarrow> same_image bb m (put m buf xs)"
  by (simp add: same_image_def image_ok_def put_off_image)

end
