(* ===== verification/Task.thy ===== *)
theory Task
  imports Fs
begin

section \<open>Tasks and process control blocks (system_call.c, system_call.h)\<close>

text \<open>
  The task table of \<open>student-distrib/system_call.c\<close>: which of the six slots run, the
  running task, and the process control blocks. A block lives at the address \<open>get_pcb\<close>
  computes, at the top of its task's 8 KB kernel stack; the blocks are a store indexed by
  that address. A \<open>fops_table\<close> pointer is the name of the table it points to, NULL is
  \<open>None\<close>. The id \<open>-1\<close> is the word \<open>0xFFFFFFFF\<close>, as in the code.
\<close>

datatype fops_table = Stdin_fops | Stdout_fops | Rtc_fops | Dir_fops | File_fops

record file_descriptor =
  fops :: "fops_table option"
  inode :: u32
  file_position :: u32
  flags :: u32

record pcb =
  fd :: "file_descriptor list"
  file_name :: "u8 list"
  task_id :: u32
  task_id_child :: u32
  task_id_parent :: u32
  old_ebp :: u32
  old_esp :: u32
  old_eip :: u32
  argument_buf :: "u8 list"

record task = fs +
  tasks_running :: u32
  task_slots :: "u32 list"
  exception_death :: u32
  pcbs :: "addr \<Rightarrow> pcb"
  tss_ss0 :: u32
  tss_esp0 :: u32

definition eightK :: u32 where "eightK = 8192"
definition TASKNAME_SIZE :: nat where "TASKNAME_SIZE = 33"
definition ARGUMENT_SIZE :: nat where "ARGUMENT_SIZE = 129"
definition KERNEL_DS :: u32 where "KERNEL_DS = 0x18"

definition get_pcb :: "u32 \<Rightarrow> addr" where
  "get_pcb grab_task_id = eightK * oneK - eightK * (grab_task_id + 1)"

definition pcb_of :: "u32 \<Rightarrow> 'a task_scheme \<Rightarrow> pcb" where
  "pcb_of i s = pcbs s (get_pcb i)"

definition upd_pcb :: "u32 \<Rightarrow> (pcb \<Rightarrow> pcb) \<Rightarrow> 'a task_scheme \<Rightarrow> 'a task_scheme" where
  "upd_pcb i f s = s\<lparr>pcbs := (pcbs s)(get_pcb i := f (pcbs s (get_pcb i)))\<rparr>"

definition empty_fd :: file_descriptor where
  "empty_fd = \<lparr>fops = None, inode = 0, file_position = 0, flags = 0\<rparr>"

definition fda_init :: "'a task_scheme \<Rightarrow> int \<times> 'a task_scheme" where
  "fda_init s =
     (let fd_array = map (\<lambda>_. empty_fd) [0..<8];
          fd_array = fd_array[0 := (fd_array ! 0)\<lparr>fops := Some Stdin_fops\<rparr>];
          fd_array = fd_array[1 := (fd_array ! 1)\<lparr>fops := Some Stdout_fops\<rparr>];
          fd_array = fd_array[0 := (fd_array ! 0)\<lparr>flags := 1\<rparr>];
          fd_array = fd_array[1 := (fd_array ! 1)\<lparr>flags := 1\<rparr>]
      in (0, upd_pcb (tasks_running s) (\<lambda>p. p\<lparr>fd := fd_array\<rparr>) s))"

definition get_tasks_running :: "'a task_scheme \<Rightarrow> u32" where
  "get_tasks_running s = tasks_running s"

definition set_exception_death :: "'a task_scheme \<Rightarrow> 'a task_scheme" where
  "set_exception_death s = s\<lparr>exception_death := 1\<rparr>"

definition find_open_task :: "'a task_scheme \<Rightarrow> int" where
  "find_open_task s =
     (case List.find (\<lambda>i. task_slots s ! i = 0) [0..<6] of Some i \<Rightarrow> int i | None \<Rightarrow> -1)"

text \<open>The loop down the chain of children; \<open>None\<close> if the chain has no end.\<close>

partial_function (option) bottom_from :: "u32 \<Rightarrow> 'a task_scheme \<Rightarrow> addr option" where
  "bottom_from task_num s =
     (if task_id_child (pcb_of task_num s) \<noteq> -1
      then bottom_from (task_id_child (pcb_of task_num s)) s
      else Some (get_pcb task_num))"

declare bottom_from.simps [code]

definition find_bottom_task :: "u32 \<Rightarrow> 'a task_scheme \<Rightarrow> u32 option" where
  "find_bottom_task task_num s =
     (if task_num > 2 then Some (-1)
      else if task_slots s ! unat task_num = 0 then Some (-1)
      else do { p \<leftarrow> bottom_from task_num s; Some (task_id (pcbs s p)) })"

definition switch_running_task :: "u32 \<Rightarrow> 'a task_scheme \<Rightarrow> (int \<times> 'a task_scheme) option" where
  "switch_running_task task_num s = do {
     new_task_num \<leftarrow> find_bottom_task task_num s;
     if new_task_num = -1 then Some (-1, s)
     else Some (0, s\<lparr>tasks_running := new_task_num\<rparr>)
   }"

subsection \<open>Where the blocks are\<close>

lemma small_not_minus_one: "(i :: u32) < 6 \<Longrightarrow> i \<noteq> -1" "(i :: u32) < 6 \<Longrightarrow> unat i < 6"
proof -
  assume "i < 6"
  then have u: "unat i < 6" by (simp add: word_less_nat_alt)
  moreover have "unat (-1 :: u32) = 4294967295"
    by (simp add: unsigned_minus_1_eq_mask mask_eq_exp_minus_1)
  ultimately show "i \<noteq> -1" "unat i < 6" by auto
qed

lemma get_pcb_inj:
  assumes "i < 6 \<or> i = -1" "j < 6 \<or> j = -1"
  shows "get_pcb i = get_pcb j \<longleftrightarrow> i = j"
proof
  assume eq: "get_pcb i = get_pcb j"
  have u: "unat (get_pcb k) = 0x800000 - 0x2000 * Suc (unat k)" if "k < 6" for k
  proof -
    have k: "unat k < 6" using that by (simp add: word_less_nat_alt)
    have "get_pcb k = 0x7FE000 - 0x2000 * k"
      by (simp add: get_pcb_def eightK_def oneK_def algebra_simps)
    moreover have "unat (0x2000 * k) = 0x2000 * unat k" using k by (simp add: unat_word_ariths)
    ultimately show ?thesis using k by (simp add: unat_sub_if')
  qed
  have m: "unat (get_pcb (-1)) = 0x800000" by (simp add: get_pcb_def eightK_def oneK_def)
  have e: "unat (get_pcb i) = unat (get_pcb j)" using eq by simp
  consider "i < 6" "j < 6" | "i < 6" "j = -1" | "i = -1" "j < 6" | "i = j" using assms by blast
  then show "i = j"
  proof cases
    case 1
    then show ?thesis
      using e u small_not_minus_one(2) [of i] small_not_minus_one(2) [of j] by (simp add: word_unat_eq_iff)
  next
    case 2
    then show ?thesis using e u [of i] m small_not_minus_one(2) [of i] by simp
  next
    case 3
    then show ?thesis using e u [of j] m small_not_minus_one(2) [of j] by simp
  qed simp
qed simp

lemma pcb_of_upd:
  "i < 6 \<Longrightarrow> j < 6 \<Longrightarrow> pcb_of j (upd_pcb i f s) = (if j = i then f (pcb_of i s) else pcb_of j s)"
  using get_pcb_inj [of i j] by (auto simp: pcb_of_def upd_pcb_def)

lemma pcb_of_upd_same [simp]: "pcb_of i (upd_pcb i f s) = f (pcb_of i s)"
  by (simp add: pcb_of_def upd_pcb_def)

lemma pcb_of_frame [simp]:
  "pcb_of i (s\<lparr>tasks_running := x\<rparr>) = pcb_of i s" "pcb_of i (s\<lparr>task_slots := y\<rparr>) = pcb_of i s"
  "pcb_of i (s\<lparr>memory := m\<rparr>) = pcb_of i s" "pcb_of i (s\<lparr>tss_ss0 := x\<rparr>) = pcb_of i s"
  "pcb_of i (s\<lparr>tss_esp0 := x\<rparr>) = pcb_of i s" "pcb_of i (s\<lparr>exception_death := x\<rparr>) = pcb_of i s"
  by (simp_all add: pcb_of_def)

lemma upd_pcb_fields [simp]:
  "tasks_running (upd_pcb i f s) = tasks_running s" "task_slots (upd_pcb i f s) = task_slots s"
  "memory (upd_pcb i f s) = memory s" "page_directory (upd_pcb i f s) = page_directory s"
  "frames (upd_pcb i f s) = frames s" "boot_block (upd_pcb i f s) = boot_block s"
  "exception_death (upd_pcb i f s) = exception_death s" "task.more (upd_pcb i f s) = task.more s"
  by (simp_all add: upd_pcb_def)

text \<open>Block and kernel stack of a task share its 8 KB below 8 MB; the stack starts at its top.\<close>

lemma get_pcb_stack:
  "i < 6 \<Longrightarrow> get_pcb i + eightK = eightM - eightK * i"
  by (simp add: get_pcb_def eightK_def oneK_def eightM_def algebra_simps)

subsection \<open>The task forest\<close>

definition running :: "'a task_scheme \<Rightarrow> u32 \<Rightarrow> bool" where
  "running s i \<longleftrightarrow> i < 6 \<and> task_slots s ! unat i \<noteq> 0"

text \<open>
  The invariant of the task table: every running task knows its id; the child it names runs
  and names it as its parent, and the other way round; the base shells 0 to 2 and only
  they have no parent.
\<close>

definition tasks_ok :: "'a task_scheme \<Rightarrow> bool" where
  "tasks_ok s \<longleftrightarrow> length (task_slots s) = 6 \<and>
     (\<forall>i. running s i \<longrightarrow> task_id (pcb_of i s) = i) \<and>
     (\<forall>i. running s i \<longrightarrow> task_id_child (pcb_of i s) \<noteq> -1 \<longrightarrow>
        running s (task_id_child (pcb_of i s)) \<and> 3 \<le> task_id_child (pcb_of i s) \<and>
        task_id_parent (pcb_of (task_id_child (pcb_of i s)) s) = i) \<and>
     (\<forall>i. running s i \<longrightarrow> 3 \<le> i \<longrightarrow>
        running s (task_id_parent (pcb_of i s)) \<and> task_id_child (pcb_of (task_id_parent (pcb_of i s)) s) = i) \<and>
     (\<forall>i. running s i \<longrightarrow> i < 3 \<longrightarrow> task_id_parent (pcb_of i s) = -1)"

text \<open>The running task runs and has no child: it is the bottom of its chain.\<close>

definition current_ok :: "'a task_scheme \<Rightarrow> bool" where
  "current_ok s \<longleftrightarrow> running s (tasks_running s) \<and> task_id_child (pcb_of (tasks_running s) s) = -1"

subsection \<open>Chains of children end\<close>

definition child_chain :: "'a task_scheme \<Rightarrow> u32 \<Rightarrow> nat \<Rightarrow> u32" where
  "child_chain s i n = ((\<lambda>j. task_id_child (pcb_of j s)) ^^ n) i"

definition no_child :: "'a task_scheme \<Rightarrow> u32 \<Rightarrow> bool" where
  "no_child s i \<longleftrightarrow> task_id_child (pcb_of i s) = -1"

text \<open>\<open>b\<close> is in the chain of the base shell \<open>t\<close>.\<close>

definition in_chain :: "'a task_scheme \<Rightarrow> u32 \<Rightarrow> u32 \<Rightarrow> bool" where
  "in_chain s t b \<longleftrightarrow> (\<exists>n. child_chain s t n = b \<and> (\<forall>k < n. \<not> no_child s (child_chain s t k)))"

lemma child_chain_simps [simp]:
  "child_chain s i 0 = i" "child_chain s i (Suc n) = task_id_child (pcb_of (child_chain s i n) s)"
  by (simp_all add: child_chain_def)

lemma child_chain_shift: "child_chain s (task_id_child (pcb_of i s)) n = child_chain s i (Suc n)"
  by (induction n) (simp_all add: child_chain_def)

lemma running_less: "running s i \<Longrightarrow> i < 6"
  by (simp add: running_def)

lemma tasks_okD:
  assumes "tasks_ok s" "running s i"
  shows "task_id (pcb_of i s) = i"
    and "\<not> no_child s i \<Longrightarrow> running s (task_id_child (pcb_of i s))"
    and "\<not> no_child s i \<Longrightarrow> 3 \<le> task_id_child (pcb_of i s)"
    and "\<not> no_child s i \<Longrightarrow> task_id_parent (pcb_of (task_id_child (pcb_of i s)) s) = i"
    and "3 \<le> i \<Longrightarrow> running s (task_id_parent (pcb_of i s))"
    and "3 \<le> i \<Longrightarrow> task_id_child (pcb_of (task_id_parent (pcb_of i s)) s) = i"
    and "i < 3 \<Longrightarrow> task_id_parent (pcb_of i s) = -1"
  using assms by (simp_all add: tasks_ok_def no_child_def)

lemma bottom_from_steps:
  "(\<forall>k < n. \<not> no_child s (child_chain s i k)) \<Longrightarrow> no_child s (child_chain s i n) \<Longrightarrow>
    bottom_from i s = Some (get_pcb (child_chain s i n))"
proof (induction n arbitrary: i)
  case 0
  then show ?case by (subst bottom_from.simps) (simp add: no_child_def)
next
  case (Suc n)
  have "\<not> no_child s (child_chain s (task_id_child (pcb_of i s)) k)" if "k < n" for k
    using Suc.prems(1) that unfolding child_chain_shift by blast
  moreover have "no_child s (child_chain s (task_id_child (pcb_of i s)) n)"
    using Suc.prems(2) unfolding child_chain_shift .
  ultimately have "bottom_from (task_id_child (pcb_of i s)) s =
      Some (get_pcb (child_chain s (task_id_child (pcb_of i s)) n))"
    using Suc.IH by blast
  then have "bottom_from (task_id_child (pcb_of i s)) s = Some (get_pcb (child_chain s i (Suc n)))"
    unfolding child_chain_shift .
  moreover have "task_id_child (pcb_of i s) \<noteq> -1"
    using Suc.prems(1) by (auto simp: no_child_def dest: spec [of _ 0])
  ultimately show ?case by (subst bottom_from.simps) simp
qed

lemma chain_running:
  assumes "tasks_ok s" "running s i"
  shows "(\<forall>k < n. \<not> no_child s (child_chain s i k)) \<Longrightarrow> running s (child_chain s i n)"
proof (induction n)
  case (Suc n)
  then show ?case using tasks_okD(2) [OF assms(1), of "child_chain s i n"] by simp
qed (simp add: assms)

text \<open>From a base shell no task is met twice: going back from two equal ones meets the shell.\<close>

lemma chain_distinct:
  assumes ok: "tasks_ok s" and t: "running s t" "t < 3"
    and go: "\<forall>k < n. \<not> no_child s (child_chain s t k)"
  shows "a < b \<Longrightarrow> b \<le> n \<Longrightarrow> child_chain s t a \<noteq> child_chain s t b"
proof (induction a arbitrary: b)
  case 0
  then obtain c where b: "b = Suc c" by (cases b) auto
  have "running s (child_chain s t c)" using go b 0 by (intro chain_running [OF ok t(1)]) auto
  then have "3 \<le> child_chain s t b"
    using tasks_okD(3) [OF ok, of "child_chain s t c"] go b 0 by simp
  then show ?case using t(2) by auto
next
  case (Suc a)
  then obtain c where b: "b = Suc c" by (cases b) auto
  have r: "running s (child_chain s t a)" "running s (child_chain s t c)"
    using go b Suc.prems by (intro chain_running [OF ok t(1)]; simp)+
  have "task_id_parent (pcb_of (child_chain s t (Suc a)) s) = child_chain s t a"
    "task_id_parent (pcb_of (child_chain s t b) s) = child_chain s t c"
    using tasks_okD(4) [OF ok r(1)] tasks_okD(4) [OF ok r(2)] go b Suc.prems by simp_all
  moreover have "child_chain s t a \<noteq> child_chain s t c" using Suc.IH [of c] b Suc.prems by simp
  ultimately show ?case by metis
qed

lemma card_below_6: "card {i :: u32. i < 6} \<le> 6" "finite {i :: u32. i < 6}"
proof -
  have "{i :: u32. i < 6} \<subseteq> of_nat ` {..<6}"
  proof
    fix i :: u32 assume "i \<in> {i. i < 6}"
    then have "unat i < 6" by (simp add: word_less_nat_alt)
    moreover have "i = of_nat (unat i)" by simp
    ultimately show "i \<in> of_nat ` {..<6}" by blast
  qed
  then have "card {i :: u32. i < 6} \<le> card (of_nat ` {..<6} :: u32 set)"
    by (intro card_mono) simp_all
  also have "\<dots> \<le> 6" using card_image_le [of "{..<6}" "of_nat :: nat \<Rightarrow> u32"] by simp
  finally show "card {i :: u32. i < 6} \<le> 6" .
qed simp

lemma chain_ends:
  assumes ok: "tasks_ok s" and t: "running s t" "t < 3"
  shows "\<exists>n. no_child s (child_chain s t n) \<and> (\<forall>k < n. \<not> no_child s (child_chain s t k))"
proof -
  have "\<exists>n. no_child s (child_chain s t n)"
  proof (rule ccontr)
    assume "\<nexists>n. no_child s (child_chain s t n)"
    then have go: "\<forall>k < n. \<not> no_child s (child_chain s t k)" for n by blast
    have "inj_on (child_chain s t) {..6}"
      using chain_distinct [OF ok t go [of 6]] by (intro linorder_inj_onI) auto
    then have "card (child_chain s t ` {..6}) = 7" by (simp add: card_image)
    moreover have "child_chain s t k < 6" for k
      using chain_running [OF ok t(1) go [of k]] by (rule running_less)
    then have "child_chain s t ` {..6} \<subseteq> {i. i < 6}" by blast
    then have "card (child_chain s t ` {..6}) \<le> card {i :: u32. i < 6}"
      by (rule card_mono [OF card_below_6(2)])
    ultimately show False using card_below_6(1) by linarith
  qed
  then obtain m where m: "no_child s (child_chain s t m)" by blast
  define n where "n = (LEAST n. no_child s (child_chain s t n))"
  have "no_child s (child_chain s t n)" unfolding n_def using m by (rule LeastI)
  moreover have "\<forall>k < n. \<not> no_child s (child_chain s t k)"
    unfolding n_def using not_less_Least by blast
  ultimately show ?thesis by blast
qed

lemma find_bottom_task_correct:
  assumes ok: "tasks_ok s" and t: "running s t" "t < 3"
  shows "\<exists>b. find_bottom_task t s = Some b \<and> running s b \<and> no_child s b \<and> in_chain s t b"
proof -
  obtain n where n: "no_child s (child_chain s t n)" "\<forall>k < n. \<not> no_child s (child_chain s t k)"
    using chain_ends [OF assms] by blast
  have b: "running s (child_chain s t n)" using n(2) by (rule chain_running [OF ok t(1)])
  then have "task_id (pcbs s (get_pcb (child_chain s t n))) = child_chain s t n"
    using tasks_okD(1) [OF ok b] by (simp add: pcb_of_def)
  moreover have "\<not> t > 2" using t(2) by (simp add: word_less_nat_alt)
  ultimately have "find_bottom_task t s = Some (child_chain s t n)"
    using bottom_from_steps [OF n(2,1)] t(1) by (simp add: find_bottom_task_def running_def)
  then show ?thesis using b n unfolding in_chain_def by blast
qed

lemma find_bottom_task_none: "\<not> running s t \<or> t > 2 \<Longrightarrow> find_bottom_task t s = Some (-1)"
proof -
  assume "\<not> running s t \<or> t > 2"
  moreover have "t < 6" if "\<not> t > 2" using that by (simp add: word_less_nat_alt)
  ultimately show ?thesis by (auto simp: find_bottom_task_def running_def)
qed

lemma current_ok_switch:
  assumes ok: "tasks_ok s" and t: "running s t" "t < 3"
  shows "\<exists>s'. switch_running_task t s = Some (0, s') \<and> current_ok s' \<and>
    in_chain s t (tasks_running s') \<and> s' = s\<lparr>tasks_running := tasks_running s'\<rparr>"
proof -
  obtain b where b: "find_bottom_task t s = Some b" "running s b" "no_child s b" "in_chain s t b"
    using find_bottom_task_correct [OF assms] by blast
  have "b \<noteq> -1" using running_less [OF b(2)] by (rule small_not_minus_one(1))
  then show ?thesis
    using b by (auto simp: switch_running_task_def current_ok_def running_def no_child_def pcb_of_def)
qed

subsection \<open>Tasks start and end\<close>

text \<open>A task that starts joins the forest, a task that ends leaves it.\<close>

lemma tasks_okI:
  assumes "length (task_slots s) = 6"
    and "\<And>i. running s i \<Longrightarrow> task_id (pcb_of i s) = i"
    and "\<And>i. running s i \<Longrightarrow> task_id_child (pcb_of i s) \<noteq> -1 \<Longrightarrow>
        running s (task_id_child (pcb_of i s)) \<and> 3 \<le> task_id_child (pcb_of i s) \<and>
        task_id_parent (pcb_of (task_id_child (pcb_of i s)) s) = i"
    and "\<And>i. running s i \<Longrightarrow> 3 \<le> i \<Longrightarrow> running s (task_id_parent (pcb_of i s)) \<and>
        task_id_child (pcb_of (task_id_parent (pcb_of i s)) s) = i"
    and "\<And>i. running s i \<Longrightarrow> i < 3 \<Longrightarrow> task_id_parent (pcb_of i s) = -1"
  shows "tasks_ok s"
  using assms unfolding tasks_ok_def by blast

lemma slot_update:
  assumes "length (task_slots s) = 6" "n < 6" "task_slots t = (task_slots s)[unat n := v]"
  shows "running t i \<longleftrightarrow> (if i = n then v \<noteq> 0 else running s i)"
proof (cases "i = n")
  case True
  then show ?thesis using assms small_not_minus_one(2) [OF assms(2)] by (simp add: running_def)
next
  case False
  then have "unat n \<noteq> unat i" by (simp add: word_unat_eq_iff)
  then show ?thesis using False assms(3) by (simp add: running_def)
qed

lemma tasks_ok_start:
  fixes s t :: "'a task_scheme"
  assumes ok: "tasks_ok s" and n: "n < 6" "\<not> running s n" and old: "3 \<le> n \<Longrightarrow> current_ok s"
    and slots: "task_slots t = (task_slots s)[unat n := 1]"
    and ids: "\<And>j. j < 6 \<Longrightarrow> task_id (pcb_of j t) = (if j = n then n else task_id (pcb_of j s))"
    and child: "\<And>j. j < 6 \<Longrightarrow> task_id_child (pcb_of j t) = (if j = n then -1
      else if 3 \<le> n \<and> j = tasks_running s then n else task_id_child (pcb_of j s))"
    and parent: "\<And>j. j < 6 \<Longrightarrow> task_id_parent (pcb_of j t) =
      (if j = n then (if 3 \<le> n then tasks_running s else -1) else task_id_parent (pcb_of j s))"
  shows "tasks_ok t"
proof (rule tasks_okI)
  have len: "length (task_slots s) = 6" using ok by (simp add: tasks_ok_def)
  then show "length (task_slots t) = 6" by (simp add: slots)
  have r: "running t i \<longleftrightarrow> i = n \<or> running s i" for i
    using slot_update [OF len n(1) slots] by simp
  note less = running_less [where s = s]
  have cur: "running s (tasks_running s)" "no_child s (tasks_running s)" if "3 \<le> n"
    using old [OF that] by (simp_all add: current_ok_def no_child_def)
  fix i assume i: "running t i"
  then have i6: "i < 6" by (rule running_less)
  show "task_id (pcb_of i t) = i"
    using i ids [OF i6] tasks_okD(1) [OF ok, of i] by (auto simp: r)
  show "task_id_parent (pcb_of i t) = -1" if "i < 3"
    using i that parent [OF i6] tasks_okD(7) [OF ok, of i] by (auto simp: r not_less [symmetric])
  show "running t (task_id_child (pcb_of i t)) \<and> 3 \<le> task_id_child (pcb_of i t) \<and>
        task_id_parent (pcb_of (task_id_child (pcb_of i t)) t) = i" if "task_id_child (pcb_of i t) \<noteq> -1"
  proof (cases "3 \<le> n \<and> i = tasks_running s")
    case True
    then have "i \<noteq> n" using n(2) cur(1) by auto
    then show ?thesis using True child [OF i6] parent [OF n(1)] by (simp add: r)
  next
    case False
    then have "i \<noteq> n" "task_id_child (pcb_of i t) = task_id_child (pcb_of i s)"
      using that child [OF i6] by auto
    then have s: "running s i" "\<not> no_child s i" using i that by (auto simp: r no_child_def)
    then have "running s (task_id_child (pcb_of i s))" using tasks_okD(2) [OF ok] by blast
    then show ?thesis
      using tasks_okD(3,4) [OF ok s] parent [OF less] n(2) \<open>task_id_child (pcb_of i t) = _\<close>
      by (auto simp: r)
  qed
  show "running t (task_id_parent (pcb_of i t)) \<and>
        task_id_child (pcb_of (task_id_parent (pcb_of i t)) t) = i" if "3 \<le> i"
  proof (cases "i = n")
    case True
    then show ?thesis
      using that cur n parent [OF n(1)] child [OF less, of "tasks_running s"] by (auto simp: r)
  next
    case False
    let ?q = "task_id_parent (pcb_of i s)"
    have s: "running s i" using i False by (simp add: r)
    have q: "running s ?q" "task_id_child (pcb_of ?q s) = i" using tasks_okD(5,6) [OF ok s that] by simp_all
    have "\<not> (3 \<le> n \<and> ?q = tasks_running s)"
      using cur(2) q(2) small_not_minus_one(1) [OF i6] by (auto simp: no_child_def)
    then show ?thesis
      using False q n(2) parent [OF i6] child [OF less [OF q(1)]] by (auto simp: r)
  qed
qed

lemma tasks_ok_end:
  fixes s t :: "'a task_scheme"
  assumes ok: "tasks_ok s" "current_ok s" and c: "tasks_running s = c" "3 \<le> c" "task_id_parent (pcb_of c s) = p"
    and slots: "task_slots t = (task_slots s)[unat c := 0]"
    and same: "\<And>j. j < 6 \<Longrightarrow> task_id (pcb_of j t) = task_id (pcb_of j s) \<and>
      task_id_parent (pcb_of j t) = task_id_parent (pcb_of j s)"
    and child: "\<And>j. j < 6 \<Longrightarrow> task_id_child (pcb_of j t) = (if j = p then -1 else task_id_child (pcb_of j s))"
    and run: "tasks_running t = p"
  shows "tasks_ok t \<and> current_ok t \<and> p \<noteq> c \<and> p < 6"
proof -
  have len: "length (task_slots s) = 6" using ok by (simp add: tasks_ok_def)
  have rc: "running s c" "no_child s c" using ok(2) c(1) by (simp_all add: current_ok_def no_child_def)
  note less = running_less [where s = s]
  have r: "running t i \<longleftrightarrow> i \<noteq> c \<and> running s i" for i
    using slot_update [OF len less [OF rc(1)] slots] by simp
  have p: "running s p" "task_id_child (pcb_of p s) = c"
    using tasks_okD(5,6) [OF ok(1) rc(1) c(2)] c(3) by simp_all
  have pc: "p \<noteq> c" using p(2) rc small_not_minus_one(1) [OF less [OF rc(1)]] by (auto simp: no_child_def)
  have "tasks_ok t"
  proof (rule tasks_okI)
    show "length (task_slots t) = 6" using len by (simp add: slots)
    fix i assume "running t i"
    then have i: "i \<noteq> c" "running s i" "i < 6" by (auto simp: r less)
    show "task_id (pcb_of i t) = i" using tasks_okD(1) [OF ok(1) i(2)] same [OF i(3)] by simp
    show "task_id_parent (pcb_of i t) = -1" if "i < 3"
      using tasks_okD(7) [OF ok(1) i(2) that] same [OF i(3)] by simp
    show "running t (task_id_child (pcb_of i t)) \<and> 3 \<le> task_id_child (pcb_of i t) \<and>
        task_id_parent (pcb_of (task_id_child (pcb_of i t)) t) = i" if "task_id_child (pcb_of i t) \<noteq> -1"
    proof -
      have ch: "i \<noteq> p" "task_id_child (pcb_of i t) = task_id_child (pcb_of i s)" "\<not> no_child s i"
        using that child [OF i(3)] by (auto simp: no_child_def split: if_splits)
      note d = tasks_okD(2-4) [OF ok(1) i(2) ch(3)]
      have "task_id_child (pcb_of i s) \<noteq> c" using d(3) c(3) ch(1) by auto
      then show ?thesis using d ch(2) same [OF less [OF d(1)]] by (simp add: r)
    qed
    show "running t (task_id_parent (pcb_of i t)) \<and>
        task_id_child (pcb_of (task_id_parent (pcb_of i t)) t) = i" if "3 \<le> i"
    proof -
      let ?q = "task_id_parent (pcb_of i s)"
      note q = tasks_okD(5,6) [OF ok(1) i(2) that]
      have "?q \<noteq> c" using q(2) rc(2) small_not_minus_one(1) [OF i(3)] by (auto simp: no_child_def)
      moreover have "?q \<noteq> p" using q(2) p(2) i(1) by auto
      ultimately show ?thesis using q same [OF i(3)] child [OF less [OF q(1)]] by (simp add: r)
    qed
  qed
  moreover have "current_ok t"
    using p(1) pc child [OF less [OF p(1)]] by (simp add: current_ok_def r run)
  ultimately show ?thesis using pc less [OF p(1)] by simp
qed

lemma find_open_task_Some:
  assumes "length (task_slots s) = 6"
  shows "find_open_task s = -1 \<longleftrightarrow> (\<forall>i < 6. running s i)"
    "find_open_task s \<noteq> -1 \<Longrightarrow> (word_of_int (find_open_task s) :: u32) < 6 \<and>
       \<not> running s (word_of_int (find_open_task s)) \<and>
       (\<forall>i < word_of_int (find_open_task s). running s i) \<and>
       find_open_task s = int (unat (word_of_int (find_open_task s) :: u32))"
proof -
  have r: "(\<forall>i < 6. running s i) \<longleftrightarrow> (\<forall>k < 6. task_slots s ! k \<noteq> 0)"
  proof (intro iffI allI impI)
    fix k :: nat assume "\<forall>i < 6. running s i" "k < 6"
    then have "running s (of_nat k)" "unat (of_nat k :: u32) = k"
      by (simp_all add: word_less_nat_alt unat_of_nat take_bit_nat_eq_self)
    then show "task_slots s ! k \<noteq> 0" by (simp add: running_def)
  next
    fix i :: u32 assume "\<forall>k < 6. task_slots s ! k \<noteq> 0" "i < 6"
    then show "running s i" using small_not_minus_one(2) [of i] by (simp add: running_def)
  qed
  show "find_open_task s = -1 \<longleftrightarrow> (\<forall>i < 6. running s i)"
    unfolding r find_open_task_def by (auto simp: find_None_iff find_Some_iff split: option.splits)
  assume "find_open_task s \<noteq> -1"
  then obtain k where k: "List.find (\<lambda>i. task_slots s ! i = 0) [0..<6] = Some k" "find_open_task s = int k"
    by (auto simp: find_open_task_def split: option.splits)
  then have k6: "k < 6" "task_slots s ! k = 0" "\<forall>j < k. task_slots s ! j \<noteq> 0"
    unfolding find_Some_iff by auto
  have u: "unat (word_of_int (find_open_task s) :: u32) = k"
    using k6(1) by (simp add: k(2) unat_of_nat take_bit_nat_eq_self)
  then show "(word_of_int (find_open_task s) :: u32) < 6 \<and>
       \<not> running s (word_of_int (find_open_task s)) \<and>
       (\<forall>i < word_of_int (find_open_task s). running s i) \<and>
       find_open_task s = int (unat (word_of_int (find_open_task s) :: u32))"
    using k6 k(2) by (auto simp: word_less_nat_alt running_def)
qed

text \<open>The task table hands out its slots as \<open>slot_table\<close> promises.\<close>

interpretation task_table: slot_table
  "\<lambda>l :: u32 list. length l = 6" "\<lambda>l i. l ! i \<noteq> 0" "\<lambda>l. List.find (\<lambda>i. l ! i = 0) [0..<6]"
  "\<lambda>i l. l[i := 1]" "\<lambda>i l. l[i := 0]" 0 6
  by unfold_locales (auto simp: find_upt_Some find_upt_None nth_list_update simp del: upt_conv_Cons split: if_splits)

end
