(* ===== verification/Terminal.thy ===== *)
theory Terminal
  imports Task
begin

section \<open>Keyboard and terminals (keyboard.c)\<close>

text \<open>
  \<open>student-distrib/keyboard.c\<close>: the three terminals, the line buffer the keyboard fills
  and \<open>terminal_read\<close> empties, and the switch between terminals. \<open>scan_state\<close> is the
  fourth column of \<open>scan_codes\<close>, the pressed flags; the array has 61 rows but the code also
  uses row 61, the F3 key: the model gives the byte behind the array a cell of its own.

  \<open>terminal_read\<close> spins until a line is complete. What the processor does meanwhile is a
  parameter, the handlers of the interrupts that arrive, one per test of the loop; a
  schedule that ends while the loop still waits gives \<open>None\<close>. So does an access outside a
  terminal's 128-byte buffer.
\<close>

record terminal_t =
  keyboard_buffer :: "u8 list"
  cursor_pos_x :: u32
  cursor_pos_y :: u32
  keyboard_buffer_size :: int
  allow_terminal_read :: int
  terminal_buffer :: "u8 list"
  term_ebp :: u32
  term_esp :: u32

record tty = task +
  terminals :: "int \<Rightarrow> terminal_t"
  display_terminal_id :: int
  scan_state :: "nat \<Rightarrow> u8"

text \<open>
  The stack registers at a terminal switch and what the registers the second \<open>asm\<close> of
  \<open>switch_display_terminal\<close> names as outputs happen to hold.
\<close>

record regs =
  reg_esp :: u32
  reg_ebp :: u32
  out_esp :: u32
  out_ebp :: u32

definition KEYBOARD_MAX_BUFFER :: int where "KEYBOARD_MAX_BUFFER = 128"
definition TERMINAL_COUNT :: int where "TERMINAL_COUNT = 3"
definition TERMINAL_SIZE :: nat where "TERMINAL_SIZE = 4000"
definition KEYBOARD_DATA_PORT :: u32 where "KEYBOARD_DATA_PORT = 0x60"
definition KEYBOARD_IRQ_NUM :: u32 where "KEYBOARD_IRQ_NUM = 1"
definition leftshift :: nat where "leftshift = 0x2A"
definition rightshift :: nat where "rightshift = 0x36"
definition leftCtrl :: nat where "leftCtrl = 0x1D"
definition leftAlt :: nat where "leftAlt = 0x38"
definition CapsLock :: nat where "CapsLock = 0x3A"
definition function1_key :: nat where "function1_key = 0x3B"
definition function2_key :: nat where "function2_key = 0x3C"
definition function3_key :: nat where "function3_key = 0x3D"
definition press_release_offset :: nat where "press_release_offset = 0x80"

lemmas key_consts = KEYBOARD_DATA_PORT_def KEYBOARD_IRQ_NUM_def leftshift_def rightshift_def
  leftCtrl_def leftAlt_def CapsLock_def function1_key_def function2_key_def function3_key_def
  press_release_offset_def

text \<open>The first three columns of \<open>scan_codes\<close>: plain, shifted, with caps lock.\<close>

definition scan_codes :: "(u8 \<times> u8 \<times> u8) list" where
  "scan_codes = [
     (0x00, 0x00, 0x00), (0x00, 0x00, 0x00), (0x31, 0x21, 0x31), (0x32, 0x40, 0x32),
     (0x33, 0x23, 0x33), (0x34, 0x24, 0x34), (0x35, 0x25, 0x35), (0x36, 0x5E, 0x36),
     (0x37, 0x26, 0x37), (0x38, 0x2A, 0x38), (0x39, 0x28, 0x39), (0x30, 0x29, 0x30),
     (0x2D, 0x5F, 0x2D), (0x3D, 0x2B, 0x3D), (0x00, 0x00, 0x00), (0x09, 0x09, 0x09),
     (0x71, 0x51, 0x51), (0x77, 0x57, 0x57), (0x65, 0x45, 0x45), (0x72, 0x52, 0x52),
     (0x74, 0x54, 0x54), (0x79, 0x59, 0x59), (0x75, 0x55, 0x55), (0x69, 0x49, 0x49),
     (0x6F, 0x4F, 0x4F), (0x70, 0x50, 0x50), (0x5B, 0x7B, 0x5B), (0x5D, 0x7D, 0x5D),
     (0x0A, 0x0A, 0x0A), (0x00, 0x00, 0x00), (0x61, 0x41, 0x41), (0x73, 0x53, 0x53),
     (0x64, 0x44, 0x44), (0x66, 0x46, 0x46), (0x67, 0x47, 0x47), (0x68, 0x48, 0x48),
     (0x6A, 0x4A, 0x4A), (0x6B, 0x4B, 0x4B), (0x6C, 0x4C, 0x4C), (0x3B, 0x3A, 0x3B),
     (0x27, 0x22, 0x27), (0x60, 0x7E, 0x60), (0x00, 0x00, 0x00), (0x5C, 0x7C, 0x5C),
     (0x7A, 0x5A, 0x5A), (0x78, 0x58, 0x58), (0x63, 0x43, 0x43), (0x76, 0x56, 0x56),
     (0x62, 0x42, 0x42), (0x6E, 0x4E, 0x4E), (0x6D, 0x4D, 0x4D), (0x2C, 0x3C, 0x2C),
     (0x2E, 0x3E, 0x2E), (0x2F, 0x3F, 0x2F), (0x00, 0x00, 0x00), (0x00, 0x00, 0x00),
     (0x00, 0x00, 0x00), (0x20, 0x20, 0x20), (0x00, 0x00, 0x00), (0x00, 0x00, 0x00),
     (0x00, 0x00, 0x00)]"

definition scan_plain :: "nat \<Rightarrow> u8" where "scan_plain k = fst (scan_codes ! k)"
definition scan_shift :: "nat \<Rightarrow> u8" where "scan_shift k = fst (snd (scan_codes ! k))"
definition scan_caps :: "nat \<Rightarrow> u8" where "scan_caps k = snd (snd (scan_codes ! k))"

definition set_key :: "nat \<Rightarrow> u8 \<Rightarrow> 'a tty_scheme \<Rightarrow> 'a tty_scheme" where
  "set_key k b s = s\<lparr>scan_state := (scan_state s)(k := b)\<rparr>"

definition keyboard_init :: "'a tty_scheme \<Rightarrow> 'a tty_scheme" where
  "keyboard_init s = enable_irq KEYBOARD_IRQ_NUM s"

definition displayed :: "'a tty_scheme \<Rightarrow> terminal_t" where
  "displayed s = terminals s (display_terminal_id s)"

definition upd_displayed :: "(terminal_t \<Rightarrow> terminal_t) \<Rightarrow> 'a tty_scheme \<Rightarrow> 'a tty_scheme" where
  "upd_displayed f s = s\<lparr>terminals := (terminals s)(display_terminal_id s := f (displayed s))\<rparr>"

subsection \<open>The line buffer\<close>

text \<open>A store to \<open>keyboard_buffer[keyboard_buffer_size]\<close> and the operations of the line buffer.\<close>

definition store_key :: "u8 \<Rightarrow> terminal_t \<Rightarrow> terminal_t" where
  "store_key c t = t\<lparr>keyboard_buffer := (keyboard_buffer t)[nat (keyboard_buffer_size t) := c]\<rparr>"

definition push_key :: "u8 \<Rightarrow> terminal_t \<Rightarrow> terminal_t" where
  "push_key c t = (store_key c t)\<lparr>keyboard_buffer_size := keyboard_buffer_size t + 1\<rparr>"

definition pop_key :: "terminal_t \<Rightarrow> terminal_t" where
  "pop_key t = (store_key 0 t)\<lparr>keyboard_buffer_size := keyboard_buffer_size t - 1\<rparr>"

definition clear_screen :: "'a tty_scheme \<Rightarrow> 'a tty_scheme" where
  "clear_screen s = reset_position (clear s)"

text \<open>\<open>printf("%c", space)\<close> is \<open>putc\<close> of the space, the \<open>%c\<close> branch of \<open>printf_convert\<close>.\<close>

definition terminal_backspace :: "'a tty_scheme \<Rightarrow> 'a tty_scheme" where
  "terminal_backspace s =
     (if keyboard_buffer_size (displayed s) = 0 then s
      else (let s = back_space s;
                s = upd_displayed pop_key s;
                s = putc 0x20 s
            in back_space s))"

definition terminal_buf_add :: "u8 \<Rightarrow> 'a tty_scheme \<Rightarrow> 'a tty_scheme" where
  "terminal_buf_add char_to_print s =
     (if keyboard_buffer_size (displayed s) \<ge> KEYBOARD_MAX_BUFFER - 2 then s
      else if char_to_print = 0x0A then
        upd_displayed (\<lambda>t. (push_key char_to_print t)\<lparr>allow_terminal_read := 1\<rparr>) (putc char_to_print s)
      else upd_displayed (push_key char_to_print) (putc char_to_print s))"

subsection \<open>The terminal as a file\<close>

text \<open>\<open>terminal_open\<close> resets the displayed terminal, which it has just set to 0, three times.\<close>

definition reset_terminal :: "terminal_t \<Rightarrow> terminal_t" where
  "reset_terminal t =
     (let t = t\<lparr>allow_terminal_read := 0, cursor_pos_x := 0, cursor_pos_y := 0, keyboard_buffer_size := 0\<rparr>
      in fold (\<lambda>i t. t\<lparr>keyboard_buffer := (keyboard_buffer t)[i := 0]\<rparr>) [0..<nat KEYBOARD_MAX_BUFFER] t)"

definition terminal_open :: "'a tty_scheme \<Rightarrow> int \<times> 'a tty_scheme" where
  "terminal_open s =
     (let s = s\<lparr>display_terminal_id := 0\<rparr>
      in (0, (upd_displayed reset_terminal ^^ nat TERMINAL_COUNT) s))"

definition terminal_close :: "'a tty_scheme \<Rightarrow> int \<times> 'a tty_scheme" where
  "terminal_close s = (0, s)"

type_synonym 's handlers = "('s \<Rightarrow> 's option) list"

fun terminal_spin :: "'a tty_scheme handlers \<Rightarrow> 'a tty_scheme \<Rightarrow>
    ('a tty_scheme \<times> 'a tty_scheme handlers) option" where
  "terminal_spin hs s =
     (if allow_terminal_read (displayed s) \<noteq> 0 then Some (s, hs)
      else (case hs of [] \<Rightarrow> None | h # rest \<Rightarrow> do { s \<leftarrow> h s; terminal_spin rest s }))"

declare terminal_spin.simps [simp del]

function terminal_copy :: "nat \<Rightarrow> addr \<Rightarrow> u32 \<Rightarrow> int \<Rightarrow> 'a tty_scheme \<Rightarrow> (int \<times> 'a tty_scheme) option" where
  "terminal_copy i buf nbytes numbytes s =
     (if i < unat nbytes then
        (if i \<ge> length (keyboard_buffer (displayed s)) then None
         else (let c = keyboard_buffer (displayed s) ! i;
                   s = s\<lparr>memory := (memory s)(buf + of_nat i := c)\<rparr>;
                   s = upd_displayed (\<lambda>t. t\<lparr>keyboard_buffer := (keyboard_buffer t)[i := 0]\<rparr>) s
               in if c \<noteq> 0 then terminal_copy (Suc i) buf nbytes (numbytes + 1) s
                  else Some (numbytes, s)))
      else Some (numbytes, s))"
  by pat_completeness auto
termination
  by (relation "measure (\<lambda>(i, buf, n, k, s). unat n - i)") auto

declare terminal_copy.simps [simp del]

definition terminal_read ::
  "'a tty_scheme handlers \<Rightarrow> addr \<Rightarrow> u32 \<Rightarrow> 'a tty_scheme \<Rightarrow>
    (int \<times> 'a tty_scheme \<times> 'a tty_scheme handlers) option" where
  "terminal_read hs buf nbytes s = do {
     (s, hs) \<leftarrow> terminal_spin hs s;
     let s = cli s;
     (numbytes, s) \<leftarrow> terminal_copy 0 buf nbytes 0 s;
     let s = upd_displayed (\<lambda>t. t\<lparr>keyboard_buffer_size := 0, allow_terminal_read := 0\<rparr>) s;
     Some (numbytes, sti s, hs)
   }"

text \<open>The bytes are read from memory while the screen is written; \<open>k\<close> bytes are left.\<close>

fun terminal_write_loop :: "nat \<Rightarrow> addr \<Rightarrow> int \<Rightarrow> 'a tty_scheme \<Rightarrow> int \<times> 'a tty_scheme" where
  "terminal_write_loop 0 p numbytes s = (numbytes, s)"
| "terminal_write_loop (Suc k) p numbytes s =
     (let s = putc (memory s p) s;
          numbytes = (if memory s p \<noteq> 0x0A then numbytes + 1 else numbytes)
      in terminal_write_loop k (p + 1) numbytes s)"

definition terminal_write :: "addr \<Rightarrow> u32 \<Rightarrow> 'a tty_scheme \<Rightarrow> int \<times> 'a tty_scheme" where
  "terminal_write buf nbytes s = terminal_write_loop (unat nbytes) buf 0 s"

subsection \<open>Switching terminals\<close>

definition cpy_screen_pos :: "'a tty_scheme \<Rightarrow> 'a tty_scheme" where
  "cpy_screen_pos s = upd_displayed (\<lambda>t. t\<lparr>cursor_pos_x := word_of_int (screen_x s),
     cursor_pos_y := word_of_int (screen_y s)\<rparr>) s"

definition switch_display_terminal ::
  "regs \<Rightarrow> u32 \<Rightarrow> 'a tty_scheme \<Rightarrow> 'a tty_scheme option" where
  "switch_display_terminal r tid s =
     (if word_of_int (display_terminal_id s) = tid \<or> tid > 2 then Some s
      else do {
        b \<leftarrow> find_bottom_task tid s;
        let s = syscall_paging_setup (eightM + fourM * b) s;
        let prev = word_of_int (display_terminal_id s);
        let s = cpy_screen_pos s;
        let s = upd_displayed (\<lambda>t. t\<lparr>terminal_buffer := load (memory s) VIDEO TERMINAL_SIZE\<rparr>) s;
        b \<leftarrow> find_bottom_task tid s;
        let s = s\<lparr>tss_ss0 := KERNEL_DS, tss_esp0 := eightM - eightK * b - 4\<rparr>;
        let s = s\<lparr>display_terminal_id := int (unat tid)\<rparr>;
        let s = s\<lparr>memory := put (memory s) VIDEO (terminal_buffer (displayed s))\<rparr>;
        let s = setScreenPos (sint (cursor_pos_x (displayed s))) (sint (cursor_pos_y (displayed s))) s;
        (_, s) \<leftarrow> switch_running_task tid s;
        let s = upd_pcb prev (\<lambda>p. p\<lparr>old_esp := reg_esp r, old_ebp := reg_ebp r\<rparr>) s;
        Some (upd_pcb tid (\<lambda>p. p\<lparr>old_esp := out_esp r, old_ebp := out_ebp r\<rparr>) s)
      })"

subsection \<open>The keyboard interrupt\<close>

text \<open>The character of a press, by shift and caps lock.\<close>

definition shift_held :: "'a tty_scheme \<Rightarrow> bool" where
  "shift_held s \<longleftrightarrow> scan_state s leftshift = 1 \<or> scan_state s rightshift = 1"

definition key_char :: "nat \<Rightarrow> 'a tty_scheme \<Rightarrow> u8" where
  "key_char k s =
     (let c = 0;
          c = (if scan_state s CapsLock = 0 then (if shift_held s then scan_shift k else scan_plain k) else c)
      in if scan_state s CapsLock = 1 then
           (if shift_held s
            then (if scan_shift k = scan_caps k then scan_plain k else scan_shift k)
            else scan_caps k)
         else c)"

text \<open>Recording the press or release, with the caps lock toggle after it.\<close>

definition record_key :: "nat \<Rightarrow> 'a tty_scheme \<Rightarrow> 'a tty_scheme" where
  "record_key press_code s =
     (let s = (if press_code \<le> function3_key then set_key press_code 1 s
               else if press_code \<noteq> 0xBA then set_key (press_code - press_release_offset) 0 s
               else s)
      in if press_code = CapsLock
         then (if scan_state s press_code = 1 then set_key press_code 0 s else set_key press_code 1 s)
         else s)"

text \<open>The special keys and the character.\<close>

definition dispatch_key :: "regs \<Rightarrow> nat \<Rightarrow> 'a tty_scheme \<Rightarrow> 'a tty_scheme option" where
  "dispatch_key r press_code s =
     (let char_to_print = (if press_code \<le> CapsLock then key_char press_code s else 0)
      in if scan_state s leftCtrl = 1 \<and> scan_state s 0x26 = 1 then Some (clear_screen s)
         else if press_code = 0x0E then Some (terminal_backspace s)
         else if scan_state s leftAlt = 1 \<and> scan_state s function1_key = 1
           then switch_display_terminal r 0 s
         else if scan_state s leftAlt = 1 \<and> scan_state s function2_key = 1
           then switch_display_terminal r 1 s
         else if scan_state s leftAlt = 1 \<and> scan_state s function3_key = 1
           then switch_display_terminal r 2 s
         else if char_to_print \<noteq> 0 then Some (terminal_buf_add char_to_print s)
         else Some s)"

definition keyboard_key :: "regs \<Rightarrow> u32 \<Rightarrow> 'a tty_scheme \<Rightarrow> 'a tty_scheme option" where
  "keyboard_key r press_code s =
     (if press_code > 0xBD then Some (send_eoi KEYBOARD_IRQ_NUM s)
      else if press_code > 0x3D \<and> press_code < 0x81 then Some (send_eoi KEYBOARD_IRQ_NUM s)
      else do {
        s \<leftarrow> dispatch_key r (unat press_code) (record_key (unat press_code) s);
        Some (send_eoi KEYBOARD_IRQ_NUM s)
      })"

definition keyboard_handler :: "device \<Rightarrow> regs \<Rightarrow> 'a tty_scheme \<Rightarrow> 'a tty_scheme option" where
  "keyboard_handler dev r s = keyboard_key r (inb dev KEYBOARD_DATA_PORT s) s"

subsection \<open>Frames\<close>

lemma displayed_upd [simp]:
  "displayed (upd_displayed f s) = f (displayed s)"
  "display_terminal_id (upd_displayed f s) = display_terminal_id s"
  "memory (upd_displayed f s) = memory s" "scan_state (upd_displayed f s) = scan_state s"
  "screen_x (upd_displayed f s) = screen_x s" "screen_y (upd_displayed f s) = screen_y s"
  "int_flag (upd_displayed f s) = int_flag s" "pcbs (upd_displayed f s) = pcbs s"
  "tasks_running (upd_displayed f s) = tasks_running s" "task_slots (upd_displayed f s) = task_slots s"
  by (simp_all add: upd_displayed_def displayed_def)

lemma screen_only_tty:
  fixes s t :: "'a tty_scheme"
  assumes "screen_only s t"
  shows "terminals t = terminals s \<and> display_terminal_id t = display_terminal_id s \<and>
    scan_state t = scan_state s \<and> pcbs t = pcbs s \<and> tasks_running t = tasks_running s \<and>
    task_slots t = task_slots s \<and> page_directory t = page_directory s \<and> frames t = frames s \<and>
    boot_block t = boot_block s \<and> exception_death t = exception_death s \<and> tty.more t = tty.more s"
  using screen_only_fields [OF assms] by (cases s; cases t) simp

lemmas putc_tty [simp] = screen_only_tty [OF screen_only_putc]
lemmas back_space_tty [simp] = screen_only_tty [OF screen_only_cursor(1)]

lemma displayed_putc [simp]: "displayed (putc c s) = displayed s"
  by (simp add: displayed_def)

lemma displayed_back_space [simp]: "displayed (back_space s) = displayed s"
  by (simp add: displayed_def)

subsection \<open>The line buffer as an editor\<close>

text \<open>
  The contract between the keyboard and a reader: a buffer of bounded capacity whose
  contents grow at the end and shrink at the end. A key that finds the buffer full and an
  erase that finds it empty are dropped.
\<close>

datatype edit = Type u8 | Erase

fun spec_edit :: "nat \<Rightarrow> edit \<Rightarrow> u8 list \<Rightarrow> u8 list" where
  "spec_edit cap (Type c) l = (if length l < cap then l @ [c] else l)"
| "spec_edit cap Erase l = butlast l"

locale line_buffer =
  fixes valid :: "'t \<Rightarrow> bool"
    and contents :: "'t \<Rightarrow> u8 list"
    and push :: "u8 \<Rightarrow> 't \<Rightarrow> 't"
    and pop :: "'t \<Rightarrow> 't"
    and cap :: nat
  assumes push: "valid t \<Longrightarrow> c \<noteq> 0 \<Longrightarrow> length (contents t) < cap \<Longrightarrow>
      valid (push c t) \<and> contents (push c t) = contents t @ [c]"
    and pop: "valid t \<Longrightarrow> contents t \<noteq> [] \<Longrightarrow> valid (pop t) \<and> contents (pop t) = butlast (contents t)"
    and bound: "valid t \<Longrightarrow> length (contents t) \<le> cap"
begin

definition edit :: "edit \<Rightarrow> 't \<Rightarrow> 't" where
  "edit e t = (case e of
      Type c \<Rightarrow> if length (contents t) < cap then push c t else t
    | Erase \<Rightarrow> if contents t = [] then t else pop t)"

lemma edit_step:
  "valid t \<Longrightarrow> e \<noteq> Type 0 \<Longrightarrow> valid (edit e t) \<and> contents (edit e t) = spec_edit cap e (contents t)"
  using push pop by (cases e) (auto simp: edit_def)

lemma edit_refines:
  "valid t \<Longrightarrow> Type 0 \<notin> set es \<Longrightarrow>
    valid (fold edit es t) \<and> contents (fold edit es t) = fold (spec_edit cap) es (contents t)"
proof (induction es arbitrary: t)
  case (Cons e es)
  have v: "valid (edit e t)" "contents (edit e t) = spec_edit cap e (contents t)"
    using edit_step [of t e] Cons.prems by auto
  show ?case using Cons.IH [OF v(1)] Cons.prems(2) by (simp add: v(2))
qed simp

lemma edit_bound: "valid t \<Longrightarrow> Type 0 \<notin> set es \<Longrightarrow> length (contents (fold edit es t)) \<le> cap"
  using edit_refines bound by blast

end

definition line_ok :: "terminal_t \<Rightarrow> bool" where
  "line_ok t \<longleftrightarrow> length (keyboard_buffer t) = 128 \<and> 0 \<le> keyboard_buffer_size t \<and>
     keyboard_buffer_size t \<le> 126 \<and>
     (\<forall>j. nat (keyboard_buffer_size t) < j \<longrightarrow> j < 128 \<longrightarrow> keyboard_buffer t ! j = 0) \<and>
     0 \<notin> set (take (nat (keyboard_buffer_size t)) (keyboard_buffer t))"

definition line_of :: "terminal_t \<Rightarrow> u8 list" where
  "line_of t = take (nat (keyboard_buffer_size t)) (keyboard_buffer t)"

lemma length_line: "line_ok t \<Longrightarrow> length (line_of t) = nat (keyboard_buffer_size t)"
  by (auto simp: line_ok_def line_of_def min_def)

lemma line_push:
  assumes "line_ok t" "c \<noteq> 0" "length (line_of t) < 126"
  shows "line_ok (push_key c t) \<and> line_of (push_key c t) = line_of t @ [c]"
proof -
  let ?n = "nat (keyboard_buffer_size t)"
  have n: "?n < 126" "length (keyboard_buffer t) = 128" "nat (keyboard_buffer_size t + 1) = Suc ?n"
    "0 \<le> keyboard_buffer_size t"
    using assms length_line [OF assms(1)] by (auto simp: line_ok_def)
  then have "line_of (push_key c t) = line_of t @ [c]"
    by (simp add: line_of_def push_key_def store_key_def take_Suc_conv_app_nth)
  moreover from this have "line_ok (push_key c t)"
    using assms n by (auto simp: line_ok_def line_of_def push_key_def store_key_def nth_list_update)
  ultimately show ?thesis by blast
qed

lemma line_pop:
  assumes "line_ok t" "line_of t \<noteq> []"
  shows "line_ok (pop_key t) \<and> line_of (pop_key t) = butlast (line_of t)"
proof -
  let ?n = "nat (keyboard_buffer_size t)"
  have "keyboard_buffer_size t \<noteq> 0" using assms by (auto simp: line_of_def)
  then have n: "0 < ?n" "?n \<le> 126" "length (keyboard_buffer t) = 128"
    "nat (keyboard_buffer_size t - 1) = ?n - 1" "0 < keyboard_buffer_size t"
    using assms by (auto simp: line_ok_def)
  then have "line_of (pop_key t) = butlast (line_of t)"
    by (simp add: line_of_def pop_key_def store_key_def butlast_take)
  moreover from this have "line_ok (pop_key t)"
  proof -
    have "(keyboard_buffer t)[?n := 0] ! j = 0" if "?n - 1 < j" "j < 128" for j
      using that assms(1) n by (cases "j = ?n") (auto simp: line_ok_def)
    moreover have "0 \<notin> set (line_of (pop_key t))"
      using assms(1) \<open>line_of (pop_key t) = _\<close> by (auto simp: line_ok_def line_of_def dest: in_set_butlastD)
    ultimately show ?thesis using n by (auto simp: line_ok_def line_of_def pop_key_def store_key_def)
  qed
  ultimately show ?thesis by blast
qed

interpretation key_line: line_buffer line_ok line_of push_key pop_key 126
proof unfold_locales
  show "line_ok t \<Longrightarrow> length (line_of t) \<le> 126" for t
    using length_line [of t] by (auto simp: line_ok_def)
qed (simp_all only: line_push line_pop simp_thms)


text \<open>The keys as the terminal handles them are the edits of the displayed line.\<close>

definition tty_edit :: "edit \<Rightarrow> 'a tty_scheme \<Rightarrow> 'a tty_scheme" where
  "tty_edit e s = (case e of Type c \<Rightarrow> terminal_buf_add c s | Erase \<Rightarrow> terminal_backspace s)"

lemma line_full: "line_ok t \<Longrightarrow> keyboard_buffer_size t \<ge> 126 \<longleftrightarrow> \<not> length (line_of t) < 126"
  using length_line [of t] by (auto simp: line_ok_def)

lemma line_empty: "line_ok t \<Longrightarrow> keyboard_buffer_size t = 0 \<longleftrightarrow> line_of t = []"
  using length_line [of t] by (auto simp: line_ok_def)

lemma displayed_tty_edit:
  assumes "line_ok (displayed s)" "e \<noteq> Type 0x0A"
  shows "displayed (tty_edit e s) = key_line.edit e (displayed s)"
  using assms line_full [OF assms(1)] line_empty [OF assms(1)]
  by (cases e) (simp_all add: tty_edit_def key_line.edit_def terminal_buf_add_def
      terminal_backspace_def KEYBOARD_MAX_BUFFER_def Let_def)

lemma displayed_fold_tty_edit:
  "line_ok (displayed s) \<Longrightarrow> Type 0 \<notin> set es \<Longrightarrow> Type 0x0A \<notin> set es \<Longrightarrow>
    displayed (fold tty_edit es s) = fold key_line.edit es (displayed s)"
proof (induction es arbitrary: s)
  case (Cons e es)
  have d: "displayed (tty_edit e s) = key_line.edit e (displayed s)"
    using Cons.prems by (intro displayed_tty_edit) auto
  have "line_ok (key_line.edit e (displayed s))"
    using key_line.edit_step [of "displayed s" e] Cons.prems by auto
  then show ?case using Cons.IH [of "tty_edit e s"] Cons.prems d by simp
qed simp

subsection \<open>Reading a line\<close>

lemma upd_displayed_comp:
  "upd_displayed f (upd_displayed g s) = upd_displayed (f \<circ> g) s"
  by (simp add: upd_displayed_def displayed_def)

lemma upd_displayed_memory:
  "(upd_displayed g s)\<lparr>memory := m\<rparr> = upd_displayed g (s\<lparr>memory := m\<rparr>)"
  by (simp add: upd_displayed_def displayed_def)

lemma displayed_memory [simp]: "displayed (s\<lparr>memory := m\<rparr>) = displayed s"
  by (simp add: displayed_def)

text \<open>The state after \<open>i\<close> bytes have moved from the buffer \<open>B\<close> to \<open>buf\<close>.\<close>

definition moved :: "nat \<Rightarrow> addr \<Rightarrow> u8 list \<Rightarrow> 'a tty_scheme \<Rightarrow> 'a tty_scheme" where
  "moved i buf B s = upd_displayed (\<lambda>t. t\<lparr>keyboard_buffer := replicate i 0 @ drop i B\<rparr>)
     (s\<lparr>memory := put (memory s) buf (take i B)\<rparr>)"

lemma moved_turn:
  assumes "i < length B"
  shows "upd_displayed (\<lambda>t. t\<lparr>keyboard_buffer := (keyboard_buffer t)[i := 0]\<rparr>)
      ((moved i buf B s)\<lparr>memory := (memory (moved i buf B s))(buf + of_nat i := B ! i)\<rparr>) =
    moved (Suc i) buf B s"
proof -
  have m: "(put (memory s) buf (take i B))(buf + of_nat i := B ! i) = put (memory s) buf (take (Suc i) B)"
    using assms put_snoc [of "memory s" buf "take i B" "B ! i"]
    by (simp add: take_Suc_conv_app_nth)
  have b: "(replicate i 0 @ drop i B)[i := 0] = replicate (Suc i) 0 @ drop (Suc i) B"
  proof -
    have "drop i B = B ! i # drop (Suc i) B" using assms by (rule Cons_nth_drop_Suc [symmetric])
    then show ?thesis by (simp add: list_update_append replicate_append_same)
  qed
  have "memory (moved i buf B s) = put (memory s) buf (take i B)" by (simp add: moved_def)
  then show ?thesis
    unfolding moved_def
    by (simp only: upd_displayed_memory upd_displayed_comp m) (simp add: upd_displayed_def displayed_def b)
qed

lemma terminal_copy_turn:
  assumes "i < unat n" "i < length B"
  shows "terminal_copy i buf n j (moved i buf B s) =
    (if B ! i \<noteq> 0 then terminal_copy (Suc i) buf n (j + 1) (moved (Suc i) buf B s)
     else Some (j, moved (Suc i) buf B s))"
proof -
  let ?M = "moved i buf B s"
  have kb: "keyboard_buffer (displayed ?M) = replicate i 0 @ drop i B"
    by (simp add: moved_def)
  have c: "keyboard_buffer (displayed ?M) ! i = B ! i" "\<not> i \<ge> length (keyboard_buffer (displayed ?M))"
    using assms(2) unfolding kb by (simp_all add: nth_append)
  show ?thesis
    unfolding terminal_copy.simps [of i buf n j ?M] Let_def c(1) moved_turn [OF assms(2)]
    using assms(1) c(2) by (simp only: if_True if_False)
qed

lemma terminal_copy_spec:
  fixes B :: "u8 list"
  defines "str \<equiv> takeWhile (\<lambda>c. c \<noteq> 0) B"
  assumes nul: "length str < length B"
  shows "i \<le> min (unat n) (length str) \<Longrightarrow>
    terminal_copy i buf n (int i) (moved i buf B s) =
      Some (int (min (unat n) (length str)), moved (min (unat n) (Suc (length str))) buf B s)"
proof (induction "min (unat n) (length str) - i" arbitrary: i)
  case 0
  show ?case
  proof (cases "length str < unat n")
    case False
    then have "\<not> i < unat n" "i = unat n" using 0 by simp_all
    then show ?thesis using False by (subst terminal_copy.simps) simp
  next
    case True
    then have i: "i = length str" "i < unat n" using 0 by simp_all
    have "B ! length str = 0"
      using nth_length_takeWhile [of "\<lambda>c. c \<noteq> 0" B] nul by (simp add: str_def)
    then show ?thesis using i nul True by (simp add: terminal_copy_turn)
  qed
next
  case (Suc m)
  then have i: "i < unat n" "i < length str" by simp_all
  then have "B ! i = str ! i" unfolding str_def by (simp add: takeWhile_nth)
  moreover have "str ! i \<in> set str" using i(2) by (rule nth_mem)
  then have "str ! i \<noteq> 0" unfolding str_def by (rule set_takeWhileD [THEN conjunct2])
  ultimately have "B ! i \<noteq> 0" by metis
  moreover have "i < length B" "int i + 1 = int (Suc i)" using i nul by simp_all
  ultimately have "terminal_copy i buf n (int i) (moved i buf B s) =
      terminal_copy (Suc i) buf n (int (Suc i)) (moved (Suc i) buf B s)"
    using terminal_copy_turn [OF i(1), of B buf "int i" s] by (simp only: if_True simp_thms)
  then show ?case using Suc.hyps(1) [of "Suc i"] Suc.hyps(2) i by simp
qed


lemma terminal_spin_ready: "allow_terminal_read (displayed s) \<noteq> 0 \<Longrightarrow> terminal_spin hs s = Some (s, hs)"
  by (subst terminal_spin.simps) simp

lemma terminal_spin_SomeD:
  "terminal_spin hs s = Some (s', rest) \<Longrightarrow> allow_terminal_read (displayed s') \<noteq> 0"
proof (induction hs arbitrary: s)
  case Nil
  then show ?case by (subst (asm) terminal_spin.simps) (auto split: if_splits)
next
  case (Cons h hs)
  then show ?case
    by (subst (asm) (2) terminal_spin.simps) (auto split: if_splits option.splits bind_splits)
qed

lemma moved_0: "moved 0 buf (keyboard_buffer (displayed s)) s = s"
  by (simp add: moved_def upd_displayed_def displayed_def)

lemma line_takeWhile:
  assumes "line_ok t"
  shows "takeWhile (\<lambda>c. c \<noteq> 0) (keyboard_buffer t) =
      (if keyboard_buffer t ! nat (keyboard_buffer_size t) = 0 then line_of t
       else line_of t @ [keyboard_buffer t ! nat (keyboard_buffer_size t)])"
    and "length (takeWhile (\<lambda>c. c \<noteq> 0) (keyboard_buffer t)) < length (keyboard_buffer t)"
proof -
  let ?n = "nat (keyboard_buffer_size t)" and ?B = "keyboard_buffer t"
  have n: "?n \<le> 126" "length ?B = 128" using assms by (auto simp: line_ok_def)
  have nz: "0 \<notin> set (line_of t)" using assms by (simp add: line_ok_def line_of_def)
  have z: "?B ! Suc ?n = 0" using assms n by (simp add: line_ok_def)
  have split: "?B = line_of t @ ?B ! ?n # drop (Suc ?n) ?B"
    using n unfolding line_of_def by (simp add: id_take_nth_drop [symmetric])
  have "takeWhile (\<lambda>c. c \<noteq> 0) (drop (Suc ?n) ?B) = []"
    using z n by (cases "drop (Suc ?n) ?B") (auto simp: nth_via_drop)
  then show tw: "takeWhile (\<lambda>c. c \<noteq> 0) ?B = (if ?B ! ?n = 0 then line_of t else line_of t @ [?B ! ?n])"
    using nz by (subst split) (auto simp: takeWhile_append)
  show "length (takeWhile (\<lambda>c. c \<noteq> 0) ?B) < length ?B"
    using length_line [OF assms] n unfolding tw by auto
qed

lemma terminal_read_spec:
  fixes s :: "'a tty_scheme"
  assumes ok: "line_ok (displayed s)" and ready: "allow_terminal_read (displayed s) \<noteq> 0"
  defines "B \<equiv> keyboard_buffer (displayed s)"
  defines "str \<equiv> takeWhile (\<lambda>c. c \<noteq> 0) B"
  shows "\<exists>s'. terminal_read hs buf n s = Some (int (min (unat n) (length str)), s', hs) \<and>
    memory s' = put (memory s) buf (take (min (unat n) (Suc (length str))) B) \<and>
    displayed s' = (displayed s)\<lparr>keyboard_buffer := replicate (min (unat n) (Suc (length str))) 0 @
        drop (min (unat n) (Suc (length str))) B,
      keyboard_buffer_size := 0, allow_terminal_read := 0\<rparr> \<and> int_flag s'"
proof -
  let ?k = "min (unat n) (Suc (length str))"
  have c: "terminal_copy 0 buf n 0 (cli s) = Some (int (min (unat n) (length str)), moved ?k buf B (cli s))"
  proof -
    have d: "displayed (cli s) = displayed s" by (simp add: displayed_def cli_def)
    have "moved 0 buf B (cli s) = cli s" using moved_0 [of buf "cli s"] by (simp add: d B_def)
    then show ?thesis
      using terminal_copy_spec [of B 0 n buf "cli s"] line_takeWhile(2) [OF ok]
      by (simp add: B_def str_def)
  qed
  let ?s' = "sti (upd_displayed (\<lambda>t. t\<lparr>keyboard_buffer_size := 0, allow_terminal_read := 0\<rparr>)
    (moved ?k buf B (cli s)))"
  have "terminal_read hs buf n s = Some (int (min (unat n) (length str)), ?s', hs)"
    by (simp add: terminal_read_def terminal_spin_ready [OF ready] Let_def c)
  moreover have "memory ?s' = put (memory s) buf (take ?k B)" by (simp add: moved_def)
  moreover have "displayed ?s' = (displayed s)\<lparr>keyboard_buffer := replicate ?k 0 @ drop ?k B,
      keyboard_buffer_size := 0, allow_terminal_read := 0\<rparr>"
    by (simp add: moved_def displayed_def upd_displayed_def sti_def cli_def)
  moreover have "int_flag ?s'" by simp
  ultimately show ?thesis by blast
qed

subsection \<open>Switching preserves the task table\<close>

lemma paging_more_tty:
  fixes s t :: "'a tty_scheme"
  assumes "paging.more t = paging.more s"
  shows "boot_block t = boot_block s" "tasks_running t = tasks_running s" "task_slots t = task_slots s"
    "exception_death t = exception_death s" "pcbs t = pcbs s" "tss_ss0 t = tss_ss0 s"
    "tss_esp0 t = tss_esp0 s" "terminals t = terminals s"
    "display_terminal_id t = display_terminal_id s" "scan_state t = scan_state s" "tty.more t = tty.more s"
  using assms by (cases s; cases t; simp)+

lemmas setup_tty [simp] = paging_more_tty [OF setup_fields(4)]

lemma set_directory_screen:
  "screen_x (set_directory i v s) = screen_x s" "screen_y (set_directory i v s) = screen_y s"
  "ports (set_directory i v s) = ports s" "int_flag (set_directory i v s) = int_flag s"
  by (simp_all add: set_directory_def Let_def)

lemma setup_screen [simp]:
  "screen_x (syscall_paging_setup a s) = screen_x s" "screen_y (syscall_paging_setup a s) = screen_y s"
  "ports (syscall_paging_setup a s) = ports s" "int_flag (syscall_paging_setup a s) = int_flag s"
  by (simp_all add: syscall_paging_setup_def Let_def flush_TLB_def load_cr3_def set_directory_screen)

lemma tasks_ok_cong:
  fixes s t :: "'a task_scheme"
  assumes "task_slots t = task_slots s"
    and "\<And>i. i < 6 \<Longrightarrow> task_id (pcb_of i t) = task_id (pcb_of i s) \<and>
      task_id_child (pcb_of i t) = task_id_child (pcb_of i s) \<and>
      task_id_parent (pcb_of i t) = task_id_parent (pcb_of i s)"
  shows "tasks_ok t = tasks_ok s"
proof -
  have r: "running t = running s" using assms(1) by (simp add: running_def fun_eq_iff)
  have "tasks_ok t" if "tasks_ok s" "running t = running s"
      "\<And>i. i < 6 \<Longrightarrow> task_id (pcb_of i t) = task_id (pcb_of i s) \<and>
        task_id_child (pcb_of i t) = task_id_child (pcb_of i s) \<and>
        task_id_parent (pcb_of i t) = task_id_parent (pcb_of i s)"
      "task_slots t = task_slots s"
    for s t :: "'a task_scheme"
  proof -
    note h = that
    have e: "task_id (pcb_of i t) = task_id (pcb_of i s)"
      "task_id_child (pcb_of i t) = task_id_child (pcb_of i s)"
      "task_id_parent (pcb_of i t) = task_id_parent (pcb_of i s)" if "running s i" for i
      using h(3) running_less [OF that] by blast+
    show ?thesis
      using h(1) unfolding tasks_ok_def h(2,4) by (elim conjE) (intro conjI allI impI; simp add: e)
  qed
  from this [of s t] this [of t s] show ?thesis using assms r by auto
qed


text \<open>Only saved stack pointers change.\<close>

lemma upd_stack_fields:
  assumes "i < 6" "j < 6"
  shows "task_id (pcb_of j (upd_pcb i (\<lambda>p. p\<lparr>old_esp := a, old_ebp := b\<rparr>) s)) = task_id (pcb_of j s)"
    "task_id_child (pcb_of j (upd_pcb i (\<lambda>p. p\<lparr>old_esp := a, old_ebp := b\<rparr>) s)) = task_id_child (pcb_of j s)"
    "task_id_parent (pcb_of j (upd_pcb i (\<lambda>p. p\<lparr>old_esp := a, old_ebp := b\<rparr>) s)) = task_id_parent (pcb_of j s)"
  using assms by (simp_all add: pcb_of_upd)

lemma tasks_ok_upd_stack [inv_intros]:
  "i < 6 \<Longrightarrow> tasks_ok s \<Longrightarrow> tasks_ok (upd_pcb i (\<lambda>p. p\<lparr>old_esp := a, old_ebp := b\<rparr>) s)"
  by (subst tasks_ok_cong [of _ s]) (simp_all add: upd_stack_fields)

lemma tasks_ok_pcbs:
  fixes s t :: "'a task_scheme"
  shows
  "pcbs t = pcbs s \<Longrightarrow> task_slots t = task_slots s \<Longrightarrow> tasks_ok t = tasks_ok s"
  by (rule tasks_ok_cong) (simp_all add: pcb_of_def)

lemma running_slots:
  fixes s t :: "'a task_scheme"
  shows "task_slots t = task_slots s \<Longrightarrow> running t = running s"
  by (simp add: running_def fun_eq_iff)


definition tid_word :: "'a tty_scheme \<Rightarrow> u32" where
  "tid_word s = word_of_int (display_terminal_id s)"

definition saved_terminal :: "'a tty_scheme \<Rightarrow> terminal_t" where
  "saved_terminal s = (displayed s)\<lparr>cursor_pos_x := word_of_int (screen_x s),
     cursor_pos_y := word_of_int (screen_y s), terminal_buffer := load (memory s) VIDEO TERMINAL_SIZE\<rparr>"

lemma find_bottom_task_cong:
  fixes s t :: "'a task_scheme"
  assumes "tasks_ok s" "running s i" "i < 3" "pcbs t = pcbs s" "task_slots t = task_slots s"
  shows "find_bottom_task i t = find_bottom_task i s"
proof -
  have p: "pcb_of j t = pcb_of j s" for j using assms(4) by (simp add: pcb_of_def)
  have c: "child_chain t i n = child_chain s i n" for n by (simp add: child_chain_def p)
  have nc: "no_child t j = no_child s j" for j by (simp add: no_child_def p)
  obtain n where n: "no_child s (child_chain s i n)" "\<forall>k < n. \<not> no_child s (child_chain s i k)"
    using chain_ends [OF assms(1-3)] by blast
  have "bottom_from i t = Some (get_pcb (child_chain s i n))"
    using bottom_from_steps [of n t i] n unfolding c nc by blast
  then show ?thesis
    using bottom_from_steps [OF n(2,1)] assms(4,5) by (simp add: find_bottom_task_def)
qed

lemma switch_display_terminal_spec:
  fixes s :: "'a tty_scheme"
  assumes ok: "tasks_ok s" and tid: "tid < 3" "running s tid" and ne: "tid_word s \<noteq> tid"
    and d: "tid_word s < 6"
  shows "\<exists>s' b. switch_display_terminal r tid s = Some s' \<and> find_bottom_task tid s = Some b \<and>
    running s b \<and> no_child s b \<and> in_chain s tid b \<and>
    display_terminal_id s' = int (unat tid) \<and>
    terminals s' = (terminals s)(display_terminal_id s := saved_terminal (syscall_paging_setup (task_frame b) s)) \<and>
    memory s' = put (memory (syscall_paging_setup (task_frame b) s)) VIDEO
      (terminal_buffer (terminals s' (int (unat tid)))) \<and>
    screen_x s' = sint (cursor_pos_x (terminals s' (int (unat tid)))) \<and>
    screen_y s' = sint (cursor_pos_y (terminals s' (int (unat tid)))) \<and>
    tasks_ok s' \<and> task_slots s' = task_slots s \<and> tasks_running s' = b \<and> current_ok s' \<and>
    scan_state s' = scan_state s \<and> ports s' = ports s \<and> int_flag s' = int_flag s \<and>
    tss_ss0 s' = KERNEL_DS \<and> tss_esp0 s' = eightM - eightK * b - 4"
proof -
  obtain b where b: "find_bottom_task tid s = Some b" "running s b" "no_child s b" "in_chain s tid b"
    using find_bottom_task_correct [OF ok tid(2,1)] by blast
  define s1 where "s1 = syscall_paging_setup (eightM + fourM * b) s"
  define s3 where "s3 = upd_displayed (\<lambda>t. t\<lparr>terminal_buffer := load (memory (cpy_screen_pos s1)) VIDEO TERMINAL_SIZE\<rparr>)
    (cpy_screen_pos s1)"
  define s4 where "s4 = s3\<lparr>tss_ss0 := KERNEL_DS, tss_esp0 := eightM - eightK * b - 4\<rparr>"
  define s5 where "s5 = s4\<lparr>display_terminal_id := int (unat tid)\<rparr>"
  define s6 where "s6 = s5\<lparr>memory := put (memory s5) VIDEO (terminal_buffer (displayed s5))\<rparr>"
  define s7 where "s7 = setScreenPos (sint (cursor_pos_x (displayed s6))) (sint (cursor_pos_y (displayed s6))) s6"
  define s8 where "s8 = s7\<lparr>tasks_running := b\<rparr>"
  define s9 where "s9 = upd_pcb (tid_word s) (\<lambda>p. p\<lparr>old_esp := reg_esp r, old_ebp := reg_ebp r\<rparr>) s8"
  define s10 where "s10 = upd_pcb tid (\<lambda>p. p\<lparr>old_esp := out_esp r, old_ebp := out_ebp r\<rparr>) s9"
  have fr: "eightM + fourM * b = task_frame b" by (simp add: task_frame_def mult.commute)
  have s3: "s3 = s1\<lparr>terminals := (terminals s)(display_terminal_id s := saved_terminal s1)\<rparr>"
    by (simp add: s3_def s1_def upd_displayed_def cpy_screen_pos_def displayed_def saved_terminal_def)
  have p3: "pcbs s3 = pcbs s" "task_slots s3 = task_slots s"
    unfolding s3 by (simp_all add: s1_def)
  have p7: "pcbs s7 = pcbs s" "task_slots s7 = task_slots s"
    using p3 by (simp_all add: s7_def s6_def s5_def s4_def setScreenPos_def)
  have f: "find_bottom_task tid s3 = Some b" "find_bottom_task tid s7 = Some b"
    using find_bottom_task_cong [OF ok tid(2,1) p3] find_bottom_task_cong [OF ok tid(2,1) p7] b(1)
    by (simp_all only:)
  have nb: "b \<noteq> -1" using running_less [OF b(2)] by (rule small_not_minus_one(1))
  have sw: "switch_running_task tid s7 = Some (0, s8)"
    using f(2) nb by (simp add: switch_running_task_def s8_def)
  have c: "\<not> (tid_word s = tid \<or> tid > 2)"
    using ne tid(1) by (auto simp: word_less_nat_alt)
  have t1: "tid_word s1 = tid_word s" by (simp add: tid_word_def s1_def)
  have run: "switch_display_terminal r tid s = Some s10"
    unfolding switch_display_terminal_def
    by (simp only: c t1 if_False b(1) Option.bind.simps f(1) sw prod.case Let_def
        s1_def [symmetric] s3_def [symmetric] s4_def [symmetric] s5_def [symmetric] s6_def [symmetric]
        s7_def [symmetric] tid_word_def [symmetric] s9_def [symmetric] s10_def [symmetric])
  have s1s: "s1 = syscall_paging_setup (task_frame b) s" by (simp only: s1_def fr)
  have T: "terminals s7 = (terminals s)(display_terminal_id s := saved_terminal s1)"
    by (simp add: s7_def s6_def s5_def s4_def s3 setScreenPos_def)
  have f7: "display_terminal_id s7 = int (unat tid)" "scan_state s7 = scan_state s" "ports s7 = ports s"
    "int_flag s7 = int_flag s" "tss_ss0 s7 = KERNEL_DS" "tss_esp0 s7 = eightM - eightK * b - 4"
    by (simp_all add: s7_def s6_def s5_def s4_def s3 s1_def setScreenPos_def)
  have v7: "memory s7 = put (memory s1) VIDEO (terminal_buffer (terminals s7 (int (unat tid))))"
    "screen_x s7 = sint (cursor_pos_x (terminals s7 (int (unat tid))))"
    "screen_y s7 = sint (cursor_pos_y (terminals s7 (int (unat tid))))"
    unfolding T by (simp_all add: s7_def s6_def s5_def s4_def s3 setScreenPos_def displayed_def)
  have ok8: "tasks_ok s8" "task_slots s8 = task_slots s"
    using ok tasks_ok_pcbs [of s8 s] p7 by (simp_all add: s8_def)
  have ok10: "tasks_ok s10"
    unfolding s10_def s9_def using tid(1) d ok8(1)
    by (intro tasks_ok_upd_stack) (auto simp: word_less_nat_alt)
  have f10: "s10 = s8\<lparr>pcbs := pcbs s10\<rparr>" by (simp add: s10_def s9_def upd_pcb_def)
  have r10: "running s10 = running s"
    by (rule running_slots) (simp add: s10_def s9_def ok8(2))
  have c10: "task_id_child (pcb_of b s10) = -1"
  proof -
    have "task_id_child (pcb_of b s10) = task_id_child (pcb_of b s8)"
      unfolding s10_def s9_def using tid(1) d running_less [OF b(2)]
      by (simp add: upd_stack_fields word_less_nat_alt)
    also have "\<dots> = task_id_child (pcb_of b s)" using p7 by (simp add: s8_def pcb_of_def)
    finally show ?thesis using b(3) by (simp add: no_child_def)
  qed
  have t10: "tasks_running s10 = b" "terminals s10 = terminals s7" "display_terminal_id s10 = display_terminal_id s7"
    "memory s10 = memory s7" "screen_x s10 = screen_x s7" "screen_y s10 = screen_y s7"
    "scan_state s10 = scan_state s7" "ports s10 = ports s7" "int_flag s10 = int_flag s7"
    "tss_ss0 s10 = tss_ss0 s7" "tss_esp0 s10 = tss_esp0 s7" "task_slots s10 = task_slots s"
    using ok8(2) by (simp_all add: s10_def s9_def upd_pcb_def s8_def)
  show ?thesis
  proof (intro exI conjI)
    show "switch_display_terminal r tid s = Some s10" by (rule run)
    show "find_bottom_task tid s = Some b" "running s b" "no_child s b" "in_chain s tid b" by (rule b)+
    show "tasks_ok s10" by (rule ok10)
    show "current_ok s10" using t10(1) r10 b(2) c10 by (simp add: current_ok_def)
  qed (simp_all only: t10 T f7 v7 s1s [symmetric])
qed

lemma switch_running_task_frame:
  fixes s :: "'a tty_scheme"
  shows "switch_running_task t s = Some (x, s') \<Longrightarrow> ports s' = ports s \<and> scan_state s' = scan_state s"
  by (auto simp: switch_running_task_def split: bind_splits if_splits)

lemma upd_pcb_screen [simp]:
  fixes s :: "'a tty_scheme"
  shows "ports (upd_pcb i f s) = ports s" "int_flag (upd_pcb i f s) = int_flag s"
    "terminals (upd_pcb i f s) = terminals s" "display_terminal_id (upd_pcb i f s) = display_terminal_id s"
    "scan_state (upd_pcb i f s) = scan_state s" "screen_x (upd_pcb i f s) = screen_x s"
    "screen_y (upd_pcb i f s) = screen_y s"
  by (simp_all add: upd_pcb_def)

lemma setScreenPos_tty [simp]:
  fixes s :: "'a tty_scheme"
  shows "ports (setScreenPos x y s) = ports s" "scan_state (setScreenPos x y s) = scan_state s"
    "terminals (setScreenPos x y s) = terminals s" "display_terminal_id (setScreenPos x y s) = display_terminal_id s"
  by (simp_all add: setScreenPos_def)

lemma upd_displayed_ports [simp]: "ports (upd_displayed f s) = ports s"
  by (simp add: upd_displayed_def)

lemma cpy_screen_pos_frame [simp]:
  "ports (cpy_screen_pos s) = ports s" "scan_state (cpy_screen_pos s) = scan_state s"
  by (simp_all add: cpy_screen_pos_def)

text \<open>A terminal switch leaves the ports and the keys alone, whatever the task table looks like.\<close>

lemma switch_display_terminal_frame:
  assumes "switch_display_terminal r tid s = Some s'"
  shows "ports s' = ports s \<and> scan_state s' = scan_state s"
proof (cases "word_of_int (display_terminal_id s) = tid \<or> tid > 2")
  case True
  then show ?thesis using assms by (auto simp: switch_display_terminal_def)
next
  case False
  then obtain b where b: "find_bottom_task tid s = Some b"
    using assms by (cases "find_bottom_task tid s") (simp_all add: switch_display_terminal_def)
  define s1 where "s1 = syscall_paging_setup (eightM + fourM * b) s"
  define s3 where "s3 = upd_displayed (\<lambda>t. t\<lparr>terminal_buffer := load (memory (cpy_screen_pos s1)) VIDEO TERMINAL_SIZE\<rparr>)
    (cpy_screen_pos s1)"
  note eq = assms [unfolded switch_display_terminal_def if_not_P [OF False] b Option.bind.simps]
  obtain b' where b': "find_bottom_task tid s3 = Some b'"
    using eq by (cases "find_bottom_task tid s3")
      (simp_all only: Let_def s1_def [symmetric] s3_def [symmetric] Option.bind.simps option.distinct)
  define s4 where "s4 = s3\<lparr>tss_ss0 := KERNEL_DS, tss_esp0 := eightM - eightK * b' - 4\<rparr>"
  define s5 where "s5 = s4\<lparr>display_terminal_id := int (unat tid)\<rparr>"
  define s6 where "s6 = s5\<lparr>memory := put (memory s5) VIDEO (terminal_buffer (displayed s5))\<rparr>"
  define s7 where "s7 = setScreenPos (sint (cursor_pos_x (displayed s6))) (sint (cursor_pos_y (displayed s6))) s6"
  note eq' = eq [unfolded Let_def, folded s1_def, folded s3_def, unfolded b' Option.bind.simps,
    folded s4_def, folded s5_def, folded s6_def, folded s7_def]
  have s3f: "ports s3 = ports s" "scan_state s3 = scan_state s"
    by (simp_all add: s3_def s1_def)
  have s7f: "ports s7 = ports s" "scan_state s7 = scan_state s"
    using s3f by (simp_all add: s7_def s6_def s5_def s4_def)
  obtain x u where u: "switch_running_task tid s7 = Some (x, u)"
      "s' = upd_pcb tid (\<lambda>p. p\<lparr>old_esp := out_esp r, old_ebp := out_ebp r\<rparr>)
        (upd_pcb (word_of_int (display_terminal_id s1)) (\<lambda>p. p\<lparr>old_esp := reg_esp r, old_ebp := reg_ebp r\<rparr>) u)"
    using eq' by (cases "switch_running_task tid s7") (auto split: prod.splits)
  then show ?thesis using switch_running_task_frame [OF u(1)] s7f by simp
qed


subsection \<open>The keyboard interrupt\<close>

lemma record_key_frame [simp]:
  "ports (record_key p s) = ports s" "displayed (record_key p s) = displayed s"
  "memory (record_key p s) = memory s"
  by (simp_all add: record_key_def set_key_def displayed_def Let_def)

lemma terminal_edit_frame:
  "ports (terminal_buf_add c s) = ports s" "scan_state (terminal_buf_add c s) = scan_state s"
  "ports (terminal_backspace s) = ports s" "scan_state (terminal_backspace s) = scan_state s"
  "ports (clear_screen s) = ports s" "scan_state (clear_screen s) = scan_state s"
proof -
  have p: "ports (putc c s) = ports s" for c and s :: "'b tty_scheme"
    using screen_only_fields [OF screen_only_putc] by blast
  have b: "ports (back_space s) = ports s" for s :: "'b tty_scheme" by (simp add: back_space_def)
  show "ports (terminal_buf_add c s) = ports s" "scan_state (terminal_buf_add c s) = scan_state s"
    by (simp_all add: terminal_buf_add_def p)
  show "ports (terminal_backspace s) = ports s" "scan_state (terminal_backspace s) = scan_state s"
    by (simp_all add: terminal_backspace_def p b Let_def)
  show "ports (clear_screen s) = ports s"
    using screen_only_fields [OF screen_only_clear [of s]] by (simp add: clear_screen_def reset_position_def)
  show "scan_state (clear_screen s) = scan_state s"
    using screen_only_tty [OF screen_only_clear [of s]] by (simp add: clear_screen_def reset_position_def)
qed

lemma dispatch_key_frame:
  "dispatch_key r p s = Some s' \<Longrightarrow> ports s' = ports s \<and> scan_state s' = scan_state s"
  using switch_display_terminal_frame
  by (auto simp: dispatch_key_def Let_def terminal_edit_frame split: if_splits)

lemma send_eoi_tty [simp]:
  fixes s :: "'a tty_scheme"
  shows "scan_state (send_eoi i s) = scan_state s" "displayed (send_eoi i s) = displayed s"
  by (simp_all add: send_eoi_def outb_def displayed_def)

lemma record_key_caps:
  assumes "scan_state s CapsLock = 0" "p \<le> 0xBD" "p \<le> 0x3D \<or> 0x81 \<le> p"
  shows "scan_state (record_key p s) CapsLock = 0"
proof -
  have "p - 0x80 \<noteq> 0x3A" if "p \<noteq> 0xBA" "\<not> p \<le> 0x3D" using that assms(3) by simp
  then show ?thesis
    using assms by (auto simp: record_key_def set_key_def key_consts Let_def)
qed

lemma keyboard_key_frame:
  assumes "keyboard_key r p s = Some s'"
  shows "ports s' = ports s @ [(0x20, 0x61)] \<and>
    (scan_state s CapsLock = 0 \<longrightarrow> scan_state s' CapsLock = 0)"
proof -
  have e: "ports (send_eoi KEYBOARD_IRQ_NUM t) = ports t @ [(0x20, 0x61)]" for t :: "'a tty_scheme"
    by (simp add: send_eoi_ports KEYBOARD_IRQ_NUM_def)
  show ?thesis
  proof (cases "p > 0xBD \<or> p > 0x3D \<and> p < 0x81")
    case True
    then have "s' = send_eoi KEYBOARD_IRQ_NUM s" using assms by (auto simp: keyboard_key_def split: if_splits)
    then show ?thesis using e by simp
  next
    case False
    then have range: "unat p \<le> 0xBD" "unat p \<le> 0x3D \<or> 0x81 \<le> unat p"
      by (auto simp: word_less_nat_alt)
    obtain t where t: "dispatch_key r (unat p) (record_key (unat p) s) = Some t"
        "s' = send_eoi KEYBOARD_IRQ_NUM t"
      using assms False
      by (cases "dispatch_key r (unat p) (record_key (unat p) s)") (auto simp: keyboard_key_def)
    show ?thesis
      using dispatch_key_frame [OF t(1)] record_key_caps [of s, OF _ range] by (simp add: t(2) e)
  qed
qed


subsection \<open>Properties\<close>

lemma line_after_enter:
  assumes "line_ok t" "length (line_of t) < 126"
  shows "line_ok (push_key 0x0A t)" "line_of (push_key 0x0A t) = line_of t @ [0x0A]"
    "takeWhile (\<lambda>c. c \<noteq> 0) (keyboard_buffer (push_key 0x0A t)) = line_of t @ [0x0A]"
proof -
  show ok: "line_ok (push_key 0x0A t)" and l: "line_of (push_key 0x0A t) = line_of t @ [0x0A]"
    using line_push [OF assms(1) _ assms(2), of "0x0A"] by simp_all
  have "keyboard_buffer (push_key 0x0A t) ! nat (keyboard_buffer_size (push_key 0x0A t)) = 0"
    using assms length_line [OF assms(1)]
    by (auto simp: push_key_def store_key_def line_ok_def nat_add_distrib)
  then show "takeWhile (\<lambda>c. c \<noteq> 0) (keyboard_buffer (push_key 0x0A t)) = line_of t @ [0x0A]"
    using line_takeWhile(1) [OF ok] l by simp
qed

text \<open>
  A small machine for the concrete instances: the three base shells run, terminal 0 is
  displayed, no key is held, the file system is \<open>demo_image\<close>.
\<close>

definition demo_pcb :: "u32 \<Rightarrow> u32 \<Rightarrow> pcb" where
  "demo_pcb i parent = \<lparr>fd = replicate 8 empty_fd, file_name = replicate 33 0, task_id = i,
     task_id_child = -1, task_id_parent = parent, old_ebp = 0, old_esp = 0, old_eip = 0,
     argument_buf = replicate 129 0\<rparr>"

definition demo_terminal :: terminal_t where
  "demo_terminal = \<lparr>keyboard_buffer = replicate 128 0, cursor_pos_x = 0, cursor_pos_y = 0,
     keyboard_buffer_size = 0, allow_terminal_read = 0, terminal_buffer = replicate 4000 0,
     term_ebp = 0, term_esp = 0\<rparr>"

definition demo_tty :: tty where
  "demo_tty = \<lparr>memory = demo_image, ports = [], int_flag = True, master_mask = 0, slave_mask = 0,
     virt_freq = 2, rtc_inter_count = 0, screen_x = 3, screen_y = 4, page_directory = \<lambda>_. 0,
     page_table = \<lambda>_. 0, video_page = \<lambda>_. 0, cr0 = 0, cr3 = 0, cr4 = 0, tlb = \<lambda>_. None,
     frames = \<lambda>_. 0, boot_block = 0x100000, tasks_running = 0, task_slots = [1, 1, 1, 0, 0, 0],
     exception_death = 0,
     pcbs = (\<lambda>a. demo_pcb (if a = get_pcb 0 then 0 else if a = get_pcb 1 then 1 else 2) (-1)),
     tss_ss0 = 0x18, tss_esp0 = 0x7FFFFC, terminals = \<lambda>_. demo_terminal,
     display_terminal_id = 0, scan_state = \<lambda>_. 0\<rparr>"

lemma demo_line [simp]: "line_ok (displayed demo_tty)" "line_of (displayed demo_tty) = []"
  by (simp_all add: demo_tty_def displayed_def demo_terminal_def line_ok_def line_of_def)

lemma demo_running: "running demo_tty i \<longleftrightarrow> i \<in> {0, 1, 2}"
proof -
  have "i < 6 \<longleftrightarrow> unat i \<in> {0, 1, 2, 3, 4, 5}" by (auto simp: word_less_nat_alt)
  then show ?thesis by (auto simp: running_def demo_tty_def word_unat_eq_iff nth_Cons split: nat.splits)
qed

lemma demo_tasks_ok: "tasks_ok demo_tty"
proof -
  have "pcb_of i demo_tty = demo_pcb i (-1)" if "running demo_tty i" for i
    using that [unfolded demo_running] get_pcb_inj [of 0 1] get_pcb_inj [of 0 2] get_pcb_inj [of 1 2]
    by (auto simp: pcb_of_def demo_tty_def)
  moreover have "\<not> 3 \<le> i" if "running demo_tty i" for i
    using that by (auto simp: demo_running word_le_nat_alt)
  ultimately show ?thesis by (auto simp: tasks_ok_def demo_pcb_def) (simp add: demo_tty_def)
qed

text \<open>C31: What a program reads is the line the user edited: from a terminal with an empty line,
  after any keys and backspaces and then Enter, \<open>terminal_read\<close> with room for the line
  returns its length, puts exactly the edited text and the newline in the caller's buffer,
  and leaves the terminal with an empty line and no completed one. A character beyond 126
  and a backspace on an empty line change nothing.\<close>
theorem edited_line_is_read:
  fixes s :: "'a tty_scheme"
  assumes "line_ok (displayed s)" "line_of (displayed s) = []"
    and "Type 0 \<notin> set es" "Type 0x0A \<notin> set es"
    and "length (fold (spec_edit 126) es []) < 126"
    and "length (fold (spec_edit 126) es []) < unat n"
  shows "\<exists>s'. terminal_read hs buf n (terminal_buf_add 0x0A (fold tty_edit es s)) =
      Some (int (length (fold (spec_edit 126) es []) + 1), s', hs) \<and>
    load (memory s') buf (length (fold (spec_edit 126) es []) + 1) = fold (spec_edit 126) es [] @ [0x0A] \<and>
    line_ok (displayed s') \<and> line_of (displayed s') = [] \<and> allow_terminal_read (displayed s') = 0"
proof -
  let ?l = "fold (spec_edit 126) es []"
  let ?t = "fold key_line.edit es (displayed s)"
  let ?s1 = "terminal_buf_add 0x0A (fold tty_edit es s)"
  have t: "displayed (fold tty_edit es s) = ?t" using assms(1,3,4) by (rule displayed_fold_tty_edit)
  have ok: "line_ok ?t" "line_of ?t = ?l"
    using key_line.edit_refines [OF assms(1,3)] assms(2) by simp_all
  have d: "displayed ?s1 = (push_key 0x0A ?t)\<lparr>allow_terminal_read := 1\<rparr>"
    using line_full [OF ok(1)] ok(2) assms(5) by (simp add: terminal_buf_add_def KEYBOARD_MAX_BUFFER_def t)
  have enter: "line_ok (push_key 0x0A ?t)" "takeWhile (\<lambda>c. c \<noteq> 0) (keyboard_buffer (push_key 0x0A ?t)) = ?l @ [0x0A]"
    using line_after_enter [OF ok(1)] ok(2) assms(5) by simp_all
  have ok1: "line_ok (displayed ?s1)" "allow_terminal_read (displayed ?s1) \<noteq> 0"
    using enter(1) unfolding d by (simp_all add: line_ok_def)
  let ?B = "keyboard_buffer (push_key 0x0A ?t)"
  let ?k = "min (unat n) (Suc (length (?l @ [0x0A])))"
  obtain s' where s': "terminal_read hs buf n ?s1 = Some (int (min (unat n) (length (?l @ [0x0A]))), s', hs)"
    "memory s' = put (memory ?s1) buf (take ?k ?B)"
    "displayed s' = (displayed ?s1)\<lparr>keyboard_buffer := replicate ?k 0 @ drop ?k ?B,
       keyboard_buffer_size := 0, allow_terminal_read := 0\<rparr>"
    using terminal_read_spec [OF ok1, of hs buf n] unfolding d by (auto simp: enter(2))
  let ?m = "Suc (length ?l)"
  have lenB: "length ?B = 128" "nat (keyboard_buffer_size (push_key 0x0A ?t)) = ?m"
    using enter(1) length_line [OF ok(1)] ok
    by (auto simp: line_ok_def push_key_def store_key_def nat_add_distrib)
  have k: "?m \<le> ?k" "?k \<le> 128" "?m < 128" using assms(5,6) by simp_all
  have pre: "take ?m ?B = ?l @ [0x0A]"
    using takeWhile_eq_take [of "\<lambda>c. c \<noteq> 0" ?B] enter(2) by simp
  have "load (memory s') buf ?m = take ?m (take ?k ?B)"
    unfolding s'(2) using k lenB
    by (intro nth_equalityI) (simp_all add: put_inside)
  then have ld: "load (memory s') buf ?m = ?l @ [0x0A]"
    using pre k by (simp only: take_take) (simp add: min_absorb1)
  have z: "?B ! j = 0" if "?m \<le> j" "j < 128" for j
  proof (cases "j = ?m")
    case True
    then show ?thesis
      using nth_length_takeWhile [of "\<lambda>c. c \<noteq> 0" ?B] enter(2) lenB(1) k by simp
  next
    case False
    then show ?thesis using enter(1) that lenB(2) by (simp add: line_ok_def)
  qed
  then have "(replicate ?k 0 @ drop ?k ?B) ! j = 0" if "j < 128" for j
    using that k lenB(1) by (auto simp: nth_append)
  then have "line_ok (displayed s')" "line_of (displayed s') = []" "allow_terminal_read (displayed s') = 0"
    unfolding s'(3) using k lenB(1) by (simp_all add: line_ok_def line_of_def)
  then show ?thesis using s'(1) ld assms(6) by auto
qed


lemma edited_line_is_read_witness:
  "\<exists>s'. terminal_read [] 0x1000 128 (terminal_buf_add 0x0A
      (fold tty_edit [Type 0x6C, Type 0x78, Erase, Type 0x73] demo_tty)) = Some (3, s', []) \<and>
    load (memory s') 0x1000 3 = [0x6C, 0x73, 0x0A]"
  using edited_line_is_read [of demo_tty "[Type 0x6C, Type 0x78, Erase, Type 0x73]" 128 "[]" "0x1000"]
  by (auto simp: numeral_3_eq_3)

text \<open>A read with too little room returns as many bytes as fit but does not keep the rest of
  the line: the buffer counts as empty while the unread bytes stay in it behind zeros, so
  they resurface behind the next line typed when that is long enough to reach them.\<close>
theorem short_read_leaves_bytes:
  fixes s :: "'a tty_scheme"
  assumes "line_ok (displayed s)" "allow_terminal_read (displayed s) \<noteq> 0"
    and "unat n < length (line_of (displayed s))"
  shows "\<exists>s'. terminal_read hs buf n s = Some (int (unat n), s', hs) \<and>
    load (memory s') buf (unat n) = take (unat n) (line_of (displayed s)) \<and>
    line_of (displayed s') = [] \<and>
    keyboard_buffer (displayed s') = replicate (unat n) 0 @ drop (unat n) (keyboard_buffer (displayed s)) \<and>
    keyboard_buffer (displayed s') ! unat n \<noteq> 0"
proof -
  let ?B = "keyboard_buffer (displayed s)" and ?l = "line_of (displayed s)"
  let ?str = "takeWhile (\<lambda>c. c \<noteq> 0) ?B"
  have str: "take (length ?l) ?str = ?l" "length ?l \<le> length ?str"
    using line_takeWhile(1) [OF assms(1)] by (auto split: if_splits)
  have len: "length ?l \<le> 126" "length ?B = 128" using assms(1) length_line by (auto simp: line_ok_def)
  have m: "min (unat n) (length ?str) = unat n" "min (unat n) (Suc (length ?str)) = unat n"
    using assms(3) str(2) by simp_all
  obtain s' where s': "terminal_read hs buf n s = Some (int (unat n), s', hs)"
    "memory s' = put (memory s) buf (take (unat n) ?B)"
    "displayed s' = (displayed s)\<lparr>keyboard_buffer := replicate (unat n) 0 @ drop (unat n) ?B,
       keyboard_buffer_size := 0, allow_terminal_read := 0\<rparr>"
    using terminal_read_spec [OF assms(1,2), of hs buf n] unfolding m by blast
  have l: "take (unat n) ?B = take (unat n) ?l"
    using assms(3) len unfolding line_of_def by (auto simp: min_def split: if_splits)
  have "length (take (unat n) ?B) = unat n" using assms(3) len by simp
  then have "load (memory s') buf (unat n) = take (unat n) ?l"
    using load_put [of "take (unat n) ?B" "memory s" buf] unfolding s'(2) l
    by simp
  moreover have "?B ! unat n \<noteq> 0"
  proof -
    have "?l ! unat n = ?B ! unat n" using assms(3) by (simp add: line_of_def)
    moreover have "0 \<notin> set ?l" using assms(1) by (simp add: line_ok_def line_of_def)
    ultimately show ?thesis using assms(3) nth_mem by metis
  qed
  ultimately show ?thesis
    using s'(1) assms(3) len unfolding s'(3) by (intro exI [of _ s']) (simp add: s'(3) line_of_def nth_append)
qed


lemma short_read_leaves_bytes_witness:
  "\<exists>(s :: tty) s'. terminal_read [] 0x1000 1 s = Some (1, s', []) \<and>
    keyboard_buffer (displayed s') ! 1 \<noteq> 0"
proof -
  let ?t = "demo_terminal\<lparr>keyboard_buffer := [0x61, 0x0A] @ replicate 126 0,
    keyboard_buffer_size := 2, allow_terminal_read := 1\<rparr>"
  have l: "line_ok ?t" "line_of ?t = [0x61, 0x0A]"
    by (auto simp: line_ok_def line_of_def demo_terminal_def nth_Cons split: nat.splits)
  have "displayed (upd_displayed (\<lambda>_. ?t) demo_tty) = ?t" by simp
  then show ?thesis
    using short_read_leaves_bytes [of "upd_displayed (\<lambda>_. ?t) demo_tty" 1 "[]" "0x1000"] l by auto
qed

text \<open>Interrupts one after another.\<close>

fun run_keys :: "regs \<Rightarrow> u32 list \<Rightarrow> 'a tty_scheme \<Rightarrow> 'a tty_scheme option" where
  "run_keys r [] s = Some s"
| "run_keys r (p # ps) s = do { s \<leftarrow> keyboard_key r p s; run_keys r ps s }"

lemma run_keys_frame:
  fixes s :: "'a tty_scheme"
  shows "run_keys r ps s = Some s' \<Longrightarrow> ports s' = ports s @ replicate (length ps) (0x20, 0x61) \<and>
    (scan_state s CapsLock = 0 \<longrightarrow> scan_state s' CapsLock = 0)"
proof (induction ps arbitrary: s)
  case (Cons p ps)
  then obtain t where t: "keyboard_key r p s = Some t" "run_keys r ps t = Some s'"
    by (cases "keyboard_key r p s") simp_all
  show ?case
    using keyboard_key_frame [OF t(1)] Cons.IH [OF t(2)] by simp
qed simp

text \<open>Every keyboard interrupt is acknowledged, exactly once, whatever the scan code: after any
  sequence of them the controller has received one end-of-interrupt for line 1 each and
  nothing else.\<close>
theorem keys_acknowledged:
  fixes s :: "'a tty_scheme"
  assumes "run_keys r ps s = Some s'"
  shows "ports s' = ports s @ replicate (length ps) (MASTER_8259_PORT, ucast (EOI OR KEYBOARD_IRQ_NUM))"
  using run_keys_frame [OF assms] by (simp add: MASTER_8259_PORT_def EOI_def KEYBOARD_IRQ_NUM_def)

lemma replicate_two: "replicate (length [x, y]) z = [z, z]"
  by simp

lemma keys_acknowledged_witness:
  "\<forall>r. \<exists>s'. run_keys r [0xFF, 0x50] demo_tty = Some s' \<and> ports s' = [(0x20, 0x61), (0x20, 0x61)]"
proof
  fix r
  have "run_keys r [0xFF, 0x50] demo_tty =
      Some (send_eoi KEYBOARD_IRQ_NUM (send_eoi KEYBOARD_IRQ_NUM demo_tty))"
    by (simp add: keyboard_key_def)
  then obtain s' where s': "run_keys r [0xFF, 0x50] demo_tty = Some s'" by blast
  have "ports demo_tty = []" by (simp add: demo_tty_def)
  then have "ports s' = [(0x20, 0x61), (0x20, 0x61)]"
    using keys_acknowledged [OF s'] by (simp only: replicate_two MASTER_8259_PORT_def EOI_def KEYBOARD_IRQ_NUM_def append_Nil) simp
  with s' show "\<exists>s'. run_keys r [0xFF, 0x50] demo_tty = Some s' \<and> ports s' = [(0x20, 0x61), (0x20, 0x61)]"
    by blast
qed

text \<open>C32: Caps lock never turns on: a press of the key first marks it as pressed and the toggle
  that follows clears the mark again, so from a state with caps lock off no sequence of
  interrupts turns it on, and the character of a key is decided by shift alone.\<close>
theorem caps_lock_never_on:
  fixes s :: "'a tty_scheme"
  assumes "scan_state s CapsLock = 0" "run_keys r ps s = Some s'"
  shows "scan_state s' CapsLock = 0 \<and>
    key_char k s' = (if shift_held s' then scan_shift k else scan_plain k)"
  using run_keys_frame [OF assms(2)] assms(1) by (simp add: key_char_def)


lemma caps_lock_never_on_witness:
  "\<forall>r. \<exists>s'. run_keys r [0x3A] demo_tty = Some s' \<and> scan_state s' CapsLock = 0"
proof
  fix r
  have "scan_plain 58 = 0" "scan_shift 58 = 0" by (simp_all add: scan_plain_def scan_shift_def scan_codes_def)
  then have "\<exists>s'. run_keys r [0x3A] demo_tty = Some s'"
    by (simp add: keyboard_key_def dispatch_key_def record_key_def set_key_def key_char_def
        key_consts demo_tty_def Let_def)
  then obtain s' where s': "run_keys r [0x3A] demo_tty = Some s'" by blast
  have "scan_state demo_tty CapsLock = 0" by (simp add: demo_tty_def)
  from s' caps_lock_never_on [OF this s']
  show "\<exists>s'. run_keys r [0x3A] demo_tty = Some s' \<and> scan_state s' CapsLock = 0" by blast
qed

text \<open>Where the frame buffer and the program window are.\<close>

lemma video_not_window: "in_video a \<Longrightarrow> \<not> in_window a"
proof
  assume "in_video a" "in_window a"
  define k where "k = unat (a - VIDEO)"
  have a: "a = VIDEO + of_nat k" by (simp add: k_def)
  have "k < 4000" using \<open>in_video a\<close> by (simp add: in_video_def k_def)
  then have "unat (a - virtual_mem) = 4161503232 + k"
    unfolding a by (simp add: VIDEO_def virtual_mem_def unat_sub_if' unat_word_ariths unat_of_nat take_bit_nat_eq_self)
  then show False using \<open>in_window a\<close> by (simp add: in_window_def fourM_def word_less_nat_alt)
qed

lemma setup_video: "in_video a \<Longrightarrow> memory (syscall_paging_setup (task_frame b) s) a = memory s a"
  using video_not_window by (simp add: setup_memory)



end
