(* ===== verification/Syscall.thy ===== *)
theory Syscall
  imports Terminal
begin

section \<open>System calls (system_call.c)\<close>

text \<open>
  The eight system calls of \<open>student-distrib/system_call.c\<close>. Each works on the process
  control block of the running task. A call through a \<open>fops_table\<close> pointer is a case
  distinction on the table; a NULL table or the call of a NULL entry has no result.

  What the linker and the compiler decide is a parameter: \<open>links\<close> are the addresses of the
  paging structures and of the string literals, \<open>frame\<close> those of a call's local arrays and
  its stack registers. \<open>frame_dentry\<close> is what a local \<open>dentry_t\<close> holds before it is
  written. The name and argument strings of a process live in its control block, not in the
  byte memory, so \<open>getargs\<close> reads them from there.

  A system call may end in three ways: it returns to its caller, it enters user code by
  \<open>iret\<close>, or, for \<open>halt\<close>, it returns from the \<open>execute\<close> that started the task.
\<close>

record links =
  paging_tables :: tables
  lit_stdin :: addr
  lit_stdout :: addr
  lit_halting :: addr
  lit_max_programs :: addr
  lit_shell :: addr

record frame =
  task_name_at :: addr
  argument_at :: addr
  elf_buf_at :: addr
  printf_args :: addr
  printf_buf :: addr
  frame_dentry :: dentry
  frame_esp :: u32
  frame_ebp :: u32

datatype 's outcome =
    Returns int 's
  | Iret u32 's
  | Returns_from_execute u32 u32 u32 's

definition SPACE_CHAR :: u8 where "SPACE_CHAR = 0x20"
definition NULL_CHAR :: u8 where "NULL_CHAR = 0x00"
definition ELF_CHECK0 :: u8 where "ELF_CHECK0 = 0x7f"
definition ELF_CHECK1 :: u8 where "ELF_CHECK1 = 0x45"
definition ELF_CHECK2 :: u8 where "ELF_CHECK2 = 0x4C"
definition ELF_CHECK3 :: u8 where "ELF_CHECK3 = 0x46"
definition program_addr :: addr where "program_addr = 0x08048000"
definition eip_offset :: u32 where "eip_offset = 6"
definition twoM :: u32 where "twoM = 0x200000"

lemmas char_consts = SPACE_CHAR_def NULL_CHAR_def ELF_CHECK0_def ELF_CHECK1_def ELF_CHECK2_def
  ELF_CHECK3_def

subsection \<open>File descriptors\<close>

definition fd_array :: "'a task_scheme \<Rightarrow> file_descriptor list" where
  "fd_array s = fd (pcb_of (tasks_running s) s)"

definition upd_fd :: "u32 \<Rightarrow> nat \<Rightarrow> (file_descriptor \<Rightarrow> file_descriptor) \<Rightarrow> 'a task_scheme \<Rightarrow> 'a task_scheme" where
  "upd_fd t k f s = upd_pcb t (\<lambda>p. p\<lparr>fd := (fd p)[k := f (fd p ! k)]\<rparr>) s"

text \<open>The loop of \<open>syscall_open\<close> that looks for an empty position.\<close>

definition find_open_fd :: "file_descriptor list \<Rightarrow> nat option" where
  "find_open_fd fds = List.find (\<lambda>k. flags (fds ! k) = 0) [2..<8]"

text \<open>The entries of the tables: NULL entries are \<open>None\<close>.\<close>

definition fops_open ::
  "fops_table \<Rightarrow> u32 \<Rightarrow> addr \<Rightarrow> 'a tty_scheme \<Rightarrow> (int \<times> u32 \<times> 'a tty_scheme) option" where
  "fops_open t ino filename s = (case t of
       Stdin_fops \<Rightarrow> (let (r, s) = terminal_open s in Some (r, ino, s))
     | Stdout_fops \<Rightarrow> (let (r, s) = terminal_open s in Some (r, ino, s))
     | Rtc_fops \<Rightarrow> (let (r, s) = rtc_open s in Some (r, ino, s))
     | Dir_fops \<Rightarrow> do { (r, ino) \<leftarrow> dir_open ino filename s; Some (r, ino, s) }
     | File_fops \<Rightarrow> do { (r, ino) \<leftarrow> file_open ino filename s; Some (r, ino, s) })"

definition fops_close ::
  "fops_table \<Rightarrow> (u32 \<Rightarrow> 'a tty_scheme \<Rightarrow> int \<times> u32 \<times> 'a tty_scheme) option" where
  "fops_close t = (case t of
       Stdin_fops \<Rightarrow> None
     | Stdout_fops \<Rightarrow> None
     | Rtc_fops \<Rightarrow> Some (\<lambda>ino s. let (r, s) = rtc_close s in (r, ino, s))
     | Dir_fops \<Rightarrow> Some (\<lambda>ino s. let (r, ino) = dir_close ino in (r, ino, s))
     | File_fops \<Rightarrow> Some (\<lambda>ino s. let (r, ino) = file_close ino in (r, ino, s)))"

definition fops_has_read :: "fops_table \<Rightarrow> bool" where
  "fops_has_read t \<longleftrightarrow> t \<noteq> Stdout_fops"

definition fops_has_write :: "fops_table \<Rightarrow> bool" where
  "fops_has_write t \<longleftrightarrow> t \<noteq> Stdin_fops"

text \<open>
  A read on descriptor \<open>k\<close> of task \<open>t\<close>, the task that was running when the call began: the
  file and directory drivers write the inode and the position of its descriptor back. \<open>irqs\<close>
  and \<open>hs\<close> are the interrupts that arrive while the clock and the terminal driver wait.
\<close>

definition fops_read ::
  "fops_table \<Rightarrow> bool list \<Rightarrow> 'a tty_scheme handlers \<Rightarrow> u32 \<Rightarrow> nat \<Rightarrow> addr \<Rightarrow> u32 \<Rightarrow> 'a tty_scheme \<Rightarrow>
    (int \<times> 'a tty_scheme) option" where
  "fops_read table irqs hs t k buf nbytes s =
     (let f = fd (pcb_of t s) ! k in case table of
       Stdin_fops \<Rightarrow> do { (r, s, hs) \<leftarrow> terminal_read hs buf nbytes s; Some (r, s) }
     | Stdout_fops \<Rightarrow> None
     | Rtc_fops \<Rightarrow> do { (r, s, irqs) \<leftarrow> rtc_read irqs s; Some (r, s) }
     | Dir_fops \<Rightarrow> do {
         (r, i, pos, s) \<leftarrow> dir_read (inode f) (file_position f) buf nbytes s;
         Some (r, upd_fd t k (\<lambda>f. f\<lparr>inode := i, file_position := pos\<rparr>) s) }
     | File_fops \<Rightarrow>
         (let (r, i, pos, s) = file_read (inode f) (file_position f) buf nbytes s
          in Some (r, upd_fd t k (\<lambda>f. f\<lparr>inode := i, file_position := pos\<rparr>) s)))"

definition fops_write ::
  "fops_table \<Rightarrow> u32 \<Rightarrow> nat \<Rightarrow> addr \<Rightarrow> u32 \<Rightarrow> 'a tty_scheme \<Rightarrow> (int \<times> 'a tty_scheme) option" where
  "fops_write table t k buf nbytes s =
     (let f = fd (pcb_of t s) ! k in case table of
       Stdin_fops \<Rightarrow> None
     | Stdout_fops \<Rightarrow> Some (terminal_write buf nbytes s)
     | Rtc_fops \<Rightarrow> Some (rtc_write buf nbytes s)
     | Dir_fops \<Rightarrow> Some (dir_write (inode f) (file_position f) buf nbytes, s)
     | File_fops \<Rightarrow> Some (file_write (inode f) (file_position f) buf nbytes, s))"

definition syscall_read ::
  "bool list \<Rightarrow> 'a tty_scheme handlers \<Rightarrow> u32 \<Rightarrow> addr \<Rightarrow> u32 \<Rightarrow> 'a tty_scheme \<Rightarrow>
    (int \<times> 'a tty_scheme) option" where
  "syscall_read irqs hs fdn buf nbytes s =
     (if fdn > 7 \<or> fdn = 1 then Some (-1, s)
      else if get_pcb (tasks_running s) = 0 then Some (-1, s)
      else (let f = fd_array s ! unat fdn in
        if flags f = 0 then Some (-1, s)
        else (case fops f of
            None \<Rightarrow> None
          | Some table \<Rightarrow>
              if \<not> fops_has_read table then Some (-1, s)
              else fops_read table irqs hs (tasks_running s) (unat fdn) buf nbytes s)))"

definition syscall_write ::
  "u32 \<Rightarrow> addr \<Rightarrow> u32 \<Rightarrow> 'a tty_scheme \<Rightarrow> (int \<times> 'a tty_scheme) option" where
  "syscall_write fdn buf nbytes s =
     (if fdn > 7 \<or> fdn < 1 then Some (-1, s)
      else if get_pcb (tasks_running s) = 0 then Some (-1, s)
      else (let f = fd_array s ! unat fdn in
        if flags f = 0 then Some (-1, s)
        else (case fops f of
            None \<Rightarrow> None
          | Some table \<Rightarrow>
              if \<not> fops_has_write table then Some (-1, s)
              else fops_write table (tasks_running s) (unat fdn) buf nbytes s)))"

definition set_fops :: "nat \<Rightarrow> fops_table \<Rightarrow> 'a tty_scheme \<Rightarrow> 'a tty_scheme" where
  "set_fops k table s = upd_fd (tasks_running s) k (\<lambda>f. f\<lparr>fops := Some table\<rparr>) s"

definition syscall_open ::
  "links \<Rightarrow> frame \<Rightarrow> addr \<Rightarrow> 'a tty_scheme \<Rightarrow> (int \<times> 'a tty_scheme) option" where
  "syscall_open L fr filename s =
     (if filename = 0 then Some (-1, s)
      else if memory s filename = 0 then Some (-1, s)
      else if get_pcb (tasks_running s) = 0 then Some (-1, s)
      else (case find_open_fd (fd_array s) of
          None \<Rightarrow> Some (-1, s)
        | Some fd_index \<Rightarrow> do {
            let s = (if strncmp (memory s) (lit_stdin L) filename 6 = 0
                     then set_fops fd_index Stdin_fops s
                     else if strncmp (memory s) (lit_stdout L) filename 7 = 0
                     then set_fops fd_index Stdout_fops s
                     else s);
            (r, dentry) \<leftarrow> read_dentry_by_name (memory s) (boot_block s) filename (Some (frame_dentry fr));
            if r \<noteq> 0 then Some (-1, s)
            else do {
              let type = d_type (the dentry);
              let s = (if type = 0 then set_fops fd_index Rtc_fops s
                       else if type = 1 then set_fops fd_index Dir_fops s
                       else if type = 2 then set_fops fd_index File_fops s
                       else s);
              let f = fd_array s ! fd_index;
              table \<leftarrow> fops f;
              (r, i, s) \<leftarrow> fops_open table (inode f) filename s;
              let s = upd_fd (tasks_running s) fd_index (\<lambda>f. f\<lparr>inode := i\<rparr>) s;
              if r = -1 then Some (-1, s)
              else Some (int fd_index, upd_fd (tasks_running s) fd_index (\<lambda>f. f\<lparr>flags := 1\<rparr>) s)
            }
          }))"

definition syscall_close :: "int \<Rightarrow> 'a tty_scheme \<Rightarrow> (int \<times> 'a tty_scheme) option" where
  "syscall_close fdn s =
     (if fdn > 7 \<or> fdn < 2 then Some (-1, s)
      else (let t = tasks_running s; k = nat fdn; f = fd_array s ! k in
        if flags f = 0 then Some (-1, s)
        else if get_pcb t = 0 then Some (-1, s)
        else (case fops f of
            None \<Rightarrow> None
          | Some table \<Rightarrow> (case fops_close table of
                None \<Rightarrow> Some (-1, s)
              | Some close \<Rightarrow>
                  (let (r, i, s) = close (inode f) s;
                       s = upd_fd t k (\<lambda>f. f\<lparr>inode := i\<rparr>) s
                   in if r = -1 then Some (-1, s)
                      else Some (0, upd_fd t k (\<lambda>f. f\<lparr>file_position := 0, flags := 0\<rparr>) s))))))"

subsection \<open>getargs and vidmap\<close>

text \<open>
  \<open>strlen\<close> of the argument buffer, \<open>None\<close> if it has no NUL. The comparison with \<open>nbytes\<close> is
  unsigned. A copy of more bytes than the buffer has, which a negative \<open>nbytes\<close> asks for,
  has no result.
\<close>

definition strlen_buf :: "u8 list \<Rightarrow> u32 option" where
  "strlen_buf xs = map_option of_nat (List.find (\<lambda>i. xs ! i = 0) [0..<length xs])"

definition syscall_getargs :: "addr \<Rightarrow> int \<Rightarrow> 'a tty_scheme \<Rightarrow> (int \<times> 'a tty_scheme) option" where
  "syscall_getargs buf nbytes s =
     (if buf = 0 then Some (-1, s)
      else do {
        let arg = argument_buf (pcb_of (tasks_running s) s);
        n \<leftarrow> strlen_buf arg;
        if n > word_of_int nbytes then Some (-1, s)
        else if arg ! 0 = NULL_CHAR then Some (-1, s)
        else do {
          let s = s\<lparr>memory := memset (memory s) buf 0 (word_of_int nbytes)\<rparr>;
          if nbytes > int ARGUMENT_SIZE then
            Some (0, s\<lparr>memory := put (memory s) buf (take ARGUMENT_SIZE arg)\<rparr>)
          else if nbytes < 0 then None
          else Some (0, s\<lparr>memory := put (memory s) buf (take (nat nbytes) arg)\<rparr>)
        }
      })"

definition syscall_vidmap :: "links \<Rightarrow> addr \<Rightarrow> 'a tty_scheme \<Rightarrow> int \<times> 'a tty_scheme" where
  "syscall_vidmap L screen_start s =
     (if screen_start = 0 \<or> screen_start = fourM then (-1, s)
      else (let s = videomem_map (paging_tables L) addr_148MB video_mem_addr s
            in (0, s\<lparr>memory := wr32 (memory s) screen_start addr_148MB\<rparr>)))"

subsection \<open>halt\<close>

fun close_all :: "nat list \<Rightarrow> 'a tty_scheme \<Rightarrow> 'a tty_scheme option" where
  "close_all [] s = Some s"
| "close_all (i # is) s =
     (if flags (fd_array s ! i) \<noteq> 0
      then do { (r, s) \<leftarrow> syscall_close (int i) s; close_all is s }
      else close_all is s)"

text \<open>The parent's data and memory, the exit through the parent's \<open>execute\<close>, and \<open>halt\<close>.\<close>

definition restore_parent :: "u32 \<Rightarrow> 'a tty_scheme \<Rightarrow> 'a tty_scheme" where
  "restore_parent parent s =
     (let s = upd_pcb parent (\<lambda>q. q\<lparr>task_id_child := -1\<rparr>) s;
          s = syscall_paging_setup (eightM + parent * fourM) s;
          j = page_directory s (unat (addr_148MB div fourM)) AND 0x01
      in if j \<noteq> 0 then videomem_unmap addr_148MB video_mem_addr s else s)"

definition leave_task :: "u8 \<Rightarrow> pcb \<Rightarrow> 'a tty_scheme \<Rightarrow> 'a tty_scheme outcome option" where
  "leave_task status p s = do {
     s \<leftarrow> (if tasks_running s < 6
       then Some (s\<lparr>task_slots := (task_slots s)[unat (tasks_running s) := 0]\<rparr>) else None);
     let s = s\<lparr>tasks_running := task_id_parent p\<rparr>;
     let s = s\<lparr>tss_esp0 := old_esp p\<rparr>;
     let (return_status, s) =
       (if exception_death s \<noteq> 0 then (256, s\<lparr>exception_death := 0\<rparr>) else (ucast status, s));
     Some (Returns_from_execute return_status (old_esp p) (old_ebp p) s)
   }"

definition syscall_halt :: "links \<Rightarrow> frame \<Rightarrow> u8 \<Rightarrow> 'a tty_scheme \<Rightarrow> 'a tty_scheme outcome option" where
  "syscall_halt L fr status s = do {
     let p = pcb_of (tasks_running s) s;
     if task_id_parent p = -1 then do {
       (n, s) \<leftarrow> printf (lit_halting L) (printf_args fr) (printf_buf fr) s;
       let s = s\<lparr>tss_ss0 := KERNEL_DS\<rparr>;
       let s = s\<lparr>tss_esp0 := eightK * oneK - eightK * tasks_running s - 4\<rparr>;
       Some (Iret (old_eip p) s)
     } else do {
       s \<leftarrow> close_all [0..<8] (restore_parent (task_id_parent p) s);
       leave_task status p s
     }
   }"

subsection \<open>execute\<close>

text \<open>
  The parsing loops read the command while they write the local arrays. The second space
  loop of the code has the same condition as the first: its other two tests are implied.
\<close>

partial_function (option) skip_spaces :: "mem \<Rightarrow> addr \<Rightarrow> u32 \<Rightarrow> u32 option" where
  "skip_spaces m command i =
     (if m (command + i) = SPACE_CHAR then skip_spaces m command (i + 1) else Some i)"

declare skip_spaces.simps [code]

definition in_name :: "u8 \<Rightarrow> bool" where
  "in_name c \<longleftrightarrow> c \<noteq> SPACE_CHAR \<and> c \<noteq> 0x0A \<and> c \<noteq> NULL_CHAR"

text \<open>Both copying loops of the code have this shape; \<open>j\<close> counts the characters stored.\<close>

function copy_while :: "(u8 \<Rightarrow> bool) \<Rightarrow> nat \<Rightarrow> addr \<Rightarrow> addr \<Rightarrow> mem \<Rightarrow> u32 \<Rightarrow> nat \<Rightarrow> mem \<times> u32 \<times> nat" where
  "copy_while go lim dst command m i j =
     (if go (m (command + i)) \<and> j < lim
      then copy_while go lim dst command (m(dst + of_nat j := m (command + i))) (i + 1) (j + 1)
      else (m, i, j))"
  by pat_completeness auto
termination
  by (relation "measure (\<lambda>(go, lim, d, c, m, i, j). lim - j)") auto

declare copy_while.simps [simp del]

definition copy_name :: "addr \<Rightarrow> addr \<Rightarrow> mem \<Rightarrow> u32 \<Rightarrow> mem \<times> u32 \<times> nat" where
  "copy_name task_name command m i = copy_while in_name (TASKNAME_SIZE - 1) task_name command m i 0"

definition in_argument :: "u8 \<Rightarrow> bool" where
  "in_argument c \<longleftrightarrow> c \<noteq> 0x0A \<and> c \<noteq> NULL_CHAR"

definition copy_argument :: "addr \<Rightarrow> addr \<Rightarrow> mem \<Rightarrow> u32 \<Rightarrow> mem \<times> u32 \<times> nat" where
  "copy_argument argument command m i = copy_while in_argument (ARGUMENT_SIZE - 1) argument command m i 0"

text \<open>
  The parsing part of \<open>execute\<close>: \<open>None\<close> inside is the early return of -1 for a name of more
  than 32 characters; otherwise the memory with both strings stored.
\<close>

definition parse_command :: "frame \<Rightarrow> addr \<Rightarrow> mem \<Rightarrow> (mem \<times> bool) option" where
  "parse_command fr command m = do {
     i \<leftarrow> skip_spaces m command 0;
     let (m, i, j) = copy_name (task_name_at fr) command m i;
     if j = TASKNAME_SIZE - 1 \<and> in_name (m (command + i)) then Some (m, False)
     else do {
       let m = m(task_name_at fr + of_nat j := NULL_CHAR);
       i \<leftarrow> skip_spaces m command i;
       let (m, i, j) = copy_argument (argument_at fr) command m i;
       Some (m(argument_at fr + of_nat j := NULL_CHAR), True)
     }
   }"

text \<open>Whether some character of the name is not a space; \<open>strlen\<close> is evaluated on every turn.\<close>

definition name_given :: "frame \<Rightarrow> mem \<Rightarrow> bool option" where
  "name_given fr m = do {
     n \<leftarrow> strlen m (task_name_at fr);
     Some (list_ex (\<lambda>i. m (task_name_at fr + of_nat i) \<noteq> SPACE_CHAR
        \<or> m (task_name_at fr + of_nat i) = 0x0A) [0..<unat n])
   }"

definition is_elf :: "mem \<Rightarrow> addr \<Rightarrow> bool" where
  "is_elf m buf \<longleftrightarrow> m buf = ELF_CHECK0 \<and> m (buf + 1) = ELF_CHECK1 \<and>
     m (buf + 2) = ELF_CHECK2 \<and> m (buf + 3) = ELF_CHECK3"

text \<open>
  What follows the checks, with the slot \<open>new_slot\<close>: the program is loaded into the new
  task's memory, its control block filled in, and user code entered.
\<close>

definition load_program :: "dentry \<Rightarrow> 'a tty_scheme \<Rightarrow> u32 \<times> 'a tty_scheme" where
  "load_program file_check s =
     (let s = syscall_paging_setup (eightM + tasks_running s * fourM) s;
          (n, m) = read_data (boot_block s) (d_inode file_check) 0 program_addr twoM (memory s)
      in (rd32 m (program_addr + 4 * eip_offset), s\<lparr>memory := m\<rparr>))"

definition create_pcb :: "frame \<Rightarrow> u32 \<Rightarrow> u32 \<Rightarrow> 'a tty_scheme \<Rightarrow> 'a tty_scheme" where
  "create_pcb fr old_slot EIP_bytes s =
     (let t = tasks_running s;
          s = upd_pcb t (\<lambda>p. p\<lparr>task_id := t\<rparr>) s;
          s = (if t \<ge> 3
               then upd_pcb old_slot (\<lambda>p. p\<lparr>task_id_child := t\<rparr>) (upd_pcb t (\<lambda>p. p\<lparr>task_id_parent := old_slot\<rparr>) s)
               else upd_pcb t (\<lambda>p. p\<lparr>task_id_parent := -1\<rparr>) s);
          s = upd_pcb t (\<lambda>p. p\<lparr>task_id_child := -1, old_esp := frame_esp fr, old_ebp := frame_ebp fr,
                old_eip := EIP_bytes\<rparr>) s;
          s = upd_pcb t (\<lambda>p. p\<lparr>file_name := load (memory s) (task_name_at fr) TASKNAME_SIZE,
                argument_buf := load (memory s) (argument_at fr) ARGUMENT_SIZE\<rparr>) s;
          (r, s) = fda_init s
      in s)"

definition start_task :: "frame \<Rightarrow> dentry \<Rightarrow> u32 \<Rightarrow> 'a tty_scheme \<Rightarrow> 'a tty_scheme outcome" where
  "start_task fr file_check new_slot s =
     (let old_slot = tasks_running s;
          s = s\<lparr>tasks_running := new_slot\<rparr>;
          s = s\<lparr>task_slots := (task_slots s)[unat (tasks_running s) := 1]\<rparr>;
          (EIP_bytes, s) = load_program file_check s;
          s = create_pcb fr old_slot EIP_bytes s;
          s = s\<lparr>tss_ss0 := KERNEL_DS\<rparr>;
          s = s\<lparr>tss_esp0 := eightK * oneK - eightK * tasks_running s - 4\<rparr>
      in Iret EIP_bytes s)"

definition syscall_execute :: "links \<Rightarrow> frame \<Rightarrow> addr \<Rightarrow> 'a tty_scheme \<Rightarrow> 'a tty_scheme outcome option" where
  "syscall_execute L fr command s = do {
     (m, ok) \<leftarrow> parse_command fr command (memory s);
     let s = s\<lparr>memory := m\<rparr>;
     if \<not> ok then Some (Returns (-1) s)
     else do {
       blank_cmd_flag \<leftarrow> name_given fr (memory s);
       if \<not> blank_cmd_flag then Some (Returns 0 s)
       else do {
         (r, file_check) \<leftarrow> read_dentry_by_name (memory s) (boot_block s) (task_name_at fr)
           (Some (frame_dentry fr));
         let (n, m) = read_data (boot_block s) (d_inode (the file_check)) 0 (elf_buf_at fr) 4 (memory s);
         let s = s\<lparr>memory := m\<rparr>;
         if n \<noteq> 4 then Some (Returns (-1) s)
         else if \<not> is_elf (memory s) (elf_buf_at fr) then Some (Returns (-1) s)
         else do {
           let new_slot = find_open_task s;
           if new_slot = -1 then do {
             (n, s) \<leftarrow> printf (lit_max_programs L) (printf_args fr) (printf_buf fr) s;
             Some (Returns (-1) s)
           }
           else Some (start_task fr (the file_check) (word_of_int new_slot) s)
         }
       }
     }
   }"

end
