(* ===== verification/Descriptors.thy ===== *)
theory Descriptors
  imports Syscall
begin

section \<open>File descriptors of a task\<close>

text \<open>
  What the descriptor calls of \<open>student-distrib/system_call.c\<close> do to a task's table: the
  invariant of the table, opening, closing, reading and writing.
\<close>

lemma pcb_of_setup [simp]: "pcb_of i (syscall_paging_setup a (s :: 'a tty_scheme)) = pcb_of i s"
  by (simp add: pcb_of_def)

subsection \<open>Descriptor tables\<close>

text \<open>
  A well-formed table: 0 and 1 are the terminal, every other open descriptor belongs to a
  driver that can be closed. No system call then calls through a NULL pointer.
\<close>

definition closable :: "fops_table option \<Rightarrow> bool" where
  "closable t \<longleftrightarrow> t \<in> {Some Rtc_fops, Some Dir_fops, Some File_fops}"

definition fds_ok :: "file_descriptor list \<Rightarrow> bool" where
  "fds_ok fds \<longleftrightarrow> length fds = 8 \<and>
     flags (fds ! 0) \<noteq> 0 \<and> fops (fds ! 0) = Some Stdin_fops \<and>
     flags (fds ! 1) \<noteq> 0 \<and> fops (fds ! 1) = Some Stdout_fops \<and>
     (\<forall>k < 8. 2 \<le> k \<longrightarrow> flags (fds ! k) \<noteq> 0 \<longrightarrow> closable (fops (fds ! k)))"

definition descriptors_ok :: "'a task_scheme \<Rightarrow> bool" where
  "descriptors_ok s \<longleftrightarrow> (\<forall>i. running s i \<longrightarrow> fds_ok (fd (pcb_of i s)))"

definition std_fds :: "file_descriptor list" where
  "std_fds = [empty_fd\<lparr>fops := Some Stdin_fops, flags := 1\<rparr>, empty_fd\<lparr>fops := Some Stdout_fops, flags := 1\<rparr>,
     empty_fd, empty_fd, empty_fd, empty_fd, empty_fd, empty_fd]"

lemma fda_init_eq: "fda_init s = (0, upd_pcb (tasks_running s) (\<lambda>p. p\<lparr>fd := std_fds\<rparr>) s)"
  by (simp add: fda_init_def std_fds_def Let_def upt_rec)

lemma std_fds_ok: "fds_ok std_fds"
  by (auto simp: fds_ok_def std_fds_def empty_fd_def nth_Cons less_Suc_eq split: nat.splits)

lemma fds_ok_update:
  "fds_ok fds \<Longrightarrow> 2 \<le> k \<Longrightarrow> (flags f \<noteq> 0 \<Longrightarrow> closable (fops f)) \<Longrightarrow> fds_ok (fds[k := f])"
  by (cases "k < length fds") (auto simp: fds_ok_def nth_list_update)

lemma get_pcb_nonzero: "i < 6 \<Longrightarrow> get_pcb i \<noteq> 0"
proof
  assume i: "i < 6" and "get_pcb i = 0"
  then have e: "0x7FE000 - 0x2000 * i = 0" by (simp add: get_pcb_def eightK_def oneK_def algebra_simps)
  have k: "unat i < 6" using i by (rule small_not_minus_one(2))
  then have u: "unat (0x2000 * i) = 0x2000 * unat i" by (simp add: unat_word_ariths)
  have "0x7FE000 = 0x2000 * i" using e by simp
  then have "unat (0x7FE000 :: u32) = 0x2000 * unat i" using u by (simp only:)
  then show False using k by simp
qed

text \<open>The entry a close leaves: position and flag cleared, the file drivers clear the inode too.\<close>

definition closed_fd :: "file_descriptor \<Rightarrow> file_descriptor" where
  "closed_fd f = f\<lparr>inode := if fops f = Some Rtc_fops then inode f else 0, file_position := 0, flags := 0\<rparr>"

lemma upd_fd_upd_fd: "upd_fd t k f (upd_fd t k g s) = upd_fd t k (f \<circ> g) s"
  by (cases "k < length (fd (pcb_of t s))") (simp_all add: upd_fd_def upd_pcb_def pcb_of_def list_update_beyond)

lemma close_open_fd:
  assumes t: "tasks_running s < 6" and ok: "fds_ok (fd_array s)" and k: "2 \<le> k" "k \<le> 7"
    and op: "flags (fd_array s ! nat k) \<noteq> 0"
  shows "syscall_close k s = Some (0, upd_fd (tasks_running s) (nat k) closed_fd s)"
proof -
  have len: "nat k < length (fd (pcb_of (tasks_running s) s))" using ok k by (simp add: fds_ok_def fd_array_def)
  have "closable (fops (fd_array s ! nat k))" using ok op k by (auto simp: fds_ok_def)
  moreover have u: "upd_fd (tasks_running s) (nat k) (\<lambda>f. f\<lparr>file_position := 0, flags := 0\<rparr>)
      (upd_fd (tasks_running s) (nat k) (\<lambda>f. f\<lparr>inode := i\<rparr>) s) =
      upd_fd (tasks_running s) (nat k) closed_fd s"
    if "i = inode (closed_fd (fd_array s ! nat k))" for i
    using that unfolding upd_fd_upd_fd
    by (simp add: upd_fd_def upd_pcb_def closed_fd_def fd_array_def pcb_of_def)
  ultimately show ?thesis
    using op k get_pcb_nonzero [OF t]
    by (auto simp: syscall_close_def Let_def closable_def fops_close_def rtc_close_def dir_close_def
        file_close_def closed_fd_def)
qed

lemma fds_of_upd_fd:
  "fd_array (upd_fd (tasks_running s) k f s) = (fd_array s)[k := f (fd_array s ! k)]"
  by (simp add: fd_array_def upd_fd_def)

text \<open>Closing everything, as \<open>halt\<close> does, changes the running task's table only.\<close>

lemma upd_fd_frame:
  "\<exists>fds. upd_fd t k f s = upd_pcb t (\<lambda>p. p\<lparr>fd := fds\<rparr>) s"
  by (rule exI [of _ "(fd (pcb_of t s))[k := f (fd (pcb_of t s) ! k)]"]) (simp add: upd_fd_def upd_pcb_def pcb_of_def)

lemma upd_fd_twice: "upd_pcb t (\<lambda>p. p\<lparr>fd := a\<rparr>) (upd_pcb t (\<lambda>p. p\<lparr>fd := b\<rparr>) s) = upd_pcb t (\<lambda>p. p\<lparr>fd := a\<rparr>) s"
  by (simp add: upd_pcb_def)

lemma close_all_spec:
  assumes "tasks_running s < 6" "fds_ok (fd_array s)" "\<forall>i \<in> set is. i < 8"
  shows "\<exists>fds. close_all is s = Some (upd_pcb (tasks_running s) (\<lambda>p. p\<lparr>fd := fds\<rparr>) s) \<and> fds_ok fds \<and>
    (\<forall>i < 8. 2 \<le> i \<longrightarrow> (i \<in> set is \<or> flags (fd_array s ! i) = 0) \<longrightarrow> flags (fds ! i) = 0)"
  using assms
proof (induction "is" arbitrary: s)
  case Nil
  have "upd_pcb (tasks_running s) (\<lambda>p. p\<lparr>fd := fd_array s\<rparr>) s = s"
    by (simp add: upd_pcb_def fd_array_def pcb_of_def)
  then show ?case using Nil by (intro exI [of _ "fd_array s"]) simp
next
  case (Cons i "is")
  let ?t = "tasks_running s"
  consider (shut) "flags (fd_array s ! i) = 0" | (std) "flags (fd_array s ! i) \<noteq> 0" "i < 2"
    | (op) "flags (fd_array s ! i) \<noteq> 0" "2 \<le> i" by linarith
  then show ?case
  proof cases
    case shut
    then have step: "close_all (i # is) s = close_all is s" by simp
    obtain fds where "close_all is s = Some (upd_pcb ?t (\<lambda>p. p\<lparr>fd := fds\<rparr>) s)" "fds_ok fds"
      "\<forall>j < 8. 2 \<le> j \<longrightarrow> (j \<in> set is \<or> flags (fd_array s ! j) = 0) \<longrightarrow> flags (fds ! j) = 0"
      using Cons.IH [of s] Cons.prems by auto
    then show ?thesis unfolding step using shut by (intro exI [of _ fds]) auto
  next
    case std
    then have step: "close_all (i # is) s = close_all is s" by (simp add: syscall_close_def)
    obtain fds where "close_all is s = Some (upd_pcb ?t (\<lambda>p. p\<lparr>fd := fds\<rparr>) s)" "fds_ok fds"
      "\<forall>j < 8. 2 \<le> j \<longrightarrow> (j \<in> set is \<or> flags (fd_array s ! j) = 0) \<longrightarrow> flags (fds ! j) = 0"
      using Cons.IH [of s] Cons.prems by auto
    then show ?thesis unfolding step using std(2) by (intro exI [of _ fds]) auto
  next
    case op
    let ?s = "upd_fd ?t i closed_fd s"
    have "syscall_close (int i) s = Some (0, ?s)"
      using close_open_fd [OF Cons.prems(1,2), of "int i"] op Cons.prems(3) by simp
    then have step: "close_all (i # is) s = close_all is ?s" using op by simp
    have fds: "fd_array ?s = (fd_array s)[i := closed_fd (fd_array s ! i)]" by (rule fds_of_upd_fd)
    have len: "i < length (fd_array s)" using Cons.prems(2,3) by (simp add: fds_ok_def)
    have run: "tasks_running ?s = ?t" by (simp add: upd_fd_def)
    have "fds_ok (fd_array ?s)"
      unfolding fds using Cons.prems(2) op(2) by (rule fds_ok_update) (simp add: closed_fd_def)
    then obtain fds where f: "close_all is ?s = Some (upd_pcb ?t (\<lambda>p. p\<lparr>fd := fds\<rparr>) ?s)" "fds_ok fds"
      "\<forall>j < 8. 2 \<le> j \<longrightarrow> (j \<in> set is \<or> flags (fd_array ?s ! j) = 0) \<longrightarrow> flags (fds ! j) = 0"
      using Cons.IH [of ?s] Cons.prems(1,3) by (auto simp: run)
    obtain g where "?s = upd_pcb ?t (\<lambda>p. p\<lparr>fd := g\<rparr>) s" using upd_fd_frame by blast
    then have "close_all (i # is) s = Some (upd_pcb ?t (\<lambda>p. p\<lparr>fd := fds\<rparr>) s)"
      using step f(1) upd_fd_twice by metis
    moreover have "flags (fd_array ?s ! j) = 0" if "j = i \<or> flags (fd_array s ! j) = 0" for j
      using that len by (cases "j = i") (auto simp: fds closed_fd_def)
    ultimately show ?thesis using f(2,3) by (intro exI [of _ fds]) auto
  qed
qed

subsection \<open>Opening\<close>

lemma upd_fd_fields [simp]:
  "memory (upd_fd t k f s) = memory s" "boot_block (upd_fd t k f s) = boot_block s"
  "tasks_running (upd_fd t k f s) = tasks_running s" "task_slots (upd_fd t k f s) = task_slots s"
  by (simp_all add: upd_fd_def)

lemma set_fops_fields [simp]:
  "memory (set_fops k t s) = memory s" "boot_block (set_fops k t s) = boot_block s"
  "tasks_running (set_fops k t s) = tasks_running s"
  by (simp_all add: set_fops_def)

definition type_fops :: "u32 \<Rightarrow> fops_table" where
  "type_fops ty = (if ty = 0 then Rtc_fops else if ty = 1 then Dir_fops else File_fops)"

definition opened_fd :: "fops_table \<Rightarrow> u32 \<Rightarrow> file_descriptor \<Rightarrow> file_descriptor" where
  "opened_fd t ino f = f\<lparr>fops := Some t, inode := if t = Rtc_fops then inode f else ino, flags := 1\<rparr>"

text \<open>The descriptor table of a task hands out its slots as \<open>slot_table\<close> promises.\<close>

interpretation fd_table: slot_table
  "\<lambda>fds. length fds = 8" "\<lambda>fds k. flags (fds ! k) \<noteq> 0" find_open_fd
  "\<lambda>k fds. fds[k := opened_fd T ino (fds ! k)]" "\<lambda>k fds. fds[k := closed_fd (fds ! k)]" 2 8
  for T ino
proof (unfold_locales, goal_cases)
  case 1
  then show ?case by (simp only: find_open_fd_def find_upt_None)
next
  case 2
  then show ?case by (simp only: find_open_fd_def find_upt_Some not_not)
qed (auto simp: nth_list_update opened_fd_def closed_fd_def)

lemma upd_fd_const:
  "upd_fd t k f s = upd_fd t k g s" if "f (fd (pcb_of t s) ! k) = g (fd (pcb_of t s) ! k)"
  using that by (simp add: upd_fd_def upd_pcb_def pcb_of_def)

lemma upd_fd_virt_freq:
  fixes s :: "'a task_scheme"
  shows "upd_fd t k f (s\<lparr>virt_freq := v\<rparr>) = (upd_fd t k f s)\<lparr>virt_freq := v\<rparr>"
  by (simp add: upd_fd_def upd_pcb_def)

lemma fops_open_file:
  fixes s :: "'a tty_scheme"
  assumes "string_at (memory s) filename xs" "length xs < 2 ^ 31"
    and "lookup (memory s) (boot_block s) xs = Some i" "length xs \<le> 32"
  shows "t = Rtc_fops \<or> t = Dir_fops \<or> t = File_fops \<Longrightarrow> fops_open t ino filename s =
    Some (0, if t = Rtc_fops then ino else d_inode (dentry_at (memory s) (entry_addr (boot_block s) (of_nat i))),
      if t = Rtc_fops then s\<lparr>virt_freq := 2\<rparr> else s)"
  using read_dentry_by_name_lookup [OF assms(1,2)] assms(3,4)
  by (auto simp: fops_open_def rtc_open_def dir_open_def file_open_def)

text \<open>The fops field the two string comparisons leave is overwritten by the file's type.\<close>

lemma syscall_open_found:
  fixes s :: "'a tty_scheme"
  assumes t: "tasks_running s < 6" and len: "length (fd_array s) = 8"
    and name: "filename \<noteq> 0" "string_at (memory s) filename xs" "xs \<noteq> []" "length xs \<le> 32"
    and k: "find_open_fd (fd_array s) = Some k"
    and i: "lookup (memory s) (boot_block s) xs = Some i"
    and d: "d = dentry_at (memory s) (entry_addr (boot_block s) (of_nat i))" "d_type d \<in> {0, 1, 2}"
  shows "syscall_open L fr filename s = Some (int k,
    upd_fd (tasks_running s) k (opened_fd (type_fops (d_type d)) (d_inode d))
      (if d_type d = 0 then s\<lparr>virt_freq := 2\<rparr> else s))"
proof -
  let ?t = "tasks_running s" and ?T = "type_fops (d_type d)"
  have k8: "2 \<le> k" "k < 8" using fd_table.search_Some [OF len, of k] k by simp_all
  have first: "memory s filename \<noteq> 0"
    using name(2,3) string_at_nonzero [of "memory s" filename xs 0] by simp
  have xs: "length xs < 2 ^ 31" using name(4) by simp
  have rd: "read_dentry_by_name (memory s) (boot_block s) filename (Some x) = Some (0, Some d)" for x
    using read_dentry_by_name_lookup [OF name(2) xs] i name(4) d(1) by simp
  define s1 where "s1 = (if strncmp (memory s) (lit_stdin L) filename 6 = 0 then set_fops k Stdin_fops s
      else if strncmp (memory s) (lit_stdout L) filename 7 = 0 then set_fops k Stdout_fops s else s)"
  define g :: "file_descriptor \<Rightarrow> file_descriptor" where "g = (if strncmp (memory s) (lit_stdin L) filename 6 = 0 then (\<lambda>f. f\<lparr>fops := Some Stdin_fops\<rparr>)
      else if strncmp (memory s) (lit_stdout L) filename 7 = 0 then (\<lambda>f. f\<lparr>fops := Some Stdout_fops\<rparr>) else (\<lambda>f. f))"
  have "upd_fd ?t k (\<lambda>f. f) s = s" by (simp add: upd_fd_def upd_pcb_def)
  then have g: "s1 = upd_fd ?t k g s" "inode (g f) = inode f" "(g f)\<lparr>fops := x\<rparr> = f\<lparr>fops := x\<rparr>" for f x
    by (simp_all add: s1_def g_def set_fops_def)
  have s1: "memory s1 = memory s" "boot_block s1 = boot_block s" "tasks_running s1 = ?t"
    by (simp_all add: g(1))
  define s2 where "s2 = set_fops k ?T s1"
  have ty: "(if d_type d = 0 then set_fops k Rtc_fops s1 else if d_type d = 1 then set_fops k Dir_fops s1
      else if d_type d = 2 then set_fops k File_fops s1 else s1) = s2"
    using d(2) by (auto simp: s2_def type_fops_def)
  have s2: "memory s2 = memory s" "boot_block s2 = boot_block s" "tasks_running s2 = ?t"
    by (simp_all add: s2_def s1)
  have l1: "k < length (fd (pcb_of ?t s))" using len k8 by (simp add: fd_array_def)
  have f2: "fd_array s2 ! k = (g (fd_array s ! k))\<lparr>fops := Some ?T\<rparr>"
    unfolding s2_def set_fops_def s1(3) using len k8
    by (simp add: g(1) fd_array_def upd_fd_upd_fd) (simp add: upd_fd_def)
  have op: "fops_open ?T ino filename s2 = Some (0, if ?T = Rtc_fops then ino else d_inode d,
      if ?T = Rtc_fops then s2\<lparr>virt_freq := 2\<rparr> else s2)" for ino
    using fops_open_file [of s2 filename xs i ?T ino] name(2,4) xs i d(1) by (auto simp: s2 type_fops_def)
  define ino where "ino = (if ?T = Rtc_fops then inode (fd_array s ! k) else d_inode d)"
  have rtc: "?T = Rtc_fops \<longleftrightarrow> d_type d = 0" using d(2) by (auto simp: type_fops_def)
  have fin: "upd_fd ?t k (\<lambda>f. f\<lparr>flags := 1\<rparr>) (upd_fd ?t k (\<lambda>f. f\<lparr>inode := ino\<rparr>) s2) =
      upd_fd ?t k (opened_fd ?T (d_inode d)) s"
  proof -
    have "upd_fd ?t k (\<lambda>f. f\<lparr>flags := 1\<rparr>) (upd_fd ?t k (\<lambda>f. f\<lparr>inode := ino\<rparr>) s2) =
        upd_fd ?t k ((\<lambda>f. f\<lparr>flags := 1\<rparr>) \<circ> ((\<lambda>f. f\<lparr>inode := ino\<rparr>) \<circ> ((\<lambda>f. f\<lparr>fops := Some ?T\<rparr>) \<circ> g))) s"
      unfolding s2_def set_fops_def s1(3) g(1) by (simp only: upd_fd_upd_fd upd_fd_fields comp_assoc)
    also have "\<dots> = upd_fd ?t k (opened_fd ?T (d_inode d)) s"
      by (intro upd_fd_const) (simp add: opened_fd_def ino_def fd_array_def g(3))
    finally show ?thesis .
  qed
  have op': "fops_open ?T (inode (fd_array s ! k)) filename s2 =
      Some (0, ino, if d_type d = 0 then s2\<lparr>virt_freq := 2\<rparr> else s2)"
    unfolding op by (simp add: ino_def rtc)
  show ?thesis
    using name(1) first get_pcb_nonzero [OF t] k rd f2 g(2) op' fin
    unfolding syscall_open_def
    by (simp add: s1_def [symmetric] s1 ty s2 upd_fd_virt_freq)
qed

subsection \<open>Properties of the descriptor calls\<close>


definition demo_open :: tty where
  "demo_open = demo_tty\<lparr>pcbs := (\<lambda>a. (pcbs demo_tty a)\<lparr>fd := std_fds\<rparr>)\<rparr>"

lemma demo_open_simps [simp]:
  "memory demo_open = demo_image" "boot_block demo_open = 0x100000" "tasks_running demo_open = 0"
  "fd_array demo_open = std_fds"
  by (simp_all add: demo_open_def demo_tty_def fd_array_def pcb_of_def)

lemma demo_entry_type:
  assumes "i < 63"
  shows "d_type (dentry_at demo_image (entry_addr 0x100000 (of_nat i))) = (if i = 0 then 2 else 0)"
proof -
  have "demo_image (0x100000 + of_nat (96 + 64 * i + j)) = (if i = 0 \<and> j = 0 then 2 else 0)" if "j < 4" for j
  proof -
    have u: "unat (0x100000 + of_nat (96 + 64 * i + j) :: u32) = 0x100060 + 64 * i + j"
      using assms that by (simp add: unat_word_ariths unat_of_nat take_bit_nat_eq_self)
    show ?thesis using assms that by (auto simp: demo_image_def word_unat_eq_iff u simp del: of_nat_add of_nat_mult)
  qed
  from this [of 0] this [of 1] this [of 2] this [of 3] show ?thesis
    by (simp add: dentry_at_def entry_addr_def rd32_def ac_simps)
qed


text \<open>\<open>close\<close> on a well-formed table always returns: it frees an open descriptor from 2 to 7,
  with its position back at 0, and refuses every other number, the terminal's two included, with
  -1 and no change. It never calls through a NULL pointer.\<close>
theorem close_correct:
  assumes "tasks_running s < 6" "fds_ok (fd_array s)"
  shows "syscall_close k s =
    (if k < 2 \<or> k > 7 \<or> flags (fd_array s ! nat k) = 0 then Some (-1, s)
     else Some (0, upd_fd (tasks_running s) (nat k) closed_fd s))"
proof (cases "k < 2 \<or> k > 7 \<or> flags (fd_array s ! nat k) = 0")
  case True
  then show ?thesis by (auto simp: syscall_close_def)
next
  case False
  then show ?thesis using close_open_fd [OF assms] by simp
qed

lemma close_correct_witness: "syscall_close 2 demo_open = Some (-1, demo_open)"
  using close_correct [of demo_open 2] std_fds_ok by (simp add: std_fds_def empty_fd_def)

text \<open>A descriptor that is closed comes back: after an open that returned \<open>k\<close> and a close of
  \<open>k\<close> the next free descriptor is \<open>k\<close> again, every other descriptor is as before the
  open, and the table is well-formed.\<close>
theorem open_close_roundtrip:
  fixes s :: "'a tty_scheme"
  assumes "tasks_running s < 6" "fds_ok (fd_array s)" "filename \<noteq> 0"
    and "string_at (memory s) filename xs" "xs \<noteq> []" "length xs \<le> 32"
    and "lookup (memory s) (boot_block s) xs = Some i"
    and "d_type (dentry_at (memory s) (entry_addr (boot_block s) (of_nat i))) \<in> {0, 1, 2}"
    and "find_open_fd (fd_array s) = Some k"
  shows "\<exists>s1 s2. syscall_open L fr filename s = Some (int k, s1) \<and> syscall_close (int k) s1 = Some (0, s2) \<and>
    find_open_fd (fd_array s2) = Some k \<and> fds_ok (fd_array s2) \<and>
    (\<forall>j < 8. j \<noteq> k \<longrightarrow> fd_array s2 ! j = fd_array s ! j)"
proof -
  have len: "length (fd_array s) = 8" using assms(2) by (simp add: fds_ok_def)
  define d where "d = dentry_at (memory s) (entry_addr (boot_block s) (of_nat i))"
  define T where "T = type_fops (d_type d)"
  define s1 where "s1 = upd_fd (tasks_running s) k (opened_fd T (d_inode d)) (if d_type d = 0 then s\<lparr>virt_freq := 2\<rparr> else s)"
  define s2 where "s2 = upd_fd (tasks_running s1) k closed_fd s1"
  have op: "syscall_open L fr filename s = Some (int k, s1)"
    using syscall_open_found [OF assms(1) len assms(3-6,9,7) d_def] assms(8) by (simp add: s1_def T_def d_def)
  have k: "2 \<le> k" "k < 8" using fd_table.search_Some [OF len, of k] assms(9) by simp_all
  have f1: "fd_array s1 = (fd_array s)[k := opened_fd T (d_inode d) (fd_array s ! k)]"
    using fds_of_upd_fd [of s k] by (simp add: s1_def upd_fd_virt_freq fd_array_def pcb_of_def)
  have ok1: "fds_ok (fd_array s1)"
    unfolding f1 using assms(2) k by (intro fds_ok_update) (simp_all add: opened_fd_def closable_def T_def type_fops_def)
  have "tasks_running s1 < 6" using assms(1) by (simp add: s1_def)
  then have cl: "syscall_close (int k) s1 = Some (0, s2)"
    using close_open_fd [OF _ ok1, of "int k"] k len by (simp add: s2_def f1 opened_fd_def)
  have f2: "fd_array s2 = (fd_array s1)[k := closed_fd (fd_array s1 ! k)]"
    unfolding s2_def by (rule fds_of_upd_fd)
  have "fds_ok (fd_array s2)" unfolding f2 using ok1 k by (intro fds_ok_update) (simp_all add: closed_fd_def)
  moreover have "find_open_fd (fd_array s2) = Some k"
    using fd_table.release_finds_again [OF len assms(9), of T "d_inode d"] unfolding f2 f1 .
  moreover have "fd_array s2 ! j = fd_array s ! j" if "j \<noteq> k" for j using that by (simp add: f1 f2)
  ultimately show ?thesis using op cl by blast
qed

lemma open_close_roundtrip_witness:
  "\<forall>L fr. \<exists>s1 s2. syscall_open L fr 0x10 demo_open = Some (2, s1) \<and> syscall_close 2 s1 = Some (0, s2)"
proof (intro allI)
  fix L fr
  have str: "string_at demo_image 0x10 [0x61]" by (simp add: string_at_eval demo_image_def)
  have lk: "lookup demo_image 0x100000 [0x61] = Some 0"
    unfolding lookup_def by (subst upt_conv_Cons) (simp_all add: demo_entry_name)
  have fo: "find_open_fd std_fds = Some 2"
    by (simp add: find_open_fd_def std_fds_def empty_fd_def upt_conv_Cons)
  show "\<exists>s1 s2. syscall_open L fr 0x10 demo_open = Some (2, s1) \<and> syscall_close 2 s1 = Some (0, s2)"
    using open_close_roundtrip [of demo_open "0x10" "[0x61]" 0 2 L fr] str lk std_fds_ok demo_entry_type [of 0] fo
    by auto
qed

text \<open>\<open>read\<close> and \<open>write\<close> refuse what they cannot serve and change nothing: numbers above 7, reads
  from standard output, writes to standard input, closed descriptors, and writes to files and
  directories return -1; on a well-formed table a write always returns.\<close>
theorem read_write_guards:
  fixes s :: "'a tty_scheme"
  assumes "tasks_running s < 6" "fds_ok (fd_array s)"
  shows "(fdn > 7 \<or> fdn = 1 \<or> flags (fd_array s ! unat fdn) = 0 \<longrightarrow>
      syscall_read irqs hs fdn buf n s = Some (-1, s)) \<and>
    (fdn > 7 \<or> fdn = 0 \<or> flags (fd_array s ! unat fdn) = 0 \<or>
      fops (fd_array s ! unat fdn) \<in> {Some File_fops, Some Dir_fops} \<longrightarrow>
      syscall_write fdn buf n s = Some (-1, s)) \<and>
    (\<exists>r s'. syscall_write fdn buf n s = Some (r, s'))"
proof -
  have "fdn < 1 \<longleftrightarrow> fdn = 0" by (simp add: word_less_nat_alt unat_eq_0)
  moreover have "\<exists>r s'. syscall_write fdn buf n s = Some (r, s')"
  proof (cases "fdn > 7 \<or> fdn < 1 \<or> flags (fd_array s ! unat fdn) = 0")
    case True
    then show ?thesis by (auto simp: syscall_write_def)
  next
    case False
    then have "unat fdn < 8" "1 \<le> unat fdn" by (auto simp: word_less_nat_alt not_less)
    then have "unat fdn = 1 \<or> 2 \<le> unat fdn \<and> unat fdn < 8" by linarith
    then have "\<exists>t. fops (fd_array s ! unat fdn) = Some t \<and> t \<noteq> Stdin_fops"
      using assms(2) False by (auto simp: fds_ok_def closable_def)
    then show ?thesis
      by (auto simp: syscall_write_def fops_write_def Let_def split: fops_table.splits)
  qed
  ultimately show ?thesis
    by (auto simp: syscall_read_def syscall_write_def fops_has_write_def fops_write_def
        file_write_def dir_write_def Let_def)
qed

lemma read_write_guards_witness:
  "syscall_read [] [] 1 0x1000 4 demo_open = Some (-1, demo_open) \<and>
   syscall_write 0 0x1000 4 demo_open = Some (-1, demo_open)"
  using read_write_guards [of demo_open 1 "[]" "[]" "0x1000" 4] read_write_guards [of demo_open 0 "[]" "[]" "0x1000" 4]
    std_fds_ok by simp

lemma file_read_prefix:
  assumes ok: "image_ok (memory s) (boot_block s)" and ino: "ino < boot_inodes (memory s) (boot_block s)"
    and buf: "buf \<noteq> 0" "off_image (memory s) (boot_block s) buf (unat n)"
    and n: "unat n < 1023 * 4096" "unat n div 4096 * 4096 \<le> file_size (memory s) (boot_block s) ino"
    and fsize: "fsize = file_size (memory s) (boot_block s) ino" and k: "k = min (unat n) fsize"
  shows "file_read ino 0 buf n s = (int k, ino, of_nat k,
      s\<lparr>memory := put (memory s) buf (map (file_byte (memory s) (boot_block s) ino) [0..<k])\<rparr>)"
proof -
  let ?m = "memory s" and ?bb = "boot_block s"
  have E: "read_end fsize 0 (unat n) = k" using n(2) by (simp add: read_end_def Let_def k fsize)
  have off: "off_image ?m ?bb buf (read_end (file_size ?m ?bb ino) (unat 0) (unat n) - unat 0)"
    using buf(2) E unat_u32 [of n] by (auto simp: off_image_def k fsize simp del: unat_u32)
  have "read_data ?bb ino 0 buf n ?m = (int k, put ?m buf (map (file_byte ?m ?bb ino) [0..<k]))"
    using read_data_spec [OF ok ino buf(1) _ off] n(1) E by (auto simp: k fsize Let_def)
  then show ?thesis by (auto simp: file_read_def k)
qed

text \<open>What is opened is what is read: after opening a regular file, a read from the new
  descriptor with room for \<open>n\<close> bytes returns the first \<open>n\<close> bytes of the file, or all of it
  when it is shorter, in the caller's buffer and leaves the position behind them, so that the
  next read continues there.\<close>
theorem open_then_read:
  fixes s :: "'a tty_scheme"
  assumes "tasks_running s < 6" "fds_ok (fd_array s)" "filename \<noteq> 0"
    and "string_at (memory s) filename xs" "xs \<noteq> []" "length xs \<le> 32"
    and "lookup (memory s) (boot_block s) xs = Some i"
    and "d = dentry_at (memory s) (entry_addr (boot_block s) (of_nat i))" "d_type d = 2"
    and "find_open_fd (fd_array s) = Some k" "file_position (fd_array s ! k) = 0"
    and "image_ok (memory s) (boot_block s)" "d_inode d < boot_inodes (memory s) (boot_block s)"
    and "buf \<noteq> 0" "off_image (memory s) (boot_block s) buf (unat n)"
    and "unat n < 1023 * 4096" "unat n div 4096 * 4096 \<le> file_size (memory s) (boot_block s) (d_inode d)"
  shows "\<exists>s1 s2. syscall_open L fr filename s = Some (int k, s1) \<and>
    (let m = min (unat n) (file_size (memory s) (boot_block s) (d_inode d)) in
      syscall_read irqs hs (of_nat k) buf n s1 = Some (int m, s2) \<and>
      memory s2 = put (memory s) buf (map (file_byte (memory s) (boot_block s) (d_inode d)) [0..<m]) \<and>
      file_position (fd_array s2 ! k) = of_nat m)"
proof -
  let ?t = "tasks_running s" and ?ino = "d_inode d"
  have len: "length (fd_array s) = 8" using assms(2) by (simp add: fds_ok_def)
  have k: "2 \<le> k" "k < 8" using fd_table.search_Some [OF len, of k] assms(10) by simp_all
  define s1 where "s1 = upd_fd ?t k (opened_fd File_fops ?ino) s"
  have op: "syscall_open L fr filename s = Some (int k, s1)"
    using syscall_open_found [OF assms(1) len assms(3-6,10,7,8)] assms(9) by (simp add: s1_def type_fops_def)
  define f where "f = opened_fd File_fops ?ino (fd_array s ! k)"
  have fds: "fd_array s1 = (fd_array s)[k := f]" unfolding s1_def f_def by (rule fds_of_upd_fd)
  have f: "flags f \<noteq> 0" "fops f = Some File_fops" "inode f = ?ino" "file_position f = 0"
    using assms(11) by (simp_all add: f_def opened_fd_def)
  define m where "m = min (unat n) (file_size (memory s) (boot_block s) ?ino)"
  have s1: "memory s1 = memory s" "boot_block s1 = boot_block s" "tasks_running s1 = ?t" by (simp_all add: s1_def)
  define s2 where "s2 = upd_fd ?t k (\<lambda>f. f\<lparr>inode := ?ino, file_position := of_nat m\<rparr>)
    (s1\<lparr>memory := put (memory s) buf (map (file_byte (memory s) (boot_block s) ?ino) [0..<m])\<rparr>)"
  have rd: "file_read ?ino 0 buf n s1 = (int m, ?ino, of_nat m,
      s1\<lparr>memory := put (memory s) buf (map (file_byte (memory s) (boot_block s) ?ino) [0..<m])\<rparr>)"
    using file_read_prefix [of s1 ?ino buf n, OF _ _ assms(14) _ assms(16) _ refl refl] assms(12,13,15,17)
    by (simp add: s1 m_def)
  have u: "unat (of_nat k :: u32) = k" using k by (simp add: unat_of_nat take_bit_nat_eq_self)
  then have nk: "\<not> (of_nat k > (7 :: u32) \<or> of_nat k = (1 :: u32))"
    using k by (auto simp: word_less_nat_alt word_unat_eq_iff)
  have fk: "fd_array s1 ! k = f" using k len by (simp add: fds)
  have "syscall_read irqs hs (of_nat k) buf n s1 = Some (int m, s2)"
    using nk get_pcb_nonzero [OF assms(1)] f fk rd unfolding syscall_read_def fops_read_def u s1(3)
    by (simp add: fops_has_read_def s2_def fd_array_def [of s1, symmetric, unfolded s1(3)] Let_def)
  moreover have "file_position (fd_array s2 ! k) = of_nat m"
    using k len fds by (simp add: s2_def fd_array_def upd_fd_def s1_def)
  moreover have "memory s2 = put (memory s) buf (map (file_byte (memory s) (boot_block s) ?ino) [0..<m])"
    by (simp add: s2_def)
  ultimately show ?thesis using op unfolding m_def [symmetric] Let_def by blast
qed

lemma open_then_read_witness:
  "\<forall>L fr. \<exists>s1 s2. syscall_open L fr 0x10 demo_open = Some (2, s1) \<and>
    syscall_read [] [] 2 0x1000 2 s1 = Some (2, s2) \<and> file_position (fd_array s2 ! 2) = 2"
proof (intro allI)
  fix L fr
  have str: "string_at demo_image 0x10 [0x61]" by (simp add: string_at_eval demo_image_def)
  have lk: "lookup demo_image 0x100000 [0x61] = Some 0"
    unfolding lookup_def by (subst upt_conv_Cons) (simp_all add: demo_entry_name)
  have fo: "find_open_fd std_fds = Some 2" "file_position (std_fds ! 2) = 0"
    by (simp_all add: find_open_fd_def std_fds_def empty_fd_def upt_conv_Cons)
  have e: "entry_addr 0x100000 0 = 0x100040" by (simp add: entry_addr_def)
  have d: "d_inode (dentry_at demo_image 0x100040) = 0" "d_type (dentry_at demo_image 0x100040) = 2"
    by (simp_all add: dentry_at_def rd32_def demo_image_def)
  show "\<exists>s1 s2. syscall_open L fr 0x10 demo_open = Some (2, s1) \<and>
    syscall_read [] [] 2 0x1000 2 s1 = Some (2, s2) \<and> file_position (fd_array s2 ! 2) = 2"
    using open_then_read [of demo_open "0x10" "[0x61]" 0 _ 2 "0x1000" 2 L fr "[]" "[]", OF _ _ _ _ _ _ _ refl]
      str lk std_fds_ok fo d demo_image_ok demo_off_image [of 2] e
    by (auto simp: Let_def)
qed

subsection \<open>getargs and vidmap\<close>

lemma strlen_buf_Cons:
  assumes "0 \<notin> set arg" shows "strlen_buf (arg @ 0 # rest) = Some (of_nat (length arg))"
proof -
  have "List.find (\<lambda>i. (arg @ 0 # rest) ! i = 0) [0..<length (arg @ 0 # rest)] = Some (length arg)"
    unfolding find_upt_Some using assms by (auto simp: nth_append in_set_conv_nth)
  then show ?thesis unfolding strlen_buf_def by simp
qed

text \<open>C35: \<open>getargs\<close> hands over the argument string: it returns -1 and writes nothing when there is no
  argument or the buffer is smaller than it, and otherwise fills exactly the caller's buffer,
  the argument buffer first and zeros behind it. With room for one byte more than the
  argument the caller gets a C string; with exactly its length the NUL is missing.\<close>
theorem getargs_correct:
  fixes s :: "'a tty_scheme"
  assumes "argument_buf (pcb_of (tasks_running s) s) = arg @ 0 # rest" "length (arg @ 0 # rest) = 129"
    and "0 \<notin> set arg" "buf \<noteq> 0" "0 \<le> n" "n < 2 ^ 31"
  shows "if arg = [] \<or> n < int (length arg) then syscall_getargs buf n s = Some (-1, s)
    else (\<exists>s'. syscall_getargs buf n s = Some (0, s') \<and>
      load (memory s') buf (nat n) = take (nat n) (arg @ 0 # rest) @ replicate (nat n - 129) 0 \<and>
      (\<forall>a. unat (a - buf) \<ge> nat n \<longrightarrow> memory s' a = memory s a) \<and>
      (n > int (length arg) \<longrightarrow> string_at (memory s') buf arg))"
proof -
  let ?buf = "arg @ 0 # rest"
  have u: "unat (word_of_int n :: u32) = nat n" using assms(5,6) by (intro unat_word_of_int) simp_all
  have la: "unat (of_nat (length arg) :: u32) = length arg"
    using assms(2) by (simp add: unat_of_nat take_bit_nat_eq_self)
  have short: "(of_nat (length arg) :: u32) > word_of_int n \<longleftrightarrow> n < int (length arg)"
    using assms(5) by (simp add: word_less_nat_alt u la nat_less_iff)
  have first: "?buf ! 0 = NULL_CHAR \<longleftrightarrow> arg = []"
    using assms(3) by (cases arg) (auto simp: NULL_CHAR_def)
  show ?thesis
  proof (cases "arg = [] \<or> n < int (length arg)")
    case True
    then show ?thesis
      using assms(1,4) short first strlen_buf_Cons [OF assms(3), of rest]
      by (auto simp: syscall_getargs_def Let_def)
  next
    case False
    define m where "m = put (memset (memory s) buf 0 (word_of_int n)) buf (take (nat n) ?buf)"
    have tk: "take 129 ?buf = ?buf" "n > 129 \<Longrightarrow> take (nat n) ?buf = ?buf" using assms(2) by simp_all
    have run: "syscall_getargs buf n s = Some (0, s\<lparr>memory := m\<rparr>)"
      using False assms(1,4,5) short first strlen_buf_Cons [OF assms(3), of rest] tk
      by (cases "n > 129") (simp_all add: syscall_getargs_def ARGUMENT_SIZE_def Let_def m_def)
    have inside: "m (buf + of_nat i) = (take (nat n) ?buf @ replicate (nat n - 129) 0) ! i" if i: "i < nat n" for i
    proof (cases "i < length (take (nat n) ?buf)")
      case True
      have "length (take (nat n) ?buf) \<le> 4294967296" using assms(2) by simp
      then show ?thesis
        using put_inside [OF True] unfolding m_def nth_append if_P [OF True] by simp
    next
      case f: False
      then have i129: "129 \<le> i" using i assms(2) by simp
      have i32: "i < 4294967296" using i assms(6) by simp
      have ui: "unat (of_nat i :: u32) = i" using i32 by (simp add: unat_of_nat take_bit_nat_eq_self)
      have "m (buf + of_nat i) = memset (memory s) buf 0 (word_of_int n) (buf + of_nat i)"
        unfolding m_def using f by (intro put_outside) (simp add: ui)
      also have "\<dots> = 0" using i by (simp add: memset_filled filled_def u ui)
      finally have z: "m (buf + of_nat i) = 0" .
      have l: "length (take (nat n) ?buf) = 129" using i i129 assms(2) by simp
      have "i - 129 < nat n - 129" using i i129 by simp
      then have "(take (nat n) ?buf @ replicate (nat n - 129) 0) ! i = 0"
        unfolding nth_append l if_not_P [OF i129 [folded not_less]] by (rule nth_replicate)
      then show ?thesis using z by simp
    qed
    have load: "load m buf (nat n) = take (nat n) ?buf @ replicate (nat n - 129) 0"
      using inside assms(2) by (intro nth_equalityI) auto
    have outside: "m a = memory s a" if "unat (a - buf) \<ge> nat n" for a
      using that unfolding m_def by (subst put_outside) (simp_all add: memset_filled filled_def u)
    have "string_at m buf arg" if "n > int (length arg)"
    proof -
      have "m (buf + of_nat i) = ?buf ! i" if "i \<le> length arg" for i
      proof -
        have "i < nat n" "i < length (take (nat n) ?buf)" using that \<open>n > int (length arg)\<close> assms(2) by simp_all
        then show ?thesis using inside [of i] by (simp add: nth_append [of "take (nat n) ?buf"] del: take_append)
      qed
      then show ?thesis using assms(2,3) by (auto simp: string_at_def nth_append)
    qed
    then show ?thesis
      unfolding if_not_P [OF False] using run load outside by (intro exI [of _ "s\<lparr>memory := m\<rparr>"]) simp
  qed
qed

lemma getargs_correct_witness:
  "\<exists>s'. syscall_getargs 0x1000 20 (upd_pcb 0 (\<lambda>p. p\<lparr>argument_buf := [0x66] @ 0 # replicate 127 0\<rparr>) demo_open) =
    Some (0, s') \<and> string_at (memory s') 0x1000 [0x66]"
  using getargs_correct [of "upd_pcb 0 (\<lambda>p. p\<lparr>argument_buf := [0x66] @ 0 # replicate 127 0\<rparr>) demo_open"
      "[0x66]" "replicate 127 0" "0x1000" 20]
  by simp blast

text \<open>\<open>vidmap\<close> refuses only the two addresses it tests for, and otherwise gives the program the page
  at 148 MB: user code may use it, it shows the frame of the text screen, no page outside its 4 MB
  changes, and the address is stored where the caller asked.\<close>
theorem vidmap_correct:
  fixes s :: "'a tty_scheme"
  assumes "tables_ok (paging_tables L)" "video_page_private (paging_tables L) s"
  shows "if p = 0 \<or> p = fourM then syscall_vidmap L p s = (-1, s)
    else (\<exists>s'. syscall_vidmap L p s = (0, s') \<and>
      walk (paging_tables L) s' (addr_148MB div 4096) = Some (video_mem_addr, True) \<and>
      (\<forall>vpn < 0x100000. vpn div 1024 \<noteq> 37 \<longrightarrow> walk (paging_tables L) s' vpn = walk (paging_tables L) s vpn) \<and>
      rd32 (memory s') p = addr_148MB)"
proof (cases "p = 0 \<or> p = fourM")
  case True
  then show ?thesis by (simp add: syscall_vidmap_def)
next
  case False
  have w: "walk T (u\<lparr>memory := m\<rparr>) = walk T u" for T m and u :: "'a tty_scheme"
    by (rule walk_cong) simp_all
  show ?thesis
    using False walk_map [OF assms] walk_map [OF assms, of "0x9400"]
    by (simp add: syscall_vidmap_def Let_def rd32_wr32 w addr_148MB_def)
qed

lemma vidmap_correct_witness:
  "\<forall>s :: tty. \<exists>s'. syscall_vidmap \<lparr>paging_tables = \<lparr>directory_addr = 0x2000, table_addr = 0x3000, video_page_addr = 0x4000\<rparr>,
      lit_stdin = 0, lit_stdout = 0, lit_halting = 0, lit_max_programs = 0, lit_shell = 0\<rparr> 0x8048100
    (paging_init \<lparr>directory_addr = 0x2000, table_addr = 0x3000, video_page_addr = 0x4000\<rparr> s) = (0, s') \<and>
    rd32 (memory s') 0x8048100 = 0x9400000"
proof
  fix s :: tty
  let ?T = "\<lparr>directory_addr = 0x2000, table_addr = 0x3000, video_page_addr = 0x4000\<rparr>"
  let ?L = "\<lparr>paging_tables = ?T, lit_stdin = 0, lit_stdout = 0, lit_halting = 0, lit_max_programs = 0, lit_shell = 0\<rparr>"
  have ok: "tables_ok ?T" by (simp add: tables_ok_def)
  show "\<exists>s'. syscall_vidmap ?L 0x8048100 (paging_init ?T s) = (0, s') \<and> rd32 (memory s') 0x8048100 = 0x9400000"
    using vidmap_correct [of ?L "paging_init ?T s" "0x8048100"] ok private_init [OF ok, of s]
    by (auto simp: fourM_def addr_148MB_def)
qed

end
