(* ===== verification/Exec.thy ===== *)
theory Exec
  imports Descriptors
begin

section \<open>Programs start and end\<close>

text \<open>
  \<open>syscall_execute\<close> and \<open>syscall_halt\<close> of \<open>student-distrib/system_call.c\<close>: the command line is
  split as its specification says, the program's bytes are loaded into the new task's own
  memory, the task joins the forest of running tasks, and its end gives the parent its
  memory, its place and the exit status.
\<close>

subsection \<open>Parsing a command\<close>

text \<open>No byte of one region is a byte of the other.\<close>

definition apart :: "addr \<Rightarrow> nat \<Rightarrow> addr \<Rightarrow> nat \<Rightarrow> bool" where
  "apart a n b k \<longleftrightarrow> (\<forall>i < n. \<forall>j < k. a + of_nat i \<noteq> b + of_nat j)"

lemma string_at_cong: "(\<And>i. i \<le> length xs \<Longrightarrow> m' (a + of_nat i) = m (a + of_nat i)) \<Longrightarrow>
    string_at m' a xs = string_at m a xs"
  by (auto simp: string_at_def)

lemma string_at_store:
  assumes "string_at m a xs" "apart a (Suc (length xs)) b k" "j < k"
  shows "string_at (m(b + of_nat j := c)) a xs"
proof -
  have "a + of_nat i \<noteq> b + of_nat j" if "i \<le> length xs" for i
    using assms(2,3) that unfolding apart_def by simp
  then show ?thesis using assms(1) by (subst string_at_cong [of xs _ a m]) auto
qed

lemma skip_spaces_string:
  assumes s: "string_at m cmd xs"
  shows "i \<le> length xs \<Longrightarrow> skip_spaces m cmd (of_nat i) =
    Some (of_nat (i + length (takeWhile (\<lambda>c. c = SPACE_CHAR) (drop i xs))))"
proof (induction "length xs - i" arbitrary: i)
  case 0
  then have "i = length xs" by simp
  then show ?case
    using string_at_end [OF s] by (subst skip_spaces.simps) (simp add: SPACE_CHAR_def)
next
  case (Suc n)
  then have i: "i < length xs" by simp
  have c: "m (cmd + of_nat i) = xs ! i" using string_at_nth [OF s i] .
  have d: "drop i xs = xs ! i # drop (Suc i) xs" using i by (rule Cons_nth_drop_Suc [symmetric])
  have IH: "skip_spaces m cmd (of_nat (Suc i)) =
      Some (of_nat (Suc i + length (takeWhile (\<lambda>c. c = SPACE_CHAR) (drop (Suc i) xs))))"
    using Suc.hyps(1) [of "Suc i"] Suc.hyps(2) i by simp
  show ?case
  proof (cases "xs ! i = SPACE_CHAR")
    case True
    then show ?thesis using IH c d by (subst skip_spaces.simps) (simp add: add.commute)
  next
    case False
    then show ?thesis using c d by (subst skip_spaces.simps) simp
  qed
qed

lemma copy_while_string:
  assumes stop: "\<not> go 0"
  shows "string_at m cmd xs \<Longrightarrow> apart cmd (Suc (length xs)) dst lim \<Longrightarrow> i \<le> length xs \<Longrightarrow> j \<le> lim \<Longrightarrow>
    copy_while go lim dst cmd m (of_nat i) j =
      (let ys = take (lim - j) (takeWhile go (drop i xs))
       in (put m (dst + of_nat j) ys, of_nat (i + length ys), j + length ys))"
proof (induction "lim - j" arbitrary: i j m)
  case 0
  then show ?case by (subst copy_while.simps) simp
next
  case (Suc n)
  show ?case
  proof (cases "i = length xs")
    case True
    then show ?thesis
      using string_at_end [OF Suc.prems(1)] stop by (subst copy_while.simps) simp
  next
    case False
    then have i: "i < length xs" using Suc.prems(3) by simp
    have c: "m (cmd + of_nat i) = xs ! i" using string_at_nth [OF Suc.prems(1) i] .
    have d: "drop i xs = xs ! i # drop (Suc i) xs" using i by (rule Cons_nth_drop_Suc [symmetric])
    show ?thesis
    proof (cases "go (xs ! i)")
      case True
      let ?m = "m(dst + of_nat j := xs ! i)"
      have j: "j < lim" using Suc.hyps(2) by simp
      then have k: "lim - j = Suc (lim - Suc j)" by simp
      have "copy_while go lim dst cmd ?m (of_nat (Suc i)) (Suc j) =
        (let ys = take (lim - Suc j) (takeWhile go (drop (Suc i) xs))
         in (put ?m (dst + of_nat (Suc j)) ys, of_nat (Suc i + length ys), Suc j + length ys))"
        using Suc.hyps i j Suc.prems by (intro Suc.hyps(1) string_at_store) auto
      then show ?thesis
        using True c d j unfolding k
        by (subst copy_while.simps) (simp add: Let_def algebra_simps)
    next
      case False
      then show ?thesis using c d by (subst copy_while.simps) simp
    qed
  qed
qed

text \<open>The name and the argument of a command; \<open>None\<close> if the name has more than 32 characters.\<close>

definition command_name :: "u8 list \<Rightarrow> u8 list" where
  "command_name xs = takeWhile in_name (dropWhile (\<lambda>c. c = SPACE_CHAR) xs)"

definition command_argument :: "u8 list \<Rightarrow> u8 list" where
  "command_argument xs =
     (let rest = dropWhile in_name (dropWhile (\<lambda>c. c = SPACE_CHAR) xs)
      in take 128 (takeWhile in_argument (dropWhile (\<lambda>c. c = SPACE_CHAR) rest)))"

definition command_ok :: "frame \<Rightarrow> addr \<Rightarrow> mem \<Rightarrow> u8 list \<Rightarrow> bool" where
  "command_ok fr command m xs \<longleftrightarrow> string_at m command xs \<and>
     apart command (Suc (length xs)) (task_name_at fr) 33 \<and>
     apart command (Suc (length xs)) (argument_at fr) 129 \<and>
     apart (task_name_at fr) 33 (argument_at fr) 129"

lemma apart_mono: "apart a n b k \<Longrightarrow> n' \<le> n \<Longrightarrow> k' \<le> k \<Longrightarrow> apart a n' b k'"
  by (auto simp: apart_def)

lemma string_at_put_apart:
  assumes "string_at m a xs" "apart a (Suc (length xs)) b k" "length ys \<le> k"
  shows "string_at (put m b ys) a xs"
proof -
  have "put m b ys (a + of_nat i) = m (a + of_nat i)" if "i \<le> length xs" for i
  proof (rule put_outside, rule ccontr)
    assume "\<not> length ys \<le> unat (a + of_nat i - b)"
    then have "unat (a + of_nat i - b) < k" using assms(3) by simp
    moreover have "b + of_nat (unat (a + of_nat i - b)) = a + of_nat i" by simp
    ultimately show False using assms(2) that unfolding apart_def by (metis less_Suc_eq_le)
  qed
  then show ?thesis using assms(1) by (subst string_at_cong [of xs _ a m]) auto
qed

lemma string_at_stored:
  assumes "0 \<notin> set xs" "length xs < 2 ^ 32"
  shows "string_at (put m a (xs @ [0])) a xs"
  using assms by (intro string_at_put) auto

lemma drop_takeWhile_length: "drop (length (takeWhile P xs)) xs = dropWhile P xs"
  by (rule dropWhile_eq_drop [symmetric])

text \<open>What ends the name, given that the string's NUL would end it too.\<close>

lemma string_after_takeWhile:
  assumes s: "string_at m a xs" and i: "i \<le> length xs" and stop: "\<not> P 0"
  shows "\<not> P (m (a + of_nat (i + length (takeWhile P (drop i xs)))))"
proof (cases "length (takeWhile P (drop i xs)) < length (drop i xs)")
  case True
  then have "\<not> P (drop i xs ! length (takeWhile P (drop i xs)))" by (rule nth_length_takeWhile)
  then show ?thesis using True i string_at_nth [OF s] by (simp del: of_nat_add)
next
  case False
  then have "length (takeWhile P (drop i xs)) = length xs - i"
    using length_takeWhile_le [of P "drop i xs"] by simp
  then show ?thesis using string_at_end [OF s] i stop by (simp del: of_nat_add)
qed

lemma in_name_stop: "\<not> in_name 0" "\<not> in_argument 0"
  by (simp_all add: in_name_def in_argument_def NULL_CHAR_def)

lemma parse_command_correct:
  assumes ok: "command_ok fr cmd m xs"
  shows "parse_command fr cmd m =
    (if length (command_name xs) > 32 then Some (put m (task_name_at fr) (take 32 (command_name xs)), False)
     else Some (put (put m (task_name_at fr) (command_name xs @ [0])) (argument_at fr)
       (command_argument xs @ [0]), True))"
proof -
  let ?tn = "task_name_at fr" and ?an = "argument_at fr" and ?name = "command_name xs"
  have s: "string_at m cmd xs" and ap: "apart cmd (Suc (length xs)) ?tn 33"
    "apart cmd (Suc (length xs)) ?an 129" "apart ?tn 33 ?an 129"
    using ok by (simp_all add: command_ok_def)
  define k where "k = length (takeWhile (\<lambda>c. c = SPACE_CHAR) xs)"
  have k: "k \<le> length xs" "drop k xs = dropWhile (\<lambda>c. c = SPACE_CHAR) xs"
    unfolding k_def by (simp_all add: drop_takeWhile_length length_takeWhile_le)
  have sk: "skip_spaces m cmd 0 = Some (of_nat k)"
    using skip_spaces_string [OF s, of 0] by (simp add: k_def)
  have name: "?name = takeWhile in_name (drop k xs)" by (simp add: command_name_def k(2))
  have cn: "copy_name ?tn cmd m (of_nat k) = (put m ?tn (take 32 ?name),
      of_nat (k + length (take 32 ?name)), length (take 32 ?name))"
    using copy_while_string [where go = in_name, OF in_name_stop(1) s apart_mono [OF ap(1) order_refl, of 32] k(1), of 0]
    by (simp add: copy_name_def TASKNAME_SIZE_def name Let_def)
  show ?thesis
  proof (cases "length ?name > 32")
    case True
    have "k + 32 < length xs" using True length_takeWhile_le [of in_name "drop k xs"] k(1) by (simp add: name)
    then have "m (cmd + of_nat (k + 32)) = ?name ! 32" "in_name (?name ! 32)"
      using string_at_nth [OF s, of "k + 32"] True takeWhile_nth [of 32 in_name "drop k xs"]
        nth_mem [of 32 ?name]
      by (auto simp: name simp del: of_nat_add dest: set_takeWhileD)
    moreover have "string_at (put m ?tn (take 32 ?name)) cmd xs"
      by (rule string_at_put_apart [OF s ap(1)]) simp
    then have "put m ?tn (take 32 ?name) (cmd + of_nat (k + 32)) = m (cmd + of_nat (k + 32))"
      using string_at_nth [OF _ \<open>k + 32 < length xs\<close>] s by metis
    ultimately show ?thesis
      using True sk cn by (simp add: parse_command_def TASKNAME_SIZE_def min_def)
  next
    case False
    let ?m = "put m ?tn ?name" and ?m2 = "put m ?tn (?name @ [0])" and ?i = "k + length ?name"
    have i: "?i \<le> length xs" using length_takeWhile_le [of in_name "drop k xs"] k(1) by (simp add: name)
    have m2: "?m(?tn + of_nat (length ?name) := 0) = ?m2" by (simp add: put_snoc)
    have s1: "string_at ?m cmd xs" by (rule string_at_put_apart [OF s ap(1)]) (use False in simp)
    have s2: "string_at ?m2 cmd xs" by (rule string_at_put_apart [OF s ap(1)]) (use False in simp)
    have nin: "\<not> in_name (?m (cmd + of_nat ?i))"
      using string_after_takeWhile [where P = in_name, OF s1 k(1) in_name_stop(1)] by (simp add: name)
    have rest: "drop ?i xs = dropWhile in_name (dropWhile (\<lambda>c. c = SPACE_CHAR) xs)"
    proof -
      have "drop ?i xs = drop (length ?name) (drop k xs)" by (simp add: add.commute)
      also have "\<dots> = dropWhile in_name (drop k xs)" by (simp only: name drop_takeWhile_length)
      finally show ?thesis by (simp only: k(2))
    qed
    define j where "j = ?i + length (takeWhile (\<lambda>c. c = SPACE_CHAR) (drop ?i xs))"
    have sk2: "skip_spaces ?m2 cmd (of_nat ?i) = Some (of_nat j)"
      using skip_spaces_string [OF s2 i] by (simp add: j_def)
    have j: "j \<le> length xs" "drop j xs = dropWhile (\<lambda>c. c = SPACE_CHAR) (drop ?i xs)"
      using i length_takeWhile_le [of "\<lambda>c. c = SPACE_CHAR" "drop ?i xs"]
        drop_takeWhile_length [of "\<lambda>c. c = SPACE_CHAR" "drop ?i xs"]
      by (simp_all add: j_def add.commute)
    have arg: "command_argument xs = take 128 (takeWhile in_argument (drop j xs))"
      by (simp add: command_argument_def j(2) rest Let_def)
    have ca: "copy_argument ?an cmd ?m2 (of_nat j) = (put ?m2 ?an (command_argument xs),
        of_nat (j + length (command_argument xs)), length (command_argument xs))"
      using copy_while_string [where go = in_argument, OF in_name_stop(2) s2 apart_mono [OF ap(2) order_refl, of 128] j(1), of 0]
      by (simp add: copy_argument_def ARGUMENT_SIZE_def arg Let_def)
    have "parse_command fr cmd m = do {
        i \<leftarrow> skip_spaces (?m(?tn + of_nat (length ?name) := 0)) cmd (of_nat ?i);
        let (m, i, j) = copy_argument ?an cmd (?m(?tn + of_nat (length ?name) := 0)) i;
        Some (m(?an + of_nat j := 0), True) }"
      using False sk cn nin by (simp add: parse_command_def min_def NULL_CHAR_def Let_def)
    also have "\<dots> = Some (put ?m2 ?an (command_argument xs @ [0]), True)"
      unfolding m2 by (simp only: sk2 ca Let_def prod.case bind.bind_lunit
          put_snoc [of ?m2 ?an "command_argument xs" 0])
    finally show ?thesis using False by simp
  qed
qed

lemma set_command: "\<forall>c \<in> set (command_name xs). in_name c" "0 \<notin> set (command_name xs)"
    "0 \<notin> set (command_argument xs)" "length (command_argument xs) \<le> 128"
  unfolding command_name_def command_argument_def Let_def
  by (auto simp: in_name_def in_argument_def NULL_CHAR_def dest!: in_set_takeD dest: set_takeWhileD)

text \<open>The memory a command leaves: both strings in their arrays.\<close>

definition parsed_memory :: "frame \<Rightarrow> u8 list \<Rightarrow> mem \<Rightarrow> mem" where
  "parsed_memory fr xs m = put (put m (task_name_at fr) (command_name xs @ [0])) (argument_at fr)
       (command_argument xs @ [0])"

lemma parsed_strings:
  assumes "command_ok fr cmd m xs" "length (command_name xs) \<le> 32"
  shows "string_at (parsed_memory fr xs m) (task_name_at fr) (command_name xs)"
    "string_at (parsed_memory fr xs m) (argument_at fr) (command_argument xs)"
proof -
  have "apart (task_name_at fr) (Suc (length (command_name xs))) (argument_at fr) 129"
    using assms by (auto simp: command_ok_def intro: apart_mono)
  then show "string_at (parsed_memory fr xs m) (task_name_at fr) (command_name xs)"
    unfolding parsed_memory_def using assms(2) set_command [of xs]
    by (intro string_at_put_apart string_at_stored) auto
  show "string_at (parsed_memory fr xs m) (argument_at fr) (command_argument xs)"
    unfolding parsed_memory_def using set_command(3,4) [of xs]
    by (intro string_at_stored) auto
qed

lemma name_given_string:
  assumes s: "string_at m (task_name_at fr) name" and n: "\<forall>c \<in> set name. in_name c" "length name \<le> 32"
  shows "name_given fr m = Some (name \<noteq> [])"
proof -
  have "strlen m (task_name_at fr) = Some (of_nat (length name))" by (rule strlen_string [OF s])
  moreover have "unat (of_nat (length name) :: u32) = length name"
    using n(2) by (simp add: unat_of_nat take_bit_nat_eq_self)
  moreover have "m (task_name_at fr + of_nat i) \<noteq> SPACE_CHAR" if "i < length name" for i
    using string_at_nth [OF s that] n(1) nth_mem [OF that] by (auto simp: in_name_def)
  ultimately show ?thesis
    by (cases name) (auto simp: name_given_def list_ex_iff intro!: bexI [of _ 0])
qed

subsection \<open>The new task\<close>

text \<open>The state in which the program file is read: the window already shows the new task.\<close>

definition window_of :: "u32 \<Rightarrow> 'a tty_scheme \<Rightarrow> mem" where
  "window_of n s = memory (syscall_paging_setup (task_frame n) s)"

definition new_pcb :: "frame \<Rightarrow> u32 \<Rightarrow> u32 \<Rightarrow> u32 \<Rightarrow> mem \<Rightarrow> pcb \<Rightarrow> pcb" where
  "new_pcb fr n parent eip m p = p\<lparr>fd := std_fds, file_name := load m (task_name_at fr) TASKNAME_SIZE,
     task_id := n, task_id_child := -1, task_id_parent := parent, old_ebp := frame_ebp fr,
     old_esp := frame_esp fr, old_eip := eip, argument_buf := load m (argument_at fr) ARGUMENT_SIZE\<rparr>"

lemma window_of_cong:
  fixes s t :: "'a tty_scheme"
  assumes "memory t = memory s" "frames t = frames s" "page_directory t = page_directory s"
  shows "window_of n t = window_of n s"
proof -
  have "saved_frames t = saved_frames s" by (rule saved_frames_cong) (simp_all add: assms)
  then show ?thesis unfolding window_of_def setup_memory assms(1) by (simp only:)
qed

lemma load_program_spec:
  assumes "read_data (boot_block s) (d_inode f) 0 program_addr twoM (window_of (tasks_running s) s) = (cnt, m)"
  shows "load_program f s = (rd32 m (program_addr + 24),
    (syscall_paging_setup (task_frame (tasks_running s)) s)\<lparr>memory := m\<rparr>)"
proof -
  have e: "eightM + tasks_running s * fourM = task_frame (tasks_running s)"
    by (simp add: task_frame_def)
  show ?thesis
    using assms by (simp add: load_program_def e window_of_def eip_offset_def)
qed

lemma create_pcb_frame:
  "\<exists>pc. create_pcb fr old eip s = s\<lparr>pcbs := pc\<rparr>"
  by (simp add: create_pcb_def Let_def fda_init_eq upd_pcb_def) (auto intro: exI [of _ "pcbs s"])

lemma create_pcb_spec:
  fixes s :: "'a tty_scheme"
  assumes n: "tasks_running s = n" "n < 6" and old: "3 \<le> n \<Longrightarrow> old < 6 \<and> old \<noteq> n" and j: "j < 6"
  shows "pcb_of j (create_pcb fr old eip s) =
      (if j = n then new_pcb fr n (if 3 \<le> n then old else -1) eip (memory s) (pcb_of n s)
       else if 3 \<le> n \<and> j = old then (pcb_of j s)\<lparr>task_id_child := n\<rparr> else pcb_of j s)"
  using n old j by (simp add: create_pcb_def fda_init_eq pcb_of_upd new_pcb_def)

subsection \<open>What execute does\<close>

text \<open>
  Where a call's local arrays are: on the kernel stack, apart from each other, from the file
  system image and from the program window.
\<close>

definition kernel_layout :: "frame \<Rightarrow> 'a fs_scheme \<Rightarrow> bool" where
  "kernel_layout fr s \<longleftrightarrow> image_ok (memory s) (boot_block s) \<and>
     (\<forall>a. in_window a \<longrightarrow> \<not> in_image (memory s) (boot_block s) a) \<and>
     off_image (memory s) (boot_block s) (task_name_at fr) 33 \<and>
     off_image (memory s) (boot_block s) (argument_at fr) 129 \<and>
     off_image (memory s) (boot_block s) (elf_buf_at fr) 4 \<and> elf_buf_at fr \<noteq> 0 \<and>
     apart (task_name_at fr) 33 (elf_buf_at fr) 4 \<and> apart (argument_at fr) 129 (elf_buf_at fr) 4 \<and>
     (\<forall>j < 33. \<not> in_window (task_name_at fr + of_nat j)) \<and>
     (\<forall>j < 129. \<not> in_window (argument_at fr + of_nat j)) \<and>
     (\<forall>j < 4. \<not> in_window (elf_buf_at fr + of_nat j))"

lemma program_in_window: "k < 0x200000 \<Longrightarrow> in_window (program_addr + of_nat k)"
proof -
  assume k: "k < 0x200000"
  have d: "program_addr + of_nat k - virtual_mem = of_nat (0x48000 + k)"
    by (simp add: program_addr_def virtual_mem_def)
  have "unat (of_nat (0x48000 + k) :: u32) = 0x48000 + k"
    using k by (simp only: unat_of_nat) (simp add: take_bit_nat_eq_self)
  then show ?thesis using k by (simp only: in_window_def d word_less_nat_alt) (simp add: fourM_def)
qed

lemma program_off_image:
  assumes "\<forall>a. in_window a \<longrightarrow> \<not> in_image m bb a"
  shows "off_image m bb program_addr 0x200000"
  using assms program_in_window by (simp add: off_image_def)

lemma same_image_window:
  assumes "image_ok m bb" "\<forall>a. in_window a \<longrightarrow> \<not> in_image m bb a" "\<And>a. \<not> in_window a \<Longrightarrow> m' a = m a"
  shows "same_image bb m m'"
  using assms by (auto simp: same_image_def image_ok_def)

lemma load_apart:
  assumes "apart a n b k" "length ys \<le> k"
  shows "load (put m b ys) a n = load m a n"
proof (rule nth_equalityI)
  fix i assume "i < length (load (put m b ys) a n)"
  then have i: "i < n" by simp
  have "put m b ys (a + of_nat i) = m (a + of_nat i)"
  proof (rule put_outside, rule ccontr)
    assume "\<not> length ys \<le> unat (a + of_nat i - b)"
    then have "unat (a + of_nat i - b) < k" using assms(2) by simp
    moreover have "b + of_nat (unat (a + of_nat i - b)) = a + of_nat i" by simp
    ultimately show False using assms(1) i unfolding apart_def by metis
  qed
  then show "load (put m b ys) a n ! i = load m a n ! i" using i by simp
qed simp

lemma load_string: "string_at m a xs \<Longrightarrow> load m a (Suc (length xs)) = xs @ [0]"
  by (intro nth_equalityI) (auto simp: nth_append string_at_nth string_at_end less_Suc_eq simp del: word_Suc_of_nat)

text \<open>Loading a program of at most 2 MB: its bytes appear at \<open>program_addr\<close>, none elsewhere.\<close>

lemma load_program_file:
  assumes ok: "image_ok m bb" "\<forall>a. in_window a \<longrightarrow> \<not> in_image m bb a"
    and ino: "ino < boot_inodes m bb" and sz: "0 < file_size m bb ino" "file_size m bb ino < 0x200000"
  shows "read_data bb ino 0 program_addr twoM m =
    (0x200000, put m program_addr (map (file_byte m bb ino) [0..<0x200000]))"
proof -
  have e: "read_end (file_size m bb ino) 0 0x200000 = 0x200000"
    using sz by (simp add: read_end_def)
  have "read_data bb ino 0 program_addr twoM m =
      (let E = read_end (file_size m bb ino) (unat 0) (unat twoM)
       in (int (E - unat 0), put m program_addr (map (file_byte m bb ino) [unat 0..<E])))"
    using ino sz program_off_image [OF ok(2)] e
    by (subst read_data_spec [OF ok(1) ino]) (simp_all add: program_addr_def twoM_def)
  then show ?thesis by (simp add: e twoM_def Let_def del: upt_conv_Cons)
qed

text \<open>The inode \<open>execute\<close> reads: of the entry found, or of the uninitialised local if none is.\<close>

definition exec_inode :: "frame \<Rightarrow> u8 list \<Rightarrow> 'a fs_scheme \<Rightarrow> u32" where
  "exec_inode fr name s = (case lookup (memory s) (boot_block s) name of
       Some i \<Rightarrow> d_inode (dentry_at (memory s) (entry_addr (boot_block s) (of_nat i)))
     | None \<Rightarrow> d_inode (frame_dentry fr))"

definition file_is_elf :: "mem \<Rightarrow> addr \<Rightarrow> u32 \<Rightarrow> bool" where
  "file_is_elf m bb ino \<longleftrightarrow> 4 \<le> file_size m bb ino \<and>
     map (file_byte m bb ino) [0, 1, 2, 3] = [0x7F, 0x45, 0x4C, 0x46]"

definition checked_memory :: "frame \<Rightarrow> u8 list \<Rightarrow> 'a fs_scheme \<Rightarrow> mem" where
  "checked_memory fr xs s = (let m = parsed_memory fr xs (memory s); ino = exec_inode fr (command_name xs) s
     in put m (elf_buf_at fr) (map (file_byte m (boot_block s) ino) [0..<min 4 (file_size m (boot_block s) ino)]))"

lemma off_image_mono: "off_image m bb buf n \<Longrightarrow> k \<le> n \<Longrightarrow> off_image m bb buf k"
  by (auto simp: off_image_def)

lemma lookup_bound: "lookup m bb name = Some i \<Longrightarrow> i < 63"
  by (auto simp: lookup_def find_Some_iff)

lemma parsed_same_image:
  assumes "kernel_layout fr s" "length (command_name xs) \<le> 32"
  shows "same_image (boot_block s) (memory s) (parsed_memory fr xs (memory s))"
proof -
  have 1: "same_image (boot_block s) (memory s) (put (memory s) (task_name_at fr) (command_name xs @ [0]))"
    using assms by (intro same_image_put [where n = 33]) (simp_all add: kernel_layout_def)
  have "off_image (memory s) (boot_block s) (argument_at fr) 129" "image_ok (memory s) (boot_block s)"
    using assms(1) by (simp_all add: kernel_layout_def)
  then have "same_image (boot_block s) (put (memory s) (task_name_at fr) (command_name xs @ [0]))
      (parsed_memory fr xs (memory s))"
    unfolding parsed_memory_def using set_command(4) [of xs] same_image_ok [OF 1]
    by (intro same_image_put [where n = 129]) auto
  with 1 show ?thesis by (rule same_image_trans)
qed

text \<open>The entry \<open>execute\<close> goes on with, found or not.\<close>

lemma parsed_entry:
  assumes cmd: "command_ok fr cmd (memory s) xs" "length (command_name xs) \<le> 32" and lay: "kernel_layout fr s"
  defines "m \<equiv> parsed_memory fr xs (memory s)"
  shows "\<exists>f r. read_dentry_by_name m (boot_block s) (task_name_at fr) (Some (frame_dentry fr)) = Some (r, Some f) \<and>
    d_inode f = exec_inode fr (command_name xs) s"
proof -
  note same = parsed_same_image [OF lay cmd(2), folded m_def]
  have str: "string_at m (task_name_at fr) (command_name xs)" unfolding m_def by (rule parsed_strings(1) [OF cmd])
  have len: "length (command_name xs) < 2 ^ 31" using cmd(2) by simp
  show ?thesis
  proof (cases "lookup (memory s) (boot_block s) (command_name xs)")
    case None
    then show ?thesis
      using read_dentry_by_name_lookup [OF str len, of "boot_block s" "frame_dentry fr"] cmd(2)
      by (simp add: same_image_lookup [OF same] exec_inode_def)
  next
    case (Some i)
    then show ?thesis
      using read_dentry_by_name_lookup [OF str len, of "boot_block s" "frame_dentry fr"] cmd(2)
        same_image_entry(2) [OF same lookup_bound [OF Some]]
      by (simp add: same_image_lookup [OF same] exec_inode_def)
  qed
qed

lemma execute_no_inode:
  fixes s :: "'a tty_scheme"
  assumes cmd: "command_ok fr cmd (memory s) xs" "length (command_name xs) \<le> 32" "command_name xs \<noteq> []"
    and lay: "kernel_layout fr s"
    and ino: "\<not> exec_inode fr (command_name xs) s < boot_inodes (memory s) (boot_block s)"
  shows "syscall_execute L fr cmd s = Some (Returns (-1) (s\<lparr>memory := parsed_memory fr xs (memory s)\<rparr>))"
proof -
  let ?m = "parsed_memory fr xs (memory s)"
  obtain f r where f: "read_dentry_by_name ?m (boot_block s) (task_name_at fr) (Some (frame_dentry fr)) = Some (r, Some f)"
    "d_inode f = exec_inode fr (command_name xs) s" using parsed_entry [OF cmd(1,2) lay] by blast
  have parse: "parse_command fr cmd (memory s) = Some (?m, True)"
    using parse_command_correct [OF cmd(1)] cmd(2) by (simp add: parsed_memory_def)
  have given: "name_given fr ?m = Some True"
    using name_given_string [OF parsed_strings(1) [OF cmd(1,2)] set_command(1) cmd(2)] cmd(3) by simp
  have "boot_inodes ?m (boot_block s) \<le> d_inode f"
    using ino same_image_boot(1) [OF parsed_same_image [OF lay cmd(2)]] f(2) by (simp add: not_less)
  then have "read_data (boot_block s) (d_inode f) 0 (elf_buf_at fr) 4 ?m = (-1, ?m)" by (simp add: read_data_def Let_def)
  then show ?thesis using f(1) parse given by (simp add: syscall_execute_def Let_def)
qed

lemma execute_checked:
  fixes s :: "'a tty_scheme"
  assumes cmd: "command_ok fr cmd (memory s) xs" "length (command_name xs) \<le> 32" "command_name xs \<noteq> []"
    and lay: "kernel_layout fr s"
    and ino: "exec_inode fr (command_name xs) s < boot_inodes (memory s) (boot_block s)"
  defines "s2 \<equiv> s\<lparr>memory := checked_memory fr xs s\<rparr>"
  shows "\<exists>f. d_inode f = exec_inode fr (command_name xs) s \<and> syscall_execute L fr cmd s =
    (if \<not> file_is_elf (memory s) (boot_block s) (d_inode f) then Some (Returns (-1) s2)
     else if find_open_task s = -1 then do {
       (n, s3) \<leftarrow> printf (lit_max_programs L) (printf_args fr) (printf_buf fr) s2; Some (Returns (-1) s3) }
     else Some (start_task fr f (word_of_int (find_open_task s)) s2))"
proof -
  let ?mem = "memory s" and ?bb = "boot_block s" and ?m = "parsed_memory fr xs (memory s)"
  let ?name = "command_name xs" and ?ino = "exec_inode fr (command_name xs) s"
  note same = parsed_same_image [OF lay cmd(2)]
  have ok: "image_ok ?mem ?bb" using lay by (simp add: kernel_layout_def)
  note ok' = same_image_ok [OF same ok]
  have parse: "parse_command fr cmd ?mem = Some (?m, True)"
    using parse_command_correct [OF cmd(1)] cmd(2) by (simp add: parsed_memory_def)
  have str: "string_at ?m (task_name_at fr) ?name" by (rule parsed_strings(1) [OF cmd(1,2)])
  have given: "name_given fr ?m = Some True"
    using name_given_string [OF str set_command(1) cmd(2)] cmd(3) by simp
  obtain f r where f: "read_dentry_by_name ?m ?bb (task_name_at fr) (Some (frame_dentry fr)) = Some (r, Some f)"
    "d_inode f = ?ino" using parsed_entry [OF cmd(1,2) lay] by blast
  have ino': "?ino < boot_inodes ?m ?bb" using ino same_image_boot(1) [OF same] by simp
  have sz: "file_size ?m ?bb ?ino = file_size ?mem ?bb ?ino" by (rule same_image_inode(1) [OF same ino])
  have fb: "file_byte ?m ?bb ?ino k = file_byte ?mem ?bb ?ino k" if "k < 4" for k
    using that by (intro ok'(3) ino) simp
  define k where "k = min 4 (file_size ?m ?bb ?ino)"
  have eb: "elf_buf_at fr \<noteq> 0" "off_image ?m ?bb (elf_buf_at fr) k"
    using lay off_image_mono [of ?mem ?bb "elf_buf_at fr" 4 k] ok'(2)
    by (simp_all add: kernel_layout_def k_def)
  have re: "read_end (file_size ?m ?bb ?ino) 0 4 = k" by (simp add: read_end_def k_def)
  have rd: "read_data ?bb ?ino 0 (elf_buf_at fr) 4 ?m = (int k, checked_memory fr xs s)"
  proof (cases "file_size ?m ?bb ?ino = 0")
    case True
    moreover have "k = 0" using True by (simp add: k_def)
    ultimately show ?thesis
      using eb re by (subst read_data_spec [OF ok'(1) ino']) (simp_all add: checked_memory_def Let_def)
  next
    case False
    then show ?thesis
      using eb by (subst read_data_spec [OF ok'(1) ino'])
        (simp_all add: re checked_memory_def k_def [symmetric] Let_def del: upt_conv_Cons)
  qed
  have elf: "int k = 4 \<and> is_elf (checked_memory fr xs s) (elf_buf_at fr) \<longleftrightarrow> file_is_elf ?mem ?bb ?ino"
  proof (cases "k = 4")
    case True
    have b: "checked_memory fr xs s (elf_buf_at fr + of_nat j) = file_byte ?mem ?bb ?ino j" if "j < 4" for j
      using that True unfolding checked_memory_def Let_def k_def [symmetric]
      by (subst put_inside) (simp_all add: fb)
    show ?thesis
      using True b [of 0] b [of 1] b [of 2] b [of 3] sz
      by (auto simp: is_elf_def char_consts file_is_elf_def k_def)
  next
    case False
    then show ?thesis using sz by (auto simp: file_is_elf_def k_def)
  qed
  have fo: "find_open_task (s\<lparr>memory := x\<rparr>) = find_open_task s" for x by (simp add: find_open_task_def)
  show ?thesis
    using f parse given rd elf
    by (intro exI [of _ f]) (auto simp: syscall_execute_def s2_def fo Let_def)
qed

text \<open>The new task runs: it is the current one, its forest is intact and its memory is the file.\<close>

lemma start_task_correct:
  fixes s :: "'a tty_scheme"
  assumes ok: "tasks_ok s" and n: "n < 6" "\<not> running s n" and cur: "3 \<le> n \<Longrightarrow> current_ok s"
    and img: "image_ok (memory s) bb" "\<forall>a. in_window a \<longrightarrow> \<not> in_image (memory s) bb a" "boot_block s = bb"
    and ino: "d_inode f < boot_inodes (memory s) bb" "0 < file_size (memory s) bb (d_inode f)"
      "file_size (memory s) bb (d_inode f) < 0x200000"
  shows "\<exists>s'. start_task fr f n s = Iret (rd32 (memory s') (program_addr + 24)) s' \<and>
    tasks_running s' = n \<and> tasks_ok s' \<and> current_ok s' \<and>
    task_slots s' = (task_slots s)[unat n := 1] \<and> frames s' = saved_frames s \<and>
    page_directory s' = (page_directory s)(32 := task_frame n OR 0x87) \<and> boot_block s' = boot_block s \<and>
    exception_death s' = exception_death s \<and>
    memory s' = put (window_of n s) program_addr (map (file_byte (memory s) bb (d_inode f)) [0..<0x200000]) \<and>
    pcb_of n s' = new_pcb fr n (if 3 \<le> n then tasks_running s else -1)
      (rd32 (memory s') (program_addr + 24)) (memory s') (pcb_of n s) \<and>
    (\<forall>j < 6. j \<noteq> n \<longrightarrow> pcb_of j s' =
       (if 3 \<le> n \<and> j = tasks_running s then (pcb_of j s)\<lparr>task_id_child := n\<rparr> else pcb_of j s))"
proof -
  define s1 where "s1 = s\<lparr>tasks_running := n, task_slots := (task_slots s)[unat n := 1]\<rparr>"
  have w: "window_of n s1 = window_of n s" by (rule window_of_cong) (simp_all add: s1_def)
  have same: "same_image bb (memory s) (window_of n s)"
    by (rule same_image_window [OF img(1,2)]) (simp add: window_of_def setup_memory)
  note same' = same_image_ok [OF same img(1)]
  define m where "m = put (window_of n s) program_addr (map (file_byte (memory s) bb (d_inode f)) [0..<0x200000])"
  have fb: "map (file_byte (window_of n s) bb (d_inode f)) [0..<0x200000] =
      map (file_byte (memory s) bb (d_inode f)) [0..<0x200000]"
    by (intro map_cong refl same'(3) ino(1)) simp
  have "\<forall>a. in_window a \<longrightarrow> \<not> in_image (window_of n s) bb a"
    using img(2) same_image_boot(4) [OF same] by simp
  then have "read_data bb (d_inode f) 0 program_addr twoM (window_of n s) = (0x200000, m)"
    using load_program_file [OF same'(1), of "d_inode f"] ino same_image_boot(1) [OF same]
      same_image_inode(1) [OF same ino(1)] by (simp only: m_def fb)
  then have lp: "load_program f s1 = (rd32 m (program_addr + 24), (syscall_paging_setup (task_frame n) s1)\<lparr>memory := m\<rparr>)"
    using load_program_spec [of s1 f "0x200000" m] w img(3) by (simp add: s1_def)
  define s2 where "s2 = (syscall_paging_setup (task_frame n) s1)\<lparr>memory := m\<rparr>"
  define s3 where "s3 = create_pcb fr (tasks_running s) (rd32 m (program_addr + 24)) s2"
  define s4 where "s4 = s3\<lparr>tss_ss0 := KERNEL_DS, tss_esp0 := eightK * oneK - eightK * tasks_running s3 - 4\<rparr>"
  have run: "start_task fr f n s = Iret (rd32 m (program_addr + 24)) s4"
    using lp by (simp add: start_task_def s4_def s3_def s2_def s1_def [symmetric] Let_def)
  have t2: "tasks_running s2 = n" "memory s2 = m" "task_slots s2 = (task_slots s)[unat n := 1]"
    "pcb_of j s2 = pcb_of j s" for j
    by (simp_all add: s2_def s1_def pcb_of_def)
  obtain pc where pc: "s3 = s2\<lparr>pcbs := pc\<rparr>" unfolding s3_def using create_pcb_frame by blast
  have t4: "tasks_running s4 = n" "memory s4 = m" "task_slots s4 = (task_slots s)[unat n := 1]"
    "pcb_of j s4 = pcb_of j s3" for j
    by (simp_all add: s4_def pc t2 pcb_of_def)
  have "saved_frames s1 = saved_frames s" by (rule saved_frames_cong) (simp_all add: s1_def)
  then have f4: "frames s4 = saved_frames s" "page_directory s4 = (page_directory s)(32 := task_frame n OR 0x87)"
    "boot_block s4 = boot_block s" "exception_death s4 = exception_death s"
    by (simp_all add: s4_def pc s2_def setup_memory(2)) (simp_all add: s1_def)
  have old: "tasks_running s < 6 \<and> tasks_running s \<noteq> n" if "3 \<le> n"
    using cur [OF that] n(2) by (auto simp: current_ok_def running_def)
  have p: "pcb_of j s4 = (if j = n then new_pcb fr n (if 3 \<le> n then tasks_running s else -1)
        (rd32 m (program_addr + 24)) m (pcb_of n s)
      else if 3 \<le> n \<and> j = tasks_running s then (pcb_of j s)\<lparr>task_id_child := n\<rparr> else pcb_of j s)"
    if "j < 6" for j
    unfolding t4(4) s3_def using create_pcb_spec [OF t2(1) n(1) old that] by (simp only: t2)
  have "tasks_ok s4"
    by (rule tasks_ok_start [OF ok n cur]) (simp_all add: t4(3) p new_pcb_def)
  moreover have "current_ok s4"
    using n(1) ok small_not_minus_one(2) [OF n(1)]
    by (simp add: current_ok_def running_def t4(1,3) p new_pcb_def tasks_ok_def)
  ultimately show ?thesis
    using run t4 f4 p n(1) by (intro exI [of _ s4]) (simp add: m_def [symmetric])
qed

subsection \<open>What halt does\<close>

lemma current_parent:
  assumes "tasks_ok s" "current_ok s" "3 \<le> tasks_running s"
  shows "running s (task_id_parent (pcb_of (tasks_running s) s))"
    "task_id_child (pcb_of (task_id_parent (pcb_of (tasks_running s) s)) s) = tasks_running s"
    "task_id_parent (pcb_of (tasks_running s) s) \<noteq> tasks_running s"
    "task_id_parent (pcb_of (tasks_running s) s) \<noteq> -1"
proof -
  have c: "running s (tasks_running s)" "task_id_child (pcb_of (tasks_running s) s) = -1"
    using assms(2) by (simp_all add: current_ok_def)
  show p: "running s (task_id_parent (pcb_of (tasks_running s) s))"
    "task_id_child (pcb_of (task_id_parent (pcb_of (tasks_running s) s)) s) = tasks_running s"
    using tasks_okD(5,6) [OF assms(1) c(1) assms(3)] .
  show "task_id_parent (pcb_of (tasks_running s) s) \<noteq> tasks_running s"
    using p(2) c(2) small_not_minus_one(1) [OF running_less [OF c(1)]] by auto
  show "task_id_parent (pcb_of (tasks_running s) s) \<noteq> -1"
    using small_not_minus_one(1) [OF running_less [OF p(1)]] .
qed

lemma unmap_window:
  assumes "v = (if b then videomem_unmap addr_148MB video_mem_addr (s :: 'a tty_scheme) else s)"
  shows "memory v = memory s" "frames v = frames s" "paging.more v = paging.more s"
    "page_directory v = (if b then (page_directory s)(37 := 2) else page_directory s)"
    "screen_x v = screen_x s" "screen_y v = screen_y s"
  using assms by (simp_all add: unmap_fields videomem_screen window_index)

lemma restore_parent_spec:
  fixes s :: "'a tty_scheme" and p :: u32
  defines "s1 \<equiv> upd_pcb p (\<lambda>q. q\<lparr>task_id_child := -1\<rparr>) s"
  shows "memory (restore_parent p s) = window_of p s" "frames (restore_parent p s) = saved_frames s"
    "page_directory (restore_parent p s) 32 = task_frame p OR 0x87"
    "\<not> bit (page_directory (restore_parent p s) 37) 0"
    "boot_block (restore_parent p s) = boot_block s" "tasks_running (restore_parent p s) = tasks_running s"
    "task_slots (restore_parent p s) = task_slots s" "pcbs (restore_parent p s) = pcbs s1"
    "exception_death (restore_parent p s) = exception_death s"
    "terminals (restore_parent p s) = terminals s" "display_terminal_id (restore_parent p s) = display_terminal_id s"
    "screen_x (restore_parent p s) = screen_x s" "screen_y (restore_parent p s) = screen_y s"
    "tty.more (restore_parent p s) = tty.more s"
proof -
  define s2 where "s2 = syscall_paging_setup (task_frame p) s1"
  define b where "b \<longleftrightarrow> page_directory s2 37 AND 1 \<noteq> 0"
  define s3 where "s3 = (if b then videomem_unmap addr_148MB video_mem_addr s2 else s2)"
  have e: "eightM + p * fourM = task_frame p" by (simp add: task_frame_def)
  have r: "restore_parent p s = s3"
    by (simp only: restore_parent_def e s1_def [symmetric] s2_def [symmetric] Let_def window_index
        b_def [symmetric] s3_def [symmetric])
  note u = unmap_window [OF s3_def]
  note more = paging_more_tty [OF u(3)]
  have m1: "memory s1 = memory s" "frames s1 = frames s" "page_directory s1 = page_directory s"
    by (simp_all add: s1_def)
  have "saved_frames s1 = saved_frames s" by (rule saved_frames_cong) (simp_all add: m1)
  moreover have "memory s2 = window_of p s"
    unfolding s2_def window_of_def [symmetric] by (rule window_of_cong) (simp_all add: m1)
  ultimately show "memory (restore_parent p s) = window_of p s" "frames (restore_parent p s) = saved_frames s"
    by (simp_all add: r u s2_def setup_memory(2))
  show "page_directory (restore_parent p s) 32 = task_frame p OR 0x87"
    by (simp add: r u s2_def)
  show "\<not> bit (page_directory (restore_parent p s) 37) 0"
    by (auto simp: r u b_def and_one_eq odd_iff_mod_2_eq_one bit_0)
  show "boot_block (restore_parent p s) = boot_block s" "tasks_running (restore_parent p s) = tasks_running s"
    "task_slots (restore_parent p s) = task_slots s" "pcbs (restore_parent p s) = pcbs s1"
    "exception_death (restore_parent p s) = exception_death s"
    "terminals (restore_parent p s) = terminals s" "display_terminal_id (restore_parent p s) = display_terminal_id s"
    "screen_x (restore_parent p s) = screen_x s" "screen_y (restore_parent p s) = screen_y s"
    "tty.more (restore_parent p s) = tty.more s"
    by (simp_all add: r more u s2_def) (simp_all add: s1_def upd_pcb_def)
qed

lemma halt_correct:
  fixes s :: "'a tty_scheme"
  assumes ok: "tasks_ok s" "current_ok s" and c: "tasks_running s = c" "3 \<le> c"
    and fds: "fds_ok (fd_array s)" and p: "p = task_id_parent (pcb_of c s)"
  shows "\<exists>s' fds. syscall_halt L fr status s = Some (Returns_from_execute
        (if exception_death s \<noteq> 0 then 256 else ucast status) (old_esp (pcb_of c s)) (old_ebp (pcb_of c s)) s') \<and>
    tasks_running s' = p \<and> tasks_ok s' \<and> current_ok s' \<and> task_slots s' = (task_slots s)[unat c := 0] \<and>
    exception_death s' = 0 \<and> tss_esp0 s' = old_esp (pcb_of c s) \<and>
    memory s' = window_of p s \<and> frames s' = saved_frames s \<and> page_directory s' 32 = task_frame p OR 0x87 \<and>
    \<not> bit (page_directory s' 37) 0 \<and> boot_block s' = boot_block s \<and>
    terminals s' = terminals s \<and> display_terminal_id s' = display_terminal_id s \<and>
    screen_x s' = screen_x s \<and> screen_y s' = screen_y s \<and> tty.more s' = tty.more s \<and>
    (\<forall>j < 6. pcb_of j s' = (if j = p then (pcb_of p s)\<lparr>task_id_child := -1\<rparr>
       else if j = c then (pcb_of c s)\<lparr>fd := fds\<rparr> else pcb_of j s)) \<and>
    fds_ok fds \<and> (\<forall>k < 8. 2 \<le> k \<longrightarrow> flags (fds ! k) = 0)"
proof -
  note par = current_parent [OF ok, unfolded c, OF c(2), folded p]
  have c6: "c < 6" "p < 6" using ok(2) c(1) par(1) by (auto simp: current_ok_def running_def)
  define s1 where "s1 = upd_pcb p (\<lambda>q. q\<lparr>task_id_child := -1\<rparr>) s"
  define s3 where "s3 = restore_parent p s"
  note r3 = restore_parent_spec [of p s, folded s1_def s3_def]
  have t3: "tasks_running s3 = c" by (simp add: r3 s1_def c(1))
  have p3: "pcb_of j s3 = pcb_of j s1" for j by (simp add: pcb_of_def r3)
  have "fd_array s3 = fd_array s"
    using par(3) c6 by (simp add: fd_array_def t3 p3 s1_def pcb_of_upd c(1))
  then obtain fds where cl: "close_all [0..<8] s3 = Some (upd_pcb c (\<lambda>p. p\<lparr>fd := fds\<rparr>) s3)" "fds_ok fds"
    "\<forall>k < 8. 2 \<le> k \<longrightarrow> flags (fds ! k) = 0"
    using close_all_spec [of s3 "[0..<8]"] c6 fds by (auto simp: t3)
  define s4 where "s4 = upd_pcb c (\<lambda>p. p\<lparr>fd := fds\<rparr>) s3"
  define s' where "s' = s4\<lparr>task_slots := (task_slots s4)[unat c := 0], tasks_running := p,
    tss_esp0 := old_esp (pcb_of c s), exception_death := 0\<rparr>"
  have "leave_task status (pcb_of c s) s4 = Some (Returns_from_execute
        (if exception_death s4 \<noteq> 0 then 256 else ucast status) (old_esp (pcb_of c s)) (old_ebp (pcb_of c s)) s')"
    using c6 by (simp add: leave_task_def s'_def s4_def t3 p [symmetric])
  moreover have "exception_death s4 = exception_death s" by (simp add: s4_def r3 s1_def)
  ultimately have run: "syscall_halt L fr status s = Some (Returns_from_execute
        (if exception_death s \<noteq> 0 then 256 else ucast status) (old_esp (pcb_of c s)) (old_ebp (pcb_of c s)) s')"
    using par(4) cl(1) by (simp add: syscall_halt_def c(1) p [symmetric] s3_def [symmetric] s4_def [symmetric] Let_def)
  have pj: "pcb_of j s' = (if j = p then (pcb_of p s)\<lparr>task_id_child := -1\<rparr>
       else if j = c then (pcb_of c s)\<lparr>fd := fds\<rparr> else pcb_of j s)" if "j < 6" for j
    using that c6 par(3) by (simp add: s'_def s4_def pcb_of_upd p3 s1_def)
  have sl: "task_slots s' = (task_slots s)[unat c := 0]" "tasks_running s' = p"
    by (simp_all add: s'_def s4_def r3 s1_def)
  have "task_id_child (pcb_of c s) = -1" using ok(2) c(1) by (simp add: current_ok_def)
  then have "tasks_ok s' \<and> current_ok s' \<and> p \<noteq> c \<and> p < 6"
    by (intro tasks_ok_end [OF ok c]) (auto simp: sl pj p)
  moreover have "memory s' = window_of p s" "frames s' = saved_frames s"
    "page_directory s' 32 = task_frame p OR 0x87" "\<not> bit (page_directory s' 37) 0"
    "boot_block s' = boot_block s" "terminals s' = terminals s" "display_terminal_id s' = display_terminal_id s"
    "screen_x s' = screen_x s" "screen_y s' = screen_y s" "tty.more s' = tty.more s"
    by (simp_all add: s'_def s4_def r3 s1_def) (simp add: upd_pcb_def r3)
  ultimately show ?thesis
    using run pj sl cl(2,3) by (intro exI [of _ s'] exI [of _ fds]) (simp add: s'_def)
qed

subsection \<open>Execute as a whole\<close>

lemma checked_same_image:
  assumes "kernel_layout fr s" "length (command_name xs) \<le> 32"
  shows "same_image (boot_block s) (memory s) (checked_memory fr xs s)"
proof -
  let ?m = "parsed_memory fr xs (memory s)"
  note same = parsed_same_image [OF assms]
  have ok: "image_ok (memory s) (boot_block s)" using assms(1) by (simp add: kernel_layout_def)
  have "off_image ?m (boot_block s) (elf_buf_at fr) 4"
    using assms(1) same_image_ok(2) [OF same ok] by (simp add: kernel_layout_def)
  then have "same_image (boot_block s) ?m (checked_memory fr xs s)"
    unfolding checked_memory_def Let_def
    by (rule same_image_put [OF same_image_ok(1) [OF same ok]]) simp
  with same show ?thesis by (rule same_image_trans)
qed

lemma put_apart_at:
  assumes "\<And>j. j < k \<Longrightarrow> a \<noteq> b + of_nat j" "length ys \<le> k"
  shows "put m b ys a = m a"
proof (rule put_outside, rule ccontr)
  assume "\<not> length ys \<le> unat (a - b)"
  then have "unat (a - b) < k" using assms(2) by simp
  moreover have "b + of_nat (unat (a - b)) = a" by simp
  ultimately show False using assms(1) by metis
qed

lemma checked_outside:
  assumes "length (command_name xs) \<le> 32" "\<forall>j < 33. a \<noteq> task_name_at fr + of_nat j"
    and "\<forall>j < 129. a \<noteq> argument_at fr + of_nat j" "\<forall>j < 4. a \<noteq> elf_buf_at fr + of_nat j"
  shows "checked_memory fr xs s a = memory s a"
proof -
  have "put m (task_name_at fr) (command_name xs @ [0]) a = m a" for m
    using assms(1,2) by (intro put_apart_at [where k = 33]) auto
  moreover have "put m (argument_at fr) (command_argument xs @ [0]) a = m a" for m
    using assms(3) set_command(4) [of xs] by (intro put_apart_at [where k = 129]) auto
  moreover have "put m (elf_buf_at fr) ys a = m a" if "length ys \<le> 4" for m ys
    using assms(4) that by (intro put_apart_at [where k = 4]) auto
  ultimately show ?thesis
    by (simp add: checked_memory_def parsed_memory_def Let_def del: upt_conv_Cons)
qed

lemma checked_in_window:
  assumes "kernel_layout fr s" "length (command_name xs) \<le> 32" "in_window a"
  shows "checked_memory fr xs s a = memory s a"
  using assms(1,3) by (intro checked_outside [OF assms(2)]) (auto simp: kernel_layout_def)

lemma checked_argument:
  assumes "command_ok fr cmd (memory s) xs" "kernel_layout fr s" "length (command_name xs) \<le> 32"
  shows "string_at (checked_memory fr xs s) (argument_at fr) (command_argument xs)"
proof -
  have "apart (argument_at fr) (Suc (length (command_argument xs))) (elf_buf_at fr) 4"
    using assms(2) set_command(4) [of xs] by (auto simp: kernel_layout_def intro: apart_mono)
  then show ?thesis
    unfolding checked_memory_def Let_def
    by (intro string_at_put_apart parsed_strings(2) [OF assms(1,3)]) auto
qed

lemma take_load: "k \<le> n \<Longrightarrow> take k (load m a n) = load m a k"
  by (rule nth_equalityI) simp_all

lemma execute_starts:
  fixes s :: "'a tty_scheme"
  assumes cmd: "command_ok fr cmd (memory s) xs" "length (command_name xs) \<le> 32" "command_name xs \<noteq> []"
    and lay: "kernel_layout fr s" and ok: "tasks_ok s"
    and ino: "ino = exec_inode fr (command_name xs) s" "ino < boot_inodes (memory s) (boot_block s)"
      "file_is_elf (memory s) (boot_block s) ino" "file_size (memory s) (boot_block s) ino < 0x200000"
    and n: "find_open_task s \<noteq> -1" "n = word_of_int (find_open_task s)" "3 \<le> n \<Longrightarrow> current_ok s"
  shows "\<exists>s'. syscall_execute L fr cmd s = Some (Iret (rd32 (memory s') (program_addr + 24)) s') \<and>
    tasks_running s' = n \<and> task_slots s' = (task_slots s)[unat n := 1] \<and> tasks_ok s' \<and> current_ok s' \<and>
    (\<forall>k < 0x200000. memory s' (program_addr + of_nat k) = file_byte (memory s) (boot_block s) ino k) \<and>
    (\<forall>j < 6. j \<noteq> n \<longrightarrow> (\<forall>off < fourM. task_memory j s' off = task_memory j s off) \<and>
       pcb_of j s' = (if 3 \<le> n \<and> j = tasks_running s then (pcb_of j s)\<lparr>task_id_child := n\<rparr> else pcb_of j s)) \<and>
    (\<exists>eip m. pcb_of n s' = new_pcb fr n (if 3 \<le> n then tasks_running s else -1) eip m (pcb_of n s) \<and>
       string_at m (argument_at fr) (command_argument xs)) \<and>
    page_directory s' 32 = task_frame n OR 0x87 \<and> frames s' = saved_frames s \<and>
    boot_block s' = boot_block s \<and> exception_death s' = exception_death s"
proof -
  define s2 where "s2 = s\<lparr>memory := checked_memory fr xs s\<rparr>"
  let ?bb = "boot_block s" and ?M = "checked_memory fr xs s"
  obtain f where f: "d_inode f = ino" "syscall_execute L fr cmd s = Some (start_task fr f n s2)"
    using execute_checked [OF cmd lay, of L] ino n(1,2) by (auto simp: s2_def)
  note same = checked_same_image [OF lay cmd(2)]
  have img: "image_ok (memory s) ?bb" "\<forall>a. in_window a \<longrightarrow> \<not> in_image (memory s) ?bb a"
    using lay by (simp_all add: kernel_layout_def)
  have len: "length (task_slots s) = 6" using ok by (simp add: tasks_ok_def)
  note fo = find_open_task_Some(2) [OF len n(1), folded n(2)]
  have t2: "task_slots s2 = task_slots s" "pcb_of j s2 = pcb_of j s" "tasks_running s2 = tasks_running s"
      "memory s2 = ?M" "boot_block s2 = ?bb" "exception_death s2 = exception_death s"
      "page_directory s2 = page_directory s" "frames s2 = frames s" for j
    by (simp_all add: s2_def)
  have ok2: "tasks_ok s2" using ok tasks_ok_pcbs [of s2 s] by (simp add: s2_def)
  have r2: "running s2 = running s" by (rule running_slots) (simp add: t2)
  have cur2: "3 \<le> n \<Longrightarrow> current_ok s2" using n(3) by (simp add: current_ok_def r2 t2)
  have img2: "image_ok ?M ?bb" "\<forall>a. in_window a \<longrightarrow> \<not> in_image ?M ?bb a"
    using same_image_ok(1) [OF same img(1)] img(2) same_image_boot(4) [OF same] by simp_all
  have ino2: "d_inode f < boot_inodes ?M ?bb" "0 < file_size ?M ?bb (d_inode f)"
      "file_size ?M ?bb (d_inode f) < 0x200000"
    using ino same_image_boot(1) [OF same] same_image_inode(1) [OF same ino(2)]
    by (auto simp: f(1) file_is_elf_def)
  obtain s' where s': "start_task fr f n s2 = Iret (rd32 (memory s') (program_addr + 24)) s'"
    "tasks_running s' = n" "tasks_ok s'" "current_ok s'" "task_slots s' = (task_slots s)[unat n := 1]"
    "frames s' = saved_frames s2" "page_directory s' = (page_directory s)(32 := task_frame n OR 0x87)"
    "boot_block s' = ?bb" "exception_death s' = exception_death s"
    "memory s' = put (window_of n s2) program_addr (map (file_byte ?M ?bb (d_inode f)) [0..<0x200000])"
    "pcb_of n s' = new_pcb fr n (if 3 \<le> n then tasks_running s else -1)
      (rd32 (memory s') (program_addr + 24)) (memory s') (pcb_of n s)"
    "\<forall>j < 6. j \<noteq> n \<longrightarrow> pcb_of j s' =
       (if 3 \<le> n \<and> j = tasks_running s then (pcb_of j s)\<lparr>task_id_child := n\<rparr> else pcb_of j s)"
    using start_task_correct [of s2 n ?bb f fr] ok2 cur2 fo img2 ino2 unfolding t2 r2 by blast
  have fr: "saved_frames s2 = saved_frames s"
    by (rule saved_frames_cong) (simp_all add: t2 checked_in_window [OF lay cmd(2)])
  have bytes: "memory s' (program_addr + of_nat k) = file_byte (memory s) ?bb ino k" if k: "k < 0x200000" for k
  proof -
    have "memory s' (program_addr + of_nat k) = map (file_byte ?M ?bb (d_inode f)) [0..<0x200000] ! k"
      unfolding s'(10) using k by (subst put_inside) (simp_all del: upt_conv_Cons)
    then show ?thesis
      using k same_image_ok(3) [OF same img(1) ino(2), of k] by (simp add: f(1) del: upt_conv_Cons)
  qed
  have other: "task_memory j s' off = task_memory j s off" if j: "j < 6" "j \<noteq> n" and off: "off < fourM" for j off
  proof -
    have w: "in_window (virtual_mem + off)" using off by (simp add: in_window_def)
    have "saved_frames s' (task_frame j + (virtual_mem + off - virtual_mem)) =
        frames s' (task_frame j + (virtual_mem + off - virtual_mem))"
      using fo j w by (intro saved_frames_other [of s' n]) (simp_all add: s'(7))
    then show ?thesis by (simp add: task_memory_def s'(6) fr)
  qed
  have "memory s' a = ?M a" if "\<not> in_window a" for a
  proof -
    have "memory s' a = window_of n s2 a"
      unfolding s'(10) using program_in_window that by (intro put_apart_at [where k = "0x200000"]) (auto simp del: upt_conv_Cons)
    then show ?thesis using that by (simp add: window_of_def setup_memory t2)
  qed
  then have "string_at (memory s') (argument_at fr) (command_argument xs)"
    using lay set_command(4) [of xs] checked_argument [OF cmd(1) lay cmd(2)]
    by (subst string_at_cong [of _ _ _ ?M]) (auto simp: kernel_layout_def)
  then show ?thesis
    using f(2) s' bytes other fr by (intro exI [of _ s']) auto
qed

lemma new_pcb_argument:
  assumes "string_at m (argument_at fr) arg" "length arg \<le> 128"
  shows "\<exists>rest. argument_buf (new_pcb fr n parent eip m p) = arg @ 0 # rest \<and> length (arg @ 0 # rest) = 129"
proof -
  let ?l = "load m (argument_at fr) 129"
  have "take (Suc (length arg)) ?l = arg @ [0]"
    using assms by (subst take_load) (simp_all add: load_string)
  then have "?l = arg @ 0 # drop (Suc (length arg)) ?l"
    using append_take_drop_id [of "Suc (length arg)" ?l] by simp
  moreover have "argument_buf (new_pcb fr n parent eip m p) = ?l"
    by (simp add: new_pcb_def ARGUMENT_SIZE_def)
  moreover have "length ?l = 129" by simp
  ultimately show ?thesis by metis
qed

subsection \<open>A kernel with three shells and one program\<close>

definition elf_image :: mem where
  "elf_image = demo_image(0x102000 := 0x7F, 0x102001 := 0x45, 0x102002 := 0x4C, 0x102003 := 0x46)"

lemma elf_same_boot:
  "boot_inodes elf_image 0x100000 = 1" "boot_data_blocks elf_image 0x100000 = 1"
  "file_size elf_image 0x100000 0 = 5" "image_size elf_image 0x100000 = 12288"
  by (simp_all add: boot_inodes_def boot_data_blocks_def file_size_def image_size_def
      inode_length_def inode_addr_def rd32_def elf_image_def demo_image_def)

lemma elf_inode_block:
  assumes "i < 1023"
  shows "inode_block elf_image (inode_addr 0x100000 0) (of_nat i) = 0"
proof -
  have "elf_image (0x101000 + of_nat (4 + 4 * i + j)) = demo_image (0x101000 + of_nat (4 + 4 * i + j))" if "j < 4" for j
  proof -
    have "unat (0x101000 + of_nat (4 + 4 * i + j) :: u32) = 0x101004 + 4 * i + j"
      using assms that by (simp add: unat_word_ariths unat_of_nat take_bit_nat_eq_self)
    then show ?thesis using assms that by (auto simp: elf_image_def word_unat_eq_iff)
  qed
  from this [of 0] this [of 1] this [of 2] this [of 3]
  have "inode_block elf_image (inode_addr 0x100000 0) (of_nat i) = inode_block demo_image (inode_addr 0x100000 0) (of_nat i)"
    by (simp add: inode_block_def inode_addr_def rd32_def add.assoc)
  then show ?thesis using demo_inode_block [OF assms] by simp
qed

lemma elf_image_ok: "image_ok elf_image 0x100000"
proof -
  have "inode < 1 \<Longrightarrow> inode = 0" for inode :: u32 by (simp add: word_less_nat_alt unat_eq_0)
  then show ?thesis by (auto simp: image_ok_def elf_same_boot elf_inode_block)
qed

lemma elf_entry: "lookup elf_image 0x100000 [0x61] = Some 0" "d_inode (dentry_at elf_image 0x100040) = 0"
proof -
  have "entry_name elf_image 0x100000 0 = [0x61]"
    unfolding entry_name_def entry_addr_def
    by (subst takeWhile_load [of _ _ "[0x61]"]) (simp_all add: string_at_eval elf_image_def demo_image_def)
  then show "lookup elf_image 0x100000 [0x61] = Some 0"
    unfolding lookup_def by (subst upt_conv_Cons) simp_all
  show "d_inode (dentry_at elf_image 0x100040) = 0"
    by (simp add: dentry_at_def rd32_def elf_image_def demo_image_def)
qed

lemma elf_block: "k < 4096 \<Longrightarrow> file_byte elf_image 0x100000 0 k = elf_image (0x102000 + of_nat k)"
  using elf_inode_block [of 0] by (simp add: file_byte_def block_addr_def elf_same_boot)

lemma elf_bytes: "file_byte elf_image 0x100000 0 0 = 0x7F" "file_byte elf_image 0x100000 0 1 = 0x45"
    "file_byte elf_image 0x100000 0 2 = 0x4C" "file_byte elf_image 0x100000 0 3 = 0x46"
  using elf_block [of 0] elf_block [of 1] elf_block [of 2] elf_block [of 3]
  by (simp_all del: One_nat_def) (simp_all add: elf_image_def)

lemma elf_is_elf: "file_is_elf elf_image 0x100000 0"
  by (simp add: file_is_elf_def elf_same_boot elf_bytes del: One_nat_def)

definition demo_frame :: frame where
  "demo_frame = \<lparr>task_name_at = 0x1000, argument_at = 0x1100, elf_buf_at = 0x1200, printf_args = 0x1300,
     printf_buf = 0x1400, frame_dentry = \<lparr>d_name = [], d_type = 0, d_inode = 0, d_reserved = []\<rparr>,
     frame_esp = 0x7FDF00, frame_ebp = 0x7FDF80\<rparr>"

definition demo_shell :: tty where
  "demo_shell = demo_tty\<lparr>memory := elf_image, page_directory := (\<lambda>_. 0)(32 := task_frame 0 OR 0x87),
     pcbs := (\<lambda>a. (pcbs demo_tty a)\<lparr>fd := std_fds\<rparr>)\<rparr>"

lemma apart_literal:
  assumes "unat a + n \<le> unat b" "unat b + k < 4294967296"
  shows "apart a n b k"
proof -
  have "a + of_nat i \<noteq> b + of_nat j" if "i < n" "j < k" for i j
  proof -
    have "unat (a + of_nat i) = unat a + i" "unat (b + of_nat j) = unat b + j"
      using assms that by (simp_all add: unat_word_ariths unat_of_nat take_bit_nat_eq_self)
    then show ?thesis using assms(1) that by auto
  qed
  then show ?thesis by (simp add: apart_def)
qed

lemma low_off_window: "unat a + j < 0x8000000 \<Longrightarrow> \<not> in_window (a + of_nat j)"
proof -
  assume j: "unat a + j < 0x8000000"
  define x where "x = unat a + j"
  have e: "a + of_nat j = of_nat x" by (simp add: x_def)
  have "of_nat x - virtual_mem = of_nat (x + 0xF8000000)" by (simp add: virtual_mem_def)
  moreover have "unat (of_nat (x + 0xF8000000) :: u32) = x + 0xF8000000"
    using j by (simp only: unat_of_nat x_def) (simp add: take_bit_nat_eq_self)
  ultimately show ?thesis unfolding e in_window_def word_less_nat_alt by (simp only:) (simp add: fourM_def)
qed

lemma elf_off_image: "off_image elf_image 0x100000 a n" if "unat a + n \<le> 0x100000"
proof -
  have "\<not> in_image elf_image 0x100000 (a + of_nat k)" if k: "k < n" for k
  proof -
    define x where "x = unat a + k"
    have e: "a + of_nat k = of_nat x" by (simp add: x_def)
    have x: "x < 0x100000" using that \<open>unat a + n \<le> 0x100000\<close> by (simp add: x_def)
    have "of_nat x - 0x100000 = (of_nat (x + 0xFFF00000) :: u32)" by simp
    moreover have "unat (of_nat (x + 0xFFF00000) :: u32) = x + 0xFFF00000"
      using x by (simp only: unat_of_nat) (simp add: take_bit_nat_eq_self)
    ultimately show ?thesis unfolding e in_image_def elf_same_boot by (simp only:)
  qed
  then show ?thesis using that by (simp add: off_image_def)
qed

lemma window_off_elf: "in_window a \<Longrightarrow> \<not> in_image elf_image 0x100000 a"
proof
  assume a: "in_window a" "in_image elf_image 0x100000 a"
  define x where "x = unat (a - 0x100000)"
  have "a = 0x100000 + of_nat x" by (simp add: x_def)
  moreover have "x < 12288" using a(2) by (simp add: in_image_def elf_same_boot x_def)
  ultimately show False using a(1) low_off_window [of "0x100000" x] by simp
qed

lemma demo_layout: "kernel_layout demo_frame demo_shell"
  by (auto simp: kernel_layout_def demo_frame_def demo_shell_def demo_tty_def elf_image_ok
      window_off_elf elf_off_image apart_literal low_off_window)

lemma demo_shell_simps [simp]:
  "memory demo_shell = elf_image" "boot_block demo_shell = 0x100000" "tasks_running demo_shell = 0"
  "task_slots demo_shell = [1, 1, 1, 0, 0, 0]" "exception_death demo_shell = 0"
  "page_directory demo_shell 32 = task_frame 0 OR 0x87" "find_open_task demo_shell = 3"
  by (simp_all add: demo_shell_def demo_tty_def find_open_task_def upt_rec)

lemma demo_shell_ok: "tasks_ok demo_shell" "current_ok demo_shell" "running demo_shell i \<longleftrightarrow> i \<in> {0, 1, 2}"
proof -
  have p: "pcb_of j demo_shell = (pcb_of j demo_tty)\<lparr>fd := std_fds\<rparr>" for j
    by (simp add: pcb_of_def demo_shell_def)
  show "tasks_ok demo_shell"
  proof (subst tasks_ok_cong [of _ demo_tty])
    show "task_slots demo_shell = task_slots demo_tty" by (simp add: demo_shell_def)
  qed (simp_all add: p demo_tasks_ok)
  have "running demo_shell = running demo_tty" by (rule running_slots) (simp add: demo_shell_def)
  then show r: "running demo_shell i \<longleftrightarrow> i \<in> {0, 1, 2}" for i by (simp add: demo_running)
  have "task_id_child (pcb_of 0 demo_tty) = -1" by (simp add: pcb_of_def demo_tty_def demo_pcb_def)
  then show "current_ok demo_shell" by (simp add: current_ok_def r p)
qed

lemma demo_command: "command_ok demo_frame 0x10 elf_image [0x61]"
  by (simp add: command_ok_def demo_frame_def apart_literal string_at_eval elf_image_def demo_image_def)

lemma demo_command_parts: "command_name [0x61] = [0x61]" "command_argument [0x61] = []"
  by (simp_all add: command_name_def command_argument_def in_name_def in_argument_def char_consts)

text \<open>C36: \<open>execute\<close> starts the program the command names: when the first word names a directory
  entry whose file is an ELF file of less than 2 MB and a slot is free, the call enters user
  code at the address in bytes 24 to 27 of the file; the new task takes the lowest free slot
  and is the current one, its memory at \<open>program_addr\<close> holds the file, its argument buffer
  the rest of the command line, its descriptor table only the terminal; it is the child of
  the caller unless it got one of the first three slots; no other task's memory changes and
  the forest of running tasks stays intact.\<close>
theorem execute_starts_program:
  fixes s :: "'a tty_scheme"
  assumes "command_ok fr cmd (memory s) xs" "length (command_name xs) \<le> 32" "command_name xs \<noteq> []"
    and "kernel_layout fr s" "tasks_ok s" "current_ok s"
    and "lookup (memory s) (boot_block s) (command_name xs) = Some i"
    and "ino = d_inode (dentry_at (memory s) (entry_addr (boot_block s) (of_nat i)))"
    and "ino < boot_inodes (memory s) (boot_block s)" "file_is_elf (memory s) (boot_block s) ino"
    and "file_size (memory s) (boot_block s) ino < 0x200000"
    and "find_open_task s = int (unat n)"
  shows "\<exists>s' rest. syscall_execute L fr cmd s = Some (Iret (rd32 (memory s') (program_addr + 24)) s') \<and>
    tasks_running s' = n \<and> \<not> running s n \<and> tasks_ok s' \<and> current_ok s' \<and>
    (\<forall>k < 0x200000. memory s' (program_addr + of_nat k) = file_byte (memory s) (boot_block s) ino k) \<and>
    argument_buf (pcb_of n s') = command_argument xs @ 0 # rest \<and> fd (pcb_of n s') = std_fds \<and>
    task_id_parent (pcb_of n s') = (if 3 \<le> n then tasks_running s else -1) \<and>
    (\<forall>j < 6. j \<noteq> n \<longrightarrow> (\<forall>off < fourM. task_memory j s' off = task_memory j s off))"
proof -
  have ino: "ino = exec_inode fr (command_name xs) s" using assms(7,8) by (simp add: exec_inode_def)
  have "0 \<le> find_open_task s" using assms(12) by (simp only: of_nat_0_le_iff)
  then have n: "find_open_task s \<noteq> -1" "n = word_of_int (find_open_task s)"
    by linarith (simp add: assms(12))
  have len: "length (task_slots s) = 6" using assms(5) by (simp add: tasks_ok_def)
  note free = find_open_task_Some(2) [OF len n(1), folded n(2)]
  obtain s' eip m where s': "syscall_execute L fr cmd s = Some (Iret (rd32 (memory s') (program_addr + 24)) s')"
    "tasks_running s' = n" "tasks_ok s'" "current_ok s'"
    "\<forall>k < 0x200000. memory s' (program_addr + of_nat k) = file_byte (memory s) (boot_block s) ino k"
    "\<forall>j < 6. j \<noteq> n \<longrightarrow> (\<forall>off < fourM. task_memory j s' off = task_memory j s off)"
    "pcb_of n s' = new_pcb fr n (if 3 \<le> n then tasks_running s else -1) eip m (pcb_of n s)"
    "string_at m (argument_at fr) (command_argument xs)"
    using execute_starts [OF assms(1-5) ino assms(9-11) n assms(6), of L] by blast
  obtain rest where "argument_buf (pcb_of n s') = command_argument xs @ 0 # rest"
    using new_pcb_argument [OF s'(8) set_command(4)] unfolding s'(7) by blast
  then show ?thesis
    using s' free by (intro exI [of _ s'] exI [of _ rest]) (simp add: new_pcb_def)
qed

lemma execute_starts_program_witness:
  "\<forall>L. \<exists>e s'. syscall_execute L demo_frame 0x10 demo_shell = Some (Iret e s') \<and>
    tasks_running s' = 3 \<and> memory s' program_addr = 0x7F \<and> task_id_parent (pcb_of 3 s') = 0"
proof
  fix L
  have "find_open_task demo_shell = int (unat (3 :: u32))" by simp
  then obtain s' where s': "syscall_execute L demo_frame 0x10 demo_shell = Some (Iret (rd32 (memory s') (program_addr + 24)) s')"
    "tasks_running s' = 3" "task_id_parent (pcb_of 3 s') = 0"
    "\<forall>k < 0x200000. memory s' (program_addr + of_nat k) = file_byte elf_image 0x100000 0 k"
    using execute_starts_program [of demo_frame "0x10" demo_shell "[0x61]" 0 0 3 L] demo_command demo_layout
      demo_shell_ok elf_entry elf_is_elf elf_same_boot
    by (auto simp: demo_command_parts entry_addr_def)
  have "memory s' program_addr = 0x7F" using s'(4) [rule_format, of 0] elf_bytes(1) by simp
  with s' show "\<exists>e s'. syscall_execute L demo_frame 0x10 demo_shell = Some (Iret e s') \<and>
      tasks_running s' = 3 \<and> memory s' program_addr = 0x7F \<and> task_id_parent (pcb_of 3 s') = 0"
    by blast
qed

text \<open>C37: A command whose file does not exist is not refused: the result of the directory search is
  ignored, and the inode number that happens to be in the uninitialised \<open>dentry\<close> on the
  stack, for example that of the last program found, is loaded instead.\<close>
theorem execute_runs_leftover_file:
  fixes s :: "'a tty_scheme"
  assumes "command_ok fr cmd (memory s) xs" "length (command_name xs) \<le> 32" "command_name xs \<noteq> []"
    and "kernel_layout fr s" "tasks_ok s" "current_ok s"
    and "lookup (memory s) (boot_block s) (command_name xs) = None"
    and "ino = d_inode (frame_dentry fr)"
    and "ino < boot_inodes (memory s) (boot_block s)" "file_is_elf (memory s) (boot_block s) ino"
    and "file_size (memory s) (boot_block s) ino < 0x200000" "find_open_task s \<noteq> -1"
  shows "\<exists>s' e. syscall_execute L fr cmd s = Some (Iret e s') \<and>
    (\<forall>k < 0x200000. memory s' (program_addr + of_nat k) = file_byte (memory s) (boot_block s) ino k)"
proof -
  have "ino = exec_inode fr (command_name xs) s" using assms(7,8) by (simp add: exec_inode_def)
  from execute_starts [OF assms(1-5) this assms(9-12) refl assms(6), of L] show ?thesis by blast
qed

definition missing_name_shell :: tty where
  "missing_name_shell = demo_shell\<lparr>memory := elf_image(0x10 := 0x62)\<rparr>"

lemma missing_name_image:
  "same_image 0x100000 elf_image (memory missing_name_shell)"
proof -
  have "off_image elf_image 0x100000 0x10 1" by (rule elf_off_image) simp
  then have "same_image 0x100000 elf_image (put elf_image 0x10 [0x62])"
    by (rule same_image_put [OF elf_image_ok]) simp
  then show ?thesis by (simp add: missing_name_shell_def)
qed

lemma missing_name_lookup: "lookup elf_image 0x100000 [0x62] = None"
proof -
  have "entry_name elf_image 0x100000 i \<noteq> [0x62]" if i: "i < 63" for i
  proof
    assume "entry_name elf_image 0x100000 i = [0x62]"
    then have "0x62 \<in> set (load elf_image (entry_addr 0x100000 (of_nat i)) 32)"
      unfolding entry_name_def by (metis list.set_intros(1) set_takeWhileD)
    then obtain j where "elf_image (entry_addr 0x100000 (of_nat i) + of_nat j) = 0x62"
      by (auto simp: load_def)
    then show False by (auto simp: elf_image_def demo_image_def split: if_splits)
  qed
  then show ?thesis by (auto simp: lookup_def find_None_iff)
qed

lemma execute_runs_leftover_file_witness:
  "\<forall>L. \<exists>s' e. syscall_execute L demo_frame 0x10 missing_name_shell = Some (Iret e s')"
proof
  fix L
  note same = missing_name_image
  note m = same_image_ok [OF same elf_image_ok] same_image_boot [OF same]
  have b: "boot_block missing_name_shell = 0x100000" by (simp add: missing_name_shell_def)
  have "command_ok demo_frame 0x10 (memory missing_name_shell) [0x62]"
    by (simp add: command_ok_def demo_frame_def apart_literal string_at_eval missing_name_shell_def elf_image_def demo_image_def)
  moreover have "command_name [0x62] = [0x62]"
    by (simp add: command_name_def in_name_def char_consts)
  moreover have "kernel_layout demo_frame missing_name_shell"
    using demo_layout m by (simp add: kernel_layout_def b)
  moreover have "tasks_ok missing_name_shell" "current_ok missing_name_shell"
    using demo_shell_ok(1,2) tasks_ok_pcbs [of missing_name_shell demo_shell]
    by (simp_all add: missing_name_shell_def current_ok_def running_def)
  moreover have "lookup (memory missing_name_shell) 0x100000 [0x62] = None"
    using missing_name_lookup same_image_lookup [OF same] by simp
  moreover have "file_is_elf (memory missing_name_shell) 0x100000 0"
    using elf_is_elf m(3) [of 0] same_image_inode(1) [OF same, of 0] by (simp add: file_is_elf_def elf_same_boot)
  moreover have "file_size (memory missing_name_shell) 0x100000 0 = 5"
    using same_image_inode(1) [OF same, of 0] by (simp add: elf_same_boot)
  moreover have "find_open_task missing_name_shell \<noteq> -1"
    using demo_shell_simps(7) by (simp add: missing_name_shell_def find_open_task_def)
  moreover have "boot_inodes (memory missing_name_shell) 0x100000 = 1" using m by (simp add: elf_same_boot)
  moreover have "d_inode (frame_dentry demo_frame) = 0" by (simp add: demo_frame_def)
  ultimately show "\<exists>s' e. syscall_execute L demo_frame 0x10 missing_name_shell = Some (Iret e s')"
    using execute_runs_leftover_file [of demo_frame "0x10" missing_name_shell "[0x62]" 0 L] b by auto
qed

text \<open>C38: What \<open>execute\<close> refuses: a name of more than 32 characters and a file that is not an
  ELF program return -1, a command of spaces alone returns 0, a full task table prints its
  message and returns -1; each time the task table, the running task and every control block
  are what they were.\<close>
theorem execute_refuses:
  fixes s :: "'a tty_scheme"
  assumes "command_ok fr cmd (memory s) xs" "kernel_layout fr s" "tasks_ok s" "cursor_ok s"
    and "ino = exec_inode fr (command_name xs) s" "ino < boot_inodes (memory s) (boot_block s)"
    and "string_off_screen (s\<lparr>memory := checked_memory fr xs s\<rparr>) (lit_max_programs L) msg" "0x25 \<notin> set msg"
    and "length (command_name xs) > 32 \<or> command_name xs = [] \<or>
      \<not> file_is_elf (memory s) (boot_block s) ino \<or> (\<forall>i < 6. running s i)"
  shows "\<exists>s'. syscall_execute L fr cmd s =
      Some (Returns (if length (command_name xs) \<le> 32 \<and> command_name xs = [] then 0 else -1) s') \<and>
    pcbs s' = pcbs s \<and> task_slots s' = task_slots s \<and> tasks_running s' = tasks_running s"
proof -
  let ?n = "command_name xs"
  have parse: "parse_command fr cmd (memory s) =
    (if length ?n > 32 then Some (put (memory s) (task_name_at fr) (take 32 ?n), False)
     else Some (parsed_memory fr xs (memory s), True))"
    using parse_command_correct [OF assms(1)] by (simp add: parsed_memory_def)
  consider (long) "length ?n > 32" | (blank) "?n = []" | (rest) "length ?n \<le> 32" "?n \<noteq> []" by linarith
  then show ?thesis
  proof cases
    case long
    then show ?thesis using parse by (simp add: syscall_execute_def)
  next
    case blank
    then have "name_given fr (parsed_memory fr xs (memory s)) = Some False"
      using name_given_string [OF parsed_strings(1) [OF assms(1)] set_command(1)] by simp
    then show ?thesis using parse blank by (simp add: syscall_execute_def)
  next
    case rest
    define s2 where "s2 = s\<lparr>memory := checked_memory fr xs s\<rparr>"
    have full: "find_open_task s = -1" if "file_is_elf (memory s) (boot_block s) ino"
      using that rest assms(3,9) find_open_task_Some(1) [of s] by (auto simp: tasks_ok_def)
    have "cursor_ok s2" using assms(4) by (simp add: s2_def cursor_ok_def)
    then have "printf (lit_max_programs L) (printf_args fr) (printf_buf fr) s2 =
        Some (of_nat (length msg), fold putc msg s2)"
      using assms(7,8) by (intro printf_plain) (simp_all add: s2_def)
    moreover have "screen_only s2 (fold putc msg s2)" by (rule screen_only_fold_putc)
    note f = screen_only_tty [OF this]
    moreover have "pcbs s2 = pcbs s" "task_slots s2 = task_slots s" "tasks_running s2 = tasks_running s"
      by (simp_all add: s2_def)
    ultimately show ?thesis
      using execute_checked [OF assms(1) rest assms(2), of L] assms(5,6) full rest
      unfolding s2_def [symmetric] by (cases "file_is_elf (memory s) (boot_block s) ino") auto
  qed
qed

definition demo_links :: links where
  "demo_links = \<lparr>paging_tables = \<lparr>directory_addr = 0x2000, table_addr = 0x3000, video_page_addr = 0x4000\<rparr>,
     lit_stdin = 0x5000, lit_stdout = 0x5010, lit_halting = 0x18, lit_max_programs = 0x18, lit_shell = 0x10\<rparr>"

lemma elf_empty_entry: "lookup elf_image 0x100000 [] = Some 1"
proof -
  have "entry_name elf_image 0x100000 1 = []"
    unfolding entry_name_def entry_addr_def
    by (subst takeWhile_load [of _ _ "[]"]) (simp_all add: string_at_eval elf_image_def demo_image_def)
  moreover have "entry_name elf_image 0x100000 0 = [0x61]"
    unfolding entry_name_def entry_addr_def
    by (subst takeWhile_load [of _ _ "[0x61]"]) (simp_all add: string_at_eval elf_image_def demo_image_def)
  moreover have "[0..<63] = [0, 1] @ [2..<63]"
    by (simp add: upt_conv_Cons numeral_2_eq_2)
  ultimately show ?thesis by (simp add: lookup_def)
qed

lemma execute_refuses_witness:
  "\<exists>s'. syscall_execute demo_links demo_frame 0x18 demo_shell = Some (Returns 0 s') \<and> tasks_running s' = 0"
proof -
  have name: "command_name [] = []" by (simp add: command_name_def)
  have "command_ok demo_frame 0x18 elf_image []"
    by (simp add: command_ok_def demo_frame_def apart_literal string_at_eval elf_image_def demo_image_def)
  moreover have "d_inode (dentry_at elf_image 0x100080) = 0"
    by (simp add: dentry_at_def rd32_def elf_image_def demo_image_def)
  then have "exec_inode demo_frame [] demo_shell = 0"
    by (simp add: exec_inode_def elf_empty_entry entry_addr_def)
  moreover have "cursor_ok demo_shell" by (simp add: demo_shell_def demo_tty_def cursor_ok_def screen_consts)
  moreover have "checked_memory demo_frame [] demo_shell 0x18 = 0"
  proof -
    have "apart 0x18 1 0x1000 33" "apart 0x18 1 0x1100 129" "apart 0x18 1 0x1200 4"
      by (simp_all add: apart_literal)
    then have "checked_memory demo_frame [] demo_shell 0x18 = memory demo_shell 0x18"
      by (intro checked_outside) (simp_all add: name demo_frame_def apart_def)
    then show ?thesis by (simp add: elf_image_def demo_image_def)
  qed
  then have "string_off_screen (demo_shell\<lparr>memory := checked_memory demo_frame [] demo_shell\<rparr>)
      (lit_max_programs demo_links) []"
    by (simp add: string_off_screen_def string_at_Nil demo_links_def in_video_def VIDEO_def)
  ultimately show ?thesis
    using execute_refuses [of demo_frame "0x18" demo_shell "[]" 0 demo_links "[]"] demo_layout demo_shell_ok(1)
    by (auto simp: name elf_same_boot)
qed

text \<open>C39: \<open>halt\<close> ends the running task and gives its parent everything back: the parent's
  \<open>execute\<close> returns the status byte, or 256 after an exception, on the stack saved when the
  task was started; the parent is the running task again, sees its own memory in the program
  window, has no child, and can no longer reach video memory through the ended task's
  mapping; every descriptor of the ended task beyond the terminal is closed and its slot is
  free.\<close>
theorem halt_returns_to_parent:
  fixes s :: "'a tty_scheme"
  assumes "tasks_ok s" "current_ok s" "3 \<le> tasks_running s" "fds_ok (fd_array s)"
    and "c = tasks_running s" "p = task_id_parent (pcb_of c s)"
  shows "\<exists>s'. syscall_halt L fr status s = Some (Returns_from_execute
      (if exception_death s \<noteq> 0 then 256 else ucast status) (old_esp (pcb_of c s)) (old_ebp (pcb_of c s)) s') \<and>
    tasks_running s' = p \<and> current_ok s' \<and> tasks_ok s' \<and> \<not> running s' c \<and> exception_death s' = 0 \<and>
    (\<forall>off < fourM. memory s' (virtual_mem + off) = task_memory p s off) \<and>
    \<not> bit (page_directory s' 37) 0 \<and>
    (\<forall>k < 8. 2 \<le> k \<longrightarrow> flags (fd (pcb_of c s') ! k) = 0)"
proof -
  obtain s' fds where s': "syscall_halt L fr status s = Some (Returns_from_execute
        (if exception_death s \<noteq> 0 then 256 else ucast status) (old_esp (pcb_of c s)) (old_ebp (pcb_of c s)) s')"
    "tasks_running s' = p" "tasks_ok s'" "current_ok s'" "task_slots s' = (task_slots s)[unat c := 0]"
    "exception_death s' = 0" "memory s' = window_of p s" "\<not> bit (page_directory s' 37) 0"
    "\<forall>j < 6. pcb_of j s' = (if j = p then (pcb_of p s)\<lparr>task_id_child := -1\<rparr>
       else if j = c then (pcb_of c s)\<lparr>fd := fds\<rparr> else pcb_of j s)"
    "\<forall>k < 8. 2 \<le> k \<longrightarrow> flags (fds ! k) = 0"
    using halt_correct [OF assms(1,2) assms(5) [symmetric] _ assms(4,6), of L fr status] assms(3,5) by auto
  have c: "c < 6" "p \<noteq> c" using assms current_parent(3) [OF assms(1-3)] by (auto simp: current_ok_def running_def)
  have "length (task_slots s) = 6" using assms(1) by (simp add: tasks_ok_def)
  then have "\<not> running s' c" using slot_update [OF _ c(1) s'(5)] by simp
  moreover have "memory s' (virtual_mem + off) = task_memory p s off" if "off < fourM" for off
    using task_memory_window [OF that, of p s] by (simp add: s'(7) window_of_def)
  moreover have "fd (pcb_of c s') = fds" using s'(9) c by simp
  ultimately show ?thesis using s' by blast
qed

text \<open>C40: A program that starts and ends leaves no trace: whatever it wrote to its own memory and
  whatever it returned, after its \<open>halt\<close> the caller is the running task with the memory it
  had before the call, the task table is what it was, and \<open>execute\<close> returns the program's
  status to the stack frame it was called from.\<close>
theorem execute_halt_roundtrip:
  fixes s :: "'a tty_scheme"
  assumes "command_ok fr cmd (memory s) xs" "length (command_name xs) \<le> 32" "command_name xs \<noteq> []"
    and "kernel_layout fr s" "tasks_ok s" "current_ok s" "page_directory s 32 = task_frame (tasks_running s) OR 0x87"
    and "exec_inode fr (command_name xs) s < boot_inodes (memory s) (boot_block s)"
    and "file_is_elf (memory s) (boot_block s) (exec_inode fr (command_name xs) s)"
    and "file_size (memory s) (boot_block s) (exec_inode fr (command_name xs) s) < 0x200000"
    and "3 \<le> find_open_task s" "exception_death s = 0"
  shows "\<exists>e s1. syscall_execute L fr cmd s = Some (Iret e s1) \<and>
    (\<forall>m status. \<exists>s2. syscall_halt L fr' status (s1\<lparr>memory := m\<rparr>) =
          Some (Returns_from_execute (ucast status) (frame_esp fr) (frame_ebp fr) s2) \<and>
        tasks_running s2 = tasks_running s \<and> task_slots s2 = task_slots s \<and> tasks_ok s2 \<and> current_ok s2 \<and>
        pcb_of (tasks_running s) s2 = pcb_of (tasks_running s) s \<and>
        (\<forall>off < fourM. memory s2 (virtual_mem + off) = memory s (virtual_mem + off)))"
proof -
  define n :: u32 where "n = word_of_int (find_open_task s)"
  define t where "t = tasks_running s"
  have len: "length (task_slots s) = 6" using assms(5) by (simp add: tasks_ok_def)
  have ne: "find_open_task s \<noteq> -1" using assms(11) by simp
  note free = find_open_task_Some(2) [OF len ne, folded n_def]
  have n3: "3 \<le> n" using free assms(11) by (simp add: word_le_def)
  have t: "running s t" "t < 6" "t \<noteq> n" "task_id_child (pcb_of t s) = -1"
    using assms(6) free by (auto simp: current_ok_def running_def t_def)
  obtain s1 eip mm where s1: "syscall_execute L fr cmd s = Some (Iret (rd32 (memory s1) (program_addr + 24)) s1)"
    "tasks_running s1 = n" "task_slots s1 = (task_slots s)[unat n := 1]" "tasks_ok s1" "current_ok s1"
    "\<forall>j < 6. j \<noteq> n \<longrightarrow> pcb_of j s1 = (if 3 \<le> n \<and> j = t then (pcb_of j s)\<lparr>task_id_child := n\<rparr> else pcb_of j s)"
    "pcb_of n s1 = new_pcb fr n (if 3 \<le> n then t else -1) eip mm (pcb_of n s)"
    "page_directory s1 32 = task_frame n OR 0x87" "frames s1 = saved_frames s" "exception_death s1 = 0"
    using execute_starts [OF assms(1-5) refl assms(8-10) ne n_def assms(6), of L] assms(12)
    unfolding t_def [symmetric] by auto
  have "\<exists>s2. syscall_halt L fr' status (s1\<lparr>memory := m\<rparr>) =
          Some (Returns_from_execute (ucast status) (frame_esp fr) (frame_ebp fr) s2) \<and>
        tasks_running s2 = t \<and> task_slots s2 = task_slots s \<and> tasks_ok s2 \<and> current_ok s2 \<and>
        pcb_of t s2 = pcb_of t s \<and> (\<forall>off < fourM. memory s2 (virtual_mem + off) = memory s (virtual_mem + off))"
    for m status
  proof -
    let ?s = "s1\<lparr>memory := m\<rparr>"
    have p: "pcb_of n ?s = new_pcb fr n t eip mm (pcb_of n s)" using s1(7) n3 by simp
    have ok: "tasks_ok ?s" "current_ok ?s" "fds_ok (fd_array ?s)" "t = task_id_parent (pcb_of n ?s)"
      using s1(4,5) tasks_ok_pcbs [of ?s s1] std_fds_ok p
      by (simp_all add: current_ok_def running_def fd_array_def s1(2) new_pcb_def)
    obtain s2 where s2: "syscall_halt L fr' status ?s =
        Some (Returns_from_execute (ucast status) (frame_esp fr) (frame_ebp fr) s2)"
      "tasks_running s2 = t" "tasks_ok s2" "current_ok s2" "task_slots s2 = (task_slots s1)[unat n := 0]"
      "memory s2 = window_of t ?s" "pcb_of t s2 = (pcb_of t s1)\<lparr>task_id_child := -1\<rparr>"
      using halt_correct [OF ok(1,2) _ n3 ok(3,4), of L fr' status] s1(2,10) p t(2)
      by (auto simp: new_pcb_def)
    have "task_slots s ! unat n = 0" using free by (simp add: running_def)
    then have "task_slots s2 = task_slots s" unfolding s2(5) s1(3) by (metis list_update_id list_update_overwrite)
    moreover have "pcb_of t s2 = pcb_of t s" using s2(7) s1(6) t n3 by simp
    moreover have "memory s2 (virtual_mem + off) = memory s (virtual_mem + off)" if off: "off < fourM" for off
    proof -
      let ?a = "virtual_mem + off"
      have w: "in_window ?a" using off by (simp add: in_window_def)
      have "memory s2 ?a = saved_frames ?s (task_frame t + (?a - virtual_mem))"
        using w by (simp add: s2(6) window_of_def setup_memory)
      also have "\<dots> = frames ?s (task_frame t + (?a - virtual_mem))"
        using free t by (intro saved_frames_other [of ?s n, OF _ w]) (simp_all add: s1(8))
      also have "\<dots> = saved_frames s (task_frame t + (?a - virtual_mem))" by (simp add: s1(9))
      also have "\<dots> = memory s ?a" using assms(7) w by (intro saved_frames_setup) (simp_all add: t_def)
      finally show ?thesis .
    qed
    ultimately show ?thesis using s2 by blast
  qed
  then show ?thesis using s1(1) unfolding t_def by blast
qed

text \<open>A child of the first shell, ready to run: the state after \<open>execute\<close> with nothing loaded.\<close>

definition demo_child :: tty where
  "demo_child = create_pcb demo_frame 0 0x8048000
     (demo_shell\<lparr>tasks_running := 3, task_slots := [1, 1, 1, 1, 0, 0]\<rparr>)"

lemma demo_child_pcb:
  "j < 6 \<Longrightarrow> pcb_of j demo_child = (if j = 3 then new_pcb demo_frame 3 0 0x8048000 elf_image (pcb_of 3 demo_shell)
     else if j = 0 then (pcb_of j demo_shell)\<lparr>task_id_child := 3\<rparr> else pcb_of j demo_shell)"
  unfolding demo_child_def by (subst create_pcb_spec [of _ 3]) simp_all

lemma demo_child_ok: "tasks_ok demo_child" "current_ok demo_child" "tasks_running demo_child = 3"
    "fds_ok (fd_array demo_child)" "exception_death demo_child = 0"
proof -
  obtain pc where pc: "demo_child = demo_shell\<lparr>tasks_running := 3, task_slots := [1, 1, 1, 1, 0, 0], pcbs := pc\<rparr>"
    unfolding demo_child_def using create_pcb_frame by (metis)
  show f: "tasks_running demo_child = 3" "exception_death demo_child = 0" by (simp_all add: pc)
  have sl: "task_slots demo_child = (task_slots demo_shell)[unat (3 :: u32) := 1]" by (simp add: pc)
  show ok: "tasks_ok demo_child"
    by (rule tasks_ok_start [where n = 3, OF demo_shell_ok(1)])
      (simp_all add: demo_shell_ok sl demo_child_pcb new_pcb_def)
  show "current_ok demo_child"
    by (simp add: current_ok_def f running_def sl demo_child_pcb new_pcb_def)
  show "fds_ok (fd_array demo_child)"
    by (simp add: fd_array_def f demo_child_pcb new_pcb_def std_fds_ok)
qed

lemma halt_returns_to_parent_witness:
  "\<forall>L. \<exists>s'. syscall_halt L demo_frame 7 demo_child = Some (Returns_from_execute 7 0x7FDF00 0x7FDF80 s') \<and>
    tasks_running s' = 0"
proof
  fix L
  have "pcb_of 3 demo_child = new_pcb demo_frame 3 0 0x8048000 elf_image (pcb_of 3 demo_shell)"
    by (simp add: demo_child_pcb)
  then have "task_id_parent (pcb_of 3 demo_child) = 0" "old_esp (pcb_of 3 demo_child) = 0x7FDF00"
    "old_ebp (pcb_of 3 demo_child) = 0x7FDF80"
    by (simp_all add: new_pcb_def demo_frame_def)
  then show "\<exists>s'. syscall_halt L demo_frame 7 demo_child = Some (Returns_from_execute 7 0x7FDF00 0x7FDF80 s') \<and>
    tasks_running s' = 0"
    using halt_returns_to_parent [OF demo_child_ok(1,2) _ demo_child_ok(4) refl refl, of L demo_frame 7] demo_child_ok(3,5)
    by auto
qed

lemma execute_halt_roundtrip_witness:
  "\<forall>L. \<exists>e s1 s2. syscall_execute L demo_frame 0x10 demo_shell = Some (Iret e s1) \<and>
    syscall_halt L demo_frame 9 (s1\<lparr>memory := memory s1\<rparr>) = Some (Returns_from_execute 9 0x7FDF00 0x7FDF80 s2) \<and>
    memory s2 0x8048000 = elf_image 0x8048000"
proof
  fix L
  have ino: "exec_inode demo_frame [0x61] demo_shell = 0" using elf_entry by (simp add: exec_inode_def entry_addr_def)
  have off: "(0x48000 :: u32) < fourM" "virtual_mem + 0x48000 = 0x8048000" by (simp_all add: fourM_def virtual_mem_def)
  obtain e s1 where s1: "syscall_execute L demo_frame 0x10 demo_shell = Some (Iret e s1)"
    "\<forall>m status. \<exists>s2. syscall_halt L demo_frame status (s1\<lparr>memory := m\<rparr>) =
          Some (Returns_from_execute (ucast status) (frame_esp demo_frame) (frame_ebp demo_frame) s2) \<and>
        tasks_running s2 = 0 \<and> task_slots s2 = [1, 1, 1, 0, 0, 0] \<and> tasks_ok s2 \<and> current_ok s2 \<and>
        pcb_of 0 s2 = pcb_of 0 demo_shell \<and>
        (\<forall>off < fourM. memory s2 (virtual_mem + off) = elf_image (virtual_mem + off))"
    using execute_halt_roundtrip [of demo_frame "0x10" demo_shell "[0x61]" L demo_frame] demo_command demo_layout
      demo_shell_ok(1,2) elf_is_elf elf_same_boot
    by (auto simp: demo_command_parts ino)
  obtain s2 where "syscall_halt L demo_frame 9 (s1\<lparr>memory := memory s1\<rparr>) =
      Some (Returns_from_execute 9 0x7FDF00 0x7FDF80 s2)"
    "\<forall>off < fourM. memory s2 (virtual_mem + off) = elf_image (virtual_mem + off)"
    using s1(2) [rule_format, of 9 "memory s1"] by (auto simp: demo_frame_def)
  with s1(1) off show "\<exists>e s1 s2. syscall_execute L demo_frame 0x10 demo_shell = Some (Iret e s1) \<and>
    syscall_halt L demo_frame 9 (s1\<lparr>memory := memory s1\<rparr>) = Some (Returns_from_execute 9 0x7FDF00 0x7FDF80 s2) \<and>
    memory s2 0x8048000 = elf_image 0x8048000" by metis
qed

end
