(* ===== verification/Footprint.thy ===== *)
theory Footprint
  imports Exec
begin

section \<open>What the kernel's operations may touch\<close>

text \<open>
  The memory the kernel writes while it runs: the program window, the text page
  with what the cursor can reach below it, and the kernel stacks below 8 MB, where the local arrays of
  \<open>execute\<close> are. Everything else, the kernel's code and literals and the file system image,
  is never written. The cursor can leave the frame buffer: \<open>Ctrl+L\<close> puts it at the origin
  but keeps the typed line, whose up to 126 characters can still be erased, so stores reach
  252 bytes below \<open>VIDEO\<close>.
\<close>

definition screen_area :: "addr \<Rightarrow> bool" where
  "screen_area a \<longleftrightarrow> unat (a - 0xB7F04) < 4348"

definition kernel_stack :: "addr \<Rightarrow> bool" where
  "kernel_stack a \<longleftrightarrow> unat (a - 0x7F4000) < 0xC000"

definition scratch :: "addr \<Rightarrow> bool" where
  "scratch a \<longleftrightarrow> in_window a \<or> screen_area a \<or> kernel_stack a"

definition undisturbed :: "mem \<Rightarrow> mem \<Rightarrow> bool" where
  "undisturbed m m' \<longleftrightarrow> (\<forall>a. \<not> scratch a \<longrightarrow> m' a = m a)"

lemma undisturbed_refl [simp]: "undisturbed m m"
  by (simp add: undisturbed_def)

lemma undisturbed_trans: "undisturbed m m' \<Longrightarrow> undisturbed m' m'' \<Longrightarrow> undisturbed m m''"
  by (simp add: undisturbed_def)

lemma undisturbed_upd: "undisturbed m m' \<Longrightarrow> scratch a \<Longrightarrow> undisturbed m (m'(a := b))"
  by (auto simp: undisturbed_def)

lemma undisturbed_put:
  assumes "\<And>i. i < length xs \<Longrightarrow> scratch (a + of_nat i)"
  shows "undisturbed m (put m a xs)"
  unfolding undisturbed_def
proof (intro allI impI)
  fix b assume "\<not> scratch b"
  then show "put m a xs b = m b"
    using assms [of "unat (b - a)"] by (intro put_outside) (auto simp: not_less [symmetric])
qed

lemma video_in_screen_area: "in_video a \<Longrightarrow> screen_area a"
proof -
  assume v: "in_video a"
  define k where "k = unat (a - VIDEO)"
  have k: "k < 4000" "a = VIDEO + of_nat k" using v by (simp_all add: k_def in_video_def)
  then have "a - 0xB7F04 = of_nat (k + 252)" by (simp add: VIDEO_def)
  moreover have "unat (of_nat (k + 252) :: u32) = k + 252"
    using k(1) by (simp only: unat_of_nat) (simp add: take_bit_nat_eq_self)
  ultimately show ?thesis unfolding screen_area_def using k(1) by (simp only:)
qed

lemma scratch_cases:
  "in_window a \<Longrightarrow> scratch a" "screen_area a \<Longrightarrow> scratch a" "kernel_stack a \<Longrightarrow> scratch a"
  "in_video a \<Longrightarrow> scratch a"
  using video_in_screen_area by (simp_all add: scratch_def)

subsection \<open>The cursor and the typed line\<close>

definition cursor_at :: "int \<Rightarrow> int \<Rightarrow> int \<Rightarrow> bool" where
  "cursor_at x y typed \<longleftrightarrow> 0 \<le> y \<and> y < 25 \<and> x < 80 \<and> typed - 126 \<le> 80 * y + x"

definition cursor_range :: "int \<Rightarrow> 'a screen_scheme \<Rightarrow> bool" where
  "cursor_range typed s \<longleftrightarrow> cursor_at (screen_x s) (screen_y s) typed \<and> 0 \<le> typed \<and> typed \<le> 126"

lemma video_store_area:
  assumes "-252 \<le> i" "i < 4000" "\<not> screen_area a"
  shows "memory (video_store i b s) a = memory s a"
proof -
  have "screen_area (VIDEO + word_of_int i)"
  proof -
    have "VIDEO + word_of_int i - 0xB7F04 = word_of_int (i + 252)" by (simp add: VIDEO_def)
    moreover have "unat (word_of_int (i + 252) :: u32) = nat (i + 252)"
      using assms(1,2) by (intro unat_word_of_int) simp_all
    ultimately show ?thesis unfolding screen_area_def using assms(1,2) by (simp only:)
  qed
  then show ?thesis using assms(3) by (auto simp: video_store_def)
qed

lemma putc_area:
  assumes "cursor_range n s" "\<not> screen_area a"
  shows "memory (putc c s) a = memory s a"
proof -
  let ?i = "(80 * screen_y s + screen_x s) * 2"
  have "-252 \<le> ?i" "?i + 1 < 4000" using assms(1) by (auto simp: cursor_range_def cursor_at_def)
  then have "memory (video_store (?i + 1) ATTRIB (video_store ?i c s)) a = memory s a"
    using assms(2) by (simp add: video_store_area)
  moreover have "\<not> in_video a" using assms(2) video_in_screen_area by blast
  ultimately show ?thesis
    by (auto simp: putc_def Let_def scroll_up_outside NUM_COLS_def algebra_simps)
qed

lemma putc_range: "cursor_range n s \<Longrightarrow> cursor_range n (putc c s)"
  by (auto simp: cursor_range_def cursor_at_def putc_def Let_def screen_consts)

lemma putc_range_typed: "cursor_range n s \<Longrightarrow> n < 126 \<Longrightarrow> cursor_range (n + 1) (putc c s)"
  by (auto simp: cursor_range_def cursor_at_def putc_def Let_def screen_consts)

lemma back_space_range: "cursor_range n s \<Longrightarrow> 0 < n \<Longrightarrow> cursor_range (n - 1) (back_space s)"
  by (auto simp: cursor_range_def cursor_at_def back_space_def)

lemma cursor_range_mono: "cursor_range n s \<Longrightarrow> 0 \<le> k \<Longrightarrow> k \<le> n \<Longrightarrow> cursor_range k s"
  by (auto simp: cursor_range_def cursor_at_def)

subsection \<open>Calm steps\<close>

text \<open>Steps that leave the tasks, the window mapping and all but the scratch memory alone.\<close>

definition calm :: "'a tty_scheme \<Rightarrow> 'a tty_scheme \<Rightarrow> bool" where
  "calm s s' \<longleftrightarrow> tasks_running s' = tasks_running s \<and> task_slots s' = task_slots s \<and> pcbs s' = pcbs s \<and>
     exception_death s' = exception_death s \<and> page_directory s' 32 = page_directory s 32 \<and>
     boot_block s' = boot_block s \<and> tty.more s' = tty.more s \<and> undisturbed (memory s) (memory s')"

lemma calm_refl [simp]: "calm s s"
  by (simp add: calm_def)

lemma calm_trans: "calm s t \<Longrightarrow> calm t u \<Longrightarrow> calm s u"
  using undisturbed_trans by (simp add: calm_def) blast

lemma calm_screen_only:
  fixes s t :: "'a tty_scheme"
  shows "screen_only s t \<Longrightarrow> (\<And>a. \<not> scratch a \<Longrightarrow> memory t a = memory s a) \<Longrightarrow> calm s t"
  using screen_only_tty [of s t] by (simp add: calm_def undisturbed_def)

lemma calm_putc: "cursor_range n s \<Longrightarrow> calm s (putc c s)"
  using putc_area scratch_cases(2) by (intro calm_screen_only [OF screen_only_putc]) blast

lemma fold_putc_range: "cursor_range n s \<Longrightarrow> cursor_range n (fold putc xs s)"
  by (induction xs arbitrary: s) (simp_all add: putc_range)

lemma calm_fold_putc: "cursor_range n s \<Longrightarrow> calm s (fold putc xs s)"
proof (induction xs arbitrary: s)
  case (Cons x xs)
  then show ?case using calm_trans [OF calm_putc [OF Cons.prems]] putc_range by fastforce
qed simp

subsection \<open>The terminals\<close>

definition tty_ok :: "terminal_t \<Rightarrow> bool" where
  "tty_ok t \<longleftrightarrow> length (keyboard_buffer t) = 128 \<and> 0 \<le> keyboard_buffer_size t \<and> keyboard_buffer_size t \<le> 126 \<and>
     keyboard_buffer t ! 126 = 0 \<and> keyboard_buffer t ! 127 = 0 \<and> length (terminal_buffer t) = TERMINAL_SIZE"

definition cursor_of :: "int \<Rightarrow> 'a tty_scheme \<Rightarrow> int \<times> int" where
  "cursor_of i s = (if i = display_terminal_id s then (screen_x s, screen_y s)
     else (sint (cursor_pos_x (terminals s i)), sint (cursor_pos_y (terminals s i))))"

definition terminals_ok :: "'a tty_scheme \<Rightarrow> bool" where
  "terminals_ok s \<longleftrightarrow> display_terminal_id s \<in> {0, 1, 2} \<and>
     (\<forall>i \<in> {0, 1, 2}. tty_ok (terminals s i) \<and>
        cursor_at (fst (cursor_of i s)) (snd (cursor_of i s)) (keyboard_buffer_size (terminals s i)))"

lemma terminals_ok_displayed:
  fixes s t :: "'a tty_scheme"
  assumes "terminals_ok s" "display_terminal_id t = display_terminal_id s"
    and "\<And>i. i \<noteq> display_terminal_id s \<Longrightarrow> terminals t i = terminals s i"
    and "tty_ok (displayed t)" "cursor_at (screen_x t) (screen_y t) (keyboard_buffer_size (displayed t))"
  shows "terminals_ok t"
proof -
  have "tty_ok (terminals t i) \<and> cursor_at (fst (cursor_of i t)) (snd (cursor_of i t)) (keyboard_buffer_size (terminals t i))"
    if "i \<in> {0, 1, 2}" for i
  proof (cases "i = display_terminal_id s")
    case True
    then show ?thesis using assms(2,4,5) by (simp add: cursor_of_def displayed_def)
  next
    case False
    then show ?thesis using assms(1-3) that by (auto simp: terminals_ok_def cursor_of_def)
  qed
  then show ?thesis using assms(1,2) by (auto simp: terminals_ok_def)
qed

lemma terminals_okD:
  assumes "terminals_ok s"
  shows "tty_ok (displayed s)" "cursor_range (keyboard_buffer_size (displayed s)) s"
    "cursor_range 0 s" "tid_word s < 3"
proof -
  have d: "display_terminal_id s \<in> {0, 1, 2}"
    "tty_ok (displayed s)" "cursor_at (screen_x s) (screen_y s) (keyboard_buffer_size (displayed s))"
    using assms by (auto simp: terminals_ok_def cursor_of_def displayed_def)
  then show "tty_ok (displayed s)" "cursor_range (keyboard_buffer_size (displayed s)) s"
    by (simp_all add: cursor_range_def tty_ok_def)
  then show "cursor_range 0 s" using cursor_range_mono by (fastforce simp: tty_ok_def)
  show "tid_word s < 3" using d(1) by (auto simp: tid_word_def)
qed

lemma terminals_ok_screen:
  fixes s t :: "'a tty_scheme"
  assumes "terminals_ok s" "screen_only s t" "cursor_range (keyboard_buffer_size (displayed s)) t"
  shows "terminals_ok t"
  using screen_only_tty [OF assms(2)] assms(1,3) terminals_okD(1) [OF assms(1)]
  by (intro terminals_ok_displayed [OF assms(1)]) (simp_all add: displayed_def cursor_range_def)

lemma fold_putc_terminals: "terminals_ok s \<Longrightarrow> terminals_ok (fold putc xs s) \<and> calm s (fold putc xs s)"
  using terminals_ok_screen [OF _ screen_only_fold_putc fold_putc_range [OF terminals_okD(2)]]
    calm_fold_putc terminals_okD(2) by blast

text \<open>The keys that edit the line.\<close>

lemma calm_upd_displayed [simp]: "calm s (upd_displayed f s)"
  by (simp add: calm_def upd_displayed_def)

lemma terminals_ok_upd:
  fixes s u :: "'a tty_scheme"
  assumes "terminals_ok s" "screen_only s u" "tty_ok (f (displayed s))"
    and "cursor_range (keyboard_buffer_size (f (displayed s))) u"
  shows "terminals_ok (upd_displayed f u)"
proof -
  note t = screen_only_tty [OF assms(2)]
  have d: "displayed u = displayed s" using t by (simp add: displayed_def)
  show ?thesis
    using assms(3,4) t d
    by (intro terminals_ok_displayed [OF assms(1)]) (simp_all add: cursor_range_def, simp add: upd_displayed_def)
qed

lemma tty_ok_push:
  "tty_ok t \<Longrightarrow> keyboard_buffer_size t < 126 \<Longrightarrow> tty_ok (push_key c t) \<and> tty_ok ((push_key c t)\<lparr>allow_terminal_read := x\<rparr>)"
  by (auto simp: tty_ok_def push_key_def store_key_def nth_list_update)

lemma tty_ok_pop: "tty_ok t \<Longrightarrow> keyboard_buffer_size t \<noteq> 0 \<Longrightarrow> tty_ok (pop_key t)"
  by (auto simp: tty_ok_def pop_key_def store_key_def nth_list_update)

lemma buf_add_calm:
  assumes "terminals_ok s"
  shows "terminals_ok (terminal_buf_add c s) \<and> calm s (terminal_buf_add c s)"
proof (cases "keyboard_buffer_size (displayed s) \<ge> 126")
  case True
  then show ?thesis using assms by (simp add: terminal_buf_add_def KEYBOARD_MAX_BUFFER_def)
next
  case False
  note d = terminals_okD [OF assms]
  have r: "cursor_range (keyboard_buffer_size (displayed s) + 1) (putc c s)"
    using putc_range_typed [OF d(2)] False by simp
  have ok: "terminals_ok (upd_displayed (push_key c) (putc c s))"
    "terminals_ok (upd_displayed (\<lambda>t. (push_key c t)\<lparr>allow_terminal_read := 1\<rparr>) (putc c s))"
    using tty_ok_push [OF d(1)] False r
    by (auto intro!: terminals_ok_upd [OF assms screen_only_putc] simp: push_key_def store_key_def)
  moreover have "calm s (upd_displayed f (putc c s))" for f
    using calm_trans [OF calm_putc [OF d(2)] calm_upd_displayed] .
  ultimately show ?thesis
    using False by (cases "c = 0x0A") (simp_all add: terminal_buf_add_def KEYBOARD_MAX_BUFFER_def)
qed

lemma terminal_backspace_calm:
  assumes "terminals_ok s"
  shows "terminals_ok (terminal_backspace s) \<and> calm s (terminal_backspace s)"
proof (cases "keyboard_buffer_size (displayed s) = 0")
  case True
  then show ?thesis using assms by (simp add: terminal_backspace_def)
next
  case False
  note d = terminals_okD [OF assms]
  let ?n = "keyboard_buffer_size (displayed s)"
  have n: "0 < ?n" "?n \<le> 126" using False d(1) by (auto simp: tty_ok_def)
  define v where "v = upd_displayed pop_key (back_space s)"
  define u where "u = back_space (putc 0x20 v)"
  have b: "cursor_range (?n - 1) v"
    using back_space_range [OF d(2) n(1)] by (simp add: v_def cursor_range_def)
  have r: "cursor_range (?n - 1) u"
    using back_space_range [OF putc_range_typed [OF b]] n by (simp add: u_def)
  have disp: "displayed u = pop_key (displayed s)" by (simp add: u_def v_def)
  have f: "display_terminal_id u = display_terminal_id s" "i \<noteq> display_terminal_id s \<Longrightarrow> terminals u i = terminals s i" for i
    by (simp_all add: u_def v_def) (simp_all add: upd_displayed_def)
  have "terminals_ok u"
    using tty_ok_pop [OF d(1) False] r
    by (intro terminals_ok_displayed [OF assms f]) (simp_all add: disp cursor_range_def pop_key_def store_key_def)
  moreover have "calm s v" by (simp add: v_def calm_def back_space_def upd_displayed_def)
  then have "calm s (putc 0x20 v)" by (rule calm_trans [OF _ calm_putc [OF b]])
  then have "calm s u" by (simp add: u_def calm_def back_space_def)
  moreover have "terminal_backspace s = u" using False by (simp add: terminal_backspace_def u_def v_def Let_def)
  ultimately show ?thesis by simp
qed

lemma clear_screen_calm:
  assumes "terminals_ok s"
  shows "terminals_ok (clear_screen s) \<and> calm s (clear_screen s)"
proof -
  have so: "screen_only s (clear_screen s)"
    unfolding clear_screen_def by (meson screen_only_clear screen_only_cursor(2) screen_only_trans)
  have "cursor_range (keyboard_buffer_size (displayed s)) (clear_screen s)"
    using terminals_okD(1) [OF assms]
    by (simp add: cursor_range_def cursor_at_def clear_screen_def reset_position_def tty_ok_def)
  moreover have "calm s (clear_screen s)"
    using scratch_cases(4) clear_outside
    by (intro calm_screen_only [OF so]) (auto simp: clear_screen_def reset_position_def)
  ultimately show ?thesis using terminals_ok_screen [OF assms so] by blast
qed

subsection \<open>Switching terminals\<close>

text \<open>The state a switch to another terminal leaves, as one record.\<close>

lemma switch_running_task_result:
  fixes s :: "'a task_scheme"
  assumes "switch_running_task t s = Some (x, s')"
  shows "\<exists>run. s' = s\<lparr>tasks_running := run\<rparr> \<and>
    (run = tasks_running s \<or> find_bottom_task t s = Some run \<and> run \<noteq> -1)"
proof (cases "find_bottom_task t s")
  case None
  then show ?thesis using assms by (simp add: switch_running_task_def)
next
  case (Some b)
  show ?thesis
  proof (cases "b = -1")
    case True
    then have "s' = s" using assms Some by (simp add: switch_running_task_def)
    then show ?thesis by (intro exI [of _ "tasks_running s"]) simp
  next
    case False
    then show ?thesis using assms Some by (intro exI [of _ b]) (simp add: switch_running_task_def)
  qed
qed

lemma switch_form:
  fixes s :: "'a tty_scheme"
  assumes sw: "switch_display_terminal r tid s = Some s'" and go: "tid_word s \<noteq> tid" "\<not> tid > 2"
  obtains b b' run s1 T where "find_bottom_task tid s = Some b" "s1 = syscall_paging_setup (task_frame b) s"
    "T = (terminals s)(display_terminal_id s := saved_terminal s1)"
    "run = tasks_running s \<or> (\<exists>w :: 'a tty_scheme. pcbs w = pcbs s \<and> task_slots w = task_slots s \<and>
      find_bottom_task tid w = Some run \<and> run \<noteq> -1)"
    "s' = upd_pcb tid (\<lambda>p. p\<lparr>old_esp := out_esp r, old_ebp := out_ebp r\<rparr>)
      (upd_pcb (tid_word s) (\<lambda>p. p\<lparr>old_esp := reg_esp r, old_ebp := reg_ebp r\<rparr>)
      (s1\<lparr>terminals := T, tss_ss0 := KERNEL_DS, tss_esp0 := eightM - eightK * b' - 4,
          display_terminal_id := int (unat tid),
          memory := put (memory s1) VIDEO (terminal_buffer (T (int (unat tid)))),
          screen_x := sint (cursor_pos_x (T (int (unat tid)))),
          screen_y := sint (cursor_pos_y (T (int (unat tid)))), tasks_running := run\<rparr>))"
proof -
  have c: "\<not> (tid_word s = tid \<or> tid > 2)" using go by simp
  obtain b where b: "find_bottom_task tid s = Some b"
    using sw c by (cases "find_bottom_task tid s") (simp_all add: switch_display_terminal_def tid_word_def)
  define s1 where "s1 = syscall_paging_setup (eightM + fourM * b) s"
  define s3 where "s3 = upd_displayed (\<lambda>t. t\<lparr>terminal_buffer := load (memory (cpy_screen_pos s1)) VIDEO TERMINAL_SIZE\<rparr>)
    (cpy_screen_pos s1)"
  note eq = sw [unfolded switch_display_terminal_def, folded tid_word_def, unfolded if_not_P [OF c] b Option.bind.simps]
  obtain b' where b': "find_bottom_task tid s3 = Some b'"
    using eq by (cases "find_bottom_task tid s3")
      (simp_all only: Let_def s1_def [symmetric] s3_def [symmetric] Option.bind.simps option.distinct)
  define s4 where "s4 = s3\<lparr>tss_ss0 := KERNEL_DS, tss_esp0 := eightM - eightK * b' - 4\<rparr>"
  define s5 where "s5 = s4\<lparr>display_terminal_id := int (unat tid)\<rparr>"
  define s6 where "s6 = s5\<lparr>memory := put (memory s5) VIDEO (terminal_buffer (displayed s5))\<rparr>"
  define s7 where "s7 = setScreenPos (sint (cursor_pos_x (displayed s6))) (sint (cursor_pos_y (displayed s6))) s6"
  note eq' = eq [unfolded Let_def, folded s1_def, folded s3_def, unfolded b' Option.bind.simps,
    folded s4_def, folded s5_def, folded s6_def, folded s7_def]
  have t1: "tid_word s1 = tid_word s" by (simp add: tid_word_def s1_def)
  obtain x u where u: "switch_running_task tid s7 = Some (x, u)"
      "s' = upd_pcb tid (\<lambda>p. p\<lparr>old_esp := out_esp r, old_ebp := out_ebp r\<rparr>)
        (upd_pcb (tid_word s) (\<lambda>p. p\<lparr>old_esp := reg_esp r, old_ebp := reg_ebp r\<rparr>) u)"
    using eq' t1 by (cases "switch_running_task tid s7") (auto split: prod.splits simp: tid_word_def)
  have fr: "eightM + fourM * b = task_frame b" by (simp add: task_frame_def mult.commute)
  define T where "T = (terminals s)(display_terminal_id s := saved_terminal s1)"
  have s3: "s3 = s1\<lparr>terminals := T\<rparr>"
    by (simp add: s3_def s1_def upd_displayed_def cpy_screen_pos_def displayed_def saved_terminal_def T_def)
  have s7: "s7 = s1\<lparr>terminals := T, tss_ss0 := KERNEL_DS, tss_esp0 := eightM - eightK * b' - 4,
          display_terminal_id := int (unat tid),
          memory := put (memory s1) VIDEO (terminal_buffer (T (int (unat tid)))),
          screen_x := sint (cursor_pos_x (T (int (unat tid)))),
          screen_y := sint (cursor_pos_y (T (int (unat tid))))\<rparr>"
    by (simp add: s7_def s6_def s5_def s4_def s3 setScreenPos_def displayed_def)
  have f7: "tasks_running s7 = tasks_running s" "pcbs s7 = pcbs s" "task_slots s7 = task_slots s"
    by (simp_all add: s7 s1_def)
  obtain run where run: "u = s7\<lparr>tasks_running := run\<rparr>"
    "run = tasks_running s \<or> find_bottom_task tid s7 = Some run \<and> run \<noteq> -1"
    using switch_running_task_result [OF u(1)] f7(1) by auto
  show thesis
    by (rule that [OF b s1_def [unfolded fr] T_def, of "run" b'])
      (use run(2) f7 in blast, simp add: u(2) run(1), simp add: s7)
qed

text \<open>Some task runs, or none has been started yet.\<close>

definition alive :: "'a task_scheme \<Rightarrow> bool" where
  "alive s \<longleftrightarrow> current_ok s \<or> tasks_running s = -1 \<and> (\<forall>i. \<not> running s i)"

definition window_ok :: "'a task_scheme \<Rightarrow> bool" where
  "window_ok s \<longleftrightarrow> page_directory s 32 = task_frame (tasks_running s) OR 0x87"

text \<open>What a switch keeps, and that the window follows the running task if the terminal has one.\<close>

lemma saved_terminal_ok:
  assumes "tty_ok (displayed s)" "cursor_range (keyboard_buffer_size (displayed s)) s"
  shows "tty_ok (saved_terminal (syscall_paging_setup a s))"
    "cursor_at (sint (cursor_pos_x (saved_terminal (syscall_paging_setup a s))))
      (sint (cursor_pos_y (saved_terminal (syscall_paging_setup a s))))
      (keyboard_buffer_size (saved_terminal (syscall_paging_setup a s)))"
  using assms
  by (auto simp: tty_ok_def saved_terminal_def TERMINAL_SIZE_def cursor_range_def cursor_at_def displayed_def sint_fits)

lemma switch_keeps:
  fixes s :: "'a tty_scheme"
  assumes sw: "switch_display_terminal r tid s = Some s'" and tok: "terminals_ok s" and ok: "tasks_ok s" "alive s"
  shows "terminals_ok s' \<and> tasks_ok s' \<and> alive s' \<and> task_slots s' = task_slots s \<and>
    exception_death s' = exception_death s \<and> boot_block s' = boot_block s \<and> tty.more s' = tty.more s \<and>
    undisturbed (memory s) (memory s') \<and> (\<forall>j < 6. fd (pcb_of j s') = fd (pcb_of j s)) \<and>
    (running s tid \<and> (window_ok s \<or> tid_word s \<noteq> tid) \<and> tid < 3 \<longrightarrow> window_ok s')"
proof (cases "tid_word s = tid \<or> tid > 2")
  case True
  then have "s' = s" using sw by (auto simp: switch_display_terminal_def tid_word_def)
  moreover have "\<not> tid < 3" if "tid > 2" using that by (simp add: word_less_nat_alt)
  ultimately show ?thesis using assms True by auto
next
  case False
  then have go: "tid_word s \<noteq> tid" "\<not> tid > 2" "tid < 3" by (auto simp: word_less_nat_alt)
  from go(3) have t6: "tid < 6" "tid_word s < 6"
    using terminals_okD(4) [OF tok] by (auto simp: word_less_nat_alt)
  obtain b b' run s1 T where b: "find_bottom_task tid s = Some b" and s1: "s1 = syscall_paging_setup (task_frame b) s"
    and T: "T = (terminals s)(display_terminal_id s := saved_terminal s1)"
    and run: "run = tasks_running s \<or> (\<exists>w :: 'a tty_scheme. pcbs w = pcbs s \<and> task_slots w = task_slots s \<and>
      find_bottom_task tid w = Some run \<and> run \<noteq> -1)"
    and s': "s' = upd_pcb tid (\<lambda>p. p\<lparr>old_esp := out_esp r, old_ebp := out_ebp r\<rparr>)
      (upd_pcb (tid_word s) (\<lambda>p. p\<lparr>old_esp := reg_esp r, old_ebp := reg_ebp r\<rparr>)
      (s1\<lparr>terminals := T, tss_ss0 := KERNEL_DS, tss_esp0 := eightM - eightK * b' - 4,
          display_terminal_id := int (unat tid),
          memory := put (memory s1) VIDEO (terminal_buffer (T (int (unat tid)))),
          screen_x := sint (cursor_pos_x (T (int (unat tid)))),
          screen_y := sint (cursor_pos_y (T (int (unat tid)))), tasks_running := run\<rparr>))"
    by (rule switch_form [OF sw go(1,2)])
  have f: "task_slots s' = task_slots s" "exception_death s' = exception_death s" "boot_block s' = boot_block s"
    "tty.more s' = tty.more s" "tasks_running s' = run" "terminals s' = T" "display_terminal_id s' = int (unat tid)"
    "memory s' = put (memory s1) VIDEO (terminal_buffer (T (int (unat tid))))"
    "screen_x s' = sint (cursor_pos_x (T (int (unat tid))))" "screen_y s' = sint (cursor_pos_y (T (int (unat tid))))"
    "page_directory s' = page_directory s1"
    unfolding s' s1 by (simp_all add: upd_pcb_def)
  have p: "fd (pcb_of j s') = fd (pcb_of j s) \<and> task_id (pcb_of j s') = task_id (pcb_of j s) \<and>
      task_id_child (pcb_of j s') = task_id_child (pcb_of j s) \<and>
      task_id_parent (pcb_of j s') = task_id_parent (pcb_of j s)" if "j < 6" for j
    unfolding s' using t6 that by (simp add: pcb_of_upd) (simp add: pcb_of_def s1)
  have ok': "tasks_ok s'" using ok(1) p f(1) by (subst tasks_ok_cong [of _ s]) simp_all
  have r': "running s' = running s" by (rule running_slots) (rule f(1))
  have tid_int: "int (unat tid) \<in> {0, 1, 2}" "int (unat tid) \<noteq> display_terminal_id s"
    "display_terminal_id s \<in> {0, 1, 2}"
  proof -
    have "unat tid < 3" using go(3) by (simp add: word_less_nat_alt)
    then obtain k where k: "unat tid = k" "k < 3" by blast
    show "int (unat tid) \<in> {0, 1, 2}" unfolding k(1) using k(2) by auto
    show "display_terminal_id s \<in> {0, 1, 2}" using tok by (simp add: terminals_ok_def)
    show "int (unat tid) \<noteq> display_terminal_id s"
    proof
      assume "int (unat tid) = display_terminal_id s"
      then have "tid_word s = word_of_int (int (unat tid))" by (simp only: tid_word_def)
      then show False using go(1) by simp
    qed
  qed
  have Tt: "T (int (unat tid)) = terminals s (int (unat tid))" using tid_int(2) by (simp add: T)
  note st = saved_terminal_ok [OF terminals_okD(1,2) [OF tok], of "task_frame b", folded s1]
  have old: "tty_ok (terminals s i)" "cursor_at (fst (cursor_of i s)) (snd (cursor_of i s)) (keyboard_buffer_size (terminals s i))"
    if "i \<in> {0, 1, 2}" for i
    using tok that unfolding terminals_ok_def by blast+
  have each: "tty_ok (T i) \<and> cursor_at (fst (cursor_of i s')) (snd (cursor_of i s')) (keyboard_buffer_size (T i))"
    if i: "i \<in> {0, 1, 2}" for i
  proof (cases "i = display_terminal_id s")
    case True
    then have "T i = saved_terminal s1" "i \<noteq> int (unat tid)" using tid_int(2) by (simp_all add: T)
    then show ?thesis using st f(6,7) by (simp add: cursor_of_def)
  next
    case False
    then have "T i = terminals s i" by (simp add: T)
    then show ?thesis using old [OF i] False f(6,7,9,10) by (auto simp: cursor_of_def)
  qed
  then have "terminals_ok s'" using tid_int(1) unfolding terminals_ok_def f(6,7) by blast
  moreover have "undisturbed (memory s) (memory s')"
  proof -
    have "undisturbed (memory s) (memory s1)"
      using scratch_cases(1) by (auto simp: s1 undisturbed_def setup_memory)
    moreover have "length (terminal_buffer (T (int (unat tid)))) = 4000"
      using tok tid_int(1) unfolding Tt by (auto simp: terminals_ok_def tty_ok_def TERMINAL_SIZE_def)
    then have "undisturbed (memory s1) (memory s')"
      unfolding f(8) by (intro undisturbed_put scratch_cases(4)) (simp add: in_video_def unat_of_nat take_bit_nat_eq_self)
    ultimately show ?thesis by (rule undisturbed_trans)
  qed
  moreover have "alive s' \<and> (running s tid \<longrightarrow> window_ok s')"
  proof (cases "running s tid")
    case True
    obtain b2 where "find_bottom_task tid s = Some b2" "running s b2" "tasks_running s' = b2" "current_ok s'"
      using switch_display_terminal_spec [OF ok(1) go(3) True go(1) t6(2), of r] sw by auto
    then show ?thesis using b f(11) by (simp add: alive_def window_ok_def s1)
  next
    case False
    have "find_bottom_task tid w = Some (-1)" if "task_slots w = task_slots s" for w :: "'a tty_scheme"
      using False that running_slots [of w s] by (intro find_bottom_task_none) simp
    then have "tasks_running s' = tasks_running s" using run f(5) by auto
    moreover have "task_id_child (pcb_of (tasks_running s) s') = task_id_child (pcb_of (tasks_running s) s)"
      if "current_ok s" using that p by (simp add: current_ok_def running_def)
    ultimately show ?thesis using ok(2) False by (auto simp: alive_def current_ok_def r')
  qed
  ultimately show ?thesis using f ok' p by simp
qed

subsection \<open>The kernel's invariant\<close>

text \<open>
  What every step of the kernel keeps: the task forest, a running task (or none before the
  first), well-formed descriptors and terminals, the memory outside the scratch regions as
  it was at boot (\<open>m0\<close>, with the image at \<open>bb\<close>), and, once the three shells are up, the
  running task's own frame in the program window.
\<close>

definition shells_up :: "'a task_scheme \<Rightarrow> bool" where
  "shells_up s \<longleftrightarrow> running s 0 \<and> running s 1 \<and> running s 2"

definition kernel_ok :: "mem \<Rightarrow> addr \<Rightarrow> 'a tty_scheme \<Rightarrow> bool" where
  "kernel_ok m0 bb s \<longleftrightarrow> tasks_ok s \<and> alive s \<and> descriptors_ok s \<and> terminals_ok s \<and>
     boot_block s = bb \<and> undisturbed m0 (memory s) \<and> (shells_up s \<longrightarrow> window_ok s)"

lemma kernel_okD:
  assumes "kernel_ok m0 bb s"
  shows "tasks_ok s" "alive s" "descriptors_ok s" "terminals_ok s" "boot_block s = bb"
    "undisturbed m0 (memory s)" "shells_up s \<Longrightarrow> window_ok s"
  using assms by (simp_all add: kernel_ok_def)

lemma kernel_ok_calm:
  fixes s t :: "'a tty_scheme"
  assumes "kernel_ok m0 bb s" "calm s t" "terminals_ok t"
  shows "kernel_ok m0 bb t"
proof -
  have c: "tasks_running t = tasks_running s" "task_slots t = task_slots s" "pcbs t = pcbs s"
    "page_directory t 32 = page_directory s 32" "boot_block t = boot_block s" "undisturbed (memory s) (memory t)"
    using assms(2) by (simp_all add: calm_def)
  have r: "running t = running s" by (rule running_slots) (rule c(2))
  have "tasks_ok t = tasks_ok s" by (rule tasks_ok_pcbs) (rule c)+
  moreover have "alive t = alive s" "descriptors_ok t = descriptors_ok s" "shells_up t = shells_up s" "window_ok t = window_ok s"
    by (simp_all add: alive_def current_ok_def descriptors_ok_def shells_up_def window_ok_def r c pcb_of_def)
  ultimately show ?thesis
    using assms(1,3) undisturbed_trans [OF _ c(6)] by (simp add: kernel_ok_def c(5))
qed

lemma upd_fd_pcb:
  assumes "t < 6" "j < 6"
  shows "pcb_of j (upd_fd t k f s) = (pcb_of j s)\<lparr>fd := if j = t then (fd (pcb_of t s))[k := f (fd (pcb_of t s) ! k)] else fd (pcb_of j s)\<rparr>"
  using assms by (simp add: upd_fd_def pcb_of_upd)

lemma kernel_ok_upd_fd:
  fixes s :: "'a tty_scheme"
  assumes ok: "kernel_ok m0 bb s" and t: "t < 6" and k: "2 \<le> k"
    and f: "flags (f (fd (pcb_of t s) ! k)) \<noteq> 0 \<Longrightarrow> closable (fops (f (fd (pcb_of t s) ! k)))"
  shows "kernel_ok m0 bb (upd_fd t k f s)"
proof -
  let ?t = "upd_fd t k f s"
  have e: "\<exists>pc. ?t = s\<lparr>pcbs := pc\<rparr>" by (auto simp: upd_fd_def upd_pcb_def)
  then have u: "terminals_ok ?t = terminals_ok s" "tasks_running ?t = tasks_running s" "boot_block ?t = boot_block s"
    "memory ?t = memory s" "page_directory ?t = page_directory s" "task_slots ?t = task_slots s"
    by (auto simp: terminals_ok_def cursor_of_def)
  have r: "running ?t = running s" by (rule running_slots) (rule u(6))
  have p: "task_id (pcb_of j ?t) = task_id (pcb_of j s) \<and> task_id_child (pcb_of j ?t) = task_id_child (pcb_of j s) \<and>
      task_id_parent (pcb_of j ?t) = task_id_parent (pcb_of j s)" if "j < 6" for j
    using upd_fd_pcb [OF t that, of k f s] by simp
  have "tasks_ok ?t = tasks_ok s" by (rule tasks_ok_cong) (simp_all add: u p)
  moreover have "alive ?t = alive s"
    using p running_less [of s "tasks_running s"] by (auto simp: alive_def current_ok_def r u)
  moreover have "fds_ok (fd (pcb_of j ?t))" if "running s j" for j
  proof -
    have "fds_ok (fd (pcb_of j s))" using kernel_okD(3) [OF ok] that by (simp add: descriptors_ok_def)
    then show ?thesis
      using upd_fd_pcb [OF t running_less [OF that], of k f s] fds_ok_update [OF _ k f] by (cases "j = t") auto
  qed
  then have "descriptors_ok ?t" by (simp add: descriptors_ok_def r)
  ultimately show ?thesis
    using ok by (simp add: kernel_ok_def u shells_up_def window_ok_def r)
qed

lemma kernel_ok_switch:
  fixes s :: "'a tty_scheme"
  assumes ok: "kernel_ok m0 bb s" and sw: "switch_display_terminal r tid s = Some s'"
  shows "kernel_ok m0 bb s' \<and> tty.more s' = tty.more s"
proof -
  note k = switch_keeps [OF sw kernel_okD(4,1,2) [OF ok]]
  have r: "running s' = running s" by (rule running_slots) (simp add: k)
  have fds: "fd (pcb_of j s') = fd (pcb_of j s)" if "running s j" for j
    using k running_less [OF that] by blast
  have "descriptors_ok s'"
    using kernel_okD(3) [OF ok] by (simp add: descriptors_ok_def r fds)
  moreover have "undisturbed m0 (memory s')" using undisturbed_trans kernel_okD(6) [OF ok] k by blast
  moreover have "window_ok s'" if "shells_up s'"
  proof -
    have up: "shells_up s" using that by (simp add: shells_up_def r)
    show ?thesis
    proof (cases "tid < 3")
      case True
      then have "unat tid = 0 \<or> unat tid = 1 \<or> unat tid = 2" by (auto simp: word_less_nat_alt)
      then have "running s tid" using up by (auto simp: shells_up_def unat_eq_of_nat)
      then show ?thesis using k True kernel_okD(7) [OF ok up] by blast
    next
      case False
      then have "tid > 2" by (simp add: word_less_nat_alt not_less)
      then have "s' = s" using sw by (simp add: switch_display_terminal_def)
      then show ?thesis using kernel_okD(7) [OF ok up] by simp
    qed
  qed
  ultimately show ?thesis using k kernel_okD(5) [OF ok] by (simp add: kernel_ok_def)
qed

subsection \<open>Interrupts\<close>

lemma calm_device [simp]:
  fixes s :: "'a tty_scheme"
  shows "calm s (send_eoi i s)" "terminals_ok (send_eoi i s) = terminals_ok s"
    "calm s (record_key p s)" "terminals_ok (record_key p s) = terminals_ok s"
    "calm s (rtc_handler s)" "terminals_ok (rtc_handler s) = terminals_ok s"
    "calm s (cli s)" "terminals_ok (cli s) = terminals_ok s"
    "calm s (sti s)" "terminals_ok (sti s) = terminals_ok s"
  by (simp_all add: calm_def send_eoi_def record_key_def set_key_def outb_def terminals_ok_def cursor_of_def
      rtc_handler_def cli_def sti_def Let_def)

lemma dispatch_key_result:
  assumes "dispatch_key r p s = Some t"
  shows "t = clear_screen s \<or> t = terminal_backspace s \<or> (\<exists>tid. switch_display_terminal r tid s = Some t) \<or>
    (\<exists>c. t = terminal_buf_add c s) \<or> t = s"
proof -
  define c where "c = (if p \<le> CapsLock then key_char p s else 0)"
  show ?thesis
    using assms unfolding dispatch_key_def Let_def c_def [symmetric] by (auto split: if_split_asm)
qed

lemma keyboard_ok:
  fixes s :: "'a tty_scheme"
  assumes "kernel_ok m0 bb s" "keyboard_key r p s = Some s'"
  shows "kernel_ok m0 bb s' \<and> tty.more s' = tty.more s"
proof -
  have eoi: "kernel_ok m0 bb (send_eoi i t) \<and> tty.more (send_eoi i t) = tty.more t"
    if "kernel_ok m0 bb t" for i and t :: "'a tty_scheme"
    using kernel_ok_calm [OF that calm_device(1)] kernel_okD(4) [OF that] calm_device(1) [of t i]
    by (simp add: calm_def)
  show ?thesis
  proof (cases "p > 0xBD \<or> p > 0x3D \<and> p < 0x81")
    case True
    then have "s' = send_eoi KEYBOARD_IRQ_NUM s" using assms(2) by (auto simp: keyboard_key_def split: if_splits)
    then show ?thesis using eoi [OF assms(1)] by simp
  next
    case False
    let ?s = "record_key (unat p) s"
    obtain t where t: "dispatch_key r (unat p) ?s = Some t" "s' = send_eoi KEYBOARD_IRQ_NUM t"
      using assms(2) False by (cases "dispatch_key r (unat p) ?s") (auto simp: keyboard_key_def)
    have k: "kernel_ok m0 bb ?s" "tty.more ?s = tty.more s"
      using kernel_ok_calm [OF assms(1) calm_device(3)] kernel_okD(4) [OF assms(1)] calm_device(3) [of s "unat p"]
      by (simp_all add: calm_def)
    have edit: "kernel_ok m0 bb u \<and> tty.more u = tty.more ?s"
      if "terminals_ok u \<and> calm ?s u" for u
      using kernel_ok_calm [OF k(1)] that by (simp add: calm_def)
    note tok = kernel_okD(4) [OF k(1)]
    consider "t = clear_screen ?s" | "t = terminal_backspace ?s" | tid where "switch_display_terminal r tid ?s = Some t"
      | c where "t = terminal_buf_add c ?s" | "t = ?s"
      using dispatch_key_result [OF t(1)] by blast
    then have "kernel_ok m0 bb t \<and> tty.more t = tty.more ?s"
    proof cases
      case 1
      then show ?thesis using edit clear_screen_calm [OF tok] by blast
    next
      case 2
      then show ?thesis using edit terminal_backspace_calm [OF tok] by blast
    next
      case 3
      then show ?thesis using kernel_ok_switch [OF k(1)] by blast
    next
      case 4
      then show ?thesis using edit buf_add_calm [OF tok] by blast
    next
      case 5
      then show ?thesis using k(1) by simp
    qed
    then show ?thesis using eoi k(2) t(2) by metis
  qed
qed

end
