(* ===== verification/Calls.thy ===== *)
theory Calls
  imports Footprint
begin

section \<open>System calls keep the kernel's invariant\<close>

text \<open>
  A program's pointer arguments are taken to lie in its own window: the calls of
  \<open>system_call.c\<close> do not check them, and one that points elsewhere is outside the model,
  which keeps the control blocks apart from the byte memory.
\<close>

definition user_range :: "addr \<Rightarrow> nat \<Rightarrow> bool" where
  "user_range buf n \<longleftrightarrow> (\<forall>i < n. in_window (buf + of_nat i))"

lemma undisturbed_user: "user_range buf n \<Longrightarrow> length xs \<le> n \<Longrightarrow> undisturbed m (put m buf xs)"
  using scratch_cases(1) by (intro undisturbed_put) (simp add: user_range_def)

lemma user_outside: "user_range buf n \<Longrightarrow> \<not> scratch a \<Longrightarrow> \<not> unat (a - buf) < n"
proof
  assume u: "user_range buf n" "\<not> scratch a" "unat (a - buf) < n"
  have "buf + of_nat (unat (a - buf)) = a" by simp
  then show False using u scratch_cases(1) unfolding user_range_def by metis
qed

subsection \<open>The terminal driver\<close>

lemma terminal_write_ok: "terminals_ok s \<Longrightarrow> snd (terminal_write_loop k p n s) = t \<Longrightarrow> terminals_ok t \<and> calm s t"
proof (induction k arbitrary: p n s)
  case (Suc k)
  have s: "terminals_ok (putc (memory s p) s) \<and> calm s (putc (memory s p) s)"
    using fold_putc_terminals [OF Suc.prems(1), of "[memory s p]"] by simp
  obtain j where "snd (terminal_write_loop k (p + 1) j (putc (memory s p) s)) = t"
    using Suc.prems(2) by (simp only: terminal_write_loop.simps Let_def)
  then show ?case using Suc.IH [OF conjunct1 [OF s]] s calm_trans by blast
qed simp

text \<open>Reading a line never leaves the 128 bytes of the buffer: its last two are always 0.\<close>

lemma terminal_copy_ok:
  assumes "i \<le> 126" "user_range buf (unat nbytes)" "tty_ok (displayed s)"
  shows "\<exists>k t. terminal_copy i buf nbytes n s = Some (k, t) \<and> calm s t \<and> tty_ok (displayed t) \<and>
    keyboard_buffer_size (displayed t) = keyboard_buffer_size (displayed s) \<and>
    display_terminal_id t = display_terminal_id s \<and> screen_x t = screen_x s \<and> screen_y t = screen_y s \<and>
    (\<forall>j. j \<noteq> display_terminal_id s \<longrightarrow> terminals t j = terminals s j)"
  using assms(1,3)
proof (induction "127 - i" arbitrary: i n s)
  case 0
  then show ?case by simp
next
  case (Suc d)
  let ?c = "keyboard_buffer (displayed s) ! i"
  define u where "u = upd_displayed (\<lambda>t. t\<lparr>keyboard_buffer := (keyboard_buffer t)[i := 0]\<rparr>)
    (s\<lparr>memory := (memory s)(buf + of_nat i := ?c)\<rparr>)"
  have f: "keyboard_buffer_size (displayed u) = keyboard_buffer_size (displayed s)"
    "display_terminal_id u = display_terminal_id s" "screen_x u = screen_x s" "screen_y u = screen_y s"
    "\<forall>j. j \<noteq> display_terminal_id s \<longrightarrow> terminals u j = terminals s j"
    by (simp_all add: u_def upd_displayed_def displayed_def)
  have len: "i < length (keyboard_buffer (displayed s))" using Suc.prems by (simp add: tty_ok_def)
  have ok: "tty_ok (displayed u)"
    using Suc.prems by (cases "i = 126") (auto simp: u_def tty_ok_def displayed_def upd_displayed_def)
  show ?case
  proof (cases "i < unat nbytes")
    case False
    then show ?thesis using Suc.prems(2) by (subst terminal_copy.simps) simp
  next
    case True
    have "scratch (buf + of_nat i)" using True assms(2) by (intro scratch_cases(1)) (simp add: user_range_def)
    then have c: "calm s u" by (simp add: u_def calm_def upd_displayed_def undisturbed_upd)
    show ?thesis
    proof (cases "?c = 0")
      case True
      have "terminal_copy i buf nbytes n s = Some (n, u)"
        using \<open>i < unat nbytes\<close> len True by (subst terminal_copy.simps) (simp add: u_def Let_def)
      then show ?thesis using c ok f by blast
    next
      case False
      then have "i \<noteq> 126" using Suc.prems(2) by (auto simp: tty_ok_def)
      then have i: "d = 127 - Suc i" "Suc i \<le> 126" using Suc.hyps(2) Suc.prems(1) by linarith+
      have "terminal_copy i buf nbytes n s = terminal_copy (Suc i) buf nbytes (n + 1) u"
        using \<open>i < unat nbytes\<close> len False by (subst terminal_copy.simps) (simp add: u_def Let_def)
      then show ?thesis
        using Suc.hyps(1) [OF i ok, of "n + 1"] c f calm_trans by fastforce
    qed
  qed
qed

lemma terminal_read_ok:
  fixes s :: "'a tty_scheme"
  assumes tok: "terminals_ok s" and buf: "user_range buf (unat n)" and ready: "allow_terminal_read (displayed s) \<noteq> 0"
  shows "\<exists>k t. terminal_read hs buf n s = Some (k, t, hs) \<and> terminals_ok t \<and> calm s t"
proof -
  have c: "displayed (cli s) = displayed s" "display_terminal_id (cli s) = display_terminal_id s"
    "screen_x (cli s) = screen_x s" "screen_y (cli s) = screen_y s" "terminals (cli s) = terminals s"
    by (simp_all add: displayed_def cli_def)
  obtain k t where t: "terminal_copy 0 buf n 0 (cli s) = Some (k, t)" "calm (cli s) t" "tty_ok (displayed t)"
    "keyboard_buffer_size (displayed t) = keyboard_buffer_size (displayed s)"
    "display_terminal_id t = display_terminal_id s" "screen_x t = screen_x s" "screen_y t = screen_y s"
    "\<forall>j. j \<noteq> display_terminal_id s \<longrightarrow> terminals t j = terminals s j"
    using terminal_copy_ok [of 0 buf n "cli s" 0] buf terminals_okD(1) [OF tok] by (auto simp: c)
  define u where "u = upd_displayed (\<lambda>t. t\<lparr>keyboard_buffer_size := 0, allow_terminal_read := 0\<rparr>) t"
  have "terminal_spin hs s = Some (s, hs)" using ready by (subst terminal_spin.simps) simp
  then have "terminal_read hs buf n s = Some (k, sti u, hs)"
    using t(1) by (simp add: terminal_read_def u_def)
  moreover have "terminals_ok u"
  proof (rule terminals_ok_displayed [OF tok])
    show "display_terminal_id u = display_terminal_id s" using t(5) by (simp add: u_def)
    show "terminals u i = terminals s i" if "i \<noteq> display_terminal_id s" for i
      using t(5,8) that by (simp add: u_def upd_displayed_def)
    show "tty_ok (displayed u)" using t(3) by (simp add: u_def tty_ok_def)
    show "cursor_at (screen_x u) (screen_y u) (keyboard_buffer_size (displayed u))"
      using t(6,7) terminals_okD(3) [OF tok] by (simp add: u_def cursor_range_def)
  qed
  then have "terminals_ok (sti u)" by simp
  moreover have "calm s (sti u)"
    using calm_trans [OF calm_device(7) t(2)] calm_trans [OF calm_upd_displayed calm_device(9)]
    unfolding u_def by (metis calm_trans)
  ultimately show ?thesis by blast
qed

subsection \<open>The clock\<close>

lemma rtc_spin_ok: "rtc_spin irqs s = Some (t, rest) \<Longrightarrow> calm (s :: 'a tty_scheme) t \<and> (terminals_ok t = terminals_ok s)"
proof (induction irqs arbitrary: s)
  case Nil
  then show ?case by (subst (asm) rtc_spin.simps) (auto split: if_splits)
next
  case (Cons f irqs)
  let ?u = "if f then rtc_handler s else s"
  have u: "calm s ?u \<and> terminals_ok ?u = terminals_ok s" by simp
  from Cons.prems consider "t = s" | "rtc_spin irqs ?u = Some (t, rest)"
    by (subst (asm) rtc_spin.simps) (auto split: if_splits)
  then show ?case
  proof cases
    case 2
    then show ?thesis using Cons.IH u calm_trans by blast
  qed simp
qed

lemma rtc_ok:
  fixes s t :: "'a tty_scheme"
  shows "rtc_read irqs s = Some (r, t, rest) \<Longrightarrow> calm s t \<and> terminals_ok t = terminals_ok s"
    "calm s (snd (rtc_write buf n s)) \<and> terminals_ok (snd (rtc_write buf n s)) = terminals_ok s"
    "calm s (snd (rtc_open s)) \<and> terminals_ok (snd (rtc_open s)) = terminals_ok s"
proof -
  have z: "calm s (s\<lparr>rtc_inter_count := x\<rparr>) \<and> terminals_ok (s\<lparr>rtc_inter_count := x\<rparr>) = terminals_ok s" for x
    by (simp add: calm_def terminals_ok_def cursor_of_def)
  show "calm s t \<and> terminals_ok t = terminals_ok s" if "rtc_read irqs s = Some (r, t, rest)"
    using that rtc_spin_ok [of irqs "s\<lparr>rtc_inter_count := 0\<rparr>" t rest] z [of 0] calm_trans
    by (auto simp: rtc_read_def split: option.splits)
qed (simp_all add: rtc_write_def rtc_open_def calm_def terminals_ok_def cursor_of_def Let_def)


subsection \<open>Files\<close>

definition image_apart :: "mem \<Rightarrow> addr \<Rightarrow> bool" where
  "image_apart m0 bb \<longleftrightarrow> image_ok m0 bb \<and> (\<forall>a. scratch a \<longrightarrow> \<not> in_image m0 bb a) \<and>
     (\<forall>i < 63. d_type (dentry_at m0 (entry_addr bb (of_nat i))) \<le> 2) \<and>
     (\<forall>ino < boot_inodes m0 bb. file_size m0 bb ino < 0x200000)"

lemma same_image_apart:
  assumes "image_apart m0 bb" and s: "same_image bb m0 m"
  shows "image_apart m bb"
proof -
  have "d_type (dentry_at m (entry_addr bb (of_nat i))) \<le> 2" if "i < 63" for i
    using assms(1) that same_image_entry(2) [OF s that] by (simp add: image_apart_def)
  moreover have "file_size m bb ino < 0x200000" if "ino < boot_inodes m bb" for ino
    using assms(1) that same_image_boot(1) [OF s] same_image_inode(1) [OF s, of ino] by (simp add: image_apart_def)
  ultimately show ?thesis
    using assms(1) same_image_ok(1) [OF s] same_image_boot(4) [OF s] by (simp add: image_apart_def)
qed

lemma image_now:
  assumes "image_apart m0 bb" "undisturbed m0 m"
  shows "same_image bb m0 m" "image_apart m bb"
proof -
  show s: "same_image bb m0 m"
    using assms by (auto simp: same_image_def image_apart_def image_ok_def undisturbed_def)
  show "image_apart m bb" using assms(1) s by (rule same_image_apart)
qed

lemma user_off_image:
  assumes "image_apart m bb" "user_range buf n" "n < 2 ^ 32" "k \<le> n"
  shows "off_image m bb buf k"
  using assms scratch_cases(1) by (simp add: off_image_def image_apart_def user_range_def)

lemma calm_memory:
  fixes s :: "'a tty_scheme"
  shows "undisturbed (memory s) m \<Longrightarrow> calm s (s\<lparr>memory := m\<rparr>) \<and> terminals_ok (s\<lparr>memory := m\<rparr>) = terminals_ok s"
  by (simp add: calm_def terminals_ok_def cursor_of_def)

lemma read_data_ok:
  assumes img: "image_apart m bb" and buf: "user_range buf (unat n)" and len: "unat pos + unat n < 1023 * 4096"
  shows "undisturbed m (snd (read_data bb ino pos buf n m))"
proof (cases "buf = 0 \<or> ino \<ge> boot_inodes m bb")
  case True
  then have "snd (read_data bb ino pos buf n m) = m" by (auto simp: read_data_def Let_def)
  then show ?thesis by simp
next
  case False
  define k where "k = read_end (file_size m bb ino) (unat pos) (unat n) - unat pos"
  have k: "k \<le> unat n"
  proof -
    have "(unat pos + unat n) div 4096 * 4096 \<le> unat pos + unat n" by (rule div_times_less_eq_dividend)
    then show ?thesis unfolding k_def read_end_def Let_def by (auto split: if_splits)
  qed
  have ok: "image_ok m bb" using img by (simp add: image_apart_def)
  have off: "off_image m bb buf k" using user_off_image [OF img buf _ k] by simp
  have "snd (read_data bb ino pos buf n m) = m \<or>
      (\<exists>xs. length xs = k \<and> snd (read_data bb ino pos buf n m) = put m buf xs)"
  proof (cases "file_size m bb ino \<le> unat pos")
    case True
    then show ?thesis using read_data_spec [OF ok _ _ len off [unfolded k_def]] False by (simp add: not_le)
  next
    case f: False
    define E where "E = read_end (file_size m bb ino) (unat pos) (unat n)"
    have "snd (read_data bb ino pos buf n m) = put m buf (map (file_byte m bb ino) [unat pos..<E])"
      using read_data_spec [OF ok _ _ len off [unfolded k_def]] False f by (simp add: not_le Let_def E_def)
    moreover have "length (map (file_byte m bb ino) [unat pos..<E]) = k" by (simp add: k_def E_def)
    ultimately show ?thesis by blast
  qed
  then show ?thesis using undisturbed_user [OF buf] k by auto
qed

lemma file_read_ok:
  fixes s t :: "'a tty_scheme"
  assumes "image_apart (memory s) (boot_block s)" "user_range buf (unat n)" "unat pos + unat n < 1023 * 4096"
    and "file_read ino pos buf n s = (r, i, p, t)"
  shows "calm s t \<and> terminals_ok t = terminals_ok s"
proof -
  have "t = s\<lparr>memory := snd (read_data (boot_block s) ino pos buf n (memory s))\<rparr>"
    using assms(4) by (auto simp: file_read_def Let_def split: prod.splits)
  then show ?thesis using calm_memory [OF read_data_ok [OF assms(1-3)]] by simp
qed

lemma dir_read_ok:
  fixes s t :: "'a tty_scheme"
  assumes img: "image_apart (memory s) (boot_block s)" and buf: "user_range buf (unat n)"
    and rd: "dir_read ino pos buf n s = Some (r, i, p, t)"
  shows "calm s t \<and> terminals_ok t = terminals_ok s"
proof (cases "pos \<ge> 63 \<or> buf = 0")
  case True
  then have "directory_read pos buf n s = Some (-1, s)"
    by (cases "pos \<ge> 63") (simp_all add: directory_read_def MAX_FILECOUNT_def)
  then have "t = s" using rd by (simp add: dir_read_def)
  then show ?thesis by simp
next
  case False
  let ?f = "entry_addr (boot_block s) pos"
  define k where "k = (if n > 32 then 32 else n)"
  obtain j where j: "strlen (memory s) ?f = Some j" "t = s\<lparr>memory := memcpy (memory s) buf ?f (if k > j then j else k)\<rparr>"
  proof (cases "strlen (memory s) ?f")
    case None
    then show thesis
      using rd False by (simp add: dir_read_def directory_read_def MAX_FILECOUNT_def Let_def)
  next
    case (Some j)
    have "t = s\<lparr>memory := memcpy (memory s) buf ?f (if k > j then j else k)\<rparr>"
      using rd False Some
      unfolding dir_read_def directory_read_def MAX_FILECOUNT_def MAX_FILENAME_def Let_def k_def word_of_int_numeral
      by simp
    then show thesis using that Some by blast
  qed
  let ?k = "if k > j then j else k"
  have k: "unat ?k \<le> unat n" "unat ?k \<le> 32" by (auto simp: k_def word_less_nat_alt)
  have ok: "image_size (memory s) (boot_block s) \<le> 2 ^ 32"
    using img by (simp add: image_apart_def image_ok_def)
  have src: "in_image (memory s) (boot_block s) (?f + of_nat i)" if "i < 32" for i
  proof -
    have "unat pos < 63" using False by (simp add: word_less_nat_alt not_le)
    then have "64 + 64 * unat pos + i < image_size (memory s) (boot_block s)"
      using that by (simp add: image_size_def)
    then have "in_image (memory s) (boot_block s) (boot_block s + of_nat (64 + 64 * unat pos + i))"
      by (rule in_image_offset [OF ok])
    moreover have "boot_block s + of_nat (64 + 64 * unat pos + i) = ?f + of_nat i" by (simp add: entry_addr_def)
    ultimately show ?thesis by (simp only:)
  qed
  have "buf + of_nat a \<noteq> ?f + of_nat b" if "a < unat ?k" "b < unat ?k" for a b
  proof
    assume "buf + of_nat a = ?f + of_nat b"
    moreover have "scratch (buf + of_nat a)"
      using buf that k by (intro scratch_cases(1)) (simp add: user_range_def)
    ultimately show False using src [of b] that(2) k(2) img by (auto simp: image_apart_def)
  qed
  then have "memcpy (memory s) buf ?f ?k = put (memory s) buf (load (memory s) ?f (unat ?k))"
    by (intro memcpy_put) (simp add: disjoint_regions_def)
  then have "undisturbed (memory s) (memcpy (memory s) buf ?f ?k)"
    using undisturbed_user [OF buf] k(1) by simp
  then show ?thesis using calm_memory j(2) by blast
qed

lemma read_dentry_found:
  assumes "read_dentry_by_name m bb fname (Some x) = Some (r, d)" "r = 0"
  shows "\<exists>i < 63. d = Some (dentry_at m (entry_addr bb (of_nat i)))"
proof -
  have "\<exists>i < 63. f = entry_addr bb (of_nat i)" if "0 \<le> k" "search_entry m bb fname k l = Some f" for k l f
    using that
  proof (induction m bb fname k l rule: search_entry.induct)
    case (1 m bb fname k l)
    show ?case
    proof (cases "k < 63")
      case False
      then show ?thesis using "1.prems"(2) by (subst (asm) search_entry.simps) (simp add: MAX_FILECOUNT_def)
    next
      case True
      show ?thesis
      proof (cases "f = entry_addr bb (word_of_int k)")
        case c: True
        have "(word_of_int k :: u32) = of_nat (nat k)" using "1.prems"(1) by simp
        then show ?thesis using c True "1.prems"(1) by (intro exI [of _ "nat k"]) simp
      next
        case False
        have "k < MAX_FILECOUNT" using True by (simp add: MAX_FILECOUNT_def)
        then show ?thesis
          using "1.IH" [OF _ refl refl] "1.prems" False
          by (subst (asm) (2) search_entry.simps) (auto simp: Let_def split: if_splits)
      qed
    qed
  qed
  note found = this
  obtain n where n: "strlen m fname = Some n"
    using assms(1) by (cases "strlen m fname") (simp_all add: read_dentry_by_name_def)
  obtain f where "search_entry m bb fname 0 (sint n) = Some f" "d = Some (dentry_at m f)"
    using assms n by (cases "search_entry m bb fname 0 (sint n)") (auto simp: read_dentry_by_name_def Let_def split: if_splits)
  then show ?thesis using found [of 0 "sint n" f] by auto
qed

subsection \<open>Calls on descriptors\<close>

definition keeps :: "mem \<Rightarrow> addr \<Rightarrow> 'a tty_scheme \<Rightarrow> 'a tty_scheme \<Rightarrow> bool" where
  "keeps m0 bb s t \<longleftrightarrow> kernel_ok m0 bb t \<and> tty.more t = tty.more s \<and> current_ok t"

lemma keeps_calm:
  fixes s t :: "'a tty_scheme"
  assumes "kernel_ok m0 bb s" "current_ok s" "calm s t" "terminals_ok t"
  shows "keeps m0 bb s t"
proof -
  have c: "task_slots t = task_slots s" "pcbs t = pcbs s" "tasks_running t = tasks_running s" "tty.more t = tty.more s"
    using assms(3) by (simp_all add: calm_def)
  have "running t = running s" by (rule running_slots) (rule c(1))
  then show ?thesis
    using kernel_ok_calm [OF assms(1,3,4)] assms(2) c by (simp add: keeps_def current_ok_def pcb_of_def)
qed

lemma keeps_upd_fd:
  fixes s t :: "'a tty_scheme"
  assumes "keeps m0 bb s t" "i < 6" "2 \<le> k"
    and "flags (f (fd (pcb_of i t) ! k)) \<noteq> 0 \<Longrightarrow> closable (fops (f (fd (pcb_of i t) ! k)))"
  shows "keeps m0 bb s (upd_fd i k f t)"
proof -
  have e: "tty.more (upd_fd i k f t) = tty.more t" by (simp add: upd_fd_def upd_pcb_def)
  have c: "current_ok t" using assms(1) by (simp add: keeps_def)
  have r: "running (upd_fd i k f t) = running t" by (rule running_slots) simp
  have "current_ok (upd_fd i k f t)"
    using c upd_fd_pcb [OF assms(2), of "tasks_running t" k f t] by (simp add: current_ok_def r running_def)
  then show ?thesis using kernel_ok_upd_fd [OF _ assms(2,3), of m0 bb t f] assms(1,4) e by (simp add: keeps_def)
qed

lemma current_fds:
  assumes "kernel_ok m0 bb s" "current_ok s"
  shows "tasks_running s < 6" "fds_ok (fd_array s)" "get_pcb (tasks_running s) \<noteq> 0"
  using assms kernel_okD(3) [OF assms(1)] running_less get_pcb_nonzero
  by (auto simp: current_ok_def descriptors_ok_def fd_array_def)

lemma keeps_refl: "kernel_ok m0 bb s \<Longrightarrow> current_ok s \<Longrightarrow> keeps m0 bb s s"
  by (simp add: keeps_def)

lemma write_keeps:
  fixes s :: "'a tty_scheme"
  assumes ok: "kernel_ok m0 bb s" "current_ok s"
  shows "\<exists>r t. syscall_write fdn buf n s = Some (r, t) \<and> keeps m0 bb s t"
proof (cases "fdn > 7 \<or> fdn < 1 \<or> flags (fd_array s ! unat fdn) = 0")
  case True
  then show ?thesis using current_fds(3) [OF ok] keeps_refl [OF ok] by (auto simp: syscall_write_def)
next
  case False
  note c = current_fds [OF ok]
  let ?f = "fd_array s ! unat fdn"
  have k: "unat fdn < 8" "unat fdn \<noteq> 0" using False by (auto simp: word_less_nat_alt)
  consider "fops ?f = Some Stdout_fops" | "closable (fops ?f)"
  proof (cases "unat fdn = 1")
    case True
    then show ?thesis using that(1) c(2) by (simp add: fds_ok_def)
  next
    case n: False
    then show ?thesis using that(2) c(2) k False by (auto simp: fds_ok_def)
  qed
  then have "\<exists>table. fops ?f = Some table \<and> table \<noteq> Stdin_fops"
    by cases (auto simp: closable_def)
  then obtain table where table: "fops ?f = Some table" "table \<noteq> Stdin_fops" by blast
  have eq: "syscall_write fdn buf n s = fops_write table (tasks_running s) (unat fdn) buf n s"
    using False c(3) table by (simp add: syscall_write_def fops_has_write_def Let_def)
  note tok = kernel_okD(4) [OF ok(1)]
  show ?thesis
  proof (cases table)
    case Stdout_fops
    obtain r t where rt: "terminal_write_loop (unat n) buf 0 s = (r, t)" by (cases "terminal_write_loop (unat n) buf 0 s")
    then have "terminals_ok t \<and> calm s t" using terminal_write_ok [OF tok, of "unat n" buf 0 t] by simp
    then show ?thesis
      using eq rt Stdout_fops keeps_calm [OF ok] by (simp add: fops_write_def terminal_write_def)
  next
    case Rtc_fops
    obtain r t where "rtc_write buf n s = (r, t)" by (cases "rtc_write buf n s")
    then show ?thesis
      using eq Rtc_fops keeps_calm [OF ok] rtc_ok(2) [of s buf n] tok by (simp add: fops_write_def)
  qed (use eq table keeps_refl [OF ok] in \<open>simp_all add: fops_write_def Let_def\<close>)
qed

lemma close_keeps:
  fixes s :: "'a tty_scheme"
  assumes ok: "kernel_ok m0 bb s" "current_ok s"
  shows "\<exists>r t. syscall_close k s = Some (r, t) \<and> keeps m0 bb s t"
proof (cases "k > 7 \<or> k < 2 \<or> flags (fd_array s ! nat k) = 0")
  case True
  then show ?thesis using keeps_refl [OF ok] by (auto simp: syscall_close_def)
next
  case False
  note c = current_fds [OF ok]
  have "keeps m0 bb s (upd_fd (tasks_running s) (nat k) closed_fd s)"
  proof (intro keeps_upd_fd keeps_refl ok c)
    show "2 \<le> nat k" using False by linarith
  qed (simp add: closed_fd_def)
  then show ?thesis using close_open_fd [OF c(1,2), of k] False by (simp add: not_less)
qed

text \<open>The reads that are ready: one from the terminal waits for a line.\<close>

lemma read_keeps:
  fixes s :: "'a tty_scheme"
  assumes ok: "kernel_ok m0 bb s" "current_ok s" and img: "image_apart m0 bb" and buf: "user_range buf (unat n)"
    and pos: "\<forall>k < 8. unat (file_position (fd_array s ! k)) + unat n < 1023 * 4096"
    and rd: "syscall_read irqs [] fdn buf n s = Some (r, t)"
  shows "keeps m0 bb s t"
proof (cases "fdn > 7 \<or> fdn = 1 \<or> flags (fd_array s ! unat fdn) = 0")
  case True
  then have "syscall_read irqs [] fdn buf n s = Some (-1, s)"
    using current_fds(3) [OF ok] by (auto simp: syscall_read_def Let_def)
  then have "t = s" using rd by simp
  then show ?thesis using keeps_refl [OF ok] by simp
next
  case False
  note c = current_fds [OF ok]
  let ?f = "fd_array s ! unat fdn" and ?t = "tasks_running s"
  have k: "unat fdn < 8" "unat fdn \<noteq> 1" using False by (auto simp: word_less_nat_alt word_unat_eq_iff)
  have img': "image_apart (memory s) (boot_block s)"
    using image_now(2) [OF img kernel_okD(6) [OF ok(1)]] kernel_okD(5) [OF ok(1)] by simp
  note tok = kernel_okD(4) [OF ok(1)]
  have f0: "fd (pcb_of ?t s) ! unat fdn = ?f" by (simp add: fd_array_def)
  show ?thesis
  proof (cases "unat fdn = 0")
    case True
    then have e: "syscall_read irqs [] fdn buf n s = do { (r, s, hs) \<leftarrow> terminal_read [] buf n s; Some (r, s) }"
      using c False by (simp add: syscall_read_def fops_has_read_def fops_read_def fds_ok_def Let_def)
    have "terminal_spin [] s \<noteq> None"
      using rd e by (cases "terminal_spin [] s") (simp_all add: terminal_read_def)
    then have "allow_terminal_read (displayed s) \<noteq> 0"
      by (subst (asm) terminal_spin.simps) (auto split: if_splits)
    then obtain k u where "terminal_read [] buf n s = Some (k, u, [])" "terminals_ok u" "calm s u"
      using terminal_read_ok [OF tok buf, of "[]"] by blast
    then show ?thesis using rd e keeps_calm [OF ok] by simp
  next
    case fd2: False
    then have "closable (fops ?f)" using c(2) k False by (auto simp: fds_ok_def)
    then obtain table where table: "fops ?f = Some table" "table \<in> {Rtc_fops, Dir_fops, File_fops}"
      by (auto simp: closable_def)
    have fl: "flags ?f \<noteq> 0" and k2: "2 \<le> unat fdn" using False k fd2 by simp_all
    have eq: "fops_read table irqs [] ?t (unat fdn) buf n s = Some (r, t)"
      using rd False c(3) table by (auto simp: syscall_read_def fops_has_read_def Let_def)
    have upd: "keeps m0 bb s (upd_fd ?t (unat fdn) (\<lambda>f. f\<lparr>inode := i, file_position := p\<rparr>) u)"
      if "calm s u \<and> terminals_ok u = terminals_ok s" for i p and u :: "'a tty_scheme"
    proof -
      have "fd (pcb_of ?t u) ! unat fdn = ?f" using that by (simp add: calm_def pcb_of_def fd_array_def)
      then show ?thesis
        using that tok table \<open>closable (fops ?f)\<close> by (intro keeps_upd_fd keeps_calm ok c(1) k2) simp_all
    qed
    consider "table = Rtc_fops" | "table = Dir_fops" | "table = File_fops" using table(2) by blast
    then show ?thesis
    proof cases
      case 1
      then obtain rest where "rtc_read irqs s = Some (r, t, rest)"
        using eq by (cases "rtc_read irqs s") (auto simp: fops_read_def)
      then show ?thesis using rtc_ok(1) [of irqs s r t rest] tok by (intro keeps_calm ok) simp_all
    next
      case 2
      then obtain i p u where u: "dir_read (inode ?f) (file_position ?f) buf n s = Some (r, i, p, u)"
        "t = upd_fd ?t (unat fdn) (\<lambda>f. f\<lparr>inode := i, file_position := p\<rparr>) u"
        using eq f0 by (cases "dir_read (inode ?f) (file_position ?f) buf n s") (auto simp: fops_read_def)
      then show ?thesis using upd dir_read_ok [OF img' buf u(1)] by simp
    next
      case 3
      obtain r' i p u where u: "file_read (inode ?f) (file_position ?f) buf n s = (r', i, p, u)"
        by (cases "file_read (inode ?f) (file_position ?f) buf n s")
      then have "t = upd_fd ?t (unat fdn) (\<lambda>f. f\<lparr>inode := i, file_position := p\<rparr>) u"
        using eq f0 3 by (simp add: fops_read_def)
      then show ?thesis using upd file_read_ok [OF img' buf _ u] pos k(1) by simp
    qed
  qed
qed

text \<open>Opening: until the flag is set the entry is free, and it is set behind a driver that can be closed.\<close>

definition opens_at :: "mem \<Rightarrow> addr \<Rightarrow> 'a tty_scheme \<Rightarrow> nat \<Rightarrow> 'a tty_scheme \<Rightarrow> bool" where
  "opens_at m0 bb s k t \<longleftrightarrow> keeps m0 bb s t \<and> tasks_running t = tasks_running s \<and> memory t = memory s \<and>
     flags (fd_array t ! k) = 0"

lemma opens_at_upd:
  fixes s t :: "'a tty_scheme"
  assumes "opens_at m0 bb s k t" "tasks_running s < 6" "2 \<le> k" "k < length (fd_array t)"
    and "flags (f (fd_array t ! k)) = 0"
  shows "opens_at m0 bb s k (upd_fd (tasks_running t) k f t)"
    "fd_array (upd_fd (tasks_running t) k f t) ! k = f (fd_array t ! k)"
proof -
  show n: "fd_array (upd_fd (tasks_running t) k f t) ! k = f (fd_array t ! k)"
    using assms(4) by (simp add: fds_of_upd_fd)
  show "opens_at m0 bb s k (upd_fd (tasks_running t) k f t)"
    using assms n unfolding opens_at_def by (auto intro!: keeps_upd_fd simp: fd_array_def)
qed

lemma keeps_fds_length:
  fixes s t :: "'a tty_scheme"
  shows "keeps m0 bb s t \<Longrightarrow> length (fd_array t) = 8"
  using current_fds(2) [of m0 bb t] by (simp add: keeps_def fds_ok_def)

lemma open_keeps:
  fixes s :: "'a tty_scheme"
  assumes ok: "kernel_ok m0 bb s" "current_ok s" and img: "image_apart m0 bb"
    and op: "syscall_open L fr filename s = Some (r, t)"
  shows "keeps m0 bb s t"
proof (cases "filename = 0 \<or> memory s filename = 0 \<or> find_open_fd (fd_array s) = None")
  case True
  then have "syscall_open L fr filename s = Some (-1, s)"
    using current_fds(3) [OF ok] by (auto simp: syscall_open_def)
  then show ?thesis using op keeps_refl [OF ok] by simp
next
  case False
  note c = current_fds [OF ok]
  obtain k where k: "find_open_fd (fd_array s) = Some k" using False by auto
  have len: "length (fd_array s) = 8" using c(2) by (simp add: fds_ok_def)
  have k2: "2 \<le> k" "k < 8" "flags (fd_array s ! k) = 0"
    using fd_table.search_Some [OF len, of k] k by simp_all
  define s1 where "s1 = (if strncmp (memory s) (lit_stdin L) filename 6 = 0 then set_fops k Stdin_fops s
      else if strncmp (memory s) (lit_stdout L) filename 7 = 0 then set_fops k Stdout_fops s else s)"
  have o0: "opens_at m0 bb s k s" using keeps_refl [OF ok] k2 by (simp add: opens_at_def)
  have setf: "opens_at m0 bb s k (set_fops k T u) \<and> fops (fd_array (set_fops k T u) ! k) = Some T"
    if "opens_at m0 bb s k u" for T u
    using opens_at_upd [OF that c(1) k2(1), of "\<lambda>f. f\<lparr>fops := Some T\<rparr>"] keeps_fds_length [of m0 bb s u] that k2
    by (simp add: set_fops_def opens_at_def)
  have o1: "opens_at m0 bb s k s1" using setf [OF o0] o0 by (simp add: s1_def)
  obtain r1 d where rd: "read_dentry_by_name (memory s1) (boot_block s1) filename (Some (frame_dentry fr)) = Some (r1, d)"
    using op False k c(3) by (cases "read_dentry_by_name (memory s1) (boot_block s1) filename (Some (frame_dentry fr))")
      (auto simp: syscall_open_def s1_def Let_def)
  show ?thesis
  proof (cases "r1 = 0")
    case f: False
    then have "t = s1" using op False k c(3) rd by (auto simp: syscall_open_def s1_def [symmetric] Let_def)
    then show ?thesis using o1 by (simp add: opens_at_def)
  next
    case r1: True
    have img1: "image_apart (memory s1) (boot_block s1)"
      using image_now(2) [OF img kernel_okD(6)] kernel_okD(5) o1 unfolding opens_at_def keeps_def by metis
    obtain i where i: "i < 63" "d = Some (dentry_at (memory s1) (entry_addr (boot_block s1) (of_nat i)))"
      using read_dentry_found [OF rd r1] by blast
    then have "d_type (the d) \<le> 2" using img1 by (simp add: image_apart_def)
    then have "unat (d_type (the d)) = 0 \<or> unat (d_type (the d)) = 1 \<or> unat (d_type (the d)) = 2"
      by (auto simp: word_le_nat_alt)
    then have ty: "d_type (the d) = 0 \<or> d_type (the d) = 1 \<or> d_type (the d) = 2"
      by (simp add: unat_eq_of_nat)
    define T where "T = type_fops (d_type (the d))"
    define s2 where "s2 = set_fops k T s1"
    have sel: "(if d_type (the d) = 0 then set_fops k Rtc_fops s1 else if d_type (the d) = 1 then set_fops k Dir_fops s1
        else if d_type (the d) = 2 then set_fops k File_fops s1 else s1) = s2"
      using ty by (auto simp: s2_def T_def type_fops_def)
    have o2: "opens_at m0 bb s k s2" "fops (fd_array s2 ! k) = Some T" using setf [OF o1] by (simp_all add: s2_def)
    have T: "T \<in> {Rtc_fops, Dir_fops, File_fops}" by (simp add: T_def type_fops_def)
    obtain r2 ino s3 where fo: "fops_open T (inode (fd_array s2 ! k)) filename s2 = Some (r2, ino, s3)"
      using op False k c(3) rd r1 o2(2)
      by (cases "fops_open T (inode (fd_array s2 ! k)) filename s2")
        (auto simp: syscall_open_def s1_def [symmetric] sel Let_def)
    have o3: "opens_at m0 bb s k s3 \<and> fd_array s3 = fd_array s2"
    proof (cases "T = Rtc_fops")
      case True
      then have e: "s3 = s2\<lparr>virt_freq := 2\<rparr>" using fo by (simp add: fops_open_def rtc_open_def)
      have "calm s2 s3" "terminals_ok s3 = terminals_ok s2" using rtc_ok(3) [of s2] by (simp_all add: e rtc_open_def)
      then have "keeps m0 bb s2 s3"
        using o2(1) kernel_okD(4) [of m0 bb s2] by (intro keeps_calm) (simp_all add: opens_at_def keeps_def)
      moreover have "fd_array s3 = fd_array s2" "memory s3 = memory s2" "tasks_running s3 = tasks_running s2"
        by (simp_all add: e fd_array_def pcb_of_def)
      ultimately show ?thesis using o2(1) unfolding opens_at_def keeps_def by metis
    next
      case False
      then have "s3 = s2" using fo T by (auto simp: fops_open_def split: bind_splits)
      then show ?thesis using o2(1) by simp
    qed
    define s4 where "s4 = upd_fd (tasks_running s3) k (\<lambda>f. f\<lparr>inode := ino\<rparr>) s3"
    have l3: "k < length (fd_array s3)" using o3 keeps_fds_length [of m0 bb s s3] k2(2) by (simp add: opens_at_def)
    have fl: "flags ((\<lambda>f. f\<lparr>inode := ino\<rparr>) (fd_array s3 ! k)) = 0"
      using conjunct1 [OF o3] by (simp add: opens_at_def)
    have o4: "opens_at m0 bb s k s4" "fops (fd_array s4 ! k) = Some T"
      unfolding s4_def using opens_at_upd [where f = "\<lambda>f. f\<lparr>inode := ino\<rparr>", OF conjunct1 [OF o3] c(1) k2(1) l3 fl] o3 o2(2) by simp_all
    have "t = s4 \<or> t = upd_fd (tasks_running s4) k (\<lambda>f. f\<lparr>flags := 1\<rparr>) s4"
      using op False k c(3) rd r1 o2(2) fo
      by (auto simp: syscall_open_def s1_def [symmetric] sel Let_def s4_def [symmetric] split: if_splits)
    moreover have "keeps m0 bb s (upd_fd (tasks_running s4) k (\<lambda>f. f\<lparr>flags := 1\<rparr>) s4)"
      using o4 c(1) k2(1) T by (intro keeps_upd_fd) (auto simp: opens_at_def closable_def fd_array_def)
    ultimately show ?thesis using o4(1) by (auto simp: opens_at_def)
  qed
qed

subsection \<open>getargs and vidmap\<close>

lemma getargs_keeps:
  fixes s :: "'a tty_scheme"
  assumes ok: "kernel_ok m0 bb s" "current_ok s" and buf: "user_range buf (nat n)" and n: "n < 2 ^ 31"
    and op: "syscall_getargs buf n s = Some (r, t)"
  shows "keeps m0 bb s t"
proof -
  let ?arg = "argument_buf (pcb_of (tasks_running s) s)"
  have mem: "keeps m0 bb s (s\<lparr>memory := put (memset (memory s) buf 0 (word_of_int n)) buf xs\<rparr>)"
    if "0 \<le> n" "length xs \<le> nat n" for xs
  proof -
    have u: "unat (word_of_int n :: u32) = nat n" using that(1) n by (intro unat_word_of_int) simp_all
    have "undisturbed (memory s) (memset (memory s) buf 0 (word_of_int n))"
      using user_outside [OF buf] by (auto simp: undisturbed_def memset_filled filled_def u)
    then have "undisturbed (memory s) (put (memset (memory s) buf 0 (word_of_int n)) buf xs)"
      using undisturbed_user [OF buf that(2)] undisturbed_trans by blast
    then show ?thesis using calm_memory [of s] kernel_okD(4) [OF ok(1)] by (intro keeps_calm ok) blast+
  qed
  have "t = s \<or> (0 \<le> n \<and> (\<exists>xs. length xs \<le> nat n \<and> t = s\<lparr>memory := put (memset (memory s) buf 0 (word_of_int n)) buf xs\<rparr>))"
  proof (cases "strlen_buf ?arg")
    case None
    then show ?thesis using op by (auto simp: syscall_getargs_def Let_def split: if_splits)
  next
    case (Some j)
    show ?thesis
    proof (cases "buf = 0 \<or> j > word_of_int n \<or> ?arg ! 0 = NULL_CHAR")
      case True
      then show ?thesis using op Some by (auto simp: syscall_getargs_def Let_def split: if_splits)
    next
      case False
      define xs where "xs = (if n > 129 then take 129 ?arg else take (nat n) ?arg)"
      have "0 \<le> n \<and> t = s\<lparr>memory := put (memset (memory s) buf 0 (word_of_int n)) buf xs\<rparr>"
        using op Some False
        by (auto simp: syscall_getargs_def Let_def ARGUMENT_SIZE_def xs_def split: if_splits)
      moreover have "length xs \<le> nat n" by (auto simp: xs_def)
      ultimately show ?thesis by blast
    qed
  qed
  then show ?thesis using mem keeps_refl [OF ok] by blast
qed

lemma vidmap_keeps:
  fixes s :: "'a tty_scheme"
  assumes ok: "kernel_ok m0 bb s" "current_ok s" and p: "user_range p 4" and op: "syscall_vidmap L p s = (r, t)"
  shows "keeps m0 bb s t"
proof (cases "p = 0 \<or> p = fourM")
  case True
  then show ?thesis using op keeps_refl [OF ok] by (simp add: syscall_vidmap_def)
next
  case False
  let ?u = "videomem_map (paging_tables L) addr_148MB video_mem_addr s"
  have t: "t = ?u\<lparr>memory := wr32 (memory ?u) p addr_148MB\<rparr>"
    using op False by (simp add: syscall_vidmap_def Let_def)
  have m: "memory ?u = memory s" by (simp add: map_fields)
  have "scratch (p + of_nat i)" if "i < 4" for i using p that scratch_cases(1) by (simp add: user_range_def)
  from this [of 0] this [of 1] this [of 2] this [of 3]
  have "undisturbed (memory s) (wr32 (memory s) p addr_148MB)"
    by (simp add: wr32_def undisturbed_upd)
  moreover note more = paging_more_tty [OF map_fields(6) [of "paging_tables L" video_mem_addr s]]
  ultimately have "calm s t" by (simp add: t m calm_def more map_fields)
  moreover have "terminals_ok t = terminals_ok s"
    by (simp add: t terminals_ok_def cursor_of_def more videomem_screen)
  ultimately show ?thesis using kernel_okD(4) [OF ok(1)] by (intro keeps_calm ok) simp_all
qed

subsection \<open>Messages\<close>

text \<open>A constant format string outside the scratch memory is printed, wherever the cursor is.\<close>

definition message_at :: "mem \<Rightarrow> addr \<Rightarrow> u8 list \<Rightarrow> bool" where
  "message_at m a xs \<longleftrightarrow> string_at m a xs \<and> 0x25 \<notin> set xs \<and> (\<forall>i \<le> length xs. \<not> scratch (a + of_nat i))"

lemma message_tail: "message_at m a (x # xs) \<Longrightarrow> message_at m (a + 1) xs"
proof -
  assume a: "message_at m a (x # xs)"
  have "\<not> scratch (a + 1 + of_nat i)" if "i \<le> length xs" for i
  proof -
    have "Suc i \<le> length (x # xs)" using that by simp
    then have "\<not> scratch (a + of_nat (Suc i))" using a unfolding message_at_def by blast
    then show ?thesis by (simp add: add.assoc)
  qed
  then show ?thesis using a string_tail(3) by (auto simp: message_at_def)
qed

lemma message_undisturbed:
  assumes "undisturbed m m'" "message_at m a xs"
  shows "message_at m' a xs"
  using assms unfolding message_at_def undisturbed_def string_at_def by auto

lemma printf_message:
  fixes s :: "'a tty_scheme"
  shows "cursor_range n s \<Longrightarrow> message_at (memory s) fmt xs \<Longrightarrow> \<exists>k. printf_loop fmt esp conv s = Some (k, fold putc xs s)"
proof (induction xs arbitrary: fmt s)
  case Nil
  then show ?case by (subst printf_loop.simps) (simp add: message_at_def string_at_Nil)
next
  case (Cons x xs)
  have st: "string_at (memory s) fmt (x # xs)" "x \<noteq> 0x25" using Cons.prems(2) by (auto simp: message_at_def)
  have "undisturbed (memory s) (memory (putc x s))"
    using calm_putc [OF Cons.prems(1), of x] by (simp add: calm_def)
  then have "message_at (memory (putc x s)) (fmt + 1) xs"
    using message_tail [OF Cons.prems(2)] by (rule message_undisturbed)
  then obtain k where "printf_loop (fmt + 1) esp conv (putc x s) = Some (k, fold putc xs (putc x s))"
    using Cons.IH putc_range [OF Cons.prems(1)] by blast
  then show ?case
    using string_tail(1,2) [OF st(1)] st(2) by (subst printf_loop.simps) simp
qed

lemma printf_keeps:
  fixes s :: "'a tty_scheme"
  assumes "terminals_ok s" "message_at (memory s) fmt xs"
  shows "\<exists>k t. printf fmt esp conv s = Some (k, t) \<and> calm s t \<and> terminals_ok t"
  using printf_message [OF terminals_okD(3) [OF assms(1)] assms(2), of esp conv] fold_putc_terminals [OF assms(1), of xs]
  by (auto simp: printf_def)

subsection \<open>Starting and ending programs\<close>

definition frame_ok :: "frame \<Rightarrow> bool" where
  "frame_ok fr \<longleftrightarrow> (\<forall>j < 33. kernel_stack (task_name_at fr + of_nat j)) \<and>
     (\<forall>j < 129. kernel_stack (argument_at fr + of_nat j)) \<and> (\<forall>j < 4. kernel_stack (elf_buf_at fr + of_nat j)) \<and>
     apart (task_name_at fr) 33 (argument_at fr) 129 \<and> apart (task_name_at fr) 33 (elf_buf_at fr) 4 \<and>
     apart (argument_at fr) 129 (elf_buf_at fr) 4"

text \<open>A command string: outside the kernel stacks, where the arrays it is copied to are.\<close>

definition command_at :: "mem \<Rightarrow> addr \<Rightarrow> u8 list \<Rightarrow> bool" where
  "command_at m cmd xs \<longleftrightarrow> string_at m cmd xs \<and> (\<forall>i \<le> length xs. \<not> kernel_stack (cmd + of_nat i))"

lemma stack_not_window: "kernel_stack a \<Longrightarrow> \<not> in_window a"
proof
  assume "kernel_stack a" "in_window a"
  define k where "k = unat (a - 0x7F4000)"
  have k: "k < 0xC000" "a = 0x7F4000 + of_nat k" using \<open>kernel_stack a\<close> by (simp_all add: k_def kernel_stack_def)
  then have "a - virtual_mem = 0xF87F4000 + of_nat k" by (simp add: virtual_mem_def)
  moreover have "unat (0xF87F4000 + of_nat k :: u32) = 0xF87F4000 + k"
    using k(1) by (simp add: unat_word_ariths unat_of_nat take_bit_nat_eq_self)
  ultimately have "unat (a - virtual_mem) = 0xF87F4000 + k" by (simp only:)
  then show False using \<open>in_window a\<close> by (simp add: in_window_def fourM_def word_less_nat_alt)
qed

lemma layout_now:
  assumes "image_apart (memory s) (boot_block s)" "frame_ok fr"
  shows "kernel_layout fr s"
proof -
  have "elf_buf_at fr \<noteq> 0"
  proof
    assume "elf_buf_at fr = 0"
    moreover have "kernel_stack (elf_buf_at fr + of_nat 0)" using assms(2) unfolding frame_ok_def by (metis zero_less_numeral)
    ultimately show False by (simp add: kernel_stack_def)
  qed
  then show ?thesis
    using assms scratch_cases(1,3) stack_not_window
    by (auto simp: kernel_layout_def image_apart_def frame_ok_def off_image_def)
qed

lemma apart_stack:
  assumes "\<And>i. i < n \<Longrightarrow> \<not> kernel_stack (a + of_nat i)" "\<And>j. j < k \<Longrightarrow> kernel_stack (b + of_nat j)"
  shows "apart a n b k"
  using assms unfolding apart_def by metis

lemma command_now: "frame_ok fr \<Longrightarrow> command_at m cmd xs \<Longrightarrow> command_ok fr cmd m xs"
  unfolding command_ok_def command_at_def frame_ok_def
  using apart_stack [of "Suc (length xs)" cmd 33 "task_name_at fr"] apart_stack [of "Suc (length xs)" cmd 129 "argument_at fr"]
  by simp

lemma parsed_undisturbed:
  assumes "frame_ok fr"
  shows "length (command_name xs) \<le> 32 \<Longrightarrow> undisturbed m (parsed_memory fr xs m)"
    "undisturbed m (put m (task_name_at fr) (take 32 (command_name xs)))"
proof -
  have n: "undisturbed m (put m (task_name_at fr) ys)" if "length ys \<le> 33" for m ys
    using assms that by (intro undisturbed_put scratch_cases(3)) (simp add: frame_ok_def)
  have a: "undisturbed m (put m (argument_at fr) ys)" if "length ys \<le> 129" for m ys
    using assms that by (intro undisturbed_put scratch_cases(3)) (simp add: frame_ok_def)
  show "undisturbed m (parsed_memory fr xs m)" if "length (command_name xs) \<le> 32"
    unfolding parsed_memory_def
    by (rule undisturbed_trans [OF n a]) (use that set_command(4) [of xs] in simp_all)
  show "undisturbed m (put m (task_name_at fr) (take 32 (command_name xs)))" by (intro n) simp
qed

lemma checked_undisturbed:
  assumes "frame_ok fr" "length (command_name xs) \<le> 32"
  shows "undisturbed (memory s) (checked_memory fr xs s)"
proof -
  have "undisturbed m (put m (elf_buf_at fr) ys)" if "length ys \<le> 4" for m ys
    using assms(1) that by (intro undisturbed_put scratch_cases(3)) (simp add: frame_ok_def)
  then show ?thesis
    unfolding checked_memory_def Let_def
    by (rule undisturbed_trans [OF parsed_undisturbed(1) [OF assms]]) (simp del: upt_conv_Cons)
qed

text \<open>The parts of the state starting a task leaves alone.\<close>

lemma start_task_frame:
  fixes s :: "'a tty_scheme"
  assumes "start_task fr f n s = Iret e t"
  shows "terminals t = terminals s \<and> display_terminal_id t = display_terminal_id s \<and> screen_x t = screen_x s \<and>
    screen_y t = screen_y s \<and> tty.more t = tty.more s"
proof -
  define s1 where "s1 = s\<lparr>tasks_running := n, task_slots := (task_slots s)[unat n := 1]\<rparr>"
  obtain c m where rd: "read_data (boot_block s1) (d_inode f) 0 program_addr twoM (window_of n s1) = (c, m)"
    by (cases "read_data (boot_block s1) (d_inode f) 0 program_addr twoM (window_of n s1)")
  have lp: "load_program f s1 = (rd32 m (program_addr + 24), (syscall_paging_setup (task_frame n) s1)\<lparr>memory := m\<rparr>)"
    using load_program_spec [of s1 f c m] rd by (simp add: s1_def)
  define s2 where "s2 = (syscall_paging_setup (task_frame n) s1)\<lparr>memory := m\<rparr>"
  obtain pc where pc: "create_pcb fr (tasks_running s) (rd32 m (program_addr + 24)) s2 = s2\<lparr>pcbs := pc\<rparr>"
    using create_pcb_frame by blast
  have "start_task fr f n s = Iret (rd32 m (program_addr + 24))
      (s2\<lparr>pcbs := pc, tss_ss0 := KERNEL_DS, tss_esp0 := eightK * oneK - eightK * tasks_running s2 - 4\<rparr>)"
    using lp pc by (simp add: start_task_def s1_def [symmetric] s2_def [symmetric] Let_def)
  then have "t = s2\<lparr>pcbs := pc, tss_ss0 := KERNEL_DS, tss_esp0 := eightK * oneK - eightK * tasks_running s2 - 4\<rparr>"
    using assms by simp
  then show ?thesis by (simp add: s2_def s1_def)
qed

text \<open>A state whose tasks are as after the start of task \<open>n\<close>.\<close>

lemma terminals_ok_same:
  fixes s t :: "'a tty_scheme"
  assumes "terminals t = terminals s" "display_terminal_id t = display_terminal_id s" "screen_x t = screen_x s" "screen_y t = screen_y s"
  shows "terminals_ok t = terminals_ok s"
  by (simp add: terminals_ok_def cursor_of_def assms)

lemma start_keeps:
  fixes s :: "'a tty_scheme"
  assumes ok: "kernel_ok m0 bb s" and img: "image_apart m0 bb"
    and n: "find_open_task s \<noteq> -1" "n = word_of_int (find_open_task s)"
    and f: "d_inode f < boot_inodes (memory s) bb" "0 < file_size (memory s) bb (d_inode f)"
  shows "\<exists>e t. start_task fr f n s = Iret e t \<and> keeps m0 bb s t \<and> tasks_running t = n \<and>
    task_slots t = (task_slots s)[unat n := 1] \<and> display_terminal_id t = display_terminal_id s"
proof -
  have len: "length (task_slots s) = 6" using kernel_okD(1) [OF ok] by (simp add: tasks_ok_def)
  note fo = find_open_task_Some(2) [OF len n(1), folded n(2)]
  have img': "image_apart (memory s) bb" using image_now(2) [OF img kernel_okD(6) [OF ok]] .
  have cur: "current_ok s" if "3 \<le> n"
  proof -
    have "running s 0" using fo that by (auto simp: word_le_nat_alt word_less_nat_alt)
    then show ?thesis using kernel_okD(2) [OF ok] by (auto simp: alive_def)
  qed
  obtain t where t: "start_task fr f n s = Iret (rd32 (memory t) (program_addr + 24)) t" "tasks_running t = n"
    "tasks_ok t" "current_ok t" "task_slots t = (task_slots s)[unat n := 1]"
    "page_directory t = (page_directory s)(32 := task_frame n OR 0x87)" "boot_block t = boot_block s"
    "memory t = put (window_of n s) program_addr (map (file_byte (memory s) bb (d_inode f)) [0..<0x200000])"
    "pcb_of n t = new_pcb fr n (if 3 \<le> n then tasks_running s else -1)
      (rd32 (memory t) (program_addr + 24)) (memory t) (pcb_of n s)"
    "\<forall>j < 6. j \<noteq> n \<longrightarrow> pcb_of j t =
       (if 3 \<le> n \<and> j = tasks_running s then (pcb_of j s)\<lparr>task_id_child := n\<rparr> else pcb_of j s)"
    using start_task_correct [OF kernel_okD(1) [OF ok] _ _ cur _ _ kernel_okD(5) [OF ok] f(1,2), where n = n and fr = fr]
      fo img' f(1) scratch_cases(1) by (auto simp: image_apart_def)
  note fr' = start_task_frame [OF t(1)]
  have "terminals_ok t" using kernel_okD(4) [OF ok] fr' terminals_ok_same [of t s] by simp
  moreover have "descriptors_ok t"
    unfolding descriptors_ok_def
  proof (intro allI impI)
    fix j assume j: "running t j"
    then have "j = n \<or> running s j" "j < 6"
      using slot_update [OF len _ t(5), of j] fo running_less [of t j] by (simp_all split: if_splits)
    then show "fds_ok (fd (pcb_of j t))"
      using t(9,10) kernel_okD(3) [OF ok] std_fds_ok by (cases "j = n") (auto simp: new_pcb_def descriptors_ok_def)
  qed
  moreover have "undisturbed m0 (memory t)"
  proof -
    have "undisturbed (memory s) (window_of n s)"
      using scratch_cases(1) by (auto simp: undisturbed_def window_of_def setup_memory)
    moreover have "undisturbed (window_of n s) (memory t)"
      unfolding t(8) using program_in_window scratch_cases(1) by (intro undisturbed_put) (simp del: upt_conv_Cons)
    ultimately show ?thesis using kernel_okD(6) [OF ok] undisturbed_trans by blast
  qed
  ultimately have "keeps m0 bb s t"
    using t fr' kernel_okD(5) [OF ok] by (simp add: keeps_def kernel_ok_def alive_def window_ok_def)
  then show ?thesis using t(1,2,5) fr' by blast
qed

definition messages_ok :: "links \<Rightarrow> mem \<Rightarrow> bool" where
  "messages_ok L m \<longleftrightarrow> (\<exists>xs. message_at m (lit_max_programs L) xs) \<and> (\<exists>xs. message_at m (lit_halting L) xs)"

lemma execute_elf_keeps:
  fixes s :: "'a tty_scheme"
  assumes ok: "kernel_ok m0 bb s" and img: "image_apart m0 bb" and fr: "frame_ok fr"
    and cmd: "command_at (memory s) cmd xs" "length (command_name xs) \<le> 32" "command_name xs \<noteq> []"
    and ino: "exec_inode fr (command_name xs) s < boot_inodes (memory s) (boot_block s)"
    and elf: "file_is_elf (memory s) (boot_block s) (exec_inode fr (command_name xs) s)" and go: "find_open_task s \<noteq> -1"
  shows "\<exists>e t n. syscall_execute L fr cmd s = Some (Iret e t) \<and> keeps m0 bb s t \<and> n = word_of_int (find_open_task s) \<and>
       find_open_task s \<noteq> -1 \<and> tasks_running t = n \<and> task_slots t = (task_slots s)[unat n := 1] \<and>
       display_terminal_id t = display_terminal_id s"
proof -
  note tok = kernel_okD(4) [OF ok] and bb = kernel_okD(5) [OF ok]
  have img': "image_apart (memory s) (boot_block s)" using image_now(2) [OF img kernel_okD(6) [OF ok]] bb by simp
  note lay = layout_now [OF img' fr] and co = command_now [OF fr cmd(1)]
  define s2 where "s2 = s\<lparr>memory := checked_memory fr xs s\<rparr>"
  note und = checked_undisturbed [OF fr cmd(2), of s]
  have c2: "calm s s2" "terminals_ok s2" using calm_memory [OF und] tok by (simp_all add: s2_def)
  obtain f where f: "d_inode f = exec_inode fr (command_name xs) s"
    "syscall_execute L fr cmd s = Some (start_task fr f (word_of_int (find_open_task s)) s2)"
    using execute_checked [OF co cmd(2,3) lay ino, of L] elf go unfolding s2_def by auto
  have ok2: "kernel_ok m0 bb s2" using kernel_ok_calm [OF ok c2] .
  have so: "same_image bb (memory s) (memory s2)"
    using image_now(1) [OF image_now(2) [OF img kernel_okD(6) [OF ok]] und] by (simp add: s2_def)
  have ino2: "d_inode f < boot_inodes (memory s2) bb" "0 < file_size (memory s2) bb (d_inode f)"
    using ino elf same_image_boot(1) [OF so] same_image_inode(1) [OF so, of "d_inode f"] bb f(1)
    by (auto simp: file_is_elf_def)
  have fo: "find_open_task s2 = find_open_task s" by (simp add: s2_def find_open_task_def)
  obtain e t where t: "start_task fr f (word_of_int (find_open_task s)) s2 = Iret e t" "keeps m0 bb s2 t"
    "tasks_running t = word_of_int (find_open_task s)"
    "task_slots t = (task_slots s2)[unat (word_of_int (find_open_task s) :: u32) := 1]"
    "display_terminal_id t = display_terminal_id s2"
    using start_keeps [OF ok2 img _ refl ino2, of fr] go unfolding fo by blast
  then have "keeps m0 bb s t" by (simp add: keeps_def s2_def)
  then show ?thesis using f(2) go t by (auto simp: s2_def)
qed

lemma execute_keeps:
  fixes s :: "'a tty_scheme"
  assumes ok: "kernel_ok m0 bb s" and img: "image_apart m0 bb" and fr: "frame_ok fr" and msg: "messages_ok L m0"
    and cmd: "command_at (memory s) cmd xs"
  shows "(\<exists>r t. syscall_execute L fr cmd s = Some (Returns r t) \<and> calm s t \<and> terminals_ok t) \<or>
    (\<exists>e t n. syscall_execute L fr cmd s = Some (Iret e t) \<and> keeps m0 bb s t \<and> n = word_of_int (find_open_task s) \<and>
       find_open_task s \<noteq> -1 \<and> tasks_running t = n \<and> task_slots t = (task_slots s)[unat n := 1] \<and>
       display_terminal_id t = display_terminal_id s)"
proof -
  let ?n = "command_name xs"
  note tok = kernel_okD(4) [OF ok] and bb = kernel_okD(5) [OF ok]
  have img': "image_apart (memory s) (boot_block s)" using image_now(2) [OF img kernel_okD(6) [OF ok]] bb by simp
  note lay = layout_now [OF img' fr] and co = command_now [OF fr cmd]
  have parse: "parse_command fr cmd (memory s) =
    (if length ?n > 32 then Some (put (memory s) (task_name_at fr) (take 32 ?n), False)
     else Some (parsed_memory fr xs (memory s), True))"
    using parse_command_correct [OF co] by (simp add: parsed_memory_def)
  have mem: "calm s (s\<lparr>memory := m\<rparr>) \<and> terminals_ok (s\<lparr>memory := m\<rparr>)" if "undisturbed (memory s) m" for m
    using calm_memory [OF that] tok by simp
  consider (long) "length ?n > 32" | (blank) "?n = []" | (rest) "length ?n \<le> 32" "?n \<noteq> []" by linarith
  then show ?thesis
  proof cases
    case long
    then show ?thesis using parse mem [OF parsed_undisturbed(2) [OF fr]] by (simp add: syscall_execute_def)
  next
    case blank
    then have "name_given fr (parsed_memory fr xs (memory s)) = Some False"
      using name_given_string [OF parsed_strings(1) [OF co] set_command(1)] by simp
    then show ?thesis
      using parse blank mem [OF parsed_undisturbed(1) [OF fr]] by (simp add: syscall_execute_def)
  next
    case rest
    show ?thesis
    proof (cases "exec_inode fr ?n s < boot_inodes (memory s) (boot_block s)")
      case False
      then show ?thesis
        using execute_no_inode [OF co rest(1,2) lay, of L] mem [OF parsed_undisturbed(1) [OF fr rest(1)]] by blast
    next
      case True
      define s2 where "s2 = s\<lparr>memory := checked_memory fr xs s\<rparr>"
      note und = checked_undisturbed [OF fr rest(1), of s]
      have c2: "calm s s2" "terminals_ok s2" using mem [OF und] by (simp_all add: s2_def)
      obtain f where f: "d_inode f = exec_inode fr ?n s" "syscall_execute L fr cmd s =
        (if \<not> file_is_elf (memory s) (boot_block s) (d_inode f) then Some (Returns (-1) s2)
         else if find_open_task s = -1 then do {
           (n, s3) \<leftarrow> printf (lit_max_programs L) (printf_args fr) (printf_buf fr) s2; Some (Returns (-1) s3) }
         else Some (start_task fr f (word_of_int (find_open_task s)) s2))"
        using execute_checked [OF co rest(1,2) lay True, of L] unfolding s2_def by blast
      consider (bad) "\<not> file_is_elf (memory s) (boot_block s) (d_inode f)"
        | (full) "file_is_elf (memory s) (boot_block s) (d_inode f)" "find_open_task s = -1"
        | (go) "file_is_elf (memory s) (boot_block s) (d_inode f)" "find_open_task s \<noteq> -1" by blast
      then show ?thesis
      proof cases
        case bad
        then show ?thesis using f(2) c2 by auto
      next
        case full
        have "undisturbed m0 (memory s2)"
          using undisturbed_trans [OF kernel_okD(6) [OF ok] und] by (simp add: s2_def)
        then obtain ys where "message_at (memory s2) (lit_max_programs L) ys"
          using msg message_undisturbed unfolding messages_ok_def by blast
        then obtain k t where "printf (lit_max_programs L) (printf_args fr) (printf_buf fr) s2 = Some (k, t)"
          "calm s2 t" "terminals_ok t" using printf_keeps [OF c2(2)] by blast
        then show ?thesis using f(2) full calm_trans [OF c2(1)] by auto
      next
        case go
        then show ?thesis
          using execute_elf_keeps [OF ok img fr cmd rest(1,2) True, of L] f(1) by auto
      qed
    qed
  qed
qed

lemma halt_keeps:
  fixes s :: "'a tty_scheme"
  assumes ok: "kernel_ok m0 bb s" "current_ok s" and msg: "messages_ok L m0"
  shows "(tasks_running s < 3 \<and> (\<exists>t. syscall_halt L fr status s = Some (Iret (old_eip (pcb_of (tasks_running s) s)) t) \<and>
      keeps m0 bb s t \<and> pcbs t = pcbs s \<and> task_slots t = task_slots s \<and> tasks_running t = tasks_running s \<and>
      exception_death t = exception_death s)) \<or>
    (3 \<le> tasks_running s \<and> (\<exists>r a b t. syscall_halt L fr status s = Some (Returns_from_execute r a b t) \<and> keeps m0 bb s t))"
proof (cases "3 \<le> tasks_running s")
  case False
  note tok = kernel_okD(4) [OF ok(1)]
  obtain ys where "message_at (memory s) (lit_halting L) ys"
    using msg message_undisturbed [OF kernel_okD(6) [OF ok(1)]] unfolding messages_ok_def by blast
  then obtain k t where t: "printf (lit_halting L) (printf_args fr) (printf_buf fr) s = Some (k, t)" "calm s t" "terminals_ok t"
    using printf_keeps [OF tok] by blast
  have "task_id_parent (pcb_of (tasks_running s) s) = -1"
    using tasks_okD(7) [OF kernel_okD(1) [OF ok(1)]] ok(2) False by (simp add: current_ok_def)
  then obtain x where x: "syscall_halt L fr status s = Some (Iret (old_eip (pcb_of (tasks_running s) s))
      (t\<lparr>tss_ss0 := KERNEL_DS, tss_esp0 := x\<rparr>))"
    using t(1) by (auto simp: syscall_halt_def Let_def)
  let ?t = "t\<lparr>tss_ss0 := KERNEL_DS, tss_esp0 := x\<rparr>"
  have "calm s ?t" using t(2) by (simp add: calm_def)
  moreover from this have "keeps m0 bb s ?t"
    using t(3) terminals_ok_same [of ?t t] by (intro keeps_calm ok) simp_all
  ultimately show ?thesis using x False by (auto simp: calm_def)
next
  case True
  let ?c = "tasks_running s" and ?p = "task_id_parent (pcb_of (tasks_running s) s)"
  note c = current_fds [OF ok]
  obtain t fds where t: "syscall_halt L fr status s = Some (Returns_from_execute
        (if exception_death s \<noteq> 0 then 256 else ucast status) (old_esp (pcb_of ?c s)) (old_ebp (pcb_of ?c s)) t)"
    "tasks_running t = ?p" "tasks_ok t" "current_ok t" "task_slots t = (task_slots s)[unat ?c := 0]"
    "memory t = window_of ?p s" "page_directory t 32 = task_frame ?p OR 0x87" "boot_block t = boot_block s"
    "terminals t = terminals s" "display_terminal_id t = display_terminal_id s" "screen_x t = screen_x s"
    "screen_y t = screen_y s" "tty.more t = tty.more s"
    "\<forall>j < 6. pcb_of j t = (if j = ?p then (pcb_of ?p s)\<lparr>task_id_child := -1\<rparr>
       else if j = ?c then (pcb_of ?c s)\<lparr>fd := fds\<rparr> else pcb_of j s)" "fds_ok fds"
    using halt_correct [OF kernel_okD(1) [OF ok(1)] ok(2) refl True c(2) refl, of L fr status] by blast
  have len: "length (task_slots s) = 6" using kernel_okD(1) [OF ok(1)] by (simp add: tasks_ok_def)
  have "fds_ok (fd (pcb_of j t))" if j: "running t j" for j
  proof -
    have "running s j" "j < 6" using slot_update [OF len c(1) t(5), of j] j running_less [OF j] by (simp_all split: if_splits)
    then show ?thesis using t(14,15) kernel_okD(3) [OF ok(1)] by (auto simp: descriptors_ok_def)
  qed
  moreover have "undisturbed m0 (memory t)"
  proof -
    have "undisturbed (memory s) (window_of ?p s)"
      using scratch_cases(1) by (auto simp: undisturbed_def window_of_def setup_memory)
    then show ?thesis using undisturbed_trans kernel_okD(6) [OF ok(1)] by (auto simp: t(6))
  qed
  ultimately have "keeps m0 bb s t"
    using t kernel_okD(4,5) [OF ok(1)] terminals_ok_same [of t s]
    by (simp add: keeps_def kernel_ok_def alive_def window_ok_def descriptors_ok_def)
  then show ?thesis using t(1) True by blast
qed

end
