(* ===== verification/Scheduler.thy ===== *)
theory Scheduler
  imports Calls
begin

section \<open>The timer and the scheduler (pit.c, scheduler.c)\<close>

text \<open>
  \<open>student-distrib/pit.c\<close> and \<open>student-distrib/scheduler.c\<close>. The scheduler starts a shell
  on each terminal that has none; its switch between running programs is commented out in
  the code. A tick that starts a shell enters user code by \<open>iret\<close> and its handler never
  gets to the increment of \<open>i\<close> behind the call. \<open>active_process\<close> is an \<open>int\<close>.
\<close>

record sched = tty +
  bootup_flag :: u32
  active_process :: int
  pit_i :: int

definition PIT_IRQ_NUM :: u32 where "PIT_IRQ_NUM = 0x00"
definition PIT_CHANNEL0 :: u32 where "PIT_CHANNEL0 = 0x40"
definition PIT_CMD_REG :: u32 where "PIT_CMD_REG = 0x43"
definition PIT_COMMAND :: u32 where "PIT_COMMAND = 0x36"
definition RELOAD_VAL :: u32 where "RELOAD_VAL = 23863"
definition PIT_MASK :: u32 where "PIT_MASK = 0xFF"
definition PIT_SHIFT :: nat where "PIT_SHIFT = 8"

definition pit_init :: "'a sched_scheme \<Rightarrow> 'a sched_scheme" where
  "pit_init s =
     (let s = cli s;
          s = outb PIT_COMMAND PIT_CMD_REG s;
          s = outb (RELOAD_VAL AND PIT_MASK) PIT_CHANNEL0 s;
          s = outb (drop_bit PIT_SHIFT RELOAD_VAL) PIT_CHANNEL0 s;
          s = enable_irq PIT_IRQ_NUM s
      in sti s)"

text \<open>\<open>t_num < 0\<close> never holds of an unsigned number.\<close>

definition scheduler ::
  "links \<Rightarrow> regs \<Rightarrow> frame \<Rightarrow> u32 \<Rightarrow> 'a sched_scheme \<Rightarrow> 'a sched_scheme outcome option" where
  "scheduler L r fr t_num s =
     (if t_num \<ge> word_of_int TERMINAL_COUNT then Some (Returns 0 s)
      else do {
        (t_num, s) \<leftarrow> (if bootup_flag s \<noteq> 0
          then do { s \<leftarrow> switch_display_terminal r 0 s; Some (0, s\<lparr>bootup_flag := 0\<rparr>) }
          else Some (t_num, s));
        b \<leftarrow> find_bottom_task t_num s;
        let s = s\<lparr>active_process := sint b\<rparr>;
        if active_process s = -1 then do {
          let s = send_eoi 0 s;
          let s = (if t_num = 2 then s\<lparr>bootup_flag := 1\<rparr> else s);
          s \<leftarrow> switch_display_terminal r t_num s;
          syscall_execute L fr (lit_shell L) s
        }
        else Some (Returns 0 s)
      })"

definition get_active_terminal :: "'a sched_scheme \<Rightarrow> int" where
  "get_active_terminal s = active_process s"

text \<open>Behind the call of \<open>scheduler\<close>, reached only if it returns.\<close>

definition pit_finish :: "'a sched_scheme \<Rightarrow> 'a sched_scheme" where
  "pit_finish s =
     (let s = s\<lparr>pit_i := pit_i s + 1\<rparr>;
          s = (if pit_i s > 2 then s\<lparr>pit_i := 0\<rparr> else s);
          s = sti s
      in send_eoi PIT_IRQ_NUM s)"

definition pit_handler ::
  "links \<Rightarrow> regs \<Rightarrow> frame \<Rightarrow> 'a sched_scheme \<Rightarrow> 'a sched_scheme outcome option" where
  "pit_handler L r fr s = do {
     let s = cli s;
     out \<leftarrow> scheduler L r fr (word_of_int (pit_i s)) s;
     (case out of
        Returns _ s \<Rightarrow> Some (Returns 0 (pit_finish s))
      | Iret e s \<Rightarrow> Some (Iret e s)
      | Returns_from_execute a b c s \<Rightarrow> Some (Returns_from_execute a b c s))
   }"


subsection \<open>Ticks\<close>

primrec outcome_state :: "'s outcome \<Rightarrow> 's" where
  "outcome_state (Returns r s) = s"
| "outcome_state (Iret e s) = s"
| "outcome_state (Returns_from_execute r a b s) = s"

lemma kernel_ok_cong:
  fixes s t :: "'a tty_scheme"
  assumes "tasks_running t = tasks_running s" "task_slots t = task_slots s" "pcbs t = pcbs s"
    and "page_directory t 32 = page_directory s 32" "boot_block t = boot_block s" "memory t = memory s"
    and "terminals t = terminals s" "display_terminal_id t = display_terminal_id s"
    and "screen_x t = screen_x s" "screen_y t = screen_y s"
  shows "kernel_ok m0 bb t = kernel_ok m0 bb s"
proof -
  have r: "running t = running s" by (rule running_slots) (rule assms)
  have p: "pcb_of j t = pcb_of j s" for j by (simp add: pcb_of_def assms)
  have "tasks_ok t = tasks_ok s" by (rule tasks_ok_pcbs) (rule assms)+
  moreover have "terminals_ok t = terminals_ok s" by (rule terminals_ok_same) (rule assms)+
  ultimately show ?thesis
    by (simp add: kernel_ok_def alive_def current_ok_def descriptors_ok_def shells_up_def window_ok_def r p assms)
qed

lemma kernel_ok_sched [simp]:
  "kernel_ok m0 bb (s\<lparr>active_process := x\<rparr>) = kernel_ok m0 bb s"
  "kernel_ok m0 bb (s\<lparr>bootup_flag := b\<rparr>) = kernel_ok m0 bb s"
  "kernel_ok m0 bb (s\<lparr>pit_i := y\<rparr>) = kernel_ok m0 bb s"
  by (rule kernel_ok_cong; simp)+

lemma kernel_ok_device [simp]:
  fixes s :: "'a tty_scheme"
  shows "kernel_ok m0 bb (send_eoi i s) = kernel_ok m0 bb s" "kernel_ok m0 bb (cli s) = kernel_ok m0 bb s"
    "kernel_ok m0 bb (sti s) = kernel_ok m0 bb s"
  by (rule kernel_ok_cong; simp add: send_eoi_def cli_def sti_def outb_def)+

lemma sched_frame [simp]:
  fixes s :: "'a sched_scheme"
  shows "task_slots (send_eoi i s) = task_slots s" "task_slots (cli s) = task_slots s" "task_slots (sti s) = task_slots s"
    "bootup_flag (send_eoi i s) = bootup_flag s" "bootup_flag (cli s) = bootup_flag s" "bootup_flag (sti s) = bootup_flag s"
    "pit_i (send_eoi i s) = pit_i s" "pit_i (cli s) = pit_i s" "pit_i (sti s) = pit_i s"
    "display_terminal_id (send_eoi i s) = display_terminal_id s" "display_terminal_id (cli s) = display_terminal_id s"
    "display_terminal_id (sti s) = display_terminal_id s"
    "tasks_running (send_eoi i s) = tasks_running s" "tasks_running (cli s) = tasks_running s"
    "tasks_running (sti s) = tasks_running s"
  by (simp_all add: send_eoi_def cli_def sti_def outb_def)

lemma pit_finish_frame:
  "kernel_ok m0 bb (pit_finish s) = kernel_ok m0 bb s" "task_slots (pit_finish s) = task_slots s"
  "bootup_flag (pit_finish s) = bootup_flag s" "display_terminal_id (pit_finish s) = display_terminal_id s"
  "tasks_running (pit_finish s) = tasks_running s"
  "pit_i (pit_finish s) = (if pit_i s + 1 > 2 then 0 else pit_i s + 1)"
  by (simp_all add: pit_finish_def Let_def)

text \<open>The fields of the scheduler are the rest of the state for everything below it.\<close>

lemma sched_more:
  fixes s t :: "'a sched_scheme"
  assumes "tty.more t = tty.more s"
  shows "bootup_flag t = bootup_flag s" "active_process t = active_process s" "pit_i t = pit_i s"
  using assms by (cases s; cases t; simp)+

lemma find_bottom_total:
  assumes "tasks_ok s"
  shows "\<exists>b. find_bottom_task t s = Some b \<and> (b = -1 \<longleftrightarrow> \<not> (running s t \<and> t < 3))"
proof (cases "running s t \<and> t < 3")
  case True
  then obtain b where "find_bottom_task t s = Some b" "running s b" using find_bottom_task_correct [OF assms] by blast
  then show ?thesis using True small_not_minus_one(1) [OF running_less] by blast
next
  case False
  then have "\<not> running s t \<or> t > 2" by (auto simp: word_less_nat_alt)
  then show ?thesis using find_bottom_task_none False by blast
qed

lemma switch_total:
  fixes s :: "'a tty_scheme"
  assumes ok: "tasks_ok s" and d: "tid_word s < 3"
  shows "\<exists>t. switch_display_terminal r tid s = Some t"
proof (cases "tid_word s = tid \<or> tid > 2")
  case True
  then show ?thesis by (auto simp: switch_display_terminal_def tid_word_def)
next
  case False
  then have t3: "tid < 3" by (auto simp: word_less_nat_alt)
  show ?thesis
  proof (cases "running s tid")
    case True
    then show ?thesis
      using switch_display_terminal_spec [OF ok t3 True, of r] False d by (auto simp: word_less_nat_alt)
  next
    case nr: False
    then have nb: "find_bottom_task tid u = Some (-1)" if "task_slots u = task_slots s" for u :: "'a tty_scheme"
      using that running_slots [of u s] by (intro find_bottom_task_none) simp
    then have sw: "switch_running_task tid u = Some (-1, u)" if "task_slots u = task_slots s" for u :: "'a tty_scheme"
      using that by (simp add: switch_running_task_def)
    have "task_slots (cpy_screen_pos u) = task_slots u" for u :: "'a tty_scheme" by (simp add: cpy_screen_pos_def)
    then show ?thesis
      using False by (simp add: switch_display_terminal_def tid_word_def nb sw Let_def setScreenPos_def)
  qed
qed

lemma switch_display_id:
  fixes s :: "'a tty_scheme"
  assumes sw: "switch_display_terminal r tid s = Some s'" and t: "tid < 3" and tok: "terminals_ok s"
  shows "display_terminal_id s' = int (unat tid)"
proof (cases "tid_word s = tid")
  case True
  then have "s' = s" using sw by (simp add: switch_display_terminal_def tid_word_def)
  then show ?thesis using True tok by (auto simp: tid_word_def terminals_ok_def)
next
  case False
  have "\<not> tid > 2" using t by (simp add: word_less_nat_alt)
  show ?thesis
    by (rule switch_form [OF sw False \<open>\<not> tid > 2\<close>]) (simp add: upd_pcb_def)
qed

definition shell_name :: "u8 list" where "shell_name = [0x73, 0x68, 0x65, 0x6C, 0x6C]"

text \<open>The literal and a program of that name in the image.\<close>

definition shell_ready :: "links \<Rightarrow> mem \<Rightarrow> addr \<Rightarrow> bool" where
  "shell_ready L m bb \<longleftrightarrow> string_at m (lit_shell L) shell_name \<and>
     (\<forall>i \<le> length shell_name. \<not> scratch (lit_shell L + of_nat i)) \<and>
     (case lookup m bb shell_name of None \<Rightarrow> False
      | Some i \<Rightarrow> d_inode (dentry_at m (entry_addr bb (of_nat i))) < boot_inodes m bb \<and>
          file_is_elf m bb (d_inode (dentry_at m (entry_addr bb (of_nat i)))))"

definition boot_ok :: "links \<Rightarrow> frame \<Rightarrow> mem \<Rightarrow> addr \<Rightarrow> bool" where
  "boot_ok L fr m bb \<longleftrightarrow> image_apart m bb \<and> frame_ok fr \<and> messages_ok L m \<and> shell_ready L m bb"

lemma shell_command: "command_name shell_name = shell_name" "length shell_name = 5" "shell_name \<noteq> []"
  by (simp_all add: command_name_def shell_name_def in_name_def char_consts)

lemma same_image_elf:
  assumes "same_image bb m m'" "image_ok m bb" "ino < boot_inodes m bb"
  shows "file_is_elf m' bb ino = file_is_elf m bb ino"
  using same_image_ok(3) [OF assms] same_image_inode(1) [OF assms(1,3)] by (simp add: file_is_elf_def)

lemma shell_now:
  fixes s :: "'a tty_scheme"
  assumes ok: "kernel_ok m0 bb s" and boot: "boot_ok L fr m0 bb"
  shows "command_at (memory s) (lit_shell L) shell_name"
    "exec_inode fr shell_name s < boot_inodes (memory s) (boot_block s)"
    "file_is_elf (memory s) (boot_block s) (exec_inode fr shell_name s)"
proof -
  have img: "image_apart m0 bb" and rdy: "shell_ready L m0 bb" using boot by (simp_all add: boot_ok_def)
  note und = kernel_okD(6) [OF ok] and bb = kernel_okD(5) [OF ok]
  note same = image_now(1) [OF img und]
  have off: "\<not> scratch (lit_shell L + of_nat i)" if "i \<le> length shell_name" for i
    using rdy that by (simp add: shell_ready_def)
  have "string_at (memory s) (lit_shell L) shell_name"
    using rdy und off by (auto simp: shell_ready_def string_at_def undisturbed_def)
  then show "command_at (memory s) (lit_shell L) shell_name"
    using off scratch_cases(3) by (auto simp: command_at_def)
  obtain i where i: "lookup m0 bb shell_name = Some i"
    "d_inode (dentry_at m0 (entry_addr bb (of_nat i))) < boot_inodes m0 bb"
    "file_is_elf m0 bb (d_inode (dentry_at m0 (entry_addr bb (of_nat i))))"
    using rdy by (auto simp: shell_ready_def split: option.splits)
  have e: "exec_inode fr shell_name s = d_inode (dentry_at m0 (entry_addr bb (of_nat i)))"
    using i(1) same_image_lookup [OF same] same_image_entry(2) [OF same lookup_bound [OF i(1)]]
    by (simp add: exec_inode_def bb)
  show "exec_inode fr shell_name s < boot_inodes (memory s) (boot_block s)"
    using i(2) same_image_boot(1) [OF same] by (simp add: e bb)
  show "file_is_elf (memory s) (boot_block s) (exec_inode fr shell_name s)"
    using i(2,3) same_image_elf [OF same _ i(2)] img by (simp add: e bb image_apart_def)
qed

lemma tids:
  assumes "kernel_ok m0 bb s"
  shows "tid_word s < 3" "tasks_ok s"
  using terminals_okD(4) [OF kernel_okD(4) [OF assms]] kernel_okD(1) [OF assms] by simp_all

text \<open>One call of the scheduler, by what it finds.\<close>

lemma scheduler_keeps:
  fixes s :: "'a sched_scheme"
  assumes ok: "kernel_ok m0 bb s" and boot: "boot_ok L fr m0 bb"
  shows "\<exists>out. scheduler L r fr t s = Some out \<and> kernel_ok m0 bb (outcome_state out) \<and>
    pit_i (outcome_state out) = pit_i s"
proof (cases "t \<ge> 3")
  case True
  then show ?thesis using ok by (simp add: scheduler_def TERMINAL_COUNT_def)
next
  case False
  define P where "P u \<longleftrightarrow> kernel_ok m0 bb u \<and> pit_i u = pit_i s" for u :: "'a sched_scheme"
  have sw: "\<exists>v. switch_display_terminal r k u = Some v \<and> P v" if "P u" for k u
  proof -
    have u: "kernel_ok m0 bb u" using that by (simp add: P_def)
    then obtain v where v: "switch_display_terminal r k u = Some v" using switch_total tids by blast
    then have "kernel_ok m0 bb v \<and> tty.more v = tty.more u" by (rule kernel_ok_switch [OF u])
    then show ?thesis using v that sched_more(3) [of v u] by (auto simp: P_def)
  qed
  have "\<exists>t' u. (if bootup_flag s \<noteq> 0 then do { s \<leftarrow> switch_display_terminal r 0 s; Some (0, s\<lparr>bootup_flag := 0\<rparr>) }
      else Some (t, s)) = Some (t', u) \<and> P u"
    using sw [of s 0] ok by (auto simp: P_def)
  then obtain t' u where u: "(if bootup_flag s \<noteq> 0 then do { s \<leftarrow> switch_display_terminal r 0 s; Some (0, s\<lparr>bootup_flag := 0\<rparr>) }
      else Some (t, s)) = Some (t', u)" "P u" by blast
  have "tasks_ok u" using u(2) kernel_okD(1) unfolding P_def by blast
  then obtain b where b: "find_bottom_task t' u = Some b" using find_bottom_total by blast
  let ?v = "u\<lparr>active_process := sint b\<rparr>"
  have v: "P ?v" using u(2) by (simp add: P_def)
  have start: "scheduler L r fr t s = (if sint b = -1 then do {
      let s = send_eoi 0 ?v;
      let s = (if t' = 2 then s\<lparr>bootup_flag := 1\<rparr> else s);
      s \<leftarrow> switch_display_terminal r t' s;
      syscall_execute L fr (lit_shell L) s } else Some (Returns 0 ?v))"
    using False u(1) b by (simp add: scheduler_def TERMINAL_COUNT_def)
  show ?thesis
  proof (cases "sint b = -1")
    case False
    then show ?thesis using start v by (simp add: P_def)
  next
    case True
    let ?w = "if t' = 2 then (send_eoi 0 ?v)\<lparr>bootup_flag := 1\<rparr> else send_eoi 0 ?v"
    have "P ?w" using v by (simp add: P_def)
    then obtain w where w: "switch_display_terminal r t' ?w = Some w" "P w" using sw by blast
    have kw: "kernel_ok m0 bb w" using w(2) by (simp add: P_def)
    have e: "scheduler L r fr t s = syscall_execute L fr (lit_shell L) w"
      unfolding start if_P [OF True] Let_def w(1) Option.bind.simps ..
    have bt: "image_apart m0 bb" "frame_ok fr" "messages_ok L m0" using boot by (simp_all add: boot_ok_def)
    consider rr x where "syscall_execute L fr (lit_shell L) w = Some (Returns rr x)" "calm w x" "terminals_ok x"
      | ee x where "syscall_execute L fr (lit_shell L) w = Some (Iret ee x)" "keeps m0 bb w x"
      using execute_keeps [OF kw bt shell_now(1) [OF kw boot]] by blast
    then show ?thesis
    proof cases
      case 1
      then have "kernel_ok m0 bb x" "tty.more x = tty.more w" using kernel_ok_calm [OF kw] by (simp_all add: calm_def)
      then show ?thesis using e 1(1) w(2) sched_more(3) [of x w] by (simp add: P_def)
    next
      case 2
      then show ?thesis using e w(2) sched_more(3) [of x w] by (simp add: P_def keeps_def)
    qed
  qed
qed

lemma pit_keeps:
  fixes s :: "'a sched_scheme"
  assumes ok: "kernel_ok m0 bb s" "pit_i s \<in> {0, 1, 2}" and boot: "boot_ok L fr m0 bb"
  shows "\<exists>out. pit_handler L r fr s = Some out \<and> kernel_ok m0 bb (outcome_state out) \<and>
    pit_i (outcome_state out) \<in> {0, 1, 2}"
proof -
  have c: "kernel_ok m0 bb (cli s)" using ok(1) by simp
  obtain out where out: "scheduler L r fr (word_of_int (pit_i s)) (cli s) = Some out"
    "kernel_ok m0 bb (outcome_state out)" "pit_i (outcome_state out) = pit_i s"
    using scheduler_keeps [OF c boot] by auto
  then show ?thesis
    using ok(2) by (cases out) (auto simp: pit_handler_def pit_finish_frame)
qed

subsection \<open>Booting\<close>

text \<open>
  Before tick \<open>2 * t\<close> the shells below \<open>t\<close> run (\<open>waiting t\<close>); the tick starts shell \<open>t\<close>
  (\<open>started t\<close>), the next one finds it running and goes on to \<open>t + 1\<close>.
\<close>

definition boot_slots :: "nat \<Rightarrow> u32 list" where
  "boot_slots t = replicate t 1 @ replicate (6 - t) 0"

definition waiting :: "mem \<Rightarrow> addr \<Rightarrow> nat \<Rightarrow> 'a sched_scheme \<Rightarrow> bool" where
  "waiting m0 bb t s \<longleftrightarrow> kernel_ok m0 bb s \<and> task_slots s = boot_slots t \<and> bootup_flag s = 0 \<and>
     pit_i s = int t \<and> (t = 0 \<longrightarrow> display_terminal_id s = 0)"

definition started :: "mem \<Rightarrow> addr \<Rightarrow> nat \<Rightarrow> 'a sched_scheme \<Rightarrow> bool" where
  "started m0 bb t s \<longleftrightarrow> kernel_ok m0 bb s \<and> task_slots s = boot_slots (Suc t) \<and>
     bootup_flag s = (if t = 2 then 1 else 0) \<and> pit_i s = int t \<and> display_terminal_id s = int t"

definition ready :: "mem \<Rightarrow> addr \<Rightarrow> 'a sched_scheme \<Rightarrow> bool" where
  "ready m0 bb s \<longleftrightarrow> kernel_ok m0 bb s \<and> task_slots s = boot_slots 3 \<and> bootup_flag s = 0 \<and>
     pit_i s \<in> {0, 1, 2} \<and> display_terminal_id s = 0 \<and> tasks_running s = 0"

lemma boot_slots_simps:
  "boot_slots 0 = [0, 0, 0, 0, 0, 0]" "boot_slots 1 = [1, 0, 0, 0, 0, 0]" "boot_slots (Suc 0) = [1, 0, 0, 0, 0, 0]"
  "boot_slots 2 = [1, 1, 0, 0, 0, 0]" "boot_slots 3 = [1, 1, 1, 0, 0, 0]"
  "boot_slots (Suc (Suc 0)) = [1, 1, 0, 0, 0, 0]" "boot_slots (Suc 2) = [1, 1, 1, 0, 0, 0]"
  by (simp_all add: boot_slots_def numeral_2_eq_2 numeral_3_eq_3 numeral_eq_Suc)

lemma boot_find: "task_slots s = boot_slots t \<Longrightarrow> t < 3 \<Longrightarrow> find_open_task s = int t"
proof -
  assume s: "task_slots s = boot_slots t" and "t < 3"
  have u: "[0..<6] = [0 :: nat, 1, 2, 3, 4, 5]" by (simp add: upt_rec)
  from \<open>t < 3\<close> have "t = 0 \<or> t = 1 \<or> t = 2" by auto
  then show ?thesis
    by (elim disjE) (simp_all add: find_open_task_def s boot_slots_simps u)
qed

lemma boot_running:
  assumes "task_slots s = boot_slots t" "t \<le> 3" "k < 6"
  shows "running s (of_nat k) \<longleftrightarrow> k < t"
proof -
  have "unat (of_nat k :: u32) = k" using assms(3) by (simp add: unat_of_nat take_bit_nat_eq_self)
  moreover have "boot_slots t ! k \<noteq> 0 \<longleftrightarrow> k < t" using assms(2,3) by (simp add: boot_slots_def nth_append)
  ultimately show ?thesis using assms(1,3) by (simp add: running_def word_less_nat_alt)
qed

text \<open>With the upper slots free no task has a child.\<close>

lemma boot_bottom:
  assumes ok: "tasks_ok s" and s: "task_slots s = boot_slots t" "t \<le> 3" and k: "k < 3"
  shows "find_bottom_task (of_nat k) s = Some (if k < t then of_nat k else -1)"
proof (cases "k < t")
  case False
  then have "\<not> running s (of_nat k)" using boot_running [OF s, of k] k by simp
  then show ?thesis using False find_bottom_task_none by auto
next
  case True
  let ?k = "of_nat k :: u32"
  have u: "unat ?k = k" using k by (simp add: unat_of_nat take_bit_nat_eq_self)
  have r: "running s ?k" using boot_running [OF s, of k] True k by simp
  have "no_child s ?k"
  proof (rule ccontr)
    assume n: "\<not> no_child s ?k"
    let ?c = "task_id_child (pcb_of ?k s)"
    have c: "running s ?c" "3 \<le> ?c" using tasks_okD(2,3) [OF ok r n] by simp_all
    then have "unat ?c < 6" "3 \<le> unat ?c" using running_less [OF c(1)] by (simp_all add: word_less_nat_alt word_le_nat_alt)
    then have "unat ?c < t" using boot_running [OF s, of "unat ?c"] c(1) by simp
    then show False using \<open>3 \<le> unat ?c\<close> s(2) by simp
  qed
  then have "bottom_from ?k s = Some (get_pcb ?k)" by (subst bottom_from.simps) (simp add: no_child_def)
  moreover have "task_id (pcbs s (get_pcb ?k)) = ?k" using tasks_okD(1) [OF ok r] by (simp add: pcb_of_def)
  moreover have "\<not> ?k > 2" "task_slots s ! k \<noteq> 0" using k r u by (simp_all add: word_less_nat_alt running_def)
  ultimately show ?thesis using True u by (simp add: find_bottom_task_def)
qed

lemma boot_start:
  fixes s :: "'a sched_scheme"
  assumes w: "waiting m0 bb t s" and t: "t < 3" and boot: "boot_ok L fr m0 bb"
  shows "\<exists>e s'. pit_handler L r fr s = Some (Iret e s') \<and> started m0 bb t s'"
proof -
  have k: "kernel_ok m0 bb s" "task_slots s = boot_slots t" "bootup_flag s = 0" "pit_i s = int t"
    "t = 0 \<longrightarrow> display_terminal_id s = 0" using w by (simp_all add: waiting_def)
  let ?t = "of_nat t :: u32"
  have tw: "word_of_int (pit_i s) = ?t" "\<not> ?t \<ge> 3" "?t < 3" "?t = 2 \<longleftrightarrow> t = 2"
    using t by (auto simp: k(4) word_le_nat_alt word_less_nat_alt word_unat_eq_iff unat_of_nat take_bit_nat_eq_self)
  define v where "v = send_eoi 0 ((cli s)\<lparr>active_process := -1\<rparr>)"
  define w where "w = (if t = 2 then v\<lparr>bootup_flag := 1\<rparr> else v)"
  have kw: "kernel_ok m0 bb w" "task_slots w = boot_slots t" "bootup_flag w = (if t = 2 then 1 else 0)"
    "pit_i w = int t" "display_terminal_id w = display_terminal_id s"
    using k by (simp_all add: w_def v_def)
  obtain x where x: "switch_display_terminal r ?t w = Some x"
    using switch_total tids [OF kw(1)] by blast
  note kx = kernel_ok_switch [OF kw(1) x]
  have fx: "bootup_flag x = bootup_flag w" "pit_i x = pit_i w" using sched_more [of x w] kx by simp_all
  have sx: "task_slots x = task_slots w"
    using switch_keeps [OF x kernel_okD(4,1,2) [OF kw(1)]] by simp
  have dx: "display_terminal_id x = int t"
    using switch_display_id [OF x tw(3) kernel_okD(4) [OF kw(1)]] t by (simp add: unat_of_nat take_bit_nat_eq_self)
  have fo: "find_open_task x = int t" using boot_find [of x t] sx kw(2) t by simp
  have bt: "image_apart m0 bb" "frame_ok fr" using boot by (simp_all add: boot_ok_def)
  note sh = shell_now [OF conjunct1 [OF kx] boot]
  obtain e s' where s': "syscall_execute L fr (lit_shell L) x = Some (Iret e s')" "keeps m0 bb x s'"
    "task_slots s' = (task_slots x)[unat (word_of_int (find_open_task x) :: u32) := 1]"
    "display_terminal_id s' = display_terminal_id x"
    using execute_elf_keeps [OF conjunct1 [OF kx] bt sh(1), of L] sh(2,3) fo
    by (auto simp: shell_command)
  have "(boot_slots t)[t := 1] = boot_slots (Suc t)"
  proof -
    from t have "t = 0 \<or> t = 1 \<or> t = 2" by auto
    then show ?thesis by (elim disjE) (simp_all add: boot_slots_simps)
  qed
  moreover have "unat (word_of_int (find_open_task x) :: u32) = t"
    using t by (simp add: fo unat_of_nat take_bit_nat_eq_self)
  ultimately have sl: "task_slots s' = boot_slots (Suc t)" using s'(3) sx kw(2) by simp
  have "find_bottom_task ?t (cli s) = Some (-1)"
    using boot_bottom [of "cli s" t t] kernel_okD(1) [OF k(1)] kernel_okD(1) [of m0 bb "cli s"] k(1,2) t by simp
  then have "scheduler L r fr ?t (cli s) = Some (Iret e s')"
    using tw(2,4) k(3) s'(1) x
    by (simp add: scheduler_def TERMINAL_COUNT_def Let_def v_def w_def split: if_splits)
  then have "pit_handler L r fr s = Some (Iret e s')" by (simp add: pit_handler_def tw(1))
  moreover have "started m0 bb t s'"
    using s' sl fx kw dx sched_more [of s' x] by (simp add: started_def keeps_def)
  ultimately show ?thesis by blast
qed

lemma boot_idle:
  fixes s :: "'a sched_scheme"
  assumes st: "started m0 bb t s" and t: "t < 2"
  shows "\<exists>s'. pit_handler L r fr s = Some (Returns 0 s') \<and> waiting m0 bb (Suc t) s'"
proof -
  have k: "kernel_ok m0 bb s" "task_slots s = boot_slots (Suc t)" "bootup_flag s = 0" "pit_i s = int t"
    using st t by (simp_all add: started_def)
  have tw: "word_of_int (pit_i s) = (of_nat t :: u32)" "\<not> (of_nat t :: u32) \<ge> 3" "sint (of_nat t :: u32) \<noteq> -1"
    using t by (auto simp: k(4) word_le_nat_alt unat_of_nat take_bit_nat_eq_self sint_of_nat_fits)
  have "find_bottom_task (of_nat t) (cli s) = Some (of_nat t)"
    using boot_bottom [of "cli s" "Suc t" t] kernel_okD(1) [of m0 bb "cli s"] k(1,2) t by simp
  then have "scheduler L r fr (of_nat t) (cli s) = Some (Returns 0 ((cli s)\<lparr>active_process := sint (of_nat t :: u32)\<rparr>))"
    using tw(2,3) k(3) by (simp add: scheduler_def TERMINAL_COUNT_def Let_def)
  then have "pit_handler L r fr s = Some (Returns 0 (pit_finish ((cli s)\<lparr>active_process := sint (of_nat t :: u32)\<rparr>)))"
    by (simp add: pit_handler_def tw(1))
  then show ?thesis using k t by (simp add: waiting_def pit_finish_frame)
qed

lemma boot_last:
  fixes s :: "'a sched_scheme"
  assumes st: "started m0 bb 2 s"
  shows "\<exists>s'. pit_handler L r fr s = Some (Returns 0 s') \<and> ready m0 bb s'"
proof -
  have k: "kernel_ok m0 bb s" "task_slots s = boot_slots 3" "bootup_flag s = 1" "pit_i s = 2"
    "display_terminal_id s = 2"
    using st by (simp_all add: started_def numeral_3_eq_3 numeral_2_eq_2)
  have c: "kernel_ok m0 bb (cli s)" "task_slots (cli s) = boot_slots 3" using k by simp_all
  obtain x where x: "switch_display_terminal r 0 (cli s) = Some x" using switch_total tids [OF c(1)] by blast
  note kx = kernel_ok_switch [OF c(1) x]
  have sx: "task_slots x = boot_slots 3" using switch_keeps [OF x kernel_okD(4,1,2) [OF c(1)]] k(2) by simp
  have fx: "pit_i x = 2" using sched_more(3) [of x "cli s"] kx k(4) by simp
  have dx: "display_terminal_id x = 0" using switch_display_id [OF x _ kernel_okD(4) [OF c(1)]] by simp
  have b: "find_bottom_task 0 (cli s) = Some 0" "find_bottom_task 0 x = Some 0"
    using boot_bottom [OF kernel_okD(1) [OF c(1)] c(2), of 0] boot_bottom [OF kernel_okD(1) [OF conjunct1 [OF kx]] sx, of 0]
    by simp_all
  have "running (cli s) 0" using boot_running [OF c(2), of 0] by simp
  then obtain b2 where "find_bottom_task 0 (cli s) = Some b2" "tasks_running x = b2"
    using switch_display_terminal_spec [OF kernel_okD(1) [OF c(1)] _ \<open>running (cli s) 0\<close>, of r] x k(5)
    by (auto simp: tid_word_def)
  then have tx: "tasks_running x = 0" using b(1) by simp
  define y where "y = x\<lparr>bootup_flag := 0, active_process := 0\<rparr>"
  have kf: "kernel_ok m0 bb (x\<lparr>bootup_flag := 0\<rparr>)" "task_slots (x\<lparr>bootup_flag := 0\<rparr>) = boot_slots 3"
    using kx sx by simp_all
  have bf: "find_bottom_task 0 (x\<lparr>bootup_flag := 0\<rparr>) = Some 0"
    using boot_bottom [OF kernel_okD(1) [OF kf(1)] kf(2), of 0] by simp
  have "scheduler L r fr 2 (cli s) = Some (Returns 0 y)"
    using k(3) x bf by (simp add: scheduler_def TERMINAL_COUNT_def Let_def y_def)
  then have "pit_handler L r fr s = Some (Returns 0 (pit_finish y))" by (simp add: pit_handler_def k(4))
  moreover have "kernel_ok m0 bb y" using kx by (simp add: y_def)
  then have "ready m0 bb (pit_finish y)"
    using sx fx dx tx by (simp add: ready_def pit_finish_frame) (simp add: y_def)
  ultimately show ?thesis by blast
qed

lemma ready_idle:
  fixes s :: "'a sched_scheme"
  assumes "ready m0 bb s"
  shows "\<exists>s'. pit_handler L r fr s = Some (Returns 0 s') \<and> ready m0 bb s'"
proof -
  have k: "kernel_ok m0 bb s" "task_slots s = boot_slots 3" "bootup_flag s = 0" "pit_i s \<in> {0, 1, 2}"
    using assms by (simp_all add: ready_def)
  obtain t where t: "pit_i s = int t" "t < 3" using k(4) that [of "nat (pit_i s)"] by auto
  have tw: "word_of_int (pit_i s) = (of_nat t :: u32)" "\<not> (of_nat t :: u32) \<ge> 3" "sint (of_nat t :: u32) \<noteq> -1"
    using t by (auto simp: word_le_nat_alt unat_of_nat take_bit_nat_eq_self sint_of_nat_fits)
  have "find_bottom_task (of_nat t) (cli s) = Some (of_nat t)"
    using boot_bottom [of "cli s" 3 t] kernel_okD(1) [of m0 bb "cli s"] k(1,2) t(2) by simp
  then have "scheduler L r fr (of_nat t) (cli s) = Some (Returns 0 ((cli s)\<lparr>active_process := sint (of_nat t :: u32)\<rparr>))"
    using tw(2,3) k(3) by (simp add: scheduler_def TERMINAL_COUNT_def Let_def)
  then have "pit_handler L r fr s = Some (Returns 0 (pit_finish ((cli s)\<lparr>active_process := sint (of_nat t :: u32)\<rparr>)))"
    by (simp add: pit_handler_def tw(1))
  then show ?thesis using assms t by (auto simp: ready_def pit_finish_frame)
qed

text \<open>Ticks one after the other; what runs between them is not part of this.\<close>

primrec run_ticks :: "nat \<Rightarrow> links \<Rightarrow> regs \<Rightarrow> frame \<Rightarrow> 'a sched_scheme \<Rightarrow> 'a sched_scheme option" where
  "run_ticks 0 L r fr s = Some s"
| "run_ticks (Suc n) L r fr s = do { out \<leftarrow> pit_handler L r fr s; run_ticks n L r fr (outcome_state out) }"

lemma ready_ticks: "ready m0 bb s \<Longrightarrow> \<exists>s'. run_ticks n L r fr s = Some s' \<and> ready m0 bb s'"
proof (induction n arbitrary: s)
  case (Suc n)
  obtain u where u: "pit_handler L r fr s = Some (Returns 0 u)" "ready m0 bb u" using ready_idle [OF Suc.prems] by blast
  then show ?case using Suc.IH [OF u(2)] by simp
qed simp

lemma boot_ticks:
  assumes w: "waiting m0 bb 0 s" and boot: "boot_ok L fr m0 bb"
  shows "\<exists>s'. run_ticks 6 L r fr s = Some s' \<and> ready m0 bb s'"
proof -
  obtain e1 s1 where 1: "pit_handler L r fr s = Some (Iret e1 s1)" "started m0 bb 0 s1"
    using boot_start [OF w _ boot, of r] by auto
  obtain s2 where 2: "pit_handler L r fr s1 = Some (Returns 0 s2)" "waiting m0 bb 1 s2"
    using boot_idle [OF 1(2), of L r fr] by auto
  obtain e3 s3 where 3: "pit_handler L r fr s2 = Some (Iret e3 s3)" "started m0 bb 1 s3"
    using boot_start [OF 2(2) _ boot, of r] by auto
  obtain s4 where 4: "pit_handler L r fr s3 = Some (Returns 0 s4)" "waiting m0 bb 2 s4"
    using boot_idle [OF 3(2), of L r fr] by (auto simp: numeral_2_eq_2)
  obtain e5 s5 where 5: "pit_handler L r fr s4 = Some (Iret e5 s5)" "started m0 bb 2 s5"
    using boot_start [OF 4(2) _ boot, of r] by auto
  obtain s6 where 6: "pit_handler L r fr s5 = Some (Returns 0 s6)" "ready m0 bb s6"
    using boot_last [OF 5(2), of L r fr] by blast
  have "run_ticks 6 L r fr s = Some s6"
    using 1(1) 2(1) 3(1) 4(1) 5(1) 6(1) by (simp add: numeral_eq_Suc)
  then show ?thesis using 6(2) by blast
qed

lemma run_ticks_add: "run_ticks (a + b) L r fr s = do { s \<leftarrow> run_ticks a L r fr s; run_ticks b L r fr s }"
  by (induction a arbitrary: s) (auto split: bind_splits)

text \<open>Booting brings up the three terminals: from a task table that is empty, with a program called
  \<open>shell\<close> in the file system, six timer ticks start one shell in each of the slots 0 to 2, each on its
  own terminal, and show terminal 0, whose shell runs. Every later tick returns and starts nothing.\<close>
theorem boot_starts_three_shells:
  fixes s :: "'a sched_scheme"
  assumes "kernel_ok m0 bb s" "boot_ok L fr m0 bb" "task_slots s = [0, 0, 0, 0, 0, 0]"
    and "bootup_flag s = 0" "pit_i s = 0" "display_terminal_id s = 0"
  shows "\<exists>s'. run_ticks (6 + n) L r fr s = Some s' \<and> task_slots s' = [1, 1, 1, 0, 0, 0] \<and>
    tasks_running s' = 0 \<and> display_terminal_id s' = 0 \<and> bootup_flag s' = 0 \<and> kernel_ok m0 bb s' \<and>
    (\<forall>k < 3. find_bottom_task (of_nat k) s' = Some (of_nat k))"
proof -
  have "waiting m0 bb 0 s" using assms by (simp add: waiting_def boot_slots_simps)
  then obtain u where u: "run_ticks 6 L r fr s = Some u" "ready m0 bb u" using boot_ticks assms(2) by blast
  obtain s' where "run_ticks n L r fr u = Some s'" "ready m0 bb s'" using ready_ticks [OF u(2)] by blast
  then have r: "run_ticks (6 + n) L r fr s = Some s'" "ready m0 bb s'" using u(1) unfolding run_ticks_add by simp_all
  have "find_bottom_task (of_nat k) s' = Some (of_nat k)" if "k < 3" for k
    using boot_bottom [of s' 3 k] kernel_okD(1) [of m0 bb s'] r(2) that by (simp add: ready_def)
  then show ?thesis using r by (auto simp: ready_def boot_slots_simps)
qed

subsection \<open>A machine before its first tick\<close>

text \<open>The image of the demonstration kernel with its program called \<open>shell\<close>, and that name as a
  literal at 10H.\<close>

definition shell_image :: mem where
  "shell_image = elf_image(0x100040 := 0x73, 0x100041 := 0x68, 0x100042 := 0x65, 0x100043 := 0x6C, 0x100044 := 0x6C,
     0x10 := 0x73, 0x11 := 0x68, 0x12 := 0x65, 0x13 := 0x6C, 0x14 := 0x6C)"

definition boot_frame :: frame where
  "boot_frame = demo_frame\<lparr>task_name_at := 0x7FD000, argument_at := 0x7FD100, elf_buf_at := 0x7FD200\<rparr>"

definition boot_links :: "links \<Rightarrow> links" where
  "boot_links L = L\<lparr>lit_shell := 0x10, lit_halting := 0x20, lit_max_programs := 0x20\<rparr>"

definition demo_boot :: sched where
  "demo_boot = \<lparr>memory = shell_image, ports = [], int_flag = True, master_mask = 0, slave_mask = 0,
     virt_freq = 2, rtc_inter_count = 0, screen_x = 0, screen_y = 0, page_directory = \<lambda>_. 0,
     page_table = \<lambda>_. 0, video_page = \<lambda>_. 0, cr0 = 0, cr3 = 0, cr4 = 0, tlb = \<lambda>_. None,
     frames = \<lambda>_. 0, boot_block = 0x100000, tasks_running = -1, task_slots = [0, 0, 0, 0, 0, 0],
     exception_death = 0, pcbs = (\<lambda>a. demo_pcb 0 (-1)), tss_ss0 = 0x18, tss_esp0 = 0x7FFFFC,
     terminals = \<lambda>_. demo_terminal, display_terminal_id = 0, scan_state = \<lambda>_. 0,
     bootup_flag = 0, active_process = 0, pit_i = 0\<rparr>"

lemma shell_image_above: "0x100045 \<le> unat a \<Longrightarrow> shell_image a = elf_image a"
  by (auto simp: shell_image_def)

lemma shell_image_literal: "k < 4294967296 \<Longrightarrow> 0x100045 \<le> k \<Longrightarrow> shell_image (of_nat k) = elf_image (of_nat k)"
  by (rule shell_image_above) (simp add: unat_of_nat take_bit_nat_eq_self)

lemma shell_image_simps:
  "boot_inodes shell_image 0x100000 = 1" "boot_data_blocks shell_image 0x100000 = 1"
  "file_size shell_image 0x100000 0 = 5" "image_size shell_image 0x100000 = 12288"
  by (simp_all add: boot_inodes_def boot_data_blocks_def file_size_def image_size_def
      inode_length_def inode_addr_def rd32_def shell_image_def elf_image_def demo_image_def)

lemma shell_image_block:
  assumes "i < 1023"
  shows "inode_block shell_image (inode_addr 0x100000 0) (of_nat i) = 0"
proof -
  have "shell_image (0x101000 + of_nat (4 + 4 * i + j)) = elf_image (0x101000 + of_nat (4 + 4 * i + j))" if "j < 4" for j
    using shell_image_literal [of "0x101000 + (4 + 4 * i + j)"] assms that by (simp add: add.assoc)
  from this [of 0] this [of 1] this [of 2] this [of 3]
  have "inode_block shell_image (inode_addr 0x100000 0) (of_nat i) = inode_block elf_image (inode_addr 0x100000 0) (of_nat i)"
    by (simp add: inode_block_def inode_addr_def rd32_def add.assoc)
  then show ?thesis using elf_inode_block [OF assms] by simp
qed

lemma scratch_off_image: "scratch a \<Longrightarrow> \<not> in_image shell_image 0x100000 a"
proof
  assume s: "scratch a" and "in_image shell_image 0x100000 a"
  then have a: "unat (a - 0x100000) < 12288" by (simp add: in_image_def shell_image_simps)
  define x where "x = unat (a - 0x100000)"
  have e: "a = of_nat (0x100000 + x)" by (simp add: x_def)
  have x: "x < 12288" using a by (simp add: x_def)
  have "\<not> in_window a" using e x low_off_window [of "0x100000" x] by simp
  moreover have "\<not> screen_area a"
  proof -
    have d: "a - 0xB7F04 = of_nat (0x480FC + x)" by (simp add: e)
    have "unat (of_nat (0x480FC + x) :: u32) = 0x480FC + x"
      using x by (simp only: unat_of_nat) (simp add: take_bit_nat_eq_self)
    then show ?thesis unfolding screen_area_def d by (simp only:)
  qed
  moreover have "\<not> kernel_stack a"
  proof -
    have d: "a - 0x7F4000 = of_nat (0xFF90C000 + x)" by (simp add: e)
    have "unat (of_nat (0xFF90C000 + x) :: u32) = 0xFF90C000 + x"
      using x by (simp only: unat_of_nat) (simp add: take_bit_nat_eq_self)
    then show ?thesis unfolding kernel_stack_def d by (simp only:)
  qed
  ultimately show False using s by (simp add: scratch_def)
qed

lemma shell_types: "i < 63 \<Longrightarrow> d_type (dentry_at shell_image (entry_addr 0x100000 (of_nat i))) \<le> 2"
proof (cases "i = 0")
  case True
  then show ?thesis by (simp add: entry_addr_def dentry_at_def rd32_def shell_image_def elf_image_def demo_image_def)
next
  case False
  assume "i < 63"
  have "shell_image (0x100060 + (64 * of_nat i + of_nat j)) = 0" if "j < 4" for j
  proof -
    have "unat (0x100060 + (64 * of_nat i + of_nat j) :: u32) = 0x100060 + 64 * i + j"
      using \<open>i < 63\<close> that by (simp add: unat_word_ariths unat_of_nat take_bit_nat_eq_self)
    then show ?thesis
      using False \<open>i < 63\<close> that by (auto simp: shell_image_def elf_image_def demo_image_def word_unat_eq_iff)
  qed
  from this [of 0] this [of 1] this [of 2] this [of 3]
  show ?thesis by (simp add: entry_addr_def dentry_at_def rd32_def ac_simps)
qed

lemma shell_image_ok: "image_apart shell_image 0x100000"
proof -
  have "inode < 1 \<Longrightarrow> inode = 0" for inode :: u32 by (simp add: word_less_nat_alt unat_eq_0)
  then show ?thesis
    by (auto simp: image_apart_def image_ok_def shell_image_simps shell_image_block scratch_off_image shell_types)
qed

lemma shell_lookup: "lookup shell_image 0x100000 shell_name = Some 0"
proof -
  have "entry_name shell_image 0x100000 0 = shell_name"
    unfolding entry_name_def entry_addr_def
    by (subst takeWhile_load [of _ _ shell_name])
      (simp_all add: string_at_eval shell_name_def shell_image_def elf_image_def demo_image_def)
  then show ?thesis unfolding lookup_def by (subst upt_conv_Cons) simp_all
qed

lemma shell_is_elf: "file_is_elf shell_image 0x100000 0"
proof -
  have "file_byte shell_image 0x100000 0 k = elf_image (0x102000 + of_nat k)" if "k < 4096" for k
    using that shell_image_block [of 0] shell_image_literal [of "0x102000 + k"]
    by (simp add: file_byte_def block_addr_def shell_image_simps)
  from this [of 0] this [of 1] this [of 2] this [of 3]
  show ?thesis
    by (simp add: file_is_elf_def shell_image_simps del: One_nat_def) (simp add: elf_image_def)
qed


lemma literal_region:
  assumes "k < 0x100"
  shows "\<not> scratch (0x10 + of_nat k)"
proof -
  have "\<not> in_window (0x10 + of_nat k)" using low_off_window [of "0x10" k] assms by simp
  moreover have "\<not> screen_area (0x10 + of_nat k)"
  proof -
    have d: "0x10 + of_nat k - 0xB7F04 = (of_nat (0xFFF4810C + k) :: u32)" by simp
    have "unat (of_nat (0xFFF4810C + k) :: u32) = 0xFFF4810C + k"
      using assms by (simp only: unat_of_nat) (simp add: take_bit_nat_eq_self)
    then show ?thesis unfolding screen_area_def d by (simp only:)
  qed
  moreover have "\<not> kernel_stack (0x10 + of_nat k)"
  proof -
    have d: "0x10 + of_nat k - 0x7F4000 = (of_nat (0xFF80C010 + k) :: u32)" by simp
    have "unat (of_nat (0xFF80C010 + k) :: u32) = 0xFF80C010 + k"
      using assms by (simp only: unat_of_nat) (simp add: take_bit_nat_eq_self)
    then show ?thesis unfolding kernel_stack_def d by (simp only:)
  qed
  ultimately show ?thesis by (simp add: scratch_def)
qed

lemma boot_frame_ok: "frame_ok boot_frame"
proof -
  have "kernel_stack (a + of_nat j)" if "0x7F4000 \<le> unat a" "unat a + j < 0x800000" for a j
  proof -
    have "unat (a + of_nat j) = unat a + j" using that(2) by (simp add: unat_word_ariths unat_of_nat take_bit_nat_eq_self)
    then show ?thesis using that by (simp add: kernel_stack_def unat_sub word_le_nat_alt)
  qed
  then show ?thesis by (simp add: frame_ok_def boot_frame_def apart_literal)
qed

lemma demo_boot_ok: "boot_ok (boot_links L) boot_frame shell_image 0x100000"
proof -
  have "message_at shell_image 0x20 []"
    using literal_region [of 16] by (simp add: message_at_def string_at_eval shell_image_def elf_image_def demo_image_def)
  moreover have "string_at shell_image 0x10 shell_name"
    by (simp add: string_at_eval shell_name_def shell_image_def elf_image_def demo_image_def)
  moreover have "d_inode (dentry_at shell_image (entry_addr 0x100000 0)) = 0"
    by (simp add: entry_addr_def dentry_at_def rd32_def shell_image_def elf_image_def demo_image_def)
  ultimately show ?thesis
    using shell_lookup shell_is_elf literal_region
    by (auto simp: boot_ok_def shell_image_ok boot_frame_ok messages_ok_def shell_ready_def boot_links_def
        shell_image_simps shell_command)
qed

lemma demo_boot_kernel: "kernel_ok shell_image 0x100000 demo_boot"
proof -
  have "\<not> running demo_boot i" for i
  proof
    assume r: "running demo_boot i"
    then have "unat i < 6" using running_less [OF r] by (simp add: word_less_nat_alt)
    then show False using r by (auto simp: running_def demo_boot_def nth_Cons split: nat.splits)
  qed
  moreover have "cursor_at 0 0 0" by (simp add: cursor_at_def)
  ultimately show ?thesis
    by (simp add: kernel_ok_def tasks_ok_def alive_def descriptors_ok_def shells_up_def)
      (simp add: demo_boot_def terminals_ok_def tty_ok_def cursor_of_def demo_terminal_def TERMINAL_SIZE_def)
qed

lemma boot_starts_three_shells_witness:
  "\<forall>L r. \<exists>s'. run_ticks (6 + 100) (boot_links L) r boot_frame demo_boot = Some s' \<and> task_slots s' = [1, 1, 1, 0, 0, 0] \<and>
    tasks_running s' = 0 \<and> display_terminal_id s' = 0"
proof (intro allI)
  fix L r
  show "\<exists>s'. run_ticks (6 + 100) (boot_links L) r boot_frame demo_boot = Some s' \<and> task_slots s' = [1, 1, 1, 0, 0, 0] \<and>
    tasks_running s' = 0 \<and> display_terminal_id s' = 0"
    using boot_starts_three_shells [OF demo_boot_kernel demo_boot_ok [of L], of 100 r] by (auto simp: demo_boot_def)
qed

end
