(* ===== verification/Interrupts.thy ===== *)
theory Interrupts
  imports Scheduler
begin

section \<open>Interrupts, exceptions and the system call gate\<close>

text \<open>
  \<open>student-distrib/interrupt_table.c\<close> and \<open>interrupt_table.h\<close>, the interrupt descriptors of
  \<open>x86_desc.h\<close>, and the dispatcher \<open>syscall_handler.S\<close>. The linker's addresses of the
  handlers and of the exception messages are parameters. The wrappers of
  \<open>interrupt_handler.S\<close> save the registers around a handler and are not modelled apart.
\<close>

unbundle bit_operations_syntax

subsection \<open>The interrupt descriptor table\<close>

definition NUM_VEC :: nat where "NUM_VEC = 256"
definition KERNEL_CS :: u16 where "KERNEL_CS = 0x10"
definition VECTOR_PIT :: nat where "VECTOR_PIT = 0x20"
definition VECTOR_KEYBOARD :: nat where "VECTOR_KEYBOARD = 0x21"
definition VECTOR_RTC :: nat where "VECTOR_RTC = 0x28"
definition VECTOR_SYSCALL :: nat where "VECTOR_SYSCALL = 0x80"

record idt_desc =
  offset_15_00 :: u16
  seg_selector :: u16
  reserved4 :: u8
  reserved3 :: "1 word"
  reserved2 :: "1 word"
  reserved1 :: "1 word"
  gate_size :: "1 word"
  reserved0 :: "1 word"
  dpl :: "2 word"
  present :: "1 word"
  offset_31_16 :: u16

text \<open>The two words of the union that the bit fields make up, low bits first.\<close>

definition idt_val :: "idt_desc \<Rightarrow> u32 \<times> u32" where
  "idt_val d =
     (ucast (offset_15_00 d) OR push_bit 16 (ucast (seg_selector d)),
      ucast (reserved4 d) OR push_bit 8 (ucast (reserved3 d)) OR push_bit 9 (ucast (reserved2 d)) OR
      push_bit 10 (ucast (reserved1 d)) OR push_bit 11 (ucast (gate_size d)) OR
      push_bit 12 (ucast (reserved0 d)) OR push_bit 13 (ucast (dpl d)) OR
      push_bit 15 (ucast (present d)) OR push_bit 16 (ucast (offset_31_16 d)))"

definition SET_IDT_ENTRY :: "idt_desc \<Rightarrow> addr \<Rightarrow> idt_desc" where
  "SET_IDT_ENTRY str handler = str\<lparr>
     offset_31_16 := ucast (drop_bit 16 (handler AND 0xFFFF0000)),
     offset_15_00 := ucast (handler AND 0xFFFF)\<rparr>"

datatype handler =
    exception_divide_error | debug_intel_only | exception_nmi_interrupt | exception_breakpoint
  | exception_overflow | exception_bound_range_exceeded | exception_invalid_opcode
  | exception_device_not_available | exception_double_fault
  | exception_coprocessor_segment_overrun | exception_invalid_tss
  | exception_segment_not_present | exception_stack_segment_fault
  | exception_general_protection | exception_page_fault | exception_x87_fpu_error
  | exception_alignment_check | exception_machine_check | exception_simd_floating_point
  | pit_handler_asm | keyboard_handler_asm | rtc_handler_asm | syscall_handler_asm

text \<open>The \<open>SET_IDT_ENTRY\<close> statements of \<open>init_idt\<close>, in their order.\<close>

definition idt_handlers :: "(nat \<times> handler) list" where
  "idt_handlers =
    [(0x00, exception_divide_error), (0x01, debug_intel_only), (0x02, exception_nmi_interrupt),
     (0x03, exception_breakpoint), (0x04, exception_overflow), (0x05, exception_bound_range_exceeded),
     (0x06, exception_invalid_opcode), (0x07, exception_device_not_available),
     (0x08, exception_double_fault), (0x09, exception_coprocessor_segment_overrun),
     (0x0A, exception_invalid_tss), (0x0B, exception_segment_not_present),
     (0x0C, exception_stack_segment_fault), (0x0D, exception_general_protection),
     (0x0E, exception_page_fault), (0x10, exception_x87_fpu_error), (0x11, exception_alignment_check),
     (0x12, exception_machine_check), (0x13, exception_simd_floating_point),
     (VECTOR_PIT, pit_handler_asm), (VECTOR_KEYBOARD, keyboard_handler_asm),
     (VECTOR_RTC, rtc_handler_asm), (VECTOR_SYSCALL, syscall_handler_asm)]"

record intr = sched +
  idt :: "idt_desc list"
  idtr :: "u16 \<times> addr"

record vectors =
  idt_at :: addr
  handler_at :: "handler \<Rightarrow> addr"
  message_lit :: "handler \<Rightarrow> addr"

definition init_gate :: "nat \<Rightarrow> idt_desc \<Rightarrow> idt_desc" where
  "init_gate i d =
     (let d = d\<lparr>seg_selector := KERNEL_CS, reserved4 := 0, reserved3 := 1, reserved2 := 1, reserved1 := 1,
                reserved0 := 0, gate_size := 1, dpl := 0, present := 1\<rparr>;
          d = (if i > 31 then d\<lparr>reserved3 := 0\<rparr> else d)
      in (if i = VECTOR_SYSCALL then d\<lparr>dpl := 3\<rparr> else d))"

definition lidt :: "u16 \<times> addr \<Rightarrow> 'a intr_scheme \<Rightarrow> 'a intr_scheme" where
  "lidt desc s = s\<lparr>idtr := desc\<rparr>"

definition init_idt :: "vectors \<Rightarrow> 'a intr_scheme \<Rightarrow> 'a intr_scheme" where
  "init_idt V s =
     (let t = fold (\<lambda>i t. t[i := init_gate i (t ! i)]) [0..<NUM_VEC] (idt s);
          t = fold (\<lambda>(i, h) t. t[i := SET_IDT_ENTRY (t ! i) (handler_at V h)]) idt_handlers t
      in lidt (2047, idt_at V) (s\<lparr>idt := t\<rparr>))"

text \<open>What the processor reads in a descriptor, and the vectors a program may name in \<open>int\<close>.\<close>

record gate =
  g_selector :: u16
  g_offset :: addr
  g_type :: u32
  g_dpl :: u32
  g_present :: bool

definition read_gate :: "u32 \<times> u32 \<Rightarrow> gate" where
  "read_gate = (\<lambda>(lo, hi). \<lparr>g_selector = ucast (drop_bit 16 lo),
     g_offset = (lo AND 0xFFFF) OR (hi AND 0xFFFF0000),
     g_type = drop_bit 8 hi AND 0x1F, g_dpl = drop_bit 13 hi AND 3, g_present = bit hi 15\<rparr>)"

definition user_int :: "nat \<Rightarrow> 'a intr_scheme \<Rightarrow> addr option" where
  "user_int v s =
     (let g = read_gate (idt_val (idt s ! v)) in
      if g_present g \<and> g_dpl g = 3 then Some (g_offset g) else None)"

lemma fold_update_each:
  "distinct (map fst l) \<Longrightarrow> \<forall>p \<in> set l. fst p < length t \<Longrightarrow> v < length t \<Longrightarrow>
    fold (\<lambda>(i, h) t. t[i := f i h (t ! i)]) l t ! v =
      (case map_of l v of None \<Rightarrow> t ! v | Some h \<Rightarrow> f v h (t ! v))"
proof (induction l arbitrary: t)
  case (Cons p l)
  obtain i h where p: "p = (i, h)" by (cases p)
  have "map_of l i = None" using Cons.prems(1) p by (auto simp: map_of_eq_None_iff)
  then show ?case
    using Cons.IH [of "t[i := f i h (t ! i)]"] Cons.prems p
    by (cases "v = i") (auto simp: nth_list_update split: option.splits)
qed simp

lemma length_fold_update: "length (fold (\<lambda>(i, h) t. t[i := f i h (t ! i)]) l t) = length t"
  by (induction l arbitrary: t) auto

lemma mask_literals:
  "(0x1F :: u32) = mask 5" "(3 :: u32) = mask 2" "(0xFFFF :: u32) = mask 16" "(0xFFFF0000 :: u32) = push_bit 16 (mask 16)"
  by (simp_all add: mask_eq_exp_minus_1)

lemma gate_words:
  fixes C :: u32 and a b :: u16
  assumes C: "take_bit 16 C = C"
  shows "ucast (drop_bit 16 (ucast a OR push_bit 16 (ucast b) :: u32)) = b"
    "(ucast a OR push_bit 16 (ucast b) :: u32) AND 0xFFFF = ucast a"
    "(C OR push_bit 16 (ucast b)) AND 0xFFFF0000 = push_bit 16 (ucast b)"
    "drop_bit 8 (C OR push_bit 16 (ucast b)) AND 0x1F = drop_bit 8 C AND 0x1F"
    "drop_bit 13 (C OR push_bit 16 (ucast b)) AND 3 = drop_bit 13 C AND 3"
    "bit (C OR push_bit 16 (ucast b)) 15 = bit C 15"
proof -
  have c: "\<not> bit C n" if "16 \<le> n" for n
    using that by (metis C bit_take_bit_iff not_less)
  show "ucast (drop_bit 16 (ucast a OR push_bit 16 (ucast b) :: u32)) = b"
    "(ucast a OR push_bit 16 (ucast b) :: u32) AND 0xFFFF = ucast a"
    by (rule bit_word_eqI; simp add: mask_literals; auto simp: bit_simps dest: bit_imp_le_length)+
  show "(C OR push_bit 16 (ucast b)) AND 0xFFFF0000 = push_bit 16 (ucast b)"
    by (rule bit_word_eqI) (simp add: mask_literals; auto simp: bit_simps c)
  show "drop_bit 8 (C OR push_bit 16 (ucast b)) AND 0x1F = drop_bit 8 C AND 0x1F"
    "drop_bit 13 (C OR push_bit 16 (ucast b)) AND 3 = drop_bit 13 C AND 3"
    by (rule bit_word_eqI; simp add: mask_literals; auto simp: bit_simps)+
  show "bit (C OR push_bit 16 (ucast b)) 15 = bit C 15" by (simp add: bit_simps)
qed

lemma read_gate_split:
  assumes "take_bit 16 C = C"
  shows "read_gate (ucast a OR push_bit 16 (ucast b), C OR push_bit 16 (ucast (c :: u16))) =
    \<lparr>g_selector = b, g_offset = ucast (a :: u16) OR push_bit 16 (ucast c), g_type = drop_bit 8 C AND 0x1F,
     g_dpl = drop_bit 13 C AND 3, g_present = bit C 15\<rparr>"
  using gate_words [OF assms] by (simp add: read_gate_def)

lemma offset_split: "ucast (ucast (h AND 0xFFFF) :: u16) OR push_bit 16 (ucast (ucast (drop_bit 16 (h AND 0xFFFF0000)) :: u16)) = (h :: u32)"
  by (rule bit_word_eqI) (simp add: mask_literals; auto simp: bit_simps)

lemma entry_gate:
  "read_gate (idt_val (SET_IDT_ENTRY (init_gate i d) h)) =
    \<lparr>g_selector = KERNEL_CS, g_offset = h, g_type = (if i > 31 then 0xE else 0xF),
     g_dpl = (if i = VECTOR_SYSCALL then 3 else 0), g_present = True\<rparr>"
proof -
  define C :: u32 where "C = (if i = VECTOR_SYSCALL then 0xEE00 else if i > 31 then 0x8E00 else 0x8F00)"
  have "idt_val (SET_IDT_ENTRY (init_gate i d) h) = (ucast (ucast (h AND 0xFFFF) :: u16) OR push_bit 16 (ucast KERNEL_CS),
      C OR push_bit 16 (ucast (ucast (drop_bit 16 (h AND 0xFFFF0000)) :: u16)))"
    by (simp add: idt_val_def SET_IDT_ENTRY_def init_gate_def C_def Let_def VECTOR_SYSCALL_def flip: or.assoc)
  moreover have "take_bit 16 C = C" by (simp add: C_def)
  ultimately have "read_gate (idt_val (SET_IDT_ENTRY (init_gate i d) h)) =
    \<lparr>g_selector = KERNEL_CS, g_offset = h, g_type = drop_bit 8 C AND 0x1F, g_dpl = drop_bit 13 C AND 3, g_present = bit C 15\<rparr>"
    by (simp only: read_gate_split offset_split)
  moreover have "drop_bit 8 C AND 0x1F = (if i > 31 then 0xE else 0xF)" "drop_bit 13 C AND 3 = (if i = VECTOR_SYSCALL then 3 else 0)"
    "bit C 15" by (simp_all add: C_def VECTOR_SYSCALL_def bit_numeral_rec)
  ultimately show ?thesis by simp
qed

text \<open>The loop over all vectors is the same fold.\<close>

lemma fold_upt_assoc: "fold (\<lambda>i t. t[i := f i (t ! i)]) xs t = fold (\<lambda>(i, h :: unit) t. t[i := f i (t ! i)]) (map (\<lambda>i. (i, ())) xs) t"
  by (induction xs arbitrary: t) simp_all

lemma map_of_unit: "map_of (map (\<lambda>i. (i, ())) xs) v = (if v \<in> set xs then Some () else None)"
  by (induction xs) auto

lemma idt_after_init:
  assumes "length (idt s) = NUM_VEC" "v < NUM_VEC"
  shows "idt (init_idt V s) ! v = (case map_of idt_handlers v of None \<Rightarrow> init_gate v (idt s ! v)
      | Some h \<Rightarrow> SET_IDT_ENTRY (init_gate v (idt s ! v)) (handler_at V h))"
    "length (idt (init_idt V s)) = NUM_VEC"
proof -
  define t0 where "t0 = fold (\<lambda>i t. t[i := init_gate i (t ! i)]) [0..<NUM_VEC] (idt s)"
  have len: "length t0 = NUM_VEC" using assms(1) length_fold_update [of "\<lambda>i (h :: unit) d. init_gate i d"] unfolding t0_def fold_upt_assoc by simp
  have t: "t0 ! v = init_gate v (idt s ! v)"
    unfolding t0_def fold_upt_assoc using assms
      fold_update_each [of "map (\<lambda>i. (i, ())) [0..<NUM_VEC]" "idt s" v "\<lambda>i (h :: unit) d. init_gate i d"]
    by (auto simp: map_of_unit comp_def)
  have "idt (init_idt V s) = fold (\<lambda>(i, h) t. t[i := SET_IDT_ENTRY (t ! i) (handler_at V h)]) idt_handlers t0"
    by (simp add: init_idt_def lidt_def Let_def t0_def)
  moreover have "distinct (map fst idt_handlers)" "\<forall>p \<in> set idt_handlers. fst p < length t0"
    unfolding len by (simp_all add: idt_handlers_def NUM_VEC_def VECTOR_PIT_def VECTOR_KEYBOARD_def VECTOR_RTC_def VECTOR_SYSCALL_def)
  ultimately show "idt (init_idt V s) ! v = (case map_of idt_handlers v of None \<Rightarrow> init_gate v (idt s ! v)
      | Some h \<Rightarrow> SET_IDT_ENTRY (init_gate v (idt s ! v)) (handler_at V h))"
    "length (idt (init_idt V s)) = NUM_VEC"
    using fold_update_each [of idt_handlers t0 v "\<lambda>i h d. SET_IDT_ENTRY d (handler_at V h)"] assms(2)
      length_fold_update [of "\<lambda>i h d. SET_IDT_ENTRY d (handler_at V h)" idt_handlers t0]
    by (simp_all add: t len split: option.split)
qed

text \<open>A vector without a statement keeps the zero offset of \<open>x86_desc.S\<close>.\<close>

lemma no_entry_gate:
  assumes "offset_15_00 d = 0" "offset_31_16 d = 0"
  shows "init_gate i d = SET_IDT_ENTRY (init_gate i d) 0"
  using assms by (simp add: init_gate_def SET_IDT_ENTRY_def Let_def)

text \<open>C21: After \<open>init_idt\<close> every vector has a present gate into the kernel's code segment: the
  exception, timer, keyboard, clock and system call vectors point to their handlers, all other
  vectors to address 0; vectors up to 31 are trap gates and keep interrupts as they are, the
  others are interrupt gates; and the only vector a program may name in an \<open>int\<close> instruction
  is the system call's.\<close>
theorem init_idt_correct:
  fixes s :: "'a intr_scheme"
  assumes "length (idt s) = NUM_VEC" "\<forall>d \<in> set (idt s). offset_15_00 d = 0 \<and> offset_31_16 d = 0" "v < NUM_VEC"
  shows "read_gate (idt_val (idt (init_idt V s) ! v)) =
      \<lparr>g_selector = KERNEL_CS, g_offset = (case map_of idt_handlers v of Some h \<Rightarrow> handler_at V h | None \<Rightarrow> 0),
       g_type = (if v > 31 then 0xE else 0xF), g_dpl = (if v = VECTOR_SYSCALL then 3 else 0), g_present = True\<rparr> \<and>
    user_int v (init_idt V s) = (if v = VECTOR_SYSCALL then Some (handler_at V syscall_handler_asm) else None)"
proof -
  have d: "offset_15_00 (idt s ! v) = 0" "offset_31_16 (idt s ! v) = 0"
    using assms by (metis nth_mem)+
  have g: "read_gate (idt_val (idt (init_idt V s) ! v)) =
      \<lparr>g_selector = KERNEL_CS, g_offset = (case map_of idt_handlers v of Some h \<Rightarrow> handler_at V h | None \<Rightarrow> 0),
       g_type = (if v > 31 then 0xE else 0xF), g_dpl = (if v = VECTOR_SYSCALL then 3 else 0), g_present = True\<rparr>"
  proof (cases "map_of idt_handlers v")
    case None
    then have "idt (init_idt V s) ! v = SET_IDT_ENTRY (init_gate v (idt s ! v)) 0"
      using idt_after_init(1) [OF assms(1,3), of V] no_entry_gate [OF d, of v] by simp
    then show ?thesis by (simp only: entry_gate None option.case)
  next
    case (Some h)
    then show ?thesis using idt_after_init(1) [OF assms(1,3), of V] by (simp add: entry_gate)
  qed
  moreover have "map_of idt_handlers VECTOR_SYSCALL = Some syscall_handler_asm"
    by (simp add: idt_handlers_def VECTOR_PIT_def VECTOR_KEYBOARD_def VECTOR_RTC_def VECTOR_SYSCALL_def)
  ultimately show ?thesis by (simp add: user_int_def)
qed

definition zero_desc :: idt_desc where
  "zero_desc = \<lparr>offset_15_00 = 0, seg_selector = 0, reserved4 = 0, reserved3 = 0, reserved2 = 0, reserved1 = 0,
     gate_size = 0, reserved0 = 0, dpl = 0, present = 0, offset_31_16 = 0\<rparr>"

definition demo_intr :: intr where
  "demo_intr = sched.extend (sched.truncate demo_boot) \<lparr>idt = replicate NUM_VEC zero_desc, idtr = (0, 0)\<rparr>"

lemma init_idt_correct_witness:
  "\<forall>V. user_int 0x80 (init_idt V demo_intr) = Some (handler_at V syscall_handler_asm) \<and>
     user_int 0x0E (init_idt V demo_intr) = None \<and>
     g_offset (read_gate (idt_val (idt (init_idt V demo_intr) ! 0x0F))) = 0"
proof
  fix V
  have i: "length (idt demo_intr) = NUM_VEC" "\<forall>d \<in> set (idt demo_intr). offset_15_00 d = 0 \<and> offset_31_16 d = 0"
    by (simp_all add: demo_intr_def sched.defs zero_desc_def)
  show "user_int 0x80 (init_idt V demo_intr) = Some (handler_at V syscall_handler_asm) \<and>
     user_int 0x0E (init_idt V demo_intr) = None \<and>
     g_offset (read_gate (idt_val (idt (init_idt V demo_intr) ! 0x0F))) = 0"
    using init_idt_correct [OF i, of "0x80" V] init_idt_correct [OF i, of "0x0E" V] init_idt_correct [OF i, of "0x0F" V]
    by (simp add: NUM_VEC_def VECTOR_SYSCALL_def idt_handlers_def VECTOR_PIT_def VECTOR_KEYBOARD_def VECTOR_RTC_def)
qed

subsection \<open>The system call gate\<close>

text \<open>
  \<open>syscall_handler.S\<close>: numbers from 1 to 10 pass the two signed comparisons, the jump table has
  the entries 0 to 8; a number behind it is a jump through bytes that are not part of the
  table, which is no result here. The handlers of interrupts during a blocking read are
  arguments.
\<close>

datatype call = Halt | Execute | Read | Write | Open | Close | Getargs | Vidmap

definition syscall_jump :: "call option list" where
  "syscall_jump = [None, Some Halt, Some Execute, Some Read, Some Write, Some Open, Some Close, Some Getargs, Some Vidmap]"

fun returns :: "(int \<times> 's) option \<Rightarrow> 's outcome option" where
  "returns None = None"
| "returns (Some (r, s)) = Some (Returns r s)"

primrec invoke ::
  "call \<Rightarrow> links \<Rightarrow> frame \<Rightarrow> bool list \<Rightarrow> 'a tty_scheme handlers \<Rightarrow> u32 \<Rightarrow> u32 \<Rightarrow> u32 \<Rightarrow>
    'a tty_scheme \<Rightarrow> 'a tty_scheme outcome option" where
  "invoke Halt L fr irqs hs ebx ecx edx s = syscall_halt L fr (ucast ebx) s"
| "invoke Execute L fr irqs hs ebx ecx edx s = syscall_execute L fr ebx s"
| "invoke Read L fr irqs hs ebx ecx edx s = returns (syscall_read irqs hs ebx ecx edx s)"
| "invoke Write L fr irqs hs ebx ecx edx s = returns (syscall_write ebx ecx edx s)"
| "invoke Open L fr irqs hs ebx ecx edx s = returns (syscall_open L fr ebx s)"
| "invoke Close L fr irqs hs ebx ecx edx s = returns (syscall_close (sint ebx) s)"
| "invoke Getargs L fr irqs hs ebx ecx edx s = returns (syscall_getargs ebx (sint ecx) s)"
| "invoke Vidmap L fr irqs hs ebx ecx edx s = returns (Some (syscall_vidmap L ebx s))"

definition syscall_dispatch ::
  "links \<Rightarrow> frame \<Rightarrow> bool list \<Rightarrow> 'a tty_scheme handlers \<Rightarrow> u32 \<Rightarrow> u32 \<Rightarrow> u32 \<Rightarrow> u32 \<Rightarrow>
    'a tty_scheme \<Rightarrow> 'a tty_scheme outcome option" where
  "syscall_dispatch L fr irqs hs eax ebx ecx edx s =
     (if sint eax > 10 \<or> sint eax < 1 then Some (Returns (-1) s)
      else if length syscall_jump \<le> unat eax then None
      else (case syscall_jump ! unat eax of
          None \<Rightarrow> None
        | Some c \<Rightarrow> invoke c L fr irqs hs ebx ecx edx (sti s)))"

subsection \<open>Exceptions\<close>

text \<open>The \<open>HANDLE_EXCEPTION\<close> lines of \<open>interrupt_table.c\<close>.\<close>

definition exception_messages :: "(handler \<times> string) list" where
  "exception_messages =
    [(exception_divide_error, ''DIVIDE ERROR''), (debug_intel_only, ''DEBUG INTEL ONLY''),
     (exception_nmi_interrupt, ''NMI INTERRUPT''), (exception_breakpoint, ''BREAKPOINT''),
     (exception_overflow, ''OVERFLOW''), (exception_bound_range_exceeded, ''BOUND RANGE EXCEEDED''),
     (exception_invalid_opcode, ''INVALID OPCODE''), (exception_device_not_available, ''DEVICE NOT AVAILABLE''),
     (exception_double_fault, ''DOUBLE FAULT''),
     (exception_coprocessor_segment_overrun, ''COPROCESSOR SEGMENT OVERRUN''),
     (exception_invalid_tss, ''INVALID TSS''), (exception_segment_not_present, ''SEGMENT NOT PRESENT''),
     (exception_stack_segment_fault, ''STACK SEGMENT FAULT''),
     (exception_general_protection, ''GENERAL PROTECTION''), (exception_page_fault, ''PAGE FAULT''),
     (exception_x87_fpu_error, ''X87 FPU FLOATING POINT ERROR''),
     (exception_alignment_check, ''ALIGNMENT CHECK''), (exception_machine_check, ''MACHINE CHECK''),
     (exception_simd_floating_point, ''SIMD FLOATING POINT EXCEPTION'')]"

definition message_bytes :: "handler \<Rightarrow> u8 list" where
  "message_bytes h = (case map_of exception_messages h of None \<Rightarrow> [] | Some m \<Rightarrow> map of_char m)"

text \<open>
  What the linker put at the addresses of the messages. The body of the handler ends in an
  endless loop, reached when no task is to be ended.
\<close>

definition exceptions_linked :: "vectors \<Rightarrow> mem \<Rightarrow> bool" where
  "exceptions_linked V m \<longleftrightarrow> (\<forall>h \<in> fst ` set exception_messages. message_at m (message_lit V h) (message_bytes h))"

datatype 's handled =
    Loops 's
  | Leaves "'s outcome"

definition HANDLE_EXCEPTION ::
  "vectors \<Rightarrow> links \<Rightarrow> frame \<Rightarrow> handler \<Rightarrow> 'a tty_scheme \<Rightarrow> 'a tty_scheme handled option" where
  "HANDLE_EXCEPTION V L fr exception_name s = do {
     (n, s) \<leftarrow> printf (message_lit V exception_name) (printf_args fr) (printf_buf fr) s;
     if get_tasks_running s \<noteq> 0 then do {
       let s = putc 0x0A s;
       let s = set_exception_death s;
       out \<leftarrow> syscall_halt L fr 0 s;
       (case out of
          Returns r s \<Rightarrow> Some (Loops s)
        | Iret e s \<Rightarrow> Some (Leaves (Iret e s))
        | Returns_from_execute r a b s \<Rightarrow> Some (Leaves (Returns_from_execute r a b s)))
     } else Some (Loops s)
   }"

primrec handled_state :: "'s handled \<Rightarrow> 's" where
  "handled_state (Loops s) = s"
| "handled_state (Leaves out) = outcome_state out"

lemma kernel_ok_death [simp]:
  fixes s :: "'a tty_scheme"
  shows "kernel_ok m0 bb (set_exception_death s) = kernel_ok m0 bb s" "current_ok (set_exception_death s) = current_ok s"
    "pcbs (set_exception_death s) = pcbs s" "tasks_running (set_exception_death s) = tasks_running s"
    "task_slots (set_exception_death s) = task_slots s" "exception_death (set_exception_death s) = 1"
    "tty.more (set_exception_death s) = tty.more s" "pcb_of j (set_exception_death s) = pcb_of j s"
    "terminals_ok (set_exception_death s) = terminals_ok s"
proof -
  show k: "kernel_ok m0 bb (set_exception_death s) = kernel_ok m0 bb s" by (rule kernel_ok_cong) (simp_all add: set_exception_death_def)
  have "running (set_exception_death s) = running s" by (rule running_slots) (simp add: set_exception_death_def)
  then show "current_ok (set_exception_death s) = current_ok s" by (simp add: current_ok_def) (simp add: set_exception_death_def pcb_of_def)
  show "terminals_ok (set_exception_death s) = terminals_ok s" by (rule terminals_ok_same) (simp_all add: set_exception_death_def)
qed (simp_all add: set_exception_death_def pcb_of_def)

lemma keeps_more: "keeps m0 bb s u \<Longrightarrow> tty.more s = tty.more r \<Longrightarrow> keeps m0 bb r u"
  by (simp add: keeps_def)

lemma exception_cases:
  fixes s :: "'a tty_scheme"
  assumes ok: "kernel_ok m0 bb s" "current_ok s" and msg: "messages_ok L m0" "exceptions_linked V m0"
    and h: "h \<in> fst ` set exception_messages"
  shows "if tasks_running s = 0
    then HANDLE_EXCEPTION V L fr h s = Some (Loops (fold putc (message_bytes h) s)) \<and>
      keeps m0 bb s (fold putc (message_bytes h) s)
    else if tasks_running s < 3
    then \<exists>t. HANDLE_EXCEPTION V L fr h s = Some (Leaves (Iret (old_eip (pcb_of (tasks_running s) s)) t)) \<and>
      keeps m0 bb s t \<and> task_slots t = task_slots s \<and> tasks_running t = tasks_running s \<and> exception_death t = 1
    else \<exists>t. HANDLE_EXCEPTION V L fr h s = Some (Leaves (Returns_from_execute 256
        (old_esp (pcb_of (tasks_running s) s)) (old_ebp (pcb_of (tasks_running s) s)) t)) \<and>
      keeps m0 bb s t \<and> task_slots t = (task_slots s)[unat (tasks_running s) := 0] \<and>
      tasks_running t = task_id_parent (pcb_of (tasks_running s) s) \<and> exception_death t = 0"
proof -
  let ?xs = "message_bytes h"
  define s1 where "s1 = fold putc ?xs s"
  define s2 where "s2 = set_exception_death (putc 0x0A s1)"
  have "message_at (memory s) (message_lit V h) ?xs"
    using msg(2) h message_undisturbed [OF kernel_okD(6) [OF ok(1)]] unfolding exceptions_linked_def by blast
  then obtain k where p: "printf (message_lit V h) (printf_args fr) (printf_buf fr) s = Some (k, s1)"
    using printf_message [OF terminals_okD(3) [OF kernel_okD(4) [OF ok(1)]], of "message_lit V h" ?xs "printf_args fr" "printf_buf fr"]
    by (auto simp: printf_def s1_def)
  have c: "calm s s1" "terminals_ok s1" "calm s (putc 0x0A s1)" "terminals_ok (putc 0x0A s1)"
    using fold_putc_terminals [OF kernel_okD(4) [OF ok(1)], of ?xs] fold_putc_terminals [OF kernel_okD(4) [OF ok(1)], of "?xs @ [0x0A]"]
    by (simp_all add: s1_def)
  have k1: "keeps m0 bb s s1" "keeps m0 bb s (putc 0x0A s1)" using keeps_calm [OF ok] c by simp_all
  have f: "tasks_running s1 = tasks_running s" "tasks_running s2 = tasks_running s" "pcbs s2 = pcbs s"
    "task_slots s2 = task_slots s" "exception_death s2 = 1"
    using c(1,3) by (simp_all add: calm_def s2_def)
  have k2: "kernel_ok m0 bb s2" "current_ok s2" "tty.more s2 = tty.more s"
    using k1(2) by (simp_all add: s2_def keeps_def)
  have pc: "pcb_of j s2 = pcb_of j s" for j by (simp add: pcb_of_def f)
  have he: "HANDLE_EXCEPTION V L fr h s = (if tasks_running s = 0 then Some (Loops s1)
      else do { out \<leftarrow> syscall_halt L fr 0 s2;
        (case out of Returns r s \<Rightarrow> Some (Loops s) | Iret e s \<Rightarrow> Some (Leaves (Iret e s))
          | Returns_from_execute r a b s \<Rightarrow> Some (Leaves (Returns_from_execute r a b s))) })"
    using p f(1) by (simp add: HANDLE_EXCEPTION_def get_tasks_running_def s2_def)
  consider "tasks_running s = 0" | "tasks_running s \<noteq> 0" "tasks_running s < 3" | "3 \<le> tasks_running s" by force
  then show ?thesis
  proof cases
    case 1
    then show ?thesis using he k1(1) by (simp add: s1_def)
  next
    case 2
    then obtain t where "syscall_halt L fr 0 s2 = Some (Iret (old_eip (pcb_of (tasks_running s) s)) t)" "keeps m0 bb s2 t"
      "task_slots t = task_slots s" "tasks_running t = tasks_running s" "exception_death t = 1"
      using halt_keeps [OF k2(1,2) msg(1), of fr 0] by (auto simp: f pc)
    then show ?thesis using he 2 keeps_more [OF _ k2(3)] by simp
  next
    case 3
    have fds: "fds_ok (fd_array s2)" using current_fds(2) [OF k2(1,2)] .
    have c3: "3 \<le> tasks_running s2" using 3 f(2) by simp
    obtain t where t: "syscall_halt L fr 0 s2 = Some (Returns_from_execute 256 (old_esp (pcb_of (tasks_running s) s))
        (old_ebp (pcb_of (tasks_running s) s)) t)" "tasks_running t = task_id_parent (pcb_of (tasks_running s) s)"
      "task_slots t = (task_slots s)[unat (tasks_running s) := 0]" "exception_death t = 0"
      using halt_correct [OF kernel_okD(1) [OF k2(1)] k2(2) refl c3 fds refl, of L fr 0] by (auto simp: f pc)
    have "keeps m0 bb s2 t" using halt_keeps [OF k2(1,2) msg(1), of fr 0] c3 t(1) by auto
    moreover have "\<not> tasks_running s < 3" "tasks_running s \<noteq> 0" using 3 by (auto simp: word_le_nat_alt word_less_nat_alt)
    ultimately show ?thesis using he t keeps_more [OF _ k2(3)] by simp
  qed
qed

lemma exception_keeps:
  fixes s :: "'a tty_scheme"
  assumes "kernel_ok m0 bb s" "current_ok s" "messages_ok L m0" "exceptions_linked V m0" "h \<in> fst ` set exception_messages"
  shows "\<exists>x. HANDLE_EXCEPTION V L fr h s = Some x \<and> keeps m0 bb s (handled_state x)"
  using exception_cases [OF assms, of fr] by (auto split: if_splits)

text \<open>C20: An exception in a program ends that program and nothing else: its message and a newline
  are printed and, for a program started from another, the parent's \<open>execute\<close> returns 256 while
  the slot becomes free and the mark is cleared. A first shell of terminal 1 or 2 starts over
  instead, with the mark still set, so that the next program to end will be reported as
  killed. In task 0 the handler takes the machine for idle: it prints and loops.\<close>
theorem exception_ends_program:
  fixes s :: "'a tty_scheme"
  assumes ok: "kernel_ok m0 bb s" "current_ok s" and msg: "messages_ok L m0" "exceptions_linked V m0"
    and h: "h \<in> fst ` set exception_messages"
  shows "if tasks_running s = 0
    then HANDLE_EXCEPTION V L fr h s = Some (Loops (fold putc (message_bytes h) s)) \<and>
      keeps m0 bb s (fold putc (message_bytes h) s)
    else if tasks_running s < 3
    then \<exists>t. HANDLE_EXCEPTION V L fr h s = Some (Leaves (Iret (old_eip (pcb_of (tasks_running s) s)) t)) \<and>
      keeps m0 bb s t \<and> task_slots t = task_slots s \<and> tasks_running t = tasks_running s \<and> exception_death t = 1
    else \<exists>t. HANDLE_EXCEPTION V L fr h s = Some (Leaves (Returns_from_execute 256
        (old_esp (pcb_of (tasks_running s) s)) (old_ebp (pcb_of (tasks_running s) s)) t)) \<and>
      keeps m0 bb s t \<and> task_slots t = (task_slots s)[unat (tasks_running s) := 0] \<and>
      tasks_running t = task_id_parent (pcb_of (tasks_running s) s) \<and> exception_death t = 0"
  by (rule exception_cases [OF assms])

subsection \<open>A machine that runs a program\<close>

text \<open>The boot image with the exception messages every 64 bytes from 2000H.\<close>

definition message_index :: "handler \<Rightarrow> nat" where
  "message_index h = length (takeWhile (\<lambda>p. fst p \<noteq> h) exception_messages)"

definition linked_image :: mem where
  "linked_image a =
     (let k = unat (a - 0x2000); bs = message_bytes (fst (exception_messages ! (k div 64))) in
      if k < 64 * 19 then if k mod 64 < length bs then bs ! (k mod 64) else 0 else shell_image a)"

definition demo_vectors :: vectors where
  "demo_vectors = \<lparr>idt_at = 0x5000, handler_at = \<lambda>_. 0x400000, message_lit = \<lambda>h. 0x2000 + 64 * of_nat (message_index h)\<rparr>"

lemma message_shape:
  "length exception_messages = 19"
  "p \<in> set exception_messages \<Longrightarrow> length (message_bytes (fst p)) < 64 \<and> 0 \<notin> set (message_bytes (fst p)) \<and> 0x25 \<notin> set (message_bytes (fst p))"
  by (auto simp: exception_messages_def message_bytes_def)

lemma low_not_scratch: "unat a < 0xB7F04 \<Longrightarrow> \<not> scratch a"
proof -
  assume a: "unat a < 0xB7F04"
  have "\<not> in_window a" using low_off_window [of a 0] a by simp
  moreover have "unat (a - 0xB7F04) = unat a + (2 ^ 32 - 0xB7F04)" "unat (a - 0x7F4000) = unat a + (2 ^ 32 - 0x7F4000)"
    using a by (simp_all add: unat_sub_if')
  ultimately show ?thesis by (simp add: scratch_def screen_area_def kernel_stack_def)
qed

lemma linked_message:
  assumes "i < 19"
  shows "message_at linked_image (0x2000 + 64 * of_nat i) (message_bytes (fst (exception_messages ! i)))"
proof -
  let ?b = "message_bytes (fst (exception_messages ! i))"
  have b: "length ?b < 64" "0 \<notin> set ?b" "0x25 \<notin> set ?b"
    using message_shape(2) [of "exception_messages ! i"] assms message_shape(1) by simp_all
  have at: "linked_image (0x2000 + 64 * of_nat i + of_nat j) = (if j < length ?b then ?b ! j else 0)" if "j < 64" for j
  proof -
    have "(64 * of_nat i + of_nat j :: u32) = of_nat (64 * i + j)" by simp
    moreover have "unat (of_nat (64 * i + j) :: u32) = 64 * i + j"
      using that assms by (simp only: unat_of_nat) (simp add: take_bit_nat_eq_self)
    ultimately have k: "unat (0x2000 + 64 * of_nat i + of_nat j - 0x2000 :: u32) = 64 * i + j"
      by (simp add: add.assoc)
    moreover have "(64 * i + j) div 64 = i" "(64 * i + j) mod 64 = j" "64 * i + j < 64 * 19" using that assms by auto
    ultimately show ?thesis unfolding linked_image_def Let_def k by simp
  qed
  have "\<not> scratch (0x2000 + 64 * of_nat i + of_nat j)" if "j \<le> length ?b" for j
  proof (rule low_not_scratch)
    have "(0x2000 + 64 * of_nat i + of_nat j :: u32) = of_nat (0x2000 + 64 * i + j)" by simp
    moreover have "unat (of_nat (0x2000 + 64 * i + j) :: u32) = 0x2000 + 64 * i + j"
      using that assms b(1) by (simp only: unat_of_nat) (simp add: take_bit_nat_eq_self)
    ultimately show "unat (0x2000 + 64 * of_nat i + of_nat j :: u32) < 0xB7F04" using that assms b(1) by simp
  qed
  then show ?thesis using b at by (simp add: message_at_def string_at_def)
qed

lemma takeWhile_shorter: "x \<in> set xs \<Longrightarrow> \<not> P x \<Longrightarrow> length (takeWhile P xs) < length xs"
  by (induction xs) auto

lemma demo_linked: "exceptions_linked demo_vectors linked_image"
proof -
  have "message_at linked_image (message_lit demo_vectors h) (message_bytes h)" if h: "h \<in> fst ` set exception_messages" for h
  proof -
    have "message_index h < 19"
      using h takeWhile_shorter [of _ exception_messages "\<lambda>p. fst p \<noteq> h"] message_shape(1) by (auto simp: message_index_def)
    moreover have "fst (exception_messages ! message_index h) = h"
      using nth_length_takeWhile [of "\<lambda>p. fst p \<noteq> h" exception_messages] calculation message_shape(1)
      by (simp add: message_index_def)
    ultimately show ?thesis using linked_message [of "message_index h"] by (simp add: demo_vectors_def)
  qed
  then show ?thesis by (simp add: exceptions_linked_def)
qed


lemma boot_ok_transfer:
  assumes boot: "boot_ok L fr m bb" and same: "same_image bb m m'"
    and lit: "\<And>i. i \<le> 5 \<Longrightarrow> m' (lit_shell L + of_nat i) = m (lit_shell L + of_nat i)" and msg: "messages_ok L m'"
  shows "boot_ok L fr m' bb"
proof -
  have img: "image_apart m bb" and ok: "image_ok m bb" and rdy: "shell_ready L m bb"
    using boot by (simp_all add: boot_ok_def image_apart_def)
  obtain i where i: "lookup m bb shell_name = Some i"
    "d_inode (dentry_at m (entry_addr bb (of_nat i))) < boot_inodes m bb"
    "file_is_elf m bb (d_inode (dentry_at m (entry_addr bb (of_nat i))))"
    using rdy by (auto simp: shell_ready_def split: option.splits)
  have "string_at m (lit_shell L) shell_name \<Longrightarrow> string_at m' (lit_shell L) shell_name"
    using lit lit [of 5] by (simp add: string_at_def shell_command(2))
  then have "shell_ready L m' bb"
    using rdy i same_image_lookup [OF same] same_image_entry(2) [OF same lookup_bound [OF i(1)]]
      same_image_elf [OF same ok i(2)] same_image_boot(1) [OF same]
    by (simp add: shell_ready_def)
  then show ?thesis using boot same_image_apart [OF img same] msg by (simp add: boot_ok_def)
qed

lemma linked_low: "unat a < 0x2000 \<or> 0x3000 \<le> unat a \<Longrightarrow> linked_image a = shell_image a"
proof -
  assume "unat a < 0x2000 \<or> 0x3000 \<le> unat a"
  then have "\<not> unat (a - 0x2000) < 64 * 19" by (auto simp: unat_sub_if')
  then show ?thesis by (simp add: linked_image_def Let_def)
qed

lemma linked_same_image: "same_image 0x100000 shell_image linked_image"
  unfolding same_image_def
proof (intro conjI allI impI)
  fix a assume "in_image shell_image 0x100000 a"
  then have "unat (a - 0x100000) < 12288" by (simp add: in_image_def shell_image_simps)
  then have "0x3000 \<le> unat a" by (auto simp: unat_sub_if' split: if_splits)
  then show "linked_image a = shell_image a" by (simp add: linked_low)
qed (simp add: shell_image_simps)

lemma linked_boot_ok: "boot_ok (boot_links L) boot_frame linked_image 0x100000"
proof (rule boot_ok_transfer [OF demo_boot_ok linked_same_image])
  show "linked_image (lit_shell (boot_links L) + of_nat i) = shell_image (lit_shell (boot_links L) + of_nat i)" if "i \<le> 5" for i
  proof (rule linked_low)
    have "unat (0x10 + of_nat i :: u32) = 0x10 + i" using that by (simp add: unat_word_ariths unat_of_nat take_bit_nat_eq_self)
    then show "unat (lit_shell (boot_links L) + of_nat i) < 0x2000 \<or> 0x3000 \<le> unat (lit_shell (boot_links L) + of_nat i)"
      using that by (simp add: boot_links_def)
  qed
  have "message_at linked_image 0x20 []"
    using literal_region [of 16] linked_low [of "0x20"]
    by (simp add: message_at_def string_at_eval shell_image_def elf_image_def demo_image_def)
  then show "messages_ok (boot_links L) linked_image" by (auto simp: messages_ok_def boot_links_def)
qed

definition linked_boot :: sched where
  "linked_boot = demo_boot\<lparr>memory := linked_image\<rparr>"

lemma linked_boot_kernel: "kernel_ok linked_image 0x100000 linked_boot"
proof -
  have "running linked_boot = running demo_boot" by (rule running_slots) (simp add: linked_boot_def)
  moreover have "tasks_ok linked_boot = tasks_ok demo_boot" by (rule tasks_ok_pcbs) (simp_all add: linked_boot_def)
  moreover have "terminals_ok linked_boot = terminals_ok demo_boot" by (rule terminals_ok_same) (simp_all add: linked_boot_def)
  ultimately show ?thesis
    using demo_boot_kernel
    by (simp add: kernel_ok_def alive_def current_ok_def descriptors_ok_def shells_up_def window_ok_def)
      (simp add: linked_boot_def pcb_of_def)
qed

text \<open>The three shells are up and the first has started a program, task 3.\<close>

lemma demo_program:
  "\<exists>s :: sched. kernel_ok linked_image 0x100000 s \<and> current_ok s \<and> tasks_running s = 3 \<and> pit_i s \<in> {0, 1, 2} \<and> shells_up s"
proof -
  fix L :: links and r :: regs
  note boot = linked_boot_ok [of L]
  have w: "waiting linked_image 0x100000 0 linked_boot"
    using linked_boot_kernel by (simp add: waiting_def boot_slots_simps) (simp add: linked_boot_def demo_boot_def)
  obtain s :: sched where s: "ready linked_image 0x100000 s" using boot_ticks [OF w boot, of r] by blast
  have k: "kernel_ok linked_image 0x100000 s" "task_slots s = [1, 1, 1, 0, 0, 0]" "pit_i s \<in> {0, 1, 2}"
    using s by (simp_all add: ready_def boot_slots_simps)
  have bt: "image_apart linked_image 0x100000" "frame_ok boot_frame" using boot by (simp_all add: boot_ok_def)
  have fo: "find_open_task s = 3" by (simp add: find_open_task_def k(2) upt_rec)
  note sh = shell_now [OF k(1) boot]
  obtain e t where t: "syscall_execute (boot_links L) boot_frame (lit_shell (boot_links L)) s = Some (Iret e t)"
    "keeps linked_image 0x100000 s t" "tasks_running t = 3" "task_slots t = [1, 1, 1, 1, 0, 0]"
    using execute_elf_keeps [OF k(1) bt sh(1), of "boot_links L"] sh(2,3) fo by (auto simp: shell_command k(2))
  have "shells_up t" by (simp add: shells_up_def running_def t(4))
  then show ?thesis using t k(3) sched_more(3) [of t s] by (auto simp: keeps_def intro!: exI [of _ t])
qed

lemma exception_ends_program_witness:
  "\<forall>L. \<exists>s t :: sched. tasks_running s = 3 \<and> HANDLE_EXCEPTION demo_vectors (boot_links L) boot_frame exception_page_fault s =
    Some (Leaves (Returns_from_execute 256 (old_esp (pcb_of 3 s)) (old_ebp (pcb_of 3 s)) t))"
proof
  fix L
  obtain s :: sched where s: "kernel_ok linked_image 0x100000 s" "current_ok s" "tasks_running s = 3"
    using demo_program by blast
  have m: "messages_ok (boot_links L) linked_image" using linked_boot_ok [of L] by (simp add: boot_ok_def)
  have h: "exception_page_fault \<in> fst ` set exception_messages" by (simp add: exception_messages_def)
  show "\<exists>s t :: sched. tasks_running s = 3 \<and> HANDLE_EXCEPTION demo_vectors (boot_links L) boot_frame exception_page_fault s =
    Some (Leaves (Returns_from_execute 256 (old_esp (pcb_of 3 s)) (old_ebp (pcb_of 3 s)) t))"
    using exception_ends_program [OF s(1,2) m demo_linked h, of boot_frame] s(3)
    by - (rule exI [of _ s], auto)
qed

end
