(* ===== verification/Kernel.thy ===== *)
theory Kernel
  imports Interrupts
begin

section \<open>The running kernel\<close>

text \<open>
  What happens to the machine once it has booted, one event at a time: a program's system
  call, a store of a program into its memory window, an interrupt of the keyboard, the clock
  or the timer, or an exception. An event is atomic: the interrupts a blocking read serves
  while it waits are events before it. \<open>Store\<close> and, once
  a program has mapped the text screen, \<open>Draw\<close> cover all that it can do without the kernel's
  help.
\<close>

datatype event =
    Call u32 u32 u32 u32
  | Store addr u8
  | Draw nat u8
  | Key u32
  | Clock
  | Timer
  | Fault handler

text \<open>
  The kernel does not check the pointers a program passes; a well-behaved program passes
  buffers inside its window and a command that is a string, and reads files from positions
  inside the block list.
\<close>

definition call_proper :: "u32 \<Rightarrow> u32 \<Rightarrow> u32 \<Rightarrow> u32 \<Rightarrow> 'a tty_scheme \<Rightarrow> bool" where
  "call_proper eax ebx ecx edx s \<longleftrightarrow>
     (eax = 2 \<longrightarrow> (\<exists>xs. command_at (memory s) ebx xs)) \<and>
     (eax = 3 \<longrightarrow> user_range ecx (unat edx) \<and> (\<forall>k < 8. unat (file_position (fd_array s ! k)) + unat edx < 1023 * 4096)) \<and>
     (eax = 7 \<longrightarrow> user_range ebx (nat (sint ecx))) \<and>
     (eax = 8 \<longrightarrow> user_range ebx 4)"

inductive kstep :: "vectors \<Rightarrow> links \<Rightarrow> frame \<Rightarrow> regs \<Rightarrow> 'a sched_scheme \<Rightarrow> event \<Rightarrow> 'a sched_scheme \<Rightarrow> bool"
  for V :: vectors and L :: links and fr :: frame and r :: regs where
  call: "current_ok s \<Longrightarrow> call_proper eax ebx ecx edx s \<Longrightarrow>
    syscall_dispatch L fr irqs [] eax ebx ecx edx s = Some out \<Longrightarrow>
    kstep V L fr r s (Call eax ebx ecx edx) (outcome_state out)"
| store: "current_ok s \<Longrightarrow> in_window a \<Longrightarrow> kstep V L fr r s (Store a b) (s\<lparr>memory := (memory s)(a := b)\<rparr>)"
| draw: "current_ok s \<Longrightarrow> bit (page_directory s 37) 0 \<Longrightarrow> i < 4096 \<Longrightarrow>
    kstep V L fr r s (Draw i b) (s\<lparr>memory := (memory s)(video_mem_addr + of_nat i := b)\<rparr>)"
| key: "keyboard_key r code s = Some t \<Longrightarrow> kstep V L fr r s (Key code) t"
| clock: "kstep V L fr r s Clock (rtc_handler s)"
| timer: "pit_handler L r fr s = Some out \<Longrightarrow> kstep V L fr r s Timer (outcome_state out)"
| fault: "current_ok s \<Longrightarrow> h \<in> fst ` set exception_messages \<Longrightarrow> HANDLE_EXCEPTION V L fr h s = Some x \<Longrightarrow>
    kstep V L fr r s (Fault h) (handled_state x)"

inductive_cases kstep_callE: "kstep V L fr r s (Call eax ebx ecx edx) t"
inductive_cases kstep_timerE: "kstep V L fr r s Timer t"

inductive_simps kstep_store_iff: "kstep V L fr r s (Store a b) t"
inductive_simps kstep_key_iff: "kstep V L fr r s (Key code) t"
inductive_simps kstep_clock_iff: "kstep V L fr r s Clock t"

text \<open>States reachable from \<open>s0\<close>; the link addresses are fixed, the stack and registers vary.\<close>

inductive kreach :: "vectors \<Rightarrow> links \<Rightarrow> 'a sched_scheme \<Rightarrow> event list \<Rightarrow> 'a sched_scheme \<Rightarrow> bool"
  for V :: vectors and L :: links and s0 :: "'a sched_scheme" where
  start: "kreach V L s0 [] s0"
| step: "kreach V L s0 es s \<Longrightarrow> frame_ok fr \<Longrightarrow> kstep V L fr r s e t \<Longrightarrow> kreach V L s0 (es @ [e]) t"

text \<open>What holds throughout, over the memory \<open>m0\<close> at boot.\<close>

definition kernel_inv :: "mem \<Rightarrow> addr \<Rightarrow> 'a sched_scheme \<Rightarrow> bool" where
  "kernel_inv m0 bb s \<longleftrightarrow> kernel_ok m0 bb s \<and> pit_i s \<in> {0, 1, 2}"

definition linked :: "vectors \<Rightarrow> links \<Rightarrow> mem \<Rightarrow> addr \<Rightarrow> bool" where
  "linked V L m0 bb \<longleftrightarrow> exceptions_linked V m0 \<and> image_apart m0 bb \<and> messages_ok L m0 \<and> shell_ready L m0 bb"

lemma kernel_inv_keeps:
  fixes s t :: "'a sched_scheme"
  shows "kernel_inv m0 bb s \<Longrightarrow> keeps m0 bb s t \<Longrightarrow> kernel_inv m0 bb t"
  using sched_more(3) [of t s] by (simp add: kernel_inv_def keeps_def)

lemma kernel_inv_calm:
  fixes s t :: "'a sched_scheme"
  assumes "kernel_inv m0 bb s" "calm s t" "terminals_ok t"
  shows "kernel_inv m0 bb t"
  using assms kernel_ok_calm [of m0 bb s t] sched_more(3) [of t s] by (simp add: kernel_inv_def calm_def)

lemma sti_same:
  fixes s :: "'a tty_scheme"
  shows "current_ok (sti s) = current_ok s" "tty.more (sti s) = tty.more s" "fd_array (sti s) = fd_array s"
    "call_proper eax ebx ecx edx (sti s) = call_proper eax ebx ecx edx s"
proof -
  have "running (sti s) = running s" by (rule running_slots) (simp add: sti_def)
  then show "current_ok (sti s) = current_ok s" by (simp add: current_ok_def) (simp add: sti_def pcb_of_def)
  show f: "fd_array (sti s) = fd_array s" by (simp add: fd_array_def sti_def pcb_of_def)
  show "call_proper eax ebx ecx edx (sti s) = call_proper eax ebx ecx edx s" by (simp add: call_proper_def f)
qed (simp add: sti_def)

primrec call_number :: "call \<Rightarrow> u32" where
  "call_number Halt = 1"
| "call_number Execute = 2"
| "call_number Read = 3"
| "call_number Write = 4"
| "call_number Open = 5"
| "call_number Close = 6"
| "call_number Getargs = 7"
| "call_number Vidmap = 8"

lemma jump_number: "unat eax < length syscall_jump \<Longrightarrow> syscall_jump ! unat eax = Some c \<Longrightarrow> eax = call_number c"
proof -
  assume "unat eax < length syscall_jump" and c: "syscall_jump ! unat eax = Some c"
  then have "unat eax \<in> {0, 1, 2, 3, 4, 5, 6, 7, 8}" by (auto simp: syscall_jump_def)
  then have "eax \<in> {0, 1, 2, 3, 4, 5, 6, 7, 8}" by (auto simp: word_unat_eq_iff)
  then show ?thesis using c by (auto simp: syscall_jump_def)
qed

lemma dispatch_cases:
  assumes "syscall_dispatch L fr irqs hs eax ebx ecx edx s = Some out"
  shows "out = Returns (-1) s \<or> (\<exists>c. invoke c L fr irqs hs ebx ecx edx (sti s) = Some out \<and> eax = call_number c)"
  using assms jump_number [of eax]
  by (auto simp: syscall_dispatch_def split: if_splits option.splits)

lemma returns_Some: "returns x = Some out \<longleftrightarrow> (\<exists>r t. x = Some (r, t) \<and> out = Returns r t)"
  by (cases "(x, ())" rule: prod.exhaust) (cases x; auto)

lemma invoke_keeps:
  fixes s :: "'a tty_scheme"
  assumes ok: "kernel_ok m0 bb s" "current_ok s" and ln: "linked V L m0 bb" and fr: "frame_ok fr"
    and proper: "call_proper (call_number c) ebx ecx edx s" and run: "invoke c L fr irqs [] ebx ecx edx s = Some out"
  shows "keeps m0 bb s (outcome_state out)"
proof -
  have img: "image_apart m0 bb" and msg: "messages_ok L m0" using ln by (simp_all add: linked_def)
  show ?thesis
  proof (cases c)
    case Halt
    then show ?thesis using run halt_keeps [OF ok msg, of fr "ucast ebx"] by auto
  next
    case Execute
    then obtain xs where xs: "command_at (memory s) ebx xs" using proper by (auto simp: call_proper_def)
    have run: "syscall_execute L fr ebx s = Some out" using run Execute by simp
    show ?thesis using execute_keeps [OF ok(1) img fr msg xs] run keeps_calm [OF ok] by auto
  next
    case Read
    then show ?thesis
      using run proper read_keeps [OF ok img, of ecx edx irqs ebx] by (auto simp: returns_Some call_proper_def)
  next
    case Write
    then show ?thesis using run write_keeps [OF ok, of ebx ecx edx] by (auto simp: returns_Some)
  next
    case Open
    then show ?thesis using run open_keeps [OF ok img, of L fr ebx] by (auto simp: returns_Some)
  next
    case Close
    then show ?thesis using run close_keeps [OF ok, of "sint ebx"] by (auto simp: returns_Some)
  next
    case Getargs
    have "sint ecx < 2 ^ 31" using sint_lt [of ecx] by simp
    then show ?thesis
      using Getargs run proper getargs_keeps [OF ok, of ebx "sint ecx"] by (auto simp: returns_Some call_proper_def)
  next
    case Vidmap
    then show ?thesis using run proper vidmap_keeps [OF ok, of ebx L] by (auto simp: returns_Some call_proper_def)
  qed
qed

text \<open>The invariant step by step, for the rule induction.\<close>

lemma store_keeps:
  fixes s :: "'a tty_scheme"
  assumes "kernel_ok m0 bb s" "current_ok s" "scratch a"
  shows "keeps m0 bb s (s\<lparr>memory := (memory s)(a := b)\<rparr>)"
proof (rule keeps_calm [OF assms(1,2)])
  have "undisturbed (memory s) ((memory s)(a := b))"
    using undisturbed_upd assms(3) by simp
  from calm_memory [OF this] kernel_okD(4) [OF assms(1)]
  show "calm s (s\<lparr>memory := (memory s)(a := b)\<rparr>)" "terminals_ok (s\<lparr>memory := (memory s)(a := b)\<rparr>)" by simp_all
qed

lemma video_page_scratch: "i < 4096 \<Longrightarrow> scratch (video_mem_addr + of_nat i)"
proof -
  assume i: "i < 4096"
  have "video_mem_addr + of_nat i - 0xB7F04 = of_nat (i + 252)" by (simp add: video_mem_addr_def)
  moreover have "unat (of_nat (i + 252) :: u32) = i + 252"
    using i by (simp only: unat_of_nat) (simp add: take_bit_nat_eq_self)
  ultimately show ?thesis using i scratch_cases(2) unfolding screen_area_def by (simp only:)
qed

lemma kstep_inv:
  assumes "kstep V L fr r s e t" "kernel_inv m0 bb s" and ln: "linked V L m0 bb" and fr: "frame_ok fr"
  shows "kernel_inv m0 bb t"
  using assms(1,2)
proof cases
  case (call eax ebx ecx edx irqs out)
  have ok: "kernel_ok m0 bb (sti s)" "current_ok (sti s)"
    using assms(2) call(3) by (simp_all add: kernel_inv_def sti_same)
  have "keeps m0 bb s s" using keeps_refl [of m0 bb s] call(3) assms(2) by (simp add: kernel_inv_def)
  moreover have "keeps m0 bb (sti s) u \<Longrightarrow> keeps m0 bb s u" for u by (simp add: keeps_def sti_same)
  ultimately show ?thesis
    using dispatch_cases [OF call(5)] kernel_inv_keeps [OF assms(2)] call(2,4)
      invoke_keeps [OF ok ln fr, of _ ebx ecx edx irqs out] by (auto simp: sti_same)
next
  case (store a b)
  then show ?thesis
    using store_keeps [of m0 bb s a b] scratch_cases(1) kernel_inv_keeps [OF assms(2)] assms(2) by (simp add: kernel_inv_def)
next
  case (draw i b)
  then show ?thesis
    using store_keeps [of m0 bb s _ b] video_page_scratch kernel_inv_keeps [OF assms(2)] assms(2) by (simp add: kernel_inv_def)
next
  case (key code)
  then show ?thesis using keyboard_ok [of m0 bb s r code t] assms(2) sched_more(3) [of t s] by (simp add: kernel_inv_def)
next
  case clock
  then show ?thesis using kernel_inv_calm [OF assms(2), of t] kernel_okD(4) [of m0 bb s] assms(2) by (simp add: kernel_inv_def)
next
  case (timer out)
  have "boot_ok L fr m0 bb" using ln fr by (simp add: linked_def boot_ok_def)
  then show ?thesis using timer pit_keeps [of m0 bb s L fr r] assms(2) by (auto simp: kernel_inv_def)
next
  case (fault h x)
  have "messages_ok L m0" "exceptions_linked V m0" using ln by (simp_all add: linked_def)
  then show ?thesis
    using fault exception_keeps [of m0 bb s L V h fr] kernel_inv_keeps [OF assms(2)] assms(2) by (auto simp: kernel_inv_def)
qed


lemma kreach_inv:
  assumes "kreach V L s0 es s" "linked V L m0 bb" "kernel_inv m0 bb s0"
  shows "kernel_inv m0 bb s"
  using assms by (induction rule: kreach.induct) (auto intro: kstep_inv)

lemma keyboard_total:
  fixes s :: "'a tty_scheme"
  assumes "kernel_ok m0 bb s"
  shows "\<exists>t. keyboard_key r code s = Some t"
proof (cases "code > 0xBD \<or> code > 0x3D \<and> code < 0x81")
  case True
  then show ?thesis by (auto simp: keyboard_key_def)
next
  case False
  let ?s = "record_key (unat code) s"
  have "kernel_ok m0 bb ?s" using kernel_ok_calm [OF assms calm_device(3)] kernel_okD(4) [OF assms] by simp
  then have "\<exists>t. switch_display_terminal r tid ?s = Some t" for tid using switch_total tids by blast
  then have "\<exists>t. dispatch_key r (unat code) ?s = Some t" by (auto simp: dispatch_key_def Let_def)
  then show ?thesis using False by (auto simp: keyboard_key_def)
qed


lemma demo_linked_all: "linked demo_vectors (boot_links L) linked_image 0x100000"
  using demo_linked linked_boot_ok [of L] by (simp add: linked_def boot_ok_def)

lemma linked_boot_inv: "kernel_inv linked_image 0x100000 linked_boot"
  using linked_boot_kernel by (simp add: kernel_inv_def) (simp add: linked_boot_def demo_boot_def)









end
