(* ===== verification/Entry.thy ===== *)
theory Entry
  imports Kernel
begin

section \<open>The kernel's entry point (kernel.c)\<close>

text \<open>
  \<open>entry\<close> of \<open>student-distrib/kernel.c\<close> with the descriptors of \<open>x86_desc.h\<close> that it fills in,
  called by \<open>boot.S\<close> after \<open>init_idt\<close>. The prints of \<open>entry\<close> are commented out, and without
  them each test of a flag guards the next one. What is left of the module loop counts to
  \<open>mods_count\<close> and has no effect.
\<close>

unbundle bit_operations_syntax

subsection \<open>Segment descriptors\<close>

record seg_desc =
  seg_lim_15_00 :: u16
  base_15_00 :: u16
  base_23_16 :: u8
  seg_type :: "4 word"
  seg_sys :: "1 word"
  seg_dpl :: "2 word"
  seg_present :: "1 word"
  seg_lim_19_16 :: "4 word"
  avail :: "1 word"
  seg_reserved :: "1 word"
  opsize :: "1 word"
  granularity :: "1 word"
  base_31_24 :: u8

text \<open>The two words of the packed fields, low bits first.\<close>

definition seg_val :: "seg_desc \<Rightarrow> u32 \<times> u32" where
  "seg_val d =
     (ucast (seg_lim_15_00 d) OR push_bit 16 (ucast (base_15_00 d)),
      ucast (base_23_16 d) OR push_bit 8 (ucast (seg_type d)) OR push_bit 12 (ucast (seg_sys d)) OR
      push_bit 13 (ucast (seg_dpl d)) OR push_bit 15 (ucast (seg_present d)) OR
      push_bit 16 (ucast (seg_lim_19_16 d)) OR push_bit 20 (ucast (avail d)) OR
      push_bit 21 (ucast (seg_reserved d)) OR push_bit 22 (ucast (opsize d)) OR
      push_bit 23 (ucast (granularity d)) OR push_bit 24 (ucast (base_31_24 d)))"

definition SET_LDT_PARAMS :: "seg_desc \<Rightarrow> addr \<Rightarrow> u32 \<Rightarrow> seg_desc" where
  "SET_LDT_PARAMS str addr lim = str\<lparr>
     base_31_24 := ucast (drop_bit 24 (addr AND 0xFF000000)),
     base_23_16 := ucast (drop_bit 16 (addr AND 0x00FF0000)),
     base_15_00 := ucast (addr AND 0x0000FFFF),
     seg_lim_19_16 := ucast (drop_bit 16 (lim AND 0x000F0000)),
     seg_lim_15_00 := ucast (lim AND 0x0000FFFF)\<rparr>"

definition SET_TSS_PARAMS :: "seg_desc \<Rightarrow> addr \<Rightarrow> u32 \<Rightarrow> seg_desc" where
  "SET_TSS_PARAMS str addr lim = str\<lparr>
     base_31_24 := ucast (drop_bit 24 (addr AND 0xFF000000)),
     base_23_16 := ucast (drop_bit 16 (addr AND 0x00FF0000)),
     base_15_00 := ucast (addr AND 0x0000FFFF),
     seg_lim_19_16 := ucast (drop_bit 16 (lim AND 0x000F0000)),
     seg_lim_15_00 := ucast (lim AND 0x0000FFFF)\<rparr>"

definition TSS_SIZE :: u32 where "TSS_SIZE = 104"
definition KERNEL_TSS :: u16 where "KERNEL_TSS = 0x30"
definition KERNEL_LDT :: u16 where "KERNEL_LDT = 0x38"

definition ldt_descriptor :: "seg_desc \<Rightarrow> addr \<Rightarrow> u32 \<Rightarrow> seg_desc" where
  "ldt_descriptor the_ldt_desc ldt ldt_size =
     SET_LDT_PARAMS (the_ldt_desc\<lparr>granularity := 0, opsize := 1, seg_reserved := 0, avail := 0, seg_present := 1,
       seg_dpl := 0, seg_sys := 0, seg_type := 2\<rparr>) ldt ldt_size"

definition tss_descriptor :: "seg_desc \<Rightarrow> addr \<Rightarrow> u32 \<Rightarrow> seg_desc" where
  "tss_descriptor the_tss_desc tss tss_size =
     SET_TSS_PARAMS (the_tss_desc\<lparr>granularity := 0, opsize := 0, seg_reserved := 0, avail := 0,
       seg_lim_19_16 := ucast (TSS_SIZE AND 0x000F0000), seg_present := 1, seg_dpl := 0, seg_sys := 0,
       seg_type := 9, seg_lim_15_00 := ucast (TSS_SIZE AND 0x0000FFFF)\<rparr>) tss tss_size"

text \<open>What the processor reads in a system descriptor.\<close>

definition seg_base :: "u32 \<times> u32 \<Rightarrow> addr" where
  "seg_base = (\<lambda>(lo, hi). drop_bit 16 lo OR push_bit 16 (hi AND 0xFF) OR (hi AND 0xFF000000))"

definition seg_limit :: "u32 \<times> u32 \<Rightarrow> u32" where
  "seg_limit = (\<lambda>(lo, hi). (lo AND 0xFFFF) OR (hi AND 0x000F0000))"

definition seg_rights :: "u32 \<times> u32 \<Rightarrow> u32" where
  "seg_rights = (\<lambda>(lo, hi). drop_bit 8 hi AND 0xFF)"

lemma seg_masks:
  "(0xFF :: u32) = mask 8" "(0xFFFF :: u32) = mask 16" "(0xFF000000 :: u32) = push_bit 24 (mask 8)"
  "(0xFF0000 :: u32) = push_bit 16 (mask 8)" "(0xF0000 :: u32) = push_bit 16 (mask 4)"
  by (simp_all add: mask_eq_exp_minus_1)

lemma seg_parts:
  fixes a l :: u32
  shows "bit (ucast (ucast (x AND 0xFFFF :: u32) :: u16) :: u32) n \<longleftrightarrow> n < 16 \<and> bit x n"
    "bit (ucast (ucast (drop_bit 16 (a AND 0xFF0000)) :: u8) :: u32) n \<longleftrightarrow> n < 8 \<and> bit a (n + 16)"
    "bit (ucast (ucast (drop_bit 16 (l AND 0xF0000)) :: 4 word) :: u32) n \<longleftrightarrow> n < 4 \<and> bit l (n + 16)"
    "bit (ucast (ucast (drop_bit 24 (a AND 0xFF000000)) :: u8) :: u32) n \<longleftrightarrow> n < 8 \<and> bit a (n + 24)"
  unfolding seg_masks by (auto simp: bit_simps add.commute)

text \<open>The constant fields in one number \<open>C\<close> of bits 8 to 15 and 20 to 23.\<close>

lemma seg_split:
  fixes C a l :: u32
  assumes "C AND 0xFF0F00FF = 0"
  defines "lo \<equiv> ucast (ucast (l AND 0xFFFF) :: u16) OR push_bit 16 (ucast (ucast (a AND 0xFFFF) :: u16))"
    and "hi \<equiv> C OR ucast (ucast (drop_bit 16 (a AND 0xFF0000)) :: u8) OR
      push_bit 16 (ucast (ucast (drop_bit 16 (l AND 0xF0000)) :: 4 word)) OR
      push_bit 24 (ucast (ucast (drop_bit 24 (a AND 0xFF000000)) :: u8))"
  shows "seg_base (lo, hi) = a" "l < 0x100000 \<Longrightarrow> seg_limit (lo, hi) = l" "seg_rights (lo, hi) = drop_bit 8 C AND 0xFF"
proof -
  have "(0xFF0F00FF :: u32) = mask 8 OR push_bit 16 (mask 4) OR push_bit 24 (mask 8)"
    by (simp add: mask_eq_exp_minus_1)
  then have m: "bit C n \<longrightarrow> \<not> bit (mask 8 OR push_bit 16 (mask 4) OR push_bit 24 (mask 8) :: u32) n" for n
    using assms(1) by (metis bit_and_iff bit_0_eq bot_apply bot_bool_def)
  have c: "\<not> bit C n" if "n < 8 \<or> 16 \<le> n \<and> n < 20 \<or> 24 \<le> n" for n
    using that m [of n] bit_imp_le_length [of C n] by (auto simp: bit_simps)
  have bl: "bit lo n \<longleftrightarrow> n < 16 \<and> bit l n \<or> 16 \<le> n \<and> n < 32 \<and> bit a (n - 16)" for n
    unfolding lo_def bit_or_iff bit_push_bit_iff seg_parts by auto
  have bh: "bit hi n \<longleftrightarrow> bit C n \<or> n < 8 \<and> bit a (n + 16) \<or> 16 \<le> n \<and> n < 20 \<and> bit l n \<or> 24 \<le> n \<and> n < 32 \<and> bit a n" for n
    unfolding hi_def bit_or_iff bit_push_bit_iff seg_parts by auto
  show "seg_base (lo, hi) = a"
  proof (rule bit_word_eqI)
    fix n assume "n < LENGTH(32)"
    then consider "n < 16" | "16 \<le> n" "n < 24" | "24 \<le> n" "n < 32" by fastforce
    then show "bit (seg_base (lo, hi)) n = bit a n"
      unfolding seg_base_def prod.case seg_masks by cases (auto simp: bit_or_iff bit_and_iff bit_push_bit_iff bit_drop_bit_eq bit_mask_iff bl bh c)
  qed
  show "seg_rights (lo, hi) = drop_bit 8 C AND 0xFF"
    unfolding seg_rights_def prod.case seg_masks
    by (rule bit_word_eqI) (auto simp: bit_and_iff bit_drop_bit_eq bit_mask_iff bh)
  show "seg_limit (lo, hi) = l" if "l < 0x100000"
  proof (rule bit_word_eqI)
    fix n assume n: "n < LENGTH(32)"
    have z: "\<not> bit l n" if "20 \<le> n"
    proof -
      have "unat l < 2 ^ 20" using \<open>l < 0x100000\<close> by (simp add: word_less_nat_alt)
      also have "\<dots> \<le> (2 :: nat) ^ n" using that by (rule power_increasing) simp
      finally have "\<not> bit (unat l) n" by (simp add: bit_iff_odd)
      then show ?thesis by (simp add: bit_unsigned_iff)
    qed
    consider "n < 16" | "16 \<le> n" "n < 20" | "20 \<le> n" "n < 32" using n by fastforce
    then show "bit (seg_limit (lo, hi)) n = bit l n"
      unfolding seg_limit_def prod.case seg_masks
      by cases (auto simp: bit_or_iff bit_and_iff bit_push_bit_iff bit_mask_iff bl bh c z)
  qed
qed


lemma descriptor_words:
  "\<exists>C. C AND 0xFF0F00FF = 0 \<and> drop_bit 8 C AND 0xFF = 0x82 \<and>
    seg_val (ldt_descriptor d a l) =
    (ucast (ucast (l AND 0xFFFF) :: u16) OR push_bit 16 (ucast (ucast (a AND 0xFFFF) :: u16)),
     C OR ucast (ucast (drop_bit 16 (a AND 0xFF0000)) :: u8) OR
      push_bit 16 (ucast (ucast (drop_bit 16 (l AND 0xF0000)) :: 4 word)) OR
      push_bit 24 (ucast (ucast (drop_bit 24 (a AND 0xFF000000)) :: u8)))"
  "\<exists>C. C AND 0xFF0F00FF = 0 \<and> drop_bit 8 C AND 0xFF = 0x89 \<and>
    seg_val (tss_descriptor d a l) =
    (ucast (ucast (l AND 0xFFFF) :: u16) OR push_bit 16 (ucast (ucast (a AND 0xFFFF) :: u16)),
     C OR ucast (ucast (drop_bit 16 (a AND 0xFF0000)) :: u8) OR
      push_bit 16 (ucast (ucast (drop_bit 16 (l AND 0xF0000)) :: 4 word)) OR
      push_bit 24 (ucast (ucast (drop_bit 24 (a AND 0xFF000000)) :: u8)))"
proof -
  define A B D :: u32 where "A = ucast (ucast (drop_bit 16 (a AND 0xFF0000)) :: u8)"
    and "B = push_bit 16 (ucast (ucast (drop_bit 16 (l AND 0xF0000)) :: 4 word))"
    and "D = push_bit 24 (ucast (ucast (drop_bit 24 (a AND 0xFF000000)) :: u8))"
  note f = A_def [symmetric] B_def [symmetric] D_def [symmetric]
  have c: "(0x408200 :: u32) = push_bit 8 2 OR push_bit 15 1 OR push_bit 22 1" "(0x8900 :: u32) = push_bit 8 9 OR push_bit 15 1"
    by simp_all
  have "seg_val (ldt_descriptor d a l) = (ucast (ucast (l AND 0xFFFF) :: u16) OR push_bit 16 (ucast (ucast (a AND 0xFFFF) :: u16)),
      A OR push_bit 8 2 OR push_bit 15 1 OR B OR push_bit 22 1 OR D)"
    by (simp add: seg_val_def ldt_descriptor_def SET_LDT_PARAMS_def A_def B_def D_def)
  also have "A OR push_bit 8 2 OR push_bit 15 1 OR B OR push_bit 22 1 OR D = 0x408200 OR A OR B OR D"
    unfolding c by (simp only: or.assoc or.commute or.left_commute)
  finally show "\<exists>C. C AND 0xFF0F00FF = 0 \<and> drop_bit 8 C AND 0xFF = 0x82 \<and>
    seg_val (ldt_descriptor d a l) =
    (ucast (ucast (l AND 0xFFFF) :: u16) OR push_bit 16 (ucast (ucast (a AND 0xFFFF) :: u16)),
     C OR ucast (ucast (drop_bit 16 (a AND 0xFF0000)) :: u8) OR
      push_bit 16 (ucast (ucast (drop_bit 16 (l AND 0xF0000)) :: 4 word)) OR
      push_bit 24 (ucast (ucast (drop_bit 24 (a AND 0xFF000000)) :: u8)))"
    unfolding f by (intro exI [of _ "0x408200"]) simp
  have "seg_val (tss_descriptor d a l) = (ucast (ucast (l AND 0xFFFF) :: u16) OR push_bit 16 (ucast (ucast (a AND 0xFFFF) :: u16)),
      A OR push_bit 8 9 OR push_bit 15 1 OR B OR D)"
    by (simp add: seg_val_def tss_descriptor_def SET_TSS_PARAMS_def A_def B_def D_def)
  also have "A OR push_bit 8 9 OR push_bit 15 1 OR B OR D = 0x8900 OR A OR B OR D"
    unfolding c by (simp only: or.assoc or.commute or.left_commute)
  finally show "\<exists>C. C AND 0xFF0F00FF = 0 \<and> drop_bit 8 C AND 0xFF = 0x89 \<and>
    seg_val (tss_descriptor d a l) =
    (ucast (ucast (l AND 0xFFFF) :: u16) OR push_bit 16 (ucast (ucast (a AND 0xFFFF) :: u16)),
     C OR ucast (ucast (drop_bit 16 (a AND 0xFF0000)) :: u8) OR
      push_bit 16 (ucast (ucast (drop_bit 16 (l AND 0xF0000)) :: 4 word)) OR
      push_bit 24 (ucast (ucast (drop_bit 24 (a AND 0xFF000000)) :: u8)))"
    unfolding f by (intro exI [of _ "0x8900"]) simp
qed

text \<open>C22: The descriptors \<open>entry\<close> builds decode to what they describe, whatever the uninitialised
  locals held: the processor reads the table's address as the base and its size less one as
  the limit, with the rights of a present LDT and of an available 32-bit TSS of ring 0.\<close>
theorem system_descriptors_correct:
  assumes "l < 0x100000"
  shows "seg_base (seg_val (ldt_descriptor d a l)) = a \<and> seg_limit (seg_val (ldt_descriptor d a l)) = l \<and>
    seg_rights (seg_val (ldt_descriptor d a l)) = 0x82 \<and>
    seg_base (seg_val (tss_descriptor d a l)) = a \<and> seg_limit (seg_val (tss_descriptor d a l)) = l \<and>
    seg_rights (seg_val (tss_descriptor d a l)) = 0x89"
  using descriptor_words [where d = d and a = a and l = l] seg_split [where a = a and l = l] assms by auto


lemma system_descriptors_correct_witness:
  "\<forall>d. seg_base (seg_val (tss_descriptor d 0x404020 103)) = 0x404020 \<and> seg_limit (seg_val (ldt_descriptor d 0x4040A0 31)) = 31"
proof
  fix d
  show "seg_base (seg_val (tss_descriptor d 0x404020 103)) = 0x404020 \<and> seg_limit (seg_val (ldt_descriptor d 0x4040A0 31)) = 31"
    using system_descriptors_correct [of 103 d "0x404020"] system_descriptors_correct [of 31 d "0x4040A0"] by simp
qed

subsection \<open>entry\<close>

record booted = intr +
  ldt_desc_ptr :: seg_desc
  tss_desc_ptr :: seg_desc
  tss_ldt_selector :: u16
  ldtr :: u16
  tr :: u16

record system_tables =
  ldt_at :: addr
  tss_at :: addr

datatype 's entered =
    Returned 's
  | Idle 's

definition MULTIBOOT_BOOTLOADER_MAGIC :: u32 where "MULTIBOOT_BOOTLOADER_MAGIC = 0x2BADB002"

definition CHECK_FLAG :: "u32 \<Rightarrow> nat \<Rightarrow> u32" where
  "CHECK_FLAG mbi_flags b = mbi_flags AND push_bit b 1"

definition lldt :: "u16 \<Rightarrow> 'a booted_scheme \<Rightarrow> 'a booted_scheme" where
  "lldt desc s = s\<lparr>ldtr := desc\<rparr>"

definition ltr :: "u16 \<Rightarrow> 'a booted_scheme \<Rightarrow> 'a booted_scheme" where
  "ltr desc s = s\<lparr>tr := desc\<rparr>"

text \<open>\<open>flags\<close> is the first word of the multiboot information, \<open>mods_addr\<close> the seventh, \<open>mod_start\<close> the
  first word of a module.\<close>

definition init_modules :: "addr \<Rightarrow> 'a fs_scheme \<Rightarrow> 'a fs_scheme" where
  "init_modules mbi s =
     (let mbi_flags = rd32 (memory s) mbi in
      if CHECK_FLAG mbi_flags 0 \<noteq> 0 then
        if CHECK_FLAG mbi_flags 1 \<noteq> 0 then
          if CHECK_FLAG mbi_flags 2 \<noteq> 0 then
            if CHECK_FLAG mbi_flags 3 \<noteq> 0 then
              (let mod_start = rd32 (memory s) (rd32 (memory s) (mbi + 24)) in fs_init mod_start s)
            else s
          else s
        else s
      else s)"

definition entry_descriptors :: "system_tables \<Rightarrow> seg_desc \<Rightarrow> seg_desc \<Rightarrow> 'a booted_scheme \<Rightarrow> 'a booted_scheme" where
  "entry_descriptors A the_ldt_desc the_tss_desc s =
     (let s = s\<lparr>ldt_desc_ptr := ldt_descriptor the_ldt_desc (ldt_at A) 31\<rparr>;
          s = lldt KERNEL_LDT s;
          s = s\<lparr>tss_desc_ptr := tss_descriptor the_tss_desc (tss_at A) 103\<rparr>;
          s = s\<lparr>tss_ldt_selector := KERNEL_LDT\<rparr>;
          s = s\<lparr>tss_ss0 := KERNEL_DS\<rparr>;
          s = s\<lparr>tss_esp0 := 0x800000\<rparr>
      in ltr KERNEL_TSS s)"

definition entry ::
  "links \<Rightarrow> system_tables \<Rightarrow> device \<Rightarrow> seg_desc \<Rightarrow> seg_desc \<Rightarrow> u32 \<Rightarrow> addr \<Rightarrow> 'a booted_scheme \<Rightarrow>
    'a booted_scheme entered" where
  "entry L A dev the_ldt_desc the_tss_desc magic addr s =
     (let s = clear s in
      if magic \<noteq> MULTIBOOT_BOOTLOADER_MAGIC then Returned s
      else
       (let s = init_modules addr s;
            mbi_flags = rd32 (memory s) addr in
        if CHECK_FLAG mbi_flags 4 \<noteq> 0 \<and> CHECK_FLAG mbi_flags 5 \<noteq> 0 then Returned s
        else
         (let s = entry_descriptors A the_ldt_desc the_tss_desc s;
              s = i8259_init s;
              s = paging_init (paging_tables L) s;
              s = keyboard_init s;
              s = rtc_init dev s;
              s = pit_init s
          in Idle (sti s))))"

subsection \<open>What initialisation changes\<close>

lemma devices_more:
  fixes s :: "'a rtc_scheme"
  shows "rtc.more (outb d p s) = rtc.more s" "rtc.more (cli s) = rtc.more s" "rtc.more (sti s) = rtc.more s"
    "rtc.more (enable_irq i s) = rtc.more s" "rtc.more (i8259_init s) = rtc.more s" "rtc.more (rtc_init dev s) = rtc.more s"
    "memory (enable_irq i s) = memory s" "memory (i8259_init s) = memory s" "memory (rtc_init dev s) = memory s"
    "master_mask (rtc_init dev s) = master_mask (enable_irq RTC_IRQ_NUM s)"
    "slave_mask (rtc_init dev s) = slave_mask (enable_irq RTC_IRQ_NUM s)"
proof -
  show o: "rtc.more (outb d p s) = rtc.more s" "rtc.more (cli s) = rtc.more s" "rtc.more (sti s) = rtc.more s" for d p and s :: "'a rtc_scheme"
    by (simp_all add: outb_def cli_def sti_def)
  show e: "rtc.more (enable_irq i s) = rtc.more s" "memory (enable_irq i s) = memory s" for i and s :: "'a rtc_scheme"
    by (simp_all add: enable_irq_def Let_def o)
  show "rtc.more (i8259_init s) = rtc.more s" "memory (i8259_init s) = memory s"
    by (simp_all add: i8259_init_def Let_def o)
  have m: "master_mask (cli t) = master_mask t" "slave_mask (cli t) = slave_mask t" "master_mask (sti t) = master_mask t"
    "slave_mask (sti t) = slave_mask t" for t :: "'a rtc_scheme" by (simp_all add: cli_def sti_def)
  have n: "master_mask (enable_irq i (t\<lparr>virt_freq := v, rtc_inter_count := w\<rparr>)) = master_mask (enable_irq i t)"
    "slave_mask (enable_irq i (t\<lparr>virt_freq := v, rtc_inter_count := w\<rparr>)) = slave_mask (enable_irq i t)" for i v w and t :: "'a rtc_scheme"
    by (simp_all add: enable_irq_def Let_def)
  show "rtc.more (rtc_init dev s) = rtc.more s" "memory (rtc_init dev s) = memory s"
    by (simp_all add: rtc_init_def rtc_set_frequency_def rtc_rate_code_def Let_def o e)
  show "master_mask (rtc_init dev s) = master_mask (enable_irq RTC_IRQ_NUM s)"
    "slave_mask (rtc_init dev s) = slave_mask (enable_irq RTC_IRQ_NUM s)"
    by (simp_all add: rtc_init_def rtc_set_frequency_def rtc_rate_code_def Let_def m RTC_IRQ_NUM_def enable_irq_def)
qed


lemma screen_on:
  fixes s t :: "'a sched_scheme"
  assumes "rtc.more t = rtc.more s"
  shows "screen_x t = screen_x s" "screen_y t = screen_y s" "page_directory t = page_directory s" "boot_block t = boot_block s"
    "tasks_running t = tasks_running s" "task_slots t = task_slots s" "terminals t = terminals s"
    "display_terminal_id t = display_terminal_id s" "bootup_flag t = bootup_flag s" "pit_i t = pit_i s" "cr0 t = cr0 s"
  using assms by (cases s; cases t; simp)+

lemma clear_frame:
  fixes s :: "'a sched_scheme"
  shows "screen_x (clear s) = screen_x s" "screen_y (clear s) = screen_y s" "boot_block (clear s) = boot_block s"
    "tasks_running (clear s) = tasks_running s" "task_slots (clear s) = task_slots s" "terminals (clear s) = terminals s"
    "display_terminal_id (clear s) = display_terminal_id s" "bootup_flag (clear s) = bootup_flag s" "pit_i (clear s) = pit_i s"
    "master_mask (clear s) = master_mask s" "slave_mask (clear s) = slave_mask s"
proof -
  have "\<exists>m. fold (\<lambda>i s. video_store (i * 2 + 1) ATTRIB (video_store (i * 2) 0x20 s)) xs u = u\<lparr>memory := m\<rparr>"
    for xs and u :: "'a sched_scheme"
  proof (induction xs arbitrary: u)
    case Nil
    show ?case by (rule exI [of _ "memory u"]) simp
  next
    case (Cons x xs)
    obtain m where m: "video_store (x * 2 + 1) ATTRIB (video_store (x * 2) 0x20 u) = u\<lparr>memory := m\<rparr>"
      by (simp add: video_store_def)
    obtain m' where "fold (\<lambda>i s. video_store (i * 2 + 1) ATTRIB (video_store (i * 2) 0x20 s)) xs (u\<lparr>memory := m\<rparr>) = u\<lparr>memory := m'\<rparr>"
      using Cons.IH [of "u\<lparr>memory := m\<rparr>"] by auto
    then show ?case by (auto simp: m)
  qed
  then obtain m where "clear s = s\<lparr>memory := m\<rparr>" unfolding clear_def by blast
  then show "screen_x (clear s) = screen_x s" "screen_y (clear s) = screen_y s" "boot_block (clear s) = boot_block s"
    "tasks_running (clear s) = tasks_running s" "task_slots (clear s) = task_slots s" "terminals (clear s) = terminals s"
    "display_terminal_id (clear s) = display_terminal_id s" "bootup_flag (clear s) = bootup_flag s" "pit_i (clear s) = pit_i s"
    "master_mask (clear s) = master_mask s" "slave_mask (clear s) = slave_mask s"
    by simp_all
qed

lemma paging_init_frame:
  fixes s :: "'a sched_scheme"
  shows "screen_x (paging_init T s) = screen_x s" "screen_y (paging_init T s) = screen_y s"
    "boot_block (paging_init T s) = boot_block s" "tasks_running (paging_init T s) = tasks_running s"
    "task_slots (paging_init T s) = task_slots s" "terminals (paging_init T s) = terminals s"
    "display_terminal_id (paging_init T s) = display_terminal_id s" "bootup_flag (paging_init T s) = bootup_flag s"
    "pit_i (paging_init T s) = pit_i s" "master_mask (paging_init T s) = master_mask s" "slave_mask (paging_init T s) = slave_mask s"
  unfolding paging_init_def init_fold Let_def
  by (simp_all add: load_cr3_def set_directory_def)

lemma irq_enabled_init:
  fixes s :: "'a rtc_scheme" and u :: "'b sched_scheme"
  shows "irq_enabled (rtc_init dev s) j \<longleftrightarrow> j = 8 \<or> irq_enabled s j"
    "irq_enabled (pit_init u) j \<longleftrightarrow> j = 0 \<or> irq_enabled u j" "irq_enabled (sti u) j = irq_enabled u j"
    "irq_enabled (keyboard_init u) j \<longleftrightarrow> j = 1 \<or> irq_enabled u j"
proof -
  have o: "irq_enabled (outb d p v) = irq_enabled v" "irq_enabled (cli v) = irq_enabled v" "irq_enabled (sti v) = irq_enabled v"
    for d p and v :: "'c pic_scheme"
    by (simp_all add: irq_enabled_def fun_eq_iff outb_def cli_def sti_def)
  have "irq_enabled (rtc_init dev s) j = irq_enabled (enable_irq RTC_IRQ_NUM s) j"
    by (simp add: irq_enabled_def devices_more)
  then show "irq_enabled (rtc_init dev s) j \<longleftrightarrow> j = 8 \<or> irq_enabled s j"
    by (simp add: irq_enabled_enable RTC_IRQ_NUM_def)
  show "irq_enabled (pit_init u) j \<longleftrightarrow> j = 0 \<or> irq_enabled u j" "irq_enabled (sti u) j = irq_enabled u j"
    "irq_enabled (keyboard_init u) j \<longleftrightarrow> j = 1 \<or> irq_enabled u j"
    by (simp_all add: pit_init_def keyboard_init_def Let_def o irq_enabled_enable PIT_IRQ_NUM_def KEYBOARD_IRQ_NUM_def)
qed

lemma cascade_only: "master_mask s = 0xFB \<Longrightarrow> slave_mask s = 0xFF \<Longrightarrow> irq_enabled s j \<longleftrightarrow> j = 2"
proof -
  assume m: "master_mask s = 0xFB" "slave_mask s = 0xFF"
  have "\<not> bit (0xFB :: u8) n \<longleftrightarrow> n = 2" if "n < 8" for n
  proof -
    have "n \<in> {0, 1, 2, 3, 4, 5, 6, 7}" using that by auto
    then show ?thesis by (auto simp: bit_numeral_rec)
  qed
  moreover have "bit (0xFF :: u8) n" if "n < 8" for n
  proof -
    have "(0xFF :: u8) = mask 8" by (simp add: mask_eq_exp_minus_1)
    then show ?thesis using that by (simp only: bit_mask_iff) simp
  qed
  moreover have "unat (j - 8) < 8" if "\<not> j < 8" "j < 16" using that by (auto simp: word_less_nat_alt unat_sub_if')
  moreover have "unat j < 8" if "j < 8" using that by (simp add: word_less_nat_alt)
  moreover have "unat j = 2 \<longleftrightarrow> j = 2" "(2 :: u32) < 8" by (auto simp: word_unat_eq_iff)
  ultimately show ?thesis
    unfolding irq_enabled_def m by auto
qed

text \<open>The static data as the compiler laid it out.\<close>

definition cold :: "'a sched_scheme \<Rightarrow> bool" where
  "cold s \<longleftrightarrow> task_slots s = [0, 0, 0, 0, 0, 0] \<and> tasks_running s = -1 \<and> display_terminal_id s = 0 \<and>
     bootup_flag s = 0 \<and> pit_i s = 0 \<and> screen_x s = 0 \<and> screen_y s = 0 \<and>
     terminals s = (\<lambda>_. demo_terminal) \<and> master_mask s = 0xFB \<and> slave_mask s = 0xFF"

lemma cold_kernel_ok:
  assumes "task_slots s = [0, 0, 0, 0, 0, 0]" "tasks_running s = -1" "display_terminal_id s = 0"
    "screen_x s = 0" "screen_y s = 0" "terminals s = (\<lambda>_. demo_terminal)" "boot_block s = bb" "memory s = m0"
  shows "kernel_ok m0 bb s"
proof -
  have "\<not> running s i" for i
  proof
    assume r: "running s i"
    then have "unat i < 6" using running_less [OF r] by (simp add: word_less_nat_alt)
    then show False using r assms(1) by (auto simp: running_def nth_Cons split: nat.splits)
  qed
  moreover have "cursor_at 0 0 0" by (simp add: cursor_at_def)
  ultimately show ?thesis
    using assms by (simp add: kernel_ok_def tasks_ok_def alive_def descriptors_ok_def shells_up_def
        terminals_ok_def tty_ok_def cursor_of_def demo_terminal_def TERMINAL_SIZE_def)
qed

lemma CHECK_FLAG_bit: "b < 32 \<Longrightarrow> CHECK_FLAG f b = 0 \<longleftrightarrow> \<not> bit f b"
proof -
  assume b: "b < 32"
  have "f AND push_bit b 1 = (if bit f b then push_bit b 1 else 0)"
    by (rule bit_word_eqI) (auto simp: bit_simps)
  then show ?thesis using b by (simp add: CHECK_FLAG_def)
qed

lemma flag_bits:
  fixes f :: u32
  shows "f AND 0xF = 0xF \<Longrightarrow> b < 4 \<Longrightarrow> bit f b" "f AND 0x30 \<noteq> 0x30 \<Longrightarrow> \<not> (bit f 4 \<and> bit f 5)"
proof -
  assume f: "f AND 0xF = 0xF" and b: "b < 4"
  have "(0xF :: u32) = mask 4" by (simp add: mask_eq_exp_minus_1)
  then have "bit (0xF :: u32) b" using b by (simp only: bit_mask_iff) simp
  then show "bit f b" using f bit_and_iff by metis
next
  assume f: "f AND 0x30 \<noteq> 0x30"
  have p: "(0x30 :: u32) = push_bit 4 (mask 2)" by (simp add: mask_eq_exp_minus_1)
  have b30: "bit (0x30 :: u32) n \<longleftrightarrow> n = 4 \<or> n = 5" for n unfolding p by (auto simp: bit_push_bit_iff bit_mask_iff)
  show "\<not> (bit f 4 \<and> bit f 5)"
  proof
    assume b: "bit f 4 \<and> bit f 5"
    have "f AND 0x30 = 0x30"
    proof (rule bit_word_eqI)
      fix n
      show "bit (f AND 0x30) n \<longleftrightarrow> bit (0x30 :: u32) n" unfolding bit_and_iff using b b30 [of n] by blast
    qed
    with f show False by simp
  qed
qed



text \<open>The boot image with multiboot information at 40H that names the image as the first module.\<close>

definition multiboot_image :: mem where
  "multiboot_image = shell_image(0x40 := 0x0F, 0x58 := 0x60, 0x62 := 0x10)"

definition zero_seg :: seg_desc where
  "zero_seg = \<lparr>seg_lim_15_00 = 0, base_15_00 = 0, base_23_16 = 0, seg_type = 0, seg_sys = 0, seg_dpl = 0, seg_present = 0,
     seg_lim_19_16 = 0, avail = 0, seg_reserved = 0, opsize = 0, granularity = 0, base_31_24 = 0\<rparr>"

definition demo_cold :: booted where
  "demo_cold = \<lparr>memory = multiboot_image, ports = [], int_flag = False, master_mask = 0xFB, slave_mask = 0xFF,
     virt_freq = 0, rtc_inter_count = 0, screen_x = 0, screen_y = 0, page_directory = \<lambda>_. 0,
     page_table = \<lambda>_. 0, video_page = \<lambda>_. 0, cr0 = 0x11, cr3 = 0, cr4 = 0, tlb = \<lambda>_. None,
     frames = \<lambda>_. 0, boot_block = 0, tasks_running = -1, task_slots = [0, 0, 0, 0, 0, 0],
     exception_death = 0, pcbs = (\<lambda>a. demo_pcb 0 (-1)), tss_ss0 = 0, tss_esp0 = 0,
     terminals = \<lambda>_. demo_terminal, display_terminal_id = 0, scan_state = \<lambda>_. 0,
     bootup_flag = 0, active_process = 0, pit_i = 0, idt = replicate NUM_VEC zero_desc, idtr = (0, 0),
     ldt_desc_ptr = zero_seg, tss_desc_ptr = zero_seg, tss_ldt_selector = 0, ldtr = 0, tr = 0\<rparr>"

lemma multiboot_memory:
  assumes "unat a < 0xB8000 \<or> 0x100000 \<le> unat a"
  shows "memory (clear demo_cold) a = multiboot_image a"
proof -
  have "\<not> in_video a" using assms by (auto simp: in_video_def VIDEO_def unat_sub_if')
  then show ?thesis by (simp add: clear_outside) (simp add: demo_cold_def)
qed

lemma multiboot_ok: "boot_ok (boot_links L) boot_frame (memory (clear demo_cold)) 0x100000"
proof (rule boot_ok_transfer [OF demo_boot_ok])
  show "same_image 0x100000 shell_image (memory (clear demo_cold))"
    unfolding same_image_def
  proof (intro conjI allI impI)
    fix a assume "in_image shell_image 0x100000 a"
    then have "unat (a - 0x100000) < 12288" by (simp add: in_image_def shell_image_simps)
    then have a: "0x100000 \<le> unat a" by (auto simp: unat_sub_if' split: if_splits)
    then show "memory (clear demo_cold) a = shell_image a"
      by (auto simp: multiboot_memory multiboot_image_def)
  qed (simp add: shell_image_simps)
  show "memory (clear demo_cold) (lit_shell (boot_links L) + of_nat i) = shell_image (lit_shell (boot_links L) + of_nat i)" if "i \<le> 5" for i
  proof -
    have "unat (0x10 + of_nat i :: u32) = 0x10 + i" using that by (simp add: unat_word_ariths unat_of_nat take_bit_nat_eq_self)
    then show ?thesis using that by (auto simp: multiboot_memory multiboot_image_def boot_links_def word_unat_eq_iff)
  qed
  have "message_at (memory (clear demo_cold)) 0x20 []"
    using literal_region [of 16]
    by (simp add: message_at_def string_at_eval multiboot_memory) (simp add: multiboot_image_def shell_image_def elf_image_def demo_image_def)
  then show "messages_ok (boot_links L) (memory (clear demo_cold))" by (auto simp: messages_ok_def boot_links_def)
qed


end
