(* ===== verification/User.thy ===== *)
theory User
  imports Entry
begin

section \<open>The user library (ece391support.c, ece391syscall.S)\<close>

text \<open>
  The functions of \<open>src/syscalls/ece391support.c\<close> that the programs share, over the byte
  memory, and the system call wrappers of \<open>ece391syscall.S\<close>: each loads its call's number and
  arguments into registers and raises the system call interrupt.

  A program is a state transformer on the whole machine. What the compiler and the linker
  decide about it is a parameter, \<open>program\<close>: where they put each string literal, the kernel's
  own addresses for a call from it, and the interrupts that arrive while a read of it blocks.
  Local arrays are arguments of the functions that declare them. \<open>None\<close> is a run with no result.
\<close>

subsection \<open>Strings\<close>

partial_function (option) ece391_strlen_from :: "mem \<Rightarrow> addr \<Rightarrow> u32 \<Rightarrow> u32 option" where
  "ece391_strlen_from m s len =
     (if m s \<noteq> 0 then ece391_strlen_from m (s + 1) (len + 1) else Some len)"

definition ece391_strlen :: "mem \<Rightarrow> addr \<Rightarrow> u32 option" where
  "ece391_strlen m s = ece391_strlen_from m s 0"

text \<open>The byte is stored before it is tested.\<close>

partial_function (option) ece391_strcpy :: "mem \<Rightarrow> addr \<Rightarrow> addr \<Rightarrow> mem option" where
  "ece391_strcpy m dst src =
     (let c = m src; m = m(dst := c) in
      if c \<noteq> 0 then ece391_strcpy m (dst + 1) (src + 1) else Some m)"

partial_function (option) ece391_strcmp :: "mem \<Rightarrow> addr \<Rightarrow> addr \<Rightarrow> int option" where
  "ece391_strcmp m s1 s2 =
     (if m s1 = m s2 then
        (if m s1 = 0 then Some 0 else ece391_strcmp m (s1 + 1) (s2 + 1))
      else Some (uint (m s1) - uint (m s2)))"

function ece391_strncmp_loop :: "mem \<Rightarrow> addr \<Rightarrow> addr \<Rightarrow> u32 \<Rightarrow> int" where
  "ece391_strncmp_loop m s1 s2 n =
     (if m s1 = m s2 then
        (if m s1 = 0 \<or> n - 1 = 0 then 0 else ece391_strncmp_loop m (s1 + 1) (s2 + 1) (n - 1))
      else uint (m s1) - uint (m s2))"
  by pat_completeness auto
termination
proof (relation "measure (\<lambda>(m, s1, s2, n). unat (n - 1))")
  fix m :: mem and s1 s2 n :: u32
  assume "\<not> (m s1 = 0 \<or> n - 1 = 0)"
  then have "unat (n - 1 - 1) < unat (n - 1)" by (intro measure_unat) simp
  then show "((m, s1 + 1, s2 + 1, n - 1), (m, s1, s2, n)) \<in> measure (\<lambda>(m, s1, s2, n). unat (n - 1))"
    by simp
qed simp

declare ece391_strncmp_loop.simps [simp del]

definition ece391_strncmp :: "mem \<Rightarrow> addr \<Rightarrow> addr \<Rightarrow> u32 \<Rightarrow> int" where
  "ece391_strncmp m s1 s2 n = (if 0 = n then 0 else ece391_strncmp_loop m s1 s2 n)"

text \<open>The loop of the reversal and the digit loop are those of \<open>lib.c\<close>, line for line.\<close>

definition ece391_strrev :: "mem \<Rightarrow> addr \<Rightarrow> mem option" where
  "ece391_strrev m s = do {
     n \<leftarrow> ece391_strlen m s;
     let en = sint (n - 1);
     if en \<le> 0 then Some m else Some (strrev_loop m s 0 en)
   }"

definition ece391_itoa :: "mem \<Rightarrow> u32 \<Rightarrow> addr \<Rightarrow> u32 \<Rightarrow> mem option" where
  "ece391_itoa m value buf radix =
     (if value = 0 then Some (m(buf := 0x30, buf + 1 := 0))
      else do {
        (m1, newbuf) \<leftarrow> itoa_loop m buf value radix;
        ece391_strrev (m1(newbuf := 0)) buf
      })"

declare ece391_strlen_from.simps [code] ece391_strcpy.simps [code] ece391_strcmp.simps [code]

lemma ece391_strlen_from_string:
  "string_at m s xs \<Longrightarrow> ece391_strlen_from m s k = Some (k + of_nat (length xs))"
proof (induction xs arbitrary: s k)
  case Nil
  then show ?case by (subst ece391_strlen_from.simps) (simp add: string_at_Nil)
next
  case (Cons x xs)
  show ?case
    using string_tail [OF Cons.prems] Cons.IH [of "s + 1" "k + 1"]
    by (subst ece391_strlen_from.simps) simp
qed

lemma ece391_strlen_string: "string_at m s xs \<Longrightarrow> ece391_strlen m s = Some (of_nat (length xs))"
  by (simp add: ece391_strlen_def ece391_strlen_from_string)

lemma ece391_strlen_from_SomeD: "ece391_strlen_from m s k = Some n \<Longrightarrow> \<exists>a. m a = 0"
proof (rule ece391_strlen_from.raw_induct [where P = "\<lambda>m s k n. \<exists>a. m a = 0", rotated])
  fix f m s k n
  assume "\<And>m s k n. f m s k = Some n \<Longrightarrow> \<exists>a. m a = 0"
    and "(if m s \<noteq> 0 then f m (s + 1) (k + 1) else Some k) = Some n"
  then show "\<exists>a. m a = 0" by (cases "m s = 0") auto
qed

lemma ece391_strlen_eq: "ece391_strlen m s = strlen m s"
proof (cases "\<exists>a. m a = 0")
  case True
  then obtain a where "m a = 0" by blast
  then obtain xs where "string_at m s xs" using string_at_exists by blast
  then show ?thesis by (simp add: ece391_strlen_string strlen_string)
next
  case False
  then have "strlen m s = None" using strlen_None_iff by blast
  moreover have "ece391_strlen m s = None"
    using False ece391_strlen_from_SomeD [of m s 0] by (cases "ece391_strlen m s") (auto simp: ece391_strlen_def)
  ultimately show ?thesis by simp
qed

lemma ece391_strrev_eq: "ece391_strrev m s = strrev m s"
proof -
  have "strrev_loop m s 0 e = m" if "e \<le> 0" for e
    using that by (subst strrev_loop.simps) simp
  then show ?thesis by (simp add: ece391_strrev_def strrev_def ece391_strlen_eq Let_def) (rule arg_cong2 [where f = Option.bind], auto)
qed

lemma ece391_itoa_eq: "ece391_itoa m v buf radix = itoa m v buf radix"
  by (simp add: ece391_itoa_def itoa_def ece391_strrev_eq)

text \<open>The sign of the comparison of two strings, at the first difference; a string that ends counts as 0 there.\<close>

fun spec_strcmp :: "u8 list \<Rightarrow> u8 list \<Rightarrow> int" where
  "spec_strcmp [] [] = 0"
| "spec_strcmp (x # xs) [] = uint x"
| "spec_strcmp [] (y # ys) = - uint y"
| "spec_strcmp (x # xs) (y # ys) = (if x = y then spec_strcmp xs ys else uint x - uint y)"

lemma spec_strcmp_0: "0 \<notin> set xs \<Longrightarrow> 0 \<notin> set ys \<Longrightarrow> spec_strcmp xs ys = 0 \<longleftrightarrow> xs = ys"
  by (induction xs ys rule: spec_strcmp.induct) (auto simp: word_uint_eq_iff)

lemma ece391_strcmp_string:
  "string_at m s1 xs \<Longrightarrow> string_at m s2 ys \<Longrightarrow> ece391_strcmp m s1 s2 = Some (spec_strcmp xs ys)"
proof (induction xs ys arbitrary: s1 s2 rule: spec_strcmp.induct)
  case 1
  then show ?case by (subst ece391_strcmp.simps) (simp add: string_at_Nil)
next
  case (2 x xs)
  then show ?case using string_tail [OF 2(1)] by (subst ece391_strcmp.simps) (simp add: string_at_Nil)
next
  case (3 y ys)
  then show ?case using string_tail [OF 3(2)] by (subst ece391_strcmp.simps) (simp add: string_at_Nil)
next
  case (4 x xs y ys)
  show ?case
    using string_tail [OF 4(2)] string_tail [OF 4(3)] "4.IH" by (subst ece391_strcmp.simps) auto
qed

lemma ece391_strncmp_loop_string:
  "string_at m s1 xs \<Longrightarrow> string_at m s2 ys \<Longrightarrow> 0 < unat n \<Longrightarrow>
    ece391_strncmp_loop m s1 s2 n = spec_strcmp (take (unat n) xs) (take (unat n) ys)"
proof (induction xs ys arbitrary: s1 s2 n rule: spec_strcmp.induct)
  case 1
  then show ?case by (subst ece391_strncmp_loop.simps) (simp add: string_at_Nil)
next
  case (2 x xs)
  then show ?case using string_tail [OF 2(1)]
    by (subst ece391_strncmp_loop.simps) (cases "unat n"; simp add: string_at_Nil)
next
  case (3 y ys)
  then show ?case using string_tail [OF 3(2)]
    by (subst ece391_strncmp_loop.simps) (cases "unat n"; simp add: string_at_Nil)
next
  case (4 x xs y ys)
  obtain k where k: "unat n = Suc k" using 4(4) by (cases "unat n") simp_all
  then have n: "unat (n - 1) = k" "n - 1 = 0 \<longleftrightarrow> k = 0"
    by (auto simp: unat_sub_if' unat_eq_zero [symmetric])
  show ?case
  proof (cases "x = y \<and> k \<noteq> 0")
    case True
    then show ?thesis
      using string_tail [OF 4(2)] string_tail [OF 4(3)] "4.IH" [of "s1 + 1" "s2 + 1" "n - 1"] n
      by (subst ece391_strncmp_loop.simps) (simp add: k)
  next
    case False
    then show ?thesis
      using string_tail [OF 4(2)] string_tail [OF 4(3)] n
      by (subst ece391_strncmp_loop.simps) (auto simp: k)
  qed
qed

lemma ece391_strncmp_string:
  "string_at m s1 xs \<Longrightarrow> string_at m s2 ys \<Longrightarrow>
    ece391_strncmp m s1 s2 n = spec_strcmp (take (unat n) xs) (take (unat n) ys)"
  using ece391_strncmp_loop_string [of m s1 xs s2 ys n]
  by (cases "unat n = 0") (auto simp: ece391_strncmp_def unat_eq_zero)

lemma ece391_strcpy_string:
  assumes "string_at m src xs" "\<And>i j. i < j \<Longrightarrow> j \<le> length xs \<Longrightarrow> dst + of_nat i \<noteq> src + of_nat j"
  shows "ece391_strcpy m dst src = Some (put m dst (xs @ [0]))"
  using assms
proof (induction xs arbitrary: m dst src)
  case Nil
  then show ?case by (subst ece391_strcpy.simps) (simp add: string_at_Nil)
next
  case (Cons x xs)
  let ?m = "m(dst := x)"
  note t = string_tail [OF Cons.prems(1)]
  have away: "dst \<noteq> src + 1 + of_nat i" if "i \<le> length xs" for i
    using Cons.prems(2) [of 0 "Suc i"] that by (simp add: add.assoc)
  have "string_at ?m (src + 1) xs"
    using t(3) away by (subst string_at_cong [of xs ?m "src + 1" m]) (auto simp: neq_commute)
  moreover have "dst + 1 + of_nat i \<noteq> src + 1 + of_nat j" if "i < j" "j \<le> length xs" for i j
    using Cons.prems(2) [of "Suc i" "Suc j"] that by (simp add: add.assoc)
  ultimately have "ece391_strcpy ?m (dst + 1) (src + 1) = Some (put ?m (dst + 1) (xs @ [0]))"
    by (rule Cons.IH)
  then show ?case using t(1,2) by (subst ece391_strcpy.simps) (simp add: Let_def)
qed

subsection \<open>System calls\<close>

record 'a program =
  prog_links :: links
  prog_frame :: frame
  prog_irqs :: "bool list"
  prog_handlers :: "'a tty_scheme handlers"
  prog_lit :: "string \<Rightarrow> addr"

text \<open>
  \<open>DO_CALL\<close>: EBX, ECX and EDX are the three words above the return address, so a wrapper of
  fewer arguments passes what happens to be there; the kernel does not look at it, and it is 0
  here. A call that does not come back has no result in the program.
\<close>

definition call_result :: "'s outcome option \<Rightarrow> (int \<times> 's) option" where
  "call_result out = (case out of Some (Returns r s) \<Rightarrow> Some (r, s) | _ \<Rightarrow> None)"

definition do_call :: "'a program \<Rightarrow> u32 \<Rightarrow> u32 \<Rightarrow> u32 \<Rightarrow> u32 \<Rightarrow> 'a tty_scheme \<Rightarrow> 'a tty_scheme outcome option" where
  "do_call P number ebx ecx edx s =
     syscall_dispatch (prog_links P) (prog_frame P) (prog_irqs P) (prog_handlers P) number ebx ecx edx s"

definition ece391_halt :: "'a program \<Rightarrow> int \<Rightarrow> 'a tty_scheme \<Rightarrow> 'a tty_scheme outcome option" where
  "ece391_halt P status s = do_call P 1 (word_of_int status) 0 0 s"

definition ece391_execute :: "'a program \<Rightarrow> addr \<Rightarrow> 'a tty_scheme \<Rightarrow> 'a tty_scheme outcome option" where
  "ece391_execute P command s = do_call P 2 command 0 0 s"

definition ece391_read :: "'a program \<Rightarrow> int \<Rightarrow> addr \<Rightarrow> int \<Rightarrow> 'a tty_scheme \<Rightarrow> (int \<times> 'a tty_scheme) option" where
  "ece391_read P fdn buf nbytes s = call_result (do_call P 3 (word_of_int fdn) buf (word_of_int nbytes) s)"

definition ece391_write :: "'a program \<Rightarrow> int \<Rightarrow> addr \<Rightarrow> int \<Rightarrow> 'a tty_scheme \<Rightarrow> (int \<times> 'a tty_scheme) option" where
  "ece391_write P fdn buf nbytes s = call_result (do_call P 4 (word_of_int fdn) buf (word_of_int nbytes) s)"

definition ece391_open :: "'a program \<Rightarrow> addr \<Rightarrow> 'a tty_scheme \<Rightarrow> (int \<times> 'a tty_scheme) option" where
  "ece391_open P filename s = call_result (do_call P 5 filename 0 0 s)"

definition ece391_close :: "'a program \<Rightarrow> int \<Rightarrow> 'a tty_scheme \<Rightarrow> (int \<times> 'a tty_scheme) option" where
  "ece391_close P fdn s = call_result (do_call P 6 (word_of_int fdn) 0 0 s)"

definition ece391_getargs :: "'a program \<Rightarrow> addr \<Rightarrow> int \<Rightarrow> 'a tty_scheme \<Rightarrow> (int \<times> 'a tty_scheme) option" where
  "ece391_getargs P buf nbytes s = call_result (do_call P 7 buf (word_of_int nbytes) 0 s)"

definition ece391_vidmap :: "'a program \<Rightarrow> addr \<Rightarrow> 'a tty_scheme \<Rightarrow> (int \<times> 'a tty_scheme) option" where
  "ece391_vidmap P screen_start s = call_result (do_call P 8 screen_start 0 0 s)"

definition ece391_fdputs :: "'a program \<Rightarrow> int \<Rightarrow> addr \<Rightarrow> 'a tty_scheme \<Rightarrow> 'a tty_scheme option" where
  "ece391_fdputs P fdn a s = do {
     n \<leftarrow> ece391_strlen (memory s) a;
     (_, s) \<leftarrow> ece391_write P fdn a (sint n) s;
     Some s
   }"

text \<open>The start code calls \<open>main\<close> and halts with its value.\<close>

definition program_start :: "'a program \<Rightarrow> ('a tty_scheme \<Rightarrow> (int \<times> 'a tty_scheme) option) \<Rightarrow> 'a tty_scheme \<Rightarrow>
    'a tty_scheme outcome option" where
  "program_start P main s = do { (r, s) \<leftarrow> main s; ece391_halt P r s }"

subsection \<open>A program at work\<close>

text \<open>
  While a program runs, interrupts are enabled, the kernel's tables are well-formed and the
  program's own descriptor table belongs to the running task.
\<close>

definition program_ok :: "'a tty_scheme \<Rightarrow> bool" where
  "program_ok s \<longleftrightarrow> int_flag s \<and> terminals_ok s \<and> tasks_running s < 6 \<and> fds_ok (fd_array s)"

lemma program_okI:
  "kernel_ok m0 bb s \<Longrightarrow> current_ok s \<Longrightarrow> int_flag s \<Longrightarrow> program_ok s"
  using current_fds [of m0 bb s] kernel_okD(4) [of m0 bb s] by (simp add: program_ok_def)

lemma program_okD:
  assumes "program_ok s"
  shows "sti s = s" "terminals_ok s" "tasks_running s < 6" "get_pcb (tasks_running s) \<noteq> 0"
    "length (fd_array s) = 8" "flags (fd_array s ! 0) \<noteq> 0" "fops (fd_array s ! 0) = Some Stdin_fops"
    "flags (fd_array s ! 1) \<noteq> 0" "fops (fd_array s ! 1) = Some Stdout_fops" "fds_ok (fd_array s)"
  using assms get_pcb_nonzero by (simp_all add: program_ok_def fds_ok_def sti_def)

text \<open>A string in the program's own memory.\<close>

definition in_program :: "mem \<Rightarrow> addr \<Rightarrow> u8 list \<Rightarrow> bool" where
  "in_program m a xs \<longleftrightarrow> string_at m a xs \<and> length xs < 2 ^ 31 \<and> (\<forall>i \<le> length xs. in_window (a + of_nat i))"

definition same_window :: "mem \<Rightarrow> mem \<Rightarrow> bool" where
  "same_window m m' \<longleftrightarrow> (\<forall>a. in_window a \<longrightarrow> m' a = m a)"

lemma in_program_same: "same_window m m' \<Longrightarrow> in_program m' a xs = in_program m a xs"
  unfolding in_program_def same_window_def using string_at_cong [of xs m' a m] by auto

lemma window_not_screen: "in_window a \<Longrightarrow> \<not> screen_area a"
proof
  assume w: "in_window a" and s: "screen_area a"
  define k where "k = unat (a - 0xB7F04)"
  have k: "k < 4348" "a = 0xB7F04 + of_nat k" using s by (simp_all add: k_def screen_area_def)
  then have "a - virtual_mem = 0xF80B7F04 + of_nat k" by (simp add: virtual_mem_def)
  moreover have "unat (0xF80B7F04 + of_nat k :: u32) = 0xF80B7F04 + k"
    using k(1) by (simp add: unat_word_ariths unat_of_nat take_bit_nat_eq_self)
  ultimately have "unat (a - virtual_mem) = 0xF80B7F04 + k" by (simp only:)
  then show False using w by (simp add: in_window_def fourM_def word_less_nat_alt)
qed

lemma fold_putc_same_window:
  "cursor_range n s \<Longrightarrow> same_window (memory s) (memory (fold putc xs s))"
proof (induction xs arbitrary: s)
  case (Cons x xs)
  have "memory (putc x s) a = memory s a" if "in_window a" for a
    using putc_area [OF Cons.prems] window_not_screen [OF that] by blast
  then show ?case using Cons.IH [OF putc_range [OF Cons.prems]] by (simp add: same_window_def)
qed (simp add: same_window_def)

lemma program_ok_print:
  fixes s :: "'a tty_scheme"
  assumes "program_ok s"
  shows "program_ok (fold putc xs s)" "same_window (memory s) (memory (fold putc xs s))"
    "fd_array (fold putc xs s) = fd_array s"
proof -
  note d = program_okD [OF assms]
  note so = screen_only_tty [OF screen_only_fold_putc [of s xs]]
  show "fd_array (fold putc xs s) = fd_array s" by (simp add: fd_array_def pcb_of_def so)
  moreover have "int_flag (fold putc xs s)"
    using assms screen_only_fields [OF screen_only_fold_putc [of s xs]] by (simp add: program_ok_def)
  ultimately show "program_ok (fold putc xs s)"
    using d fold_putc_terminals [OF d(2), of xs] by (simp add: program_ok_def so)
  show "same_window (memory s) (memory (fold putc xs s))"
    by (rule fold_putc_same_window [OF terminals_okD(3) [OF d(2)]])
qed

subsection \<open>The calls a running program makes\<close>

lemma call_result_returns [simp]: "call_result (returns x) = x"
  by (cases x) (auto simp: call_result_def)

lemma call_result_Returns [simp]: "call_result (Some (Returns r s)) = Some (r, s)"
  by (simp add: call_result_def)

lemma do_call_simps:
  fixes s :: "'a tty_scheme"
  assumes "program_ok s"
  shows "do_call P 3 b c d s = returns (syscall_read (prog_irqs P) (prog_handlers P) b c d s)"
    "do_call P 4 b c d s = returns (syscall_write b c d s)"
    "do_call P 5 b c d s = returns (syscall_open (prog_links P) (prog_frame P) b s)"
    "do_call P 6 b c d s = returns (syscall_close (sint b) s)"
    "do_call P 7 b c d s = returns (syscall_getargs b (sint c) s)"
    "do_call P 8 b c d s = returns (Some (syscall_vidmap (prog_links P) b s))"
    "do_call P 1 b c d s = syscall_halt (prog_links P) (prog_frame P) (ucast b) s"
    "do_call P 2 b c d s = syscall_execute (prog_links P) (prog_frame P) b s"
  using program_okD(1) [OF assms] by (simp_all add: do_call_def syscall_dispatch_def syscall_jump_def)

lemmas call_defs = ece391_read_def ece391_write_def ece391_open_def ece391_close_def ece391_getargs_def
  ece391_vidmap_def ece391_halt_def ece391_execute_def

lemma terminal_write_window:
  assumes "cursor_range 0 s" "\<And>i. i < k \<Longrightarrow> in_window (a + of_nat i)"
  shows "\<exists>j'. terminal_write_loop k a j s = (j', fold putc (load (memory s) a k) s) \<and> j \<le> j'"
  using assms
proof (induction k arbitrary: a j s)
  case 0
  then show ?case by (simp add: load_def)
next
  case (Suc k)
  let ?s = "putc (memory s a) s"
  have w: "in_window (a + 1 + of_nat i)" if "i < k" for i
    using Suc.prems(2) [of "Suc i"] that by (simp add: add.assoc)
  have "memory ?s (a + 1 + of_nat i) = memory s (a + of_nat (Suc i))" if "i < k" for i
    using putc_area [OF Suc.prems(1) window_not_screen [OF w [OF that]]] by (simp add: add.assoc)
  then have ld: "load (memory s) a (Suc k) = memory s a # load (memory ?s) (a + 1) k"
    unfolding load_def by (simp only: map_upt_Suc) simp
  let ?j = "if memory ?s a \<noteq> 0x0A then j + 1 else j"
  obtain j' where "terminal_write_loop k (a + 1) ?j ?s = (j', fold putc (load (memory ?s) (a + 1) k) ?s)" "?j \<le> j'"
    using Suc.IH [OF putc_range [OF Suc.prems(1)] w, where j = ?j] by blast
  then show ?case unfolding ld terminal_write_loop.simps Let_def by (auto split: if_splits)
qed

lemma write_screen:
  fixes s :: "'a tty_scheme"
  assumes ok: "program_ok s" and buf: "user_range buf k" and k: "k < 2 ^ 31"
  shows "\<exists>r. ece391_write P 1 buf (int k) s = Some (r, fold putc (load (memory s) buf k) s) \<and> 0 \<le> r"
proof -
  note d = program_okD [OF ok]
  have u: "unat (word_of_int (int k) :: u32) = k" using k by (simp add: unat_of_nat take_bit_nat_eq_self)
  obtain r where "terminal_write_loop k buf 0 s = (r, fold putc (load (memory s) buf k) s)" "0 \<le> r"
    using terminal_write_window [OF terminals_okD(3) [OF d(2)], of k buf 0] buf by (auto simp: user_range_def)
  then show ?thesis
    using d by (simp add: ece391_write_def do_call_simps [OF ok] syscall_write_def fops_has_write_def
        fops_write_def terminal_write_def u Let_def del: of_int_of_nat_eq)
qed

lemma load_of_string: "string_at m a xs \<Longrightarrow> load m a (length xs) = xs"
  by (rule nth_equalityI) (simp_all add: string_at_nth)

lemma fdputs_prints:
  fixes s :: "'a tty_scheme"
  assumes "program_ok s" "in_program (memory s) a xs"
  shows "ece391_fdputs P 1 a s = Some (fold putc xs s)"
proof -
  have x: "string_at (memory s) a xs" "length xs < 2 ^ 31" "user_range a (length xs)"
    using assms(2) by (simp_all add: in_program_def user_range_def)
  then obtain r where "ece391_write P 1 a (int (length xs)) s = Some (r, fold putc xs s)"
    using write_screen [OF assms(1) x(3,2)] load_of_string [OF x(1)] by auto
  then show ?thesis
    using sint_of_nat_fits [OF x(2)] by (simp add: ece391_fdputs_def ece391_strlen_string [OF x(1)])
qed

subsection \<open>The console a program sees\<close>

text \<open>
  What the programs rely on: printing a string of their own shows its characters, and leaves
  the program able to print the next one.
\<close>

primrec print_all :: "(addr \<Rightarrow> 's \<Rightarrow> 's option) \<Rightarrow> addr list \<Rightarrow> 's \<Rightarrow> 's option" where
  "print_all pr [] s = Some s"
| "print_all pr (a # as) s = do { s \<leftarrow> pr a s; print_all pr as s }"

locale console =
  fixes prints :: "addr \<Rightarrow> 's \<Rightarrow> 's option" and shows_text :: "u8 list \<Rightarrow> 's \<Rightarrow> 's"
    and ready :: "'s \<Rightarrow> bool" and holds :: "'s \<Rightarrow> addr \<Rightarrow> u8 list \<Rightarrow> bool"
  assumes prints: "ready s \<Longrightarrow> holds s a xs \<Longrightarrow> prints a s = Some (shows_text xs s)"
    and stays_ready: "ready s \<Longrightarrow> ready (shows_text xs s)"
    and still_holds: "ready s \<Longrightarrow> holds (shows_text xs s) a ys = holds s a ys"
    and shows_Nil: "shows_text [] s = s"
    and shows_append: "shows_text (xs @ ys) s = shows_text ys (shows_text xs s)"
begin

lemma print_all:
  "ready s \<Longrightarrow> list_all2 (holds s) as xss \<Longrightarrow> print_all prints as s = Some (shows_text (concat xss) s)"
proof (induction as arbitrary: s xss)
  case Nil
  then show ?case by (simp add: shows_Nil)
next
  case (Cons a as)
  obtain xs yss where xss: "xss = xs # yss" "holds s a xs" "list_all2 (holds s) as yss"
    using Cons.prems(2) by (cases xss) auto
  then have "list_all2 (holds (shows_text xs s)) as yss"
    using still_holds [OF Cons.prems(1)] by (simp add: list_all2_iff)
  then show ?case
    using Cons.IH [OF stays_ready [OF Cons.prems(1)]] prints [OF Cons.prems(1) xss(2)]
    by (simp add: xss(1) shows_append)
qed

end

interpretation screen_console: console "ece391_fdputs P 1" "fold putc" program_ok "\<lambda>s. in_program (memory s)"
  for P :: "'a program"
proof unfold_locales
  fix s :: "'a tty_scheme" and a xs ys
  assume ok: "program_ok s"
  show "ece391_fdputs P 1 a s = Some (fold putc xs s)" if "in_program (memory s) a xs"
    using fdputs_prints [OF ok that] .
  show "program_ok (fold putc xs s)" using program_ok_print(1) [OF ok] .
  show "in_program (memory (fold putc xs s)) a ys = in_program (memory s) a ys"
    using in_program_same [OF program_ok_print(2) [OF ok]] .
qed simp_all

text \<open>The literals of a program, where its image has them.\<close>

definition bytes :: "string \<Rightarrow> u8 list" where
  "bytes x = map of_char x"

definition line :: "string \<Rightarrow> string" where
  "line x = x @ [CHR 0x0A]"

definition literals_at :: "'a program \<Rightarrow> mem \<Rightarrow> string set \<Rightarrow> bool" where
  "literals_at P m X \<longleftrightarrow> (\<forall>x \<in> X. in_program m (prog_lit P x) (bytes x))"

lemma literals_same: "same_window m m' \<Longrightarrow> literals_at P m' X = literals_at P m X"
  by (simp add: literals_at_def in_program_same)

lemma bytes_append: "bytes (x @ y) = bytes x @ bytes y"
  by (simp add: bytes_def)

text \<open>\<open>says P x\<close> prints the literal \<open>x\<close>.\<close>

definition says :: "'a program \<Rightarrow> string \<Rightarrow> 'a tty_scheme \<Rightarrow> 'a tty_scheme option" where
  "says P x s = ece391_fdputs P 1 (prog_lit P x) s"

lemma says_prints:
  fixes s :: "'a tty_scheme"
  assumes "program_ok s" "literals_at P (memory s) X" "x \<in> X"
  shows "says P x s = Some (fold putc (bytes x) s)"
  using assms by (simp add: says_def literals_at_def fdputs_prints)

subsection \<open>What a run leaves alone\<close>

text \<open>
  \<open>runs buf n s t\<close>: between \<open>s\<close> and \<open>t\<close> the program has printed, read into its array of \<open>n\<close>
  bytes at \<open>buf\<close> and used descriptors; the rest of its memory, the kernel's and the file
  system image are as they were.
\<close>

definition runs :: "addr \<Rightarrow> nat \<Rightarrow> 'a tty_scheme \<Rightarrow> 'a tty_scheme \<Rightarrow> bool" where
  "runs buf n s t \<longleftrightarrow> program_ok t \<and> boot_block t = boot_block s \<and> tasks_running t = tasks_running s \<and>
     undisturbed (memory s) (memory t) \<and> (\<forall>a. in_window a \<longrightarrow> \<not> unat (a - buf) < n \<longrightarrow> memory t a = memory s a)"

lemma runs_refl: "program_ok s \<Longrightarrow> runs buf n s s"
  by (simp add: runs_def)

lemma runs_trans: "runs buf n s t \<Longrightarrow> runs buf n t u \<Longrightarrow> runs buf n s u"
  using undisturbed_trans by (auto simp: runs_def)

lemma runs_ok: "runs buf n s t \<Longrightarrow> program_ok t"
  by (simp add: runs_def)

lemma runs_print:
  fixes s :: "'a tty_scheme"
  assumes "program_ok s"
  shows "runs buf n s (fold putc xs s)"
  using program_ok_print [OF assms, of xs] calm_fold_putc [OF terminals_okD(3) [OF program_okD(2) [OF assms]], of xs]
  by (simp add: runs_def calm_def same_window_def)

lemma runs_image:
  fixes s t :: "'a tty_scheme"
  assumes "runs buf n s t" "image_apart (memory s) (boot_block s)"
  shows "image_apart (memory t) (boot_block t)" "same_image (boot_block s) (memory s) (memory t)"
  using assms image_now [of "memory s" "boot_block s" "memory t"] by (simp_all add: runs_def)

definition literals_apart :: "'a program \<Rightarrow> string set \<Rightarrow> addr \<Rightarrow> nat \<Rightarrow> bool" where
  "literals_apart P X buf n \<longleftrightarrow> (\<forall>x \<in> X. apart (prog_lit P x) (Suc (length x)) buf n)"

lemma apart_outside:
  assumes "apart a k buf n" "i < k" "n \<le> 2 ^ 32"
  shows "\<not> unat (a + of_nat i - buf) < n"
proof
  assume j: "unat (a + of_nat i - buf) < n"
  have "a + of_nat i = buf + of_nat (unat (a + of_nat i - buf))" by simp
  then show False using assms(1,2) j unfolding apart_def by blast
qed

lemma runs_string:
  fixes s t :: "'a tty_scheme"
  assumes r: "runs buf n s t" and h: "in_program (memory s) a xs" "apart a (Suc (length xs)) buf n" and n: "n \<le> 2 ^ 32"
  shows "in_program (memory t) a xs"
proof -
  have "memory t (a + of_nat i) = memory s (a + of_nat i)" if "i \<le> length xs" for i
    using h(1) apart_outside [OF h(2) _ n, of i] r that by (simp add: runs_def in_program_def)
  then show ?thesis using h(1) string_at_cong [of xs "memory t" a "memory s"] by (simp add: in_program_def)
qed

lemma runs_literals:
  fixes s t :: "'a tty_scheme"
  assumes "runs buf n s t" "literals_at P (memory s) X" "literals_apart P X buf n" "n \<le> 2 ^ 32"
  shows "literals_at P (memory t) X"
  using assms runs_string [OF assms(1) _ _ assms(4)] by (simp add: literals_at_def literals_apart_def bytes_def)

lemma says_runs:
  fixes s :: "'a tty_scheme"
  assumes "program_ok s" "literals_at P (memory s) X" "x \<in> X"
  shows "\<exists>t. says P x s = Some t \<and> runs buf n s t \<and> literals_at P (memory t) X \<and> fd_array t = fd_array s \<and>
    t = fold putc (bytes x) s"
  using says_prints [OF assms] runs_print [OF assms(1)] program_ok_print [OF assms(1), of "bytes x"]
    literals_same [of "memory s" "memory (fold putc (bytes x) s)" P X] assms(2) by blast

text \<open>The screen after printing, as the text screen of \<open>Screen\<close>.\<close>

lemma text_of_fold_putc:
  "cursor_ok s \<Longrightarrow> text_of (fold putc xs s) = fold spec_putc xs (text_of s) \<and> cursor_ok (fold putc xs s)"
  by (induction xs arbitrary: s) (simp_all add: putc_text_of cursor_ok_putc)

definition outputs :: "addr \<Rightarrow> nat \<Rightarrow> u8 list \<Rightarrow> 'a tty_scheme \<Rightarrow> 'a tty_scheme \<Rightarrow> bool" where
  "outputs buf n xs s t \<longleftrightarrow> runs buf n s t \<and> cursor_ok t \<and> text_of t = fold spec_putc xs (text_of s)"

lemma outputs_refl: "program_ok s \<Longrightarrow> cursor_ok s \<Longrightarrow> outputs buf n [] s s"
  by (simp add: outputs_def runs_refl)

lemma outputs_trans: "outputs buf n xs s t \<Longrightarrow> outputs buf n ys t u \<Longrightarrow> outputs buf n (xs @ ys) s u"
  using runs_trans by (auto simp: outputs_def)

lemma outputs_ok: "outputs buf n xs s t \<Longrightarrow> program_ok t \<and> cursor_ok t"
  by (simp add: outputs_def runs_def)

lemma outputs_print:
  fixes s :: "'a tty_scheme"
  assumes "program_ok s" "cursor_ok s"
  shows "outputs buf n xs s (fold putc xs s)"
  using runs_print [OF assms(1), of buf n xs] text_of_fold_putc [OF assms(2), of xs] by (simp add: outputs_def)

lemma says_outputs:
  fixes s :: "'a tty_scheme"
  assumes "program_ok s" "cursor_ok s" "literals_at P (memory s) X" "x \<in> X"
  shows "\<exists>t. says P x s = Some t \<and> outputs buf n (bytes x) s t \<and> literals_at P (memory t) X \<and> fd_array t = fd_array s"
  using says_runs [OF assms(1,3,4), of buf n] outputs_print [OF assms(1,2), of buf n "bytes x"] by blast

text \<open>Stores into the program's array.\<close>

lemma runs_memory:
  fixes s :: "'a tty_scheme"
  assumes ok: "program_ok s" and buf: "user_range buf n" and m: "\<And>a. \<not> unat (a - buf) < n \<Longrightarrow> m a = memory s a"
  shows "runs buf n s (s\<lparr>memory := m\<rparr>)" "cursor_ok s \<Longrightarrow> outputs buf n [] s (s\<lparr>memory := m\<rparr>)"
proof -
  have inside: "in_window a" if "unat (a - buf) < n" for a
  proof -
    have "in_window (buf + of_nat (unat (a - buf)))" using buf that unfolding user_range_def by blast
    then show ?thesis by simp
  qed
  then have out: "m a = memory s a" if "\<not> in_window a" for a using m that by blast
  have "undisturbed (memory s) m" using out scratch_cases(1) by (auto simp: undisturbed_def)
  moreover have "program_ok (s\<lparr>memory := m\<rparr>)"
    using ok terminals_ok_same [of "s\<lparr>memory := m\<rparr>" s] by (simp add: program_ok_def fd_array_def pcb_of_def)
  ultimately show r: "runs buf n s (s\<lparr>memory := m\<rparr>)" using m by (simp add: runs_def)
  have "m a = memory s a" if "in_video a" for a
    using out window_not_screen video_in_screen_area [OF that] by blast
  then have "text_of (s\<lparr>memory := m\<rparr>) = text_of s" by (rule text_of_memory)
  then show "outputs buf n [] s (s\<lparr>memory := m\<rparr>)" if "cursor_ok s"
    using r that by (simp add: outputs_def)
qed

lemma put_outside_array: "length xs \<le> n \<Longrightarrow> \<not> unat (a - buf) < n \<Longrightarrow> put m buf xs a = m a"
  by (rule put_outside) simp

lemma outputs_store:
  fixes s :: "'a tty_scheme"
  assumes "program_ok s" "cursor_ok s" "user_range buf n" "e < n" "n < 2 ^ 32"
  shows "outputs buf n [] s (s\<lparr>memory := (memory s)(buf + of_nat e := b)\<rparr>)"
  using assms by (intro runs_memory(2)) (auto simp: unat_of_nat take_bit_nat_eq_self)

lemma store_other:
  assumes "i \<noteq> e" "i < 2 ^ 32" "e < 2 ^ 32"
  shows "(m(buf + of_nat e := b)) (buf + of_nat i :: addr) = m (buf + of_nat i)"
  using assms of_nat_inj_word [of i e, where 'a = 32] by auto

lemma load_store:
  assumes "k \<le> e" "e < 2 ^ 32"
  shows "load (m(buf + of_nat e := b)) buf k = load m buf k"
  unfolding load_def using assms by (intro map_cong refl store_other) simp_all

lemma load_take: "k \<le> n \<Longrightarrow> load m a k = take k (load m a n)"
  by (simp add: load_def take_map)

text \<open>A string in an array, ended by a store behind its last byte.\<close>

lemma store_end:
  assumes l: "load m (buf + of_nat k) (length l) = l" "0 \<notin> set l" and buf: "user_range buf n" "k + length l < n" "n < 2 ^ 31"
  shows "in_program (m(buf + of_nat (k + length l) := 0)) (buf + of_nat k) l"
proof -
  have "(m(buf + of_nat (k + length l) := 0)) (buf + of_nat k + of_nat i) = l ! i" if "i < length l" for i
  proof -
    have "load m (buf + of_nat k) (length l) ! i = m (buf + of_nat (k + i))" using that by (simp add: add.assoc)
    then show ?thesis
      using that store_other [of "k + i" "k + length l" m buf 0] buf(2,3) by (simp add: l(1) add.assoc)
  qed
  moreover have "(m(buf + of_nat (k + length l) := 0)) (buf + of_nat k + of_nat (length l)) = 0" by (simp add: add.assoc)
  ultimately have "string_at (m(buf + of_nat (k + length l) := 0)) (buf + of_nat k) l"
    using l(2) buf(2,3) by (simp only: string_at_def) simp
  moreover have "in_window (buf + of_nat k + of_nat i)" if "i \<le> length l" for i
    using buf(1,2) that user_range_def [of buf n] by (metis add.assoc add_le_cancel_left le_less_trans of_nat_add)
  ultimately show ?thesis using buf(2,3) by (simp add: in_program_def)
qed

text \<open>What is shown accumulates, whatever the steps are.\<close>

locale report =
  fixes ready :: "'s \<Rightarrow> bool" and shown :: "'m list \<Rightarrow> 's \<Rightarrow> 's \<Rightarrow> bool"
  assumes shown_Nil: "ready s \<Longrightarrow> shown [] s s"
    and shown_append: "shown xs s t \<Longrightarrow> shown ys t u \<Longrightarrow> shown (xs @ ys) s u"
begin

end

subsection \<open>Descriptors\<close>

text \<open>A change of a descriptor of the running task.\<close>

lemma runs_upd_fd:
  fixes s :: "'a tty_scheme"
  assumes "program_ok s" "2 \<le> k" "flags (f (fd_array s ! k)) \<noteq> 0 \<Longrightarrow> closable (fops (f (fd_array s ! k)))"
  shows "runs buf n s (upd_fd (tasks_running s) k f s)"
    "cursor_ok s \<Longrightarrow> outputs buf n [] s (upd_fd (tasks_running s) k f s)"
proof -
  let ?t = "upd_fd (tasks_running s) k f s"
  have e: "screen_x ?t = screen_x s" "screen_y ?t = screen_y s" "int_flag ?t = int_flag s"
    "terminals ?t = terminals s" "display_terminal_id ?t = display_terminal_id s"
    by (simp_all add: upd_fd_def upd_pcb_def)
  have "fds_ok (fd_array ?t)"
    unfolding fds_of_upd_fd using assms program_okD(10) [OF assms(1)] by (intro fds_ok_update) simp_all
  then show r: "runs buf n s ?t"
    using assms(1) terminals_ok_same [of ?t s] by (simp add: runs_def program_ok_def e)
  show "outputs buf n [] s ?t" if "cursor_ok s"
    using r that grid_cong [of ?t s] by (simp add: outputs_def cursor_ok_def e text_of_def)
qed

text \<open>A program that has just been started: only the terminal is open.\<close>

definition only_std :: "'a task_scheme \<Rightarrow> bool" where
  "only_std s \<longleftrightarrow> (\<forall>k. 2 \<le> k \<and> k < 8 \<longrightarrow> flags (fd_array s ! k) = 0)"

text \<open>Calls that are refused at once.\<close>

lemma refused_calls:
  fixes s :: "'a tty_scheme"
  assumes "program_ok s"
  shows "(word_of_int fdn :: u32) > 7 \<or> (word_of_int fdn :: u32) = 1 \<or> flags (fd_array s ! unat (word_of_int fdn :: u32)) = 0 \<Longrightarrow>
      ece391_read P fdn buf n s = Some (-1, s)"
    "(word_of_int fdn :: u32) > 7 \<or> (word_of_int fdn :: u32) < 1 \<or> flags (fd_array s ! unat (word_of_int fdn :: u32)) = 0 \<Longrightarrow>
      ece391_write P fdn buf n s = Some (-1, s)"
    "sint (word_of_int fdn :: u32) > 7 \<or> sint (word_of_int fdn :: u32) < 2 \<or>
      flags (fd_array s ! nat (sint (word_of_int fdn :: u32))) = 0 \<Longrightarrow> ece391_close P fdn s = Some (-1, s)"
    "p = 0 \<or> p = 0x400000 \<Longrightarrow> ece391_vidmap P p s = Some (-1, s)"
  using program_okD(4) [OF assms]
  by (auto simp: call_defs do_call_simps [OF assms] syscall_read_def syscall_write_def syscall_close_def
      syscall_vidmap_def fourM_def Let_def)

lemma open_full:
  fixes s :: "'a tty_scheme"
  assumes "program_ok s" "a = 0 \<or> memory s a = 0 \<or> find_open_fd (fd_array s) = None"
  shows "ece391_open P a s = Some (-1, s)"
  using assms(2) program_okD(4) [OF assms(1)] by (auto simp: call_defs do_call_simps [OF assms(1)] syscall_open_def)

text \<open>Opening a name that no directory entry has.\<close>

lemma open_missing:
  fixes s :: "'a tty_scheme"
  assumes ok: "program_ok s" and name: "in_program (memory s) a xs"
    and missing: "xs = [] \<or> lookup (memory s) (boot_block s) xs = None"
  shows "\<exists>t. ece391_open P a s = Some (-1, t) \<and> runs buf n s t \<and> (cursor_ok s \<longrightarrow> outputs buf n [] s t) \<and>
    memory t = memory s \<and> (\<forall>k. 2 \<le> k \<and> k < 8 \<longrightarrow> flags (fd_array t ! k) = flags (fd_array s ! k))"
proof -
  note d = program_okD [OF ok]
  have str: "string_at (memory s) a xs" "length xs < 2 ^ 31" using name by (simp_all add: in_program_def)
  let ?L = "prog_links P"
  show ?thesis
  proof (cases "a = 0 \<or> xs = [] \<or> find_open_fd (fd_array s) = None")
    case True
    have "memory s a = 0" if "xs = []" using that str(1) by (simp add: string_at_Nil)
    then have "ece391_open P a s = Some (-1, s)"
      using True by (intro open_full [OF ok]) auto
    then show ?thesis using runs_refl [OF ok] outputs_refl [OF ok] by blast
  next
    case False
    then obtain k where k: "find_open_fd (fd_array s) = Some k" by blast
    have k2: "2 \<le> k" "k < 8" "flags (fd_array s ! k) = 0" using fd_table.search_Some [OF d(5), of k] k by simp_all
    define t where "t = (if strncmp (memory s) (lit_stdin ?L) a 6 = 0 then set_fops k Stdin_fops s
        else if strncmp (memory s) (lit_stdout ?L) a 7 = 0 then set_fops k Stdout_fops s else s)"
    have first: "memory s a \<noteq> 0" using False string_at_nonzero [OF str(1), of 0] by simp
    have m: "memory t = memory s" "boot_block t = boot_block s" by (simp_all add: t_def)
    have "read_dentry_by_name (memory s) (boot_block s) a (Some x) = Some (-1, Some x)" for x
      using read_dentry_by_name_lookup [OF str] missing False by simp
    then have "ece391_open P a s = Some (-1, t)"
      using False first d(4) k by (simp add: call_defs do_call_simps [OF ok] syscall_open_def t_def [symmetric] m)
    moreover have "runs buf n s (set_fops k T s)" "cursor_ok s \<longrightarrow> outputs buf n [] s (set_fops k T s)" for T
      using runs_upd_fd [OF ok k2(1), of "\<lambda>f. f\<lparr>fops := Some T\<rparr>"] k2(3) by (simp_all add: set_fops_def)
    then have "runs buf n s t" "cursor_ok s \<longrightarrow> outputs buf n [] s t"
      using runs_refl [OF ok] outputs_refl [OF ok] by (simp_all add: t_def)
    moreover have "flags (fd_array t ! j) = flags (fd_array s ! j)" if "j < 8" for j
      using that k2 d(5) by (simp add: t_def set_fops_def fds_of_upd_fd nth_list_update)
    ultimately show ?thesis using m(1) by blast
  qed
qed

text \<open>Opening one that is there.\<close>

lemma open_found:
  fixes s :: "'a tty_scheme"
  assumes ok: "program_ok s" and name: "in_program (memory s) a xs" "a \<noteq> 0" "xs \<noteq> []" "length xs \<le> 32"
    and k: "find_open_fd (fd_array s) = Some k" and i: "lookup (memory s) (boot_block s) xs = Some i"
    and d: "d = dentry_at (memory s) (entry_addr (boot_block s) (of_nat i))" "d_type d \<in> {1, 2}"
  shows "\<exists>t. ece391_open P a s = Some (int k, t) \<and> runs buf n s t \<and> (cursor_ok s \<longrightarrow> outputs buf n [] s t) \<and>
    memory t = memory s \<and> 2 \<le> k \<and> k < 8 \<and>
    fd_array t = (fd_array s)[k := opened_fd (type_fops (d_type d)) (d_inode d) (fd_array s ! k)]"
proof -
  note o = program_okD [OF ok]
  have k2: "2 \<le> k" "k < 8" using fd_table.search_Some [OF o(5), of k] k by simp_all
  define t where "t = upd_fd (tasks_running s) k (opened_fd (type_fops (d_type d)) (d_inode d)) s"
  have "d_type d \<in> {0, 1, 2}" "d_type d \<noteq> 0" using d(2) by auto
  then have "ece391_open P a s = Some (int k, t)"
    using syscall_open_found [OF o(3,5) name(2) _ name(3,4) k i d(1), of "prog_links P" "prog_frame P"] name(1)
    by (simp add: call_defs do_call_simps [OF ok] t_def in_program_def)
  moreover have "closable (Some (type_fops (d_type d)))" by (simp add: closable_def type_fops_def)
  then have "runs buf n s t" "cursor_ok s \<longrightarrow> outputs buf n [] s t"
    using runs_upd_fd [OF ok k2(1), of "opened_fd (type_fops (d_type d)) (d_inode d)"]
    by (simp_all add: t_def opened_fd_def)
  ultimately show ?thesis using k2 by (intro exI [of _ t]) (simp add: t_def fds_of_upd_fd)
qed

subsection \<open>Reading a line from the keyboard\<close>

text \<open>A completed line waits in the buffer of the displayed terminal.\<close>

definition line_waits :: "u8 list \<Rightarrow> 'a tty_scheme \<Rightarrow> bool" where
  "line_waits l s \<longleftrightarrow> line_ok (displayed s) \<and> allow_terminal_read (displayed s) \<noteq> 0 \<and>
     takeWhile (\<lambda>c. c \<noteq> 0) (keyboard_buffer (displayed s)) = l"

lemma line_waits_length: "line_waits l s \<Longrightarrow> length l < 128"
  using line_takeWhile(2) [of "displayed s"] by (auto simp: line_waits_def line_ok_def)

lemma line_waits_print:
  fixes s :: "'a tty_scheme"
  shows "line_waits l (fold putc xs s) = line_waits l s"
  using screen_only_tty [OF screen_only_fold_putc [of s xs]] by (simp add: line_waits_def displayed_def)

lemma terminal_read_screen:
  fixes s :: "'a tty_scheme"
  assumes tok: "terminals_ok s" and buf: "user_range buf (unat n)" and ready: "allow_terminal_read (displayed s) \<noteq> 0"
    and rd: "terminal_read hs buf n s = Some (r, t, hs')"
  shows "screen_x t = screen_x s" "screen_y t = screen_y s"
proof -
  have c: "displayed (cli s) = displayed s" "screen_x (cli s) = screen_x s" "screen_y (cli s) = screen_y s"
    by (simp_all add: displayed_def cli_def)
  obtain k u where "terminal_copy 0 buf n 0 (cli s) = Some (k, u)" "screen_x u = screen_x s" "screen_y u = screen_y s"
    using terminal_copy_ok [of 0 buf n "cli s" 0] buf terminals_okD(1) [OF tok] by (auto simp: c)
  then show "screen_x t = screen_x s" "screen_y t = screen_y s"
    using rd by (auto simp: terminal_read_def terminal_spin_ready [OF ready] upd_displayed_def sti_def)
qed

lemma read_line:
  fixes s :: "'a tty_scheme"
  assumes ok: "program_ok s" "cursor_ok s" and l: "line_waits l s" and buf: "user_range buf n" "length l < n" "n < 2 ^ 31"
  shows "\<exists>t. ece391_read P 0 buf (int n) s = Some (int (length l), t) \<and> outputs buf n [] s t \<and>
    load (memory t) buf (length l) = l \<and> fd_array t = fd_array s"
proof -
  note d = program_okD [OF ok(1)]
  let ?B = "keyboard_buffer (displayed s)" and ?w = "word_of_int (int n) :: u32"
  have w: "unat ?w = n" using buf(3) by (simp add: unat_of_nat take_bit_nat_eq_self)
  have wait: "line_ok (displayed s)" "allow_terminal_read (displayed s) \<noteq> 0" "takeWhile (\<lambda>c. c \<noteq> 0) ?B = l"
    using l by (simp_all add: line_waits_def)
  let ?k = "min n (Suc (length l))"
  obtain t where t: "terminal_read (prog_handlers P) buf ?w s = Some (int (length l), t, prog_handlers P)"
    "memory t = put (memory s) buf (take ?k ?B)" "int_flag t"
    using terminal_read_spec [OF wait(1,2), of "prog_handlers P" buf ?w] buf(2) unfolding w wait(3) by auto
  have ub: "user_range buf (unat ?w)" using buf(1) w by simp
  obtain k u where u: "terminal_read (prog_handlers P) buf ?w s = Some (k, u, prog_handlers P)" "terminals_ok u" "calm s u"
    using terminal_read_ok [OF d(2) ub wait(2), of "prog_handlers P"] by blast
  then have "u = t" using t(1) by simp
  then have c: "terminals_ok t" "calm s t" using u by simp_all
  have fds: "fd_array t = fd_array s" using c(2) by (simp add: fd_array_def pcb_of_def calm_def)
  have sc: "screen_x t = screen_x s" "screen_y t = screen_y s"
    using terminal_read_screen [OF d(2) ub wait(2) t(1)] by simp_all
  have len: "length (take ?k ?B) \<le> n" by simp
  have out: "memory t a = memory s a" if "\<not> unat (a - buf) < n" for a
    using put_outside_array [OF len that] t(2) by simp
  have "runs buf n s t"
    using c t(3) d(3,10) fds out by (simp add: runs_def program_ok_def calm_def)
  moreover have "text_of t = text_of s"
  proof -
    have "memory t a = memory s a" if "in_video a" for a
    proof (rule out, rule notI)
      assume "unat (a - buf) < n"
      then have "in_window (buf + of_nat (unat (a - buf)))" using buf(1) unfolding user_range_def by blast
      then show False using window_not_screen video_in_screen_area [OF that] by simp
    qed
    then have "text_of (s\<lparr>memory := memory t\<rparr>) = text_of s" by (rule text_of_memory)
    moreover have "grid t = grid (s\<lparr>memory := memory t\<rparr>)" by (rule grid_cong) simp
    ultimately show ?thesis using sc by (simp add: text_of_def)
  qed
  moreover have "cursor_ok t" using ok(2) sc by (simp add: cursor_ok_def)
  ultimately have "outputs buf n [] s t" by (simp add: outputs_def)
  moreover have "load (memory t) buf (length l) = l"
  proof (rule nth_equalityI)
    fix i assume "i < length (load (memory t) buf (length l))"
    then have i: "i < length l" by simp
    have "length l \<le> length ?B" using length_takeWhile_le [of "\<lambda>c. c \<noteq> 0" ?B] wait(3) by simp
    then have "load (memory t) buf (length l) ! i = ?B ! i"
      using i buf(2,3) by (simp add: t(2) put_inside)
    also have "\<dots> = l ! i" using i takeWhile_nth [of i "\<lambda>c. c \<noteq> 0" ?B] wait(3) by simp
    finally show "load (memory t) buf (length l) ! i = l ! i" .
  qed simp
  moreover have "ece391_read P 0 buf (int n) s = Some (int (length l), t)"
    using t(1) d by (simp add: call_defs do_call_simps [OF ok(1)] syscall_read_def fops_has_read_def fops_read_def Let_def)
  ultimately show ?thesis using fds by blast
qed

subsection \<open>Properties of the library\<close>

lemma spec_strcmp_neg: "0 \<notin> set ys \<Longrightarrow> spec_strcmp xs ys < 0 \<longleftrightarrow> (xs, ys) \<in> lexord {(a, b). a < b}"
proof (induction xs ys rule: spec_strcmp.induct)
  case (3 y ys)
  then show ?case using uint_ge_0 [of y] by (auto simp: word_uint_eq_iff less_le)
next
  case (4 x xs y ys)
  then show ?case by (auto simp: word_less_def)
qed simp_all

text \<open>The programs' string functions agree with the strings in memory: \<open>strlen\<close> is the length,
  \<open>strcmp\<close> returns with 0 exactly for equal strings and is negative exactly when the first
  comes before the second in the order of unsigned bytes, \<open>strncmp\<close> is 0 exactly when the
  first \<open>n\<close> bytes of both strings agree, and \<open>strcpy\<close> to a place that overlaps nothing it has
  yet to read copies the string and its NUL.\<close>
theorem user_strings_correct:
  assumes "string_at m s1 xs" "string_at m s2 ys"
    and "\<And>i j. i < j \<Longrightarrow> j \<le> length xs \<Longrightarrow> dst + of_nat i \<noteq> s1 + of_nat j"
  shows "ece391_strlen m s1 = Some (of_nat (length xs)) \<and>
    (\<exists>r. ece391_strcmp m s1 s2 = Some r \<and> (r = 0 \<longleftrightarrow> xs = ys) \<and> (r < 0 \<longleftrightarrow> (xs, ys) \<in> lexord {(a, b). a < b})) \<and>
    (ece391_strncmp m s1 s2 n = 0 \<longleftrightarrow> take (unat n) xs = take (unat n) ys) \<and>
    ece391_strcpy m dst s1 = Some (put m dst (xs @ [0]))"
proof -
  have nz: "0 \<notin> set xs" "0 \<notin> set ys" using assms by (simp_all add: string_at_def)
  then have "0 \<notin> set (take k xs)" "0 \<notin> set (take k ys)" for k by (auto dest: in_set_takeD)
  then have "ece391_strncmp m s1 s2 n = 0 \<longleftrightarrow> take (unat n) xs = take (unat n) ys"
    by (simp add: ece391_strncmp_string [OF assms(1,2)] spec_strcmp_0)
  moreover have "ece391_strcmp m s1 s2 = Some (spec_strcmp xs ys)"
    by (rule ece391_strcmp_string [OF assms(1,2)])
  ultimately show ?thesis
    using ece391_strlen_string [OF assms(1)] ece391_strcpy_string [OF assms(1,3)] spec_strcmp_0 [OF nz]
      spec_strcmp_neg [OF nz(2), of xs] by simp
qed

lemma user_strings_correct_witness:
  "(\<exists>r. ece391_strcmp ((\<lambda>_. 0)(0x1000 := 0x61, 0x2000 := 0x61, 0x2001 := 0xE9)) 0x1000 0x2000 = Some r \<and> r < 0) \<and>
   ece391_strncmp ((\<lambda>_. 0)(0x1000 := 0x61, 0x2000 := 0x61, 0x2001 := 0xE9)) 0x1000 0x2000 1 = 0"
proof -
  let ?m = "(\<lambda>_. 0)(0x1000 := 0x61, 0x2000 := 0x61, 0x2001 := 0xE9) :: mem"
  have s: "string_at ?m 0x1000 [0x61]" "string_at ?m 0x2000 [0x61, 0xE9]" by (simp_all add: string_at_eval)
  have "(0x3000 :: addr) + of_nat i \<noteq> 0x1000 + of_nat j" if "i < j" "j \<le> length [0x61 :: u8]" for i j
    using that by (simp add: le_Suc_eq)
  from user_strings_correct [OF s this, of 1] show ?thesis by auto
qed

text \<open>What the programs carry as their own copy of the kernel's conversions computes the same:
  length, reversal and number conversion give the same memory as those of \<open>lib.c\<close>, on every
  input and also where they do not return, although the programs' reversal leaves early on
  strings of one byte.\<close>
theorem user_conversions_as_kernel:
  "ece391_strlen m s = strlen m s \<and> ece391_strrev m s = strrev m s \<and>
   ece391_itoa m value buf radix = itoa m value buf radix"
  by (simp only: ece391_strlen_eq ece391_strrev_eq ece391_itoa_eq)

end
