(* ===== verification/Sample.thy ===== *)
theory Sample
  imports User
begin

section \<open>A concrete program\<close>

text \<open>
  The instances of the theorems about programs: a linker that puts the literals of a program
  one after the other into its image, a disk with a program and the directory itself, and a
  machine on which a program has just been started with a line typed at its terminal.
\<close>

definition literal_image :: "string list \<Rightarrow> u8 list" where
  "literal_image X = concat (map (\<lambda>x. bytes x @ [0]) X)"

primrec literal_offset :: "string list \<Rightarrow> string \<Rightarrow> nat" where
  "literal_offset [] x = 0"
| "literal_offset (y # ys) x = (if x = y then 0 else Suc (length y) + literal_offset ys x)"

lemma literal_offset_nth:
  "x \<in> set X \<Longrightarrow> literal_offset X x + length x < length (literal_image X) \<and>
    (\<forall>i < length x. literal_image X ! (literal_offset X x + i) = bytes x ! i) \<and>
    literal_image X ! (literal_offset X x + length x) = 0"
proof (induction X)
  case (Cons y ys)
  have b: "length (bytes y) = length y" for y by (simp add: bytes_def)
  show ?case
  proof (cases "x = y")
    case True
    then show ?thesis by (simp add: literal_image_def nth_append b)
  next
    case False
    then have "x \<in> set ys" using Cons.prems by simp
    from Cons.IH [OF this] False show ?thesis by (simp add: literal_image_def nth_append b)
  qed
qed simp

definition sample_program :: "string list \<Rightarrow> unit program" where
  "sample_program X = \<lparr>prog_links = demo_links, prog_frame = demo_frame, prog_irqs = [], prog_handlers = [],
     prog_lit = \<lambda>x. 0x8048000 + of_nat (literal_offset X x)\<rparr>"

definition plain_text :: "string list \<Rightarrow> bool" where
  "plain_text X \<longleftrightarrow> (\<forall>x \<in> set X. 0 \<notin> set (bytes x)) \<and> length (literal_image X) < 0x100000"

lemma window_offset: "k < 0x3B8000 \<Longrightarrow> in_window (0x8048000 + of_nat k)"
proof -
  assume k: "k < 0x3B8000"
  have d: "0x8048000 + of_nat k - virtual_mem = of_nat (0x48000 + k)" by (simp add: virtual_mem_def)
  have "unat (of_nat (0x48000 + k) :: u32) = 0x48000 + k"
    using k by (simp only: unat_of_nat) (simp add: take_bit_nat_eq_self)
  then show ?thesis using k unfolding in_window_def d fourM_def word_less_nat_alt by (simp only:) simp
qed

lemma sample_literals:
  assumes "plain_text X" "Y \<subseteq> set X"
  shows "literals_at (sample_program X) (put m 0x8048000 (literal_image X)) Y"
    "n \<le> 0x100000 \<Longrightarrow> literals_apart (sample_program X) Y 0x8200000 n"
proof -
  let ?m = "put m 0x8048000 (literal_image X)"
  have len: "length (literal_image X) < 0x100000" using assms(1) by (simp add: plain_text_def)
  have at: "?m (0x8048000 + of_nat k) = literal_image X ! k" if "k < length (literal_image X)" for k
    using that len by (intro put_inside) simp_all
  have "in_program ?m (prog_lit (sample_program X) x) (bytes x)" if x: "x \<in> Y" for x
  proof -
    let ?o = "literal_offset X x"
    have o: "?o + length x < length (literal_image X)"
      "\<forall>i < length x. literal_image X ! (?o + i) = bytes x ! i" "literal_image X ! (?o + length x) = 0"
      using literal_offset_nth [of x X] x assms(2) by auto
    have b: "length (bytes x) = length x" by (simp add: bytes_def)
    have "?m (0x8048000 + of_nat ?o + of_nat i) = literal_image X ! (?o + i)" if "i \<le> length x" for i
      using at [of "?o + i"] that o(1) by (simp add: add.assoc)
    moreover have "0 \<notin> set (bytes x)" using assms x by (auto simp: plain_text_def)
    ultimately have "string_at ?m (0x8048000 + of_nat ?o) (bytes x)"
      using o len by (simp add: string_at_def b)
    moreover have "in_window (0x8048000 + of_nat ?o + of_nat i)" if "i \<le> length x" for i
      using window_offset [of "?o + i"] that o(1) len by (simp add: add.assoc)
    ultimately show ?thesis using o(1) len by (simp add: in_program_def sample_program_def b)
  qed
  then show "literals_at (sample_program X) ?m Y" by (simp add: literals_at_def)
  assume n: "n \<le> 0x100000"
  have "apart (prog_lit (sample_program X) x) (Suc (length x)) 0x8200000 n" if x: "x \<in> Y" for x
  proof (rule apart_literal)
    have o: "literal_offset X x + length x < length (literal_image X)"
      using literal_offset_nth [of x X] x assms(2) by auto
    have "unat (0x8048000 + of_nat (literal_offset X x) :: u32) = 0x8048000 + literal_offset X x"
      using o len by (simp add: unat_word_ariths unat_of_nat take_bit_nat_eq_self)
    then show "unat (prog_lit (sample_program X) x) + Suc (length x) \<le> unat (0x8200000 :: addr)"
      using o len by (simp add: sample_program_def)
    show "unat (0x8200000 :: addr) + n < 4294967296" using n by simp
  qed
  then show "literals_apart (sample_program X) Y 0x8200000 n" by (simp add: literals_apart_def)
qed

text \<open>The disk: a program, and the directory as its second entry.\<close>

definition sample_disk :: mem where
  "sample_disk = shell_image(0x100080 := 0x2E, 0x1000A0 := 1)"

definition sample_memory :: "string list \<Rightarrow> mem" where
  "sample_memory X = put sample_disk 0x8048000 (literal_image X)"

definition sample_state :: "string list \<Rightarrow> u8 list \<Rightarrow> tty" where
  "sample_state X l = demo_tty\<lparr>memory := sample_memory X, tasks_running := 3,
     pcbs := (\<lambda>a. (demo_pcb 3 0)\<lparr>fd := std_fds\<rparr>),
     terminals := (\<lambda>i. demo_terminal\<lparr>keyboard_buffer := l @ replicate (128 - length l) 0,
       keyboard_buffer_size := int (length l), allow_terminal_read := 1\<rparr>)\<rparr>"

lemma sample_state_simps [simp]:
  "memory (sample_state X l) = sample_memory X" "boot_block (sample_state X l) = 0x100000"
  "fd_array (sample_state X l) = std_fds" "tasks_running (sample_state X l) = 3" "int_flag (sample_state X l)"
  by (simp_all add: sample_state_def demo_tty_def fd_array_def pcb_of_def)

lemma sample_ok:
  assumes "length l \<le> 126" "0 \<notin> set l"
  shows "program_ok (sample_state X l)" "cursor_ok (sample_state X l)" "line_waits l (sample_state X l)"
    "only_std (sample_state X l)"
proof -
  have t: "terminals_ok (sample_state X l)"
    using assms(1) by (simp add: sample_state_def demo_tty_def terminals_ok_def tty_ok_def cursor_of_def cursor_at_def
        demo_terminal_def nth_append TERMINAL_SIZE_def)
  show "program_ok (sample_state X l)" using t std_fds_ok by (simp add: program_ok_def)
  show "cursor_ok (sample_state X l)" by (simp add: sample_state_def demo_tty_def cursor_ok_def screen_consts)
  have "takeWhile (\<lambda>c. c \<noteq> 0) (l @ replicate (128 - length l) 0) = l"
    using assms by (subst takeWhile_append2) auto
  then show "line_waits l (sample_state X l)"
    using assms by (simp add: line_waits_def sample_state_def demo_tty_def displayed_def demo_terminal_def line_ok_def nth_append)
  show "only_std (sample_state X l)"
    by (auto simp: only_std_def std_fds_def empty_fd_def nth_Cons less_Suc_eq split: nat.splits)
qed

lemma sample_disk_simps:
  "boot_inodes sample_disk 0x100000 = 1" "boot_data_blocks sample_disk 0x100000 = 1"
  "file_size sample_disk 0x100000 0 = 5" "image_size sample_disk 0x100000 = 12288"
  by (simp_all add: boot_inodes_def boot_data_blocks_def file_size_def image_size_def
      inode_length_def inode_addr_def rd32_def sample_disk_def shell_image_def elf_image_def demo_image_def)

lemma sample_disk_high: "k < 4294967296 \<Longrightarrow> 0x100100 \<le> k \<Longrightarrow> sample_disk (of_nat k) = shell_image (of_nat k)"
proof -
  assume k: "k < 4294967296" "0x100100 \<le> k"
  then have "unat (of_nat k :: u32) = k" by (simp add: unat_of_nat take_bit_nat_eq_self)
  then show ?thesis using k(2) by (auto simp: sample_disk_def)
qed

lemma sample_disk_block:
  assumes "i < 1023"
  shows "inode_block sample_disk (inode_addr 0x100000 0) (of_nat i) = 0"
proof -
  have "sample_disk (0x101000 + of_nat (4 + 4 * i + j)) = shell_image (0x101000 + of_nat (4 + 4 * i + j))" if "j < 4" for j
    using sample_disk_high [of "0x101000 + (4 + 4 * i + j)"] assms that by (simp add: add.assoc)
  from this [of 0] this [of 1] this [of 2] this [of 3]
  have "inode_block sample_disk (inode_addr 0x100000 0) (of_nat i) = inode_block shell_image (inode_addr 0x100000 0) (of_nat i)"
    by (simp add: inode_block_def inode_addr_def rd32_def add.assoc)
  then show ?thesis using shell_image_block [OF assms] by simp
qed

text \<open>Its directory: the entries behind the second are empty.\<close>

lemma sample_empty:
  assumes "2 \<le> i" "i < 63" "j < 64"
  shows "sample_disk (0x100040 + 64 * of_nat i + of_nat j) = 0"
proof -
  have "unat (0x100040 + 64 * of_nat i + of_nat j :: u32) = 0x100040 + 64 * i + j"
    using assms by (simp add: unat_word_ariths unat_of_nat take_bit_nat_eq_self)
  then show ?thesis
    using assms by (auto simp: sample_disk_def shell_image_def elf_image_def demo_image_def word_unat_eq_iff)
qed

lemma sample_entry_name:
  assumes "i < 63"
  shows "entry_name sample_disk 0x100000 i = (if i = 0 then shell_name else if i = 1 then [0x2E] else [])"
proof -
  consider "i = 0" | "i = 1" | "2 \<le> i" by linarith
  then show ?thesis
  proof cases
    case 1
    then show ?thesis unfolding entry_name_def entry_addr_def
      by (subst takeWhile_load [of _ _ shell_name])
        (simp_all add: string_at_eval shell_name_def sample_disk_def shell_image_def elf_image_def demo_image_def)
  next
    case 2
    then show ?thesis unfolding entry_name_def entry_addr_def
      by (subst takeWhile_load [of _ _ "[0x2E]"])
        (simp_all add: string_at_eval sample_disk_def shell_image_def elf_image_def demo_image_def)
  next
    case 3
    then have "sample_disk (entry_addr 0x100000 (of_nat i)) = 0"
      using sample_empty [OF 3 assms, of 0] by (simp add: entry_addr_def add.assoc)
    then show ?thesis using 3 unfolding entry_name_def
      by (subst takeWhile_load [of _ _ "[]"]) (simp_all add: string_at_Nil)
  qed
qed

lemma sample_lookup:
  "lookup sample_disk 0x100000 xs = (if xs = shell_name then Some 0 else if xs = [0x2E] then Some 1 else if xs = [] then Some 2 else None)"
proof -
  have f: "List.find (\<lambda>i. entry_name sample_disk 0x100000 i = xs) [n..<63] = None" if "2 \<le> n" "xs \<noteq> []" for n
    using that by (auto simp: find_None_iff sample_entry_name)
  have u: "[0..<63] = 0 # 1 # 2 # [3..<63]" by (simp add: upt_conv_Cons numeral_eq_Suc)
  show ?thesis unfolding lookup_def u using f [of 3] by (auto simp: sample_entry_name shell_name_def)
qed

lemma sample_types:
  "i < 63 \<Longrightarrow> d_type (dentry_at sample_disk (entry_addr 0x100000 (of_nat i))) = (if i = 0 then 2 else if i = 1 then 1 else 0)"
proof -
  assume i: "i < 63"
  consider "i = 0" | "i = 1" | "2 \<le> i" by linarith
  then show ?thesis
  proof cases
    case 3
    have "sample_disk (0x100060 + (64 * of_nat i + of_nat j)) = 0" if "j < 4" for j
    proof -
      have e: "0x100060 + (64 * of_nat i + of_nat j) = (0x100040 + 64 * of_nat i + of_nat (32 + j) :: u32)" by simp
      show ?thesis unfolding e by (rule sample_empty [OF 3 i]) (use that in simp)
    qed
    from this [of 0] this [of 1] this [of 2] this [of 3]
    show ?thesis using 3 by (simp add: entry_addr_def dentry_at_def rd32_def ac_simps)
  qed (simp_all add: entry_addr_def dentry_at_def rd32_def sample_disk_def shell_image_def elf_image_def demo_image_def)
qed

lemma sample_disk_ok: "image_apart sample_disk 0x100000"
proof -
  have "\<not> in_image sample_disk 0x100000 a" if "scratch a" for a
    using scratch_off_image [OF that] by (simp add: in_image_def sample_disk_simps shell_image_simps)
  moreover have "inode < 1 \<Longrightarrow> inode = 0" for inode :: u32 by (simp add: word_less_nat_alt unat_eq_0)
  ultimately show ?thesis
    by (auto simp: image_apart_def image_ok_def sample_disk_simps sample_disk_block sample_types)
qed

lemma sample_same_image:
  assumes "plain_text X"
  shows "same_image 0x100000 sample_disk (sample_memory X)"
proof -
  have len: "length (literal_image X) < 0x100000" using assms by (simp add: plain_text_def)
  have "sample_memory X a = sample_disk a" if "in_image sample_disk 0x100000 a" for a
    unfolding sample_memory_def
  proof (rule put_outside, rule ccontr)
    assume n: "\<not> length (literal_image X) \<le> unat (a - 0x8048000)"
    have "in_window (0x8048000 + of_nat (unat (a - 0x8048000)))" using n len by (intro window_offset) simp
    then have "in_window a" by simp
    then show False using that sample_disk_ok scratch_cases(1) [of a] by (auto simp: image_apart_def)
  qed
  then show ?thesis by (simp add: same_image_def sample_disk_simps)
qed

lemma sample_image:
  assumes "plain_text X"
  shows "image_apart (sample_memory X) 0x100000" "lookup (sample_memory X) 0x100000 xs = lookup sample_disk 0x100000 xs"
    "i < 63 \<Longrightarrow> dentry_at (sample_memory X) (entry_addr 0x100000 (of_nat i)) = dentry_at sample_disk (entry_addr 0x100000 (of_nat i))"
    "i < 63 \<Longrightarrow> entry_name (sample_memory X) 0x100000 i = entry_name sample_disk 0x100000 i"
  using same_image_apart [OF sample_disk_ok] same_image_lookup same_image_entry(2,3) sample_same_image [OF assms] by blast+

lemma sample_buffer: "k \<le> 0x100000 \<Longrightarrow> user_range 0x8200000 k"
proof -
  assume k: "k \<le> 0x100000"
  have "in_window (0x8200000 + of_nat i)" if "i < k" for i
    using window_offset [of "0x1B8000 + i"] that k by simp
  then show ?thesis by (simp add: user_range_def)
qed

end
