(* ===== verification/Syserr.thy ===== *)
theory Syserr
  imports Sample
begin

section \<open>The error tests (ece391syserr.c)\<close>

text \<open>
  \<open>src/syscalls/ece391syserr.c\<close> is the program that tests how the system calls refuse what they
  must refuse. Its eight tests and its menu are modelled call by call; the array \<open>buf\<close> of each
  function is an argument. The theorem is that a freshly started run of it passes.
\<close>

definition NEG_FD :: int where "NEG_FD = -1073741823"
definition BIG_FD :: int where "BIG_FD = 1073741823"
definition BIG_NUM :: int where "BIG_NUM = 1073741823"
definition NEG_NUM :: int where "NEG_NUM = -1073741823"

lemmas syserr_consts = NEG_FD_def BIG_FD_def BIG_NUM_def NEG_NUM_def

definition call_sys :: "'a program \<Rightarrow> int \<Rightarrow> 'a tty_scheme \<Rightarrow> (int \<times> 'a tty_scheme) option" where
  "call_sys P num s = call_result (do_call P (word_of_int num) 0 0 0 s)"

text \<open>
  One test of a call: \<open>if (-1 != call) { fail = 2; print the message }\<close>; and the two lines at the
  end of every function.
\<close>

definition must_fail :: "'a program \<Rightarrow> string \<Rightarrow> (int \<times> 'a tty_scheme) option \<Rightarrow> int \<Rightarrow> (int \<times> 'a tty_scheme) option" where
  "must_fail P msg outcome fail = do {
     (r, s) \<leftarrow> outcome;
     if r \<noteq> -1 then do { s \<leftarrow> says P msg s; Some (2, s) } else Some (fail, s)
   }"

definition verdict :: "'a program \<Rightarrow> string \<Rightarrow> int \<Rightarrow> 'a tty_scheme \<Rightarrow> (int \<times> 'a tty_scheme) option" where
  "verdict P name fail s = do {
     s \<leftarrow> (if fail \<noteq> 0 then says P (line (name @ '': FAIL'')) s else says P (line (name @ '': PASS'')) s);
     Some (fail, s)
   }"

definition err_neg_fd :: "'a program \<Rightarrow> addr \<Rightarrow> 'a tty_scheme \<Rightarrow> (int \<times> 'a tty_scheme) option" where
  "err_neg_fd P buf s = do {
     (fail, s) \<leftarrow> must_fail P (line ''read fail'') (ece391_read P NEG_FD buf 31 s) 0;
     (fail, s) \<leftarrow> must_fail P (line ''write fail'') (ece391_write P NEG_FD buf 31 s) fail;
     (fail, s) \<leftarrow> must_fail P (line ''close fail'') (ece391_close P NEG_FD s) fail;
     verdict P ''err_neg_fd'' fail s
   }"

definition err_big_fd :: "'a program \<Rightarrow> addr \<Rightarrow> 'a tty_scheme \<Rightarrow> (int \<times> 'a tty_scheme) option" where
  "err_big_fd P buf s = do {
     (fail, s) \<leftarrow> must_fail P (line ''read fail'') (ece391_read P BIG_FD buf 31 s) 0;
     (fail, s) \<leftarrow> must_fail P (line ''write fail'') (ece391_write P BIG_FD buf 31 s) fail;
     (fail, s) \<leftarrow> must_fail P (line ''close fail'') (ece391_close P BIG_FD s) fail;
     verdict P ''err_big_fd'' fail s
   }"

text \<open>The loops of the third test, and of the fifth over a test per descriptor.\<close>

primrec open_lots :: "nat \<Rightarrow> 'a program \<Rightarrow> int \<Rightarrow> 'a tty_scheme \<Rightarrow> (int \<times> 'a tty_scheme) option" where
  "open_lots 0 P cnt s = Some (cnt, s)"
| "open_lots (Suc i) P cnt s = do {
     (r, s) \<leftarrow> ece391_open P (prog_lit P ''.'') s;
     open_lots i P (if r = -1 then cnt + 1 else cnt) s
   }"

primrec close_each :: "nat list \<Rightarrow> 'a program \<Rightarrow> 'a tty_scheme \<Rightarrow> 'a tty_scheme option" where
  "close_each [] P s = Some s"
| "close_each (i # is) P s = do { (_, s) \<leftarrow> ece391_close P (int i) s; close_each is P s }"

definition err_open_lots :: "'a program \<Rightarrow> 'a tty_scheme \<Rightarrow> (int \<times> 'a tty_scheme) option" where
  "err_open_lots P s = do {
     (cnt, s) \<leftarrow> open_lots 7 P 0 s;
     s \<leftarrow> close_each [2..<8] P s;
     if cnt = 1 then do { s \<leftarrow> says P (line ''err_open_lots: PASS'') s; Some (0, s) }
     else do { s \<leftarrow> says P (line ''err_open_lots: FAIL'') s; Some (2, s) }
   }"

definition err_open :: "'a program \<Rightarrow> 'a tty_scheme \<Rightarrow> (int \<times> 'a tty_scheme) option" where
  "err_open P s = do {
     (fail, s) \<leftarrow> must_fail P (line (CHR 0x27 # ''helloo'' @ CHR 0x27 # '' fail'')) (ece391_open P (prog_lit P ''helloo'') s) 0;
     (fail, s) \<leftarrow> must_fail P (line (CHR 0x27 # ''shel'' @ CHR 0x27 # '' fail'')) (ece391_open P (prog_lit P ''shel'') s) fail;
     (fail, s) \<leftarrow> must_fail P (line ''empty string fail'') (ece391_open P (prog_lit P '''') s) fail;
     verdict P ''err_open'' fail s
   }"

primrec each_must_fail :: "nat list \<Rightarrow> 'a program \<Rightarrow> string \<Rightarrow> (nat \<Rightarrow> 'a tty_scheme \<Rightarrow> (int \<times> 'a tty_scheme) option) \<Rightarrow>
    int \<Rightarrow> 'a tty_scheme \<Rightarrow> (int \<times> 'a tty_scheme) option" where
  "each_must_fail [] P msg call fail s = Some (fail, s)"
| "each_must_fail (i # is) P msg call fail s = do {
     (fail, s) \<leftarrow> must_fail P msg (call i s) fail;
     each_must_fail is P msg call fail s
   }"

definition err_unopened :: "'a program \<Rightarrow> addr \<Rightarrow> 'a tty_scheme \<Rightarrow> (int \<times> 'a tty_scheme) option" where
  "err_unopened P buf s = do {
     (fail, s) \<leftarrow> each_must_fail [0..<8] P (line ''close unopened or invalid fd fail'') (\<lambda>i. ece391_close P (int i)) 0 s;
     (fail, s) \<leftarrow> each_must_fail [2..<8] P (line ''read from unopened fd fail'') (\<lambda>i. ece391_read P (int i) buf 31) fail s;
     (fail, s) \<leftarrow> each_must_fail [2..<8] P (line ''write to unopened fd fail'') (\<lambda>i. ece391_write P (int i) buf 31) fail s;
     verdict P ''err_unopened'' fail s
   }"

definition err_vidmap :: "'a program \<Rightarrow> 'a tty_scheme \<Rightarrow> (int \<times> 'a tty_scheme) option" where
  "err_vidmap P s = do {
     (fail, s) \<leftarrow> must_fail P (line ''Null pointer fail'') (ece391_vidmap P 0 s) 0;
     (fail, s) \<leftarrow> must_fail P (line ''Kernel pointer fail fail'') (ece391_vidmap P 0x400000 s) fail;
     verdict P ''err_vidmap'' fail s
   }"

definition err_stdin_out :: "'a program \<Rightarrow> addr \<Rightarrow> 'a tty_scheme \<Rightarrow> (int \<times> 'a tty_scheme) option" where
  "err_stdin_out P buf s = do {
     (fail, s) \<leftarrow> must_fail P (line ''write to stdin fail'') (ece391_write P 0 buf 31 s) 0;
     (fail, s) \<leftarrow> must_fail P (line ''read from stdout fail'') (ece391_read P 1 buf 31 s) fail;
     verdict P ''err_stdin_out'' fail s
   }"

definition err_syscall_num :: "'a program \<Rightarrow> 'a tty_scheme \<Rightarrow> (int \<times> 'a tty_scheme) option" where
  "err_syscall_num P s = do {
     (fail, s) \<leftarrow> must_fail P (line ''syscall 0 fail'') (call_sys P BIG_NUM s) 0;
     (fail, s) \<leftarrow> must_fail P (line ''big num syscall fail'') (call_sys P NEG_NUM s) fail;
     (fail, s) \<leftarrow> must_fail P (line ''neg num syscall fail'') (call_sys P 0 s) fail;
     verdict P ''err_syscall_num'' fail s
   }"

text \<open>The arrays of the functions \<open>main\<close> calls are all at \<open>inner\<close>, a frame below its own.\<close>

definition syserr_tests :: "'a program \<Rightarrow> addr \<Rightarrow> ('a tty_scheme \<Rightarrow> (int \<times> 'a tty_scheme) option) list" where
  "syserr_tests P inner = [err_neg_fd P inner, err_big_fd P inner, err_open_lots P, err_open P,
     err_unopened P inner, err_vidmap P, err_stdin_out P inner, err_syscall_num P]"

primrec sum_tests :: "('s \<Rightarrow> (int \<times> 's) option) list \<Rightarrow> int \<Rightarrow> 's \<Rightarrow> (int \<times> 's) option" where
  "sum_tests [] fail s = Some (fail, s)"
| "sum_tests (t # ts) fail s = do { (r, s) \<leftarrow> t s; sum_tests ts (fail + r) s }"

definition syserr_select :: "'a program \<Rightarrow> addr \<Rightarrow> int \<Rightarrow> 'a tty_scheme \<Rightarrow> (int \<times> 'a tty_scheme) option" where
  "syserr_select P inner sel s =
     (if sel = 0 then do {
        (fail, s) \<leftarrow> sum_tests (syserr_tests P inner) 0 s;
        s \<leftarrow> (if fail \<noteq> 0 then says P (CHR 0x0A # line ''Overall Tests: FAIL'') s
              else says P (CHR 0x0A # line ''Overall Tests: PASS'') s);
        Some (fail, s) }
      else if 1 \<le> sel \<and> sel \<le> 8 then (syserr_tests P inner ! nat (sel - 1)) s
      else do {
        s \<leftarrow> says P ''Invalid test number. Choose from tests 1-8 or 0'' s;
        Some (0, s) })"

definition syserr_main :: "'a program \<Rightarrow> addr \<Rightarrow> addr \<Rightarrow> 'a tty_scheme \<Rightarrow> (int \<times> 'a tty_scheme) option" where
  "syserr_main P buf inner s = do {
     s \<leftarrow> says P ''Choose from tests 1-8. 0 to run all: '' s;
     (cnt, s) \<leftarrow> ece391_read P 0 buf 127 s;
     if cnt = -1 then do { s \<leftarrow> says P (line (''Can'' @ CHR 0x27 # ''t read test #'')) s; Some (2, s) }
     else syserr_select P inner (uint (memory s buf) - 0x30) s
   }"

subsection \<open>A run that is expected to pass\<close>

definition syserr_names :: "string list" where
  "syserr_names = [''err_neg_fd'', ''err_big_fd'', ''err_open_lots'', ''err_open'', ''err_unopened'',
     ''err_vidmap'', ''err_stdin_out'', ''err_syscall_num'']"

definition pass_line :: "string \<Rightarrow> string" where
  "pass_line name = line (name @ '': PASS'')"

definition syserr_strings :: "string list" where
  "syserr_strings = map pass_line syserr_names @
     [''.'', ''helloo'', ''shel'', '''', CHR 0x0A # line ''Overall Tests: PASS'', ''Choose from tests 1-8. 0 to run all: '']"

definition syserr_literals :: "string set" where
  "syserr_literals = set syserr_strings"

text \<open>The directory has an entry for itself, and none for the two misspelt names.\<close>

definition syserr_files :: "mem \<Rightarrow> addr \<Rightarrow> bool" where
  "syserr_files m bb \<longleftrightarrow> lookup m bb (bytes ''helloo'') = None \<and> lookup m bb (bytes ''shel'') = None \<and>
     (\<exists>i < 63. lookup m bb (bytes ''.'') = Some i \<and> d_type (dentry_at m (entry_addr bb (of_nat i))) = 1)"

definition syserr_base :: "'a program \<Rightarrow> 'a tty_scheme \<Rightarrow> bool" where
  "syserr_base P s \<longleftrightarrow> program_ok s \<and> cursor_ok s \<and> literals_at P (memory s) syserr_literals \<and>
     prog_lit P ''.'' \<noteq> 0 \<and> image_apart (memory s) (boot_block s) \<and> syserr_files (memory s) (boot_block s)"

definition syserr_ready :: "'a program \<Rightarrow> 'a tty_scheme \<Rightarrow> bool" where
  "syserr_ready P s \<longleftrightarrow> syserr_base P s \<and> only_std s"

lemma syserr_files_same:
  assumes "same_image bb m m'" "syserr_files m bb"
  shows "syserr_files m' bb"
  using assms same_image_lookup [OF assms(1)] same_image_entry(2) [OF assms(1)]
  by (auto simp: syserr_files_def)

lemma syserr_base_step:
  fixes s t :: "'a tty_scheme"
  assumes "syserr_base P s" "outputs b 0 xs s t"
  shows "syserr_base P t"
proof -
  have r: "runs b 0 s t" using assms(2) by (simp add: outputs_def)
  have i: "image_apart (memory s) (boot_block s)" using assms(1) by (simp add: syserr_base_def)
  have "same_window (memory s) (memory t)" using r by (simp add: runs_def same_window_def)
  moreover have "boot_block t = boot_block s" using r by (simp add: runs_def)
  ultimately show ?thesis
    using assms(1) outputs_ok [OF assms(2)] runs_image [OF r i] syserr_files_same [of "boot_block s" "memory s" "memory t"]
      literals_same [of "memory s" "memory t" P syserr_literals]
    by (simp add: syserr_base_def)
qed

lemma syserr_ready_step:
  "syserr_ready P s \<Longrightarrow> outputs b 0 xs s t \<Longrightarrow> only_std t \<Longrightarrow> syserr_ready P t"
  using syserr_base_step [of P s b xs t] by (simp add: syserr_ready_def)

definition passes :: "'a program \<Rightarrow> ('a tty_scheme \<Rightarrow> (int \<times> 'a tty_scheme) option) \<Rightarrow> string \<Rightarrow> bool" where
  "passes P f msg \<longleftrightarrow> (\<forall>s. syserr_ready P s \<longrightarrow>
     (\<exists>t. f s = Some (0, t) \<and> outputs 0 0 (bytes msg) s t \<and> syserr_ready P t))"

lemma says_ready:
  fixes s :: "'a tty_scheme"
  assumes "syserr_ready P s" "x \<in> syserr_literals"
  shows "\<exists>t. says P x s = Some t \<and> outputs 0 0 (bytes x) s t \<and> syserr_ready P t"
proof -
  have s: "program_ok s" "cursor_ok s" "literals_at P (memory s) syserr_literals" "only_std s"
    using assms(1) by (simp_all add: syserr_ready_def syserr_base_def)
  obtain t where t: "says P x s = Some t" "outputs 0 0 (bytes x) s t" "fd_array t = fd_array s"
    using says_outputs [OF s(1-3) assms(2), of 0 0] by blast
  then have "only_std t" using s(4) by (simp add: only_std_def)
  then show ?thesis using t syserr_ready_step [OF assms(1) t(2)] by blast
qed

lemma verdict_passes:
  assumes "name \<in> set syserr_names"
  shows "passes P (verdict P name 0) (pass_line name)"
proof -
  have "pass_line name \<in> syserr_literals" using assms by (simp add: syserr_literals_def syserr_strings_def)
  then show ?thesis
    using says_ready unfolding passes_def verdict_def pass_line_def by fastforce
qed

lemma must_fail_pass: "call = Some (-1, s) \<Longrightarrow> must_fail P msg call fail = Some (fail, s)"
  by (simp add: must_fail_def)

lemma each_must_fail_pass:
  "(\<And>i. i \<in> set is \<Longrightarrow> call i s = Some (-1, s)) \<Longrightarrow> each_must_fail is P msg call fail s = Some (fail, s)"
  by (induction "is") (simp_all add: must_fail_pass)

text \<open>The six tests in which every call is refused at once.\<close>

lemma passes_verdict:
  "name \<in> set syserr_names \<Longrightarrow> (\<And>s. syserr_ready P s \<Longrightarrow> f s = verdict P name 0 s) \<Longrightarrow> passes P f (pass_line name)"
  using verdict_passes by (simp add: passes_def)

lemma syserr_readyD: "syserr_ready P s \<Longrightarrow> program_ok s"
  by (simp add: syserr_ready_def syserr_base_def)

lemma err_fd_passes: "passes P (err_neg_fd P buf) (pass_line ''err_neg_fd'')" "passes P (err_big_fd P buf) (pass_line ''err_big_fd'')"
  by (rule passes_verdict; simp add: syserr_names_def err_neg_fd_def err_big_fd_def syserr_consts refused_calls must_fail_pass syserr_readyD)+

lemma err_unopened_passes: "passes P (err_unopened P buf) (pass_line ''err_unopened'')"
proof (rule passes_verdict)
  fix s assume r: "syserr_ready P s"
  have shut: "flags (fd_array s ! k) = 0" if "2 \<le> k" "k < 8" for k
    using r that by (simp add: syserr_ready_def only_std_def)
  have w: "unat (word_of_int (int i) :: u32) = i" "sint (word_of_int (int i) :: u32) = int i" if "i < 8" for i
    using that sint_of_nat_fits [of i] by (simp_all add: unat_of_nat take_bit_nat_eq_self)
  note refuse = refused_calls [OF syserr_readyD [OF r]]
  have "ece391_close P (int i) s = Some (-1, s)" if "i \<in> set [0..<8]" for i
    using that refuse(3) [of "int i" P] w [of i] shut [of i] by (cases "i < 2") auto
  moreover have "ece391_read P (int i) buf 31 s = Some (-1, s)" "ece391_write P (int i) buf 31 s = Some (-1, s)" if "i \<in> set [2..<8]" for i
    using that refuse(1,2) [of "int i"] w [of i] shut [of i] by auto
  ultimately have "each_must_fail [0..<8] P m (\<lambda>i. ece391_close P (int i)) fail s = Some (fail, s)"
    "each_must_fail [2..<8] P m (\<lambda>i. ece391_read P (int i) buf 31) fail s = Some (fail, s)"
    "each_must_fail [2..<8] P m (\<lambda>i. ece391_write P (int i) buf 31) fail s = Some (fail, s)" for m fail
    by (blast intro: each_must_fail_pass)+
  then show "err_unopened P buf s = verdict P ''err_unopened'' 0 s"
    by (simp only: err_unopened_def Option.bind.simps split_conv)
qed (simp add: syserr_names_def)

lemma err_vidmap_passes: "passes P (err_vidmap P) (pass_line ''err_vidmap'')"
  by (rule passes_verdict) (simp_all add: syserr_names_def err_vidmap_def refused_calls must_fail_pass syserr_readyD)

lemma err_stdin_out_passes: "passes P (err_stdin_out P buf) (pass_line ''err_stdin_out'')"
  by (rule passes_verdict) (simp_all add: syserr_names_def err_stdin_out_def refused_calls must_fail_pass syserr_readyD)

lemma err_syscall_num_passes: "passes P (err_syscall_num P) (pass_line ''err_syscall_num'')"
proof (rule passes_verdict)
  fix s
  have "call_sys P n s = Some (-1, s)" if "n \<in> {BIG_NUM, NEG_NUM, 0}" for n
    using that by (auto simp: call_sys_def do_call_def syscall_dispatch_def syserr_consts)
  then show "err_syscall_num P s = verdict P ''err_syscall_num'' 0 s"
    by (simp add: err_syscall_num_def must_fail_pass)
qed (simp add: syserr_names_def)

text \<open>The fourth test opens names that are not there.\<close>

lemma open_missing_passes:
  fixes s :: "'a tty_scheme"
  assumes r: "syserr_ready P s" and x: "x \<in> {''helloo'', ''shel'', ''''}"
  shows "\<exists>t. must_fail P msg (ece391_open P (prog_lit P x) s) fail = Some (fail, t) \<and>
    outputs 0 0 [] s t \<and> syserr_ready P t"
proof -
  have s: "program_ok s" "cursor_ok s" "only_std s" "syserr_files (memory s) (boot_block s)"
    "in_program (memory s) (prog_lit P x) (bytes x)"
    using r x by (auto simp: syserr_ready_def syserr_base_def literals_at_def syserr_literals_def syserr_strings_def)
  have "bytes x = [] \<or> lookup (memory s) (boot_block s) (bytes x) = None"
    using s(4) x by (auto simp: syserr_files_def bytes_def)
  then obtain t where t: "ece391_open P (prog_lit P x) s = Some (-1, t)" "outputs 0 0 [] s t"
    "\<forall>k. 2 \<le> k \<and> k < 8 \<longrightarrow> flags (fd_array t ! k) = flags (fd_array s ! k)"
    using open_missing [OF s(1,5), of P 0 0] s(2) by blast
  moreover have "only_std t" using t(3) s(3) by (simp add: only_std_def)
  ultimately show ?thesis using syserr_ready_step [OF r t(2)] by (auto simp: must_fail_def)
qed

lemma err_open_passes: "passes P (err_open P) (pass_line ''err_open'')"
  unfolding passes_def
proof (intro allI impI)
  fix s :: "'a tty_scheme" assume r: "syserr_ready P s"
  define m1 m2 where "m1 = line (CHR 0x27 # ''helloo'' @ CHR 0x27 # '' fail'')" and "m2 = line (CHR 0x27 # ''shel'' @ CHR 0x27 # '' fail'')"
  obtain t where t: "must_fail P m1 (ece391_open P (prog_lit P ''helloo'') s) 0 = Some (0, t)" "outputs 0 0 [] s t" "syserr_ready P t"
    using open_missing_passes [OF r] by blast
  obtain u where u: "must_fail P m2 (ece391_open P (prog_lit P ''shel'') t) 0 = Some (0, u)" "outputs 0 0 [] t u" "syserr_ready P u"
    using open_missing_passes [OF t(3)] by blast
  obtain v where v: "must_fail P (line ''empty string fail'') (ece391_open P (prog_lit P '''') u) 0 = Some (0, v)"
    "outputs 0 0 [] u v" "syserr_ready P v"
    using open_missing_passes [OF u(3)] by blast
  obtain w where w: "verdict P ''err_open'' 0 v = Some (0, w)" "outputs 0 0 (bytes (pass_line ''err_open'')) v w" "syserr_ready P w"
    using verdict_passes [of "''err_open''" P] v(3) by (auto simp: passes_def syserr_names_def)
  have "err_open P s = Some (0, w)"
    using t(1) u(1) v(1) w(1) by (simp only: err_open_def m1_def [symmetric] m2_def [symmetric] Option.bind.simps split_conv)
  moreover have "outputs 0 0 ([] @ [] @ [] @ bytes (pass_line ''err_open'')) s w"
    by (intro outputs_trans [OF t(2)] outputs_trans [OF u(2)] outputs_trans [OF v(2)] w(2))
  ultimately show "\<exists>t. err_open P s = Some (0, t) \<and> outputs 0 0 (bytes (pass_line ''err_open'')) s t \<and> syserr_ready P t"
    using w(3) by auto
qed

text \<open>The third test fills the descriptor table and empties it.\<close>

definition opened :: "'a program \<Rightarrow> nat \<Rightarrow> 'a tty_scheme \<Rightarrow> bool" where
  "opened P j s \<longleftrightarrow> syserr_base P s \<and> (\<forall>k. 2 \<le> k \<and> k < 8 \<longrightarrow> (flags (fd_array s ! k) \<noteq> 0 \<longleftrightarrow> k < 2 + j))"

lemma open_dot:
  fixes s :: "'a tty_scheme"
  assumes o: "opened P j s" and j: "j < 6"
  shows "\<exists>t. ece391_open P (prog_lit P ''.'') s = Some (int (2 + j), t) \<and> outputs 0 0 [] s t \<and> opened P (Suc j) t"
proof -
  have s: "program_ok s" "cursor_ok s" "syserr_base P s" "prog_lit P ''.'' \<noteq> 0" "syserr_files (memory s) (boot_block s)"
    "in_program (memory s) (prog_lit P ''.'') (bytes ''.'')"
    using o by (auto simp: opened_def syserr_base_def literals_at_def syserr_literals_def syserr_strings_def)
  have fl: "flags (fd_array s ! k) \<noteq> 0 \<longleftrightarrow> k < 2 + j" if "2 \<le> k" "k < 8" for k
    using o that by (simp add: opened_def)
  have f: "find_open_fd (fd_array s) = Some (2 + j)"
    using fd_table.search_Some [OF program_okD(5) [OF s(1)], of "2 + j"] fl [of "2 + j"] fl j by auto
  obtain i where i: "lookup (memory s) (boot_block s) (bytes ''.'') = Some i"
    "d_type (dentry_at (memory s) (entry_addr (boot_block s) (of_nat i))) \<in> {1, 2}"
    using s(5) by (auto simp: syserr_files_def)
  obtain t where t: "ece391_open P (prog_lit P ''.'') s = Some (int (2 + j), t)" "outputs 0 0 [] s t"
    "\<exists>T ino. fd_array t = (fd_array s)[2 + j := opened_fd T ino (fd_array s ! (2 + j))]"
    using open_found [OF s(1,6,4) _ _ f i(1) refl i(2), of P 0 0] s(2) by (auto simp: bytes_def)
  have "flags (fd_array t ! k) \<noteq> 0 \<longleftrightarrow> k < 2 + Suc j" if "2 \<le> k" "k < 8" for k
    using t(3) that o j program_okD(5) [OF s(1)] by (auto simp: opened_def nth_list_update opened_fd_def)
  then have "opened P (Suc j) t" using syserr_base_step [OF s(3) t(2)] by (simp add: opened_def)
  then show ?thesis using t(1,2) by blast
qed

lemma open_lots_spec:
  fixes s :: "'a tty_scheme"
  shows "opened P j s \<Longrightarrow> j \<le> 6 \<Longrightarrow>
    \<exists>t. open_lots (7 - j) P cnt s = Some (cnt + 1, t) \<and> outputs 0 0 [] s t \<and> opened P 6 t"
proof (induction "6 - j" arbitrary: j s)
  case 0
  then have j: "j = 6" by simp
  have s: "program_ok s" "cursor_ok s" using 0 by (auto simp: opened_def syserr_base_def)
  have "find_open_fd (fd_array s) = None"
    using fd_table.search_None [OF program_okD(5) [OF s(1)]] 0(2) j by (simp add: opened_def)
  then show ?case using open_full [OF s(1)] outputs_refl [OF s] 0(2) j by auto
next
  case (Suc n)
  have j: "j < 6" "7 - j = Suc (7 - Suc j)" using Suc.hyps(2) by simp_all
  obtain t where t: "ece391_open P (prog_lit P ''.'') s = Some (int (2 + j), t)" "outputs 0 0 [] s t" "opened P (Suc j) t"
    using open_dot [OF Suc.prems(1) j(1)] by blast
  obtain u where u: "open_lots (7 - Suc j) P cnt t = Some (cnt + 1, u)" "outputs 0 0 [] t u" "opened P 6 u"
    using Suc.hyps(1) [OF _ t(3)] Suc.hyps(2) j(1) by fastforce
  have "outputs 0 0 [] s u" using outputs_trans [OF t(2) u(2)] by simp
  moreover have "open_lots (7 - j) P cnt s = Some (cnt + 1, u)" unfolding j(2) using t(1) u(1) by simp
  ultimately show ?case using u(3) by blast
qed

lemma close_each_spec:
  fixes s :: "'a tty_scheme"
  shows "syserr_base P s \<Longrightarrow> \<forall>k. 2 \<le> k \<and> k < m \<longrightarrow> flags (fd_array s ! k) = 0 \<Longrightarrow> 2 \<le> m \<Longrightarrow> m \<le> 8 \<Longrightarrow>
    \<exists>t. close_each [m..<8] P s = Some t \<and> outputs 0 0 [] s t \<and> syserr_ready P t"
proof (induction "8 - m" arbitrary: m s)
  case 0
  then show ?case using outputs_refl [of s 0 0] by (simp add: syserr_ready_def only_std_def syserr_base_def)
next
  case (Suc n)
  have s: "program_ok s" "cursor_ok s" using Suc.prems(1) by (simp_all add: syserr_base_def)
  have m: "m < 8" "[m..<8] = m # [Suc m..<8]" using Suc.hyps(2) by (simp_all add: upt_conv_Cons)
  have w: "sint (word_of_int (int m) :: u32) = int m" using sint_of_nat_fits [of m] m(1) by simp
  obtain r t where t: "ece391_close P (int m) s = Some (r, t)" "outputs 0 0 [] s t"
    "\<forall>k. 2 \<le> k \<and> k < Suc m \<longrightarrow> flags (fd_array t ! k) = 0"
  proof (cases "flags (fd_array s ! m) = 0")
    case True
    then have "ece391_close P (int m) s = Some (-1, s)" using refused_calls(3) [OF s(1), of "int m" P] w by simp
    then show thesis using that [of "-1" s] outputs_refl [OF s] Suc.prems(2) True by (auto simp: less_Suc_eq)
  next
    case False
    define t where "t = upd_fd (tasks_running s) m closed_fd s"
    have "syscall_close (int m) s = Some (0, t)"
      using close_open_fd [OF program_okD(3,10) [OF s(1)], of "int m"] False Suc.prems(3) m(1) by (simp add: t_def)
    then have "ece391_close P (int m) s = Some (0, t)" using w by (simp add: call_defs do_call_simps [OF s(1)])
    moreover have "outputs 0 0 [] s t"
      unfolding t_def using Suc.prems(3) s by (intro runs_upd_fd(2)) (simp_all add: closed_fd_def)
    moreover have "flags (fd_array t ! k) = 0" if "2 \<le> k" "k < Suc m" for k
      using that Suc.prems(2) m(1) program_okD(5) [OF s(1)]
      by (auto simp: t_def fds_of_upd_fd nth_list_update less_Suc_eq closed_fd_def)
    ultimately show thesis using that by blast
  qed
  obtain u where u: "close_each [Suc m..<8] P t = Some u" "outputs 0 0 [] t u" "syserr_ready P u"
    using Suc.hyps(1) [of "Suc m" t] Suc.hyps(2) Suc.prems(3) syserr_base_step [OF Suc.prems(1) t(2)] t(3) m(1) by fastforce
  have "outputs 0 0 [] s u" using outputs_trans [OF t(2) u(2)] by simp
  then show ?case using t(1) u(1,3) by (simp add: m(2))
qed

lemma err_open_lots_passes: "passes P (err_open_lots P) (pass_line ''err_open_lots'')"
  unfolding passes_def
proof (intro allI impI)
  fix s :: "'a tty_scheme" assume r: "syserr_ready P s"
  have "opened P 0 s" using r by (simp add: opened_def syserr_ready_def only_std_def)
  then obtain t where t: "open_lots 7 P 0 s = Some (1, t)" "outputs 0 0 [] s t" "opened P 6 t"
    using open_lots_spec [of P 0 s 0] by auto
  obtain u where u: "close_each [2..<8] P t = Some u" "outputs 0 0 [] t u" "syserr_ready P u"
    using close_each_spec [of P t 2] t(3) by (auto simp: opened_def)
  have "pass_line ''err_open_lots'' \<in> syserr_literals" by (simp add: syserr_literals_def syserr_strings_def syserr_names_def)
  then obtain v where v: "says P (pass_line ''err_open_lots'') u = Some v"
    "outputs 0 0 (bytes (pass_line ''err_open_lots'')) u v" "syserr_ready P v"
    using says_ready [OF u(3)] by blast
  have "err_open_lots P s = Some (0, v)"
    using t(1) u(1) v(1) by (simp add: err_open_lots_def pass_line_def del: upt_rec_numeral)
  moreover have "outputs 0 0 ([] @ [] @ bytes (pass_line ''err_open_lots'')) s v"
    by (intro outputs_trans [OF t(2)] outputs_trans [OF u(2)] v(2))
  ultimately show "\<exists>t. err_open_lots P s = Some (0, t) \<and> outputs 0 0 (bytes (pass_line ''err_open_lots'')) s t \<and> syserr_ready P t"
    using v(3) by auto
qed

subsection \<open>The whole suite\<close>

text \<open>A sequence of tests that all pass.\<close>

context report
begin

definition reports :: "('s \<Rightarrow> (int \<times> 's) option) \<Rightarrow> 'm list \<Rightarrow> bool" where
  "reports f xs \<longleftrightarrow> (\<forall>s. ready s \<longrightarrow> (\<exists>t. f s = Some (0, t) \<and> shown xs s t \<and> ready t))"

lemma sum_tests_reports: "list_all2 reports fs xss \<Longrightarrow> reports (sum_tests fs 0) (concat xss)"
proof (induction fs xss rule: list_all2_induct)
  case Nil
  then show ?case using shown_Nil by (auto simp: reports_def)
next
  case (Cons f fs xs xss)
  have "\<exists>t. sum_tests (f # fs) 0 s = Some (0, t) \<and> shown (xs @ concat xss) s t \<and> ready t" if r: "ready s" for s
  proof -
    obtain t where t: "f s = Some (0, t)" "shown xs s t" "ready t" using Cons(1) r unfolding reports_def by blast
    obtain u where "sum_tests fs 0 t = Some (0, u)" "shown (concat xss) t u" "ready u"
      using Cons(3) t(3) unfolding reports_def by blast
    then show ?thesis using t shown_append [OF t(2)] by auto
  qed
  then show ?case by (simp add: reports_def)
qed

end

interpretation syserr_report: report "syserr_ready P" "outputs 0 0" for P :: "'a program"
  by unfold_locales (auto intro: outputs_trans outputs_refl simp: syserr_ready_def syserr_base_def)

lemma passes_reports: "passes P f msg = syserr_report.reports P f (bytes msg)"
  by (simp add: passes_def syserr_report.reports_def)

text \<open>What \<open>main\<close> prints for a valid choice.\<close>

definition expected_report :: "nat \<Rightarrow> string" where
  "expected_report n = (if n = 0 then concat (map pass_line syserr_names) @ (CHR 0x0A # line ''Overall Tests: PASS'')
     else pass_line (syserr_names ! (n - 1)))"

lemma concat_bytes: "concat (map bytes xs) = bytes (concat xs)"
  by (induction xs) (simp_all add: bytes_def)

lemma tests_pass: "list_all2 (\<lambda>f x. passes P f (pass_line x)) (syserr_tests P inner) syserr_names"
  by (simp add: syserr_tests_def syserr_names_def err_fd_passes err_open_lots_passes err_open_passes err_unopened_passes
      err_vidmap_passes err_stdin_out_passes err_syscall_num_passes)

lemma syserr_select_passes:
  assumes "n \<le> 8"
  shows "passes P (syserr_select P inner (int n)) (expected_report n)"
proof (cases "n = 0")
  case True
  from tests_pass [of P inner] have tests: "list_all2 (syserr_report.reports P) (syserr_tests P inner) (map bytes (map pass_line syserr_names))"
    by (simp only: list_all2_map2 passes_reports comp_def)
  have all: "passes P (sum_tests (syserr_tests P inner) 0) (concat (map pass_line syserr_names))"
    using syserr_report.sum_tests_reports [OF tests] by (simp only: passes_reports concat_bytes)
  let ?m = "CHR 0x0A # line ''Overall Tests: PASS''"
  have "\<exists>t. syserr_select P inner (int n) s = Some (0, t) \<and> outputs 0 0 (bytes (expected_report n)) s t \<and> syserr_ready P t"
    if r: "syserr_ready P s" for s
  proof -
    obtain t where t: "sum_tests (syserr_tests P inner) 0 s = Some (0, t)"
      "outputs 0 0 (bytes (concat (map pass_line syserr_names))) s t" "syserr_ready P t"
      using all r unfolding passes_def by blast
    have "?m \<in> syserr_literals" by (simp add: syserr_literals_def syserr_strings_def)
    then obtain u where u: "says P ?m t = Some u" "outputs 0 0 (bytes ?m) t u" "syserr_ready P u"
      using says_ready [OF t(3)] by blast
    have "outputs 0 0 (bytes (expected_report n)) s u"
      using outputs_trans [OF t(2) u(2)] True by (simp add: expected_report_def bytes_append)
    moreover have "syserr_select P inner (int n) s = Some (0, u)"
      using t(1) u(1) True by (simp add: syserr_select_def)
    ultimately show ?thesis using u(3) by blast
  qed
  then show ?thesis by (simp add: passes_def)
next
  case False
  have n: "nat (int n - 1) = n - 1" "n - 1 < length syserr_names" using False assms by (simp_all add: syserr_names_def)
  then have "passes P (syserr_tests P inner ! (n - 1)) (pass_line (syserr_names ! (n - 1)))"
    using list_all2_nthD2 [OF tests_pass] by blast
  moreover have "syserr_select P inner (int n) = syserr_tests P inner ! (n - 1)"
    using False assms n(1) by (intro ext) (simp add: syserr_select_def)
  ultimately show ?thesis using False by (simp add: expected_report_def)
qed

text \<open>
  What a reader needs to know of a run of the whole program: a choice from 0 to 8 is typed, the
  arrays lie in the program's window away from its literals.
\<close>

definition syserr_run_ok :: "'a program \<Rightarrow> addr \<Rightarrow> nat \<Rightarrow> 'a tty_scheme \<Rightarrow> bool" where
  "syserr_run_ok P buf n s \<longleftrightarrow> syserr_ready P s \<and> n \<le> 8 \<and> line_waits [of_nat (0x30 + n), 0x0A] s \<and>
     user_range buf 127 \<and> literals_apart P syserr_literals buf 127"

text \<open>The prompt and the answer.\<close>

lemma syserr_chosen:
  fixes s :: "'a tty_scheme"
  assumes "syserr_run_ok P buf n s"
  defines "p \<equiv> ''Choose from tests 1-8. 0 to run all: ''"
  shows "\<exists>t u. says P p s = Some t \<and> ece391_read P 0 buf 127 t = Some (2, u) \<and> outputs buf 127 (bytes p) s u \<and>
    syserr_ready P u \<and> memory u buf = of_nat (0x30 + n)"
proof -
  have r: "syserr_ready P s" "n \<le> 8" "line_waits [of_nat (0x30 + n), 0x0A] s" "user_range buf 127"
    "literals_apart P syserr_literals buf 127"
    using assms by (simp_all add: syserr_run_ok_def)
  have s: "program_ok s" "cursor_ok s" "literals_at P (memory s) syserr_literals" "p \<in> syserr_literals"
    using r(1) by (simp_all add: syserr_ready_def syserr_base_def syserr_literals_def syserr_strings_def p_def)
  define t where "t = fold putc (bytes p) s"
  have t: "says P p s = Some t" "outputs buf 127 (bytes p) s t"
    using says_prints [OF s(1,3,4)] outputs_print [OF s(1,2)] by (simp_all add: t_def)
  have lw: "line_waits [of_nat (0x30 + n), 0x0A] t" using r(3) by (simp add: t_def line_waits_print)
  have ot: "program_ok t" "cursor_ok t" using outputs_ok [OF t(2)] by simp_all
  define l :: "u8 list" where "l = [of_nat (0x30 + n), 0x0A]"
  have l: "length l = 2" "line_waits l t" using lw by (simp_all add: l_def)
  obtain u where u: "ece391_read P 0 buf (int 127) t = Some (int 2, u)" "outputs buf 127 [] t u"
    "load (memory u) buf 2 = l" "fd_array u = fd_array t"
    using read_line [OF ot l(2) r(4), of P] unfolding l(1) by auto
  have ru: "outputs buf 127 (bytes p) s u" using outputs_trans [OF t(2) u(2)] by simp
  have lit: "literals_at P (memory u) syserr_literals"
    using runs_literals [of buf 127 s u P syserr_literals] ru s(3) r(5) by (simp add: outputs_def)
  have run: "runs buf 127 s u" using ru by (simp add: outputs_def)
  have files: "syserr_files (memory u) (boot_block u)" "image_apart (memory u) (boot_block u)"
  proof -
    have i: "image_apart (memory s) (boot_block s)" "syserr_files (memory s) (boot_block s)"
      using r(1) by (simp_all add: syserr_ready_def syserr_base_def)
    show "image_apart (memory u) (boot_block u)" by (rule runs_image(1) [OF run i(1)])
    show "syserr_files (memory u) (boot_block u)"
      using syserr_files_same [OF runs_image(2) [OF run i(1)] i(2)] run by (simp add: runs_def)
  qed
  have "fd_array u = fd_array s" using u(4) program_ok_print(3) [OF s(1)] by (simp add: t_def)
  then have "only_std u" using r(1) by (simp add: syserr_ready_def only_std_def)
  then have "syserr_ready P u"
    using r(1) outputs_ok [OF ru] lit files by (simp add: syserr_ready_def syserr_base_def)
  moreover have "memory u buf = of_nat (0x30 + n)"
  proof -
    have "load (memory u) buf 2 ! 0 = of_nat (0x30 + n)" unfolding u(3) l_def by simp
    then show ?thesis by simp
  qed
  moreover have "ece391_read P 0 buf 127 t = Some (2, u)" using u(1) by simp
  ultimately show ?thesis using t(1) ru by blast
qed

text \<open>C6: The kernel passes its own error tests. A freshly started \<open>syserr\<close>, with a choice \<open>n\<close> from
  0 to 8 typed at its prompt, returns 0 and prints the prompt and then a PASS line for the
  chosen test, or for each of the eight tests and the overall line if the choice is 0, and
  nothing else; it leaves the kernel's memory, the files and its own memory outside the input
  array as they were, and again only the terminal open.\<close>
theorem syserr_passes:
  fixes s :: "'a tty_scheme"
  assumes "syserr_run_ok P buf n s"
  shows "\<exists>t. syserr_main P buf inner s = Some (0, t) \<and>
    text_of t = fold spec_putc (bytes (''Choose from tests 1-8. 0 to run all: '' @ expected_report n)) (text_of s) \<and>
    runs buf 127 s t \<and> only_std t"
proof -
  let ?p = "''Choose from tests 1-8. 0 to run all: ''"
  have n: "n \<le> 8" using assms by (simp add: syserr_run_ok_def)
  obtain t u where u: "says P ?p s = Some t" "ece391_read P 0 buf 127 t = Some (2, u)" "outputs buf 127 (bytes ?p) s u"
    "syserr_ready P u" "memory u buf = of_nat (0x30 + n)"
    using syserr_chosen [OF assms] by blast
  obtain v where v: "syserr_select P inner (int n) u = Some (0, v)" "outputs 0 0 (bytes (expected_report n)) u v" "syserr_ready P v"
    using syserr_select_passes [OF n, of P inner] u(4) by (auto simp: passes_def)
  have "uint (memory u buf) = int (0x30 + n)"
    unfolding u(5) using n by (simp add: uint_nat unat_word_ariths unat_of_nat take_bit_nat_eq_self)
  then have "syserr_main P buf inner s = Some (0, v)" using u(1,2) v(1) by (simp add: syserr_main_def)
  moreover have "outputs buf 127 (bytes (expected_report n)) u v" using v(2) by (simp add: outputs_def runs_def)
  then have "outputs buf 127 (bytes (?p @ expected_report n)) s v"
    using outputs_trans [OF u(3)] by (simp only: bytes_append)
  moreover have "only_std v" using v(3) by (simp add: syserr_ready_def)
  ultimately show ?thesis unfolding outputs_def by blast
qed

lemma syserr_strings_plain: "plain_text syserr_strings"
  by (simp add: plain_text_def syserr_strings_def syserr_names_def pass_line_def line_def bytes_def literal_image_def)

lemma syserr_passes_witness:
  "\<exists>t. syserr_main (sample_program syserr_strings) 0x8200000 0x8200100 (sample_state syserr_strings [0x30, 0x0A]) = Some (0, t) \<and>
     only_std t"
proof -
  let ?s = "sample_state syserr_strings [0x30, 0x0A]" and ?P = "sample_program syserr_strings"
  note X = syserr_strings_plain
  have "lookup sample_disk 0x100000 (bytes ''.'') = Some 1" "lookup sample_disk 0x100000 (bytes ''helloo'') = None"
    "lookup sample_disk 0x100000 (bytes ''shel'') = None"
    by (simp_all add: sample_lookup bytes_def shell_name_def)
  then have f: "syserr_files (sample_memory syserr_strings) 0x100000"
    using sample_types [of 1] sample_image(3) [OF X, of 1] unfolding syserr_files_def sample_image(2) [OF X]
    by (intro conjI exI [of _ 1]) simp_all
  have l: "literals_at ?P (sample_memory syserr_strings) syserr_literals" "literals_apart ?P syserr_literals 0x8200000 127"
    using sample_literals [OF X, of syserr_literals] by (simp_all add: sample_memory_def syserr_literals_def)
  have "unat (prog_lit ?P ''.'') \<noteq> 0"
    by (simp add: sample_program_def syserr_strings_def syserr_names_def pass_line_def line_def)
  then have "prog_lit ?P ''.'' \<noteq> 0" by force
  then have "syserr_run_ok ?P 0x8200000 0 ?s"
    using sample_ok [of "[0x30, 0x0A]" syserr_strings] sample_image(1) [OF X] f l sample_buffer [of 127]
    by (simp add: syserr_run_ok_def syserr_ready_def syserr_base_def)
  then show ?thesis using syserr_passes [of ?P "0x8200000" 0 ?s "0x8200100"] by blast
qed

end
