(* ===== verification/Programs.thy ===== *)
theory Programs
  imports Sample
begin

section \<open>The programs cat, ls, hello, testprint, counter and shell\<close>

text \<open>
  The \<open>main\<close> functions of \<open>src/syscalls\<close>, call by call; the arrays they declare are arguments.
  \<open>cat\<close> and \<open>ls\<close> share a loop: read a chunk, stop at 0, give up at -1, write the chunk out. It is
  one partial function of what is read and what is written, since a driver that never returns
  0 would keep it running; its locale says when it ends and with what on the screen.
\<close>

partial_function (option) read_loop ::
  "('s \<Rightarrow> (int \<times> 's) option) \<Rightarrow> ('s \<Rightarrow> 's option) \<Rightarrow> (int \<Rightarrow> 's \<Rightarrow> (int \<times> 's) option) \<Rightarrow> 's \<Rightarrow> (int \<times> 's) option" where
  "read_loop fetch failed emit s = do {
     (cnt, s) \<leftarrow> fetch s;
     if cnt = 0 then Some (0, s)
     else if cnt = -1 then do { s \<leftarrow> failed s; Some (3, s) }
     else do {
       (r, s) \<leftarrow> emit cnt s;
       if r = -1 then Some (3, s) else read_loop fetch failed emit s
     }
   }"

declare read_loop.simps [code]

definition cat_main :: "'a program \<Rightarrow> addr \<Rightarrow> 'a tty_scheme \<Rightarrow> (int \<times> 'a tty_scheme) option" where
  "cat_main P buf s = do {
     (r, s) \<leftarrow> ece391_getargs P buf 1024 s;
     if r \<noteq> 0 then do { s \<leftarrow> says P (line ''could not read arguments'') s; Some (3, s) }
     else do {
       (fdn, s) \<leftarrow> ece391_open P buf s;
       if fdn = -1 then do { s \<leftarrow> says P (line ''file not found'') s; Some (2, s) }
       else read_loop (ece391_read P fdn buf 1024) (says P (line ''file read failed''))
         (\<lambda>cnt. ece391_write P 1 buf cnt) s
     }
   }"

definition ls_emit :: "'a program \<Rightarrow> addr \<Rightarrow> int \<Rightarrow> 'a tty_scheme \<Rightarrow> (int \<times> 'a tty_scheme) option" where
  "ls_emit P buf cnt s = ece391_write P 1 buf (cnt + 1) (s\<lparr>memory := (memory s)(buf + word_of_int cnt := 0x0A)\<rparr>)"

definition ls_main :: "'a program \<Rightarrow> addr \<Rightarrow> 'a tty_scheme \<Rightarrow> (int \<times> 'a tty_scheme) option" where
  "ls_main P buf s = do {
     (fdn, s) \<leftarrow> ece391_open P (prog_lit P ''.'') s;
     if fdn = -1 then do { s \<leftarrow> says P (line ''directory open failed'') s; Some (2, s) }
     else read_loop (ece391_read P fdn buf 32) (says P (line ''directory entry read failed'')) (ls_emit P buf) s
   }"

definition hello_main :: "'a program \<Rightarrow> addr \<Rightarrow> 'a tty_scheme \<Rightarrow> (int \<times> 'a tty_scheme) option" where
  "hello_main P buf s = do {
     s \<leftarrow> says P (''Hi, what'' @ CHR 0x27 # ''s your name? '') s;
     (cnt, s) \<leftarrow> ece391_read P 0 buf 1023 s;
     if cnt = -1 then do { s \<leftarrow> says P (line (''Can'' @ CHR 0x27 # ''t read name from keyboard.'')) s; Some (3, s) }
     else do {
       let s = s\<lparr>memory := (memory s)(buf + word_of_int cnt := 0)\<rparr>;
       s \<leftarrow> says P ''Hello, '' s;
       s \<leftarrow> ece391_fdputs P 1 buf s;
       Some (0, s)
     }
   }"

definition testprint_main :: "'a program \<Rightarrow> 'a tty_scheme \<Rightarrow> (int \<times> 'a tty_scheme) option" where
  "testprint_main P s = do {
     s \<leftarrow> says P (line ''Hello, if this ran, the program was correct. Yay!'') s;
     Some (0, s)
   }"

text \<open>\<open>counter\<close>: \<open>n\<close> turns of the loop are left, \<open>i\<close> have been made.\<close>

primrec counter_loop :: "nat \<Rightarrow> 'a program \<Rightarrow> addr \<Rightarrow> u32 \<Rightarrow> 'a tty_scheme \<Rightarrow> 'a tty_scheme option" where
  "counter_loop 0 P buf i s = Some s"
| "counter_loop (Suc n) P buf i s = do {
     m \<leftarrow> ece391_itoa (memory s) (i + 1) buf 10;
     s \<leftarrow> ece391_fdputs P 1 buf (s\<lparr>memory := m\<rparr>);
     s \<leftarrow> says P (line '''') s;
     counter_loop n P buf (i + 1) s
   }"

definition counter_max :: "u8 \<Rightarrow> nat" where
  "counter_max c = (if c = 0x30 then 100 else if c = 0x31 then 10000 else if c = 0x32 then 100000 else 0)"

definition counter_answer :: "'a program \<Rightarrow> addr \<Rightarrow> 'a tty_scheme \<Rightarrow> (int \<times> 'a tty_scheme) option" where
  "counter_answer P buf s = do {
     n \<leftarrow> ece391_strlen (memory s) buf;
     if n > 2 \<or> n = 2 \<and> (memory s buf < 0x30 \<or> memory s buf > 0x32)
     then do { s \<leftarrow> says P (line ''Wrong Choice!'') s; Some (0, s) }
     else do {
       s \<leftarrow> counter_loop (counter_max (memory s buf)) P buf 0 s;
       Some (0, s)
     }
   }"

definition counter_main :: "'a program \<Rightarrow> addr \<Rightarrow> 'a tty_scheme \<Rightarrow> (int \<times> 'a tty_scheme) option" where
  "counter_main P buf s = do {
     s \<leftarrow> says P (line ''Enter the Test Number: (0): 100, (1): 10000, (2): 100000'') s;
     (cnt, s) \<leftarrow> ece391_read P 0 buf 1023 s;
     if cnt = -1 then do { s \<leftarrow> says P (line (''Can'' @ CHR 0x27 # ''t read the number from keyboard.'')) s; Some (3, s) }
     else counter_answer P buf (s\<lparr>memory := (memory s)(buf + word_of_int cnt := 0)\<rparr>)
   }"

text \<open>
  The shell. One turn reads a command and decides; a program that is started runs until its
  \<open>halt\<close> makes the call return, so the call as the shell sees it is the argument \<open>run\<close>.
\<close>

datatype shell_turn = Return int | Prompt_again | Run_command

definition shell_decide :: "'a program \<Rightarrow> addr \<Rightarrow> 'a tty_scheme \<Rightarrow> (shell_turn \<times> 'a tty_scheme) option" where
  "shell_decide P buf s = do {
     c \<leftarrow> ece391_strcmp (memory s) buf (prog_lit P ''exit'');
     if c = 0 then Some (Return 0, s)
     else if memory s buf = 0 then Some (Prompt_again, s)
     else Some (Run_command, s)
   }"

definition shell_read :: "'a program \<Rightarrow> addr \<Rightarrow> 'a tty_scheme \<Rightarrow> (shell_turn \<times> 'a tty_scheme) option" where
  "shell_read P buf s = do {
     s \<leftarrow> says P ''391OS> '' s;
     (cnt, s) \<leftarrow> ece391_read P 0 buf 1023 s;
     if cnt = -1 then do { s \<leftarrow> says P (line ''read from keyboard failed'') s; Some (Return 3, s) }
     else do {
       let cnt = (if cnt > 0 \<and> memory s (buf + word_of_int (cnt - 1)) = 0x0A then cnt - 1 else cnt);
       shell_decide P buf (s\<lparr>memory := (memory s)(buf + word_of_int cnt := 0)\<rparr>)
     }
   }"

definition shell_report :: "'a program \<Rightarrow> int \<Rightarrow> 'a tty_scheme \<Rightarrow> 'a tty_scheme option" where
  "shell_report P rval s =
     (if rval = -1 then says P (line ''no such command'') s
      else if rval = 256 then says P (line ''program terminated by exception'') s
      else if rval \<noteq> 0 then says P (line ''program terminated abnormally'') s
      else Some s)"

partial_function (option) shell_loop ::
  "'a program \<Rightarrow> (addr \<Rightarrow> 'a tty_scheme \<Rightarrow> (int \<times> 'a tty_scheme) option) \<Rightarrow> addr \<Rightarrow> 'a tty_scheme \<Rightarrow>
    (int \<times> 'a tty_scheme) option" where
  "shell_loop P run buf s = do {
     (turn, s) \<leftarrow> shell_read P buf s;
     case turn of
       Return r \<Rightarrow> Some (r, s)
     | Prompt_again \<Rightarrow> shell_loop P run buf s
     | Run_command \<Rightarrow> do {
         (rval, s) \<leftarrow> run buf s;
         s \<leftarrow> shell_report P rval s;
         shell_loop P run buf s
       }
   }"

definition shell_main :: "'a program \<Rightarrow> (addr \<Rightarrow> 'a tty_scheme \<Rightarrow> (int \<times> 'a tty_scheme) option) \<Rightarrow> addr \<Rightarrow>
    'a tty_scheme \<Rightarrow> (int \<times> 'a tty_scheme) option" where
  "shell_main P run buf s = do {
     s \<leftarrow> says P (line ''Starting 391 Shell'') s;
     shell_loop P run buf s
   }"

subsection \<open>Reading in chunks\<close>

text \<open>
  What the loop needs of its source: a chunk at a time is read and written out as long as
  something is left; then the end is reported as 0, or with -1 by a source that cannot.
\<close>

locale chunk_source = report ready shown
  for ready :: "'s \<Rightarrow> bool" and shown :: "'m list \<Rightarrow> 's \<Rightarrow> 's \<Rightarrow> bool" +
  fixes fetch :: "'s \<Rightarrow> (int \<times> 's) option" and emit :: "int \<Rightarrow> 's \<Rightarrow> (int \<times> 's) option" and left :: "'s \<Rightarrow> 'm list"
    and ending :: int
  assumes chunk: "ready s \<Longrightarrow> left s \<noteq> [] \<Longrightarrow> \<exists>c t r u xs. fetch s = Some (c, t) \<and> 0 < c \<and> emit c t = Some (r, u) \<and>
      r \<noteq> -1 \<and> ready u \<and> xs \<noteq> [] \<and> left s = xs @ left u \<and> shown xs s u"
    and finish: "ready s \<Longrightarrow> left s = [] \<Longrightarrow> fetch s = Some (ending, s)"
    and ending: "ending = 0 \<or> ending = -1"
begin

lemma read_loop_shows:
  "ready s \<Longrightarrow> \<exists>t. shown (left s) s t \<and>
    read_loop fetch failed emit s = (if ending = 0 then Some (0, t) else do { t \<leftarrow> failed t; Some (3, t) })"
proof (induction "length (left s)" arbitrary: s rule: less_induct)
  case less
  show ?case
  proof (cases "left s = []")
    case True
    then have "fetch s = Some (ending, s)" "shown [] s s" using finish shown_Nil less.prems by blast+
    then show ?thesis using True ending by (subst read_loop.simps) auto
  next
    case False
    obtain c t r u xs where c: "fetch s = Some (c, t)" "0 < c" "emit c t = Some (r, u)" "r \<noteq> -1" "ready u"
      "xs \<noteq> []" "left s = xs @ left u" "shown xs s u"
      using chunk [OF less.prems False] by blast
    have "length (left u) < length (left s)" using c(6,7) by simp
    then obtain v where v: "shown (left u) u v"
      "read_loop fetch failed emit u = (if ending = 0 then Some (0, v) else do { t \<leftarrow> failed v; Some (3, t) })"
      using less.hyps c(5) by blast
    have "read_loop fetch failed emit s = read_loop fetch failed emit u"
      using c(1-4) by (subst read_loop.simps) simp
    then show ?thesis using shown_append [OF c(8) v(1)] c(7) v(2) by auto
  qed
qed

end

subsection \<open>cat: the file on the screen\<close>

text \<open>
  The last byte \<open>cat\<close> shows: the end of the file, except when it lies in the last quarter of a
  block; then the 1024 bytes that reach the end of the block are read whole.
\<close>

definition shown_end :: "nat \<Rightarrow> nat" where
  "shown_end n = (if n mod 4096 > 3072 then (n div 4096 + 1) * 4096 else n)"

lemma shown_end_ge: "n \<le> shown_end n"
  using dividend_less_div_times [of 4096 n] by (simp add: shown_end_def)

lemma shown_end_unique:
  assumes "4096 * q \<le> n" "n < 4096 * Suc q"
  shows "shown_end n = (if n - 4096 * q > 3072 then 4096 * Suc q else n)"
proof -
  define r where "r = n - 4096 * q"
  have r: "n = r + 4096 * q" "r < 4096" using assms by (simp_all add: r_def)
  then have "n div 4096 = q" "n mod 4096 = r" by simp_all
  then show ?thesis unfolding shown_end_def r_def [symmetric] by simp
qed

lemma read_end_step:
  assumes p: "p mod 1024 = 0" "p < n"
  defines "E \<equiv> read_end n p 1024"
  shows "p < E" "E \<le> shown_end n" "E mod 1024 = 0 \<or> shown_end n \<le> E" "E \<le> p + 1024"
proof -
  define j where "j = p div 1024"
  define q where "q = Suc j div 4"
  define r where "r = Suc j mod 4"
  have j: "p = 1024 * j" using p(1) by (simp add: j_def mult.commute mod_eq_0_iff_dvd)
  have qr: "Suc j = r + 4 * q" "r < 4" by (simp_all add: q_def r_def)
  have p': "p + 1024 = 1024 * r + 4096 * q" using j qr(1) by simp
  then have last: "(p + 1024) div 4096 = q" using qr(2) by simp
  have "p < E \<and> E \<le> shown_end n \<and> (E mod 1024 = 0 \<or> shown_end n \<le> E) \<and> E \<le> p + 1024"
  proof (cases "q * 4096 > n")
    case True
    then have E: "E = q * 4096" unfolding E_def read_end_def last Let_def by simp
    have r0: "r = 0" using True p' p(2) by simp
    then obtain k where k: "q = Suc k" "E = p + 1024" "p = 4096 * k + 3072" using p' E True by (cases q) simp_all
    have "shown_end n = 4096 * Suc k"
      using shown_end_unique [of k n] True p(2) k by simp
    then show ?thesis using E k by simp
  next
    case False
    then have E: "E = min (p + 1024) n" unfolding E_def read_end_def last Let_def by simp
    show ?thesis
    proof (cases "p + 1024 \<le> n")
      case True
      have "(p + 1024) mod 1024 = 0" using p(1) by simp
      then show ?thesis using True E shown_end_ge [of n] by (simp add: min_def)
    next
      case n: False
      have "n < 4096 * q + 3072" using n p' qr(2) by simp
      then have "shown_end n = n" using shown_end_unique [of q n] False by (simp add: mult.commute)
      then show ?thesis using n E p(2) by simp
    qed
  qed
  then show "p < E" "E \<le> shown_end n" "E mod 1024 = 0 \<or> shown_end n \<le> E" "E \<le> p + 1024" by simp_all
qed

text \<open>One read of an open file.\<close>

lemma read_file:
  fixes s :: "'a tty_scheme"
  assumes ok: "program_ok s" and k: "2 \<le> k" "k < 8" and f: "f = fd_array s ! k" "flags f \<noteq> 0" "fops f = Some File_fops"
    and img: "image_apart (memory s) (boot_block s)" "inode f < boot_inodes (memory s) (boot_block s)"
    and buf: "user_range buf n" "n < 2 ^ 31" "buf \<noteq> 0" "unat (file_position f) + n < 1023 * 4096"
  defines "p \<equiv> unat (file_position f)" and "N \<equiv> file_size (memory s) (boot_block s) (inode f)"
  shows "ece391_read P (int k) buf (int n) s =
    (if N \<le> p then Some (0, s)
     else Some (int (read_end N p n - p), upd_fd (tasks_running s) k (\<lambda>f. f\<lparr>file_position := of_nat (read_end N p n)\<rparr>)
       (s\<lparr>memory := put (memory s) buf (map (file_byte (memory s) (boot_block s) (inode f)) [p..<read_end N p n])\<rparr>)))"
proof -
  note d = program_okD [OF ok]
  let ?m = "memory s" and ?bb = "boot_block s" and ?t = "tasks_running s" and ?w = "of_nat n :: u32"
  define E where "E = read_end N p n"
  have w: "unat ?w = n" using buf(2) by (simp add: unat_of_nat take_bit_nat_eq_self)
  have kw: "unat (of_nat k :: u32) = k" using k(2) by (simp add: unat_of_nat take_bit_nat_eq_self)
  then have kk: "\<not> (of_nat k :: u32) > 7" "(of_nat k :: u32) \<noteq> 1"
    using k by (auto simp: word_less_nat_alt)
  have E: "E - p \<le> n"
  proof -
    have "(p + n) div 4096 * 4096 \<le> p + n" by (rule div_times_less_eq_dividend)
    then show ?thesis unfolding E_def read_end_def Let_def by (auto split: if_splits)
  qed
  have off: "off_image ?m ?bb buf (read_end N (unat (file_position f)) (unat ?w) - unat (file_position f))"
    using user_off_image [OF img(1) buf(1) _ E] buf(2) by (simp add: E_def p_def w)
  have io: "image_ok ?m ?bb" using img(1) by (simp add: image_apart_def)
  have rd: "read_data ?bb (inode f) (file_position f) buf ?w ?m =
      (if N \<le> p then (0, ?m) else (int (E - p), put ?m buf (map (file_byte ?m ?bb (inode f)) [p..<E])))"
    using read_data_spec [OF io img(2) buf(3), of "file_position f" ?w, folded N_def, OF _ off] buf(4)
    unfolding w by (simp add: p_def E_def Let_def)
  have call: "ece391_read P (int k) buf (int n) s = fops_read File_fops (prog_irqs P) (prog_handlers P) ?t k buf ?w s"
    using f d(4) kk by (simp add: call_defs do_call_simps [OF ok] syscall_read_def fops_has_read_def kw Let_def)
  have fk: "fd (pcb_of ?t s) ! k = f" using f(1) by (simp add: fd_array_def)
  show ?thesis
  proof (cases "N \<le> p")
    case True
    have "upd_fd ?t k (\<lambda>f'. f'\<lparr>inode := inode f, file_position := file_position f\<rparr>) s = s"
    proof -
      have "upd_fd ?t k (\<lambda>f. f) s = s" by (simp add: upd_fd_def upd_pcb_def)
      then show ?thesis using fk upd_fd_const [of "\<lambda>f'. f'\<lparr>inode := inode f, file_position := file_position f\<rparr>" ?t s k "\<lambda>f. f"] by simp
    qed
    then show ?thesis
      using True rd by (simp add: call fops_read_def fk file_read_def)
  next
    case False
    have pos: "file_position f + (of_nat E - of_nat p) = of_nat E" "file_position f + of_nat (E - p) = of_nat E" if "p \<le> E"
      using that by (simp_all add: p_def of_nat_diff)
    have pE: "p \<le> E" using False unfolding E_def read_end_def Let_def by (auto split: if_splits)
    have same: "file_position f = of_nat E" if "\<not> p < E"
    proof -
      have "E = p" using that pE by simp
      then show ?thesis by (simp add: p_def)
    qed
    have "upd_fd ?t k (\<lambda>f'. f'\<lparr>inode := inode f, file_position := x\<rparr>) u = upd_fd ?t k (\<lambda>f'. f'\<lparr>file_position := x\<rparr>) u"
      if "fd (pcb_of ?t u) ! k = f" for u :: "'a tty_scheme" and x
      using that by (intro upd_fd_const) simp
    then show ?thesis
      using False rd pos [OF pE] same
      by (simp add: call fops_read_def fk file_read_def E_def [symmetric] Let_def)
  qed
qed

lemma shown_end_passed: "p mod 1024 = 0 \<Longrightarrow> n \<le> p \<Longrightarrow> shown_end n \<le> p"
proof -
  assume p: "p mod 1024 = 0" "n \<le> p"
  define j q r where "j = p div 1024" and "q = n div 4096" and "r = n mod 4096"
  have j: "p = 1024 * j" using p(1) by (simp add: j_def mult.commute mod_eq_0_iff_dvd)
  have n: "n = 4096 * q + r" "r < 4096" by (simp_all add: q_def r_def)
  show ?thesis
  proof (cases "r > 3072")
    case True
    then have "4 * q + 3 < j" using p(2) j n by simp
    then show ?thesis using True j by (simp add: shown_end_def r_def [symmetric] q_def [symmetric])
  next
    case False
    then show ?thesis using p(2) by (simp add: shown_end_def r_def [symmetric])
  qed
qed

definition file_left :: "nat \<Rightarrow> 'a tty_scheme \<Rightarrow> u8 list" where
  "file_left k s = (let f = fd_array s ! k; ino = inode f in
     map (file_byte (memory s) (boot_block s) ino)
       [unat (file_position f)..<shown_end (file_size (memory s) (boot_block s) ino)])"

definition cat_ready :: "nat \<Rightarrow> addr \<Rightarrow> 'a tty_scheme \<Rightarrow> bool" where
  "cat_ready k buf s \<longleftrightarrow> program_ok s \<and> cursor_ok s \<and> image_apart (memory s) (boot_block s) \<and>
     user_range buf 1024 \<and> 2 \<le> k \<and> k < 8 \<and>
     (let f = fd_array s ! k; N = file_size (memory s) (boot_block s) (inode f); p = unat (file_position f) in
       flags f \<noteq> 0 \<and> fops f = Some File_fops \<and> inode f < boot_inodes (memory s) (boot_block s) \<and>
       (p mod 1024 = 0 \<or> shown_end N \<le> p) \<and> p \<le> shown_end N)"

lemma user_range_nonzero: "user_range buf n \<Longrightarrow> 0 < n \<Longrightarrow> buf \<noteq> 0"
proof
  assume "user_range buf n" "0 < n" "buf = 0"
  then have "in_window 0" by (auto simp: user_range_def dest: spec [of _ 0])
  then show False using low_off_window [of 0 0] by simp
qed

text \<open>Files are smaller than the window a program is loaded into.\<close>

lemma shown_end_bound:
  assumes "image_apart m bb" "ino < boot_inodes m bb"
  shows "shown_end (file_size m bb ino) \<le> 0x200000"
proof -
  have "file_size m bb ino \<le> 0x200000" using assms by (auto simp: image_apart_def less_imp_le)
  then show ?thesis by (intro shown_end_passed) simp_all
qed

lemma file_left_same:
  fixes s t :: "'a tty_scheme"
  assumes img: "image_apart (memory s) (boot_block s)" and r: "runs buf n s t"
    and ino: "inode (fd_array t ! k) < boot_inodes (memory s) (boot_block s)"
  shows "file_size (memory t) (boot_block t) (inode (fd_array t ! k)) = file_size (memory s) (boot_block s) (inode (fd_array t ! k))"
    "boot_inodes (memory t) (boot_block t) = boot_inodes (memory s) (boot_block s)"
    "file_left k t = (let f = fd_array t ! k; ino = inode f in
     map (file_byte (memory s) (boot_block s) ino)
       [unat (file_position f)..<shown_end (file_size (memory s) (boot_block s) ino)])"
proof -
  let ?ino = "inode (fd_array t ! k)"
  note same = runs_image(2) [OF r img]
  have bb: "boot_block t = boot_block s" using r by (simp add: runs_def)
  have io: "image_ok (memory s) (boot_block s)" using img by (simp add: image_apart_def)
  show sz: "file_size (memory t) (boot_block t) ?ino = file_size (memory s) (boot_block s) ?ino"
    using same_image_inode(1) [OF same ino] by (simp add: bb)
  show "boot_inodes (memory t) (boot_block t) = boot_inodes (memory s) (boot_block s)"
    using same_image_boot(1) [OF same] by (simp add: bb)
  have "file_byte (memory t) (boot_block t) ?ino i = file_byte (memory s) (boot_block s) ?ino i"
    if "i < shown_end (file_size (memory s) (boot_block s) ?ino)" for i
  proof -
    have "i div 4096 < 1023" using that shown_end_bound [OF img ino] by (simp add: less_mult_imp_div_less)
    then show ?thesis using same_image_ok(3) [OF same io ino] by (simp add: bb)
  qed
  then show "file_left k t = (let f = fd_array t ! k; ino = inode f in
     map (file_byte (memory s) (boot_block s) ino)
       [unat (file_position f)..<shown_end (file_size (memory s) (boot_block s) ino)])"
    unfolding file_left_def Let_def sz by (intro map_cong) simp_all
qed

text \<open>What a read of a descriptor leaves behind: the bytes in the array, a position.\<close>

lemma outputs_fetch:
  fixes s :: "'a tty_scheme" and p :: u32
  assumes ok: "program_ok s" "cursor_ok s" "user_range buf n" "length xs \<le> n" "n < 2 ^ 32"
    and k: "2 \<le> k" "k < 8" "closable (fops (fd_array s ! k))"
  defines "t \<equiv> upd_fd (tasks_running s) k (\<lambda>f. f\<lparr>file_position := p\<rparr>) (s\<lparr>memory := put (memory s) buf xs\<rparr>)"
  shows "outputs buf n [] s t" "fd_array t ! k = (fd_array s ! k)\<lparr>file_position := p\<rparr>"
    "memory t = put (memory s) buf xs" "load (memory t) buf (length xs) = xs"
proof -
  define s1 where "s1 = s\<lparr>memory := put (memory s) buf xs\<rparr>"
  have fd1: "fd_array s1 = fd_array s" by (simp add: s1_def fd_array_def pcb_of_def)
  have t: "t = upd_fd (tasks_running s1) k (\<lambda>f. f\<lparr>file_position := p\<rparr>) s1" by (simp add: t_def s1_def)
  have o1: "outputs buf n [] s s1"
    unfolding s1_def using ok(1-3) put_outside_array [OF ok(4)] by (intro runs_memory(2)) simp_all
  have "outputs buf n [] s1 t"
    unfolding t using outputs_ok [OF o1] k(1,3) by (intro runs_upd_fd(2)) (simp_all add: fd1)
  with o1 show "outputs buf n [] s t" using outputs_trans by fastforce
  show "fd_array t ! k = (fd_array s ! k)\<lparr>file_position := p\<rparr>"
    using program_okD(5) [OF ok(1)] k(2) by (simp add: t fds_of_upd_fd fd1)
  show m: "memory t = put (memory s) buf xs" by (simp add: t_def)
  show "load (memory t) buf (length xs) = xs"
    using put_inside ok(4,5) by (intro nth_equalityI) (simp_all add: m)
qed

text \<open>And writing the first \<open>k\<close> bytes of the array.\<close>

lemma outputs_emit:
  fixes t :: "'a tty_scheme"
  assumes ot: "outputs buf n [] s t" and k: "user_range buf n" "k \<le> n" "n < 2 ^ 31" and xs: "load (memory t) buf k = xs"
  shows "\<exists>w u. ece391_write P 1 buf (int k) t = Some (w, u) \<and> 0 \<le> w \<and> outputs buf n xs s u \<and> fd_array u = fd_array t"
proof -
  note ok = conjunct1 [OF outputs_ok [OF ot]] conjunct2 [OF outputs_ok [OF ot]]
  have "user_range buf k" "k < 2 ^ 31" using k by (simp_all add: user_range_def)
  then obtain w where "ece391_write P 1 buf (int k) t = Some (w, fold putc xs t)" "0 \<le> w"
    using write_screen [OF ok(1), of buf k P] xs by auto
  moreover have "outputs buf n xs s (fold putc xs t)"
    using outputs_trans [OF ot outputs_print [OF ok, of buf n xs]] by simp
  ultimately show ?thesis using program_ok_print(3) [OF ok(1)] by blast
qed

lemma cat_chunk:
  fixes s :: "'a tty_scheme"
  assumes r: "cat_ready k buf s" and more: "file_left k s \<noteq> []"
  shows "\<exists>c t w u xs. ece391_read P (int k) buf 1024 s = Some (c, t) \<and> 0 < c \<and> ece391_write P 1 buf c t = Some (w, u) \<and>
    w \<noteq> -1 \<and> cat_ready k buf u \<and> xs \<noteq> [] \<and> file_left k s = xs @ file_left k u \<and> outputs buf 1024 xs s u"
proof -
  define f where "f = fd_array s ! k"
  define p where "p = unat (file_position f)"
  define N where "N = file_size (memory s) (boot_block s) (inode f)"
  define E where "E = read_end N p 1024"
  define xs where "xs = map (file_byte (memory s) (boot_block s) (inode f)) [p..<E]"
  have s: "program_ok s" "cursor_ok s" "image_apart (memory s) (boot_block s)" "user_range buf 1024" "2 \<le> k" "k < 8"
    "flags f \<noteq> 0" "fops f = Some File_fops" "inode f < boot_inodes (memory s) (boot_block s)"
    "p mod 1024 = 0 \<or> shown_end N \<le> p" "p \<le> shown_end N"
    using r by (simp_all add: cat_ready_def f_def p_def N_def Let_def)
  have left: "file_left k s = map (file_byte (memory s) (boot_block s) (inode f)) [p..<shown_end N]"
    by (simp add: file_left_def f_def p_def N_def Let_def)
  then have "p < shown_end N" using more by simp
  then have p: "p mod 1024 = 0" "p < N" using s(10) shown_end_passed [of p N] by (auto simp: not_le [symmetric])
  note E = read_end_step [OF p, folded E_def]
  have bound: "shown_end N \<le> 0x200000" using shown_end_bound [OF s(3,9)] by (simp add: N_def)
  have b0: "buf \<noteq> 0" using user_range_nonzero [OF s(4)] by simp
  have len: "length xs = E - p" "length xs \<le> 1024" using E(4) by (simp_all add: xs_def)
  define t where "t = upd_fd (tasks_running s) k (\<lambda>f. f\<lparr>file_position := of_nat E\<rparr>) (s\<lparr>memory := put (memory s) buf xs\<rparr>)"
  have "closable (fops (fd_array s ! k))" using s(8) by (simp add: f_def closable_def)
  note read = outputs_fetch [OF s(1,2,4) len(2) _ s(5,6) this, of "of_nat E", folded t_def, simplified]
  have "ece391_read P (int k) buf (int 1024) s = Some (int (E - p), t)"
    using read_file [OF s(1,5,6) f_def s(7,8,3,9,4) _ b0] p(2) bound s(11)
    by (simp add: p_def [symmetric] N_def [symmetric] E_def [symmetric] t_def xs_def)
  then have fetch: "ece391_read P (int k) buf 1024 s = Some (int (E - p), t)" by simp
  have ld: "load (memory t) buf (E - p) = xs" using read(4) by (simp add: len(1))
  obtain w u where w: "ece391_write P 1 buf (int (E - p)) t = Some (w, u)" "0 \<le> w"
    and ou: "outputs buf 1024 xs s u" and fd: "fd_array u = fd_array t"
    using outputs_emit [OF read(1) s(4) _ _ ld, of P] len by auto
  have ru: "runs buf 1024 s u" using ou by (simp add: outputs_def)
  have fu: "fd_array u ! k = f\<lparr>file_position := of_nat E\<rparr>" using read(2) by (simp add: fd f_def)
  have uE: "unat (of_nat E :: u32) = E" using E(2) bound by (simp add: unat_of_nat take_bit_nat_eq_self)
  have iu: "inode (fd_array u ! k) < boot_inodes (memory s) (boot_block s)" using s(9) by (simp add: fu)
  note keep = file_left_same [OF s(3) ru iu]
  have "cat_ready k buf u"
    using outputs_ok [OF ou] runs_image(1) [OF ru s(3)] s(4-9) keep(1,2) E(2,3)
    by (simp add: cat_ready_def fu uE Let_def N_def [symmetric])
  moreover have "file_left k s = xs @ file_left k u"
  proof -
    have "[p..<shown_end N] = [p..<E] @ [E..<shown_end N]" using E(1,2) upt_add_eq_append [of p E "shown_end N - E"] by simp
    then show ?thesis unfolding left keep(3) by (simp add: fu uE xs_def Let_def N_def [symmetric])
  qed
  moreover have "xs \<noteq> []" using E(1) by (simp add: xs_def)
  ultimately show ?thesis
    using fetch w ou E(1) by (intro exI [of _ "int (E - p)"] exI [of _ t] exI [of _ w] exI [of _ u] exI [of _ xs]) simp
qed

lemma cat_finish:
  fixes s :: "'a tty_scheme"
  assumes r: "cat_ready k buf s" and none: "file_left k s = []"
  shows "ece391_read P (int k) buf 1024 s = Some (0, s)"
proof -
  define f where "f = fd_array s ! k"
  define p where "p = unat (file_position f)"
  define N where "N = file_size (memory s) (boot_block s) (inode f)"
  have s: "program_ok s" "cursor_ok s" "image_apart (memory s) (boot_block s)" "user_range buf 1024" "2 \<le> k" "k < 8"
    "flags f \<noteq> 0" "fops f = Some File_fops" "inode f < boot_inodes (memory s) (boot_block s)" "p \<le> shown_end N"
    using r by (simp_all add: cat_ready_def f_def p_def N_def Let_def)
  have "p = shown_end N" using none s(10) by (auto simp: file_left_def f_def p_def N_def Let_def)
  then have "N \<le> p" "p \<le> 0x200000" using shown_end_ge shown_end_bound [OF s(3,9)] by (simp_all add: N_def)
  moreover have "buf \<noteq> 0" using user_range_nonzero [OF s(4)] by simp
  ultimately have "ece391_read P (int k) buf (int 1024) s = Some (0, s)"
    using read_file [OF s(1,5,6) f_def s(7,8,3,9,4)] by (simp add: p_def [symmetric] N_def [symmetric])
  then show ?thesis by simp
qed

interpretation cat: chunk_source "cat_ready k buf" "outputs buf 1024" "ece391_read P (int k) buf 1024"
  "\<lambda>c. ece391_write P 1 buf c" "file_left k" 0
  for k buf and P :: "'a program"
proof unfold_locales
  fix s t u :: "'a tty_scheme" and xs ys
  show "outputs buf 1024 [] s s" if "cat_ready k buf s" using that by (simp add: cat_ready_def outputs_refl)
  show "outputs buf 1024 (xs @ ys) s u" if "outputs buf 1024 xs s t" "outputs buf 1024 ys t u"
    using outputs_trans that by blast
qed (use cat_chunk cat_finish in blast)+

subsection \<open>Arguments\<close>

text \<open>What \<open>execute\<close> left in the control block of a program that has an argument.\<close>

definition argument_is :: "u8 list \<Rightarrow> 'a tty_scheme \<Rightarrow> bool" where
  "argument_is xs s \<longleftrightarrow> xs \<noteq> [] \<and> 0 \<notin> set xs \<and>
     (\<exists>rest. argument_buf (pcb_of (tasks_running s) s) = xs @ 0 # rest \<and> length (xs @ 0 # rest) = 129)"

lemma getargs_argument:
  fixes s :: "'a tty_scheme"
  assumes ok: "program_ok s" "cursor_ok s" and arg: "argument_is xs s" and buf: "user_range buf 1024"
  shows "\<exists>t. ece391_getargs P buf 1024 s = Some (0, t) \<and> outputs buf 1024 [] s t \<and> in_program (memory t) buf xs \<and>
    fd_array t = fd_array s"
proof -
  obtain rest where a: "argument_buf (pcb_of (tasks_running s) s) = xs @ 0 # rest" "length (xs @ 0 # rest) = 129"
    "xs \<noteq> []" "0 \<notin> set xs"
    using arg by (auto simp: argument_is_def)
  have len: "length xs < 129" using a(2) by simp
  define m where "m = put (memset (memory s) buf 0 1024) buf (xs @ 0 # rest)"
  define t where "t = s\<lparr>memory := m\<rparr>"
  have b0: "buf \<noteq> 0" using user_range_nonzero [OF buf] by simp
  have "m a' = memory s a'" if "\<not> unat (a' - buf) < 1024" for a'
    using that a(2) put_outside_array [of "xs @ 0 # rest" 1024 a' buf] by (simp add: m_def memset_filled filled_def)
  then have o: "outputs buf 1024 [] s t" unfolding t_def by (intro runs_memory(2) ok buf)
  have at: "m (buf + of_nat i) = (xs @ 0 # rest) ! i" if "i \<le> length xs" for i
    unfolding m_def using that a(2) by (intro put_inside) simp_all
  have "string_at m buf xs" using at len a(4) at [of "length xs"] by (simp add: string_at_def nth_append)
  then have "in_program (memory t) buf xs" using len buf by (simp add: in_program_def t_def user_range_def)
  moreover have "(xs @ 0 # rest) ! 0 \<noteq> 0" using a(3,4) by (cases xs) auto
  then have "syscall_getargs buf 1024 s = Some (0, t)"
    using a(1,2) b0 len strlen_buf_Cons [OF a(4), of rest]
    by (simp add: syscall_getargs_def NULL_CHAR_def ARGUMENT_SIZE_def t_def m_def word_less_nat_alt unat_of_nat take_bit_nat_eq_self Let_def)
  then have "ece391_getargs P buf 1024 s = Some (0, t)" by (simp add: call_defs do_call_simps [OF ok(1)])
  moreover have "fd_array t = fd_array s" by (simp add: t_def fd_array_def pcb_of_def)
  ultimately show ?thesis using o by blast
qed

text \<open>A program that has just been started by \<open>execute\<close>.\<close>

definition started :: "'a tty_scheme \<Rightarrow> bool" where
  "started s \<longleftrightarrow> program_ok s \<and> cursor_ok s \<and> fd_array s = std_fds \<and> image_apart (memory s) (boot_block s)"

lemma std_fds_first: "find_open_fd std_fds = Some 2" "std_fds ! 2 = empty_fd" "length std_fds = 8"
  by (simp_all add: find_open_fd_def std_fds_def empty_fd_def upt_rec)

text \<open>The file of a name, where there is one.\<close>

definition file_text :: "mem \<Rightarrow> addr \<Rightarrow> u32 \<Rightarrow> u8 list" where
  "file_text m bb ino = map (file_byte m bb ino) [0..<shown_end (file_size m bb ino)]"

lemma cat_opens:
  fixes s :: "'a tty_scheme"
  assumes "started s" "argument_is xs s" "user_range buf 1024"
  shows "\<exists>t. ece391_getargs P buf 1024 s = Some (0, t) \<and> outputs buf 1024 [] s t \<and> in_program (memory t) buf xs \<and>
    fd_array t = std_fds \<and> lookup (memory t) (boot_block t) xs = lookup (memory s) (boot_block s) xs \<and>
    (i < 63 \<longrightarrow> dentry_at (memory t) (entry_addr (boot_block t) (of_nat i)) = dentry_at (memory s) (entry_addr (boot_block s) (of_nat i)))"
proof -
  have s: "program_ok s" "cursor_ok s" "fd_array s = std_fds" "image_apart (memory s) (boot_block s)"
    using assms(1) by (simp_all add: started_def)
  obtain t where t: "ece391_getargs P buf 1024 s = Some (0, t)" "outputs buf 1024 [] s t" "in_program (memory t) buf xs"
    "fd_array t = std_fds"
    using getargs_argument [OF s(1,2) assms(2,3), of P] s(3) by auto
  have r: "runs buf 1024 s t" using t(2) by (simp add: outputs_def)
  have "boot_block t = boot_block s" using r by (simp add: runs_def)
  then show ?thesis
    using t same_image_lookup [OF runs_image(2) [OF r s(4)]] same_image_entry(2) [OF runs_image(2) [OF r s(4)]]
    by (intro exI [of _ t]) simp
qed

lemma cat_missing:
  fixes s :: "'a tty_scheme"
  assumes st: "started s" "argument_is xs s" "user_range buf 1024"
    and lit: "literals_at P (memory s) {line ''file not found''}" "literals_apart P {line ''file not found''} buf 1024"
    and none: "lookup (memory s) (boot_block s) xs = None"
  shows "\<exists>t. cat_main P buf s = Some (2, t) \<and> outputs buf 1024 (bytes (line ''file not found'')) s t"
proof -
  obtain t where t: "ece391_getargs P buf 1024 s = Some (0, t)" "outputs buf 1024 [] s t" "in_program (memory t) buf xs"
    "lookup (memory t) (boot_block t) xs = None"
    using cat_opens [OF st, of P] none by auto
  obtain u where u: "ece391_open P buf t = Some (-1, u)" "outputs buf 1024 [] t u"
    using open_missing [OF _ t(3), of P buf 1024] t(4) outputs_ok [OF t(2)] by blast
  have su: "outputs buf 1024 [] s u" using outputs_trans [OF t(2) u(2)] by simp
  have "literals_at P (memory u) {line ''file not found''}"
    using runs_literals [OF _ lit] su by (simp add: outputs_def)
  then obtain v where v: "says P (line ''file not found'') u = Some v" "outputs buf 1024 (bytes (line ''file not found'')) u v"
    using says_outputs [of u P "{line ''file not found''}" "line ''file not found''" buf 1024] outputs_ok [OF su] by auto
  have "cat_main P buf s = Some (2, v)" using t(1) u(1) v(1) by (simp add: cat_main_def)
  then show ?thesis using outputs_trans [OF su v(2)] by auto
qed

lemma lookup_name:
  assumes "lookup m bb xs = Some i"
  shows "i < 63" "length xs \<le> 32"
proof -
  have e: "i < 63" "entry_name m bb i = xs" using assms by (auto simp: lookup_def find_Some_iff)
  then show "i < 63" by simp
  show "length xs \<le> 32"
    using e(2) length_takeWhile_le [of "\<lambda>b. b \<noteq> 0" "load m (entry_addr bb (of_nat i)) 32"] by (simp add: entry_name_def)
qed

lemma cat_found:
  fixes s :: "'a tty_scheme"
  assumes st: "started s" "argument_is xs s" "user_range buf 1024"
    and i: "lookup (memory s) (boot_block s) xs = Some i"
    and d: "d = dentry_at (memory s) (entry_addr (boot_block s) (of_nat i))" "d_type d = 2"
      "d_inode d < boot_inodes (memory s) (boot_block s)"
  shows "\<exists>t. cat_main P buf s = Some (0, t) \<and> outputs buf 1024 (file_text (memory s) (boot_block s) (d_inode d)) s t"
proof -
  have img: "image_apart (memory s) (boot_block s)" using st(1) by (simp add: started_def)
  obtain t where t: "ece391_getargs P buf 1024 s = Some (0, t)" "outputs buf 1024 [] s t" "in_program (memory t) buf xs"
    "fd_array t = std_fds" "lookup (memory t) (boot_block t) xs = Some i"
    "d = dentry_at (memory t) (entry_addr (boot_block t) (of_nat i))"
    using cat_opens [OF st, of P i] i lookup_name(1) [OF i] d(1) by auto
  have ok: "program_ok t" "cursor_ok t" using outputs_ok [OF t(2)] by simp_all
  have xs: "xs \<noteq> []" "length xs \<le> 32" using st(2) lookup_name(2) [OF i] by (simp_all add: argument_is_def)
  have b0: "buf \<noteq> 0" using user_range_nonzero [OF st(3)] by simp
  have f: "find_open_fd (fd_array t) = Some 2" "d_type d \<in> {1, 2}" using std_fds_first(1) t(4) d(2) by simp_all
  obtain u where u: "ece391_open P buf t = Some (int 2, u)" "outputs buf 1024 [] t u"
    "fd_array u = std_fds[2 := opened_fd (type_fops (d_type d)) (d_inode d) (std_fds ! 2)]"
    using open_found [OF ok(1) t(3) b0 xs f(1) t(5,6) f(2), of P buf 1024] ok(2) t(4) by auto
  have su: "outputs buf 1024 [] s u" using outputs_trans [OF t(2) u(2)] by simp
  have ru: "runs buf 1024 s u" using su by (simp add: outputs_def)
  have fd2: "fd_array u ! 2 = empty_fd\<lparr>fops := Some File_fops, inode := d_inode d, flags := 1\<rparr>"
    unfolding u(3) using std_fds_first(2,3) d(2) by (simp add: opened_fd_def type_fops_def)
  have iu: "inode (fd_array u ! 2) < boot_inodes (memory s) (boot_block s)" using d(3) by (simp add: fd2)
  note keep = file_left_same [OF img ru iu]
  have "cat_ready 2 buf u"
    using outputs_ok [OF su] runs_image(1) [OF ru img] st(3) iu keep(2)
    by (simp add: cat_ready_def fd2 Let_def) (simp add: empty_fd_def)
  moreover have "file_left 2 u = file_text (memory s) (boot_block s) (d_inode d)"
    unfolding keep(3) fd2 by (simp add: file_text_def empty_fd_def Let_def)
  ultimately obtain v where v: "read_loop (ece391_read P (int 2) buf 1024) (says P (line ''file read failed''))
      (\<lambda>c. ece391_write P 1 buf c) u = Some (0, v)"
    "outputs buf 1024 (file_text (memory s) (boot_block s) (d_inode d)) u v"
    using cat.read_loop_shows [of 2 buf u P] by auto
  have "cat_main P buf s = Some (0, v)" using t(1) u(1) v(1) by (simp add: cat_main_def)
  then show ?thesis using outputs_trans [OF su v(2)] by auto
qed

text \<open>C8: \<open>cat\<close> shows the file. Started with the name of a file as its argument it returns 0 and
  the screen shows the bytes of the file in order, from the first to the last, in reads of
  1024; behind a file that ends in the last quarter of a block, the rest of that block is
  shown too. With a name that is not in the directory it returns 2 and says so. Its own memory
  outside the array, the kernel's and the files stay as they were.\<close>
theorem cat_prints_file:
  fixes s :: "'a tty_scheme"
  assumes "started s" "argument_is xs s" "user_range buf 1024"
    and "literals_at P (memory s) {line ''file not found''}" "literals_apart P {line ''file not found''} buf 1024"
  shows "case lookup (memory s) (boot_block s) xs of
      None \<Rightarrow> \<exists>t. cat_main P buf s = Some (2, t) \<and> runs buf 1024 s t \<and>
        text_of t = fold spec_putc (bytes (line ''file not found'')) (text_of s)
    | Some i \<Rightarrow> (let d = dentry_at (memory s) (entry_addr (boot_block s) (of_nat i)) in
        d_type d = 2 \<longrightarrow> d_inode d < boot_inodes (memory s) (boot_block s) \<longrightarrow>
        (\<exists>t. cat_main P buf s = Some (0, t) \<and> runs buf 1024 s t \<and>
          text_of t = fold spec_putc (file_text (memory s) (boot_block s) (d_inode d)) (text_of s)))"
proof -
  show ?thesis
  proof (cases "lookup (memory s) (boot_block s) xs")
    case None
    then show ?thesis using cat_missing [OF assms None] by (auto simp: outputs_def)
  next
    case (Some i)
    then show ?thesis
      using cat_found [OF assms(1-3) Some refl, of P] by (auto simp: outputs_def Let_def)
  qed
qed

text \<open>The sample machine with an argument in the control block of the program.\<close>

definition sample_started :: "u8 list \<Rightarrow> string list \<Rightarrow> u8 list \<Rightarrow> tty" where
  "sample_started xs X l = (sample_state X l)\<lparr>pcbs := (\<lambda>a. (demo_pcb 3 0)\<lparr>fd := std_fds,
     argument_buf := xs @ replicate (129 - length xs) 0\<rparr>)\<rparr>"

lemma sample_started_simps [simp]:
  "memory (sample_started xs X l) = sample_memory X" "boot_block (sample_started xs X l) = 0x100000"
  by (simp_all add: sample_started_def)

lemma sample_started_ok:
  assumes "plain_text X" "length l \<le> 126" "0 \<notin> set l"
  shows "started (sample_started xs X l)" "line_waits l (sample_started xs X l)"
    "xs \<noteq> [] \<Longrightarrow> 0 \<notin> set xs \<Longrightarrow> length xs < 129 \<Longrightarrow> argument_is xs (sample_started xs X l)"
proof -
  let ?s = "sample_started xs X l"
  note ok = sample_ok [OF assms(2,3), of X]
  have fd: "fd_array ?s = std_fds" by (simp add: sample_started_def sample_state_def demo_tty_def fd_array_def pcb_of_def)
  have same: "int_flag ?s = int_flag (sample_state X l)" "tasks_running ?s = tasks_running (sample_state X l)"
    "screen_x ?s = screen_x (sample_state X l)" "screen_y ?s = screen_y (sample_state X l)" "displayed ?s = displayed (sample_state X l)"
    by (simp_all add: sample_started_def displayed_def)
  have "terminals_ok ?s = terminals_ok (sample_state X l)"
    by (rule terminals_ok_same) (simp_all add: sample_started_def)
  then have "program_ok ?s" "cursor_ok ?s" using ok(1,2) std_fds_ok by (simp_all add: program_ok_def cursor_ok_def fd same)
  then show "started ?s" using sample_image(1) [OF assms(1)] by (simp add: started_def fd)
  show "line_waits l ?s" using ok(3) by (simp add: line_waits_def same)
  assume "xs \<noteq> []" "0 \<notin> set xs" "length xs < 129"
  then show "argument_is xs ?s"
    by (auto simp: argument_is_def sample_started_def pcb_of_def intro!: exI [of _ "replicate (128 - length xs) 0"]
        simp flip: replicate_Suc simp: Suc_diff_le)
qed

lemma sample_file: "plain_text X \<Longrightarrow> file_text (sample_memory X) 0x100000 0 = [0x7F, 0x45, 0x4C, 0x46, 0]"
proof -
  assume X: "plain_text X"
  note same = sample_same_image [OF X]
  have io: "image_ok sample_disk 0x100000" using sample_disk_ok by (simp add: image_apart_def)
  have i: "(0 :: u32) < boot_inodes sample_disk 0x100000" by (simp add: sample_disk_simps)
  have b: "file_byte (sample_memory X) 0x100000 0 k = sample_disk (0x102000 + of_nat k)" if "k < 4096" for k
    using same_image_ok(3) [OF same io i, of k] sample_disk_block [of 0] that
    by (simp add: file_byte_def block_addr_def sample_disk_simps)
  have "file_size (sample_memory X) 0x100000 0 = 5"
    using same_image_inode(1) [OF same i] by (simp add: sample_disk_simps)
  then show ?thesis
    by (simp add: file_text_def shown_end_def upt_rec b)
      (simp add: sample_disk_def shell_image_def elf_image_def demo_image_def)
qed

lemma cat_prints_file_witness:
  "(\<exists>t. cat_main (sample_program [line ''file not found'']) 0x8200000 (sample_started shell_name [line ''file not found''] []) = Some (0, t) \<and>
     text_of t = fold spec_putc [0x7F, 0x45, 0x4C, 0x46, 0] (text_of (sample_started shell_name [line ''file not found''] []))) \<and>
   (\<exists>t. cat_main (sample_program [line ''file not found'']) 0x8200000 (sample_started [0x78] [line ''file not found''] []) = Some (2, t))"
proof -
  define X where "X = [line ''file not found'']"
  have X: "plain_text X" by (simp add: X_def plain_text_def literal_image_def bytes_def line_def)
  have l: "literals_at (sample_program X) (sample_memory X) {line ''file not found''}"
    "literals_apart (sample_program X) {line ''file not found''} 0x8200000 1024"
    using sample_literals [OF X, of "{line ''file not found''}"] by (simp_all add: sample_memory_def X_def)
  have n: "shell_name \<noteq> []" "0 \<notin> set shell_name" "length shell_name < 129" "[0x78 :: u8] \<noteq> []" "0 \<notin> set [0x78 :: u8]"
    by (simp_all add: shell_name_def)
  note ok = sample_started_ok [OF X, of "[]"]
  have st: "started (sample_started xs X [])" for xs using ok(1) by simp
  have a: "argument_is shell_name (sample_started shell_name X [])" "argument_is [0x78] (sample_started [0x78] X [])"
    using ok(3) n by simp_all
  have lk: "lookup (sample_memory X) 0x100000 shell_name = Some 0" "lookup (sample_memory X) 0x100000 [0x78] = None"
    using sample_image(2) [OF X] sample_lookup by (simp_all add: shell_name_def)
  have d: "d_type (dentry_at (sample_memory X) (entry_addr 0x100000 0)) = 2" "d_inode (dentry_at (sample_memory X) (entry_addr 0x100000 0)) = 0"
    using sample_image(3) [OF X, of 0] sample_types [of 0]
    by (simp_all add: entry_addr_def dentry_at_def rd32_def sample_disk_def shell_image_def elf_image_def demo_image_def)
  have i: "(0 :: u32) < boot_inodes (sample_memory X) 0x100000"
    using same_image_boot(1) [OF sample_same_image [OF X]] by (simp add: sample_disk_simps)
  show ?thesis unfolding X_def [symmetric]
    using cat_prints_file [OF st a(1) sample_buffer [of 1024], of "sample_program X"] lk(1) d i l sample_file [OF X]
      cat_prints_file [OF st a(2) sample_buffer [of 1024], of "sample_program X"] lk(2)
    by auto
qed

end
