(* ===== verification/Listing.thy ===== *)
theory Listing
  imports Programs
begin

section \<open>ls\<close>

text \<open>
  The directory as \<open>ls\<close> shows it, as another source of the loop of \<open>cat\<close>: a read per entry,
  0 at the first entry without a name, and -1 behind the last of a directory that is full.
\<close>

definition named :: "mem \<Rightarrow> addr \<Rightarrow> nat \<Rightarrow> bool" where
  "named m bb i \<longleftrightarrow> entry_name m bb i \<noteq> []"

definition listing_from :: "mem \<Rightarrow> addr \<Rightarrow> nat \<Rightarrow> u8 list" where
  "listing_from m bb p = concat (map (\<lambda>i. entry_name m bb i @ [0x0A]) (takeWhile (named m bb) [p..<63]))"

definition directory_full :: "mem \<Rightarrow> addr \<Rightarrow> bool" where
  "directory_full m bb \<longleftrightarrow> (\<forall>i < 63. named m bb i)"

lemma listing_step:
  "p < 63 \<Longrightarrow> listing_from m bb p =
    (if named m bb p then entry_name m bb p @ 0x0A # listing_from m bb (Suc p) else [])"
  by (simp add: listing_from_def upt_conv_Cons)

lemma listing_end: "listing_from m bb 63 = []"
  by (simp add: listing_from_def)

lemma listing_Nil:
  assumes "p \<le> 63" "listing_from m bb p = []"
  shows "p = 63 \<or> \<not> named m bb p"
  using assms listing_step [of p m bb] by (cases "p = 63") (auto split: if_splits)

lemma listing_same:
  assumes "same_image bb m m'"
  shows "listing_from m' bb p = listing_from m bb p" "directory_full m' bb = directory_full m bb"
    "i < 63 \<Longrightarrow> named m' bb i = named m bb i"
proof -
  note e = same_image_entry(3) [OF assms]
  show n: "named m' bb i = named m bb i" if "i < 63" for i using e [OF that] by (simp add: named_def)
  have t: "takeWhile (named m' bb) [p..<63] = takeWhile (named m bb) [p..<63]"
    using n by (intro takeWhile_cong) simp_all
  show "listing_from m' bb p = listing_from m bb p"
    unfolding listing_from_def t by (intro arg_cong [where f = concat] map_cong refl) (auto dest!: set_takeWhileD simp: e)
  show "directory_full m' bb = directory_full m bb" using n by (simp add: directory_full_def)
qed

lemma entry_name_length: "length (entry_name m bb i) \<le> 32"
  using length_takeWhile_le [of "\<lambda>b. b \<noteq> 0" "load m (entry_addr bb (of_nat i)) 32"] by (simp add: entry_name_def)

text \<open>One read of an open directory.\<close>

lemma read_entry:
  fixes s :: "'a tty_scheme"
  assumes ok: "program_ok s" and k: "2 \<le> k" "k < 8"
    and f: "f = fd_array s ! k" "flags f \<noteq> 0" "fops f = Some Dir_fops" "file_position f = of_nat i" "i \<le> 63"
    and img: "image_apart (memory s) (boot_block s)" and nul: "\<exists>a. memory s a = 0" and buf: "user_range buf 32"
  defines "name \<equiv> entry_name (memory s) (boot_block s) i"
  shows "ece391_read P (int k) buf 32 s =
    (if i = 63 then Some (-1, s) else Some (int (length name),
       upd_fd (tasks_running s) k (\<lambda>f. f\<lparr>file_position := of_nat (if name = [] then i else Suc i)\<rparr>)
         (s\<lparr>memory := put (memory s) buf name\<rparr>)))"
proof -
  note d = program_okD [OF ok]
  let ?m = "memory s" and ?bb = "boot_block s" and ?t = "tasks_running s"
  have kw: "unat (of_nat k :: u32) = k" using k(2) by (simp add: unat_of_nat take_bit_nat_eq_self)
  then have kk: "\<not> (of_nat k :: u32) > 7" "(of_nat k :: u32) \<noteq> 1" using k by (auto simp: word_less_nat_alt)
  have call: "ece391_read P (int k) buf 32 s = fops_read Dir_fops (prog_irqs P) (prog_handlers P) ?t k buf 32 s"
    using f(1-3) d(4) kk by (simp add: call_defs do_call_simps [OF ok] syscall_read_def fops_has_read_def kw Let_def)
  have fk: "fd (pcb_of ?t s) ! k = f" using f(1) by (simp add: fd_array_def)
  have upd: "upd_fd ?t k (\<lambda>f'. f'\<lparr>inode := inode f, file_position := x\<rparr>) u = upd_fd ?t k (\<lambda>f'. f'\<lparr>file_position := x\<rparr>) u"
    if "fd (pcb_of ?t u) ! k = f" for u :: "'a tty_scheme" and x
    using that by (intro upd_fd_const) simp
  show ?thesis
  proof (cases "i = 63")
    case True
    have "directory_read 63 buf 32 s = Some (-1, s)" by (simp add: directory_read_def MAX_FILECOUNT_def)
    then have "dir_read (inode f) (file_position f) buf 32 s = Some (-1, inode f, file_position f, s)"
      using True by (simp add: dir_read_def f(4))
    moreover have "upd_fd ?t k (\<lambda>f. f) s = s" by (simp add: upd_fd_def upd_pcb_def)
    then have "upd_fd ?t k (\<lambda>f'. f'\<lparr>file_position := file_position f\<rparr>) s = s"
      using fk upd_fd_const [of "\<lambda>f'. f'\<lparr>file_position := file_position f\<rparr>" ?t s k "\<lambda>f. f"] by simp
    ultimately show ?thesis using True upd [OF fk, of "file_position f"] by (simp add: call fops_read_def fk)
  next
    case False
    then have i: "i < 63" using f(5) by simp
    have sz: "4096 \<le> image_size ?m ?bb" "image_size ?m ?bb \<le> 2 ^ 32"
      using img by (simp_all add: image_size_def image_apart_def image_ok_def)
    have "buf + of_nat a \<noteq> entry_addr ?bb (of_nat i) + of_nat b" if "a < 32" "b < 32" for a b
    proof -
      have "entry_addr ?bb (of_nat i) + of_nat b = ?bb + of_nat (64 + 64 * i + b)" by (simp add: entry_addr_def)
      moreover have "in_image ?m ?bb (?bb + of_nat (64 + 64 * i + b))" using that i sz by (intro in_image_offset) simp_all
      moreover have "in_window (buf + of_nat a)" using buf that by (simp add: user_range_def)
      then have "\<not> in_image ?m ?bb (buf + of_nat a)" using img scratch_cases(1) by (simp add: image_apart_def)
      ultimately show ?thesis by metis
    qed
    then have dj: "disjoint_regions buf (entry_addr ?bb (of_nat i)) 32" by (simp add: disjoint_regions_def)
    have b0: "buf \<noteq> 0" using user_range_nonzero [OF buf] by simp
    have "take 32 name = name" using entry_name_length by (simp add: name_def)
    then have "directory_read (of_nat i) buf 32 s = Some (int (length name), s\<lparr>memory := put ?m buf name\<rparr>)"
      using directory_read_name [OF i nul b0 dj, of 32] by (simp add: name_def Let_def)
    then have "dir_read (inode f) (file_position f) buf 32 s =
        Some (int (length name), inode f, of_nat (if name = [] then i else Suc i), s\<lparr>memory := put ?m buf name\<rparr>)"
      by (simp add: dir_read_def f(4) add.commute)
    moreover have "fd (pcb_of ?t (s\<lparr>memory := put ?m buf name\<rparr>)) ! k = f" using fk by (simp add: pcb_of_def)
    ultimately show ?thesis using False upd by (simp add: call fops_read_def fk)
  qed
qed

subsection \<open>The directory as a source of chunks\<close>

definition ls_literals :: "string set" where
  "ls_literals = {''.'', line ''directory open failed'', line ''directory entry read failed''}"

definition ls_ready :: "bool \<Rightarrow> 'a program \<Rightarrow> nat \<Rightarrow> addr \<Rightarrow> 'a tty_scheme \<Rightarrow> bool" where
  "ls_ready full P k buf s \<longleftrightarrow> program_ok s \<and> cursor_ok s \<and> image_apart (memory s) (boot_block s) \<and>
     user_range buf 33 \<and> 2 \<le> k \<and> k < 8 \<and>
     literals_at P (memory s) ls_literals \<and> literals_apart P ls_literals buf 33 \<and>
     directory_full (memory s) (boot_block s) = full \<and>
     (let f = fd_array s ! k; p = unat (file_position f) in
       flags f \<noteq> 0 \<and> fops f = Some Dir_fops \<and> p \<le> 63 \<and> (\<forall>i < p. named (memory s) (boot_block s) i))"

definition ls_left :: "nat \<Rightarrow> 'a tty_scheme \<Rightarrow> u8 list" where
  "ls_left k s = listing_from (memory s) (boot_block s) (unat (file_position (fd_array s ! k)))"

lemma literals_nul:
  assumes "literals_at P m X" "x \<in> X"
  shows "\<exists>a. m a = 0"
  using assms string_at_end [of m "prog_lit P x" "bytes x"] unfolding literals_at_def in_program_def by blast

lemma user_range_sub: "user_range buf n \<Longrightarrow> k \<le> n \<Longrightarrow> user_range buf k"
  by (simp add: user_range_def)

text \<open>Writing one entry out, with the newline behind it.\<close>

lemma ls_emit_entry:
  fixes t :: "'a tty_scheme"
  assumes ot: "outputs buf 33 [] s t" and buf: "user_range buf 33" and xs: "load (memory t) buf (length xs) = xs" "length xs \<le> 32"
  shows "\<exists>w u. ls_emit P buf (int (length xs)) t = Some (w, u) \<and> 0 \<le> w \<and> outputs buf 33 (xs @ [0x0A]) s u \<and>
    fd_array u = fd_array t"
proof -
  note ok = conjunct1 [OF outputs_ok [OF ot]] conjunct2 [OF outputs_ok [OF ot]]
  define t1 where "t1 = t\<lparr>memory := (memory t)(buf + of_nat (length xs) := 0x0A)\<rparr>"
  have "outputs buf 33 [] t t1" unfolding t1_def using xs(2) by (intro outputs_store ok buf) simp_all
  with ot have o1: "outputs buf 33 [] s t1" using outputs_trans by fastforce
  have "load (memory t1) buf (length xs) = load (memory t) buf (length xs)"
    using load_store [of "length xs" "length xs"] xs(2) by (simp add: t1_def)
  moreover have "load (memory t1) buf (Suc (length xs)) = load (memory t1) buf (length xs) @ [0x0A]" by (simp add: load_def t1_def)
  ultimately have "load (memory t1) buf (Suc (length xs)) = xs @ [0x0A]" using xs(1) by simp
  from outputs_emit [OF o1 buf _ _ this, of P] xs(2)
  obtain w u where w: "ece391_write P 1 buf (int (Suc (length xs))) t1 = Some (w, u)" "0 \<le> w"
    "outputs buf 33 (xs @ [0x0A]) s u" "fd_array u = fd_array t1"
    by auto
  have "fd_array t1 = fd_array t" by (simp add: t1_def fd_array_def pcb_of_def)
  moreover have "ls_emit P buf (int (length xs)) t = Some (w, u)"
    using w(1) by (simp add: ls_emit_def t1_def add.commute)
  ultimately show ?thesis using w by auto
qed

lemma ls_chunk:
  fixes s :: "'a tty_scheme"
  assumes r: "ls_ready full P k buf s" and more: "ls_left k s \<noteq> []"
  shows "\<exists>c t w u xs. ece391_read P (int k) buf 32 s = Some (c, t) \<and> 0 < c \<and> ls_emit P buf c t = Some (w, u) \<and>
    w \<noteq> -1 \<and> ls_ready full P k buf u \<and> xs \<noteq> [] \<and> ls_left k s = xs @ ls_left k u \<and> outputs buf 33 xs s u"
proof -
  let ?m = "memory s" and ?bb = "boot_block s"
  define f where "f = fd_array s ! k"
  define p where "p = unat (file_position f)"
  define name where "name = entry_name ?m ?bb p"
  have s: "program_ok s" "cursor_ok s" "image_apart ?m ?bb" "user_range buf 33" "2 \<le> k" "k < 8"
    "literals_at P ?m ls_literals" "literals_apart P ls_literals buf 33" "directory_full ?m ?bb = full"
    "flags f \<noteq> 0" "fops f = Some Dir_fops" "p \<le> 63" "\<forall>i < p. named ?m ?bb i"
    using r by (simp_all add: ls_ready_def f_def p_def Let_def)
  have pos: "file_position f = of_nat p" by (simp add: p_def)
  have left: "ls_left k s = listing_from ?m ?bb p" by (simp add: ls_left_def f_def p_def)
  then have p: "p < 63" using more listing_end s(12) by (cases "p = 63") auto
  then have nm: "named ?m ?bb p" using more left listing_step [OF p, of ?m ?bb] by (auto split: if_splits)
  then have name: "name \<noteq> []" "length name \<le> 32" using entry_name_length by (simp_all add: named_def name_def)
  define t where "t = upd_fd (tasks_running s) k (\<lambda>f. f\<lparr>file_position := of_nat (Suc p)\<rparr>) (s\<lparr>memory := put ?m buf name\<rparr>)"
  have "closable (fops (fd_array s ! k))" using s(11) by (simp add: f_def closable_def)
  moreover have "length name \<le> 33" using name(2) by simp
  ultimately have read: "outputs buf 33 [] s t" "fd_array t ! k = (fd_array s ! k)\<lparr>file_position := of_nat (Suc p)\<rparr>"
    "load (memory t) buf (length name) = name"
    using outputs_fetch [OF s(1,2,4) _ _ s(5,6), of name "of_nat (Suc p)", folded t_def] by simp_all
  have fetch: "ece391_read P (int k) buf 32 s = Some (int (length name), t)"
    using read_entry [OF s(1,5,6) f_def s(10,11) pos s(12,3) literals_nul [OF s(7)] user_range_sub [OF s(4)], of "''.''" P] p name(1)
    by (simp add: name_def [symmetric] t_def ls_literals_def)
  obtain w u where w: "ls_emit P buf (int (length name)) t = Some (w, u)" "0 \<le> w"
    and ou: "outputs buf 33 (name @ [0x0A]) s u" and fd: "fd_array u = fd_array t"
    using ls_emit_entry [OF read(1) s(4) read(3) name(2), of P] by blast
  have ru: "runs buf 33 s u" using ou by (simp add: outputs_def)
  have bb: "boot_block u = ?bb" using ru by (simp add: runs_def)
  note same = listing_same [OF runs_image(2) [OF ru s(3)]]
  have fu: "fd_array u ! k = f\<lparr>file_position := of_nat (Suc p)\<rparr>" using read(2) by (simp add: fd f_def)
  have "unat (of_nat (Suc p) :: u32) = Suc p" using p by (simp only: unat_of_nat) (simp add: take_bit_nat_eq_self)
  then have up: "unat (file_position (fd_array u ! k)) = Suc p" unfolding fu by simp
  have "named (memory u) ?bb i" if "i < Suc p" for i using that s(13) nm p same(3) [of i] by (auto simp: less_Suc_eq)
  moreover have "literals_at P (memory u) ls_literals" using runs_literals [OF ru s(7,8)] by simp
  ultimately have "ls_ready full P k buf u"
    using outputs_ok [OF ou] runs_image(1) [OF ru s(3)] s(4-6,8-11) p
    by (simp add: ls_ready_def up same(2) bb Let_def) (simp add: fu)
  moreover have "ls_left k u = listing_from ?m ?bb (Suc p)" by (simp only: ls_left_def up bb same(1))
  then have "ls_left k s = (name @ [0x0A]) @ ls_left k u"
    using listing_step [OF p, of ?m ?bb] nm by (simp add: left name_def)
  ultimately show ?thesis using fetch w ou name(1)
    by (intro exI [of _ "int (length name)"] exI [of _ t] exI [of _ w] exI [of _ u] exI [of _ "name @ [0x0A]"]) simp
qed

lemma ls_finish:
  fixes s :: "'a tty_scheme"
  assumes r: "ls_ready full P k buf s" and none: "ls_left k s = []"
  shows "ece391_read P (int k) buf 32 s = Some (if full then -1 else 0, s)"
proof -
  let ?m = "memory s" and ?bb = "boot_block s"
  define f where "f = fd_array s ! k"
  define p where "p = unat (file_position f)"
  have s: "program_ok s" "image_apart ?m ?bb" "user_range buf 33" "2 \<le> k" "k < 8"
    "literals_at P ?m ls_literals" "directory_full ?m ?bb = full"
    "flags f \<noteq> 0" "fops f = Some Dir_fops" "p \<le> 63" "\<forall>i < p. named ?m ?bb i"
    using r by (simp_all add: ls_ready_def f_def p_def Let_def)
  have pos: "file_position f = of_nat p" by (simp add: p_def)
  have "p = 63 \<and> full \<or> p < 63 \<and> \<not> full \<and> entry_name ?m ?bb p = []"
    using listing_Nil [OF s(10), of ?m ?bb] none s(7,10,11)
    by (auto simp: ls_left_def f_def [symmetric] p_def [symmetric] directory_full_def named_def)
  moreover have "upd_fd (tasks_running s) k (\<lambda>f. f\<lparr>file_position := of_nat p\<rparr>) s = s"
  proof -
    have "upd_fd (tasks_running s) k (\<lambda>f. f) s = s" by (simp add: upd_fd_def upd_pcb_def)
    then show ?thesis
      using upd_fd_const [of "\<lambda>f. f\<lparr>file_position := of_nat p\<rparr>" "tasks_running s" s k "\<lambda>f. f"]
      by (simp add: f_def [symmetric] fd_array_def [symmetric] p_def)
  qed
  ultimately show ?thesis
    using read_entry [OF s(1,4,5) f_def s(8,9) pos s(10,2) literals_nul [OF s(6)] user_range_sub [OF s(3)], of "''.''" P]
    by (auto simp: ls_literals_def)
qed

interpretation ls: chunk_source "ls_ready full P k buf" "outputs buf 33" "ece391_read P (int k) buf 32" "ls_emit P buf"
  "ls_left k" "if full then -1 else 0"
  for full k buf and P :: "'a program"
proof unfold_locales
  fix s t u :: "'a tty_scheme" and xs ys
  show "outputs buf 33 [] s s" if "ls_ready full P k buf s" using that by (simp add: ls_ready_def outputs_refl)
  show "outputs buf 33 (xs @ ys) s u" if "outputs buf 33 xs s t" "outputs buf 33 ys t u"
    using outputs_trans that by blast
qed (use ls_chunk ls_finish in \<open>(blast | simp)+\<close>)

subsection \<open>The program\<close>

text \<open>Opening the directory, by a program that has nothing open yet.\<close>

lemma open_directory:
  fixes s :: "'a tty_scheme"
  assumes ok: "program_ok s" "cursor_ok s" "fd_array s = std_fds" and lit: "literals_at P (memory s) X" "''.'' \<in> X"
    and i: "lookup (memory s) (boot_block s) (bytes ''.'') = Some i"
    and d: "d_type (dentry_at (memory s) (entry_addr (boot_block s) (of_nat i))) = 1"
  shows "\<exists>t. ece391_open P (prog_lit P ''.'') s = Some (2, t) \<and> outputs buf n [] s t \<and> memory t = memory s \<and>
    boot_block t = boot_block s \<and> flags (fd_array t ! 2) \<noteq> 0 \<and> fops (fd_array t ! 2) = Some Dir_fops \<and>
    file_position (fd_array t ! 2) = 0 \<and> (\<forall>k. 3 \<le> k \<and> k < 8 \<longrightarrow> fd_array t ! k = empty_fd)"
proof -
  have name: "in_program (memory s) (prog_lit P ''.'') (bytes ''.'')" using lit by (simp add: literals_at_def)
  have "user_range (prog_lit P ''.'') 1"
    using name by (auto simp: in_program_def user_range_def bytes_def dest!: spec [of _ 0])
  then have a: "prog_lit P ''.'' \<noteq> 0" "bytes ''.'' \<noteq> []" "length (bytes ''.'') \<le> 32"
    using user_range_nonzero by (auto simp: bytes_def)
  obtain t where t: "ece391_open P (prog_lit P ''.'') s = Some (int 2, t)" "outputs buf n [] s t" "memory t = memory s"
    "fd_array t = std_fds[2 := opened_fd (type_fops 1) (d_inode (dentry_at (memory s) (entry_addr (boot_block s) (of_nat i)))) (std_fds ! 2)]"
    using open_found [OF ok(1) name a _ i refl, of 2 P buf n] d ok(2,3) std_fds_first(1) by auto
  have "boot_block t = boot_block s" using t(2) by (simp add: outputs_def runs_def)
  moreover have "flags (fd_array t ! 2) \<noteq> 0" "fops (fd_array t ! 2) = Some Dir_fops" "file_position (fd_array t ! 2) = 0"
    unfolding t(4) using std_fds_first(2,3) by (simp_all add: opened_fd_def type_fops_def) (simp add: empty_fd_def)
  moreover have "fd_array t ! k = empty_fd" if "3 \<le> k" "k < 8" for k
    using that by (auto simp: t(4) std_fds_def nth_Cons less_Suc_eq split: nat.splits)
  ultimately show ?thesis using t(1-3) by (intro exI [of _ t]) simp
qed

lemma open_no_directory:
  fixes s :: "'a tty_scheme"
  assumes ok: "program_ok s" "cursor_ok s" and lit: "literals_at P (memory s) X" "literals_apart P X buf n" "n \<le> 2 ^ 32"
    and x: "''.'' \<in> X" "x \<in> X" and none: "lookup (memory s) (boot_block s) (bytes ''.'') = None"
  shows "\<exists>t u. ece391_open P (prog_lit P ''.'') s = Some (-1, t) \<and> says P x t = Some u \<and> outputs buf n (bytes x) s u"
proof -
  have name: "in_program (memory s) (prog_lit P ''.'') (bytes ''.'')" using lit(1) x(1) by (simp add: literals_at_def)
  obtain t where t: "ece391_open P (prog_lit P ''.'') s = Some (-1, t)" "outputs buf n [] s t"
    using open_missing [OF ok(1) name disjI2 [OF none], of P buf n] ok(2) by auto
  have "literals_at P (memory t) X" using runs_literals [OF _ lit] t(2) by (simp add: outputs_def)
  then obtain u where u: "says P x t = Some u" "outputs buf n (bytes x) t u"
    using says_outputs [of t P X x buf n] x(2) outputs_ok [OF t(2)] by auto
  show ?thesis using t(1) u(1) outputs_trans [OF t(2) u(2)] by auto
qed

lemma ls_missing:
  fixes s :: "'a tty_scheme"
  assumes st: "started s" and lit: "literals_at P (memory s) ls_literals" "literals_apart P ls_literals buf 33"
    and none: "lookup (memory s) (boot_block s) (bytes ''.'') = None"
  shows "\<exists>t. ls_main P buf s = Some (2, t) \<and> outputs buf 33 (bytes (line ''directory open failed'')) s t"
proof -
  have s: "program_ok s" "cursor_ok s" using st by (simp_all add: started_def)
  have x: "''.'' \<in> ls_literals" "line ''directory open failed'' \<in> ls_literals" by (simp_all add: ls_literals_def)
  show ?thesis using open_no_directory [OF s lit _ x none] by (auto simp: ls_main_def)
qed

lemma ls_opens:
  fixes s :: "'a tty_scheme"
  assumes st: "started s" "user_range buf 33"
    and lit: "literals_at P (memory s) ls_literals" "literals_apart P ls_literals buf 33"
    and i: "lookup (memory s) (boot_block s) (bytes ''.'') = Some i"
    and d: "d_type (dentry_at (memory s) (entry_addr (boot_block s) (of_nat i))) = 1"
  shows "\<exists>t. ece391_open P (prog_lit P ''.'') s = Some (2, t) \<and> outputs buf 33 [] s t \<and>
    ls_ready (directory_full (memory s) (boot_block s)) P 2 buf t \<and> ls_left 2 t = listing_from (memory s) (boot_block s) 0"
proof -
  have s: "program_ok s" "cursor_ok s" "fd_array s = std_fds" "image_apart (memory s) (boot_block s)"
    using st(1) by (simp_all add: started_def)
  have x: "''.'' \<in> ls_literals" by (simp add: ls_literals_def)
  obtain t where t: "ece391_open P (prog_lit P ''.'') s = Some (2, t)" "outputs buf 33 [] s t" "memory t = memory s"
    "boot_block t = boot_block s" "flags (fd_array t ! 2) \<noteq> 0" "fops (fd_array t ! 2) = Some Dir_fops"
    "file_position (fd_array t ! 2) = 0"
    using open_directory [OF s(1-3) lit(1) x i d, of buf 33] by blast
  then have "ls_ready (directory_full (memory s) (boot_block s)) P 2 buf t"
    using outputs_ok [OF t(2)] st(2) lit s(4) by (simp add: ls_ready_def Let_def)
  moreover have "ls_left 2 t = listing_from (memory s) (boot_block s) 0" by (simp add: ls_left_def t(3,4,7))
  ultimately show ?thesis using t(1,2) by auto
qed

text \<open>C9: \<open>ls\<close> shows the directory. It prints the names of the entries in their order, one to a
  line, up to the first entry without a name, and returns 0; names of 32 bytes, which have no
  NUL, are shown whole. In a directory whose 63 entries all have a name it reads on behind the
  last, so after showing them all it reports a failed read and returns 3. Without an entry
  ``.'' it reports that and returns 2.\<close>
theorem ls_lists_directory:
  fixes s :: "'a tty_scheme"
  assumes "started s" "user_range buf 33"
    and "literals_at P (memory s) ls_literals" "literals_apart P ls_literals buf 33"
  shows "case lookup (memory s) (boot_block s) (bytes ''.'') of
      None \<Rightarrow> \<exists>t. ls_main P buf s = Some (2, t) \<and> runs buf 33 s t \<and>
        text_of t = fold spec_putc (bytes (line ''directory open failed'')) (text_of s)
    | Some i \<Rightarrow> d_type (dentry_at (memory s) (entry_addr (boot_block s) (of_nat i))) = 1 \<longrightarrow>
        (\<exists>t. ls_main P buf s = Some (if directory_full (memory s) (boot_block s) then 3 else 0, t) \<and> runs buf 33 s t \<and>
          text_of t = fold spec_putc (listing_from (memory s) (boot_block s) 0 @
            (if directory_full (memory s) (boot_block s) then bytes (line ''directory entry read failed'') else [])) (text_of s))"
proof (cases "lookup (memory s) (boot_block s) (bytes ''.'')")
  case None
  then show ?thesis using ls_missing [OF assms(1,3,4) None] by (auto simp: outputs_def)
next
  case (Some i)
  let ?d = "dentry_at (memory s) (entry_addr (boot_block s) (of_nat i))" and ?full = "directory_full (memory s) (boot_block s)"
  let ?msg = "line ''directory entry read failed''"
  have "\<exists>t. ls_main P buf s = Some (if ?full then 3 else 0, t) \<and>
      outputs buf 33 (listing_from (memory s) (boot_block s) 0 @ (if ?full then bytes ?msg else [])) s t" if d: "d_type ?d = 1"
  proof -
    obtain t where t: "ece391_open P (prog_lit P ''.'') s = Some (2, t)" "outputs buf 33 [] s t" "ls_ready ?full P 2 buf t"
      "ls_left 2 t = listing_from (memory s) (boot_block s) 0"
      using ls_opens [OF assms Some d] by blast
    obtain u where u: "outputs buf 33 (ls_left 2 t) t u" "read_loop (ece391_read P (int 2) buf 32) (says P ?msg) (ls_emit P buf) t =
        (if (if ?full then -1 else 0 :: int) = 0 then Some (0, u) else do { t \<leftarrow> says P ?msg u; Some (3, t) })"
      using ls.read_loop_shows [OF t(3)] by blast
    have o: "outputs buf 33 (listing_from (memory s) (boot_block s) 0) s u" using outputs_trans [OF t(2) u(1)] t(4) by simp
    have "literals_at P (memory u) ls_literals" using runs_literals [OF _ assms(3,4)] o by (simp add: outputs_def)
    moreover have "?msg \<in> ls_literals" by (simp add: ls_literals_def)
    ultimately obtain v where v: "says P ?msg u = Some v" "outputs buf 33 (bytes ?msg) u v"
      using says_outputs [of u P ls_literals ?msg buf 33] outputs_ok [OF o] by blast
    show ?thesis using t(1) u(2) v(1) o outputs_trans [OF o v(2)] by (simp add: ls_main_def)
  qed
  then show ?thesis using Some by (auto simp: outputs_def)
qed

lemma ls_lists_directory_witness:
  "\<exists>t. ls_main (sample_program [''.'', line ''directory open failed'', line ''directory entry read failed'']) 0x8200000
      (sample_started [0x78] [''.'', line ''directory open failed'', line ''directory entry read failed''] []) = Some (0, t) \<and>
    text_of t = fold spec_putc (shell_name @ [0x0A, 0x2E, 0x0A])
      (text_of (sample_started [0x78] [''.'', line ''directory open failed'', line ''directory entry read failed''] []))"
proof -
  define X where "X = [''.'', line ''directory open failed'', line ''directory entry read failed'']"
  have X: "plain_text X" by (simp add: X_def plain_text_def literal_image_def bytes_def line_def)
  have l: "literals_at (sample_program X) (sample_memory X) ls_literals" "literals_apart (sample_program X) ls_literals 0x8200000 33"
    using sample_literals [OF X, of ls_literals] by (simp_all add: sample_memory_def X_def ls_literals_def)
  have st: "started (sample_started [0x78] X [])" using sample_started_ok(1) [OF X, of "[]"] by simp
  have dot: "bytes ''.'' = [0x2E]" by (simp add: bytes_def)
  have lk: "lookup (sample_memory X) 0x100000 [0x2E] = Some 1"
    using sample_image(2) [OF X] sample_lookup by (simp add: shell_name_def)
  have d: "d_type (dentry_at (sample_memory X) (entry_addr 0x100000 1)) = 1"
    using sample_image(3) [OF X, of 1] sample_types [of 1] by simp
  have e: "entry_name (sample_memory X) 0x100000 i = (if i = 0 then shell_name else if i = 1 then [0x2E] else [])" if "i < 63" for i
    using sample_image(4) [OF X that] sample_entry_name [OF that] by simp
  have "listing_from (sample_memory X) 0x100000 0 = shell_name @ [0x0A, 0x2E, 0x0A]"
    by (simp add: listing_step named_def e shell_name_def)
  moreover have "\<not> directory_full (sample_memory X) 0x100000"
    using e [of 2] by (auto simp: directory_full_def named_def intro!: exI [of _ 2])
  ultimately show ?thesis unfolding X_def [symmetric]
    using ls_lists_directory [OF st sample_buffer [of 33], of "sample_program X"] l lk d by (auto simp: dot)
qed

end
