(* ===== verification/Grep.thy ===== *)
theory Grep
  imports Listing "HOL-Library.Sublist"
begin

section \<open>grep\<close>

text \<open>
  \<open>src/syscalls/ece391grep.c\<close>: every file of the directory is read in pieces into an array of
  1025 bytes, the lines that are whole are searched for the pattern, and the piece of a line at
  the end is moved to the front for the next read.
\<close>

subsection \<open>The program\<close>

text \<open>The search for the end of a line.\<close>

function grep_line_end :: "mem \<Rightarrow> addr \<Rightarrow> int \<Rightarrow> int \<Rightarrow> int" where
  "grep_line_end m data lst e =
     (if e < lst \<and> m (data + word_of_int e) \<noteq> 0x0A then grep_line_end m data lst (e + 1) else e)"
  by auto
termination by (relation "measure (\<lambda>(m, data, lst, e). nat (lst - e))") auto

declare grep_line_end.simps [simp del]

lemma grep_line_end_ge: "e \<le> grep_line_end m data lst e"
proof (induction m data lst e rule: grep_line_end.induct)
  case (1 m data lst e)
  then show ?case by (subst grep_line_end.simps) auto
qed

text \<open>
  The search of a line, from \<open>check\<close>. \<open>s[0] == data[check]\<close> compares a signed with an unsigned
  byte.
\<close>

function grep_check :: "'a program \<Rightarrow> addr \<Rightarrow> u32 \<Rightarrow> addr \<Rightarrow> addr \<Rightarrow> int \<Rightarrow> int \<Rightarrow> int \<Rightarrow> 'a tty_scheme \<Rightarrow>
    'a tty_scheme option" where
  "grep_check P pat n fname data line_start line_end check s =
     (if check < line_end then
        if sint (memory s pat) = uint (memory s (data + word_of_int check)) \<and>
           ece391_strncmp (memory s) (data + word_of_int check) pat n = 0
        then do {
          s \<leftarrow> ece391_fdputs P 1 fname s;
          s \<leftarrow> says P '':'' s;
          s \<leftarrow> ece391_fdputs P 1 (data + word_of_int line_start) s;
          says P (line '''') s
        }
        else grep_check P pat n fname data line_start line_end (check + 1) s
      else Some s)"
  by auto
termination by (relation "measure (\<lambda>(P, pat, n, fname, data, line_start, line_end, check, s). nat (line_end - check))") auto

declare grep_check.simps [simp del]

text \<open>The loop over the lines of what has been read; its value is the new \<open>last\<close>.\<close>

function grep_lines :: "'a program \<Rightarrow> addr \<Rightarrow> u32 \<Rightarrow> addr \<Rightarrow> addr \<Rightarrow> int \<Rightarrow> int \<Rightarrow> int \<Rightarrow> 'a tty_scheme \<Rightarrow>
    (int \<times> 'a tty_scheme) option" where
  "grep_lines P pat n fname data cnt lst line_start s =
     (let line_end = grep_line_end (memory s) data lst line_start;
          cut = (memory s)(data + word_of_int line_end := 0)
      in if memory s (data + word_of_int line_end) \<noteq> 0x0A \<and> 0 \<noteq> cnt \<and> line_start \<noteq> 0
      then do {
        m \<leftarrow> ece391_strcpy cut data (data + word_of_int line_start);
        Some (lst - line_start, s\<lparr>memory := m\<rparr>)
      }
      else do {
        s \<leftarrow> grep_check P pat n fname data line_start line_end line_start (s\<lparr>memory := cut\<rparr>);
        if line_end + 1 \<ge> lst then Some (0, s)
        else grep_lines P pat n fname data cnt lst (line_end + 1) s
      })"
  by auto
termination
proof (relation "measure (\<lambda>(P, pat, n, fname, data, cnt, lst, line_start, s). nat (lst - line_start))", goal_cases)
  case (2 P pat n fname data cnt lst line_start s e c t)
  then show ?case using grep_line_end_ge [of line_start "memory s" data lst] by simp
qed simp

declare grep_lines.simps [simp del]

partial_function (option) grep_loop :: "'a program \<Rightarrow> addr \<Rightarrow> u32 \<Rightarrow> addr \<Rightarrow> int \<Rightarrow> addr \<Rightarrow> int \<Rightarrow> 'a tty_scheme \<Rightarrow>
    (int \<times> 'a tty_scheme) option" where
  "grep_loop P pat n fname fdn data lst s = do {
     (cnt, s) \<leftarrow> ece391_read P fdn (data + word_of_int lst) (1024 - lst) s;
     if cnt = -1 then do { s \<leftarrow> says P (line ''file read failed'') s; Some (-1, s) }
     else do {
       (lst, s) \<leftarrow> grep_lines P pat n fname data cnt (lst + cnt) 0 s;
       if cnt = 0 then Some (0, s) else grep_loop P pat n fname fdn data lst s
     }
   }"

declare grep_loop.simps [code]

definition do_one_file :: "'a program \<Rightarrow> addr \<Rightarrow> addr \<Rightarrow> addr \<Rightarrow> 'a tty_scheme \<Rightarrow> (int \<times> 'a tty_scheme) option" where
  "do_one_file P pat fname data s = do {
     n \<leftarrow> ece391_strlen (memory s) pat;
     (fdn, s) \<leftarrow> ece391_open P fname s;
     if fdn = -1 then do { s \<leftarrow> says P (line ''file open failed'') s; Some (-1, s) }
     else do {
       (r, s) \<leftarrow> grep_loop P pat n fname fdn data 0 s;
       if r = -1 then Some (-1, s)
       else do {
         (r, s) \<leftarrow> ece391_close P fdn s;
         if r = -1 then do { s \<leftarrow> says P (line ''file close failed'') s; Some (-1, s) }
         else Some (0, s)
       }
     }
   }"

partial_function (option) grep_files :: "'a program \<Rightarrow> int \<Rightarrow> addr \<Rightarrow> addr \<Rightarrow> addr \<Rightarrow> 'a tty_scheme \<Rightarrow>
    (int \<times> 'a tty_scheme) option" where
  "grep_files P fdn buf pat data s = do {
     (cnt, s) \<leftarrow> ece391_read P fdn buf 32 s;
     if cnt = 0 then Some (0, s)
     else if cnt = -1 then do { s \<leftarrow> says P (line ''directory entry read failed'') s; Some (3, s) }
     else if memory s buf = 0x2E then grep_files P fdn buf pat data s
     else do {
       (r, s) \<leftarrow> do_one_file P pat buf data (s\<lparr>memory := (memory s)(buf + word_of_int cnt := 0)\<rparr>);
       if r \<noteq> 0 then Some (3, s) else grep_files P fdn buf pat data s
     }
   }"

definition grep_main :: "'a program \<Rightarrow> addr \<Rightarrow> addr \<Rightarrow> addr \<Rightarrow> 'a tty_scheme \<Rightarrow> (int \<times> 'a tty_scheme) option" where
  "grep_main P buf search data s = do {
     (r, s) \<leftarrow> ece391_getargs P search 1024 s;
     if r \<noteq> 0 then do { s \<leftarrow> says P (line ''could not read argument'') s; Some (3, s) }
     else do {
       (fdn, s) \<leftarrow> ece391_open P (prog_lit P ''.'') s;
       if fdn = -1 then do { s \<leftarrow> says P (line ''directory open failed'') s; Some (2, s) }
       else grep_files P fdn buf search data s
     }
   }"

subsection \<open>What it is to print\<close>

text \<open>The lines of a text, without their newlines; behind the last newline there is one more.\<close>

function split_lines :: "u8 list \<Rightarrow> u8 list list" where
  "split_lines xs = (let l = takeWhile (\<lambda>c. c \<noteq> 0x0A) xs in
     if l = xs then [l] else l # split_lines (drop (Suc (length l)) xs))"
  by auto
termination
proof (relation "measure length", goal_cases)
  case (2 xs l)
  then have "length l < length xs" using length_takeWhile_le [of "\<lambda>c. c \<noteq> 0x0A" xs] takeWhile_eq_take
    by (metis le_neq_implies_less take_all order_refl)
  then show ?case by simp
qed simp

declare split_lines.simps [simp del]

definition matching_line :: "u8 list \<Rightarrow> u8 list \<Rightarrow> u8 list \<Rightarrow> u8 list" where
  "matching_line fs ps l = (if sublist ps l then fs @ 0x3A # l @ [0x0A] else [])"

definition grep_text :: "u8 list \<Rightarrow> u8 list \<Rightarrow> u8 list \<Rightarrow> u8 list" where
  "grep_text fs ps xs = concat (map (matching_line fs ps) (split_lines xs))"

lemma split_lines_simps:
  assumes "0x0A \<notin> set l"
  shows "split_lines l = [l]" "split_lines (l @ 0x0A # xs) = l # split_lines xs"
proof -
  have "takeWhile (\<lambda>c. c \<noteq> 0x0A) l = l" using assms by (auto simp: takeWhile_eq_all_conv)
  then show "split_lines l = [l]" by (subst split_lines.simps) simp
  have "takeWhile (\<lambda>c. c \<noteq> 0x0A) (l @ 0x0A # xs) = l" using assms by (subst takeWhile_append2) auto
  then show "split_lines (l @ 0x0A # xs) = l # split_lines xs" by (subst split_lines.simps) simp
qed

lemma grep_text_simps:
  assumes "0x0A \<notin> set l"
  shows "grep_text fs ps l = matching_line fs ps l"
    "grep_text fs ps (l @ 0x0A # xs) = matching_line fs ps l @ grep_text fs ps xs"
  using split_lines_simps [OF assms] by (simp_all add: grep_text_def)

lemma grep_text_Nil: "ps \<noteq> [] \<Longrightarrow> grep_text fs ps [] = []"
  using grep_text_simps(1) [of "[]"] by (simp add: matching_line_def)

lemma split_at_newline:
  assumes "0x0A \<in> set xs"
  obtains l ys where "xs = l @ 0x0A # ys" "0x0A \<notin> set l"
  using assms split_list_first by fastforce

subsection \<open>The end of a line\<close>

lemma grep_line_end_spec:
  assumes "\<And>i. i < length l \<Longrightarrow> m (data + of_nat (k + i)) \<noteq> 0x0A" "n = k + length l"
    and "n < lst \<Longrightarrow> m (data + of_nat n) = 0x0A" "n \<le> lst"
  shows "grep_line_end m data (int lst) (int k) = int n"
  using assms
proof (induction l arbitrary: k)
  case Nil
  then show ?case by (subst grep_line_end.simps) auto
next
  case (Cons x l)
  have "grep_line_end m data (int lst) (int (Suc k)) = int n"
    using Cons.prems Cons.prems(1) [of "Suc i" for i] by (intro Cons.IH) auto
  moreover have "m (data + of_nat k) \<noteq> 0x0A" "k < lst" using Cons.prems(1) [of 0] Cons.prems(2,4) by simp_all
  ultimately show ?case by (subst grep_line_end.simps) (simp add: add.commute)
qed

subsection \<open>The search of a line\<close>

definition grep_literals :: "string set" where
  "grep_literals = {'':'', line '''', ''.''}"

text \<open>The pattern, the name of the file and the array: a pattern as a command line can give it.\<close>

definition grep_ready :: "'a program \<Rightarrow> addr \<Rightarrow> u8 list \<Rightarrow> addr \<Rightarrow> u8 list \<Rightarrow> addr \<Rightarrow> 'a tty_scheme \<Rightarrow> bool" where
  "grep_ready P pat ps fname fs data s \<longleftrightarrow> program_ok s \<and> cursor_ok s \<and> user_range data 1025 \<and>
     in_program (memory s) pat ps \<and> apart pat (Suc (length ps)) data 1025 \<and> ps \<noteq> [] \<and> hd ps < 0x80 \<and>
     in_program (memory s) fname fs \<and> apart fname (Suc (length fs)) data 1025 \<and>
     literals_at P (memory s) grep_literals \<and> literals_apart P grep_literals data 1025"

lemma grep_ready_outputs:
  assumes "grep_ready P pat ps fname fs data s" "outputs data 1025 xs s t"
  shows "grep_ready P pat ps fname fs data t"
proof -
  have r: "runs data 1025 s t" using assms(2) by (simp add: outputs_def)
  note h = assms(1) [unfolded grep_ready_def]
  have "in_program (memory t) pat ps" using runs_string [OF r, of pat ps] h by simp
  moreover have "in_program (memory t) fname fs" using runs_string [OF r, of fname fs] h by simp
  moreover have "literals_at P (memory t) grep_literals" using runs_literals [OF r, of P grep_literals] h by simp
  ultimately show ?thesis using h outputs_ok [OF assms(2)] unfolding grep_ready_def by blast
qed

lemma grep_prints:
  assumes r: "grep_ready P pat ps fname fs data s" and l: "in_program (memory s) a l"
  shows "\<exists>t. do { s \<leftarrow> ece391_fdputs P 1 fname s; s \<leftarrow> says P '':'' s; s \<leftarrow> ece391_fdputs P 1 a s; says P (line '''') s } = Some t \<and>
    outputs data 1025 (fs @ 0x3A # l @ [0x0A]) s t \<and> same_window (memory s) (memory t) \<and> fd_array t = fd_array s"
proof -
  have s: "program_ok s" "cursor_ok s" "in_program (memory s) fname fs" "literals_at P (memory s) grep_literals"
    using r by (simp_all add: grep_ready_def)
  have b: "bytes '':'' = [0x3A]" "bytes (line '''') = [0x0A]" by (simp_all add: bytes_def line_def)
  have x: "in_program (memory s) (prog_lit P '':'') [0x3A]" "in_program (memory s) (prog_lit P (line '''')) [0x0A]"
    using s(4) unfolding literals_at_def grep_literals_def b [symmetric] by simp_all
  let ?t = "fold putc (fs @ 0x3A # l @ [0x0A]) s"
  have "print_all (ece391_fdputs P 1) [fname, prog_lit P '':'', a, prog_lit P (line '''')] s =
      Some (fold putc (concat [fs, [0x3A], l, [0x0A]]) s)"
    using s(1,3) x l by (intro screen_console.print_all) simp_all
  then have "do { s \<leftarrow> ece391_fdputs P 1 fname s; s \<leftarrow> says P '':'' s; s \<leftarrow> ece391_fdputs P 1 a s; says P (line '''') s } = Some ?t"
    by (simp add: says_def)
  moreover have "outputs data 1025 (fs @ 0x3A # l @ [0x0A]) s ?t" by (rule outputs_print [OF s(1,2)])
  moreover have "same_window (memory s) (memory ?t)" "fd_array ?t = fd_array s"
    using program_ok_print(2,3) [OF s(1)] by blast+
  ultimately show ?thesis by blast
qed

lemma first_byte_match:
  assumes "ps \<noteq> []" "hd ps < (0x80 :: u8)" "prefix ps xs"
  shows "xs \<noteq> [] \<and> sint (hd ps) = uint (hd xs)"
proof -
  obtain p ps' ys where "ps = p # ps'" "xs = p # ps' @ ys" using assms(1,3) by (cases ps) (auto simp: prefix_def)
  moreover have "sint p = uint p" if "p < 0x80"
    using that order_trans [of "- 128" 0 "uint p"] by (simp add: sint_uint signed_take_bit_int_eq_self_iff word_less_def)
  ultimately show ?thesis using assms(2) by simp
qed

lemma grep_match_iff:
  assumes r: "grep_ready P pat ps fname fs data s" and l: "string_at (memory s) a xs" and x: "xs \<noteq> []"
  shows "sint (memory s pat) = uint (memory s a) \<and> ece391_strncmp (memory s) a pat (of_nat (length ps)) = 0 \<longleftrightarrow> prefix ps xs"
proof -
  have p: "string_at (memory s) pat ps" "length ps < 2 ^ 31" "ps \<noteq> []" "hd ps < 0x80"
    using r by (simp_all add: grep_ready_def in_program_def)
  have n: "unat (of_nat (length ps) :: u32) = length ps" using p(2) by (simp add: unat_of_nat take_bit_nat_eq_self)
  have nz: "0 \<notin> set (take (length ps) xs)" "0 \<notin> set ps"
    using l p(1) by (auto simp: string_at_def dest: in_set_takeD)
  have "ece391_strncmp (memory s) a pat (of_nat (length ps)) = 0 \<longleftrightarrow> take (length ps) xs = ps"
    using spec_strcmp_0 [OF nz] by (simp add: ece391_strncmp_string [OF l p(1)] n)
  moreover have "take (length ps) xs = ps \<longleftrightarrow> prefix ps xs"
    by (metis append_eq_conv_conj prefix_def append_take_drop_id)
  moreover have "memory s pat = hd ps" "memory s a = hd xs"
    using string_at_nth [OF p(1), of 0] string_at_nth [OF l, of 0] p(3) x by (simp_all add: hd_conv_nth)
  ultimately show ?thesis using first_byte_match [OF p(3,4), of xs] by auto
qed

lemma grep_check_spec:
  fixes s :: "'a tty_scheme"
  assumes r: "grep_ready P pat ps fname fs data s" and l: "in_program (memory s) (data + of_nat k) l" and j: "j \<le> length l"
  shows "\<exists>t. grep_check P pat (of_nat (length ps)) fname data (int k) (int (k + length l)) (int (k + j)) s = Some t \<and>
    outputs data 1025 (if sublist ps (drop j l) then fs @ 0x3A # l @ [0x0A] else []) s t \<and>
    same_window (memory s) (memory t) \<and> fd_array t = fd_array s"
  using j
proof (induction "length l - j" arbitrary: j)
  case 0
  then have "drop j l = []" "j = length l" by simp_all
  moreover have "\<not> sublist ps []" "outputs data 1025 [] s s" using r by (simp_all add: grep_ready_def outputs_refl)
  ultimately show ?case by (subst grep_check.simps) (auto simp: same_window_def)
next
  case (Suc d)
  then have j: "j < length l" and d: "d = length l - Suc j" by simp_all
  have str: "string_at (memory s) (data + of_nat (k + j)) (drop j l)"
    using string_at_drop [of "memory s" "data + of_nat k" l j] l j by (simp add: in_program_def add.assoc)
  have ne: "drop j l \<noteq> []" using j by simp
  have sub: "sublist ps (drop j l) \<longleftrightarrow> prefix ps (drop j l) \<or> sublist ps (drop (Suc j) l)"
    using Cons_nth_drop_Suc [OF j] sublist_Cons_right [of ps "l ! j" "drop (Suc j) l"] by simp
  note match = grep_match_iff [OF r str ne]
  show ?case
  proof (cases "prefix ps (drop j l)")
    case True
    obtain t where t: "do { s \<leftarrow> ece391_fdputs P 1 fname s; s \<leftarrow> says P '':'' s; s \<leftarrow> ece391_fdputs P 1 (data + of_nat k) s;
        says P (line '''') s } = Some t"
      "outputs data 1025 (fs @ 0x3A # l @ [0x0A]) s t" "same_window (memory s) (memory t)" "fd_array t = fd_array s"
      using grep_prints [OF r l] by blast
    then show ?thesis using True match j sub by (subst grep_check.simps) simp
  next
    case False
    obtain t where t: "grep_check P pat (of_nat (length ps)) fname data (int k) (int (k + length l)) (int (k + Suc j)) s = Some t"
      "outputs data 1025 (if sublist ps (drop (Suc j) l) then fs @ 0x3A # l @ [0x0A] else []) s t"
      "same_window (memory s) (memory t)" "fd_array t = fd_array s"
      using Suc.hyps(1) [of "Suc j"] d j by auto
    have "grep_check P pat (of_nat (length ps)) fname data (int k) (int (k + length l)) (int (k + j)) s =
        grep_check P pat (of_nat (length ps)) fname data (int k) (int (k + length l)) (int (k + Suc j)) s"
      using False match j by (subst grep_check.simps) (auto simp: add.commute)
    then show ?thesis using t False sub by simp
  qed
qed

subsection \<open>The lines of what has been read\<close>

text \<open>The text \<open>w\<close> in the array from \<open>k\<close> on, up to \<open>lst\<close>.\<close>

definition holds :: "'a tty_scheme \<Rightarrow> addr \<Rightarrow> nat \<Rightarrow> u8 list \<Rightarrow> bool" where
  "holds s data k w \<longleftrightarrow> load (memory s) (data + of_nat k) (length w) = w \<and> 0 \<notin> set w \<and> k + length w \<le> 1024"

lemma holds_nth: "holds s data k w \<Longrightarrow> i < length w \<Longrightarrow> memory s (data + of_nat (k + i)) = w ! i"
proof -
  assume h: "holds s data k w" and i: "i < length w"
  have "load (memory s) (data + of_nat k) (length w) ! i = memory s (data + of_nat (k + i))" using i by (simp add: add.assoc)
  then show ?thesis using h by (simp add: holds_def)
qed

lemma holdsI:
  "(\<And>i. i < length w \<Longrightarrow> memory s (data + of_nat (k + i)) = w ! i) \<Longrightarrow> 0 \<notin> set w \<Longrightarrow> k + length w \<le> 1024 \<Longrightarrow> holds s data k w"
  unfolding holds_def by (auto intro!: nth_equalityI simp: add.assoc)

lemma holds_window:
  assumes "holds s data k w" "same_window (memory s) (memory t)" "user_range data 1025"
  shows "holds t data k w"
proof (rule holdsI)
  fix i assume i: "i < length w"
  have "k + i < 1025" using assms(1) i by (simp add: holds_def)
  then have "in_window (data + of_nat (k + i))" using assms(3) unfolding user_range_def by blast
  then show "memory t (data + of_nat (k + i)) = w ! i"
    using assms(2) holds_nth [OF assms(1) i] by (simp add: same_window_def)
qed (use assms(1) in \<open>simp_all add: holds_def\<close>)

lemma holds_append:
  assumes "holds s data k (l @ w)"
  shows "holds s data k l" "holds s data (k + length l) w"
proof -
  have n: "0 \<notin> set (l @ w)" "k + length (l @ w) \<le> 1024" using assms by (simp_all add: holds_def)
  have "memory s (data + of_nat (k + i)) = l ! i" if "i < length l" for i
    using holds_nth [OF assms, of i] that by (simp add: nth_append)
  then show "holds s data k l" by (rule holdsI) (use n in simp_all)
  have "memory s (data + of_nat (k + length l + i)) = w ! i" if "i < length w" for i
    using holds_nth [OF assms, of "length l + i"] that by (simp add: add.assoc)
  then show "holds s data (k + length l) w" by (rule holdsI) (use n in simp_all)
qed

text \<open>What one pass over the array leaves: what it has shown, and the piece that is pending.\<close>

definition pass_ok :: "u8 list \<Rightarrow> u8 list \<Rightarrow> addr \<Rightarrow> bool \<Rightarrow> u8 list \<Rightarrow> 'a tty_scheme \<Rightarrow> u8 list \<Rightarrow> u8 list \<Rightarrow> 'a tty_scheme \<Rightarrow> bool" where
  "pass_ok fs ps data onward w s pend out t \<longleftrightarrow> outputs data 1025 out s t \<and> holds t data 0 pend \<and> length pend < 1024 \<and>
     suffix pend w \<and> fd_array t = fd_array s \<and>
     (memory s (data + 1024) \<noteq> 0x0A \<longrightarrow> memory t (data + 1024) \<noteq> 0x0A) \<and>
     (\<forall>rest. (rest \<noteq> [] \<longrightarrow> onward) \<longrightarrow> grep_text fs ps (w @ rest) = out @ grep_text fs ps (pend @ rest))"

text \<open>The search of one line, with the store of its end.\<close>

lemma grep_line_step:
  fixes s :: "'a tty_scheme"
  assumes r: "grep_ready P pat ps fname fs data s" and l: "holds s data k l"
  defines "mc \<equiv> (memory s)(data + of_nat (k + length l) := 0)"
  shows "\<exists>t. grep_check P pat (of_nat (length ps)) fname data (int k) (int (k + length l)) (int k) (s\<lparr>memory := mc\<rparr>) = Some t \<and>
    outputs data 1025 (matching_line fs ps l) s t \<and> grep_ready P pat ps fname fs data t \<and>
    same_window mc (memory t) \<and> fd_array t = fd_array s"
proof -
  define s1 where "s1 = s\<lparr>memory := mc\<rparr>"
  have s: "program_ok s" "cursor_ok s" "user_range data 1025" using r by (simp_all add: grep_ready_def)
  have h: "load (memory s) (data + of_nat k) (length l) = l" "0 \<notin> set l" "k + length l \<le> 1024"
    using l by (simp_all add: holds_def)
  have o1: "outputs data 1025 [] s s1" unfolding s1_def mc_def using h(3) by (intro outputs_store s) simp_all
  have r1: "grep_ready P pat ps fname fs data s1" by (rule grep_ready_outputs [OF r o1])
  have "in_program (memory s1) (data + of_nat k) l"
    using store_end [OF h(1,2) s(3)] h(3) by (simp add: s1_def mc_def)
  from grep_check_spec [OF r1 this, of 0]
  obtain t where t: "grep_check P pat (of_nat (length ps)) fname data (int k) (int (k + length l)) (int k) s1 = Some t"
    "outputs data 1025 (matching_line fs ps l) s1 t" "same_window (memory s1) (memory t)" "fd_array t = fd_array s1"
    by (auto simp: matching_line_def)
  have "outputs data 1025 (matching_line fs ps l) s t" using outputs_trans [OF o1 t(2)] by simp
  moreover have "fd_array s1 = fd_array s" "memory s1 = mc" by (simp_all add: s1_def fd_array_def pcb_of_def)
  ultimately show ?thesis
    using t grep_ready_outputs [OF r] unfolding s1_def [symmetric] by (intro exI [of _ t]) simp
qed

lemma line_end_whole:
  assumes "holds s data k (l @ 0x0A # w)" "0x0A \<notin> set l"
  shows "grep_line_end (memory s) data (int (k + length (l @ 0x0A # w))) (int k) = int (k + length l)"
    "memory s (data + of_nat (k + length l)) = 0x0A"
proof -
  show nl: "memory s (data + of_nat (k + length l)) = 0x0A" using holds_nth [OF assms(1), of "length l"] by (simp add: nth_append)
  have "memory s (data + of_nat (k + i)) \<noteq> 0x0A" if "i < length l" for i
  proof -
    have "l ! i \<noteq> 0x0A" using nth_mem [OF that] assms(2) by metis
    then show ?thesis using holds_nth [OF assms(1), of i] that by (simp add: nth_append)
  qed
  then show "grep_line_end (memory s) data (int (k + length (l @ 0x0A # w))) (int k) = int (k + length l)"
    by (rule grep_line_end_spec) (use nl in simp_all)
qed

lemma line_end_piece:
  assumes "holds s data k w" "0x0A \<notin> set w"
  shows "grep_line_end (memory s) data (int (k + length w)) (int k) = int (k + length w)"
proof (rule grep_line_end_spec)
  show "memory s (data + of_nat (k + i)) \<noteq> 0x0A" if "i < length w" for i
    using holds_nth [OF assms(1) that] nth_mem [OF that] assms(2) by auto
qed simp_all

text \<open>A piece that is moved to the front.\<close>

lemma grep_lines_moves:
  fixes s :: "'a tty_scheme"
  assumes r: "grep_ready P pat ps fname fs data s" and w: "holds s data k w" "0x0A \<notin> set w" and k: "0 < k"
    and c: "cnt \<noteq> 0" "memory s (data + of_nat (k + length w)) \<noteq> 0x0A"
  shows "\<exists>t. grep_lines P pat n fname data cnt (int (k + length w)) (int k) s = Some (int (length w), t) \<and>
    pass_ok fs ps data onward w s w [] t"
proof -
  have s: "program_ok s" "cursor_ok s" "user_range data 1025" using r by (simp_all add: grep_ready_def)
  have h: "load (memory s) (data + of_nat k) (length w) = w" "0 \<notin> set w" "k + length w \<le> 1024"
    using w(1) by (simp_all add: holds_def)
  let ?cut = "(memory s)(data + of_nat (k + length w) := 0)" and ?m = "\<lambda>m. put m data (w @ [0])"
  define t where "t = s\<lparr>memory := ?m ?cut\<rparr>"
  have str: "string_at ?cut (data + of_nat k) w"
    using store_end [OF h(1,2) s(3)] h(3) by (simp add: in_program_def)
  have apart: "data + of_nat i \<noteq> data + of_nat k + of_nat j" if "i < j" "j \<le> length w" for i j
    using that k h(3) of_nat_inj_word [of i "k + j", where 'a = 32] by (simp add: add.assoc)
  have copy: "ece391_strcpy ?cut data (data + of_nat k) = Some (?m ?cut)"
    by (rule ece391_strcpy_string [OF str apart])
  have far: "?m m (data + of_nat i) = m (data + of_nat i)" if "length w < i" "i < 2 ^ 32" for i m
    using that by (intro put_outside) (simp add: unat_of_nat take_bit_nat_eq_self)
  have o1: "outputs data 1025 [] s (s\<lparr>memory := ?cut\<rparr>)" using h(3) by (intro outputs_store s) simp_all
  have "outputs data 1025 [] (s\<lparr>memory := ?cut\<rparr>) (s\<lparr>memory := ?cut, memory := ?m ?cut\<rparr>)"
    using outputs_ok [OF o1] put_outside_array [of "w @ [0]" 1025] h(3) k by (intro runs_memory(2) s(3)) simp_all
  then have o: "outputs data 1025 [] s t" using outputs_trans [OF o1] by (simp add: t_def)
  have "memory t (data + of_nat i) = w ! i" if "i < length w" for i
    using put_inside [of i "w @ [0]" ?cut data] that h(3) by (simp add: t_def nth_append)
  then have p: "holds t data 0 w" using h by (intro holdsI) simp_all
  have "memory t (data + of_nat 1024) \<noteq> 0x0A" if "memory s (data + of_nat 1024) \<noteq> 0x0A"
    using that far [of 1024 ?cut] h(3) k by (simp add: t_def)
  then have far': "memory s (data + 1024) \<noteq> 0x0A \<longrightarrow> memory t (data + 1024) \<noteq> 0x0A" by simp
  have "grep_lines P pat n fname data cnt (int (k + length w)) (int k) s = Some (int (length w), t)"
    using c k copy by (subst grep_lines.simps) (simp add: line_end_piece [OF w, simplified] Let_def t_def add.commute)
  moreover have "fd_array t = fd_array s" by (simp add: t_def fd_array_def pcb_of_def)
  ultimately show ?thesis using o p far' w(2) h(3) k by (simp add: pass_ok_def)
qed

text \<open>A piece that is searched as it is.\<close>

lemma grep_lines_searches:
  fixes s :: "'a tty_scheme"
  assumes r: "grep_ready P pat ps fname fs data s" and w: "holds s data k w" "0x0A \<notin> set w"
    and c: "memory s (data + of_nat (k + length w)) = 0x0A \<or> cnt = 0 \<or> k = 0" and no: "\<not> onward"
  shows "\<exists>t. grep_lines P pat (of_nat (length ps)) fname data cnt (int (k + length w)) (int k) s = Some (0, t) \<and>
    pass_ok fs ps data onward w s [] (matching_line fs ps w) t"
proof -
  obtain t where t: "grep_check P pat (of_nat (length ps)) fname data (int k) (int (k + length w)) (int k)
      (s\<lparr>memory := (memory s)(data + of_nat (k + length w) := 0)\<rparr>) = Some t"
    "outputs data 1025 (matching_line fs ps w) s t" "grep_ready P pat ps fname fs data t"
    "same_window ((memory s)(data + of_nat (k + length w) := 0)) (memory t)" "fd_array t = fd_array s"
    using grep_line_step [OF r w(1)] by blast
  have "user_range data 1025" using r by (simp add: grep_ready_def)
  then have "in_window (data + of_nat 1024)" unfolding user_range_def by (rule allE [of _ 1024]) simp
  then have far: "memory s (data + 1024) \<noteq> 0x0A \<longrightarrow> memory t (data + 1024) \<noteq> 0x0A"
    using t(4) by (simp add: same_window_def)
  have "grep_lines P pat (of_nat (length ps)) fname data cnt (int (k + length w)) (int k) s = Some (0, t)"
    using c t(1) by (subst grep_lines.simps) (auto simp: line_end_piece [OF w, simplified] Let_def add.commute)
  moreover have "holds t data 0 []" by (intro holdsI) simp_all
  moreover have "ps \<noteq> []" using r by (simp add: grep_ready_def)
  ultimately show ?thesis using t(2,5) far no grep_text_simps(1) [OF w(2)] grep_text_Nil by (simp add: pass_ok_def)
qed

lemma pass_ok_line:
  assumes l: "0x0A \<notin> set l" and o: "outputs data 1025 (matching_line fs ps l) s t" "fd_array t = fd_array s"
    and far: "memory s (data + 1024) \<noteq> 0x0A \<longrightarrow> memory t (data + 1024) \<noteq> 0x0A"
    and p: "pass_ok fs ps data onward w t pend out u"
  shows "pass_ok fs ps data onward (l @ 0x0A # w) s pend (matching_line fs ps l @ out) u"
proof -
  have "outputs data 1025 (matching_line fs ps l @ out) s u" using outputs_trans [OF o(1)] p by (simp add: pass_ok_def)
  moreover have "suffix pend (l @ 0x0A # w)"
    using p suffix_append [of pend "l @ [0x0A]" w] by (simp add: pass_ok_def suffix_appendI suffix_ConsI)
  ultimately show ?thesis using p far o(2) grep_text_simps(2) [OF l] by (simp add: pass_ok_def)
qed

text \<open>A whole line at the front of the rest.\<close>

lemma grep_lines_line:
  fixes s :: "'a tty_scheme"
  assumes r: "grep_ready P pat ps fname fs data s" and h: "holds s data k (l @ 0x0A # w)" and l: "0x0A \<notin> set l"
  defines "j \<equiv> Suc (k + length l)"
  shows "\<exists>t. grep_lines P pat (of_nat (length ps)) fname data cnt (int (j + length w)) (int k) s =
      (if w = [] then Some (0, t) else grep_lines P pat (of_nat (length ps)) fname data cnt (int (j + length w)) (int j) t) \<and>
    outputs data 1025 (matching_line fs ps l) s t \<and> grep_ready P pat ps fname fs data t \<and> fd_array t = fd_array s \<and>
    holds t data j w \<and> (\<forall>i \<le> 1024. i \<noteq> k + length l \<longrightarrow> memory t (data + of_nat i) = memory s (data + of_nat i))"
proof -
  note hl = holds_append(1) [OF h] and end' = line_end_whole [OF h l]
  have bound: "j + length w \<le> 1024" using h by (simp add: holds_def j_def)
  define mc where "mc = (memory s)(data + of_nat (k + length l) := 0)"
  obtain t where t: "grep_check P pat (of_nat (length ps)) fname data (int k) (int (k + length l)) (int k) (s\<lparr>memory := mc\<rparr>) = Some t"
    "outputs data 1025 (matching_line fs ps l) s t" "grep_ready P pat ps fname fs data t" "same_window mc (memory t)"
    "fd_array t = fd_array s"
    using grep_line_step [OF r hl] unfolding mc_def by blast
  have keep: "memory t (data + of_nat i) = memory s (data + of_nat i)" if "i \<noteq> k + length l" "i \<le> 1024" for i
  proof -
    have "user_range data 1025" using r by (simp add: grep_ready_def)
    then have "in_window (data + of_nat i)" using that(2) unfolding user_range_def by simp
    then show ?thesis
      using t(4) that store_other [of i "k + length l" "memory s" data 0] bound by (simp add: same_window_def mc_def j_def)
  qed
  have "holds s data j w" using holds_append(2) [of s data k "l @ [0x0A]" w] h by (simp add: j_def)
  note hj = holds_nth [OF this]
  have "holds t data j w"
  proof (rule holdsI)
    show "memory t (data + of_nat (j + i)) = w ! i" if "i < length w" for i
      using hj [OF that] keep [of "j + i"] that bound by (simp add: j_def)
  qed (use h bound in \<open>simp_all add: holds_def\<close>)
  moreover have "grep_lines P pat (of_nat (length ps)) fname data cnt (int (j + length w)) (int k) s =
      (if w = [] then Some (0, t) else grep_lines P pat (of_nat (length ps)) fname data cnt (int (j + length w)) (int j) t)"
    using t(1) end' by (subst grep_lines.simps) (simp add: Let_def mc_def j_def ac_simps)
  ultimately show ?thesis using t(2,3,5) keep by blast
qed

lemma grep_lines_pass:
  fixes s :: "'a tty_scheme"
  assumes "grep_ready P pat ps fname fs data s" "holds s data k w"
    and "onward \<Longrightarrow> cnt \<noteq> 0 \<and> memory s (data + of_nat (k + length w)) \<noteq> 0x0A \<and> (k \<noteq> 0 \<or> 0x0A \<in> set w)"
  shows "\<exists>t pend out. grep_lines P pat (of_nat (length ps)) fname data cnt (int (k + length w)) (int k) s = Some (int (length pend), t) \<and>
    pass_ok fs ps data onward w s pend out t \<and> (cnt = 0 \<longrightarrow> pend = [])"
  using assms
proof (induction "length w" arbitrary: k w s rule: less_induct)
  case less
  note r = less.prems(1) and h = less.prems(2)
  show ?case
  proof (cases "0x0A \<in> set w")
    case True
    then obtain l w' where w: "w = l @ 0x0A # w'" "0x0A \<notin> set l" by (rule split_at_newline)
    define j where "j = Suc (k + length l)"
    have jw: "j + length w' = k + length w" "j + length w' \<le> 1024" using h w(1) by (simp_all add: j_def holds_def)
    obtain t where t: "grep_lines P pat (of_nat (length ps)) fname data cnt (int (j + length w')) (int k) s =
        (if w' = [] then Some (0, t) else grep_lines P pat (of_nat (length ps)) fname data cnt (int (j + length w')) (int j) t)"
      "outputs data 1025 (matching_line fs ps l) s t" "grep_ready P pat ps fname fs data t" "fd_array t = fd_array s"
      "holds t data j w'" and keep: "\<forall>i \<le> 1024. i \<noteq> k + length l \<longrightarrow> memory t (data + of_nat i) = memory s (data + of_nat i)"
      using grep_lines_line [OF r h [unfolded w(1)] w(2), of cnt] unfolding j_def by blast
    have far: "memory t (data + of_nat i) = memory s (data + of_nat i)" if "j \<le> i" "i \<le> 1024" for i
      using keep that by (simp add: j_def)
    have far': "memory s (data + 1024) \<noteq> 0x0A \<longrightarrow> memory t (data + 1024) \<noteq> 0x0A" using far [of 1024] jw by simp
    note line = pass_ok_line [where w = w', OF w(2) t(2,4) far', folded w(1)]
    show ?thesis
    proof (cases "w' = []")
      case True
      have "pass_ok fs ps data onward w' t [] [] t"
        using True t(3) holdsI [of "[]" t data 0] by (simp add: pass_ok_def grep_ready_def outputs_refl)
      moreover have "grep_lines P pat (of_nat (length ps)) fname data cnt (int (k + length w)) (int k) s = Some (int (length []), t)"
        using t(1) True jw(1) by simp
      ultimately show ?thesis using line by blast
    next
      case False
      have "cnt \<noteq> 0 \<and> memory t (data + of_nat (j + length w')) \<noteq> 0x0A \<and> (j \<noteq> 0 \<or> 0x0A \<in> set w')" if onward
      proof -
        have "j \<le> k + length w" "k + length w \<le> 1024" "j \<noteq> 0" using jw by (simp_all add: j_def)
        then show ?thesis using less.prems(3) [OF that] far [of "k + length w"] unfolding jw(1) by simp
      qed
      then obtain u pend out where u: "grep_lines P pat (of_nat (length ps)) fname data cnt (int (j + length w')) (int j) t =
          Some (int (length pend), u)" "pass_ok fs ps data onward w' t pend out u" "cnt = 0 \<longrightarrow> pend = []"
        using less.hyps [OF _ t(3,5)] w(1) by (auto simp del: of_nat_add)
      then show ?thesis using t(1) False line [OF u(2)] jw(1) by auto
    qed
  next
    case False
    show ?thesis
    proof (cases "memory s (data + of_nat (k + length w)) \<noteq> 0x0A \<and> cnt \<noteq> 0 \<and> k \<noteq> 0")
      case True
      then show ?thesis using grep_lines_moves [OF r h False, of cnt "of_nat (length ps)" onward] by blast
    next
      case no: False
      then have "\<not> onward" using less.prems(3) False by blast
      moreover have "memory s (data + of_nat (k + length w)) = 0x0A \<or> cnt = 0 \<or> k = 0" using no by blast
      ultimately show ?thesis using grep_lines_searches [OF r h False, of cnt onward] by force
    qed
  qed
qed

subsection \<open>A file\<close>

lemma read_end_min:
  assumes "n mod 4096 \<le> 3072" "p < n" "k \<le> 1024"
  shows "read_end n p k = min (p + k) n"
proof -
  define q where "q = (p + k) div 4096"
  have "q * 4096 \<le> p + k" unfolding q_def by (rule div_times_less_eq_dividend)
  moreover have "n = n div 4096 * 4096 + n mod 4096" by simp
  ultimately have "\<not> q * 4096 > n"
  proof (intro notI)
    assume a: "q * 4096 \<le> p + k" "n = n div 4096 * 4096 + n mod 4096" "q * 4096 > n"
    then have "n div 4096 < q" by (metis div_less_iff_less_mult mult.commute zero_less_numeral)
    then have "n div 4096 * 4096 + 4096 \<le> q * 4096" by simp
    then show False using a(1,2) assms by linarith
  qed
  then show ?thesis by (simp add: read_end_def q_def Let_def)
qed

lemma runs_widen:
  assumes "runs (buf + of_nat j) k s t" "j + k \<le> n" "n \<le> 2 ^ 32"
  shows "runs buf n s t"
proof -
  have "unat (a - buf) < n" if "unat (a - (buf + of_nat j)) < k" for a
  proof -
    let ?x = "unat (a - (buf + of_nat j))"
    have "a - buf = of_nat (j + ?x)" by (simp add: algebra_simps)
    then have "unat (a - buf) \<le> j + ?x" by (simp only: unat_of_nat mod_less_eq_dividend)
    then show ?thesis using that assms(2) by simp
  qed
  then show ?thesis using assms(1) by (auto simp: runs_def)
qed

text \<open>Lines of at most 1023 bytes.\<close>

definition short_lines :: "u8 list \<Rightarrow> bool" where
  "short_lines xs \<longleftrightarrow> (\<forall>i. i + 1024 \<le> length xs \<longrightarrow> 0x0A \<in> set (take 1024 (drop i xs)))"

lemma short_lines_suffix: "short_lines xs \<Longrightarrow> suffix ys xs \<Longrightarrow> short_lines ys"
  unfolding short_lines_def suffix_def
proof (intro allI impI, elim exE)
  fix i zs assume h: "\<forall>i. i + 1024 \<le> length xs \<longrightarrow> 0x0A \<in> set (take 1024 (drop i xs))" and i: "i + 1024 \<le> length ys" "xs = zs @ ys"
  have "drop (length zs + i) xs = drop i ys" by (simp add: i(2))
  then show "0x0A \<in> set (take 1024 (drop i ys))" using h [rule_format, of "length zs + i"] i by simp
qed

definition file_rest :: "nat \<Rightarrow> 'a tty_scheme \<Rightarrow> u8 list" where
  "file_rest k s = (let f = fd_array s ! k in
     map (file_byte (memory s) (boot_block s) (inode f)) [unat (file_position f)..<file_size (memory s) (boot_block s) (inode f)])"

definition file_open_at :: "nat \<Rightarrow> 'a tty_scheme \<Rightarrow> bool" where
  "file_open_at k s \<longleftrightarrow> 2 \<le> k \<and> k < 8 \<and> image_apart (memory s) (boot_block s) \<and>
     (let f = fd_array s ! k; N = file_size (memory s) (boot_block s) (inode f) in
       flags f \<noteq> 0 \<and> fops f = Some File_fops \<and> inode f < boot_inodes (memory s) (boot_block s) \<and>
       unat (file_position f) \<le> N \<and> N mod 4096 \<le> 3072)"

lemma file_open_same:
  fixes s t :: "'a tty_scheme"
  assumes f: "file_open_at k s" and r: "runs buf n s t" and fd: "fd_array t ! k = fd_array s ! k"
  shows "file_open_at k t" "file_rest k t = file_rest k s"
    "file_size (memory t) (boot_block t) (inode (fd_array t ! k)) = file_size (memory s) (boot_block s) (inode (fd_array s ! k))"
proof -
  let ?f = "fd_array s ! k"
  let ?N = "file_size (memory s) (boot_block s) (inode ?f)"
  have img: "image_apart (memory s) (boot_block s)" and i: "inode ?f < boot_inodes (memory s) (boot_block s)"
    using f by (simp_all add: file_open_at_def Let_def)
  have bb: "boot_block t = boot_block s" using r by (simp add: runs_def)
  note same = runs_image [OF r img]
  have io: "image_ok (memory s) (boot_block s)" using img by (simp add: image_apart_def)
  have n: "file_size (memory t) (boot_block s) (inode ?f) = ?N" by (rule same_image_inode(1) [OF same(2) i])
  then show "file_size (memory t) (boot_block t) (inode (fd_array t ! k)) = ?N" by (simp add: bb fd)
  have b: "boot_inodes (memory t) (boot_block s) = boot_inodes (memory s) (boot_block s)" by (rule same_image_boot(1) [OF same(2)])
  show "file_open_at k t" using f same(1) by (simp add: file_open_at_def fd bb n b Let_def)
  have "file_byte (memory t) (boot_block s) (inode ?f) j = file_byte (memory s) (boot_block s) (inode ?f) j" if "j < ?N" for j
  proof -
    have "?N \<le> 0x200000" using img i by (auto simp: image_apart_def less_imp_le)
    then have "j div 4096 < 1023" using that by (simp add: less_mult_imp_div_less)
    then show ?thesis using same_image_ok(3) [OF same(2) io i] by simp
  qed
  then show "file_rest k t = file_rest k s" by (simp add: file_rest_def fd bb n Let_def)
qed

lemma file_rest_move:
  fixes s :: "'a tty_scheme" and n :: nat
  assumes f: "file_open_at k s" and fd: "length (fd_array s) = 8"
    and p: "p = unat (file_position (fd_array s ! k))" "N = file_size (memory s) (boot_block s) (inode (fd_array s ! k))"
  defines "t \<equiv> upd_fd (tasks_running s) k (\<lambda>f. f\<lparr>file_position := of_nat (min (p + n) N)\<rparr>) s"
  shows "file_open_at k t" "file_rest k t = drop n (file_rest k s)"
    "fd_array t = (fd_array s)[k := (fd_array s ! k)\<lparr>file_position := of_nat (min (p + n) N)\<rparr>]"
proof -
  let ?E = "min (p + n) N"
  have k: "k < 8" "image_apart (memory s) (boot_block s)" "inode (fd_array s ! k) < boot_inodes (memory s) (boot_block s)"
    using f by (simp_all add: file_open_at_def Let_def)
  then have "N < 0x200000" using p(2) by (simp add: image_apart_def)
  then have "unat (of_nat ?E :: u32) = ?E" by (simp only: unat_of_nat) (simp add: take_bit_nat_eq_self)
  then have E: "unat (word_of_nat ?E :: u32) = ?E" .
  show fds: "fd_array t = (fd_array s)[k := (fd_array s ! k)\<lparr>file_position := of_nat ?E\<rparr>]"
    by (simp add: t_def fds_of_upd_fd)
  have at: "fd_array t ! k = (fd_array s ! k)\<lparr>file_position := of_nat ?E\<rparr>" using fd k(1) by (simp add: fds)
  have m: "memory t = memory s" "boot_block t = boot_block s" by (simp_all add: t_def)
  show "file_open_at k t"
    using f E by (simp add: file_open_at_def at m p(2) [symmetric] Let_def)
  have "[?E..<N] = drop n [p..<N]" by (cases "p + n \<le> N") (simp_all add: min_def)
  moreover have "file_rest k t = map (file_byte (memory s) (boot_block s) (inode (fd_array s ! k))) [?E..<N]"
    using E by (simp add: file_rest_def at m Let_def p(2) [symmetric])
  ultimately show "file_rest k t = drop n (file_rest k s)" by (simp add: file_rest_def Let_def p [symmetric] drop_map)
qed

text \<open>Bytes put behind those that are held.\<close>

lemma put_in_array:
  assumes "j + length xs \<le> n" "\<not> unat (a - data) < n"
  shows "put m (data + of_nat j) xs a = m a"
proof (rule put_outside, rule ccontr)
  assume "\<not> length xs \<le> unat (a - (data + of_nat j))"
  moreover have "a - data = of_nat (j + unat (a - (data + of_nat j)))" by (simp add: algebra_simps)
  then have "unat (a - data) \<le> j + unat (a - (data + of_nat j))" by (simp only: unat_of_nat mod_less_eq_dividend)
  ultimately show False using assms by simp
qed

lemma holds_put:
  assumes h: "holds s data 0 pend" and xs: "0 \<notin> set xs" "length pend + length xs \<le> 1024"
    and m: "memory t = put (memory s) (data + of_nat (length pend)) xs"
  shows "holds t data 0 (pend @ xs)"
proof (rule holdsI)
  let ?buf = "data + of_nat (length pend)"
  fix i assume i: "i < length (pend @ xs)"
  show "memory t (data + of_nat (0 + i)) = (pend @ xs) ! i"
  proof (cases "i < length pend")
    case True
    have "put (memory s) ?buf xs (data + of_nat i) = memory s (data + of_nat i)"
    proof (rule put_outside, rule ccontr)
      let ?x = "unat (data + of_nat i - ?buf)"
      assume "\<not> length xs \<le> ?x"
      moreover have "of_nat i = (of_nat (length pend + ?x) :: u32)" by (simp add: algebra_simps)
      ultimately show False
        using of_nat_inj_word [of i "length pend + ?x", where 'a = 32] True xs(2) by simp
    qed
    then show ?thesis using holds_nth [OF h True] True by (simp add: m nth_append)
  next
    case False
    then have "put (memory s) ?buf xs (?buf + of_nat (i - length pend)) = xs ! (i - length pend)"
      using i xs(2) by (intro put_inside) simp_all
    moreover have "?buf + of_nat (i - length pend) = data + of_nat i" using False by simp
    ultimately show ?thesis using False i by (simp add: m nth_append)
  qed
next
  show "0 \<notin> set (pend @ xs)" using h xs(1) by (simp add: holds_def)
qed (use xs(2) in simp)

lemma grep_read:
  fixes s :: "'a tty_scheme"
  assumes r: "grep_ready P pat ps fname fs data s" and f: "file_open_at k s" and pend: "holds s data 0 pend" "length pend < 1024"
    and nul: "0 \<notin> set (file_rest k s)"
  defines "n \<equiv> 1024 - length pend"
  shows "if file_rest k s = [] then ece391_read P (int k) (data + of_nat (length pend)) (int n) s = Some (0, s)
    else \<exists>t q. ece391_read P (int k) (data + of_nat (length pend)) (int n) s = Some (int (length (take n (file_rest k s))), t) \<and>
      outputs data 1025 [] s t \<and> holds t data 0 (pend @ take n (file_rest k s)) \<and> file_open_at k t \<and>
      file_rest k t = drop n (file_rest k s) \<and> fd_array t = (fd_array s)[k := (fd_array s ! k)\<lparr>file_position := q\<rparr>] \<and>
      memory t (data + 1024) = memory s (data + 1024)"
proof -
  define fe where "fe = fd_array s ! k"
  define p where "p = unat (file_position fe)"
  define N where "N = file_size (memory s) (boot_block s) (inode fe)"
  let ?buf = "data + of_nat (length pend)"
  have s: "program_ok s" "cursor_ok s" "user_range data 1025" using r by (simp_all add: grep_ready_def)
  have f': "2 \<le> k" "k < 8" "image_apart (memory s) (boot_block s)" "flags fe \<noteq> 0" "fops fe = Some File_fops"
    "inode fe < boot_inodes (memory s) (boot_block s)" "p \<le> N" "N mod 4096 \<le> 3072"
    using f by (simp_all add: file_open_at_def fe_def p_def N_def Let_def)
  have N: "N < 0x200000" using f'(3,6) by (simp add: image_apart_def N_def)
  have n: "n \<le> 1024" "0 < n" "length pend + n = 1024" using pend(2) by (simp_all add: n_def)
  have "in_window (?buf + of_nat i)" if "i < n" for i
  proof -
    have "length pend + i < 1025" using that n by simp
    then have "in_window (data + of_nat (length pend + i))" using s(3) unfolding user_range_def by blast
    then show ?thesis by (simp add: add.assoc)
  qed
  then have ub: "user_range ?buf n" by (simp add: user_range_def)
  have rest: "file_rest k s = map (file_byte (memory s) (boot_block s) (inode fe)) [p..<N]"
    by (simp add: file_rest_def fe_def p_def N_def Let_def)
  have read: "ece391_read P (int k) ?buf (int n) s = (if N \<le> p then Some (0, s) else Some (int (read_end N p n - p),
      upd_fd (tasks_running s) k (\<lambda>f. f\<lparr>file_position := of_nat (read_end N p n)\<rparr>)
        (s\<lparr>memory := put (memory s) ?buf (map (file_byte (memory s) (boot_block s) (inode fe)) [p..<read_end N p n])\<rparr>)))"
    using read_file [OF s(1) f'(1,2) fe_def f'(4,5,3,6) ub] n N f'(7) user_range_nonzero [OF ub n(2)]
    by (simp add: p_def N_def)
  show ?thesis
  proof (cases "N \<le> p")
    case True
    then show ?thesis using read rest by simp
  next
    case False
    then have E: "read_end N p n = min (p + n) N" using read_end_min [OF f'(8) _ n(1)] by simp
    define xs where "xs = take n (file_rest k s)"
    have xs: "map (file_byte (memory s) (boot_block s) (inode fe)) [p..<min (p + n) N] = xs"
      by (cases "p + n \<le> N") (simp_all add: xs_def rest take_map min_def)
    have len: "length xs = min (p + n) N - p" "length xs \<le> n" using f'(7) by (simp_all add: xs_def rest)
    define s1 where "s1 = s\<lparr>memory := put (memory s) ?buf xs\<rparr>"
    define t where "t = upd_fd (tasks_running s1) k (\<lambda>f. f\<lparr>file_position := of_nat (min (p + n) N)\<rparr>) s1"
    have call: "ece391_read P (int k) ?buf (int n) s = Some (int (length xs), t)"
      using read False by (simp add: E xs len(1) t_def s1_def)
    have fits: "length pend + length xs \<le> 1024" using len(2) n(3) by simp
    note out = put_in_array [OF fits]
    have o1: "outputs data 1025 [] s s1" unfolding s1_def by (intro runs_memory(2) s out) simp
    have fd1: "fd_array s1 = fd_array s" by (simp add: s1_def fd_array_def pcb_of_def)
    have f1: "file_open_at k s1" "file_rest k s1 = file_rest k s"
      "file_size (memory s1) (boot_block s1) (inode (fd_array s1 ! k)) = N"
      using file_open_same [OF f, of data 1025 s1] o1 fd1 by (simp_all add: outputs_def N_def fe_def)
    have at1: "unat (file_position (fd_array s1 ! k)) = p" by (simp add: fd1 p_def fe_def)
    have "length (fd_array s1) = 8" using program_okD(5) [OF s(1)] by (simp add: fd1)
    note move = file_rest_move [OF f1(1) this at1 [symmetric] f1(3) [symmetric], of n, folded t_def]
    have "outputs data 1025 [] s1 t"
      unfolding t_def using outputs_ok [OF o1] f'(1,5) by (intro runs_upd_fd(2)) (simp_all add: fd1 fe_def [symmetric] closable_def)
    with o1 have o: "outputs data 1025 [] s t" using outputs_trans by fastforce
    have mt: "memory t = put (memory s) ?buf xs" by (simp add: t_def s1_def)
    have "0 \<notin> set xs" using nul by (auto simp: xs_def dest: in_set_takeD)
    then have "holds t data 0 (pend @ xs)" by (rule holds_put [OF pend(1) _ fits mt])
    moreover have "unat (data + 1024 - data) = 1024" by simp
    then have "memory t (data + 1024) = memory s (data + 1024)" using out [of "data + 1024" data "memory s"] by (simp add: mt)
    moreover have "file_rest k s \<noteq> []" using False by (simp add: rest)
    ultimately show ?thesis
      unfolding xs_def [symmetric] using call o move [unfolded fd1 f1(2)] by auto
  qed
qed

lemma grep_loop_shows:
  fixes s :: "'a tty_scheme"
  assumes "grep_ready P pat ps fname fs data s" "file_open_at k s" "holds s data 0 pend" "length pend < 1024"
    and "0 \<notin> set (file_rest k s)" "short_lines (pend @ file_rest k s)" "memory s (data + 1024) \<noteq> 0x0A"
  shows "\<exists>t q. grep_loop P pat (of_nat (length ps)) fname (int k) data (int (length pend)) s = Some (0, t) \<and>
    outputs data 1025 (grep_text fs ps (pend @ file_rest k s)) s t \<and>
    fd_array t = (fd_array s)[k := (fd_array s ! k)\<lparr>file_position := q\<rparr>] \<and> memory t (data + 1024) \<noteq> 0x0A"
  using assms
proof (induction "length (file_rest k s)" arbitrary: pend s rule: less_induct)
  case less
  note r = less.prems(1) and f = less.prems(2)
  let ?rest = "file_rest k s" and ?n = "1024 - length pend" and ?N = "of_nat (length ps) :: u32"
  have n: "int ?n = 1024 - int (length pend)" "0 < ?n" using less.prems(4) by simp_all
  note read = grep_read [OF r f less.prems(3-5)]
  show ?case
  proof (cases "?rest = []")
    case True
    obtain t pend' out where t: "grep_lines P pat ?N fname data 0 (int (0 + length pend)) (int 0) s = Some (int (length pend'), t)"
      "pass_ok fs ps data False pend s pend' out t" "pend' = []"
      using grep_lines_pass [OF r less.prems(3), of False 0] by auto
    have "grep_text fs ps [] = []" using r by (simp add: grep_ready_def grep_text_Nil)
    then have "out = grep_text fs ps pend" "outputs data 1025 out s t" "fd_array t = fd_array s" "memory t (data + 1024) \<noteq> 0x0A"
      using t(2,3) less.prems(7) by (auto simp: pass_ok_def)
    moreover have "grep_loop P pat ?N fname (int k) data (int (length pend)) s = Some (0, t)"
      using read True t(1,3) n by (subst grep_loop.simps) simp
    moreover have "fd_array s = (fd_array s)[k := (fd_array s ! k)\<lparr>file_position := file_position (fd_array s ! k)\<rparr>]" by simp
    ultimately show ?thesis using True by (intro exI [of _ t] exI [of _ "file_position (fd_array s ! k)"]) simp
  next
    case False
    define w where "w = pend @ take ?n ?rest"
    obtain t q where t: "ece391_read P (int k) (data + of_nat (length pend)) (int ?n) s = Some (int (length (take ?n ?rest)), t)"
      "outputs data 1025 [] s t" "holds t data 0 w" "file_open_at k t" "file_rest k t = drop ?n ?rest"
      "fd_array t = (fd_array s)[k := (fd_array s ! k)\<lparr>file_position := q\<rparr>]" "memory t (data + 1024) = memory s (data + 1024)"
      using read False unfolding w_def by auto
    have rt: "grep_ready P pat ps fname fs data t" by (rule grep_ready_outputs [OF r t(2)])
    define cnt where "cnt = int (length (take ?n ?rest))"
    have cnt: "0 < cnt" using False n(2) by (simp add: cnt_def)
    have all: "w @ file_rest k t = pend @ ?rest" by (simp add: w_def t(5))
    have full: "length w = 1024 \<and> 0x0A \<in> set w" if "file_rest k t \<noteq> []"
    proof -
      have l: "length w = 1024" using that less.prems(4) by (simp add: w_def t(5))
      then have "take 1024 (drop 0 (pend @ ?rest)) = w" unfolding all [symmetric] by simp
      moreover have "0 + 1024 \<le> length (pend @ ?rest)" unfolding all [symmetric] using l by simp
      ultimately show ?thesis using less.prems(6) l unfolding short_lines_def by metis
    qed
    have "cnt \<noteq> 0 \<and> memory t (data + of_nat (0 + length w)) \<noteq> 0x0A \<and> (0 \<noteq> (0 :: nat) \<or> 0x0A \<in> set w)" if "file_rest k t \<noteq> []"
      using full [OF that] cnt less.prems(7) t(7) by simp
    then obtain u pend' out where u: "grep_lines P pat ?N fname data cnt (int (0 + length w)) (int 0) t = Some (int (length pend'), u)"
      "pass_ok fs ps data (file_rest k t \<noteq> []) w t pend' out u"
      using grep_lines_pass [OF rt t(3), of "file_rest k t \<noteq> []" cnt] by auto
    have p: "outputs data 1025 out t u" "holds u data 0 pend'" "length pend' < 1024" "suffix pend' w" "fd_array u = fd_array t"
      "memory u (data + 1024) \<noteq> 0x0A"
      using u(2) less.prems(7) t(7) unfolding pass_ok_def by simp_all
    have "grep_text fs ps (w @ file_rest k t) = out @ grep_text fs ps (pend' @ file_rest k t)"
      using u(2) unfolding pass_ok_def by blast
    then have shows_all: "grep_text fs ps (pend @ ?rest) = out @ grep_text fs ps (pend' @ file_rest k t)" unfolding all .
    have ou: "outputs data 1025 out s u" using outputs_trans [OF t(2) p(1)] by simp
    have fu: "file_open_at k u" "file_rest k u = file_rest k t"
      using file_open_same [OF t(4), of data 1025 u] p(1,5) by (simp_all add: outputs_def)
    have "0 \<notin> set (file_rest k u)" using less.prems(5) by (auto simp: fu(2) t(5) dest: in_set_dropD)
    moreover have "short_lines (pend' @ file_rest k u)"
      using short_lines_suffix [OF less.prems(6)] p(4) by (simp add: fu(2) all [symmetric])
    moreover have "length (file_rest k u) < length ?rest"
      unfolding fu(2) t(5) length_drop using False n(2) by (intro diff_less) simp_all
    ultimately obtain v q' where v: "grep_loop P pat ?N fname (int k) data (int (length pend')) u = Some (0, v)"
      "outputs data 1025 (grep_text fs ps (pend' @ file_rest k u)) u v"
      "fd_array v = (fd_array u)[k := (fd_array u ! k)\<lparr>file_position := q'\<rparr>]" "memory v (data + 1024) \<noteq> 0x0A"
      using less.hyps [OF _ grep_ready_outputs [OF rt p(1)] fu(1) p(2,3) _ _ p(6)] by blast
    have "int (length pend) + cnt = int (length w)" by (simp add: w_def cnt_def)
    then have "grep_loop P pat ?N fname (int k) data (int (length pend)) s = Some (0, v)"
      using t(1) [folded cnt_def] u(1) v(1) n(1) cnt by (subst grep_loop.simps) simp
    moreover have "outputs data 1025 (grep_text fs ps (pend @ ?rest)) s v"
      using outputs_trans [OF ou v(2)] by (simp add: shows_all fu(2))
    moreover have "fd_array v = (fd_array s)[k := (fd_array s ! k)\<lparr>file_position := q'\<rparr>]"
      by (cases "k < length (fd_array s)") (simp_all add: v(3) p(5) t(6) list_update_beyond)
    ultimately show ?thesis using v(4) by blast
  qed
qed

lemma close_file:
  fixes s :: "'a tty_scheme"
  assumes s: "program_ok s" "cursor_ok s" and k: "2 \<le> k" "k < 8" "flags (fd_array s ! k) \<noteq> 0"
  shows "\<exists>t. ece391_close P (int k) s = Some (0, t) \<and> outputs buf n [] s t \<and>
    fd_array t = (fd_array s)[k := closed_fd (fd_array s ! k)] \<and> memory t = memory s"
proof -
  define t where "t = upd_fd (tasks_running s) k closed_fd s"
  have "sint (word_of_int (int k) :: u32) = int k" using sint_of_nat_fits [of k] k(2) by simp
  moreover have "syscall_close (int k) s = Some (0, t)"
    using close_open_fd [OF program_okD(3,10) [OF s(1)], of "int k"] k by (simp add: t_def)
  ultimately have "ece391_close P (int k) s = Some (0, t)" by (simp add: call_defs do_call_simps [OF s(1)])
  moreover have "outputs buf n [] s t" unfolding t_def using k(1) s by (intro runs_upd_fd(2)) (simp_all add: closed_fd_def)
  moreover have "fd_array t = (fd_array s)[k := closed_fd (fd_array s ! k)]" "memory t = memory s"
    by (simp_all add: t_def fds_of_upd_fd)
  ultimately show ?thesis by blast
qed

text \<open>A file that \<open>grep\<close> can search: text in lines of at most 1023 bytes, which does not end in
  the last quarter of a block.\<close>

definition text_file :: "mem \<Rightarrow> addr \<Rightarrow> u32 \<Rightarrow> bool" where
  "text_file m bb ino \<longleftrightarrow> ino < boot_inodes m bb \<and> file_size m bb ino mod 4096 \<le> 3072 \<and>
     (let xs = map (file_byte m bb ino) [0..<file_size m bb ino] in 0 \<notin> set xs \<and> short_lines xs)"

definition file_bytes :: "mem \<Rightarrow> addr \<Rightarrow> u32 \<Rightarrow> u8 list" where
  "file_bytes m bb ino = map (file_byte m bb ino) [0..<file_size m bb ino]"

lemma grep_one_file:
  fixes s :: "'a tty_scheme"
  assumes r: "grep_ready P pat ps fname fs data s" and img: "image_apart (memory s) (boot_block s)"
    and name: "fname \<noteq> 0" "fs \<noteq> []" "length fs \<le> 32" and k: "find_open_fd (fd_array s) = Some k"
    and i: "lookup (memory s) (boot_block s) fs = Some i"
    and d: "d = dentry_at (memory s) (entry_addr (boot_block s) (of_nat i))" "d_type d = 2"
      "text_file (memory s) (boot_block s) (d_inode d)"
    and start: "memory s (data + 1024) \<noteq> 0x0A" "file_position (fd_array s ! k) = 0"
  shows "\<exists>t. do_one_file P pat fname data s = Some (0, t) \<and>
    outputs data 1025 (grep_text fs ps (file_bytes (memory s) (boot_block s) (d_inode d))) s t \<and>
    fd_array t = (fd_array s)[k := fd_array t ! k] \<and> flags (fd_array t ! k) = 0 \<and> file_position (fd_array t ! k) = 0 \<and>
    memory t (data + 1024) \<noteq> 0x0A"
proof -
  have s: "program_ok s" "cursor_ok s" "in_program (memory s) fname fs" "in_program (memory s) pat ps"
    using r by (simp_all add: grep_ready_def)
  have len: "length (fd_array s) = 8" by (rule program_okD(5) [OF s(1)])
  have ty: "d_type d \<in> {1, 2}" using d(2) by simp
  obtain t where t: "ece391_open P fname s = Some (int k, t)" "outputs data 1025 [] s t" "memory t = memory s" "2 \<le> k" "k < 8"
    "fd_array t = (fd_array s)[k := opened_fd (type_fops (d_type d)) (d_inode d) (fd_array s ! k)]"
    using open_found [OF s(1,3) name k i d(1) ty, of P data 1025] s(2) by blast
  have rt: "grep_ready P pat ps fname fs data t" by (rule grep_ready_outputs [OF r t(2)])
  have bb: "boot_block t = boot_block s" using t(2) by (simp add: outputs_def runs_def)
  have at: "fd_array t ! k = opened_fd File_fops (d_inode d) (fd_array s ! k)" using len t(5) d(2) by (simp add: t(6) type_fops_def)
  have f: "file_open_at k t"
    using t(4,5) img d(3) start(2) by (simp add: file_open_at_def at t(3) bb opened_fd_def text_file_def Let_def)
  have rest: "file_rest k t = file_bytes (memory s) (boot_block s) (d_inode d)"
    using start(2) by (simp add: file_rest_def at t(3) bb opened_fd_def file_bytes_def Let_def)
  have "0 \<notin> set (file_rest k t)" "short_lines ([] @ file_rest k t)"
    using d(3) unfolding rest by (simp_all add: text_file_def file_bytes_def Let_def)
  moreover have "holds t data 0 []" by (rule holdsI) simp_all
  ultimately obtain u q where u: "grep_loop P pat (of_nat (length ps)) fname (int k) data (int (length [])) t = Some (0, u)"
    "outputs data 1025 (grep_text fs ps ([] @ file_rest k t)) t u"
    "fd_array u = (fd_array t)[k := (fd_array t ! k)\<lparr>file_position := q\<rparr>]" "memory u (data + 1024) \<noteq> 0x0A"
    using grep_loop_shows [OF rt f, of "[]"] start(1) t(3) by auto
  have ok: "program_ok u" "cursor_ok u" using outputs_ok [OF u(2)] by simp_all
  have fl: "flags (fd_array u ! k) \<noteq> 0" using len t(5) by (simp add: u(3) t(6) opened_fd_def)
  obtain v where v: "ece391_close P (int k) u = Some (0, v)" "outputs data 1025 [] u v"
    "fd_array v = (fd_array u)[k := closed_fd (fd_array u ! k)]" "memory v = memory u"
    using close_file [OF ok t(4,5) fl] by blast
  have "ece391_strlen (memory s) pat = Some (of_nat (length ps))"
    using s(4) by (simp add: in_program_def ece391_strlen_string)
  then have "do_one_file P pat fname data s = Some (0, v)" using t(1) u(1) v(1) by (simp add: do_one_file_def)
  moreover have "outputs data 1025 (grep_text fs ps (file_rest k t)) s v"
    using outputs_trans [OF outputs_trans [OF t(2) u(2)] v(2)] by simp
  moreover have "fd_array v ! k = closed_fd (fd_array u ! k)" using len t(5) by (simp add: v(3) u(3) t(6))
  moreover have "fd_array v = (fd_array s)[k := fd_array v ! k]" using len t(5) by (simp add: v(3) u(3) t(6))
  ultimately show ?thesis using u(4) v(4) unfolding rest by (auto simp: closed_fd_def)
qed

end
