(* ===== verification/Search.thy ===== *)
theory Search
  imports Grep
begin

section \<open>grep over the directory\<close>

text \<open>
  The main loop of \<open>src/syscalls/ece391grep.c\<close>: the directory is read as \<open>ls\<close> reads it, names that
  begin with a full stop are passed over, and every other file is searched.
\<close>

subsection \<open>What the directory holds\<close>

text \<open>The entry a name stands for, and what \<open>grep\<close> is to show of it.\<close>

definition found_dentry :: "mem \<Rightarrow> addr \<Rightarrow> u8 list \<Rightarrow> dentry option" where
  "found_dentry m bb xs = map_option (\<lambda>i. dentry_at m (entry_addr bb (of_nat i))) (lookup m bb xs)"

definition entry_matches :: "u8 list \<Rightarrow> mem \<Rightarrow> addr \<Rightarrow> u8 list \<Rightarrow> u8 list" where
  "entry_matches ps m bb xs = (if hd xs = 0x2E then [] else
     case found_dentry m bb xs of None \<Rightarrow> [] | Some d \<Rightarrow> grep_text xs ps (file_bytes m bb (d_inode d)))"

definition directory_matches :: "u8 list \<Rightarrow> mem \<Rightarrow> addr \<Rightarrow> nat \<Rightarrow> u8 list" where
  "directory_matches ps m bb p = concat (map (\<lambda>i. entry_matches ps m bb (entry_name m bb i)) (takeWhile (named m bb) [p..<63]))"

text \<open>A directory \<open>grep\<close> can search: what does not begin with a full stop is a file of text.\<close>

definition searchable_entry :: "mem \<Rightarrow> addr \<Rightarrow> u8 list \<Rightarrow> bool" where
  "searchable_entry m bb xs \<longleftrightarrow> hd xs = 0x2E \<or>
     (case found_dentry m bb xs of None \<Rightarrow> False | Some d \<Rightarrow> d_type d = 2 \<and> text_file m bb (d_inode d))"

definition searchable :: "mem \<Rightarrow> addr \<Rightarrow> bool" where
  "searchable m bb \<longleftrightarrow> (\<forall>i < 63. named m bb i \<longrightarrow> searchable_entry m bb (entry_name m bb i))"

lemma directory_step:
  "p < 63 \<Longrightarrow> directory_matches ps m bb p =
    (if named m bb p then entry_matches ps m bb (entry_name m bb p) @ directory_matches ps m bb (Suc p) else [])"
  by (simp add: directory_matches_def upt_conv_Cons)

lemma directory_end: "directory_matches ps m bb 63 = []"
  by (simp add: directory_matches_def)

text \<open>None of it depends on what is outside the image.\<close>

lemma file_bytes_same:
  assumes "same_image bb m m'" "image_apart m bb" "ino < boot_inodes m bb"
  shows "file_bytes m' bb ino = file_bytes m bb ino" "text_file m' bb ino = text_file m bb ino"
proof -
  have io: "image_ok m bb" using assms(2) by (simp add: image_apart_def)
  have n: "file_size m' bb ino = file_size m bb ino" by (rule same_image_inode(1) [OF assms(1,3)])
  have "file_byte m' bb ino j = file_byte m bb ino j" if "j < file_size m bb ino" for j
  proof -
    have "file_size m bb ino \<le> 0x200000" using assms(2,3) by (auto simp: image_apart_def less_imp_le)
    then have "j div 4096 < 1023" using that by (simp add: less_mult_imp_div_less)
    then show ?thesis using same_image_ok(3) [OF assms(1) io assms(3)] by simp
  qed
  then have b: "map (file_byte m' bb ino) [0..<file_size m bb ino] = map (file_byte m bb ino) [0..<file_size m bb ino]" by simp
  show "file_bytes m' bb ino = file_bytes m bb ino" "text_file m' bb ino = text_file m bb ino"
    unfolding file_bytes_def text_file_def n b same_image_boot(1) [OF assms(1)] by (rule refl)+
qed

lemma found_dentry_same:
  assumes "same_image bb m m'"
  shows "found_dentry m' bb xs = found_dentry m bb xs"
proof (cases "lookup m bb xs")
  case (Some i)
  then show ?thesis
    using same_image_lookup [OF assms, of xs] same_image_entry(2) [OF assms lookup_name(1) [OF Some]]
    by (simp add: found_dentry_def)
qed (use same_image_lookup [OF assms, of xs] in \<open>simp add: found_dentry_def\<close>)

lemma entry_same:
  assumes "same_image bb m m'" "image_apart m bb" "searchable_entry m bb xs"
  shows "searchable_entry m' bb xs" "entry_matches ps m' bb xs = entry_matches ps m bb xs"
proof -
  note f = found_dentry_same [OF assms(1), of xs]
  have "found_dentry m bb xs = Some d \<Longrightarrow> hd xs \<noteq> 0x2E \<Longrightarrow> d_inode d < boot_inodes m bb" for d
    using assms(3) by (simp add: searchable_entry_def text_file_def)
  note same = file_bytes_same [OF assms(1,2) this]
  show "searchable_entry m' bb xs" "entry_matches ps m' bb xs = entry_matches ps m bb xs"
    using assms(3) same by (auto simp: searchable_entry_def entry_matches_def f split: option.splits)
qed

lemma directory_same:
  assumes "same_image bb m m'" "image_apart m bb" "searchable m bb"
  shows "searchable m' bb" "directory_matches ps m' bb p = directory_matches ps m bb p"
proof -
  note e = same_image_entry(3) [OF assms(1)] and n = listing_same(3) [OF assms(1)]
  note se = entry_same [OF assms(1,2)]
  show "searchable m' bb" using assms(3) se(1) by (simp add: searchable_def e n)
  have t: "takeWhile (named m' bb) [p..<63] = takeWhile (named m bb) [p..<63]"
    using n by (intro takeWhile_cong) simp_all
  have "entry_matches ps m' bb (entry_name m' bb i) = entry_matches ps m bb (entry_name m bb i)"
    if "i \<in> set (takeWhile (named m bb) [p..<63])" for i
    using set_takeWhileD [OF that] assms(3) se(2) by (simp add: e searchable_def)
  then show "directory_matches ps m' bb p = directory_matches ps m bb p"
    unfolding directory_matches_def t by (intro arg_cong [where f = concat] map_cong refl)
qed

subsection \<open>The program's arrays\<close>

text \<open>Both arrays lie in one area of the stack, and the pattern and the literals outside it.\<close>

definition grep_frame :: "addr \<Rightarrow> nat \<Rightarrow> addr \<Rightarrow> addr \<Rightarrow> bool" where
  "grep_frame a n buf data \<longleftrightarrow> user_range a n \<and> n \<le> 2 ^ 31 \<and> apart buf 33 data 1025 \<and>
     (\<exists>j. buf = a + of_nat j \<and> j + 33 \<le> n) \<and> (\<exists>j. data = a + of_nat j \<and> j + 1025 \<le> n)"

definition entry_error :: string where
  "entry_error = line ''directory entry read failed''"

definition search_ready :: "'a program \<Rightarrow> addr \<Rightarrow> nat \<Rightarrow> addr \<Rightarrow> addr \<Rightarrow> addr \<Rightarrow> u8 list \<Rightarrow> 'a tty_scheme \<Rightarrow> bool" where
  "search_ready P a n buf data pat ps s \<longleftrightarrow> program_ok s \<and> cursor_ok s \<and> image_apart (memory s) (boot_block s) \<and>
     searchable (memory s) (boot_block s) \<and> grep_frame a n buf data \<and>
     in_program (memory s) pat ps \<and> apart pat (Suc (length ps)) a n \<and> ps \<noteq> [] \<and> hd ps < 0x80 \<and>
     literals_at P (memory s) (insert entry_error grep_literals) \<and> literals_apart P (insert entry_error grep_literals) a n"

lemma apart_part:
  assumes "apart x k a n" "j + i \<le> n"
  shows "apart x k (a + of_nat j) i"
proof -
  have "x + of_nat u \<noteq> a + of_nat j + of_nat v" if "u < k" "v < i" for u v
  proof -
    have "j + v < n" using assms(2) that(2) by simp
    then have "x + of_nat u \<noteq> a + of_nat (j + v)" using assms(1) that(1) unfolding apart_def by blast
    then show ?thesis by (simp add: add.assoc)
  qed
  then show ?thesis by (simp add: apart_def)
qed

lemma user_range_part:
  assumes "user_range a n" "j + i \<le> n"
  shows "user_range (a + of_nat j) i"
proof -
  have "in_window (a + of_nat j + of_nat v)" if "v < i" for v
  proof -
    have "j + v < n" using assms(2) that by simp
    then have "in_window (a + of_nat (j + v))" using assms(1) unfolding user_range_def by blast
    then show ?thesis by (simp add: add.assoc)
  qed
  then show ?thesis by (simp add: user_range_def)
qed

lemma grep_frame_parts:
  assumes f: "grep_frame a n buf data"
  shows "user_range buf 33" "user_range data 1025"
    "outputs buf 33 xs s t \<Longrightarrow> outputs a n xs s t" "outputs data 1025 xs s t \<Longrightarrow> outputs a n xs s t"
    "apart x k a n \<Longrightarrow> apart x k data 1025" "literals_apart P X a n \<Longrightarrow> literals_apart P X data 1025"
    "e < 33 \<Longrightarrow> data + 1024 \<noteq> buf + of_nat e"
proof -
  obtain i j where ij: "buf = a + of_nat i" "i + 33 \<le> n" "data = a + of_nat j" "j + 1025 \<le> n" and n: "n \<le> 2 ^ 32"
    and u: "user_range a n" and ap: "apart buf 33 data 1025"
    using f by (auto simp: grep_frame_def)
  show "user_range buf 33" "user_range data 1025" using user_range_part [OF u] ij by simp_all
  show "outputs buf 33 xs s t \<Longrightarrow> outputs a n xs s t" using runs_widen [of a i 33 s t n] ij n by (simp add: outputs_def)
  show "outputs data 1025 xs s t \<Longrightarrow> outputs a n xs s t" using runs_widen [of a j 1025 s t n] ij n by (simp add: outputs_def)
  show "apart x k a n \<Longrightarrow> apart x k data 1025" for x k using apart_part [of x k a n j 1025] ij by simp
  then show "literals_apart P X a n \<Longrightarrow> literals_apart P X data 1025" by (simp add: literals_apart_def)
  have "(1024 :: nat) < 1025" by simp
  then have "buf + of_nat e \<noteq> data + of_nat 1024" if "e < 33" using ap that unfolding apart_def by blast
  then show "e < 33 \<Longrightarrow> data + 1024 \<noteq> buf + of_nat e" by force
qed

lemma search_ready_outputs:
  assumes r: "search_ready P a n buf data pat ps s" and o: "outputs a n xs s t"
  shows "search_ready P a n buf data pat ps t" "boot_block t = boot_block s"
    "same_image (boot_block s) (memory s) (memory t)"
proof -
  have run: "runs a n s t" using o by (simp add: outputs_def)
  note h = r [unfolded search_ready_def]
  have n: "n \<le> 2 ^ 32" using h by (simp add: grep_frame_def)
  show bb: "boot_block t = boot_block s" using run by (simp add: runs_def)
  have img: "image_apart (memory s) (boot_block s)" using h by simp
  note im = runs_image [OF run img]
  then show "same_image (boot_block s) (memory s) (memory t)" by simp
  have "in_program (memory t) pat ps" using runs_string [OF run _ _ n, of pat ps] h by simp
  moreover have "literals_at P (memory t) (insert entry_error grep_literals)"
    using runs_literals [OF run _ _ n, of P "insert entry_error grep_literals"] h by simp
  moreover have "searchable (memory t) (boot_block t)" using directory_same(1) [OF im(2) img] h by (simp add: bb)
  ultimately show "search_ready P a n buf data pat ps t"
    using h outputs_ok [OF o] im(1) unfolding search_ready_def by blast
qed

lemma search_ready_file:
  assumes r: "search_ready P a n buf data pat ps s" and name: "in_program (memory s) buf fs" "length fs \<le> 32"
  shows "grep_ready P pat ps buf fs data s"
proof -
  note h = r [unfolded search_ready_def]
  have f: "grep_frame a n buf data" using h by simp
  have "apart buf (Suc (length fs)) data 1025" using f name(2) by (simp add: grep_frame_def apart_def)
  moreover have "literals_at P (memory s) grep_literals" "literals_apart P grep_literals data 1025"
    using h grep_frame_parts(6) [OF f, of P grep_literals] by (simp_all add: literals_at_def literals_apart_def)
  ultimately show ?thesis
    using h name(1) grep_frame_parts(2,5) [OF f] by (simp add: grep_ready_def)
qed

subsection \<open>The loop over the entries\<close>

definition dir_at :: "nat \<Rightarrow> 'a tty_scheme \<Rightarrow> bool" where
  "dir_at p s \<longleftrightarrow> flags (fd_array s ! 2) \<noteq> 0 \<and> fops (fd_array s ! 2) = Some Dir_fops \<and>
     file_position (fd_array s ! 2) = of_nat p \<and> flags (fd_array s ! 3) = 0 \<and> file_position (fd_array s ! 3) = 0"

lemma dir_at_next: "dir_at p s \<Longrightarrow> find_open_fd (fd_array s) = Some 3"
  by (simp add: dir_at_def find_open_fd_def upt_rec)

lemma dir_at_same: "dir_at p s \<Longrightarrow> fd_array t = fd_array s \<Longrightarrow> dir_at p t"
  by (simp add: dir_at_def)

text \<open>Reading the next name, and ending it.\<close>

lemma search_fetch:
  fixes s :: "'a tty_scheme"
  assumes r: "search_ready P a n buf data pat ps s" and d: "dir_at p s" and p: "p < 63"
    and nm: "named (memory s) (boot_block s) p"
  defines "name \<equiv> entry_name (memory s) (boot_block s) p"
  shows "\<exists>t. ece391_read P 2 buf 32 s = Some (int (length name), t) \<and> outputs a n [] s t \<and> dir_at (Suc p) t \<and>
    load (memory t) buf (length name) = name \<and> memory t (data + 1024) = memory s (data + 1024)"
proof -
  note h = r [unfolded search_ready_def]
  have f: "grep_frame a n buf data" and ok: "program_ok s" "cursor_ok s" using h by simp_all
  note fp = grep_frame_parts [OF f]
  have len: "name \<noteq> []" "length name \<le> 32" using nm entry_name_length by (simp_all add: named_def name_def)
  have nul: "\<exists>a. memory s a = 0" using h literals_nul [of P "memory s" "insert entry_error grep_literals"] by blast
  define t where "t = upd_fd (tasks_running s) 2 (\<lambda>f. f\<lparr>file_position := of_nat (Suc p)\<rparr>) (s\<lparr>memory := put (memory s) buf name\<rparr>)"
  have c: "closable (fops (fd_array s ! 2))" using d by (simp add: dir_at_def closable_def)
  have l33: "length name \<le> 33" using len(2) by simp
  have read: "outputs buf 33 [] s t" "fd_array t ! 2 = (fd_array s ! 2)\<lparr>file_position := of_nat (Suc p)\<rparr>"
    "memory t = put (memory s) buf name" "load (memory t) buf (length name) = name"
    using outputs_fetch [OF ok fp(1) l33 _ _ _ c, of "of_nat (Suc p)", folded t_def] by simp_all
  have fields: "flags (fd_array s ! 2) \<noteq> 0" "fops (fd_array s ! 2) = Some Dir_fops" "file_position (fd_array s ! 2) = of_nat p"
    using d by (simp_all add: dir_at_def)
  have img: "image_apart (memory s) (boot_block s)" and u: "user_range buf 32" using h user_range_sub [OF fp(1)] by simp_all
  have "ece391_read P (int 2) buf 32 s = Some (int (length name), t)"
    using read_entry [OF ok(1) _ _ refl fields _ img nul u, of P] p len(1) by (simp add: name_def [symmetric] t_def)
  moreover have "fd_array t ! 3 = fd_array s ! 3"
    using fds_of_upd_fd [of "s\<lparr>memory := put (memory s) buf name\<rparr>" 2 "\<lambda>f. f\<lparr>file_position := of_nat (Suc p)\<rparr>"]
    by (simp add: t_def) (simp add: fd_array_def pcb_of_def)
  then have "dir_at (Suc p) t" using d by (simp add: dir_at_def read(2))
  moreover have "memory t (data + 1024) = memory s (data + 1024)"
  proof -
    have "\<not> unat (data + 1024 - buf) < 33"
    proof
      assume i: "unat (data + 1024 - buf) < 33"
      have "data + 1024 = buf + of_nat (unat (data + 1024 - buf))" by simp
      then show False using fp(7) [OF i] by blast
    qed
    then show ?thesis using put_outside_array [OF l33] by (simp add: read(3))
  qed
  ultimately show ?thesis using read(4) fp(3) [OF read(1)] by (intro exI [of _ t]) simp
qed

lemma search_name:
  fixes t :: "'a tty_scheme"
  assumes r: "search_ready P a n buf data pat ps t" and x: "load (memory t) buf (length xs) = xs" "length xs \<le> 32" "0 \<notin> set xs"
  defines "u \<equiv> t\<lparr>memory := (memory t)(buf + of_nat (length xs) := 0)\<rparr>"
  shows "outputs a n [] t u" "in_program (memory u) buf xs" "memory u (data + 1024) = memory t (data + 1024)"
    "fd_array u = fd_array t"
proof -
  note h = r [unfolded search_ready_def]
  have f: "grep_frame a n buf data" and ok: "program_ok t" "cursor_ok t" using h by simp_all
  note fp = grep_frame_parts [OF f]
  have "outputs buf 33 [] t u" unfolding u_def using x(2) by (intro outputs_store ok fp(1)) simp_all
  then show "outputs a n [] t u" by (rule fp(3))
  show "in_program (memory u) buf xs" using store_end [of "memory t" buf 0 xs 33] x fp(1) by (simp add: u_def)
  have "data + 1024 \<noteq> buf + of_nat (length xs)" using fp(7) x(2) by simp
  then show "memory u (data + 1024) = memory t (data + 1024)" by (simp add: u_def)
  show "fd_array u = fd_array t" by (simp add: u_def fd_array_def pcb_of_def)
qed

text \<open>One entry.\<close>

lemma search_entry_file:
  fixes u :: "'a tty_scheme"
  assumes r: "search_ready P a n buf data pat ps u" and d: "dir_at p u" and far: "memory u (data + 1024) \<noteq> 0x0A"
    and name: "in_program (memory u) buf xs" "xs \<noteq> []" "length xs \<le> 32" "hd xs \<noteq> 0x2E" "searchable_entry (memory u) (boot_block u) xs"
  shows "\<exists>v. do_one_file P pat buf data u = Some (0, v) \<and> dir_at p v \<and> memory v (data + 1024) \<noteq> 0x0A \<and>
    outputs a n (entry_matches ps (memory u) (boot_block u) xs) u v"
proof -
  note h = r [unfolded search_ready_def]
  have f: "grep_frame a n buf data" and img: "image_apart (memory u) (boot_block u)" using h by simp_all
  note fp = grep_frame_parts [OF f]
  have b0: "buf \<noteq> 0" using user_range_nonzero [OF fp(1)] by simp
  have g: "grep_ready P pat ps buf xs data u" by (rule search_ready_file [OF r name(1,3)])
  obtain e where e: "found_dentry (memory u) (boot_block u) xs = Some e" "d_type e = 2" "text_file (memory u) (boot_block u) (d_inode e)"
    using name(4,5) by (auto simp: searchable_entry_def split: option.splits)
  obtain i where i: "lookup (memory u) (boot_block u) xs = Some i"
    "e = dentry_at (memory u) (entry_addr (boot_block u) (of_nat i))"
    using e(1) by (auto simp: found_dentry_def)
  have p0: "file_position (fd_array u ! 3) = 0" using d by (simp add: dir_at_def)
  obtain v where v: "do_one_file P pat buf data u = Some (0, v)"
    "outputs data 1025 (grep_text xs ps (file_bytes (memory u) (boot_block u) (d_inode e))) u v"
    "fd_array v = (fd_array u)[3 := fd_array v ! 3]" "flags (fd_array v ! 3) = 0" "file_position (fd_array v ! 3) = 0"
    "memory v (data + 1024) \<noteq> 0x0A"
    using grep_one_file [OF g img b0 name(2,3) dir_at_next [OF d] i(1,2) e(2,3) far p0] by blast
  have "fd_array v ! 2 = (fd_array u)[3 := fd_array v ! 3] ! 2" using arg_cong [OF v(3), of "\<lambda>x. x ! 2"] .
  then have "dir_at p v" using d v(4,5) by (simp add: dir_at_def)
  moreover have "entry_matches ps (memory u) (boot_block u) xs = grep_text xs ps (file_bytes (memory u) (boot_block u) (d_inode e))"
    using name(4) e(1) by (simp add: entry_matches_def)
  ultimately show ?thesis using v(1,6) fp(4) [OF v(2)] by (intro exI [of _ v]) simp
qed

lemma search_step:
  fixes s :: "'a tty_scheme"
  assumes r: "search_ready P a n buf data pat ps s" and d: "dir_at p s" and far: "memory s (data + 1024) \<noteq> 0x0A"
    and p: "p < 63" "named (memory s) (boot_block s) p"
  shows "\<exists>t. grep_files P 2 buf pat data s = grep_files P 2 buf pat data t \<and> dir_at (Suc p) t \<and> memory t (data + 1024) \<noteq> 0x0A \<and>
    outputs a n (entry_matches ps (memory s) (boot_block s) (entry_name (memory s) (boot_block s) p)) s t"
proof -
  define name where "name = entry_name (memory s) (boot_block s) p"
  have ne: "name \<noteq> []" "length name \<le> 32" using p(2) entry_name_length by (simp_all add: named_def name_def)
  have nn: "0 \<notin> set name" by (auto simp: name_def entry_name_def dest: set_takeWhileD)
  obtain t where t: "ece391_read P 2 buf 32 s = Some (int (length name), t)" "outputs a n [] s t" "dir_at (Suc p) t"
    "load (memory t) buf (length name) = name" "memory t (data + 1024) = memory s (data + 1024)"
    using search_fetch [OF r d p] unfolding name_def by blast
  note rt = search_ready_outputs [OF r t(2)]
  have "load (memory t) buf (length name) ! 0 = memory t buf" using ne(1) by simp
  then have hd: "memory t buf = hd name" using ne(1) by (simp add: t(4) hd_conv_nth)
  have cnt: "int (length name) \<noteq> 0" "int (length name) \<noteq> -1" using ne(1) by simp_all
  show ?thesis
  proof (cases "hd name = 0x2E")
    case True
    have "grep_files P 2 buf pat data s = grep_files P 2 buf pat data t"
      using t(1) cnt hd True by (subst grep_files.simps) simp
    moreover have "entry_matches ps (memory s) (boot_block s) name = []" using True by (simp add: entry_matches_def)
    ultimately show ?thesis using t(2,3,5) far by (auto simp: name_def [symmetric])
  next
    case False
    define u where "u = t\<lparr>memory := (memory t)(buf + of_nat (length name) := 0)\<rparr>"
    note u = search_name [OF rt(1) t(4) ne(2) nn, folded u_def]
    have su: "outputs a n [] s u" using outputs_trans [OF t(2) u(1)] by simp
    note ru = search_ready_outputs [OF r su]
    have h: "image_apart (memory s) (boot_block s)" "searchable (memory s) (boot_block s)"
      using r by (simp_all add: search_ready_def)
    have se: "searchable_entry (memory s) (boot_block s) name"
      using h(2) p by (simp add: searchable_def name_def)
    note same = entry_same [OF ru(3) h(1) se, folded ru(2)]
    have du: "dir_at (Suc p) u" by (rule dir_at_same [OF t(3) u(4)])
    have fu: "memory u (data + 1024) \<noteq> 0x0A" using far by (simp add: u(3) t(5))
    obtain v where v: "do_one_file P pat buf data u = Some (0, v)" "dir_at (Suc p) v" "memory v (data + 1024) \<noteq> 0x0A"
      "outputs a n (entry_matches ps (memory u) (boot_block u) name) u v"
      using search_entry_file [OF ru(1) du fu u(2) ne False same(1)] by blast
    have "grep_files P 2 buf pat data s = grep_files P 2 buf pat data v"
      using t(1) cnt hd False v(1) by (subst grep_files.simps) (simp add: u_def)
    moreover have "outputs a n (entry_matches ps (memory s) (boot_block s) name) s v"
      using outputs_trans [OF su v(4)] same(2) ru(2) by simp
    ultimately show ?thesis using v(2,3) unfolding name_def by blast
  qed
qed

text \<open>Behind the last entry.\<close>

lemma search_end:
  fixes s :: "'a tty_scheme"
  assumes r: "search_ready P a n buf data pat ps s" and d: "dir_at p s" and p: "p \<le> 63" "p = 63 \<or> \<not> named (memory s) (boot_block s) p"
  shows "\<exists>t. grep_files P 2 buf pat data s = Some (if p = 63 then 3 else 0, t) \<and> outputs a n (if p = 63 then bytes entry_error else []) s t"
proof -
  note h = r [unfolded search_ready_def]
  have f: "grep_frame a n buf data" and ok: "program_ok s" "cursor_ok s" using h by simp_all
  have nul: "\<exists>a. memory s a = 0" using h literals_nul [of P "memory s" "insert entry_error grep_literals"] by blast
  have fields: "flags (fd_array s ! 2) \<noteq> 0" "fops (fd_array s ! 2) = Some Dir_fops" "file_position (fd_array s ! 2) = of_nat p"
    using d by (simp_all add: dir_at_def)
  have img: "image_apart (memory s) (boot_block s)" and u: "user_range buf 32"
    using h user_range_sub [OF grep_frame_parts(1) [OF f]] by simp_all
  note read = read_entry [OF ok(1) _ _ refl fields p(1) img nul u, of P]
  show ?thesis
  proof (cases "p = 63")
    case True
    obtain t where t: "says P entry_error s = Some t" "outputs a n (bytes entry_error) s t"
      using says_outputs [OF ok, of P "insert entry_error grep_literals" entry_error a n] h by auto
    have "grep_files P 2 buf pat data s = Some (3, t)"
      using read True t(1) by (subst grep_files.simps) (simp add: entry_error_def)
    then show ?thesis using True t(2) by simp
  next
    case False
    then have "entry_name (memory s) (boot_block s) p = []" using p(2) by (simp add: named_def)
    then obtain t where t: "ece391_read P 2 buf 32 s = Some (0, t)"
      "t = upd_fd (tasks_running s) 2 (\<lambda>f. f\<lparr>file_position := of_nat p\<rparr>) (s\<lparr>memory := put (memory s) buf []\<rparr>)"
      using read False by simp
    have c: "closable (fops (fd_array s ! 2))" using d by (simp add: dir_at_def closable_def)
    have "outputs buf 33 [] s t"
      unfolding t(2) by (rule outputs_fetch(1) [OF ok grep_frame_parts(1) [OF f] _ _ _ _ c]) simp_all
    then have "outputs a n [] s t" by (rule grep_frame_parts(3) [OF f])
    moreover have "grep_files P 2 buf pat data s = Some (0, t)" using t(1) by (subst grep_files.simps) simp
    ultimately show ?thesis using False by simp
  qed
qed

lemma grep_files_shows:
  fixes s :: "'a tty_scheme"
  assumes "search_ready P a n buf data pat ps s" "dir_at p s" "memory s (data + 1024) \<noteq> 0x0A"
    and "p \<le> 63" "\<forall>i < p. named (memory s) (boot_block s) i" "full = directory_full (memory s) (boot_block s)"
  shows "\<exists>t. grep_files P 2 buf pat data s = Some (if full then 3 else 0, t) \<and>
    outputs a n (directory_matches ps (memory s) (boot_block s) p @ (if full then bytes entry_error else [])) s t"
  using assms
proof (induction "63 - p" arbitrary: p s)
  case 0
  then have "p = 63" "full" by (simp_all add: directory_full_def)
  then show ?case using search_end [OF 0(2,3)] by (simp add: directory_end)
next
  case (Suc d)
  then have p: "p < 63" by simp
  note r = Suc.prems(1)
  show ?case
  proof (cases "named (memory s) (boot_block s) p")
    case True
    let ?xs = "entry_matches ps (memory s) (boot_block s) (entry_name (memory s) (boot_block s) p)"
    obtain t where t: "grep_files P 2 buf pat data s = grep_files P 2 buf pat data t" "dir_at (Suc p) t"
      "memory t (data + 1024) \<noteq> 0x0A" "outputs a n ?xs s t"
      using search_step [OF r Suc.prems(2,3) p True] by blast
    note rt = search_ready_outputs [OF r t(4)]
    note same = listing_same [OF rt(3), folded rt(2)]
    have img: "image_apart (memory s) (boot_block s)" "searchable (memory s) (boot_block s)"
      using r by (simp_all add: search_ready_def)
    have nm: "\<forall>i < Suc p. named (memory t) (boot_block t) i" using Suc.prems(5) True same(3) p by (auto simp: less_Suc_eq rt(2))
    have fl: "full = directory_full (memory t) (boot_block t)" using Suc.prems(6) same(2) rt(2) by simp
    have "d = 63 - Suc p" "Suc p \<le> 63" using Suc.hyps(2) p by simp_all
    then obtain u where u: "grep_files P 2 buf pat data t = Some (if full then 3 else 0, u)"
      "outputs a n (directory_matches ps (memory t) (boot_block t) (Suc p) @ (if full then bytes entry_error else [])) t u"
      using Suc.hyps(1) [OF _ rt(1) t(2,3) _ nm fl] by blast
    have "directory_matches ps (memory t) (boot_block t) (Suc p) = directory_matches ps (memory s) (boot_block s) (Suc p)"
      using directory_same(2) [OF rt(3) img] rt(2) by simp
    then show ?thesis using t(1) u(1) outputs_trans [OF t(4) u(2)] directory_step [OF p, of ps "memory s" "boot_block s"] True
      by (intro exI [of _ u]) simp
  next
    case False
    then have "\<not> full" using Suc.prems(6) p by (auto simp: directory_full_def)
    then show ?thesis
      using search_end [OF r Suc.prems(2)] p False directory_step [OF p, of ps "memory s" "boot_block s"] by simp
  qed
qed

subsection \<open>The program\<close>

definition grep_messages :: "string set" where
  "grep_messages = insert (line ''directory open failed'') (insert entry_error grep_literals)"

text \<open>After the arguments have been read.\<close>

lemma grep_start:
  fixes s :: "'a tty_scheme"
  assumes st: "started s" "argument_is ps s" and u: "user_range pat 1024" and ap: "apart pat 1024 a n" "grep_frame a n buf data"
    and lit: "literals_at P (memory s) grep_messages" "literals_apart P grep_messages pat 1024"
  shows "\<exists>t. ece391_getargs P pat 1024 s = Some (0, t) \<and> outputs pat 1024 [] s t \<and> in_program (memory t) pat ps \<and>
    apart pat (Suc (length ps)) a n \<and> fd_array t = std_fds \<and> literals_at P (memory t) grep_messages \<and>
    memory t (data + 1024) = memory s (data + 1024) \<and> boot_block t = boot_block s \<and>
    same_image (boot_block s) (memory s) (memory t) \<and> image_apart (memory t) (boot_block s)"
proof -
  have s: "program_ok s" "cursor_ok s" "fd_array s = std_fds" "image_apart (memory s) (boot_block s)"
    using st(1) by (simp_all add: started_def)
  obtain t where t: "ece391_getargs P pat 1024 s = Some (0, t)" "outputs pat 1024 [] s t" "in_program (memory t) pat ps"
    "fd_array t = std_fds"
    using getargs_argument [OF s(1,2) st(2) u, of P] s(3) by auto
  have run: "runs pat 1024 s t" using t(2) by (simp add: outputs_def)
  have bb: "boot_block t = boot_block s" using run by (simp add: runs_def)
  have "length ps < 129" using st(2) by (auto simp: argument_is_def)
  then have "apart pat (Suc (length ps)) a n" using ap(1) by (simp add: apart_def)
  moreover have "literals_at P (memory t) grep_messages" using runs_literals [OF run lit] by simp
  moreover have "memory t (data + 1024) = memory s (data + 1024)"
  proof -
    obtain j where j: "data = a + of_nat j" "j + 1024 < n" using ap(2) by (auto simp: grep_frame_def)
    then have at: "data + 1024 = a + of_nat (j + 1024)" by (simp add: add.assoc)
    have "in_window (a + of_nat (j + 1024))" using ap(2) j(2) unfolding grep_frame_def user_range_def by blast
    moreover have "\<not> unat (a + of_nat (j + 1024) - pat) < 1024"
    proof
      assume i: "unat (a + of_nat (j + 1024) - pat) < 1024"
      have "pat + of_nat (unat (a + of_nat (j + 1024) - pat)) = a + of_nat (j + 1024)" by simp
      then show False using ap(1) i j(2) unfolding apart_def by blast
    qed
    ultimately show ?thesis using run unfolding at runs_def by blast
  qed
  ultimately show ?thesis using t bb runs_image [OF run s(4)] by (intro exI [of _ t]) simp
qed

lemma grep_found:
  fixes s :: "'a tty_scheme"
  assumes st: "started s" "argument_is ps s" "hd ps < 0x80" and u: "user_range pat 1024"
    and ap: "apart pat 1024 a n" "grep_frame a n buf data" and far: "memory s (data + 1024) \<noteq> 0x0A"
    and lit: "literals_at P (memory s) grep_messages" "literals_apart P grep_messages pat 1024" "literals_apart P grep_messages a n"
    and i: "lookup (memory s) (boot_block s) (bytes ''.'') = Some i"
    and d: "d_type (dentry_at (memory s) (entry_addr (boot_block s) (of_nat i))) = 1" "searchable (memory s) (boot_block s)"
  defines "full \<equiv> directory_full (memory s) (boot_block s)"
  shows "\<exists>t. grep_main P buf pat data s = Some (if full then 3 else 0, t) \<and>
    text_of t = fold spec_putc (directory_matches ps (memory s) (boot_block s) 0 @ (if full then bytes entry_error else [])) (text_of s)"
proof -
  obtain t where t: "ece391_getargs P pat 1024 s = Some (0, t)" "outputs pat 1024 [] s t" "in_program (memory t) pat ps"
    "apart pat (Suc (length ps)) a n" "fd_array t = std_fds" "literals_at P (memory t) grep_messages"
    "memory t (data + 1024) = memory s (data + 1024)" "boot_block t = boot_block s"
    "same_image (boot_block s) (memory s) (memory t)" "image_apart (memory t) (boot_block s)"
    using grep_start [OF st(1,2) u ap lit(1,2)] by blast
  have img: "image_apart (memory s) (boot_block s)" using st(1) by (simp add: started_def)
  note same = directory_same [OF t(9) img d(2)] listing_same(2) [OF t(9)]
  have ok: "program_ok t" "cursor_ok t" using outputs_ok [OF t(2)] by simp_all
  have dot: "''.'' \<in> grep_messages" by (simp add: grep_messages_def grep_literals_def)
  have lk: "lookup (memory t) (boot_block t) (bytes ''.'') = Some i" using same_image_lookup [OF t(9)] i t(8) by simp
  have ty: "d_type (dentry_at (memory t) (entry_addr (boot_block t) (of_nat i))) = 1"
    using same_image_entry(2) [OF t(9) lookup_name(1) [OF i]] d(1) t(8) by simp
  obtain v where v: "ece391_open P (prog_lit P ''.'') t = Some (2, v)" "outputs a n [] t v" "memory v = memory t"
    "boot_block v = boot_block t" "flags (fd_array v ! 2) \<noteq> 0" "fops (fd_array v ! 2) = Some Dir_fops"
    "file_position (fd_array v ! 2) = 0" "\<forall>k. 3 \<le> k \<and> k < 8 \<longrightarrow> fd_array v ! k = empty_fd"
    using open_directory [OF ok t(5,6) dot lk ty] by blast
  have "fd_array v ! 3 = empty_fd" using v(8) by simp
  then have dv: "dir_at 0 v" using v(5-7) by (simp add: dir_at_def) (simp add: empty_fd_def)
  have ps: "ps \<noteq> []" using st(2) by (simp add: argument_is_def)
  have "literals_at P (memory v) (insert entry_error grep_literals)" "literals_apart P (insert entry_error grep_literals) a n"
    using t(6) lit(3) by (simp_all add: v(3) grep_messages_def literals_at_def literals_apart_def)
  then have rv: "search_ready P a n buf data pat ps v"
    using outputs_ok [OF v(2)] t(3,4,10) same(1) ap(2) ps st(3) by (simp add: search_ready_def v(3,4) t(8))
  have fv: "memory v (data + 1024) \<noteq> 0x0A" using far by (simp add: v(3) t(7))
  have "full = directory_full (memory v) (boot_block v)" using same(3) by (simp add: full_def v(3,4) t(8))
  then obtain w where w: "grep_files P 2 buf pat data v = Some (if full then 3 else 0, w)"
    "outputs a n (directory_matches ps (memory v) (boot_block v) 0 @ (if full then bytes entry_error else [])) v w"
    using grep_files_shows [OF rv dv fv] by auto
  have "grep_main P buf pat data s = Some (if full then 3 else 0, w)" using t(1) v(1) w(1) by (simp add: grep_main_def)
  moreover have "text_of t = text_of s" "text_of v = text_of t" using t(2) v(2) by (simp_all add: outputs_def)
  ultimately show ?thesis
    using w(2) same(2) [of ps 0] by (simp add: outputs_def v(3,4) t(8))
qed


subsection \<open>A concrete directory\<close>

text \<open>What an image says of its entries and of its only file is in its first two blocks.\<close>

lemma same_head:
  assumes h: "\<And>k. k < 0x2000 \<Longrightarrow> m' (bb + of_nat k) = m (bb + of_nat k)"
  shows "boot_inodes m' bb = boot_inodes m bb" "boot_data_blocks m' bb = boot_data_blocks m bb"
    "file_size m' bb 0 = file_size m bb 0"
    "i < 1023 \<Longrightarrow> inode_block m' (inode_addr bb 0) (of_nat i) = inode_block m (inode_addr bb 0) (of_nat i)"
proof -
  have rd: "rd32 m' (bb + of_nat k) = rd32 m (bb + of_nat k)" if "k + 3 < 0x2000" for k
    using h [of k] h [of "k + 1"] h [of "k + 2"] h [of "k + 3"] that by (simp add: rd32_def ac_simps)
  show "boot_inodes m' bb = boot_inodes m bb" "boot_data_blocks m' bb = boot_data_blocks m bb"
    using rd [of 4] rd [of 8] by (simp_all add: boot_inodes_def boot_data_blocks_def)
  show "file_size m' bb 0 = file_size m bb 0"
    using rd [of 4096] by (simp add: file_size_def inode_length_def inode_addr_def)
  show "inode_block m' (inode_addr bb 0) (of_nat i) = inode_block m (inode_addr bb 0) (of_nat i)" if "i < 1023"
    using rd [of "4100 + 4 * i"] that by (simp add: inode_block_def inode_addr_def ac_simps)
qed

text \<open>The machine of the other programs with a newline at the end of its file.\<close>

definition text_started :: "u8 list \<Rightarrow> string list \<Rightarrow> tty" where
  "text_started xs X = (sample_started xs X [])\<lparr>memory := (sample_memory X)(0x102004 := 0x0A)\<rparr>"

lemma text_memory_head:
  "k < 0x2000 \<Longrightarrow> ((sample_memory X)(0x102004 := 0x0A)) (0x100000 + of_nat k) = sample_memory X (0x100000 + of_nat k)"
proof -
  assume "k < 0x2000"
  then have "unat (0x100000 + of_nat k :: u32) = 0x100000 + k"
    by (simp add: unat_word_ariths unat_of_nat take_bit_nat_eq_self)
  then show ?thesis using \<open>k < 0x2000\<close> by (auto simp: word_unat_eq_iff)
qed

lemma text_memory_image:
  assumes "plain_text X"
  defines "m \<equiv> (sample_memory X)(0x102004 := 0x0A)"
  shows "image_apart m 0x100000" "lookup m 0x100000 xs = lookup sample_disk 0x100000 xs"
    "i < 63 \<Longrightarrow> dentry_at m (entry_addr 0x100000 (of_nat i)) = dentry_at sample_disk (entry_addr 0x100000 (of_nat i))"
    "i < 63 \<Longrightarrow> entry_name m 0x100000 i = entry_name sample_disk 0x100000 i"
    "boot_inodes m 0x100000 = 1" "file_bytes m 0x100000 0 = [0x7F, 0x45, 0x4C, 0x46, 0x0A]"
proof -
  note head = text_memory_head [of _ X, folded m_def]
  note same = sample_same_image [OF assms(1)] and im = sample_image [OF assms(1)]
  have io: "image_ok sample_disk 0x100000" using sample_disk_ok by (simp add: image_apart_def)
  have i0: "(0 :: u32) < boot_inodes sample_disk 0x100000" by (simp add: sample_disk_simps)
  note ent = same_entries [of m "0x100000" "sample_memory X", OF head]
  show e: "dentry_at m (entry_addr 0x100000 (of_nat i)) = dentry_at sample_disk (entry_addr 0x100000 (of_nat i))" if "i < 63" for i
    using ent(2) im(3) that by simp
  show n: "entry_name m 0x100000 i = entry_name sample_disk 0x100000 i" if "i < 63" for i using ent(3) im(4) that by simp
  show "lookup m 0x100000 xs = lookup sample_disk 0x100000 xs"
    unfolding lookup_def using n by (intro find_cong refl) simp
  note hd' = same_head [of m "0x100000" "sample_memory X", OF head]
  have b: "boot_inodes m 0x100000 = 1" "boot_data_blocks m 0x100000 = 1" "file_size m 0x100000 0 = 5"
    using hd'(1-3) same_image_boot(1,2) [OF same] same_image_inode(1) [OF same i0] by (simp_all add: sample_disk_simps)
  show "boot_inodes m 0x100000 = 1" by (rule b)
  have blk: "inode_block m (inode_addr 0x100000 0) (of_nat i) = 0" if "i < 1023" for i
    using hd'(4) [OF _ that] same_image_inode(2) [OF same i0 that] sample_disk_block [OF that] by simp
  have sz: "image_size m 0x100000 = 12288" "in_image m 0x100000 = in_image sample_disk 0x100000"
    by (simp_all add: image_size_def b in_image_def fun_eq_iff sample_disk_simps)
  have "inode < 1 \<Longrightarrow> inode = 0" for inode :: u32 by (simp add: word_less_nat_alt unat_eq_0)
  then show "image_apart m 0x100000"
    using sample_disk_ok by (auto simp: image_apart_def image_ok_def b blk sz e sample_types)
  have "file_byte m 0x100000 0 k = (if k = 4 then 0x0A else sample_disk (0x102000 + of_nat k))" if "k < 5" for k
  proof -
    have "k = 0 \<or> k = 1 \<or> k = 2 \<or> k = 3 \<or> k = 4" using that by arith
    have "file_byte m 0x100000 0 k = m (0x102000 + of_nat k)"
      using blk [of 0] that by (simp add: file_byte_def block_addr_def b)
    moreover have "sample_memory X (0x102000 + of_nat k) = sample_disk (0x102000 + of_nat k)"
      using same_image_at [OF same, of "0x2000 + k"] that by (simp add: sample_disk_simps)
    moreover have "0x102000 + of_nat k = (0x102004 :: u32) \<longleftrightarrow> k = 4"
      using \<open>k = 0 \<or> k = 1 \<or> k = 2 \<or> k = 3 \<or> k = 4\<close> by (elim disjE) simp_all
    ultimately show ?thesis by (simp add: m_def)
  qed
  then show "file_bytes m 0x100000 0 = [0x7F, 0x45, 0x4C, 0x46, 0x0A]"
    by (simp add: file_bytes_def b(3) upt_rec sample_disk_def shell_image_def elf_image_def demo_image_def)
qed

lemma text_started_ok:
  assumes "plain_text X" "xs \<noteq> []" "0 \<notin> set xs" "length xs < 129"
  shows "started (text_started xs X)" "argument_is xs (text_started xs X)"
proof -
  let ?s = "sample_started xs X []" and ?t = "text_started xs X"
  note ok = sample_started_ok [OF assms(1), of "[]" xs]
  have s: "started ?s" "argument_is xs ?s" using ok(1,3) assms(2-4) by simp_all
  have "fd_array ?t = fd_array ?s" "pcb_of (tasks_running ?t) ?t = pcb_of (tasks_running ?s) ?s"
    by (simp_all add: text_started_def fd_array_def pcb_of_def)
  moreover have "terminals_ok ?t = terminals_ok ?s"
    by (rule terminals_ok_same) (simp_all add: text_started_def)
  moreover have "memory ?t = (sample_memory X)(0x102004 := 0x0A)" "boot_block ?t = 0x100000" "int_flag ?t = int_flag ?s"
    "tasks_running ?t = tasks_running ?s" "cursor_ok ?t = cursor_ok ?s"
    by (simp_all add: text_started_def cursor_ok_def)
  ultimately show "started ?t" "argument_is xs ?t"
    using s text_memory_image(1) [OF assms(1)] std_fds_ok by (simp_all add: started_def program_ok_def argument_is_def)
qed

lemma text_directory:
  assumes "plain_text X"
  defines "m \<equiv> (sample_memory X)(0x102004 := 0x0A)"
  shows "searchable m 0x100000" "\<not> directory_full m 0x100000"
    "directory_matches [0x4C, 0x46] m 0x100000 0 = shell_name @ [0x3A, 0x7F, 0x45, 0x4C, 0x46, 0x0A]"
proof -
  note im = text_memory_image [OF assms(1), folded m_def]
  have e: "entry_name m 0x100000 i = (if i = 0 then shell_name else if i = 1 then [0x2E] else [])" if "i < 63" for i
    using im(4) [OF that] sample_entry_name [OF that] by simp
  have d: "d_type (dentry_at m (entry_addr 0x100000 0)) = 2" "d_inode (dentry_at m (entry_addr 0x100000 0)) = 0"
    using im(3) [of 0] sample_types [of 0]
    by (simp_all add: entry_addr_def dentry_at_def rd32_def sample_disk_def shell_image_def elf_image_def demo_image_def)
  have lk: "lookup m 0x100000 shell_name = Some 0" using im(2) sample_lookup by simp
  have f: "found_dentry m 0x100000 shell_name = Some (dentry_at m (entry_addr 0x100000 0))" by (simp add: found_dentry_def lk)
  have b: "map (file_byte m 0x100000 0) [0..<file_size m 0x100000 0] = [0x7F, 0x45, 0x4C, 0x46, 0x0A]"
    using im(6) by (simp only: file_bytes_def)
  have "length (map (file_byte m 0x100000 0) [0..<file_size m 0x100000 0]) = 5" unfolding b by simp
  then have "file_size m 0x100000 0 = 5" by simp
  then have "text_file m 0x100000 0"
    unfolding text_file_def b by (simp add: im(5) short_lines_def)
  then have "searchable_entry m 0x100000 shell_name" by (simp add: searchable_entry_def f d)
  moreover have "searchable_entry m 0x100000 [0x2E]" by (simp add: searchable_entry_def)
  ultimately show "searchable m 0x100000" by (auto simp: searchable_def e named_def)
  show "\<not> directory_full m 0x100000" using e [of 2] by (auto simp: directory_full_def named_def intro!: exI [of _ 2])
  have "sublist [0x4C, 0x46] [0x7F, 0x45, 0x4C, 0x46 :: u8]"
    unfolding sublist_def by (intro exI [of _ "[0x7F, 0x45]"] exI [of _ "[]"]) simp
  then have "grep_text shell_name [0x4C, 0x46] ([0x7F, 0x45, 0x4C, 0x46] @ 0x0A # []) = shell_name @ [0x3A, 0x7F, 0x45, 0x4C, 0x46, 0x0A]"
    by (subst grep_text_simps(2)) (simp_all add: matching_line_def grep_text_Nil)
  moreover have "hd shell_name \<noteq> 0x2E" by (simp add: shell_name_def)
  ultimately have "entry_matches [0x4C, 0x46] m 0x100000 shell_name = shell_name @ [0x3A, 0x7F, 0x45, 0x4C, 0x46, 0x0A]"
    using im(6) by (simp add: entry_matches_def f d)
  moreover have "entry_matches [0x4C, 0x46] m 0x100000 [0x2E] = []" by (simp add: entry_matches_def)
  ultimately show "directory_matches [0x4C, 0x46] m 0x100000 0 = shell_name @ [0x3A, 0x7F, 0x45, 0x4C, 0x46, 0x0A]"
    by (simp add: directory_step named_def e shell_name_def)
qed

definition grep_texts :: "string list" where
  "grep_texts = ['':'', line '''', ''.'', line ''directory open failed'', line ''directory entry read failed'']"


end
