(* ===== verification/Dialogue.thy ===== *)
theory Dialogue
  imports Programs
begin

section \<open>hello, counter and the shell\<close>

text \<open>
  The programs that ask for a line: each prompts, reads the line the user has completed, cuts
  it off in its array and acts on it. The steps are shared; what differs is what is shown then.
\<close>

definition hello_literals :: "string set" where
  "hello_literals = {''Hi, what'' @ CHR 0x27 # ''s your name? '', ''Hello, ''}"

definition counter_literals :: "string set" where
  "counter_literals = {line ''Enter the Test Number: (0): 100, (1): 10000, (2): 100000'', line ''Wrong Choice!'', line ''''}"

definition shell_literals :: "string set" where
  "shell_literals = {line ''Starting 391 Shell'', ''391OS> '', ''exit'', line ''no such command'',
     line ''program terminated by exception'', line ''program terminated abnormally''}"

text \<open>A program with an array of 1024 bytes and its literals, at a point where it can print.\<close>

definition at_work :: "'a program \<Rightarrow> string set \<Rightarrow> addr \<Rightarrow> 'a tty_scheme \<Rightarrow> bool" where
  "at_work P X buf s \<longleftrightarrow> program_ok s \<and> cursor_ok s \<and> user_range buf 1024 \<and>
     literals_at P (memory s) X \<and> literals_apart P X buf 1024"

lemma at_work_outputs: "at_work P X buf s \<Longrightarrow> outputs buf 1024 xs s t \<Longrightarrow> at_work P X buf t"
  using runs_literals [of buf 1024 s t P X] outputs_ok [of buf 1024 xs s t] by (simp add: at_work_def outputs_def)

lemma at_work_says:
  assumes "at_work P X buf s" "x \<in> X"
  shows "\<exists>t. says P x s = Some t \<and> outputs buf 1024 (bytes x) s t \<and> at_work P X buf t \<and> (\<forall>l. line_waits l t = line_waits l s)"
proof -
  have s: "program_ok s" "cursor_ok s" "literals_at P (memory s) X" using assms(1) by (simp_all add: at_work_def)
  let ?t = "fold putc (bytes x) s"
  have "says P x s = Some ?t" by (rule says_prints [OF s(1,3) assms(2)])
  moreover have o: "outputs buf 1024 (bytes x) s ?t" by (rule outputs_print [OF s(1,2)])
  ultimately show ?thesis using at_work_outputs [OF assms(1) o] line_waits_print by blast
qed

text \<open>Cutting the array off behind its first \<open>k\<close> bytes.\<close>

lemma cut_line:
  fixes s :: "'a tty_scheme"
  assumes w: "at_work P X buf s" and l: "load (memory s) buf (length l) = l" "0 \<notin> set l" "length l < 1024" and k: "k \<le> length l"
  defines "t \<equiv> s\<lparr>memory := (memory s)(buf + of_nat k := 0)\<rparr>"
  shows "outputs buf 1024 [] s t" "at_work P X buf t" "in_program (memory t) buf (take k l)"
proof -
  have s: "program_ok s" "cursor_ok s" "user_range buf 1024" using w by (simp_all add: at_work_def)
  show o: "outputs buf 1024 [] s t" unfolding t_def using k l(3) by (intro outputs_store s) simp_all
  show "at_work P X buf t" by (rule at_work_outputs [OF w o])
  have "load (memory s) buf k = take k l" using load_take [OF k, of "memory s" buf] l(1) by simp
  moreover have "length (take k l) = k" "0 \<notin> set (take k l)" using k l(2) by (auto dest: in_set_takeD)
  ultimately show "in_program (memory t) buf (take k l)"
    using store_end [of "memory s" buf 0 "take k l" 1024] l(3) k s(3) by (simp add: t_def)
qed

lemma line_waits_nonzero: "line_waits l s \<Longrightarrow> 0 \<notin> set l"
  by (auto simp: line_waits_def dest: set_takeWhileD)

text \<open>Prompting and reading.\<close>

lemma ask:
  fixes s :: "'a tty_scheme"
  assumes w: "at_work P X buf s" and x: "x \<in> X" and l: "line_waits l s"
  shows "\<exists>t u. says P x s = Some t \<and> ece391_read P 0 buf 1023 t = Some (int (length l), u) \<and>
    outputs buf 1024 (bytes x) s u \<and> at_work P X buf u \<and> load (memory u) buf (length l) = l"
proof -
  obtain t where t: "says P x s = Some t" "outputs buf 1024 (bytes x) s t" "at_work P X buf t" "line_waits l t"
    using at_work_says [OF w x] l by blast
  have ok: "program_ok t" "cursor_ok t" "user_range buf 1023" using t(3) by (simp_all add: at_work_def user_range_def)
  obtain u where u: "ece391_read P 0 buf (int 1023) t = Some (int (length l), u)" "outputs buf 1023 [] t u"
    "load (memory u) buf (length l) = l"
    using read_line [OF ok(1,2) t(4) ok(3), of P] line_waits_length [OF l] by auto
  have "outputs buf 1024 [] t u" using u(2) by (auto simp: outputs_def runs_def)
  then have "outputs buf 1024 (bytes x) s u" using outputs_trans [OF t(2)] by fastforce
  then show ?thesis using t(1) u(1,3) at_work_outputs [OF w] by auto
qed

subsection \<open>hello\<close>

text \<open>\<open>hello\<close> greets. It asks for a name, and to a line the user completes it returns 0 with
  the screen showing its question, the greeting and the line, unchanged and whole.\<close>
theorem hello_greets:
  fixes s :: "'a tty_scheme"
  assumes "at_work P hello_literals buf s" "line_waits l s"
  shows "\<exists>t. hello_main P buf s = Some (0, t) \<and> runs buf 1024 s t \<and>
    text_of t = fold spec_putc (bytes (''Hi, what'' @ CHR 0x27 # ''s your name? '') @ bytes ''Hello, '' @ l) (text_of s)"
proof -
  let ?q = "''Hi, what'' @ CHR 0x27 # ''s your name? ''"
  have X: "?q \<in> hello_literals" "''Hello, '' \<in> hello_literals" by (simp_all add: hello_literals_def)
  obtain t u where u: "says P ?q s = Some t" "ece391_read P 0 buf 1023 t = Some (int (length l), u)"
    "outputs buf 1024 (bytes ?q) s u" "at_work P hello_literals buf u" "load (memory u) buf (length l) = l"
    using ask [OF assms(1) X(1) assms(2)] by blast
  define v where "v = u\<lparr>memory := (memory u)(buf + of_nat (length l) := 0)\<rparr>"
  have len: "length l < 1024" using line_waits_length [OF assms(2)] by simp
  have v: "outputs buf 1024 [] u v" "at_work P hello_literals buf v" "in_program (memory v) buf l"
    using cut_line [OF u(4,5) line_waits_nonzero [OF assms(2)] len, of "length l"] by (simp_all add: v_def)
  let ?w = "fold putc (bytes ''Hello, '') v"
  have ok: "program_ok v" "cursor_ok v" "literals_at P (memory v) hello_literals" using v(2) by (simp_all add: at_work_def)
  have w: "says P ''Hello, '' v = Some ?w" by (rule says_prints [OF ok(1,3) X(2)])
  have ow: "outputs buf 1024 (bytes ''Hello, '') v ?w" by (rule outputs_print [OF ok(1,2)])
  then have okw: "program_ok ?w" "cursor_ok ?w" using outputs_ok by blast+
  have "in_program (memory ?w) buf l" using in_program_same [OF program_ok_print(2) [OF ok(1)]] v(3) by blast
  then have z: "ece391_fdputs P 1 buf ?w = Some (fold putc l ?w)" by (rule fdputs_prints [OF okw(1)])
  have "outputs buf 1024 (bytes ?q @ bytes ''Hello, '' @ l) s (fold putc l ?w)"
    using outputs_trans [OF outputs_trans [OF u(3) v(1)] outputs_trans [OF ow outputs_print [OF okw]]] by simp
  moreover have "hello_main P buf s = Some (0, fold putc l ?w)"
    using u(1,2) w z by (simp add: hello_main_def v_def [symmetric])
  ultimately show ?thesis by (auto simp: outputs_def)
qed

text \<open>The sample machine can run any of them.\<close>

lemma sample_at_work:
  assumes "plain_text X" "Y \<subseteq> set X" "length l \<le> 126" "0 \<notin> set l"
  shows "at_work (sample_program X) Y 0x8200000 (sample_state X l)" "line_waits l (sample_state X l)"
  using sample_ok [OF assms(3,4)] sample_literals [OF assms(1,2)] sample_buffer [of 1024]
  by (simp_all add: at_work_def sample_memory_def)

lemma hello_greets_witness:
  "\<exists>t. hello_main (sample_program [''Hi, what'' @ CHR 0x27 # ''s your name? '', ''Hello, '']) 0x8200000
     (sample_state [''Hi, what'' @ CHR 0x27 # ''s your name? '', ''Hello, ''] [0x42, 0x6F, 0x0A]) = Some (0, t)"
proof -
  let ?X = "[''Hi, what'' @ CHR 0x27 # ''s your name? '', ''Hello, '']"
  have "plain_text ?X" by (simp add: plain_text_def literal_image_def bytes_def)
  from sample_at_work [OF this, of hello_literals "[0x42, 0x6F, 0x0A]"]
  show ?thesis using hello_greets [of "sample_program ?X" "0x8200000" "sample_state ?X [0x42, 0x6F, 0x0A]"]
    by (auto simp: hello_literals_def)
qed

subsection \<open>counter\<close>

text \<open>The lines \<open>i + 1\<close> to \<open>i + n\<close> in decimal.\<close>

definition count_text :: "nat \<Rightarrow> nat \<Rightarrow> u8 list" where
  "count_text i n = concat (map (\<lambda>j. number_text 10 j @ [0x0A]) [Suc i..<Suc (i + n)])"

lemma count_text_Suc: "count_text i (Suc n) = number_text 10 (Suc i) @ 0x0A # count_text (Suc i) n"
proof -
  have "[Suc i..<Suc (i + Suc n)] = Suc i # [Suc (Suc i)..<Suc (Suc i + n)]" by (simp add: upt_conv_Cons)
  then show ?thesis by (simp only: count_text_def) simp
qed

lemma number_text_length: "n < 2 ^ 32 \<Longrightarrow> length (number_text 10 n) \<le> 32"
  using length_digit_bytes [of 10 "of_nat n"] by (simp add: number_text_def unat_of_nat take_bit_nat_eq_self)

lemma count_step:
  fixes s :: "'a tty_scheme"
  assumes w: "at_work P counter_literals buf s" and i: "Suc i < 2 ^ 32"
  shows "\<exists>m t u. ece391_itoa (memory s) (of_nat i + 1) buf 10 = Some m \<and> ece391_fdputs P 1 buf (s\<lparr>memory := m\<rparr>) = Some t \<and>
    says P (line '''') t = Some u \<and> outputs buf 1024 (number_text 10 (Suc i) @ [0x0A]) s u \<and> at_work P counter_literals buf u"
proof -
  let ?xs = "number_text 10 (Suc i)"
  have s: "program_ok s" "cursor_ok s" "user_range buf 1024" using w by (simp_all add: at_work_def)
  have "unat (of_nat (Suc i) :: u32) = Suc i" using i by (simp only: unat_of_nat) (simp add: take_bit_nat_eq_self)
  then have v: "unat (of_nat i + 1 :: u32) = Suc i" by (simp add: add.commute)
  obtain m where m: "ece391_itoa (memory s) (of_nat i + 1) buf 10 = Some m" "string_at m buf ?xs"
    "\<forall>a. 33 \<le> unat (a - buf) \<longrightarrow> m a = memory s a"
    using itoa_number_text [of 10 "memory s" "of_nat i + 1" buf] unfolding v ece391_itoa_eq by auto
  define s1 where "s1 = s\<lparr>memory := m\<rparr>"
  have o1: "outputs buf 1024 [] s s1" unfolding s1_def using m(3) by (intro runs_memory(2) s) simp
  have ok1: "program_ok s1" "cursor_ok s1" using outputs_ok [OF o1] by simp_all
  have "in_program (memory s1) buf ?xs"
    using m(2) s(3) number_text_length [OF i] by (simp add: in_program_def user_range_def s1_def)
  then have t: "ece391_fdputs P 1 buf s1 = Some (fold putc ?xs s1)" by (rule fdputs_prints [OF ok1(1)])
  have ot: "outputs buf 1024 ?xs s (fold putc ?xs s1)" using outputs_trans [OF o1 outputs_print [OF ok1]] by simp
  have "line '''' \<in> counter_literals" by (simp add: counter_literals_def)
  then obtain u where u: "says P (line '''') (fold putc ?xs s1) = Some u" "outputs buf 1024 (bytes (line '''')) (fold putc ?xs s1) u"
    using at_work_says [OF at_work_outputs [OF w ot]] by blast
  have "bytes (line '''') = [0x0A]" by (simp add: bytes_def line_def)
  then have "outputs buf 1024 (?xs @ [0x0A]) s u" using outputs_trans [OF ot u(2)] by simp
  then show ?thesis using m(1) t u(1) at_work_outputs [OF w] unfolding s1_def by blast
qed

lemma counter_loop_counts:
  fixes s :: "'a tty_scheme"
  assumes "at_work P counter_literals buf s" "i + n < 2 ^ 32"
  shows "\<exists>t. counter_loop n P buf (of_nat i) s = Some t \<and> outputs buf 1024 (count_text i n) s t"
  using assms
proof (induction n arbitrary: i s)
  case 0
  then show ?case by (simp add: count_text_def outputs_refl at_work_def)
next
  case (Suc n)
  obtain m t u where u: "ece391_itoa (memory s) (of_nat i + 1) buf 10 = Some m" "ece391_fdputs P 1 buf (s\<lparr>memory := m\<rparr>) = Some t"
    "says P (line '''') t = Some u" "outputs buf 1024 (number_text 10 (Suc i) @ [0x0A]) s u" "at_work P counter_literals buf u"
    using count_step [OF Suc.prems(1), of i] Suc.prems(2) by auto
  have "of_nat (Suc i) = (of_nat i + 1 :: u32)" by simp
  moreover obtain v where v: "counter_loop n P buf (of_nat (Suc i)) u = Some v" "outputs buf 1024 (count_text (Suc i) n) u v"
    using Suc.IH [OF u(5), of "Suc i"] Suc.prems(2) by auto
  ultimately have "counter_loop (Suc n) P buf (of_nat i) s = Some v" using u(1-3) by (simp add: add.commute)
  then show ?case using outputs_trans [OF u(4) v(2)] by (auto simp: count_text_Suc)
qed

text \<open>What a line selects: \<open>None\<close> is a wrong choice.\<close>

definition counter_choice :: "u8 list \<Rightarrow> nat option" where
  "counter_choice l = (if length l > 2 \<or> length l = 2 \<and> (l ! 0 < 0x30 \<or> l ! 0 > 0x32) then None
     else Some (if l = [] then 0 else counter_max (l ! 0)))"

lemma counter_max_0: "counter_max 0 = 0"
  by (simp add: counter_max_def)

lemma counter_max_bound: "counter_max c \<le> 100000"
  by (simp add: counter_max_def)

text \<open>\<open>counter\<close> counts. To a line of a digit 0, 1 or 2 it prints the numbers from 1 to 100,
  10000 or 100000 in decimal, in order and one to a line, and returns 0; a longer line or one
  with another character in front of the newline is refused as a wrong choice, and an empty
  line counts nothing.\<close>
theorem counter_counts:
  fixes s :: "'a tty_scheme"
  assumes "at_work P counter_literals buf s" "line_waits l s"
  shows "\<exists>t. counter_main P buf s = Some (0, t) \<and> runs buf 1024 s t \<and>
    text_of t = fold spec_putc (bytes (line ''Enter the Test Number: (0): 100, (1): 10000, (2): 100000'') @
      (case counter_choice l of None \<Rightarrow> bytes (line ''Wrong Choice!'') | Some n \<Rightarrow> count_text 0 n)) (text_of s)"
proof -
  let ?q = "line ''Enter the Test Number: (0): 100, (1): 10000, (2): 100000''"
  have X: "?q \<in> counter_literals" "line ''Wrong Choice!'' \<in> counter_literals" by (simp_all add: counter_literals_def)
  obtain t u where u: "says P ?q s = Some t" "ece391_read P 0 buf 1023 t = Some (int (length l), u)"
    "outputs buf 1024 (bytes ?q) s u" "at_work P counter_literals buf u" "load (memory u) buf (length l) = l"
    using ask [OF assms(1) X(1) assms(2)] by blast
  define v where "v = u\<lparr>memory := (memory u)(buf + of_nat (length l) := 0)\<rparr>"
  have len: "length l < 1024" using line_waits_length [OF assms(2)] by simp
  have v: "outputs buf 1024 [] u v" "at_work P counter_literals buf v" "in_program (memory v) buf l"
    using cut_line [OF u(4,5) line_waits_nonzero [OF assms(2)] len, of "length l"] by (simp_all add: v_def)
  have str: "string_at (memory v) buf l" using v(3) by (simp add: in_program_def)
  have first: "memory v buf = (if l = [] then 0 else l ! 0)"
    using str string_at_nth [OF str, of 0] by (auto simp: string_at_Nil)
  have n: "(of_nat (length l) > (2 :: u32)) = (length l > 2)" "(of_nat (length l) = (2 :: u32)) = (length l = 2)"
    using len by (simp_all add: word_less_nat_alt word_unat_eq_iff unat_of_nat take_bit_nat_eq_self)
  have main: "counter_main P buf s = (case counter_choice l of None \<Rightarrow> do { s \<leftarrow> says P (line ''Wrong Choice!'') v; Some (0, s) }
      | Some k \<Rightarrow> do { s \<leftarrow> counter_loop k P buf 0 v; Some (0, s) })"
  proof -
    have "counter_main P buf s = counter_answer P buf v" using u(1,2) by (simp add: counter_main_def v_def)
    then show ?thesis
      using ece391_strlen_string [OF str]
      by (cases "l = []") (auto simp: counter_answer_def n first counter_choice_def counter_max_0)
  qed
  have ov: "outputs buf 1024 (bytes ?q) s v" using outputs_trans [OF u(3) v(1)] by simp
  show ?thesis
  proof (cases "counter_choice l")
    case None
    obtain w where "says P (line ''Wrong Choice!'') v = Some w" "outputs buf 1024 (bytes (line ''Wrong Choice!'')) v w"
      using at_work_says [OF v(2) X(2)] by blast
    then show ?thesis using outputs_trans [OF ov] None by (auto simp: main outputs_def)
  next
    case (Some k)
    then have "k \<le> 100000" using counter_max_bound by (auto simp: counter_choice_def split: if_splits)
    then obtain w where "counter_loop k P buf (of_nat 0) v = Some w" "outputs buf 1024 (count_text 0 k) v w"
      using counter_loop_counts [OF v(2), of 0 k] by auto
    then show ?thesis using outputs_trans [OF ov] Some by (auto simp: main outputs_def)
  qed
qed

lemma counter_counts_witness:
  "\<exists>t. counter_main (sample_program [line ''Enter the Test Number: (0): 100, (1): 10000, (2): 100000'', line ''Wrong Choice!'', line ''''])
     0x8200000 (sample_state [line ''Enter the Test Number: (0): 100, (1): 10000, (2): 100000'', line ''Wrong Choice!'', line '''']
       [0x30, 0x0A]) = Some (0, t) \<and>
     (\<exists>pre. text_of t = fold spec_putc (pre @ count_text 0 100)
       (text_of (sample_state [line ''Enter the Test Number: (0): 100, (1): 10000, (2): 100000'', line ''Wrong Choice!'', line '''']
         [0x30, 0x0A])))"
proof -
  define X where "X = [line ''Enter the Test Number: (0): 100, (1): 10000, (2): 100000'', line ''Wrong Choice!'', line '''']"
  have "plain_text X" by (simp add: X_def plain_text_def literal_image_def bytes_def line_def)
  note w = sample_at_work [OF this, of counter_literals "[0x30, 0x0A]"]
  have "counter_literals \<subseteq> set X" by (simp add: X_def counter_literals_def)
  moreover have "counter_choice [0x30, 0x0A] = Some 100" by (simp add: counter_choice_def counter_max_def)
  ultimately show ?thesis unfolding X_def [symmetric]
    using counter_counts [of "sample_program X" "0x8200000" "sample_state X [0x30, 0x0A]"] w by force
qed

subsection \<open>The shell\<close>

text \<open>The command of a line: without the newline at its end.\<close>

definition command_of :: "u8 list \<Rightarrow> u8 list" where
  "command_of l = (if l \<noteq> [] \<and> last l = 0x0A then butlast l else l)"

definition shell_answer :: "u8 list \<Rightarrow> shell_turn" where
  "shell_answer c = (if c = bytes ''exit'' then Return 0 else if c = [] then Prompt_again else Run_command)"

definition shell_message :: "int \<Rightarrow> u8 list" where
  "shell_message r = (if r = -1 then bytes (line ''no such command'')
     else if r = 256 then bytes (line ''program terminated by exception'')
     else if r \<noteq> 0 then bytes (line ''program terminated abnormally'') else [])"

lemma command_of_take: "command_of l = take (if l \<noteq> [] \<and> last l = 0x0A then length l - 1 else length l) l"
  by (simp add: command_of_def butlast_conv_take)

lemma shell_read_line:
  fixes s :: "'a tty_scheme"
  assumes w: "at_work P shell_literals buf s" and l: "line_waits l s"
  shows "\<exists>t. shell_read P buf s = Some (shell_answer (command_of l), t) \<and> outputs buf 1024 (bytes ''391OS> '') s t \<and>
    in_program (memory t) buf (command_of l)"
proof -
  have X: "''391OS> '' \<in> shell_literals" "''exit'' \<in> shell_literals" by (simp_all add: shell_literals_def)
  obtain t u where u: "says P ''391OS> '' s = Some t" "ece391_read P 0 buf 1023 t = Some (int (length l), u)"
    "outputs buf 1024 (bytes ''391OS> '') s u" "at_work P shell_literals buf u" "load (memory u) buf (length l) = l"
    using ask [OF w X(1) l] by blast
  define k where "k = (if l \<noteq> [] \<and> last l = 0x0A then length l - 1 else length l)"
  define v where "v = u\<lparr>memory := (memory u)(buf + of_nat k := 0)\<rparr>"
  have nz: "0 \<notin> set l" "length l < 1024" using line_waits_nonzero [OF l] line_waits_length [OF l] by simp_all
  have "k \<le> length l" by (simp add: k_def)
  note cut = cut_line [OF u(4,5) nz this, folded v_def]
  have cmd: "take k l = command_of l" by (simp add: command_of_take k_def)
  have "memory u (buf + of_nat (length l - 1)) = last l" if "l \<noteq> []"
  proof -
    have "load (memory u) buf (length l) ! (length l - 1) = last l" using u(5) last_conv_nth [OF that] by simp
    then show ?thesis using that by simp
  qed
  then have cnt: "(if int (length l) > 0 \<and> memory u (buf + word_of_int (int (length l) - 1)) = 0x0A
      then int (length l) - 1 else int (length l)) = int k"
    by (cases l) (auto simp: k_def)
  have in_v: "in_program (memory v) buf (command_of l)" using cut(3) cmd by simp
  then have str: "string_at (memory v) buf (command_of l)" by (simp add: in_program_def)
  have ex: "string_at (memory v) (prog_lit P ''exit'') (bytes ''exit'')"
    using cut(2) X(2) by (simp add: at_work_def literals_at_def in_program_def)
  have cmp: "ece391_strcmp (memory v) buf (prog_lit P ''exit'') = Some (spec_strcmp (command_of l) (bytes ''exit''))"
    by (rule ece391_strcmp_string [OF str ex])
  have zero: "spec_strcmp (command_of l) (bytes ''exit'') = 0 \<longleftrightarrow> command_of l = bytes ''exit''"
    using str ex by (intro spec_strcmp_0) (simp_all add: string_at_def)
  have first: "memory v buf = 0 \<longleftrightarrow> command_of l = []"
    using str string_at_nonzero [OF str, of 0] by (auto simp: string_at_Nil)
  have "shell_read P buf s = shell_decide P buf v"
    by (simp only: shell_read_def u(1,2) Option.bind.bind_lunit prod.case Let_def cnt v_def of_int_of_nat_eq) simp
  also have "\<dots> = Some (shell_answer (command_of l), v)"
    using cmp by (simp add: shell_decide_def zero first shell_answer_def)
  finally have "shell_read P buf s = Some (shell_answer (command_of l), v)" .
  then show ?thesis using outputs_trans [OF u(3) cut(1)] in_v by auto
qed

lemma shell_report_message:
  fixes s :: "'a tty_scheme"
  assumes "at_work P shell_literals buf s"
  shows "\<exists>t. shell_report P r s = Some t \<and> outputs buf 1024 (shell_message r) s t \<and> at_work P shell_literals buf t"
proof -
  have X: "line ''no such command'' \<in> shell_literals" "line ''program terminated by exception'' \<in> shell_literals"
    "line ''program terminated abnormally'' \<in> shell_literals"
    by (simp_all add: shell_literals_def)
  have "outputs buf 1024 [] s s" using assms by (simp add: at_work_def outputs_refl)
  then show ?thesis
    using at_work_says [OF assms X(1)] at_work_says [OF assms X(2)] at_work_says [OF assms X(3)] assms
    by (auto simp: shell_report_def shell_message_def)
qed



subsection \<open>testprint, from its start code to its end\<close>

lemma halt_screen:
  fixes s :: "'a tty_scheme"
  assumes "screen_x t = screen_x s" "screen_y t = screen_y s" "memory t = window_of p s"
  shows "text_of t = text_of s"
proof -
  have "memory t a = memory s a" if "in_video a" for a
    using window_not_screen [of a] video_in_screen_area [OF that] by (auto simp: assms(3) window_of_def setup_memory)
  then have "text_of (s\<lparr>memory := memory t\<rparr>) = text_of s" by (rule text_of_memory)
  moreover have "grid t = grid (s\<lparr>memory := memory t\<rparr>)" by (rule grid_cong) simp
  ultimately show ?thesis using assms(1,2) by (simp add: text_of_def)
qed

text \<open>C18: A program runs from its first call to its end through every layer. \<open>testprint\<close>, started
  by \<open>execute\<close> under a shell, shows its line, and the value of its \<open>main\<close> reaches \<open>halt\<close> through
  the start code: the parent's \<open>execute\<close> returns 0 on the stack it was called from, the parent
  is the running task, the slot is free, and the line is still on the screen.\<close>
theorem testprint_runs:
  fixes s :: "'a tty_scheme"
  assumes "program_ok s" "cursor_ok s" "tasks_ok s" "current_ok s" "3 \<le> tasks_running s" "exception_death s = 0"
    and "literals_at P (memory s) {line ''Hello, if this ran, the program was correct. Yay!''}"
    and "p = pcb_of (tasks_running s) s"
  shows "\<exists>t. program_start P (testprint_main P) s = Some (Returns_from_execute 0 (old_esp p) (old_ebp p) t) \<and>
    text_of t = fold spec_putc (bytes (line ''Hello, if this ran, the program was correct. Yay!'')) (text_of s) \<and>
    tasks_running t = task_id_parent p \<and> current_ok t \<and> tasks_ok t \<and> \<not> running t (tasks_running s)"
proof -
  let ?x = "line ''Hello, if this ran, the program was correct. Yay!''"
  define u where "u = fold putc (bytes ?x) s"
  have say: "says P ?x s = Some u" unfolding u_def by (rule says_prints [OF assms(1,7)]) simp
  note so = screen_only_tty [OF screen_only_fold_putc [of s "bytes ?x"], folded u_def]
  have pok: "program_ok u" using program_ok_print(1) [OF assms(1)] by (simp add: u_def)
  have pcb: "pcb_of i u = pcb_of i s" for i by (simp add: pcb_of_def so)
  have tok: "tasks_ok u" "current_ok u"
    using assms(3,4) tasks_ok_pcbs [of u s] so by (simp_all add: current_ok_def running_def pcb)
  have c: "tasks_running u = tasks_running s" "3 \<le> tasks_running s" using so assms(5) by simp_all
  obtain t where t: "syscall_halt (prog_links P) (prog_frame P) 0 u = Some (Returns_from_execute
        (if exception_death u \<noteq> 0 then 256 else ucast (0 :: u8)) (old_esp p) (old_ebp p) t)"
    "tasks_running t = task_id_parent p" "tasks_ok t" "current_ok t" "task_slots t = (task_slots u)[unat (tasks_running s) := 0]"
    "memory t = window_of (task_id_parent p) u" "screen_x t = screen_x u" "screen_y t = screen_y u"
    using halt_correct [OF tok c program_okD(10) [OF pok] refl, of "prog_links P" "prog_frame P" 0]
    unfolding pcb assms(8) [symmetric] by auto
  have "program_start P (testprint_main P) s = Some (Returns_from_execute 0 (old_esp p) (old_ebp p) t)"
    using say t(1) so assms(6) by (simp add: program_start_def testprint_main_def ece391_halt_def do_call_simps [OF pok])
  moreover have "text_of t = fold spec_putc (bytes ?x) (text_of s)"
    using halt_screen [OF t(7,8,6)] text_of_fold_putc [OF assms(2)] by (simp add: u_def)
  moreover have "length (task_slots u) = 6" using tok(1) by (simp add: tasks_ok_def)
  then have "\<not> running t (tasks_running s)"
    using slot_update [OF _ _ t(5), of "tasks_running s"] tok(2) c(1) by (simp add: current_ok_def running_def [of u])
  ultimately show ?thesis using t(2-4) by blast
qed

text \<open>The sample child of the first shell, with the literals of its program loaded.\<close>

definition sample_child :: "string list \<Rightarrow> tty" where
  "sample_child X = demo_child\<lparr>memory := sample_memory X, int_flag := True\<rparr>"

lemma sample_child_ok:
  "program_ok (sample_child X)" "cursor_ok (sample_child X)" "tasks_ok (sample_child X)" "current_ok (sample_child X)"
  "tasks_running (sample_child X) = 3" "exception_death (sample_child X) = 0" "memory (sample_child X) = sample_memory X"
  "pcb_of 3 (sample_child X) = pcb_of 3 demo_child"
proof -
  let ?s = "sample_child X"
  obtain pc where pc: "demo_child = demo_shell\<lparr>tasks_running := 3, task_slots := [1, 1, 1, 1, 0, 0], pcbs := pc\<rparr>"
    unfolding demo_child_def using create_pcb_frame by (metis)
  show f: "tasks_running ?s = 3" "exception_death ?s = 0" "memory ?s = sample_memory X"
    "pcb_of 3 ?s = pcb_of 3 demo_child"
    by (simp_all add: sample_child_def demo_child_ok pcb_of_def)
  have p: "pcbs ?s = pcbs demo_child" "task_slots ?s = task_slots demo_child" by (simp_all add: sample_child_def)
  show t: "tasks_ok ?s" using tasks_ok_pcbs [OF p] demo_child_ok(1) by simp
  show "current_ok ?s" using demo_child_ok(2,3) f(1) p by (simp add: current_ok_def running_def pcb_of_def)
  have "terminals_ok ?s"
    by (simp add: sample_child_def pc demo_shell_def demo_tty_def terminals_ok_def tty_ok_def cursor_of_def cursor_at_def
        demo_terminal_def nth_append TERMINAL_SIZE_def)
  moreover have "fds_ok (fd_array ?s)" using demo_child_ok(3,4) f(1) p(1) by (simp add: fd_array_def pcb_of_def)
  ultimately show "program_ok ?s" using f(1) by (simp add: program_ok_def sample_child_def)
  show "cursor_ok ?s" by (simp add: sample_child_def pc demo_shell_def demo_tty_def cursor_ok_def screen_consts)
qed

lemma testprint_runs_witness:
  "\<exists>t. program_start (sample_program [line ''Hello, if this ran, the program was correct. Yay!''])
      (testprint_main (sample_program [line ''Hello, if this ran, the program was correct. Yay!'']))
      (sample_child [line ''Hello, if this ran, the program was correct. Yay!'']) =
    Some (Returns_from_execute 0 0x7FDF00 0x7FDF80 t) \<and> tasks_running t = 0"
proof -
  let ?x = "line ''Hello, if this ran, the program was correct. Yay!''"
  have "plain_text [?x]" by (simp add: plain_text_def literal_image_def bytes_def line_def)
  then have lit: "literals_at (sample_program [?x]) (memory (sample_child [?x])) {?x}"
    using sample_literals(1) [of "[?x]" "{?x}"] by (simp add: sample_child_ok sample_memory_def)
  have "pcb_of 3 (sample_child [?x]) = new_pcb demo_frame 3 0 0x8048000 elf_image (pcb_of 3 demo_shell)"
    by (simp add: sample_child_ok demo_child_pcb)
  then have "task_id_parent (pcb_of 3 (sample_child [?x])) = 0" "old_esp (pcb_of 3 (sample_child [?x])) = 0x7FDF00"
    "old_ebp (pcb_of 3 (sample_child [?x])) = 0x7FDF80"
    by (simp_all add: new_pcb_def demo_frame_def)
  then show ?thesis
    using testprint_runs [OF sample_child_ok(1-4) _ sample_child_ok(6) lit refl] by (auto simp: sample_child_ok)
qed

end
