(* ===== verification/Disk.thy ===== *)
theory Disk
  imports Programs
begin

section \<open>A disk with more files\<close>

text \<open>
  The sample disk with entries for further names behind its first two, for the instances about
  programs that open files by fixed names. All its files have inode 0.
\<close>

definition entry_bytes :: "u8 list \<times> u8 \<Rightarrow> u8 list" where
  "entry_bytes e = fst e @ replicate (32 - length (fst e)) 0 @ [snd e] @ replicate 31 0"

definition proper_entries :: "(u8 list \<times> u8) list \<Rightarrow> bool" where
  "proper_entries es \<longleftrightarrow> length es \<le> 61 \<and> distinct (map fst es) \<and>
     (\<forall>e \<in> set es. fst e \<noteq> [] \<and> fst e \<noteq> shell_name \<and> fst e \<noteq> [0x2E] \<and> length (fst e) \<le> 32 \<and> 0 \<notin> set (fst e) \<and> snd e \<le> 2)"

definition files_memory :: "(u8 list \<times> u8) list \<Rightarrow> string list \<Rightarrow> mem" where
  "files_memory es X = put (sample_memory X) 0x1000C0 (concat (map entry_bytes es))"

definition files_started :: "(u8 list \<times> u8) list \<Rightarrow> string list \<Rightarrow> tty" where
  "files_started es X = (sample_started [] X [])\<lparr>memory := files_memory es X\<rparr>"

lemma concat_nth_uniform:
  "\<forall>xs \<in> set xss. length xs = n \<Longrightarrow> i < length xss \<Longrightarrow> j < n \<Longrightarrow> concat xss ! (n * i + j) = xss ! i ! j"
proof (induction xss arbitrary: i)
  case (Cons xs xss)
  then show ?case by (cases i) (auto simp: nth_append)
qed simp

lemma length_entries: "proper_entries es \<Longrightarrow> length (concat (map entry_bytes es)) = 64 * length es"
proof -
  assume "proper_entries es"
  then have "\<forall>e \<in> set es. length (entry_bytes e) = 64" by (auto simp: proper_entries_def entry_bytes_def)
  then show ?thesis by (induction es) auto
qed

lemma files_memory_entry:
  assumes p: "proper_entries es" and i: "i < length es" and j: "j < 64"
  shows "files_memory es X (0x1000C0 + of_nat (64 * i + j)) = entry_bytes (es ! i) ! j"
proof -
  have len: "length es \<le> 61" "\<forall>xs \<in> set (map entry_bytes es). length xs = 64"
    using p by (auto simp: proper_entries_def entry_bytes_def)
  have "files_memory es X (0x1000C0 + of_nat (64 * i + j)) = concat (map entry_bytes es) ! (64 * i + j)"
    unfolding files_memory_def using length_entries [OF p] len(1) i j by (intro put_inside) simp_all
  then show ?thesis using concat_nth_uniform [OF len(2), of i j] i j by simp
qed

lemma files_memory_same:
  assumes "proper_entries es" "k < 0xC0 \<or> 0xC0 + 64 * length es \<le> k" "k < 2 ^ 31"
  shows "files_memory es X (0x100000 + of_nat k) = sample_memory X (0x100000 + of_nat k)"
proof -
  have "64 * length es \<le> unat (0x100000 + of_nat k - 0x1000C0 :: u32)"
  proof (cases "k < 0xC0")
    case True
    have "0x100000 + of_nat k - 0x1000C0 = (of_nat k - 0xC0 :: u32)" by simp
    moreover have "unat (of_nat k - 0xC0 :: u32) = 2 ^ 32 - 0xC0 + k"
      using True by (simp add: unat_sub_if_size unat_of_nat take_bit_nat_eq_self word_size)
    ultimately show ?thesis using assms(1) by (simp add: proper_entries_def)
  next
    case False
    then have e: "0x100000 + of_nat k - 0x1000C0 = (of_nat (k - 0xC0) :: u32)" by (simp add: of_nat_diff)
    have "unat (of_nat (k - 0xC0) :: u32) = k - 0xC0"
      using assms(3) by (simp only: unat_of_nat) (simp add: take_bit_nat_eq_self)
    then show ?thesis unfolding e using assms(2) False by simp
  qed
  then show ?thesis unfolding files_memory_def using length_entries [OF assms(1)] by (intro put_outside) simp
qed

text \<open>The entries.\<close>

lemma entry_name_of: "0 \<notin> set x \<Longrightarrow> length x \<le> 32 \<Longrightarrow> takeWhile (\<lambda>b. b \<noteq> 0) (take 32 (entry_bytes (x, t))) = (x :: u8 list)"
proof -
  assume x: "0 \<notin> set x" "length x \<le> 32"
  have "take 32 (entry_bytes (x, t)) = x @ replicate (32 - length x) 0" using x(2) by (simp add: entry_bytes_def)
  then show ?thesis using x(1) by (simp add: takeWhile_append takeWhile_replicate)
qed

lemma files_entry:
  fixes X :: "string list"
  assumes p: "proper_entries es" and i: "i < length es"
  defines "m \<equiv> files_memory es X" and "a \<equiv> entry_addr 0x100000 (of_nat (i + 2))"
  shows "entry_name m 0x100000 (i + 2) = fst (es ! i)" "d_type (dentry_at m a) = ucast (snd (es ! i))" "d_inode (dentry_at m a) = 0"
proof -
  have e: "length (fst (es ! i)) \<le> 32" "0 \<notin> set (fst (es ! i))" using p i nth_mem [of i es] by (auto simp: proper_entries_def)
  have addr: "a + of_nat j = 0x1000C0 + of_nat (64 * i + j)" for j by (simp add: a_def entry_addr_def)
  have at: "m (a + of_nat j) = entry_bytes (es ! i) ! j" if "j < 64" for j
    unfolding addr m_def by (rule files_memory_entry [OF p i that])
  have "load m a 32 = take 32 (entry_bytes (es ! i))"
  proof (rule nth_equalityI)
    show "length (load m a 32) = length (take 32 (entry_bytes (es ! i)))" using e(1) by (simp add: entry_bytes_def)
    fix j assume "j < length (load m a 32)"
    then show "load m a 32 ! j = take 32 (entry_bytes (es ! i)) ! j" using at [of j] by simp
  qed
  then show "entry_name m 0x100000 (i + 2) = fst (es ! i)"
    using entry_name_of [OF e(2,1), of "snd (es ! i)"] by (simp add: entry_name_def a_def)
  have zero: "entry_bytes (es ! i) ! j = 0" if "32 < j" "j < 64" for j
  proof -
    have k: "j = 33 + (j - 33)" "j - 33 < 31" using that by simp_all
    define A where "A = fst (es ! i) @ replicate (32 - length (fst (es ! i))) (0 :: u8)"
    have "length A = 32" "entry_bytes (es ! i) = A @ snd (es ! i) # replicate 31 0" using e(1) by (simp_all add: A_def entry_bytes_def)
    then have "entry_bytes (es ! i) ! (33 + (j - 33)) = 0" using k(2) by (simp only: nth_append) simp
    then show ?thesis using k(1) by simp
  qed
  have "entry_bytes (es ! i) ! 32 = snd (es ! i)" using e(1) by (simp add: entry_bytes_def nth_append)
  then show "d_type (dentry_at m a) = ucast (snd (es ! i))"
    using at [of 32] at [of 33] at [of 34] at [of 35] zero by (simp add: dentry_at_def rd32_def add.assoc)
  show "d_inode (dentry_at m a) = 0"
    using at [of 36] at [of 37] at [of 38] at [of 39] zero by (simp add: dentry_at_def rd32_def add.assoc)
qed

lemma files_other_entry:
  assumes p: "proper_entries es" and i: "i < 63" "i < 2 \<or> length es + 2 \<le> i"
  shows "dentry_at (files_memory es X) (entry_addr 0x100000 (of_nat i)) = dentry_at (sample_memory X) (entry_addr 0x100000 (of_nat i))"
    "entry_name (files_memory es X) 0x100000 i = entry_name (sample_memory X) 0x100000 i"
proof -
  have "files_memory es X (entry_addr 0x100000 (of_nat i) + of_nat j) = sample_memory X (entry_addr 0x100000 (of_nat i) + of_nat j)"
    if "j < 64" for j
  proof -
    have e: "entry_addr 0x100000 (of_nat i) + of_nat j = 0x100000 + of_nat (64 + 64 * i + j)" by (simp add: entry_addr_def)
    show ?thesis unfolding e by (rule files_memory_same [OF p]) (use i that in auto)
  qed
  note b = this
  show "dentry_at (files_memory es X) (entry_addr 0x100000 (of_nat i)) = dentry_at (sample_memory X) (entry_addr 0x100000 (of_nat i))"
    by (rule same_entry(2), rule b, assumption)
  show "entry_name (files_memory es X) 0x100000 i = entry_name (sample_memory X) 0x100000 i"
    by (rule same_entry(3), rule b, assumption)
qed

text \<open>The rest of the image.\<close>

lemma files_image:
  fixes X :: "string list"
  assumes p: "proper_entries es" and X: "plain_text X"
  defines "m \<equiv> files_memory es X"
  shows "image_apart m 0x100000" "boot_inodes m 0x100000 = 1" "file_size m 0x100000 0 = 5"
    "k < 5 \<Longrightarrow> file_byte m 0x100000 0 k = file_byte (sample_memory X) 0x100000 0 k"
proof -
  note same = sample_same_image [OF X] and im = sample_image [OF X]
  have i0: "(0 :: u32) < boot_inodes sample_disk 0x100000" by (simp add: sample_disk_simps)
  have l: "length es \<le> 61" using p by (simp add: proper_entries_def)
  have rd: "rd32 m (0x100000 + of_nat k) = rd32 (sample_memory X) (0x100000 + of_nat k)" if "k + 3 < 0xC0 \<or> 0x1000 \<le> k" "k < 0x10000" for k
  proof -
    have "m (0x100000 + of_nat (k + j)) = sample_memory X (0x100000 + of_nat (k + j))" if "j < 4" for j
      unfolding m_def by (rule files_memory_same [OF p]) (use l that \<open>k + 3 < 0xC0 \<or> 0x1000 \<le> k\<close> \<open>k < 0x10000\<close> in auto)
    from this [of 0] this [of 1] this [of 2] this [of 3] show ?thesis by (simp add: rd32_def ac_simps)
  qed
  have b: "boot_inodes m 0x100000 = 1" "boot_data_blocks m 0x100000 = 1" "file_size m 0x100000 0 = 5"
  proof -
    have "boot_inodes m 0x100000 = boot_inodes (sample_memory X) 0x100000"
      "boot_data_blocks m 0x100000 = boot_data_blocks (sample_memory X) 0x100000"
      "file_size m 0x100000 0 = file_size (sample_memory X) 0x100000 0"
      using rd [of 4] rd [of 8] rd [of "0x1000"]
      by (simp_all add: boot_inodes_def boot_data_blocks_def file_size_def inode_length_def inode_addr_def)
    then show "boot_inodes m 0x100000 = 1" "boot_data_blocks m 0x100000 = 1" "file_size m 0x100000 0 = 5"
      using same_image_boot(1,2) [OF same] same_image_inode(1) [OF same i0] by (simp_all add: sample_disk_simps)
  qed
  show "boot_inodes m 0x100000 = 1" "file_size m 0x100000 0 = 5" by (rule b)+
  have blk: "inode_block m (inode_addr 0x100000 0) (of_nat i) = inode_block (sample_memory X) (inode_addr 0x100000 0) (of_nat i)" if "i < 1023" for i
    using rd [of "0x1004 + 4 * i"] that by (simp add: inode_block_def inode_addr_def ac_simps)
  have blk0: "inode_block m (inode_addr 0x100000 0) (of_nat i) = 0" if "i < 1023" for i
    using blk [OF that] same_image_inode(2) [OF same i0 that] sample_disk_block [OF that] by simp
  have ty: "d_type (dentry_at m (entry_addr 0x100000 (of_nat i))) \<le> 2" if "i < 63" for i
  proof (cases "i < 2 \<or> length es + 2 \<le> i")
    case True
    then show ?thesis using files_other_entry(1) [OF p that, of X] im(3) [OF that] sample_types [OF that] by (simp add: m_def)
  next
    case False
    then have j: "i - 2 < length es" "i = i - 2 + 2" by auto
    have "snd (es ! (i - 2)) \<le> 2" using p j(1) nth_mem [of "i - 2" es] by (auto simp: proper_entries_def)
    then have "unat (ucast (snd (es ! (i - 2))) :: u32) \<le> 2" by (simp add: word_le_nat_alt unsigned_ucast_eq take_bit_nat_eq_self)
    then have "(ucast (snd (es ! (i - 2))) :: u32) \<le> 2" by (simp add: word_le_nat_alt)
    then show ?thesis using files_entry(2) [OF p j(1), of X] j(2) by (simp add: m_def)
  qed
  have sz: "image_size m 0x100000 = 12288" "in_image m 0x100000 = in_image sample_disk 0x100000"
    by (simp_all add: image_size_def b in_image_def fun_eq_iff sample_disk_simps)
  have "ino < 1 \<Longrightarrow> ino = 0" for ino :: u32 by (simp add: word_less_nat_alt unat_eq_0)
  then show "image_apart m 0x100000"
    using sample_disk_ok by (auto simp: image_apart_def image_ok_def b blk0 sz ty)
  assume k: "k < 5"
  have "m (0x100000 + of_nat (0x2000 + k)) = sample_memory X (0x100000 + of_nat (0x2000 + k))"
    unfolding m_def by (rule files_memory_same [OF p]) (use l k in auto)
  moreover have "boot_inodes (sample_memory X) 0x100000 = 1" using same_image_boot(1) [OF same] by (simp add: sample_disk_simps)
  ultimately show "file_byte m 0x100000 0 k = file_byte (sample_memory X) 0x100000 0 k"
    using blk [of 0] blk0 [of 0] k by (simp add: file_byte_def block_addr_def b)
qed

lemma files_lookup:
  assumes p: "proper_entries es" and X: "plain_text X" and i: "i < length es"
  shows "lookup (files_memory es X) 0x100000 (fst (es ! i)) = Some (i + 2)"
proof -
  let ?n = "fst (es ! i)" and ?m = "files_memory es X"
  have l: "length es \<le> 61" "distinct (map fst es)" using p by (simp_all add: proper_entries_def)
  have n: "?n \<noteq> []" "?n \<noteq> shell_name" "?n \<noteq> [0x2E]" using p i nth_mem [of i es] by (auto simp: proper_entries_def)
  have "entry_name ?m 0x100000 j \<noteq> ?n" if "j < i + 2" for j
  proof (cases "j < 2")
    case True
    then show ?thesis using files_other_entry(2) [OF p, of j X] sample_image(4) [OF X, of j] sample_entry_name [of j] n by auto
  next
    case False
    then have j: "j - 2 < length es" "j = j - 2 + 2" "j - 2 \<noteq> i" using that i by auto
    then have "fst (es ! (j - 2)) \<noteq> ?n" using l(2) i nth_eq_iff_index_eq [of "map fst es" "j - 2" i] by simp
    then show ?thesis using files_entry(1) [OF p j(1), of X] j(2) by simp
  qed
  then show ?thesis
    using files_entry(1) [OF p i, of X] i l(1) by (auto simp: lookup_def find_Some_iff intro!: exI [of _ "i + 2"])
qed

lemma files_started_simps [simp]:
  "memory (files_started es X) = files_memory es X" "boot_block (files_started es X) = 0x100000"
  by (simp_all add: files_started_def)

lemma files_started_ok:
  assumes "proper_entries es" "plain_text X"
  shows "started (files_started es X)"
proof -
  let ?s = "sample_started [] X []" and ?t = "files_started es X"
  have s: "started ?s" using sample_started_ok(1) [OF assms(2), of "[]" "[]"] by simp
  have "fd_array ?t = fd_array ?s" by (simp add: files_started_def fd_array_def pcb_of_def)
  moreover have "terminals_ok ?t = terminals_ok ?s"
    by (rule terminals_ok_same) (simp_all add: files_started_def)
  moreover have "int_flag ?t = int_flag ?s" "tasks_running ?t = tasks_running ?s" "cursor_ok ?t = cursor_ok ?s"
    by (simp_all add: files_started_def cursor_ok_def)
  ultimately show ?thesis
    using s files_image(1) [OF assms] std_fds_ok by (simp add: started_def program_ok_def)
qed

lemma files_literals:
  assumes "proper_entries es" "plain_text X" "Y \<subseteq> set X"
  shows "literals_at (sample_program X) (memory (files_started es X)) Y"
    "n \<le> 0x100000 \<Longrightarrow> literals_apart (sample_program X) Y 0x8200000 n"
proof -
  note lit = sample_literals [OF assms(2,3)]
  have "files_memory es X a = sample_memory X a" if "in_window a" for a
  proof -
    have "\<not> unat (a - 0x1000C0) < 64 * length es"
    proof
      assume k: "unat (a - 0x1000C0) < 64 * length es"
      define k where "k = unat (a - 0x1000C0)"
      have "a - virtual_mem = 0xF81000C0 + of_nat k" by (simp add: k_def virtual_mem_def)
      moreover have "k < 4096" using k assms(1) by (simp add: k_def proper_entries_def)
      then have "unat (0xF81000C0 + of_nat k :: u32) = 0xF81000C0 + k"
        by (simp add: unat_word_ariths unat_of_nat take_bit_nat_eq_self)
      ultimately have "unat (a - virtual_mem) = 0xF81000C0 + k" by (simp only:)
      then show False using that by (simp add: in_window_def fourM_def word_less_nat_alt)
    qed
    then show ?thesis
      unfolding files_memory_def using length_entries [OF assms(1)] by (intro put_outside) simp
  qed
  then have "same_window (sample_memory X) (memory (files_started es X))" by (simp add: same_window_def)
  then show "literals_at (sample_program X) (memory (files_started es X)) Y"
    using literals_same lit(1) [of sample_disk] by (auto simp: sample_memory_def)
  show "n \<le> 0x100000 \<Longrightarrow> literals_apart (sample_program X) Y 0x8200000 n" by (rule lit(2))
qed

end
