(* ===== verification/Blink.thy ===== *)
theory Blink
  imports Paging
begin

section \<open>The blinking characters of fish\<close>

text \<open>
  \<open>src/fish/blink.S\<close> and the allocator of \<open>src/fish/fish.c\<close>: characters that alternate on the text
  screen are a singly linked list of structures in the array \<open>blink_array\<close>. A structure whose
  location is 0 is free. The structures are bytes of the program's memory; stores to the page that
  \<open>vidmap\<close> has mapped arrive in the text screen.
\<close>

subsection \<open>16 bit accesses\<close>

definition rd16 :: "mem \<Rightarrow> addr \<Rightarrow> u16" where
  "rd16 m a = ucast (m a) OR push_bit 8 (ucast (m (a + 1)))"

definition wr16 :: "mem \<Rightarrow> addr \<Rightarrow> u16 \<Rightarrow> mem" where
  "wr16 m a v = m(a := ucast v, a + 1 := ucast (drop_bit 8 v))"

lemma rd16_wr16 [mem_simps]: "rd16 (wr16 m a v) a = v"
proof -
  have "rd16 (wr16 m a v) a = ucast (ucast v :: u8) OR push_bit 8 (ucast (ucast (drop_bit 8 v) :: u8))"
    by (simp add: rd16_def wr16_def)
  also have "\<dots> = v" by (rule bit_word_eqI, rename_tac n, case_tac "n < 8") (auto simp: bit_simps)
  finally show ?thesis .
qed

subsection \<open>The program\<close>

text \<open>Where the linker and the stack put its data; the temporary of \<open>add\<close> is at \<open>-16(%ebp)\<close>, that of
  \<open>find\<close> at \<open>-2(%ebp)\<close>.\<close>

record blink_vars =
  blink_array :: addr
  mp1_list_head :: addr
  vmem_base_addr :: addr
  blink_stack :: addr

definition BLINKS :: nat where "BLINKS = 80 * 25"
definition STRUCT_SIZE :: nat where "STRUCT_SIZE = 16"

definition blink_slot :: "blink_vars \<Rightarrow> nat \<Rightarrow> addr" where
  "blink_slot B i = blink_array B + of_nat (STRUCT_SIZE * i)"

abbreviation (input) LOCATION :: addr where "LOCATION \<equiv> 0"
abbreviation (input) ON_CHAR :: addr where "ON_CHAR \<equiv> 2"
abbreviation (input) OFF_CHAR :: addr where "OFF_CHAR \<equiv> 3"
abbreviation (input) ON_LENGTH :: addr where "ON_LENGTH \<equiv> 4"
abbreviation (input) OFF_LENGTH :: addr where "OFF_LENGTH \<equiv> 6"
abbreviation (input) COUNTDOWN :: addr where "COUNTDOWN \<equiv> 8"
abbreviation (input) STATUS :: addr where "STATUS \<equiv> 10"
abbreviation (input) NEXT :: addr where "NEXT \<equiv> 12"

definition fish_memset :: "mem \<Rightarrow> addr \<Rightarrow> u8 \<Rightarrow> nat \<Rightarrow> mem" where
  "fish_memset m p c n = fold (\<lambda>i m. m(p + of_nat i := c)) [0..<n] m"

definition fish_memcpy :: "mem \<Rightarrow> addr \<Rightarrow> addr \<Rightarrow> nat \<Rightarrow> mem" where
  "fish_memcpy m d s n = fold (\<lambda>i m. m(d + of_nat i := m (s + of_nat i))) [0..<n] m"

definition mp1_malloc :: "blink_vars \<Rightarrow> mem \<Rightarrow> addr" where
  "mp1_malloc B m = (case List.find (\<lambda>i. rd16 m (blink_slot B i + LOCATION) = 0) [0..<BLINKS] of
     None \<Rightarrow> 0 | Some i \<Rightarrow> blink_slot B i)"

definition mp1_free :: "mem \<Rightarrow> addr \<Rightarrow> mem" where
  "mp1_free m p = fish_memset m p 0 STRUCT_SIZE"

text \<open>A store of the program through the mapped page reaches the text screen.\<close>

definition mapped :: "addr \<Rightarrow> addr" where
  "mapped a = (if unat (a - addr_148MB) < 4096 then video_mem_addr + (a - addr_148MB) else a)"

definition mp1_poke :: "blink_vars \<Rightarrow> mem \<Rightarrow> u8 \<Rightarrow> addr \<Rightarrow> mem" where
  "mp1_poke B m cl eax = m(mapped (rd32 m (vmem_base_addr B) + eax) := cl)"

definition tasklet_blink :: "blink_vars \<Rightarrow> addr \<Rightarrow> mem \<Rightarrow> mem" where
  "tasklet_blink B ebx m =
     (let m = wr16 m (ebx + COUNTDOWN) (rd16 m (ebx + COUNTDOWN) - 1) in
        if 0 < sint (rd16 m (ebx + COUNTDOWN)) then m
        else let eax = push_bit 1 (ucast (rd16 m (ebx + LOCATION)));
            (dx, m) = (if rd16 m (ebx + STATUS) AND 1 = 0
              then let m = mp1_poke B m (m (ebx + ON_CHAR)) eax in (rd16 m (ebx + ON_LENGTH), m)
              else let m = mp1_poke B m (m (ebx + OFF_CHAR)) eax in (rd16 m (ebx + OFF_LENGTH), m));
            m = wr16 m (ebx + COUNTDOWN) dx
          in wr16 m (ebx + STATUS) (rd16 m (ebx + STATUS) XOR 1))"

partial_function (option) tasklet_loop :: "blink_vars \<Rightarrow> addr \<Rightarrow> mem \<Rightarrow> mem option" where
  "tasklet_loop B ebx m =
     (if ebx = 0 then Some m
      else let m = tasklet_blink B ebx m in tasklet_loop B (rd32 m (ebx + NEXT)) m)"

declare tasklet_loop.simps [code]

definition mp1_rtc_tasklet :: "blink_vars \<Rightarrow> mem \<Rightarrow> mem option" where
  "mp1_rtc_tasklet B m = tasklet_loop B (rd32 m (mp1_list_head B)) m"

text \<open>The search for a structure: its address, or 0.\<close>

partial_function (option) find_loop :: "u16 \<Rightarrow> addr \<Rightarrow> mem \<Rightarrow> addr option" where
  "find_loop ax ebx m =
     (if ebx = 0 then Some 0
      else if rd16 m (ebx + LOCATION) = ax then Some ebx
      else find_loop ax (rd32 m (ebx + NEXT)) m)"

declare find_loop.simps [code]

definition mp1_find_helper :: "blink_vars \<Rightarrow> u16 \<Rightarrow> mem \<Rightarrow> addr option" where
  "mp1_find_helper B ax m = find_loop ax (rd32 m (mp1_list_head B)) m"

definition mp1_ioctl_add :: "blink_vars \<Rightarrow> addr \<Rightarrow> mem \<Rightarrow> int \<times> mem" where
  "mp1_ioctl_add B arg m =
     (let ebx = blink_stack B;
          m = fish_memcpy m ebx arg STRUCT_SIZE
      in if rd16 m (ebx + LOCATION) \<ge> 80 * 25 then (-1, m)
      else let m = wr16 m (ebx + STATUS) 1;
          m = wr16 m (ebx + COUNTDOWN) (rd16 m (ebx + ON_LENGTH));
          edx = mp1_malloc B m
        in if edx = 0 then (-1, m)
        else let m = fish_memcpy m edx ebx STRUCT_SIZE;
            m = wr32 m (edx + NEXT) (rd32 m (mp1_list_head B));
            m = wr32 m (mp1_list_head B) edx
          in (0, mp1_poke B m (m (edx + ON_CHAR)) (push_bit 1 (ucast (rd16 m (edx + LOCATION))))))"

text \<open>The search for the pointer to a structure.\<close>

partial_function (option) remove_find_prev :: "addr \<Rightarrow> addr \<Rightarrow> mem \<Rightarrow> addr option" where
  "remove_find_prev eax edx m =
     (if rd32 m edx = eax then Some edx else remove_find_prev eax (rd32 m edx + NEXT) m)"

declare remove_find_prev.simps [code]

definition mp1_ioctl_remove :: "blink_vars \<Rightarrow> u32 \<Rightarrow> mem \<Rightarrow> (int \<times> mem) option" where
  "mp1_ioctl_remove B arg m = do {
     eax \<leftarrow> mp1_find_helper B (ucast arg) m;
     if eax = 0 then Some (-1, m)
     else do {
       edx \<leftarrow> remove_find_prev eax (mp1_list_head B) m;
       Some (0, mp1_free (wr32 m edx (rd32 m (eax + NEXT))) eax)
     }
   }"

text \<open>
  The conditional move tests \<open>SF \<noteq> OF\<close>; \<open>testb\<close> clears \<open>OF\<close> and copies bit 7 of the conjunction
  with 1 into \<open>SF\<close>.
\<close>

definition sync_char :: "mem \<Rightarrow> addr \<Rightarrow> u8" where
  "sync_char m edi = (if bit (m (edi + STATUS) AND 1) 7 then m (edi + ON_CHAR) else m (edi + OFF_CHAR))"

definition mp1_ioctl_sync :: "blink_vars \<Rightarrow> u32 \<Rightarrow> mem \<Rightarrow> (int \<times> mem) option" where
  "mp1_ioctl_sync B arg m = do {
     esi \<leftarrow> mp1_find_helper B (ucast (drop_bit 16 arg)) m;
     if esi = 0 then Some (-1, m)
     else do {
       edi \<leftarrow> mp1_find_helper B (ucast (arg AND 0xFFFF)) m;
       if edi = 0 then Some (-1, m)
       else let m = wr16 m (edi + ON_LENGTH) (rd16 m (esi + ON_LENGTH));
           m = wr16 m (edi + OFF_LENGTH) (rd16 m (esi + OFF_LENGTH));
           m = wr16 m (edi + COUNTDOWN) (rd16 m (esi + COUNTDOWN));
           m = wr16 m (edi + STATUS) (rd16 m (esi + STATUS))
         in Some (0, mp1_poke B m (sync_char m edi) (push_bit 1 (ucast (rd16 m (edi + LOCATION)))))
     }
   }"

definition mp1_ioctl_find :: "blink_vars \<Rightarrow> addr \<Rightarrow> mem \<Rightarrow> (int \<times> mem) option" where
  "mp1_ioctl_find B arg m = (let m = fish_memcpy m (blink_stack B + 14) arg 2 in do {
     eax \<leftarrow> mp1_find_helper B (rd16 m (blink_stack B + 14)) m;
     if eax = 0 then Some (-1, m)
     else Some (0, fish_memcpy m arg eax STRUCT_SIZE)
   })"

text \<open>The jump table has four entries.\<close>

definition mp1_ioctl :: "blink_vars \<Rightarrow> u32 \<Rightarrow> u32 \<Rightarrow> mem \<Rightarrow> (int \<times> mem) option" where
  "mp1_ioctl B arg cmd m =
     (if cmd = 0 then Some (mp1_ioctl_add B arg m)
      else if cmd = 1 then mp1_ioctl_remove B arg m
      else if cmd = 2 then mp1_ioctl_find B arg m
      else if cmd = 3 then mp1_ioctl_sync B arg m
      else None)"

subsection \<open>Blinkers\<close>

record blinker =
  location :: u16
  on_char :: u8
  off_char :: u8
  on_length :: u16
  off_length :: u16
  countdown :: u16
  status :: u16

definition blink_at :: "mem \<Rightarrow> addr \<Rightarrow> blinker" where
  "blink_at m p = \<lparr>location = rd16 m (p + LOCATION), on_char = m (p + ON_CHAR), off_char = m (p + OFF_CHAR),
     on_length = rd16 m (p + ON_LENGTH), off_length = rd16 m (p + OFF_LENGTH),
     countdown = rd16 m (p + COUNTDOWN), status = rd16 m (p + STATUS)\<rparr>"

text \<open>The list from a pointer.\<close>

primrec blink_path :: "mem \<Rightarrow> addr \<Rightarrow> addr list \<Rightarrow> bool" where
  "blink_path m x [] \<longleftrightarrow> x = 0"
| "blink_path m x (p # ps) \<longleftrightarrow> x = p \<and> p \<noteq> 0 \<and> blink_path m (rd32 m (p + NEXT)) ps"

text \<open>The characters of the text screen.\<close>

definition shown :: "mem \<Rightarrow> u8 list" where
  "shown m = map (\<lambda>i. m (video_mem_addr + of_nat (2 * i))) [0..<BLINKS]"

text \<open>A tick of the clock for one blinker.\<close>

definition due :: "blinker \<Rightarrow> bool" where
  "due b \<longleftrightarrow> \<not> 0 < sint (countdown b - 1)"

definition blink_next :: "blinker \<Rightarrow> blinker" where
  "blink_next b = (if due b
     then b\<lparr>countdown := (if status b AND 1 = 0 then on_length b else off_length b), status := status b XOR 1\<rparr>
     else b\<lparr>countdown := countdown b - 1\<rparr>)"

definition blink_show :: "blinker \<Rightarrow> u8 list \<Rightarrow> u8 list" where
  "blink_show b scr = (if due b
     then scr[unat (location b) := (if status b AND 1 = 0 then on_char b else off_char b)] else scr)"

subsection \<open>Areas of memory\<close>

definition area :: "addr \<Rightarrow> nat \<Rightarrow> addr set" where
  "area a n = {x. unat (x - a) < n}"

definition changes :: "mem \<Rightarrow> mem \<Rightarrow> addr set \<Rightarrow> bool" where
  "changes m m' A \<longleftrightarrow> (\<forall>x. x \<notin> A \<longrightarrow> m' x = m x)"

lemma changes_refl [simp]: "changes m m A"
  by (simp add: changes_def)

lemma changes_trans: "changes m m' A \<Longrightarrow> changes m' m'' A \<Longrightarrow> changes m m'' A"
  by (simp add: changes_def)

lemma changes_mono: "changes m m' A \<Longrightarrow> A \<subseteq> C \<Longrightarrow> changes m m' C"
  by (auto simp: changes_def)

lemma changes_at: "changes m m' A \<Longrightarrow> x \<notin> A \<Longrightarrow> m' x = m x"
  by (simp add: changes_def)

lemma area_offset: "i < n \<Longrightarrow> n \<le> 2 ^ 32 \<Longrightarrow> a + of_nat i \<in> area a n"
  by (simp add: area_def unat_of_nat take_bit_nat_eq_self)

lemma area_sub: "j + k \<le> n \<Longrightarrow> n \<le> 2 ^ 32 \<Longrightarrow> area (a + of_nat j) k \<subseteq> area a n"
proof
  fix x assume j: "j + k \<le> n" "n \<le> 2 ^ 32" and x: "x \<in> area (a + of_nat j) k"
  have "x - a = of_nat (j + unat (x - (a + of_nat j)))" by (simp add: algebra_simps)
  then have "unat (x - a) \<le> j + unat (x - (a + of_nat j))" by (simp only: unat_of_nat mod_less_eq_dividend)
  then show "x \<in> area a n" using x j(1) by (simp add: area_def)
qed

lemma changes_wr16: "changes m (wr16 m a v) (area a 2)"
  by (auto simp: changes_def wr16_def area_def)

lemma changes_wr32: "changes m (wr32 m a v) (area a 4)"
  by (auto simp: changes_def wr32_def area_def)

lemma changes_in:
  assumes "changes m m' A" "A \<inter> area a n = {}" "i < n" "n \<le> 2 ^ 32"
  shows "m' (a + of_nat i) = m (a + of_nat i)"
  using changes_at [OF assms(1)] area_offset [OF assms(3,4), of a] assms(2) by blast

lemma rd16_changes: "changes m m' A \<Longrightarrow> A \<inter> area a 2 = {} \<Longrightarrow> rd16 m' a = rd16 m a"
  using changes_in [of m m' A a 2 0] changes_in [of m m' A a 2 1] by (simp add: rd16_def)

lemma rd32_changes: "changes m m' A \<Longrightarrow> A \<inter> area a 4 = {} \<Longrightarrow> rd32 m' a = rd32 m a"
  using changes_in [of m m' A a 4 0] changes_in [of m m' A a 4 1] changes_in [of m m' A a 4 2] changes_in [of m m' A a 4 3]
  by (simp add: rd32_def)

lemma blink_at_changes:
  assumes "changes m m' A" "A \<inter> area p 16 = {}"
  shows "blink_at m' p = blink_at m p" "rd32 m' (p + NEXT) = rd32 m (p + NEXT)"
proof -
  have sub: "area (p + of_nat j) k \<subseteq> area p 16" if "j + k \<le> 16" for j k using that by (intro area_sub) simp_all
  have at: "m' (p + of_nat j) = m (p + of_nat j)" if "j < 16" for j
    using changes_in [OF assms that] by simp
  have r: "rd16 m' (p + of_nat j) = rd16 m (p + of_nat j)" if "j \<le> 14" for j
    using sub [of j 2] that assms(2) by (intro rd16_changes [OF assms(1)]) auto
  show "blink_at m' p = blink_at m p"
    using r [of 0] r [of 4] r [of 6] r [of 8] r [of 10] at [of 2] at [of 3] by (simp add: blink_at_def)
  have "area (p + of_nat 12) 4 \<subseteq> area p 16" by (rule sub) simp
  then show "rd32 m' (p + NEXT) = rd32 m (p + NEXT)" using assms(2) by (intro rd32_changes [OF assms(1)]) auto
qed

lemma blink_path_changes:
  "changes m m' A \<Longrightarrow> (\<And>p. p \<in> set ps \<Longrightarrow> A \<inter> area p 16 = {}) \<Longrightarrow> blink_path m' x ps = blink_path m x ps"
  by (induction ps arbitrary: x) (simp_all add: blink_at_changes(2))

lemma length_shown [simp]: "length (shown m) = BLINKS"
  by (simp add: shown_def)

lemma shown_changes:
  assumes "changes m m' A" "A \<inter> area video_mem_addr 4096 = {}"
  shows "shown m' = shown m"
proof -
  have "m' (video_mem_addr + of_nat (2 * i)) = m (video_mem_addr + of_nat (2 * i))" if "i < BLINKS" for i
    using changes_in [OF assms, of "2 * i"] that by (simp add: BLINKS_def)
  then show ?thesis by (simp add: shown_def)
qed

subsection \<open>The layout of the program\<close>

fun separate :: "(addr \<times> nat) list \<Rightarrow> bool" where
  "separate [] = True"
| "separate ((a, n) # rs) = ((\<forall>(c, k) \<in> set rs. area a n \<inter> area c k = {}) \<and> separate rs)"

definition blink_areas :: "blink_vars \<Rightarrow> (addr \<times> nat) list" where
  "blink_areas B = [(0, 1), (blink_array B, STRUCT_SIZE * BLINKS), (mp1_list_head B, 4), (vmem_base_addr B, 4),
     (blink_stack B, STRUCT_SIZE), (video_mem_addr, 4096)]"

definition blink_layout :: "blink_vars \<Rightarrow> bool" where
  "blink_layout B \<longleftrightarrow> separate (blink_areas B)"

definition slots :: "blink_vars \<Rightarrow> addr set" where
  "slots B = blink_slot B ` {..<BLINKS}"

lemma blink_layoutD:
  assumes "blink_layout B"
  defines "A \<equiv> area (blink_array B) 32000"
  shows "0 \<notin> A" "A \<inter> area (mp1_list_head B) 4 = {}" "A \<inter> area (vmem_base_addr B) 4 = {}" "A \<inter> area (blink_stack B) 16 = {}"
    "A \<inter> area video_mem_addr 4096 = {}" "area (mp1_list_head B) 4 \<inter> area (vmem_base_addr B) 4 = {}"
    "area (mp1_list_head B) 4 \<inter> area (blink_stack B) 16 = {}" "area (mp1_list_head B) 4 \<inter> area video_mem_addr 4096 = {}"
    "area (vmem_base_addr B) 4 \<inter> area (blink_stack B) 16 = {}" "area (vmem_base_addr B) 4 \<inter> area video_mem_addr 4096 = {}"
    "area (blink_stack B) 16 \<inter> area video_mem_addr 4096 = {}"
proof -
  note s = assms(1) [unfolded blink_layout_def blink_areas_def STRUCT_SIZE_def BLINKS_def]
  have z: "0 \<in> area 0 1" by (simp add: area_def)
  have "area 0 1 \<inter> A = {}" using s by (simp add: A_def)
  then show "0 \<notin> A" using z by blast
qed (use assms(1) in \<open>simp_all add: A_def blink_layout_def blink_areas_def STRUCT_SIZE_def BLINKS_def\<close>)

lemma slot_area: "i < BLINKS \<Longrightarrow> area (blink_slot B i) 16 \<subseteq> area (blink_array B) 32000"
  unfolding blink_slot_def STRUCT_SIZE_def by (rule area_sub) (simp_all add: BLINKS_def)

lemma slot_disjoint:
  assumes "i < BLINKS" "j < BLINKS" "i \<noteq> j"
  shows "area (blink_slot B i) 16 \<inter> area (blink_slot B j) 16 = {}"
proof -
  have off: "unat (x - blink_array B) = 16 * k + unat (x - blink_slot B k)" if "x \<in> area (blink_slot B k) 16" "k < BLINKS" for x k
  proof -
    have "x - blink_array B = of_nat (16 * k + unat (x - blink_slot B k))"
      by (simp add: blink_slot_def STRUCT_SIZE_def algebra_simps)
    moreover have "16 * k + unat (x - blink_slot B k) < 2 ^ 32" using that by (simp add: area_def BLINKS_def)
    ultimately show ?thesis by (simp only: unat_of_nat) (simp add: take_bit_nat_eq_self)
  qed
  have "False" if x: "x \<in> area (blink_slot B i) 16" "x \<in> area (blink_slot B j) 16" for x
  proof -
    have "16 * i + unat (x - blink_slot B i) = 16 * j + unat (x - blink_slot B j)"
      using off [OF x(1) assms(1)] off [OF x(2) assms(2)] by simp
    moreover have "unat (x - blink_slot B i) < 16" "unat (x - blink_slot B j) < 16" using x by (simp_all add: area_def)
    ultimately show False using assms(3) by arith
  qed
  then show ?thesis by blast
qed

lemma area_self: "0 < n \<Longrightarrow> p \<in> area p n"
  by (simp add: area_def)

lemma slots_disjoint:
  assumes "p \<in> slots B" "q \<in> slots B" "p \<noteq> q"
  shows "area p 16 \<inter> area q 16 = {}"
  using assms slot_disjoint [of _ _ B] unfolding slots_def by (metis imageE lessThan_iff)

lemma slot_inj: "i < BLINKS \<Longrightarrow> j < BLINKS \<Longrightarrow> blink_slot B i = blink_slot B j \<longleftrightarrow> i = j"
  using slot_disjoint [of i j B] area_self [of 16 "blink_slot B j"] by (cases "i = j") auto

lemma slots_apart:
  assumes "blink_layout B" "p \<in> slots B"
  shows "p \<noteq> 0" "area p 16 \<inter> area (mp1_list_head B) 4 = {}" "area p 16 \<inter> area (vmem_base_addr B) 4 = {}"
    "area p 16 \<inter> area (blink_stack B) 16 = {}" "area p 16 \<inter> area video_mem_addr 4096 = {}"
proof -
  obtain i where "i < BLINKS" "p = blink_slot B i" using assms(2) by (auto simp: slots_def)
  then have sub: "area p 16 \<subseteq> area (blink_array B) 32000" using slot_area by simp
  note d = blink_layoutD [OF assms(1)]
  show "p \<noteq> 0" using sub d(1) area_self [of 16 p] by auto
  show "area p 16 \<inter> area (mp1_list_head B) 4 = {}" "area p 16 \<inter> area (vmem_base_addr B) 4 = {}"
    "area p 16 \<inter> area (blink_stack B) 16 = {}" "area p 16 \<inter> area video_mem_addr 4096 = {}"
    using sub d(2-5) by blast+
qed

text \<open>All that the engine writes, apart from the structure of its caller.\<close>

definition engine :: "blink_vars \<Rightarrow> addr set" where
  "engine B = area (blink_array B) 32000 \<union> area (mp1_list_head B) 4 \<union> area (blink_stack B) 16 \<union> area video_mem_addr 4096"

lemma slots_in_array: "p \<in> slots B \<Longrightarrow> area p 16 \<subseteq> area (blink_array B) 32000"
  using slot_area by (auto simp: slots_def)

lemma changes_engine:
  "changes m m' A \<Longrightarrow> A \<subseteq> engine B \<Longrightarrow> changes m m' (engine B \<union> C)"
  by (rule changes_mono) blast+

subsection \<open>Writing a character\<close>

lemma poke_shown:
  fixes l :: u16 and c :: u8
  assumes "rd32 m (vmem_base_addr B) = addr_148MB" "unat l < BLINKS"
  defines "m' \<equiv> mp1_poke B m c (push_bit 1 (ucast l))"
  shows "shown m' = (shown m)[unat l := c]" "changes m m' (area video_mem_addr 4096)"
proof -
  let ?a = "video_mem_addr + of_nat (2 * unat l)"
  have e: "push_bit 1 (ucast l) = (of_nat (2 * unat l) :: u32)" by (simp add: push_bit_eq_mult)
  have l: "2 * unat l < 4096" using assms(2) by (simp add: BLINKS_def)
  then have u: "unat (of_nat (2 * unat l) :: u32) < 4096" by (simp only: unat_of_nat) (simp add: take_bit_nat_eq_self)
  have "mapped (addr_148MB + of_nat (2 * unat l)) = ?a"
    unfolding mapped_def add_diff_cancel_left' using u by (simp only: if_True)
  then have m': "m' = m(?a := c)" by (simp only: m'_def mp1_poke_def assms(1) e)
  have "?a \<in> area video_mem_addr 4096" using l by (intro area_offset) simp_all
  then show "changes m m' (area video_mem_addr 4096)" by (auto simp: m' changes_def)
  have "m' (video_mem_addr + of_nat (2 * i)) = (if i = unat l then c else m (video_mem_addr + of_nat (2 * i)))" if "i < BLINKS" for i
  proof -
    have "2 * i < 2 ^ 32" "2 * unat l < 2 ^ 32" using that l by (simp_all add: BLINKS_def)
    then have "(of_nat (2 * i) :: u32) = of_nat (2 * unat l) \<longleftrightarrow> i = unat l"
      using of_nat_inj_word [of "2 * i" "2 * unat l", where 'a = 32] by simp
    then show ?thesis unfolding m' fun_upd_apply add_left_cancel by simp
  qed
  then show "shown m' = (shown m)[unat l := c]"
    by (intro nth_equalityI) (simp_all add: shown_def nth_list_update BLINKS_def)
qed

subsection \<open>A tick of the clock\<close>

text \<open>Changes of the fields of one structure.\<close>

lemma blink_at_wr16:
  "blink_at (wr16 m (p + COUNTDOWN) v) p = (blink_at m p)\<lparr>countdown := v\<rparr>"
  "blink_at (wr16 m (p + STATUS) v) p = (blink_at m p)\<lparr>status := v\<rparr>"
  "blink_at (wr16 m (p + ON_LENGTH) v) p = (blink_at m p)\<lparr>on_length := v\<rparr>"
  "blink_at (wr16 m (p + OFF_LENGTH) v) p = (blink_at m p)\<lparr>off_length := v\<rparr>"
  "rd32 (wr16 m (p + COUNTDOWN) v) (p + NEXT) = rd32 m (p + NEXT)"
  "rd32 (wr16 m (p + STATUS) v) (p + NEXT) = rd32 m (p + NEXT)"
  "rd32 (wr16 m (p + ON_LENGTH) v) (p + NEXT) = rd32 m (p + NEXT)"
  "rd32 (wr16 m (p + OFF_LENGTH) v) (p + NEXT) = rd32 m (p + NEXT)"
  using rd16_wr16 [of m "p + COUNTDOWN" v] rd16_wr16 [of m "p + STATUS" v]
    rd16_wr16 [of m "p + ON_LENGTH" v] rd16_wr16 [of m "p + OFF_LENGTH" v]
  by (simp_all add: blink_at_def rd16_def rd32_def wr16_def add.assoc)

lemma changes_field: "j + 2 \<le> 16 \<Longrightarrow> changes m (wr16 m (p + of_nat j) v) (area p 16)"
  using changes_mono [OF changes_wr16 [of m "p + of_nat j" v] area_sub [of j 2 16 p]] by simp

lemmas changes_fields = changes_field [of 4, simplified] changes_field [of 6, simplified]
  changes_field [of 8, simplified] changes_field [of 10, simplified]

lemma blink_fields:
  "rd16 m (p + LOCATION) = location (blink_at m p)" "m (p + ON_CHAR) = on_char (blink_at m p)"
  "m (p + OFF_CHAR) = off_char (blink_at m p)" "rd16 m (p + ON_LENGTH) = on_length (blink_at m p)"
  "rd16 m (p + OFF_LENGTH) = off_length (blink_at m p)" "rd16 m (p + COUNTDOWN) = countdown (blink_at m p)"
  "rd16 m (p + STATUS) = status (blink_at m p)"
  by (simp_all add: blink_at_def)

definition tick_one :: "blink_vars \<Rightarrow> addr \<Rightarrow> mem \<Rightarrow> mem" where
  "tick_one B p m = (let m1 = wr16 m (p + COUNTDOWN) (countdown (blink_at m p) - 1); b = blink_at m p in
     if due b
     then let m2 = mp1_poke B m1 (if status b AND 1 = 0 then on_char b else off_char b) (push_bit 1 (ucast (location b)));
         m3 = wr16 m2 (p + COUNTDOWN) (if status b AND 1 = 0 then on_length b else off_length b)
       in wr16 m3 (p + STATUS) (status b XOR 1)
     else m1)"

lemma tick_one_spec:
  assumes L: "blink_layout B" "p \<in> slots B" and v: "rd32 m (vmem_base_addr B) = addr_148MB" and l: "unat (location (blink_at m p)) < BLINKS"
  defines "m' \<equiv> tick_one B p m"
  shows "blink_at m' p = blink_next (blink_at m p)" "rd32 m' (p + NEXT) = rd32 m (p + NEXT)"
    "changes m m' (area p 16 \<union> area video_mem_addr 4096)" "shown m' = blink_show (blink_at m p) (shown m)"
proof -
  define b where "b = blink_at m p"
  define m1 where "m1 = wr16 m (p + COUNTDOWN) (countdown b - 1)"
  define m2 where "m2 = mp1_poke B m1 (if status b AND 1 = 0 then on_char b else off_char b) (push_bit 1 (ucast (location b)))"
  define m3 where "m3 = wr16 m2 (p + COUNTDOWN) (if status b AND 1 = 0 then on_length b else off_length b)"
  define m4 where "m4 = wr16 m3 (p + STATUS) (status b XOR 1)"
  have m': "m' = (if due b then m4 else m1)" by (simp only: m'_def tick_one_def m1_def m2_def m3_def m4_def b_def Let_def)
  note ap = slots_apart [OF L]
  have vid: "area video_mem_addr 4096 \<inter> area p 16 = {}" using ap(5) by blast
  have c1: "changes m m1 (area p 16)" unfolding m1_def by (rule changes_fields)
  have b1: "blink_at m1 p = b\<lparr>countdown := countdown b - 1\<rparr>" "rd32 m1 (p + NEXT) = rd32 m (p + NEXT)"
    unfolding m1_def b_def by (rule blink_at_wr16)+
  have v1: "rd32 m1 (vmem_base_addr B) = addr_148MB" using rd32_changes [OF c1 ap(3)] v by simp
  have s1: "shown m1 = shown m" by (rule shown_changes [OF c1 ap(5)])
  have l': "unat (location b) < BLINKS" using l by (simp add: b_def)
  note poke = poke_shown [OF v1 l', of "if status b AND 1 = 0 then on_char b else off_char b", folded m2_def]
  note b2 = blink_at_changes [OF poke(2) vid]
  have c34: "changes m2 m3 (area p 16)" "changes m3 m4 (area p 16)" unfolding m3_def m4_def by (rule changes_fields)+
  have b4: "blink_at m4 p = blink_at m2 p\<lparr>countdown := (if status b AND 1 = 0 then on_length b else off_length b), status := status b XOR 1\<rparr>"
    "rd32 m4 (p + NEXT) = rd32 m2 (p + NEXT)"
    unfolding m4_def m3_def blink_at_wr16 by simp_all
  have s4: "shown m4 = shown m2" using shown_changes [OF c34(1) ap(5)] shown_changes [OF c34(2) ap(5)] by simp
  show "blink_at m' p = blink_next (blink_at m p)" "rd32 m' (p + NEXT) = rd32 m (p + NEXT)"
    unfolding m' using b1 b2 b4 by (simp_all add: blink_next_def b_def [symmetric])
  show "shown m' = blink_show (blink_at m p) (shown m)"
    unfolding m' using s1 s4 poke(1) by (simp add: blink_show_def b_def [symmetric])
  let ?A = "area p 16 \<union> area video_mem_addr 4096"
  have c: "changes m m1 ?A" "changes m1 m2 ?A" "changes m2 m3 ?A" "changes m3 m4 ?A"
    by (rule changes_mono [OF c1] changes_mono [OF poke(2)] changes_mono [OF c34(1)] changes_mono [OF c34(2)]; blast)+
  show "changes m m' ?A"
    unfolding m' using c(1) changes_trans [OF changes_trans [OF changes_trans [OF c(1,2)] c(3)] c(4)] by simp
qed

lemma tasklet_blink_eq:
  assumes L: "blink_layout B" "p \<in> slots B" and v: "rd32 m (vmem_base_addr B) = addr_148MB" and l: "unat (location (blink_at m p)) < BLINKS"
  shows "tasklet_blink B p m = tick_one B p m"
proof -
  note ap = slots_apart [OF L]
  have vid: "area video_mem_addr 4096 \<inter> area p 16 = {}" using ap(5) by blast
  define m1 where "m1 = wr16 m (p + COUNTDOWN) (countdown (blink_at m p) - 1)"
  have b1: "blink_at m1 p = (blink_at m p)\<lparr>countdown := countdown (blink_at m p) - 1\<rparr>" "rd32 m1 (p + NEXT) = rd32 m (p + NEXT)"
    unfolding m1_def by (rule blink_at_wr16)+
  have "changes m m1 (area p 16)" unfolding m1_def by (rule changes_fields)
  then have v1: "rd32 m1 (vmem_base_addr B) = addr_148MB" using rd32_changes [OF _ ap(3)] v by simp
  note poke = blink_at_changes [OF poke_shown(2) [OF v1 l] vid, simplified]
  show ?thesis
    unfolding tasklet_blink_def
    by (simp add: blink_fields [of _ p, simplified] m1_def [symmetric] b1 poke due_def tick_one_def Let_def blink_at_wr16)
qed

lemma tasklet_loop_step:
  assumes L: "blink_layout B" "p \<in> slots B" and v: "rd32 m (vmem_base_addr B) = addr_148MB" and l: "unat (location (blink_at m p)) < BLINKS"
  shows "tasklet_loop B p m = tasklet_loop B (rd32 m (p + NEXT)) (tick_one B p m)"
  using slots_apart(1) [OF L] tick_one_spec(2) [OF L v l] tasklet_blink_eq [OF L v l]
  by (subst tasklet_loop.simps) (simp add: Let_def)

text \<open>The invariant: the list runs through structures of the array, those that are not free.\<close>

definition blinks_ok :: "blink_vars \<Rightarrow> addr list \<Rightarrow> mem \<Rightarrow> bool" where
  "blinks_ok B ps m \<longleftrightarrow> rd32 m (vmem_base_addr B) = addr_148MB \<and> blink_path m (rd32 m (mp1_list_head B)) ps \<and>
     distinct ps \<and> set ps \<subseteq> slots B \<and>
     (\<forall>p \<in> slots B. rd16 m (p + LOCATION) \<noteq> 0 \<longleftrightarrow> p \<in> set ps) \<and> (\<forall>p \<in> set ps. unat (rd16 m (p + LOCATION)) < BLINKS)"

definition blinkers :: "addr list \<Rightarrow> mem \<Rightarrow> blinker list" where
  "blinkers ps m = map (blink_at m) ps"

lemma area_union: "(\<Union>p\<in>set (x # ps). area p 16) = area x 16 \<union> (\<Union>p\<in>set ps. area p 16)"
  by simp

lemma tasklet_loop_spec:
  assumes L: "blink_layout B" and v: "rd32 m (vmem_base_addr B) = addr_148MB" and p: "blink_path m x ps" "distinct ps" "set ps \<subseteq> slots B"
    and l: "\<forall>p \<in> set ps. unat (rd16 m (p + LOCATION)) < BLINKS"
  shows "\<exists>m'. tasklet_loop B x m = Some m' \<and> blink_path m' x ps \<and> blinkers ps m' = map blink_next (blinkers ps m) \<and>
    shown m' = fold blink_show (blinkers ps m) (shown m) \<and>
    changes m m' ((\<Union>p\<in>set ps. area p 16) \<union> area video_mem_addr 4096)"
  using v p l
proof (induction ps arbitrary: x m)
  case Nil
  then show ?case by (subst tasklet_loop.simps) (simp add: blinkers_def)
next
  case (Cons p ps)
  then have ps: "p \<in> slots B" "p \<notin> set ps" "distinct ps" "set ps \<subseteq> slots B" and x: "x = p" by simp_all
  have l: "unat (location (blink_at m p)) < BLINKS" using Cons.prems(5) by (simp add: blink_at_def)
  note ap = slots_apart [OF L ps(1)]
  define m1 where "m1 = tick_one B p m"
  note one = tick_one_spec [OF L ps(1) Cons.prems(1) l, folded m1_def]
  let ?A = "area p 16 \<union> area video_mem_addr 4096"
  have far: "?A \<inter> area q 16 = {}" if "q \<in> set ps" for q
  proof -
    have q: "q \<in> slots B" "p \<noteq> q" using that ps by auto
    show ?thesis using slots_disjoint [OF ps(1) q] slots_apart(5) [OF L q(1)] by blast
  qed
  have v1: "rd32 m1 (vmem_base_addr B) = addr_148MB"
  proof -
    have "?A \<inter> area (vmem_base_addr B) 4 = {}" using ap(3) blink_layoutD(10) [OF L] by blast
    then show ?thesis using rd32_changes [OF one(3)] Cons.prems(1) by simp
  qed
  have path1: "blink_path m1 (rd32 m (p + NEXT)) ps"
    using blink_path_changes [OF one(3) far] Cons.prems(2) by simp
  have same: "blink_at m1 q = blink_at m q" if "q \<in> set ps" for q using blink_at_changes(1) [OF one(3) far [OF that]] .
  then have "unat (rd16 m1 (q + LOCATION)) < BLINKS" if "q \<in> set ps" for q
    using Cons.prems(5) that by (simp add: blink_at_def)
  then obtain m' where m': "tasklet_loop B (rd32 m (p + NEXT)) m1 = Some m'" "blink_path m' (rd32 m (p + NEXT)) ps"
    "blinkers ps m' = map blink_next (blinkers ps m1)" "shown m' = fold blink_show (blinkers ps m1) (shown m1)"
    "changes m1 m' ((\<Union>p\<in>set ps. area p 16) \<union> area video_mem_addr 4096)"
    using Cons.IH [OF v1 path1 ps(3,4)] by blast
  let ?C = "(\<Union>p\<in>set (p # ps). area p 16) \<union> area video_mem_addr 4096"
  have keep: "((\<Union>q\<in>set ps. area q 16) \<union> area video_mem_addr 4096) \<inter> area p 16 = {}"
    using far ap(5) by blast
  note kp = blink_at_changes [OF m'(5) keep]
  have c: "changes m m1 ?C" "changes m1 m' ?C" by (rule changes_mono [OF one(3)] changes_mono [OF m'(5)]; auto)+
  have bs: "blinkers ps m1 = blinkers ps m" using same by (simp add: blinkers_def)
  have "tasklet_loop B x m = Some m'" using tasklet_loop_step [OF L ps(1) Cons.prems(1) l] m'(1) by (simp add: x m1_def)
  moreover have "blink_path m' x (p # ps)" using Cons.prems(2) kp(2) one(2) m'(2) by simp
  moreover have "blinkers (p # ps) m' = map blink_next (blinkers (p # ps) m)"
    using kp(1) one(1) m'(3) bs by (simp add: blinkers_def)
  moreover have "shown m' = fold blink_show (blinkers (p # ps) m) (shown m)"
    unfolding m'(4) bs one(4) by (simp add: blinkers_def)
  ultimately show ?case using changes_trans [OF c] by blast
qed

lemma tasklet_spec:
  assumes L: "blink_layout B" and ok: "blinks_ok B ps m"
  shows "\<exists>m'. mp1_rtc_tasklet B m = Some m' \<and> blinks_ok B ps m' \<and> blinkers ps m' = map blink_next (blinkers ps m) \<and>
    shown m' = fold blink_show (blinkers ps m) (shown m) \<and> changes m m' (engine B)"
proof -
  note o = ok [unfolded blinks_ok_def]
  let ?A = "(\<Union>p\<in>set ps. area p 16) \<union> area video_mem_addr 4096"
  obtain m' where m': "tasklet_loop B (rd32 m (mp1_list_head B)) m = Some m'" "blink_path m' (rd32 m (mp1_list_head B)) ps"
    "blinkers ps m' = map blink_next (blinkers ps m)" "shown m' = fold blink_show (blinkers ps m) (shown m)" "changes m m' ?A"
    using tasklet_loop_spec [OF L, of m "rd32 m (mp1_list_head B)" ps] o by blast
  have in_slots: "p \<in> slots B" if "p \<in> set ps" for p using o that by blast
  have v: "rd32 m' (vmem_base_addr B) = addr_148MB" "rd32 m' (mp1_list_head B) = rd32 m (mp1_list_head B)"
  proof -
    have "?A \<inter> area (vmem_base_addr B) 4 = {}" "?A \<inter> area (mp1_list_head B) 4 = {}"
      using slots_apart(2,3) [OF L in_slots] blink_layoutD(8,10) [OF L] by blast+
    then show "rd32 m' (vmem_base_addr B) = addr_148MB" "rd32 m' (mp1_list_head B) = rd32 m (mp1_list_head B)"
      using rd32_changes [OF m'(5)] o by simp_all
  qed
  have "rd16 m' (p + LOCATION) = rd16 m (p + LOCATION)" if "p \<in> slots B" for p
  proof (cases "p \<in> set ps")
    case True
    then have "location (blink_at m' p) = location (blink_at m p)"
      using m'(3) by (auto simp: blinkers_def blink_next_def)
    then show ?thesis by (simp add: blink_at_def)
  next
    case False
    have "?A \<inter> area p 16 = {}"
      using slots_disjoint [OF in_slots that] slots_apart(5) [OF L that] False by blast
    then show ?thesis using blink_at_changes(1) [OF m'(5), of p] by (simp add: blink_at_def)
  qed
  then have "blinks_ok B ps m'" using o v m'(2) in_slots by (simp add: blinks_ok_def subset_iff)
  moreover have "?A \<subseteq> engine B" using slots_in_array [OF in_slots] unfolding engine_def by blast
  then have "changes m m' (engine B)" using changes_mono [OF m'(5)] by blast
  ultimately show ?thesis using m'(1,3,4) by (simp add: mp1_rtc_tasklet_def)
qed

end
