(* ===== verification/Blinkers.thy ===== *)
theory Blinkers
  imports Blink
begin

section \<open>The blink engine as a list of blinkers\<close>

text \<open>
  What the calls of the engine do to the list in memory, and that any sequence of them is the same
  sequence on an abstract list and text screen; and the location that breaks it.
\<close>

subsection \<open>Copies\<close>

lemma fish_memset_filled: "n \<le> 2 ^ 32 \<Longrightarrow> fish_memset m p c n = filled m p n c"
proof (induction n)
  case (Suc n)
  then show ?case using filled_Suc [of n m p c] by (simp add: fish_memset_def)
qed (simp add: fish_memset_def)

lemma fish_memcpy_copied:
  assumes "fwd_ok d s n" "n \<le> 2 ^ 32"
  shows "fish_memcpy m d s n = copied m d s n"
  using assms
proof (induction n)
  case (Suc n)
  have "fwd_ok d s n" using Suc.prems(1) by (auto simp: fwd_ok_def)
  then have "fish_memcpy m d s (Suc n) = copied (copied m d s n) (d + of_nat n) (s + of_nat n) (Suc 0)"
    using Suc.IH Suc.prems(2) by (simp add: fish_memcpy_def copied_1)
  also have "\<dots> = copied m d s (Suc n)" using copied_append [of d s n 1 m] Suc.prems by simp
  finally show ?case .
qed (simp add: fish_memcpy_def)

lemma area_disjoint_regions:
  assumes "area d n \<inter> area s n = {}" "n \<le> 2 ^ 32"
  shows "disjoint_regions d s n"
  unfolding disjoint_regions_def
proof (intro allI impI notI)
  fix i j assume "i < n" "j < n" "d + of_nat i = s + of_nat j"
  then show False using area_offset [OF \<open>i < n\<close> assms(2), of d] area_offset [OF \<open>j < n\<close> assms(2), of s] assms(1) by auto
qed

lemma fish_memcpy_spec:
  assumes "area d n \<inter> area s n = {}" "n \<le> 2 ^ 32"
  shows "i < n \<Longrightarrow> fish_memcpy m d s n (d + of_nat i) = m (s + of_nat i)" "changes m (fish_memcpy m d s n) (area d n)"
proof -
  have c: "fish_memcpy m d s n = copied m d s n"
    using fish_memcpy_copied disjoint_fwd_ok [OF area_disjoint_regions [OF assms]] assms(2) by blast
  show "changes m (fish_memcpy m d s n) (area d n)" by (auto simp: c copied_def changes_def area_def)
  show "fish_memcpy m d s n (d + of_nat i) = m (s + of_nat i)" if "i < n"
    using that assms(2) by (simp add: c copied_def unat_of_nat take_bit_nat_eq_self)
qed

lemma blink_at_bytes:
  assumes "\<And>j. j < 16 \<Longrightarrow> m' (d + of_nat j) = m (s + of_nat j)"
  shows "blink_at m' d = blink_at m s" "rd32 m' (d + NEXT) = rd32 m (s + NEXT)"
proof -
  have r: "rd16 m' (d + of_nat j) = rd16 m (s + of_nat j)" if "j \<le> 14" for j
    using assms [of j] assms [of "Suc j"] that by (simp add: rd16_def ac_simps)
  show "blink_at m' d = blink_at m s"
    using r [of 0] assms [of 2] assms [of 3] r [of 4] r [of 6] r [of 8] r [of 10] by (simp add: blink_at_def)
  show "rd32 m' (d + NEXT) = rd32 m (s + NEXT)"
    using assms [of 12] assms [of 13] assms [of 14] assms [of 15] by (simp add: rd32_def add.assoc)
qed

lemma blink_at_next:
  "blink_at (wr32 m (p + NEXT) v) p = blink_at m p" "rd32 (wr32 m (p + NEXT) v) (p + NEXT) = v"
  by (simp_all add: rd32_wr32) (simp add: blink_at_def rd16_def wr32_def add.assoc)

lemma changes_next: "changes m (wr32 m (p + NEXT) v) (area p 16)"
  using changes_mono [OF changes_wr32 [of m "p + NEXT" v], of "area p 16"] area_sub [of 12 4 16 p] by simp

subsection \<open>The search for a structure\<close>

definition first_at :: "u16 \<Rightarrow> addr list \<Rightarrow> mem \<Rightarrow> addr" where
  "first_at l ps m = (case List.find (\<lambda>p. location (blink_at m p) = l) ps of None \<Rightarrow> 0 | Some p \<Rightarrow> p)"

lemma find_loop_spec: "blink_path m x ps \<Longrightarrow> find_loop l x m = Some (first_at l ps m)"
proof (induction ps arbitrary: x)
  case Nil
  then show ?case by (subst find_loop.simps) (simp add: first_at_def)
next
  case (Cons p ps)
  have "rd16 m p = location (blink_at m p)" by (simp add: blink_at_def)
  then show ?case using Cons by (subst find_loop.simps) (simp add: first_at_def)
qed

lemma find_helper_spec: "blinks_ok B ps m \<Longrightarrow> mp1_find_helper B l m = Some (first_at l ps m)"
  by (simp add: mp1_find_helper_def blinks_ok_def find_loop_spec)

text \<open>The structure found is the first of its location.\<close>

lemma first_at_cases:
  assumes "blink_layout B" "blinks_ok B ps m"
  obtains "first_at l ps m = 0" "l \<notin> location ` set (blinkers ps m)"
  | p xs ys where "first_at l ps m = p" "p \<noteq> 0" "ps = xs @ p # ys" "location (blink_at m p) = l" "l \<notin> location ` set (blinkers xs m)"
proof (cases "List.find (\<lambda>p. location (blink_at m p) = l) ps")
  case None
  then have "l \<notin> location ` set (blinkers ps m)" by (auto simp: blinkers_def find_None_iff)
  then show ?thesis using that(1) None by (simp add: first_at_def)
next
  case (Some p)
  then obtain i where i: "i < length ps" "location (blink_at m (ps ! i)) = l" "p = ps ! i" "\<forall>j < i. location (blink_at m (ps ! j)) \<noteq> l"
    by (auto simp: find_Some_iff)
  have "ps = take i ps @ p # drop (Suc i) ps" using i(1,3) by (simp add: id_take_nth_drop)
  moreover have "l \<notin> location ` set (blinkers (take i ps) m)" using i(1,4) by (fastforce simp: blinkers_def in_set_conv_nth)
  moreover have "p \<in> slots B" using i(1,3) assms(2) nth_mem [OF i(1)] by (auto simp: blinks_ok_def)
  then have "p \<noteq> 0" by (rule slots_apart(1) [OF assms(1)])
  ultimately show ?thesis using that(2) [of p "take i ps" "drop (Suc i) ps"] i(2,3) Some by (simp add: first_at_def)
qed

lemma mp1_malloc_spec:
  assumes "blink_layout B" "blinks_ok B ps m"
  shows "if length ps = BLINKS then mp1_malloc B m = 0
    else mp1_malloc B m \<in> slots B - set ps"
proof -
  note o = assms(2) [unfolded blinks_ok_def]
  have card: "card (slots B) = BLINKS" unfolding slots_def using slot_inj by (subst card_image) (auto simp: inj_on_def)
  have used: "rd16 m (blink_slot B i) = 0 \<longleftrightarrow> blink_slot B i \<notin> set ps" if "i < BLINKS" for i
    using o that by (simp add: slots_def) blast
  show ?thesis
  proof (cases "List.find (\<lambda>i. rd16 m (blink_slot B i + LOCATION) = 0) [0..<BLINKS]")
    case None
    then have "slots B \<subseteq> set ps" using used by (auto simp: slots_def find_None_iff)
    then have "set ps = slots B" using o by blast
    then have "length ps = BLINKS" using card o distinct_card [of ps] by simp
    then show ?thesis using None by (simp add: mp1_malloc_def)
  next
    case (Some i)
    then have i: "i < BLINKS" "rd16 m (blink_slot B i) = 0" by (auto simp: find_Some_iff)
    then have "blink_slot B i \<in> slots B - set ps" using used by (auto simp: slots_def)
    moreover have "length ps \<noteq> BLINKS"
    proof
      assume "length ps = BLINKS"
      then have "card (set ps) = card (slots B)" using card o distinct_card [of ps] by simp
      then have "set ps = slots B" using o by (intro card_subset_eq) (simp_all add: slots_def)
      then show False using \<open>blink_slot B i \<in> slots B - set ps\<close> by blast
    qed
    ultimately show ?thesis using Some by (simp add: mp1_malloc_def)
  qed
qed

subsection \<open>Adding a structure\<close>

text \<open>Changes outside the structures and the two pointers.\<close>

lemma blinks_ok_same:
  assumes ok: "blinks_ok B ps m" and c: "changes m m' A" "A \<inter> area (blink_array B) 32000 = {}"
    "A \<inter> area (mp1_list_head B) 4 = {}" "A \<inter> area (vmem_base_addr B) 4 = {}"
  shows "blinks_ok B ps m'" "blinkers ps m' = blinkers ps m"
proof -
  note o = ok [unfolded blinks_ok_def]
  have far: "A \<inter> area p 16 = {}" if "p \<in> slots B" for p using slots_in_array [OF that] c(2) by blast
  have same: "blink_at m' p = blink_at m p" if "p \<in> slots B" for p by (rule blink_at_changes(1) [OF c(1) far [OF that]])
  have l: "rd16 m' (p + LOCATION) = rd16 m (p + LOCATION)" if "p \<in> slots B" for p
    using arg_cong [OF same [OF that], of location] by (simp add: blink_at_def)
  have sub: "p \<in> slots B" if "p \<in> set ps" for p using o that by blast
  have v: "rd32 m' (vmem_base_addr B) = rd32 m (vmem_base_addr B)" "rd32 m' (mp1_list_head B) = rd32 m (mp1_list_head B)"
    by (rule rd32_changes [OF c(1) c(4)] rd32_changes [OF c(1) c(3)])+
  have "blink_path m' x ps = blink_path m x ps" for x by (rule blink_path_changes [OF c(1)]) (rule far [OF sub])
  then show "blinks_ok B ps m'" using o l sub by (simp add: blinks_ok_def v)
  show "blinkers ps m' = blinkers ps m" using same [OF sub] by (simp add: blinkers_def)
qed

lemma blinks_ok_push:
  assumes L: "blink_layout B" and ok: "blinks_ok B ps m" and p: "p \<in> slots B" "p \<notin> set ps"
    and c: "changes m m' (area p 16 \<union> area (mp1_list_head B) 4 \<union> area video_mem_addr 4096)"
    and h: "rd32 m' (mp1_list_head B) = p" "rd32 m' (p + NEXT) = rd32 m (mp1_list_head B)"
    and l: "location (blink_at m' p) \<noteq> 0" "unat (location (blink_at m' p)) < BLINKS"
  shows "blinks_ok B (p # ps) m'" "blinkers (p # ps) m' = blink_at m' p # blinkers ps m"
proof -
  note o = ok [unfolded blinks_ok_def]
  let ?A = "area p 16 \<union> area (mp1_list_head B) 4 \<union> area video_mem_addr 4096"
  have far: "?A \<inter> area q 16 = {}" if "q \<in> slots B" "q \<noteq> p" for q
    using slots_disjoint [OF p(1) that(1)] that(2) slots_apart(2,5) [OF L that(1)] by blast
  have same: "blink_at m' q = blink_at m q" if "q \<in> slots B" "q \<noteq> p" for q by (rule blink_at_changes(1) [OF c far [OF that]])
  have loc: "rd16 m' (q + LOCATION) = rd16 m (q + LOCATION)" if "q \<in> slots B" "q \<noteq> p" for q
    using arg_cong [OF same [OF that], of location] by (simp add: blink_at_def)
  have sub: "q \<in> slots B" "q \<noteq> p" if "q \<in> set ps" for q using o that p(2) by blast+
  have "?A \<inter> area (vmem_base_addr B) 4 = {}" using slots_apart(3) [OF L p(1)] blink_layoutD(6,10) [OF L] by blast
  then have v: "rd32 m' (vmem_base_addr B) = addr_148MB" using rd32_changes [OF c] o by simp
  have "blink_path m' (rd32 m (mp1_list_head B)) ps"
    using blink_path_changes [OF c far [OF sub]] o by blast
  then have path: "blink_path m' (rd32 m' (mp1_list_head B)) (p # ps)" using h slots_apart(1) [OF L p(1)] by simp
  have "rd16 m' (p + LOCATION) \<noteq> 0" "unat (rd16 m' (p + LOCATION)) < BLINKS" using l by (simp_all add: blink_at_def)
  then have "rd16 m' (q + LOCATION) \<noteq> 0 \<longleftrightarrow> q \<in> set (p # ps)" if "q \<in> slots B" for q
    using o loc [OF that] that by (cases "q = p") auto
  moreover have "unat (rd16 m' (q + LOCATION)) < BLINKS" if "q \<in> set (p # ps)" for q
    using that o loc sub \<open>unat (rd16 m' (p + LOCATION)) < BLINKS\<close> by auto
  ultimately show "blinks_ok B (p # ps) m'" using v path o p by (simp add: blinks_ok_def)
  show "blinkers (p # ps) m' = blink_at m' p # blinkers ps m" using same [OF sub] by (simp add: blinkers_def)
qed

definition blink_new :: "blinker \<Rightarrow> blinker" where
  "blink_new b = b\<lparr>status := 1, countdown := on_length b\<rparr>"

text \<open>The part of \<open>add\<close> that fills a free structure and puts it in front.\<close>

definition add_front :: "blink_vars \<Rightarrow> addr \<Rightarrow> mem \<Rightarrow> mem" where
  "add_front B p m = wr32 (wr32 (fish_memcpy m p (blink_stack B) STRUCT_SIZE) (p + NEXT)
     (rd32 (fish_memcpy m p (blink_stack B) STRUCT_SIZE) (mp1_list_head B))) (mp1_list_head B) p"

lemma add_front_spec:
  assumes L: "blink_layout B" and p: "p \<in> slots B"
  shows "blink_at (add_front B p m) p = blink_at m (blink_stack B)" "rd32 (add_front B p m) (mp1_list_head B) = p"
    "rd32 (add_front B p m) (p + NEXT) = rd32 m (mp1_list_head B)"
    "changes m (add_front B p m) (area p 16 \<union> area (mp1_list_head B) 4)"
proof -
  note ap = slots_apart [OF L p]
  define m1 where "m1 = fish_memcpy m p (blink_stack B) STRUCT_SIZE"
  define m2 where "m2 = wr32 m1 (p + NEXT) (rd32 m1 (mp1_list_head B))"
  have e: "add_front B p m = wr32 m2 (mp1_list_head B) p" by (simp add: add_front_def m1_def m2_def)
  note copy = fish_memcpy_spec [where m = m, OF ap(4), folded m1_def [unfolded STRUCT_SIZE_def]]
  have b1: "blink_at m1 p = blink_at m (blink_stack B)" by (rule blink_at_bytes(1)) (rule copy(1), simp_all)
  have c1: "changes m m1 (area p 16)" by (rule copy(2)) simp
  have c2: "changes m1 m2 (area p 16)" unfolding m2_def by (rule changes_next)
  have c3: "changes m2 (add_front B p m) (area (mp1_list_head B) 4)" unfolding e by (rule changes_wr32)
  have far: "area (mp1_list_head B) 4 \<inter> area p 16 = {}" using ap(2) by blast
  have h1: "rd32 m1 (mp1_list_head B) = rd32 m (mp1_list_head B)" by (rule rd32_changes [OF c1 ap(2)])
  have b2: "blink_at m2 p = blink_at m1 p" "rd32 m2 (p + NEXT) = rd32 m1 (mp1_list_head B)"
    unfolding m2_def by (rule blink_at_next)+
  note b3 = blink_at_changes [OF c3 far]
  show "blink_at (add_front B p m) p = blink_at m (blink_stack B)" using b1 b2(1) b3(1) by simp
  show "rd32 (add_front B p m) (mp1_list_head B) = p" unfolding e by (rule rd32_wr32)
  show "rd32 (add_front B p m) (p + NEXT) = rd32 m (mp1_list_head B)" using b2(2) b3(2) h1 by simp
  let ?A = "area p 16 \<union> area (mp1_list_head B) 4"
  have "changes m m1 ?A" "changes m1 m2 ?A" "changes m2 (add_front B p m) ?A"
    by (rule changes_mono [OF c1] changes_mono [OF c2] changes_mono [OF c3]; blast)+
  then show "changes m (add_front B p m) ?A" using changes_trans by blast
qed

text \<open>The temporary structure.\<close>

definition add_temp :: "blink_vars \<Rightarrow> addr \<Rightarrow> mem \<Rightarrow> mem" where
  "add_temp B arg m = (let m = wr16 (fish_memcpy m (blink_stack B) arg STRUCT_SIZE) (blink_stack B + STATUS) 1
     in wr16 m (blink_stack B + COUNTDOWN) (rd16 m (blink_stack B + ON_LENGTH)))"

lemma add_temp_spec:
  assumes arg: "area (blink_stack B) 16 \<inter> area arg 16 = {}"
  shows "blink_at (add_temp B arg m) (blink_stack B) = blink_new (blink_at m arg)"
    "changes m (add_temp B arg m) (area (blink_stack B) 16)"
proof -
  let ?e = "blink_stack B"
  define m1 where "m1 = fish_memcpy m ?e arg STRUCT_SIZE"
  define m2 where "m2 = wr16 m1 (?e + STATUS) 1"
  have e: "add_temp B arg m = wr16 m2 (?e + COUNTDOWN) (rd16 m2 (?e + ON_LENGTH))" by (simp add: add_temp_def m1_def m2_def Let_def)
  note copy = fish_memcpy_spec [where m = m, OF arg, folded m1_def [unfolded STRUCT_SIZE_def]]
  have b1: "blink_at m1 ?e = blink_at m arg" by (rule blink_at_bytes(1)) (rule copy(1), simp_all)
  have b2: "blink_at m2 ?e = (blink_at m arg)\<lparr>status := 1\<rparr>" unfolding m2_def blink_at_wr16 b1 ..
  show "blink_at (add_temp B arg m) ?e = blink_new (blink_at m arg)"
    unfolding e blink_at_wr16 blink_fields b2 by (simp add: blink_new_def)
  have "changes m m1 (area ?e 16)" "changes m1 m2 (area ?e 16)" "changes m2 (add_temp B arg m) (area ?e 16)"
    by (rule copy(2), simp) (unfold e m2_def, (rule changes_fields)+)
  then show "changes m (add_temp B arg m) (area ?e 16)" using changes_trans by blast
qed

lemma mp1_ioctl_add_eq:
  fixes m :: mem
  assumes arg: "area (blink_stack B) 16 \<inter> area arg 16 = {}"
  defines "b \<equiv> blink_at m arg" and "m2 \<equiv> add_temp B arg m"
  shows "mp1_ioctl_add B arg m =
    (if 80 * 25 \<le> location b then (-1, fish_memcpy m (blink_stack B) arg STRUCT_SIZE)
     else if mp1_malloc B m2 = 0 then (-1, m2)
     else let m4 = add_front B (mp1_malloc B m2) m2; c = blink_at m4 (mp1_malloc B m2)
       in (0, mp1_poke B m4 (on_char c) (push_bit 1 (ucast (location c)))))"
proof -
  let ?e = "blink_stack B"
  define m1 where "m1 = fish_memcpy m ?e arg STRUCT_SIZE"
  note copy = fish_memcpy_spec [where m = m, OF arg, folded m1_def [unfolded STRUCT_SIZE_def]]
  have b1: "blink_at m1 ?e = b" unfolding b_def by (rule blink_at_bytes(1)) (rule copy(1), simp_all)
  have l: "rd16 m1 (?e + LOCATION) = location b" unfolding blink_fields b1 ..
  have m2: "m2 = wr16 (wr16 m1 (?e + STATUS) 1) (?e + COUNTDOWN) (rd16 (wr16 m1 (?e + STATUS) 1) (?e + ON_LENGTH))"
    by (simp add: m2_def add_temp_def m1_def Let_def)
  show ?thesis
    unfolding mp1_ioctl_add_def Let_def m1_def [symmetric] l m2 [symmetric] add_front_def [symmetric]
    unfolding blink_fields by simp
qed

lemma add_spec:
  assumes L: "blink_layout B" and ok: "blinks_ok B ps m" and arg: "area (blink_stack B) 16 \<inter> area arg 16 = {}"
  defines "b \<equiv> blink_at m arg" and "m' \<equiv> snd (mp1_ioctl_add B arg m)"
  shows "if 80 * 25 \<le> location b \<or> length ps = BLINKS
    then fst (mp1_ioctl_add B arg m) = -1 \<and> blinks_ok B ps m' \<and> blinkers ps m' = blinkers ps m \<and> shown m' = shown m
    else location b \<noteq> 0 \<longrightarrow> fst (mp1_ioctl_add B arg m) = 0 \<and> (\<exists>p. blinks_ok B (p # ps) m' \<and>
      blinkers (p # ps) m' = blink_new b # blinkers ps m \<and> shown m' = (shown m)[unat (location b) := on_char b])" (is ?S)
    "changes m m' (engine B)"
proof -
  let ?e = "blink_stack B"
  have eng: "area ?e 16 \<subseteq> engine B" "area (mp1_list_head B) 4 \<subseteq> engine B" "area video_mem_addr 4096 \<subseteq> engine B"
    by (auto simp: engine_def)
  note d = blink_layoutD [OF L]
  have far: "area ?e 16 \<inter> area (blink_array B) 32000 = {}" "area ?e 16 \<inter> area (mp1_list_head B) 4 = {}"
    "area ?e 16 \<inter> area (vmem_base_addr B) 4 = {}" "area ?e 16 \<inter> area video_mem_addr 4096 = {}"
    using d(4,7,9,11) by blast+
  have keep: "blinks_ok B ps n \<and> blinkers ps n = blinkers ps m \<and> shown n = shown m" if "changes m n (area ?e 16)" for n
    using blinks_ok_same [OF ok that far(1-3)] shown_changes [OF that far(4)] by blast
  define m1 where "m1 = fish_memcpy m ?e arg STRUCT_SIZE"
  define m2 where "m2 = add_temp B arg m"
  define p where "p = mp1_malloc B m2"
  note t = add_temp_spec [OF arg, of m, folded m2_def b_def]
  have k1: "changes m m1 (area ?e 16)" unfolding m1_def STRUCT_SIZE_def by (rule fish_memcpy_spec(2) [OF arg]) simp
  note k2 = keep [OF t(2)]
  have eq: "mp1_ioctl_add B arg m = (if 80 * 25 \<le> location b then (-1, m1) else if p = 0 then (-1, m2)
     else let m4 = add_front B p m2; c = blink_at m4 p in (0, mp1_poke B m4 (on_char c) (push_bit 1 (ucast (location c)))))"
    unfolding m1_def p_def m2_def b_def by (rule mp1_ioctl_add_eq [OF arg])
  have alloc: "if length ps = BLINKS then p = 0 else p \<in> slots B - set ps"
    unfolding p_def using mp1_malloc_spec [OF L] k2 by blast
  consider "80 * 25 \<le> location b" | "\<not> 80 * 25 \<le> location b" "length ps = BLINKS" | "\<not> 80 * 25 \<le> location b" "length ps \<noteq> BLINKS"
    by blast
  then have "?S \<and> changes m m' (engine B)"
  proof cases
    case 3
    then have p: "p \<in> slots B" "p \<notin> set ps" using alloc by auto
    have p0: "p \<noteq> 0" by (rule slots_apart(1) [OF L p(1)])
    define m4 where "m4 = add_front B p m2"
    note f = add_front_spec [OF L p(1), of m2, folded m4_def]
    have b4: "blink_at m4 p = blink_new b" using f(1) t(1) by simp
    have lb: "location (blink_new b) = location b" "on_char (blink_new b) = on_char b" by (simp_all add: blink_new_def)
    have n: "unat (location b) < BLINKS" using 3(1) by (simp add: word_le_nat_alt BLINKS_def)
    have m': "fst (mp1_ioctl_add B arg m) = 0" "m' = mp1_poke B m4 (on_char b) (push_bit 1 (ucast (location b)))"
      using 3(1) p0 unfolding m'_def eq m4_def [symmetric] b4 Let_def lb by simp_all
    have "(area p 16 \<union> area (mp1_list_head B) 4) \<inter> area (vmem_base_addr B) 4 = {}"
      "(area p 16 \<union> area (mp1_list_head B) 4) \<inter> area video_mem_addr 4096 = {}"
      using slots_apart(3,5) [OF L p(1)] d(6,8) by blast+
    then have v4: "rd32 m4 (vmem_base_addr B) = addr_148MB" "shown m4 = shown m"
      using rd32_changes [OF f(4)] shown_changes [OF f(4)] k2 by (simp_all add: blinks_ok_def)
    note poke = poke_shown [OF v4(1) n, of "on_char b", folded m'(2)]
    have vid: "area video_mem_addr 4096 \<inter> area p 16 = {}" "area video_mem_addr 4096 \<inter> area (mp1_list_head B) 4 = {}"
      using slots_apart(5) [OF L p(1)] d(8) by blast+
    have h: "rd32 m' (mp1_list_head B) = p" "rd32 m' (p + NEXT) = rd32 m2 (mp1_list_head B)" "blink_at m' p = blink_new b"
      using rd32_changes [OF poke(2) vid(2)] blink_at_changes [OF poke(2) vid(1)] f(2,3) b4 by simp_all
    let ?A = "area p 16 \<union> area (mp1_list_head B) 4 \<union> area video_mem_addr 4096"
    have "changes m2 m4 ?A" "changes m4 m' ?A" by (rule changes_mono [OF f(4)] changes_mono [OF poke(2)]; blast)+
    then have c: "changes m2 m' ?A" by (rule changes_trans)
    have "location b \<noteq> 0 \<Longrightarrow> blinks_ok B (p # ps) m'" "location b \<noteq> 0 \<Longrightarrow> blinkers (p # ps) m' = blink_new b # blinkers ps m"
      using blinks_ok_push [OF L _ p c h(1,2)] k2 n by (simp_all add: h(3) lb)
    moreover have "?A \<subseteq> engine B" using eng slots_in_array [OF p(1)] unfolding engine_def by blast
    then have "changes m m' (engine B)" using changes_trans [OF changes_mono [OF t(2) eng(1)] changes_mono [OF c]] by blast
    ultimately show ?thesis using 3 m'(1) poke(1) v4(2) by auto
  next
    case 1
    then show ?thesis using keep [OF k1] changes_mono [OF k1 eng(1)] unfolding m'_def eq by simp
  next
    case 2
    then show ?thesis using k2 alloc changes_mono [OF t(2) eng(1)] unfolding m'_def eq by simp
  qed
  then show ?S "changes m m' (engine B)" by blast+
qed

subsection \<open>Removing a structure\<close>

fun remove_first :: "u16 \<Rightarrow> blinker list \<Rightarrow> blinker list" where
  "remove_first l [] = []"
| "remove_first l (b # bs) = (if location b = l then bs else b # remove_first l bs)"

lemma remove_first_append:
  "l \<notin> location ` set xs \<Longrightarrow> location b = l \<Longrightarrow> remove_first l (xs @ b # ys) = xs @ ys"
  by (induction xs) auto

text \<open>The pointer that leads to a structure behind \<open>xs\<close>.\<close>

definition link_to :: "addr \<Rightarrow> addr list \<Rightarrow> addr" where
  "link_to e xs = (if xs = [] then e else last xs + NEXT)"

lemma find_prev_spec:
  "blink_path m (rd32 m e) (xs @ p # ys) \<Longrightarrow> p \<notin> set xs \<Longrightarrow> remove_find_prev p e m = Some (link_to e xs)"
proof (induction xs arbitrary: e)
  case Nil
  then show ?case by (subst remove_find_prev.simps) (simp add: link_to_def)
next
  case (Cons x xs)
  then have "rd32 m e = x" "x \<noteq> p" "blink_path m (rd32 m (x + NEXT)) (xs @ p # ys)" by auto
  moreover from this Cons have "remove_find_prev p (x + NEXT) m = Some (link_to (x + NEXT) xs)" by simp
  ultimately show ?case by (subst remove_find_prev.simps) (simp add: link_to_def)
qed

lemma path_without:
  assumes "blink_path m x (zs @ q # p # ys)" "rd32 m' (q + NEXT) = rd32 m (p + NEXT)"
    and c: "changes m m' A" "\<And>z. z \<in> set zs \<union> set ys \<Longrightarrow> A \<inter> area z 16 = {}"
  shows "blink_path m' x (zs @ q # ys)"
  using assms(1) c(2)
proof (induction zs arbitrary: x)
  case Nil
  then show ?case using assms(2) blink_path_changes [OF c(1), of ys] by simp
next
  case (Cons z zs)
  then show ?case using blink_at_changes(2) [OF c(1), of z] by simp
qed

definition unlinked :: "blink_vars \<Rightarrow> addr \<Rightarrow> addr \<Rightarrow> mem \<Rightarrow> mem" where
  "unlinked B e p m = mp1_free (wr32 m e (rd32 m (p + NEXT))) p"

lemma mp1_free_spec: "location (blink_at (mp1_free m p) p) = 0" "changes m (mp1_free m p) (area p 16)"
proof -
  have f: "mp1_free m p = filled m p 16 0" by (simp add: mp1_free_def STRUCT_SIZE_def fish_memset_filled)
  show "changes m (mp1_free m p) (area p 16)" by (simp add: f changes_def filled_def area_def)
  have "unat (p + 1 - p) < 16" by simp
  then show "location (blink_at (mp1_free m p) p) = 0" unfolding f by (simp add: blink_at_def rd16_def filled_def)
qed

text \<open>Taking a structure out of the list.\<close>

lemma unlinked_spec:
  assumes L: "blink_layout B" and ok: "blinks_ok B (xs @ p # ys) m"
  defines "m' \<equiv> unlinked B (link_to (mp1_list_head B) xs) p m"
  shows "blinks_ok B (xs @ ys) m'" "blinkers (xs @ ys) m' = blinkers (xs @ ys) m" "shown m' = shown m" "changes m m' (engine B)"
proof -
  note o = ok [unfolded blinks_ok_def]
  define e where "e = link_to (mp1_list_head B) xs"
  define m1 where "m1 = wr32 m e (rd32 m (p + NEXT))"
  have m': "m' = mp1_free m1 p" by (simp add: m'_def unlinked_def e_def m1_def)
  have all: "distinct (xs @ p # ys)" "set (xs @ p # ys) \<subseteq> slots B" using o by blast+
  have ps: "p \<in> slots B" using all(2) by simp
  define E where "E = (if xs = [] then area (mp1_list_head B) 4 else area (last xs) 16)"
  have last: "xs \<noteq> [] \<Longrightarrow> last xs \<in> slots B" "xs \<noteq> [] \<Longrightarrow> last xs \<in> set xs"
    using all(2) last_in_set [of xs] by auto
  have c1: "changes m m1 E"
    using changes_wr32 [of m "mp1_list_head B"] changes_next by (simp add: m1_def e_def link_to_def E_def)
  note fr = mp1_free_spec [of m1 p, folded m']
  have c: "changes m m' (E \<union> area p 16)"
    using changes_trans [OF changes_mono [OF c1] changes_mono [OF fr(2)]] by blast
  have "E \<union> area p 16 \<subseteq> engine B"
    using slots_in_array [OF last(1)] slots_in_array [OF ps] by (auto simp: E_def engine_def)
  then show "changes m m' (engine B)" using changes_mono [OF c] by blast
  note ap = slots_apart [OF L]
  have E_far: "E \<inter> area q 16 = {}" if "q \<in> slots B" "xs \<noteq> [] \<Longrightarrow> q \<noteq> last xs" for q
    using that slots_disjoint [OF last(1) that(1)] ap(2) [OF that(1)] by (auto simp: E_def)
  have far: "(E \<union> area p 16) \<inter> area q 16 = {}" if "q \<in> slots B" "xs \<noteq> [] \<Longrightarrow> q \<noteq> last xs" "q \<noteq> p" for q
    using E_far [OF that(1,2)] slots_disjoint [OF ps that(1)] that(3) by blast
  have E_vars: "E \<inter> area (vmem_base_addr B) 4 = {}" "E \<inter> area video_mem_addr 4096 = {}"
    using ap(3,5) [OF last(1)] blink_layoutD(6,8) [OF L] by (auto simp: E_def)
  have v: "rd32 m' (vmem_base_addr B) = addr_148MB"
    using rd32_changes [OF c] E_vars(1) ap(3) [OF ps] o by (simp add: Int_Un_distrib2)
  show "shown m' = shown m"
    using shown_changes [OF c] E_vars(2) ap(5) [OF ps] by (simp add: Int_Un_distrib2)
  have at: "blink_at m' q = blink_at m q" if "q \<in> slots B" "q \<noteq> p" for q
  proof (cases "xs \<noteq> [] \<and> q = last xs")
    case True
    then have "blink_at m1 q = blink_at m q" by (simp add: m1_def e_def link_to_def blink_at_next)
    then show ?thesis using blink_at_changes(1) [OF fr(2)] slots_disjoint [OF ps that(1)] that(2) by simp
  next
    case False
    then show ?thesis using that by (intro blink_at_changes(1) [OF c] far) auto
  qed
  have sub: "q \<in> slots B" "q \<noteq> p" if "q \<in> set (xs @ ys)" for q using all that by auto
  show "blinkers (xs @ ys) m' = blinkers (xs @ ys) m" using at [OF sub] by (simp add: blinkers_def)
  have path: "blink_path m' (rd32 m' (mp1_list_head B)) (xs @ ys)"
  proof (cases "xs = []")
    case True
    have "rd32 m' (mp1_list_head B) = rd32 m (p + NEXT)"
      using rd32_changes [OF fr(2), of "mp1_list_head B"] ap(2) [OF ps] True
      by (simp add: m1_def e_def link_to_def rd32_wr32)
    moreover have "blink_path m' (rd32 m (p + NEXT)) ys"
      using blink_path_changes [OF c, of ys] far sub True o by simp
    ultimately show ?thesis using True by simp
  next
    case False
    define zs q where "zs = butlast xs" and "q = last xs"
    have xs: "xs = zs @ [q]" using False by (simp add: zs_def q_def)
    have "rd32 m' (mp1_list_head B) = rd32 m (mp1_list_head B)"
      using rd32_changes [OF c, of "mp1_list_head B"] ap(2) [OF ps] ap(2) [OF last(1)] False
      by (simp add: E_def Int_Un_distrib2)
    moreover have "rd32 m' (q + NEXT) = rd32 m (p + NEXT)"
      using blink_at_changes(2) [OF fr(2), of q] slots_disjoint [OF ps, of q] sub [of q] xs
      by (simp add: m1_def e_def link_to_def q_def [symmetric] blink_at_next)
    moreover have "(E \<union> area p 16) \<inter> area z 16 = {}" if "z \<in> set zs \<union> set ys" for z
      using that all(1) sub by (intro far) (auto simp: xs)
    moreover have "blink_path m (rd32 m (mp1_list_head B)) (zs @ q # p # ys)" using o by (simp add: xs)
    ultimately show ?thesis using path_without [OF _ _ c] by (simp add: xs)
  qed
  have loc: "rd16 m' (q + LOCATION) = rd16 m (q + LOCATION)" if "q \<in> slots B" "q \<noteq> p" for q
    using arg_cong [OF at [OF that], of location] by (simp add: blink_at_def)
  have zero: "rd16 m' (p + LOCATION) = 0" using fr(1) by (simp add: blink_at_def)
  have iff: "rd16 m' (q + LOCATION) \<noteq> 0 \<longleftrightarrow> q \<in> set (xs @ ys)" if "q \<in> slots B" for q
    using o loc [OF that] zero that all(1) by (cases "q = p") auto
  have bound: "unat (rd16 m' (q + LOCATION)) < BLINKS" if "q \<in> set (xs @ ys)" for q
    using loc [OF sub [OF that]] o that by auto
  show "blinks_ok B (xs @ ys) m'" using v path iff bound all by (simp add: blinks_ok_def)
qed

lemma remove_spec:
  fixes arg :: u32
  assumes L: "blink_layout B" and ok: "blinks_ok B ps m"
  defines "l \<equiv> ucast arg"
  shows "\<exists>r m' qs. mp1_ioctl_remove B arg m = Some (r, m') \<and> blinks_ok B qs m' \<and> shown m' = shown m \<and>
    r = (if l \<in> location ` set (blinkers ps m) then 0 else -1) \<and> blinkers qs m' = remove_first l (blinkers ps m) \<and>
    changes m m' (engine B)"
proof -
  have f: "mp1_find_helper B l m = Some (first_at l ps m)" by (rule find_helper_spec [OF ok])
  show ?thesis
  proof (rule first_at_cases [OF L ok, of l])
    assume z: "first_at l ps m = 0" "l \<notin> location ` set (blinkers ps m)"
    have "remove_first l bs = bs" if "l \<notin> location ` set bs" for bs using that by (induction bs) auto
    then show ?thesis using z f ok by (intro exI [of _ "-1"] exI [of _ m] exI [of _ ps]) (simp add: mp1_ioctl_remove_def l_def)
  next
    fix p xs ys
    assume p: "first_at l ps m = p" "p \<noteq> 0" "ps = xs @ p # ys" "location (blink_at m p) = l" "l \<notin> location ` set (blinkers xs m)"
    have "blink_path m (rd32 m (mp1_list_head B)) (xs @ p # ys)" "p \<notin> set xs" using ok p(3) by (simp_all add: blinks_ok_def)
    then have prev: "remove_find_prev p (mp1_list_head B) m = Some (link_to (mp1_list_head B) xs)" by (rule find_prev_spec)
    define m' where "m' = unlinked B (link_to (mp1_list_head B) xs) p m"
    note u = unlinked_spec [OF L ok [unfolded p(3)], folded m'_def]
    have "blinkers (xs @ ys) m = remove_first l (blinkers ps m)"
      using remove_first_append [OF p(5,4)] by (simp add: p(3) blinkers_def)
    moreover have "mp1_ioctl_remove B arg m = Some (0, m')"
      using f p(1,2) prev by (simp add: mp1_ioctl_remove_def l_def m'_def unlinked_def)
    moreover have "l \<in> location ` set (blinkers ps m)" using p(3,4) by (auto simp: blinkers_def)
    ultimately show ?thesis using u by auto
  qed
qed

subsection \<open>Copying the timing of another structure\<close>

fun update_first :: "u16 \<Rightarrow> (blinker \<Rightarrow> blinker) \<Rightarrow> blinker list \<Rightarrow> blinker list" where
  "update_first l f [] = []"
| "update_first l f (b # bs) = (if location b = l then f b # bs else b # update_first l f bs)"

lemma update_first_append:
  "l \<notin> location ` set xs \<Longrightarrow> location b = l \<Longrightarrow> update_first l f (xs @ b # ys) = xs @ f b # ys"
  by (induction xs) auto

lemma find_append: "(\<And>x. x \<in> set xs \<Longrightarrow> \<not> P x) \<Longrightarrow> P b \<Longrightarrow> List.find P (xs @ b # ys) = Some b"
  by (induction xs) auto

definition synced :: "blinker \<Rightarrow> blinker \<Rightarrow> blinker" where
  "synced a b = b\<lparr>on_length := on_length a, off_length := off_length a, countdown := countdown a, status := status a\<rparr>"

definition sync_mem :: "addr \<Rightarrow> addr \<Rightarrow> mem \<Rightarrow> mem" where
  "sync_mem p q m = (let m = wr16 m (q + ON_LENGTH) (rd16 m (p + ON_LENGTH));
     m = wr16 m (q + OFF_LENGTH) (rd16 m (p + OFF_LENGTH));
     m = wr16 m (q + COUNTDOWN) (rd16 m (p + COUNTDOWN))
   in wr16 m (q + STATUS) (rd16 m (p + STATUS)))"

lemma sync_mem_spec:
  assumes "p = q \<or> area p 16 \<inter> area q 16 = {}"
  shows "blink_at (sync_mem p q m) q = synced (blink_at m p) (blink_at m q)" "rd32 (sync_mem p q m) (q + NEXT) = rd32 m (q + NEXT)"
    "changes m (sync_mem p q m) (area q 16)"
proof -
  define m1 where "m1 = wr16 m (q + ON_LENGTH) (rd16 m (p + ON_LENGTH))"
  define m2 where "m2 = wr16 m1 (q + OFF_LENGTH) (rd16 m1 (p + OFF_LENGTH))"
  define m3 where "m3 = wr16 m2 (q + COUNTDOWN) (rd16 m2 (p + COUNTDOWN))"
  define m4 where "m4 = wr16 m3 (q + STATUS) (rd16 m3 (p + STATUS))"
  have e: "sync_mem p q m = m4" by (simp add: sync_mem_def m1_def m2_def m3_def m4_def Let_def)
  have c: "changes m m1 (area q 16)" "changes m1 m2 (area q 16)" "changes m2 m3 (area q 16)" "changes m3 m4 (area q 16)"
    unfolding m1_def m2_def m3_def m4_def by (rule changes_fields)+
  have "changes m m2 (area q 16)" "changes m m3 (area q 16)" "changes m m4 (area q 16)" using c changes_trans by blast+
  note cs = c(1) this
  then show "changes m (sync_mem p q m) (area q 16)" by (simp add: e)
  note w = m1_def [unfolded blink_fields] m2_def [unfolded blink_fields] m3_def [unfolded blink_fields] m4_def [unfolded blink_fields]
  have b1: "blink_at m1 q = (blink_at m q)\<lparr>on_length := on_length (blink_at m p)\<rparr>" unfolding w(1) by (rule blink_at_wr16)
  have b2: "blink_at m2 q = (blink_at m1 q)\<lparr>off_length := off_length (blink_at m1 p)\<rparr>" unfolding w(2) by (rule blink_at_wr16)
  have b3: "blink_at m3 q = (blink_at m2 q)\<lparr>countdown := countdown (blink_at m2 p)\<rparr>" unfolding w(3) by (rule blink_at_wr16)
  have b4: "blink_at m4 q = (blink_at m3 q)\<lparr>status := status (blink_at m3 p)\<rparr>" unfolding w(4) by (rule blink_at_wr16)
  have "blink_at m4 q = synced (blink_at m p) (blink_at m q)"
  proof (cases "p = q")
    case True
    then show ?thesis using b1 b2 b3 b4 by (simp add: synced_def)
  next
    case False
    then have far: "area q 16 \<inter> area p 16 = {}" using assms by blast
    have "blink_at m1 p = blink_at m p" "blink_at m2 p = blink_at m p" "blink_at m3 p = blink_at m p"
      using blink_at_changes(1) [OF cs(1) far] blink_at_changes(1) [OF cs(2) far] blink_at_changes(1) [OF cs(3) far] .
    then show ?thesis using b1 b2 b3 b4 by (simp add: synced_def)
  qed
  then show "blink_at (sync_mem p q m) q = synced (blink_at m p) (blink_at m q)" by (simp only: e)
  have "rd32 m4 (q + NEXT) = rd32 m3 (q + NEXT)" "rd32 m3 (q + NEXT) = rd32 m2 (q + NEXT)" "rd32 m2 (q + NEXT) = rd32 m1 (q + NEXT)"
    "rd32 m1 (q + NEXT) = rd32 m (q + NEXT)"
    unfolding w by (rule blink_at_wr16)+
  then show "rd32 (sync_mem p q m) (q + NEXT) = rd32 m (q + NEXT)" by (simp add: e)
qed

text \<open>A structure that keeps its place and its location.\<close>

lemma blinks_ok_update:
  assumes L: "blink_layout B" and ok: "blinks_ok B (xs @ q # ys) m"
    and c: "changes m m' (area q 16 \<union> area video_mem_addr 4096)"
    and q: "location (blink_at m' q) = location (blink_at m q)" "rd32 m' (q + NEXT) = rd32 m (q + NEXT)"
  shows "blinks_ok B (xs @ q # ys) m'" "blinkers (xs @ q # ys) m' = blinkers xs m @ blink_at m' q # blinkers ys m"
proof -
  note o = ok [unfolded blinks_ok_def]
  let ?A = "area q 16 \<union> area video_mem_addr 4096"
  have all: "distinct (xs @ q # ys)" "set (xs @ q # ys) \<subseteq> slots B" using o by blast+
  have qs: "q \<in> slots B" using all(2) by simp
  note ap = slots_apart [OF L]
  have far: "?A \<inter> area p 16 = {}" if "p \<in> slots B" "p \<noteq> q" for p
    using slots_disjoint [OF qs that(1)] that(2) ap(5) [OF that(1)] by blast
  have at: "blink_at m' p = blink_at m p" if "p \<in> slots B" "p \<noteq> q" for p by (rule blink_at_changes(1) [OF c far [OF that]])
  have nx: "rd32 m' (p + NEXT) = rd32 m (p + NEXT)" if "p \<in> slots B" for p
    using blink_at_changes(2) [OF c far [OF that]] q(2) by (cases "p = q") simp_all
  have loc: "rd16 m' (p + LOCATION) = rd16 m (p + LOCATION)" if "p \<in> slots B" for p
    using at [OF that] q(1) by (cases "p = q") (auto simp: blink_at_def)
  have "?A \<inter> area (vmem_base_addr B) 4 = {}" "?A \<inter> area (mp1_list_head B) 4 = {}"
    using ap(2,3) [OF qs] blink_layoutD(8,10) [OF L] by blast+
  then have v: "rd32 m' (vmem_base_addr B) = addr_148MB" "rd32 m' (mp1_list_head B) = rd32 m (mp1_list_head B)"
    using rd32_changes [OF c] o by simp_all
  have path: "blink_path m' x ps = blink_path m x ps" if "set ps \<subseteq> slots B" for x ps
    using that by (induction ps arbitrary: x) (simp_all add: nx)
  have bound: "unat (rd16 m' (p + LOCATION)) < BLINKS" if "p \<in> set (xs @ q # ys)" for p
  proof -
    have "p \<in> slots B" using all(2) that by blast
    moreover have "unat (rd16 m (p + LOCATION)) < BLINKS" using o that by blast
    ultimately show ?thesis using loc by simp
  qed
  show "blinks_ok B (xs @ q # ys) m'"
    unfolding blinks_ok_def v path [OF all(2)] using o loc bound by simp
  have "p \<in> slots B" "p \<noteq> q" if "p \<in> set xs \<union> set ys" for p using all that by auto
  then show "blinkers (xs @ q # ys) m' = blinkers xs m @ blink_at m' q # blinkers ys m"
    using at by (simp add: blinkers_def)
qed

definition blink_sync :: "u16 \<Rightarrow> u16 \<Rightarrow> blinker list \<Rightarrow> u8 list \<Rightarrow> int \<times> blinker list \<times> u8 list" where
  "blink_sync h l bs scr = (case (List.find (\<lambda>b. location b = h) bs, List.find (\<lambda>b. location b = l) bs) of
     (Some a, Some b) \<Rightarrow> (0, update_first l (synced a) bs, scr[unat l := off_char b])
   | _ \<Rightarrow> (-1, bs, scr))"

lemma sync_char_off: "sync_char m p = off_char (blink_at m p)"
proof -
  have "\<not> bit (x AND 1) 7" for x :: u8 by (simp add: bit_simps)
  then show ?thesis by (simp add: sync_char_def blink_at_def)
qed

lemma first_at_found:
  assumes L: "blink_layout B" and ok: "blinks_ok B ps m"
  shows "case List.find (\<lambda>b. location b = l) (blinkers ps m) of None \<Rightarrow> first_at l ps m = 0
    | Some b \<Rightarrow> first_at l ps m \<noteq> 0 \<and> blink_at m (first_at l ps m) = b \<and> location b = l \<and>
        (\<exists>xs ys. ps = xs @ first_at l ps m # ys \<and> l \<notin> location ` set (blinkers xs m))"
proof (rule first_at_cases [OF L ok, of l])
  assume "first_at l ps m = 0" "l \<notin> location ` set (blinkers ps m)"
  moreover from this have "List.find (\<lambda>b. location b = l) (blinkers ps m) = None" by (auto simp: find_None_iff)
  ultimately show ?thesis by simp
next
  fix p xs ys
  assume p: "first_at l ps m = p" "p \<noteq> 0" "ps = xs @ p # ys" "location (blink_at m p) = l" "l \<notin> location ` set (blinkers xs m)"
  have "\<And>x. x \<in> set (blinkers xs m) \<Longrightarrow> location x \<noteq> l" using p(5) by auto
  then have "List.find (\<lambda>b. location b = l) (blinkers xs m @ blink_at m p # blinkers ys m) = Some (blink_at m p)"
    using p(4) by (rule find_append)
  then have "List.find (\<lambda>b. location b = l) (blinkers ps m) = Some (blink_at m p)" by (simp add: p(3) blinkers_def)
  then show ?thesis using p by auto
qed

lemma mp1_ioctl_sync_found:
  assumes "mp1_find_helper B (ucast (drop_bit 16 arg)) m = Some p" "mp1_find_helper B (ucast (arg AND 0xFFFF)) m = Some q" "p \<noteq> 0" "q \<noteq> 0"
  defines "m1 \<equiv> sync_mem p q m"
  shows "mp1_ioctl_sync B arg m = Some (0, mp1_poke B m1 (off_char (blink_at m1 q)) (push_bit 1 (ucast (location (blink_at m1 q)))))"
proof -
  have "mp1_ioctl_sync B arg m = Some (0, mp1_poke B m1 (sync_char m1 q) (push_bit 1 (ucast (rd16 m1 (q + LOCATION)))))"
    unfolding mp1_ioctl_sync_def assms(1,2) Option.bind.simps m1_def sync_mem_def Let_def using assms(3,4) by (simp only: if_False refl)
  then show ?thesis by (simp only: sync_char_off blink_fields)
qed

lemma sync_spec:
  fixes h l :: u16
  assumes L: "blink_layout B" and ok: "blinks_ok B ps m"
  shows "\<exists>r m' qs. mp1_ioctl_sync B (push_bit 16 (ucast h) OR ucast l) m = Some (r, m') \<and> blinks_ok B qs m' \<and>
    blink_sync h l (blinkers ps m) (shown m) = (r, blinkers qs m', shown m') \<and> changes m m' (engine B)"
proof -
  have "(0xFFFF :: u32) = mask 16" by (simp add: mask_eq_exp_minus_1)
  define arg :: u32 where "arg = push_bit 16 (ucast h) OR ucast l"
  have a: "ucast (drop_bit 16 arg) = h" "ucast (arg AND 0xFFFF) = l"
    unfolding \<open>(0xFFFF :: u32) = mask 16\<close> arg_def by (rule bit_word_eqI; auto simp: bit_simps dest: bit_imp_le_length)+
  note fh = find_helper_spec [OF ok, of h] first_at_found [OF L ok, of h]
    and fl = find_helper_spec [OF ok, of l] first_at_found [OF L ok, of l]
  define p where "p = first_at h ps m"
  define q where "q = first_at l ps m"
  show ?thesis
    unfolding arg_def [symmetric]
  proof (cases "List.find (\<lambda>b. location b = h) (blinkers ps m) = None \<or> List.find (\<lambda>b. location b = l) (blinkers ps m) = None")
    case True
    then have "mp1_ioctl_sync B arg m = Some (-1, m)"
      using fh fl by (auto simp: mp1_ioctl_sync_def a split: option.splits)
    moreover have "blink_sync h l (blinkers ps m) (shown m) = (-1, blinkers ps m, shown m)"
      using True by (auto simp: blink_sync_def split: option.splits)
    ultimately show "\<exists>r m' qs. mp1_ioctl_sync B arg m = Some (r, m') \<and> blinks_ok B qs m' \<and>
        blink_sync h l (blinkers ps m) (shown m) = (r, blinkers qs m', shown m') \<and> changes m m' (engine B)"
      using ok changes_refl by blast
  next
    case False
    then obtain b c where bc: "List.find (\<lambda>b. location b = h) (blinkers ps m) = Some b" "List.find (\<lambda>b. location b = l) (blinkers ps m) = Some c"
      by auto
    have "q \<noteq> 0 \<and> blink_at m q = c \<and> location c = l \<and> (\<exists>xs ys. ps = xs @ q # ys \<and> l \<notin> location ` set (blinkers xs m))"
      using fl(2) unfolding bc q_def by simp
    then obtain xs ys where q: "q \<noteq> 0" "blink_at m q = c" "location c = l" "ps = xs @ q # ys" "l \<notin> location ` set (blinkers xs m)"
      by blast
    have "p \<noteq> 0 \<and> blink_at m p = b \<and> (\<exists>xs ys. ps = xs @ p # ys)" using fh(2) unfolding bc p_def by auto
    then have p: "p \<noteq> 0" "blink_at m p = b" "p \<in> set ps" by (blast, blast, metis in_set_conv_decomp)
    have sl: "p \<in> slots B" "q \<in> slots B" "unat l < BLINKS" using ok p(3) q(2,3,4) by (auto simp: blinks_ok_def blink_at_def)
    define m1 where "m1 = sync_mem p q m"
    have "p = q \<or> area p 16 \<inter> area q 16 = {}" using slots_disjoint [OF sl(1,2)] by blast
    note s = sync_mem_spec [OF this, of m, folded m1_def]
    define m' where "m' = mp1_poke B m1 (off_char c) (push_bit 1 (ucast l))"
    have b1: "blink_at m1 q = synced b c" using s(1) p(2) q(2) by simp
    then have c1: "location (blink_at m1 q) = l" "off_char (blink_at m1 q) = off_char c" using q(3) by (simp_all add: synced_def)
    have "mp1_find_helper B (ucast (drop_bit 16 arg)) m = Some p" "mp1_find_helper B (ucast (arg AND 0xFFFF)) m = Some q"
      using fh(1) fl(1) unfolding a p_def q_def by simp_all
    from mp1_ioctl_sync_found [OF this p(1) q(1), folded m1_def]
    have call: "mp1_ioctl_sync B arg m = Some (0, m')" by (simp only: m'_def c1)
    have v1: "rd32 m1 (vmem_base_addr B) = addr_148MB" "shown m1 = shown m"
      using rd32_changes [OF s(3) slots_apart(3) [OF L sl(2)]] shown_changes [OF s(3) slots_apart(5) [OF L sl(2)]] ok
      by (simp_all add: blinks_ok_def)
    note poke = poke_shown [OF v1(1) sl(3), of "off_char c", folded m'_def]
    have vid: "area video_mem_addr 4096 \<inter> area q 16 = {}" using slots_apart(5) [OF L sl(2)] by blast
    note b2 = blink_at_changes [OF poke(2) vid]
    let ?A = "area q 16 \<union> area video_mem_addr 4096"
    have "changes m m1 ?A" "changes m1 m' ?A" by (rule changes_mono [OF s(3)] changes_mono [OF poke(2)]; blast)+
    then have c: "changes m m' ?A" by (rule changes_trans)
    have eng: "?A \<subseteq> engine B" using slots_in_array [OF sl(2)] by (auto simp: engine_def)
    have "location (blink_at m' q) = location (blink_at m q)" "rd32 m' (q + NEXT) = rd32 m (q + NEXT)"
      using b2 c1 s(2) q(2,3) by simp_all
    note u = blinks_ok_update [OF L ok [unfolded q(4)] c this, folded q(4)]
    have "update_first l (synced b) (blinkers ps m) = blinkers ps m'"
      using update_first_append [OF q(5), of c "synced b" "blinkers ys m"] q(2,3) b1 b2 u(2) by (simp add: q(4) blinkers_def)
    then have "blink_sync h l (blinkers ps m) (shown m) = (0, blinkers ps m', shown m')"
      using bc poke(1) v1(2) by (simp add: blink_sync_def)
    then show "\<exists>r m' qs. mp1_ioctl_sync B arg m = Some (r, m') \<and> blinks_ok B qs m' \<and>
        blink_sync h l (blinkers ps m) (shown m) = (r, blinkers qs m', shown m') \<and> changes m m' (engine B)"
      using call u(1) changes_mono [OF c] eng by blast
  qed
qed

subsection \<open>Looking a structure up\<close>

text \<open>The caller's structure is apart from the data of the engine.\<close>

definition arg_apart :: "blink_vars \<Rightarrow> addr \<Rightarrow> bool" where
  "arg_apart B arg \<longleftrightarrow> (\<forall>(a, n) \<in> set (tl (blink_areas B)). area arg 16 \<inter> area a n = {})"

lemma arg_apartD:
  assumes "arg_apart B arg"
  shows "area arg 16 \<inter> area (blink_array B) 32000 = {}" "area arg 16 \<inter> area (mp1_list_head B) 4 = {}"
    "area arg 16 \<inter> area (vmem_base_addr B) 4 = {}" "area arg 16 \<inter> area (blink_stack B) 16 = {}"
    "area arg 16 \<inter> area video_mem_addr 4096 = {}" "area (blink_stack B) 16 \<inter> area arg 16 = {}"
  using assms by (auto simp: arg_apart_def blink_areas_def STRUCT_SIZE_def BLINKS_def)

lemma find_spec:
  assumes L: "blink_layout B" and ok: "blinks_ok B ps m" and arg: "arg_apart B arg" and l: "rd16 m arg = l"
  shows "\<exists>r m'. mp1_ioctl_find B arg m = Some (r, m') \<and> blinks_ok B ps m' \<and> blinkers ps m' = blinkers ps m \<and> shown m' = shown m \<and>
    changes m m' (engine B \<union> area arg 16) \<and> (case List.find (\<lambda>b. location b = l) (blinkers ps m) of None \<Rightarrow> r = -1 | Some b \<Rightarrow> r = 0 \<and> blink_at m' arg = b)"
proof -
  let ?e = "blink_stack B + of_nat 14"
  note d = blink_layoutD [OF L] and ad = arg_apartD [OF arg]
  have sub: "area ?e 2 \<subseteq> area (blink_stack B) 16" "area arg 2 \<subseteq> area arg 16"
    using area_sub [of 14 2 16 "blink_stack B"] area_sub [of 0 2 16 arg] by simp_all
  define m1 where "m1 = fish_memcpy m ?e arg 2"
  have dis: "area ?e 2 \<inter> area arg 2 = {}" using sub ad(6) by blast
  note copy = fish_memcpy_spec [where m = m, OF dis, folded m1_def]
  have c1: "changes m m1 (area (blink_stack B) 16)" using changes_mono [OF copy(2) sub(1)] by simp
  have far: "area (blink_stack B) 16 \<inter> area (blink_array B) 32000 = {}" "area (blink_stack B) 16 \<inter> area (mp1_list_head B) 4 = {}"
    "area (blink_stack B) 16 \<inter> area (vmem_base_addr B) 4 = {}" "area (blink_stack B) 16 \<inter> area video_mem_addr 4096 = {}"
    using d(4,7,9,11) by blast+
  note k1 = blinks_ok_same [OF ok c1 far(1-3)] shown_changes [OF c1 far(4)]
  have "rd16 m1 ?e = rd16 m arg" using copy(1) [of 0] copy(1) [of 1] by (simp add: rd16_def)
  then have l1: "rd16 m1 (blink_stack B + 14) = l" using l by simp
  have m1: "fish_memcpy m (blink_stack B + 14) arg 2 = m1" by (simp add: m1_def)
  have e1: "changes m m1 (engine B \<union> area arg 16)" by (rule changes_engine [OF c1]) (auto simp: engine_def)
  have fh: "mp1_find_helper B l m1 = Some (first_at l ps m1)" by (rule find_helper_spec [OF k1(1)])
  note ff = first_at_found [OF L k1(1), of l]
  show ?thesis
  proof (cases "List.find (\<lambda>b. location b = l) (blinkers ps m)")
    case None
    then have "mp1_ioctl_find B arg m = Some (-1, m1)"
      using fh ff by (simp add: mp1_ioctl_find_def m1 l1 Let_def k1(2))
    then show ?thesis using k1 None e1 by auto
  next
    case (Some b)
    define p where "p = first_at l ps m1"
    have p: "p \<noteq> 0" "blink_at m1 p = b" "p \<in> slots B"
    proof -
      have "p \<noteq> 0 \<and> blink_at m1 p = b \<and> (\<exists>xs ys. ps = xs @ p # ys)" using ff Some unfolding k1(2) p_def by auto
      then show "p \<noteq> 0" "blink_at m1 p = b" "p \<in> slots B" using ok by (auto simp: blinks_ok_def)
    qed
    define m2 where "m2 = fish_memcpy m1 arg p STRUCT_SIZE"
    have "area arg 16 \<inter> area p 16 = {}" using ad(1) slots_in_array [OF p(3)] by blast
    note copy2 = fish_memcpy_spec [where m = m1, OF this, folded m2_def [unfolded STRUCT_SIZE_def]]
    have "blink_at m2 arg = blink_at m1 p" by (rule blink_at_bytes(1)) (rule copy2(1), simp_all)
    moreover have c2: "changes m1 m2 (area arg 16)" by (rule copy2(2)) simp
    moreover have "mp1_ioctl_find B arg m = Some (0, m2)"
      using fh p(1) by (simp add: mp1_ioctl_find_def m1 l1 Let_def p_def [symmetric] m2_def)
    ultimately show ?thesis
      using blinks_ok_same [OF k1(1) c2 ad(1-3)] shown_changes [OF c2 ad(5)] k1(2,3) p(2) Some
        changes_trans [OF e1 changes_mono [OF c2]] by auto
  qed
qed

subsection \<open>The engine as a list of blinkers\<close>

datatype blink_op = Add blinker | Remove u16 | Find u16 | Sync u16 u16 | Tick

text \<open>The fields a caller sets.\<close>

definition put_blinker :: "mem \<Rightarrow> addr \<Rightarrow> blinker \<Rightarrow> mem" where
  "put_blinker m a b = wr16 (wr16 ((wr16 m (a + LOCATION) (location b))(a + ON_CHAR := on_char b, a + OFF_CHAR := off_char b))
     (a + ON_LENGTH) (on_length b)) (a + OFF_LENGTH) (off_length b)"

fun run_blink :: "blink_vars \<Rightarrow> addr \<Rightarrow> blink_op \<Rightarrow> mem \<Rightarrow> (int \<times> mem) option" where
  "run_blink B arg (Add b) m = mp1_ioctl B arg 0 (put_blinker m arg b)"
| "run_blink B arg (Remove l) m = mp1_ioctl B (ucast l) 1 m"
| "run_blink B arg (Find l) m = mp1_ioctl B arg 2 (wr16 m arg l)"
| "run_blink B arg (Sync h l) m = mp1_ioctl B (push_bit 16 (ucast h) OR ucast l) 3 m"
| "run_blink B arg Tick m = map_option (\<lambda>m. (0, m)) (mp1_rtc_tasklet B m)"

fun spec_blink :: "blink_op \<Rightarrow> blinker list \<times> u8 list \<Rightarrow> int \<times> blinker list \<times> u8 list" where
  "spec_blink (Add b) (bs, scr) = (if 2000 \<le> location b \<or> length bs = BLINKS then (-1, bs, scr)
     else (0, blink_new b # bs, scr[unat (location b) := on_char b]))"
| "spec_blink (Remove l) (bs, scr) = (if l \<in> location ` set bs then 0 else -1, remove_first l bs, scr)"
| "spec_blink (Find l) (bs, scr) = (if l \<in> location ` set bs then 0 else -1, bs, scr)"
| "spec_blink (Sync h l) (bs, scr) = blink_sync h l bs scr"
| "spec_blink Tick (bs, scr) = (0, map blink_next bs, fold blink_show bs scr)"

fun proper_op :: "blink_op \<Rightarrow> bool" where
  "proper_op (Add b) \<longleftrightarrow> location b \<noteq> 0"
| "proper_op _ \<longleftrightarrow> True"

lemma put_blinker_spec:
  "blink_new (blink_at (put_blinker m a b) a) = blink_new b" "changes m (put_blinker m a b) (area a 16)"
proof -
  define m1 where "m1 = (wr16 m (a + LOCATION) (location b))(a + ON_CHAR := on_char b, a + OFF_CHAR := off_char b)"
  define m2 where "m2 = wr16 m1 (a + ON_LENGTH) (on_length b)"
  have e: "put_blinker m a b = wr16 m2 (a + OFF_LENGTH) (off_length b)" by (simp add: put_blinker_def m1_def m2_def)
  have "rd16 m1 (a + LOCATION) = location b"
    using rd16_wr16 [of m a "location b"] by (simp add: m1_def rd16_def)
  then have b1: "location (blink_at m1 a) = location b" "on_char (blink_at m1 a) = on_char b" "off_char (blink_at m1 a) = off_char b"
    by (simp_all add: blink_at_def m1_def)
  have "blink_at (put_blinker m a b) a = (blink_at m1 a)\<lparr>on_length := on_length b, off_length := off_length b\<rparr>"
    unfolding e m2_def blink_at_wr16 by simp
  then show "blink_new (blink_at (put_blinker m a b) a) = blink_new b" using b1 by (simp add: blink_new_def)
  have "changes m m1 (area a 16)" by (auto simp: m1_def changes_def wr16_def area_def)
  moreover have "changes m1 m2 (area a 16)" "changes m2 (put_blinker m a b) (area a 16)" unfolding e m2_def by (rule changes_fields)+
  ultimately show "changes m (put_blinker m a b) (area a 16)" using changes_trans by blast
qed

lemma run_blink_refines:
  assumes L: "blink_layout B" and ok: "blinks_ok B ps m" and arg: "arg_apart B arg" and op: "proper_op op"
  shows "\<exists>r m' qs. run_blink B arg op m = Some (r, m') \<and> blinks_ok B qs m' \<and>
    spec_blink op (blinkers ps m, shown m) = (r, blinkers qs m', shown m') \<and>
    changes m m' (engine B \<union> area arg 16)"
proof -
  note ad = arg_apartD [OF arg]
  have keep: "blinks_ok B ps n" "blinkers ps n = blinkers ps m" "shown n = shown m" if "changes m n (area arg 16)" for n
    using blinks_ok_same [OF ok that ad(1-3)] shown_changes [OF that ad(5)] by simp_all
  show ?thesis
  proof (cases op)
    case (Add b)
    define m1 where "m1 = put_blinker m arg b"
    note pb = put_blinker_spec [of m arg b, folded m1_def]
    note k = keep [OF pb(2)]
    have "location (blink_new (blink_at m1 arg)) = location (blink_new b)" "on_char (blink_new (blink_at m1 arg)) = on_char (blink_new b)"
      using pb(1) by simp_all
    then have f: "location (blink_at m1 arg) = location b" "on_char (blink_at m1 arg) = on_char b" by (simp_all add: blink_new_def)
    have len: "length (blinkers ps m) = length ps" by (simp add: blinkers_def)
    note a = add_spec(1) [OF L k(1) ad(6), unfolded f pb(1) k(2,3)]
    have c: "changes m (snd (mp1_ioctl_add B arg m1)) (engine B \<union> area arg 16)"
      using changes_trans [OF changes_mono [OF pb(2)] changes_mono [OF add_spec(2) [OF L k(1) ad(6)]]] by blast
    have e: "run_blink B arg op m = Some (fst (mp1_ioctl_add B arg m1), snd (mp1_ioctl_add B arg m1))"
      by (simp add: Add mp1_ioctl_def m1_def)
    show ?thesis
    proof (cases "80 * 25 \<le> location b \<or> length ps = BLINKS")
      case True
      then show ?thesis using a e c by (intro exI [of _ "-1"] exI [of _ "snd (mp1_ioctl_add B arg m1)"] exI [of _ ps]) (auto simp: Add len)
    next
      case False
      then obtain p where "fst (mp1_ioctl_add B arg m1) = 0" "blinks_ok B (p # ps) (snd (mp1_ioctl_add B arg m1))"
        "blinkers (p # ps) (snd (mp1_ioctl_add B arg m1)) = blink_new b # blinkers ps m"
        "shown (snd (mp1_ioctl_add B arg m1)) = (shown m)[unat (location b) := on_char b]"
        using a op by (auto simp: Add)
      then show ?thesis using e c False
        by (intro exI [of _ 0] exI [of _ "snd (mp1_ioctl_add B arg m1)"] exI [of _ "p # ps"]) (simp add: Add len)
    qed
  next
    case (Remove l)
    have "(ucast (ucast l :: u32) :: u16) = l" by (rule bit_word_eqI) (auto simp: bit_simps dest: bit_imp_le_length)
    then obtain r m' qs where "mp1_ioctl_remove B (ucast l) m = Some (r, m')" "blinks_ok B qs m'" "shown m' = shown m"
      "r = (if l \<in> location ` set (blinkers ps m) then 0 else -1)" "blinkers qs m' = remove_first l (blinkers ps m)"
      "changes m m' (engine B)"
      using remove_spec [OF L ok, of "ucast l"] by metis
    then show ?thesis by (intro exI [of _ r] exI [of _ m'] exI [of _ qs]) (simp add: Remove mp1_ioctl_def changes_engine)
  next
    case (Find l)
    define m1 where "m1 = wr16 m arg l"
    have "area (arg + of_nat 0) 2 \<subseteq> area arg 16" by (rule area_sub) simp_all
    then have "changes m m1 (area arg 16)" using changes_mono [OF changes_wr16 [of m arg l]] by (simp add: m1_def)
    note c1 = this and k = keep [OF this]
    have "rd16 m1 arg = l" by (simp add: m1_def rd16_wr16)
    from find_spec [OF L k(1) arg this]
    obtain r m' where r: "mp1_ioctl_find B arg m1 = Some (r, m')" "blinks_ok B ps m'" "blinkers ps m' = blinkers ps m" "shown m' = shown m"
      "case List.find (\<lambda>b. location b = l) (blinkers ps m) of None \<Rightarrow> r = -1 | Some b \<Rightarrow> r = 0 \<and> blink_at m' arg = b"
      "changes m1 m' (engine B \<union> area arg 16)"
      using k by auto
    have c: "changes m m' (engine B \<union> area arg 16)" using changes_trans [OF changes_mono [OF c1] r(6)] by blast
    have "r = (if l \<in> location ` set (blinkers ps m) then 0 else -1)"
      using r(5) by (auto simp: find_None_iff find_Some_iff split: option.splits)
    then show ?thesis using r(1-4) c by (intro exI [of _ r] exI [of _ m'] exI [of _ ps]) (simp add: Find mp1_ioctl_def m1_def)
  next
    case (Sync h l)
    then show ?thesis using sync_spec [OF L ok, of h l] changes_engine [of m _ "engine B" B] by (simp add: mp1_ioctl_def) blast
  next
    case Tick
    obtain m' where "mp1_rtc_tasklet B m = Some m'" "blinks_ok B ps m'" "blinkers ps m' = map blink_next (blinkers ps m)"
      "shown m' = fold blink_show (blinkers ps m) (shown m)" "changes m m' (engine B)"
      using tasklet_spec [OF L ok] by blast
    then show ?thesis by (intro exI [of _ 0] exI [of _ m'] exI [of _ ps]) (simp add: Tick changes_engine)
  qed
qed

subsection \<open>Sequences of operations\<close>

fun run_blinks :: "blink_vars \<Rightarrow> addr \<Rightarrow> blink_op list \<Rightarrow> mem \<Rightarrow> (int list \<times> mem) option" where
  "run_blinks B arg [] m = Some ([], m)"
| "run_blinks B arg (op # ops) m = do {
     (r, m) \<leftarrow> run_blink B arg op m;
     (rs, m) \<leftarrow> run_blinks B arg ops m;
     Some (r # rs, m)
   }"

fun spec_blinks :: "blink_op list \<Rightarrow> blinker list \<times> u8 list \<Rightarrow> int list \<times> blinker list \<times> u8 list" where
  "spec_blinks [] s = ([], s)"
| "spec_blinks (op # ops) s = (let (r, s) = spec_blink op s; (rs, s) = spec_blinks ops s in (r # rs, s))"

lemma run_blinks_refine:
  assumes "blink_layout B" "arg_apart B arg" "list_all proper_op ops" "blinks_ok B ps m"
  shows "\<exists>rs m' qs. run_blinks B arg ops m = Some (rs, m') \<and> blinks_ok B qs m' \<and>
    spec_blinks ops (blinkers ps m, shown m) = (rs, blinkers qs m', shown m')"
  using assms(3,4)
proof (induction ops arbitrary: ps m)
  case (Cons op ops)
  obtain r m1 qs where 1: "run_blink B arg op m = Some (r, m1)" "blinks_ok B qs m1"
    "spec_blink op (blinkers ps m, shown m) = (r, blinkers qs m1, shown m1)"
    using run_blink_refines [OF assms(1) Cons.prems(2) assms(2), of op] Cons.prems(1) by auto
  obtain rs m2 qs' where "run_blinks B arg ops m1 = Some (rs, m2)" "blinks_ok B qs' m2"
    "spec_blinks ops (blinkers qs m1, shown m1) = (rs, blinkers qs' m2, shown m2)"
    using Cons.IH [OF _ 1(2)] Cons.prems(1) by auto
  then show ?case using 1 by (intro exI [of _ "r # rs"] exI [of _ m2] exI [of _ qs']) simp
qed auto

text \<open>The state in which \<open>main\<close> starts: the array cleared, the list empty, the page mapped.\<close>

definition blink_start :: "blink_vars \<Rightarrow> mem \<Rightarrow> mem" where
  "blink_start B m = fish_memset m (blink_array B) 0 (STRUCT_SIZE * 80 * 25)"

lemma blink_start_clears:
  "changes m (blink_start B m) (area (blink_array B) 32000)" "p \<in> slots B \<Longrightarrow> rd16 (blink_start B m) (p + LOCATION) = 0"
proof -
  let ?A = "area (blink_array B) 32000"
  have f: "blink_start B m = filled m (blink_array B) 32000 0"
    by (simp add: blink_start_def STRUCT_SIZE_def fish_memset_filled)
  show "changes m (blink_start B m) ?A" by (simp add: f changes_def filled_def area_def)
  assume p: "p \<in> slots B"
  have "p + of_nat j \<in> ?A" if "j < 16" for j
    using slots_in_array [OF p] area_offset [OF that, of p] by auto
  from this [of 0] this [of 1] show "rd16 (blink_start B m) (p + LOCATION) = 0" by (simp add: f rd16_def filled_def area_def)
qed

lemma blink_start_ok:
  assumes L: "blink_layout B" and m: "rd32 m (mp1_list_head B) = 0" "rd32 m (vmem_base_addr B) = addr_148MB"
  shows "blinks_ok B [] (blink_start B m)" "shown (blink_start B m) = shown m"
proof -
  note d = blink_layoutD [OF L] and c = blink_start_clears [where m = m and B = B]
  have v: "rd32 (blink_start B m) (mp1_list_head B) = 0" "rd32 (blink_start B m) (vmem_base_addr B) = addr_148MB"
    using rd32_changes [OF c(1)] d(2,3) m by simp_all
  show "shown (blink_start B m) = shown m" by (rule shown_changes [OF c(1) d(5)])
  show "blinks_ok B [] (blink_start B m)" using v c(2) by (simp add: blinks_ok_def)
qed

text \<open>C11: The blink engine is a list of blinkers. Started with a cleared array, every sequence of
  additions, removals, look-ups, synchronisations and ticks of the clock (adding only at
  locations other than 0) returns, with the results of the same operations on an abstract list
  of blinkers and the abstract text screen: additions go to the front and are refused off the
  screen and when all 2000 structures are in use, the first blinker of a location is the one
  removed, found or synchronised, and a tick lets every blinker count down and shows the
  characters of those that are due. The structures in memory stay a well-formed list.\<close>
theorem blink_engine_refines:
  assumes "blink_layout B" "arg_apart B arg" "rd32 m (mp1_list_head B) = 0" "rd32 m (vmem_base_addr B) = addr_148MB"
    and "list_all proper_op ops"
  shows "\<exists>rs m' ps. run_blinks B arg ops (blink_start B m) = Some (rs, m') \<and> blinks_ok B ps m' \<and>
    spec_blinks ops ([], shown m) = (rs, blinkers ps m', shown m')"
  using run_blinks_refine [OF assms(1,2,5) blink_start_ok(1) [OF assms(1,3,4)]] blink_start_ok(2) [OF assms(1,3,4)]
  by (simp add: blinkers_def)

subsection \<open>Location 0\<close>

lemma malloc_cong:
  assumes "\<And>p. p \<in> slots B \<Longrightarrow> rd16 m' p = rd16 m p"
  shows "mp1_malloc B m' = mp1_malloc B m"
proof -
  have "List.find (\<lambda>i. rd16 m' (blink_slot B i + LOCATION) = 0) [0..<BLINKS] = List.find (\<lambda>i. rd16 m (blink_slot B i + LOCATION) = 0) [0..<BLINKS]"
    using assms by (intro find_cong refl) (simp add: slots_def)
  then show ?thesis by (simp add: mp1_malloc_def)
qed

lemma malloc_free: "mp1_malloc B m \<noteq> 0 \<Longrightarrow> mp1_malloc B m \<in> slots B \<and> rd16 m (mp1_malloc B m) = 0"
proof (cases "List.find (\<lambda>i. rd16 m (blink_slot B i + LOCATION) = 0) [0..<BLINKS]")
  case (Some i)
  then have "i < BLINKS" "rd16 m (blink_slot B i) = 0" by (auto simp: find_Some_iff)
  then show ?thesis using Some by (simp add: mp1_malloc_def slots_def)
qed (simp add: mp1_malloc_def)

text \<open>An addition at location 0 leaves its structure free for the next.\<close>

lemma add_zero:
  assumes L: "blink_layout B" and arg: "arg_apart B arg" and v: "rd32 m (vmem_base_addr B) = addr_148MB"
    and p: "mp1_malloc B m = p" "p \<noteq> 0" and b: "location (blink_at m arg) = 0"
  shows "\<exists>m'. mp1_ioctl_add B arg m = (0, m') \<and> rd32 m' (mp1_list_head B) = p \<and> rd32 m' (p + NEXT) = rd32 m (mp1_list_head B) \<and>
    rd32 m' (vmem_base_addr B) = addr_148MB \<and> mp1_malloc B m' = p \<and> rd16 m' p = 0"
proof -
  note d = blink_layoutD [OF L] and ad = arg_apartD [OF arg]
  have ps: "p \<in> slots B" "rd16 m p = 0" using malloc_free [of B m] p by simp_all
  note ap = slots_apart [OF L]
  define m2 where "m2 = add_temp B arg m"
  define m4 where "m4 = add_front B p m2"
  note t = add_temp_spec [OF ad(6), of m, folded m2_def]
  have far2: "area (blink_stack B) 16 \<inter> area q 16 = {}" if "q \<in> slots B" for q using ap(4) [OF that] by blast
  have s2: "rd16 m2 q = rd16 m q" if "q \<in> slots B" for q
    using arg_cong [OF blink_at_changes(1) [OF t(2) far2 [OF that]], of location] by (simp add: blink_at_def)
  have p2: "mp1_malloc B m2 = p" using malloc_cong [of B m2 m] s2 p(1) by simp
  have v2: "rd32 m2 (vmem_base_addr B) = addr_148MB" "rd32 m2 (mp1_list_head B) = rd32 m (mp1_list_head B)"
    using rd32_changes [OF t(2)] d(7,9) v by (simp_all add: Int_commute)
  note f = add_front_spec [OF L ps(1), of m2, folded m4_def]
  have l4: "location (blink_at m4 p) = 0" using f(1) t(1) b by (simp add: blink_new_def)
  have far4: "(area p 16 \<union> area (mp1_list_head B) 4) \<inter> area q 16 = {}" if "q \<in> slots B" "q \<noteq> p" for q
    using slots_disjoint [OF ps(1) that(1)] that(2) ap(2) [OF that(1)] by blast
  have s4: "rd16 m4 q = rd16 m q" if "q \<in> slots B" for q
    using arg_cong [OF blink_at_changes(1) [OF f(4) far4 [OF that]], of location] s2 [OF that] l4 ps(2)
    by (cases "q = p") (simp_all add: blink_at_def)
  have "(area p 16 \<union> area (mp1_list_head B) 4) \<inter> area (vmem_base_addr B) 4 = {}" using ap(3) [OF ps(1)] d(6) by blast
  then have v4: "rd32 m4 (vmem_base_addr B) = addr_148MB" using rd32_changes [OF f(4)] v2(1) by simp
  define m' where "m' = mp1_poke B m4 (on_char (blink_at m4 p)) (push_bit 1 (ucast (location (blink_at m4 p))))"
  have call: "mp1_ioctl_add B arg m = (0, m')"
    using mp1_ioctl_add_eq [OF ad(6), of m] b p(2) unfolding m2_def [symmetric] p2 m4_def [symmetric] m'_def by (simp add: Let_def)
  have n: "unat (location (blink_at m4 p)) < BLINKS" by (simp add: l4 BLINKS_def)
  note poke = poke_shown(2) [OF v4 n, of "on_char (blink_at m4 p)", folded m'_def]
  have vid: "area video_mem_addr 4096 \<inter> area q 16 = {}" if "q \<in> slots B" for q using ap(5) [OF that] by blast
  have s': "rd16 m' q = rd16 m q" if "q \<in> slots B" for q
    using arg_cong [OF blink_at_changes(1) [OF poke vid [OF that]], of location] s4 [OF that] by (simp add: blink_at_def)
  have h: "rd32 m' (mp1_list_head B) = p" "rd32 m' (vmem_base_addr B) = addr_148MB"
    using rd32_changes [OF poke] d(8,10) f(2) v4 by (simp_all add: Int_commute)
  have "rd32 m' (p + NEXT) = rd32 m (mp1_list_head B)"
    using blink_at_changes(2) [OF poke vid [OF ps(1)]] f(3) v2(2) by simp
  then show ?thesis using call h malloc_cong [of B m' m] s' p(1) ps by auto
qed

text \<open>And a list that leads back to its first structure has no end.\<close>

definition blink_cycle :: "blink_vars \<Rightarrow> addr \<Rightarrow> mem \<Rightarrow> bool" where
  "blink_cycle B p m \<longleftrightarrow> blink_layout B \<and> p \<in> slots B \<and> rd32 m (p + NEXT) = p \<and>
     rd32 m (vmem_base_addr B) = addr_148MB \<and> unat (location (blink_at m p)) < BLINKS"

lemma tasklet_cycle:
  assumes "tasklet_loop B p m = Some y"
  shows "\<not> blink_cycle B p m"
  using assms
proof (rule tasklet_loop.raw_induct [where P = "\<lambda>B p m y. \<not> blink_cycle B p m", rotated])
  fix loop B p m y
  assume IH: "\<And>B p m y. loop B p m = Some y \<Longrightarrow> \<not> blink_cycle B p m"
    and eq: "(if p = 0 then Some m else let m = tasklet_blink B p m in loop B (rd32 m (p + NEXT)) m) = Some (y :: mem)"
  show "\<not> blink_cycle B p m"
  proof
    assume c: "blink_cycle B p m"
    then have L: "blink_layout B" "p \<in> slots B" and nx: "rd32 m (p + NEXT) = p" and v: "rd32 m (vmem_base_addr B) = addr_148MB"
      and l: "unat (location (blink_at m p)) < BLINKS"
      by (simp_all add: blink_cycle_def)
    note one = tick_one_spec [OF L v l] and ap = slots_apart [OF L]
    define m1 where "m1 = tick_one B p m"
    have n1: "rd32 m1 (p + NEXT) = p" using one(2) nx by (simp add: m1_def)
    have "loop B p m1 = Some y" using eq ap(1) tasklet_blink_eq [OF L v l] n1 by (simp add: Let_def m1_def)
    moreover have "(area p 16 \<union> area video_mem_addr 4096) \<inter> area (vmem_base_addr B) 4 = {}"
      using ap(3) blink_layoutD(10) [OF L(1)] by blast
    then have "rd32 m1 (vmem_base_addr B) = addr_148MB" using rd32_changes [OF one(3)] v by (simp add: m1_def)
    moreover have "location (blink_at m1 p) = location (blink_at m p)" using one(1) by (simp add: m1_def blink_next_def)
    ultimately show False using IH [of B p m1 y] L l n1 by (simp add: blink_cycle_def)
  qed
qed

text \<open>The structure that the program fills in lies apart from the engine.\<close>

lemma put_blinker_keeps:
  assumes "arg_apart B arg"
  shows "location (blink_at (put_blinker n arg x) arg) = location x" "mp1_malloc B (put_blinker n arg x) = mp1_malloc B n"
    "rd32 (put_blinker n arg x) (vmem_base_addr B) = rd32 n (vmem_base_addr B)"
    "rd32 (put_blinker n arg x) (mp1_list_head B) = rd32 n (mp1_list_head B)"
proof -
  note ad = arg_apartD [OF assms]
  note pb = put_blinker_spec [of n arg x]
  have "location (blink_new (blink_at (put_blinker n arg x) arg)) = location (blink_new x)" using pb(1) by simp
  then show "location (blink_at (put_blinker n arg x) arg) = location x" by (simp add: blink_new_def)
  have "area arg 16 \<inter> area p 16 = {}" if "p \<in> slots B" for p using ad(1) slots_in_array [OF that] by blast
  then have "blink_at (put_blinker n arg x) p = blink_at n p" if "p \<in> slots B" for p
    using blink_at_changes(1) [OF pb(2)] that by blast
  then have "rd16 (put_blinker n arg x) p = rd16 n p" if "p \<in> slots B" for p
    using that by (metis blink_fields(1) add.right_neutral)
  then show "mp1_malloc B (put_blinker n arg x) = mp1_malloc B n" by (rule malloc_cong)
  show "rd32 (put_blinker n arg x) (vmem_base_addr B) = rd32 n (vmem_base_addr B)"
    "rd32 (put_blinker n arg x) (mp1_list_head B) = rd32 n (mp1_list_head B)"
    using rd32_changes [OF pb(2)] ad(2,3) by simp_all
qed

text \<open>C17: Location 0 breaks the engine. The allocator takes a structure at location 0 for free, so the
  second addition there, which reports success like the first, gets the same structure again
  and links it to itself: the next tick of the clock never returns.\<close>
theorem blink_zero_hangs:
  assumes "blink_layout B" "arg_apart B arg" "rd32 m (mp1_list_head B) = 0" "rd32 m (vmem_base_addr B) = addr_148MB"
    and "location b = 0" "location c = 0"
  shows "\<exists>m'. run_blinks B arg [Add b, Add c] (blink_start B m) = Some ([0, 0], m') \<and> run_blink B arg Tick m' = None"
proof -
  note L = assms(1) and arg = assms(2) and ad = arg_apartD [OF assms(2)]
  define m0 where "m0 = blink_start B m"
  note ok = blink_start_ok [OF L assms(3,4), folded m0_def]
  define p where "p = mp1_malloc B m0"
  have ps: "p \<in> slots B" using mp1_malloc_spec [OF L ok(1)] by (simp add: p_def BLINKS_def)
  then have p0: "p \<noteq> 0" by (rule slots_apart(1) [OF L])
  define m1 where "m1 = put_blinker m0 arg b"
  have v1: "rd32 m1 (vmem_base_addr B) = addr_148MB" "mp1_malloc B m1 = p" "location (blink_at m1 arg) = 0"
    using ok(1) assms(5) by (simp_all add: m1_def put_blinker_keeps [OF arg] p_def blinks_ok_def)
  obtain m2 where m2: "mp1_ioctl_add B arg m1 = (0, m2)" "rd32 m2 (mp1_list_head B) = p" "rd32 m2 (vmem_base_addr B) = addr_148MB"
    "mp1_malloc B m2 = p"
    using add_zero [OF L arg v1(1,2) p0 v1(3)] by blast
  define m3 where "m3 = put_blinker m2 arg c"
  have v3: "rd32 m3 (vmem_base_addr B) = addr_148MB" "mp1_malloc B m3 = p" "location (blink_at m3 arg) = 0" "rd32 m3 (mp1_list_head B) = p"
    using m2 assms(6) by (simp_all add: m3_def put_blinker_keeps [OF arg])
  obtain m4 where m4: "mp1_ioctl_add B arg m3 = (0, m4)" "rd32 m4 (mp1_list_head B) = p" "rd32 m4 (p + NEXT) = p"
    "rd32 m4 (vmem_base_addr B) = addr_148MB" "rd16 m4 p = 0"
    using add_zero [OF L arg v3(1,2) p0 v3(3)] v3(4) by auto
  have "blink_cycle B p m4" using L ps m4 by (simp add: blink_cycle_def blink_at_def BLINKS_def)
  then have "tasklet_loop B p m4 = None" using tasklet_cycle [of B p m4] by (cases "tasklet_loop B p m4") auto
  then have "run_blink B arg Tick m4 = None" by (simp add: mp1_rtc_tasklet_def m4(2))
  moreover have "run_blinks B arg [Add b, Add c] m0 = Some ([0, 0], m4)"
    using m2(1) m4(1) by (simp add: mp1_ioctl_def m1_def m3_def)
  ultimately show ?thesis unfolding m0_def by blast
qed

subsection \<open>A concrete engine\<close>

lemma area_disjointI:
  assumes "unat a + n \<le> unat c \<or> unat c + k \<le> unat a" "unat a + n \<le> 2 ^ 32" "unat c + k \<le> 2 ^ 32"
  shows "area a n \<inter> area c k = {}"
proof -
  have plus: "unat (a + y) = unat a + unat y" if "unat a + unat y < 2 ^ 32" for a y :: addr
    using that by (simp add: unat_word_ariths)
  have off: "unat x = unat a + unat (x - a)" if "x \<in> area a n" "unat a + n \<le> 2 ^ 32" for x a n
  proof -
    have "unat a + unat (x - a) < 2 ^ 32" using that by (simp add: area_def)
    from plus [OF this] show ?thesis by simp
  qed
  have False if x: "x \<in> area a n" "x \<in> area c k" for x
  proof -
    have "unat (x - a) < n" "unat (x - c) < k" using x by (simp_all add: area_def)
    then show False using off [OF x(1) assms(2)] off [OF x(2) assms(3)] assms(1) by linarith
  qed
  then show ?thesis by blast
qed

definition demo_blink :: blink_vars where
  "demo_blink = \<lparr>blink_array = 0x8050000, mp1_list_head = 0x8060000, vmem_base_addr = 0x8060004, blink_stack = 0x83FFF00\<rparr>"

definition demo_blink_mem :: mem where
  "demo_blink_mem = wr32 (\<lambda>_. 0) 0x8060004 addr_148MB"

definition demo_blinker :: blinker where
  "demo_blinker = \<lparr>location = 540, on_char = 0x49, off_char = 0x4D, on_length = 1, off_length = 6, countdown = 0, status = 0\<rparr>"

lemma demo_blink_ok:
  "blink_layout demo_blink" "arg_apart demo_blink 0x83FFF20" "rd32 demo_blink_mem (mp1_list_head demo_blink) = 0"
  "rd32 demo_blink_mem (vmem_base_addr demo_blink) = addr_148MB"
proof -
  show "blink_layout demo_blink" "arg_apart demo_blink 0x83FFF20"
    by (simp_all add: blink_layout_def arg_apart_def blink_areas_def demo_blink_def STRUCT_SIZE_def BLINKS_def video_mem_addr_def
        area_disjointI)
  show "rd32 demo_blink_mem (mp1_list_head demo_blink) = 0"
    by (simp add: demo_blink_mem_def demo_blink_def rd32_def wr32_def)
  show "rd32 demo_blink_mem (vmem_base_addr demo_blink) = addr_148MB"
    by (simp add: demo_blink_mem_def demo_blink_def rd32_wr32)
qed

lemma blink_engine_refines_witness:
  "\<exists>m' p. run_blinks demo_blink 0x83FFF20 [Add demo_blinker, Add demo_blinker, Tick, Remove 540, Sync 3 540]
      (blink_start demo_blink demo_blink_mem) = Some ([0, 0, 0, 0, -1], m') \<and> blinks_ok demo_blink [p] m' \<and>
    shown m' = ((shown demo_blink_mem)[540 := 0x4D])"
proof -
  obtain rs m' ps where r: "run_blinks demo_blink 0x83FFF20 [Add demo_blinker, Add demo_blinker, Tick, Remove 540, Sync 3 540]
      (blink_start demo_blink demo_blink_mem) = Some (rs, m')" "blinks_ok demo_blink ps m'"
    "spec_blinks [Add demo_blinker, Add demo_blinker, Tick, Remove 540, Sync 3 540] ([], shown demo_blink_mem) = (rs, blinkers ps m', shown m')"
    using blink_engine_refines [OF demo_blink_ok, of "[Add demo_blinker, Add demo_blinker, Tick, Remove 540, Sync 3 540]"]
    by (auto simp: demo_blinker_def)
  have e: "spec_blinks [Add demo_blinker, Add demo_blinker, Tick, Remove 540, Sync 3 540] ([], shown demo_blink_mem) =
      ([0, 0, 0, 0, -1], [blink_next (blink_new demo_blinker)], (shown demo_blink_mem)[540 := 0x4D])"
    by (simp add: demo_blinker_def blink_new_def blink_next_def blink_show_def due_def blink_sync_def BLINKS_def)
  have "rs = [0, 0, 0, 0, -1]" "blinkers ps m' = [blink_next (blink_new demo_blinker)]" "shown m' = (shown demo_blink_mem)[540 := 0x4D]"
    using r(3) unfolding e by auto
  moreover from this(2) obtain p where "ps = [p]" by (auto simp: blinkers_def)
  ultimately show ?thesis using r(1,2) by blast
qed

lemma blink_zero_hangs_witness:
  "\<exists>m'. run_blinks demo_blink 0x83FFF20 [Add (demo_blinker\<lparr>location := 0\<rparr>), Add (demo_blinker\<lparr>location := 0\<rparr>)]
      (blink_start demo_blink demo_blink_mem) = Some ([0, 0], m') \<and> run_blink demo_blink 0x83FFF20 Tick m' = None"
  by (rule blink_zero_hangs [OF demo_blink_ok]) simp_all

end
