(* ===== verification/Clock.thy ===== *)
theory Clock
  imports Disk Blinkers
begin

section \<open>The clock as a file\<close>

text \<open>
  What a program sees of the real-time clock: opening \<open>rtc\<close>, setting its rate, and waiting for a
  tick change nothing of its memory and nothing on the screen.
\<close>

text \<open>A state that differs in the clock, the ports and the descriptors only.\<close>

definition same_screen :: "'a tty_scheme \<Rightarrow> 'a tty_scheme \<Rightarrow> bool" where
  "same_screen s t \<longleftrightarrow> memory t = memory s \<and> boot_block t = boot_block s \<and> tasks_running t = tasks_running s \<and>
     screen_x t = screen_x s \<and> screen_y t = screen_y s \<and> program_ok t"

lemma same_screen_trans: "same_screen s t \<Longrightarrow> same_screen t u \<Longrightarrow> same_screen s u"
  by (simp add: same_screen_def)

lemma same_screen_refl: "program_ok s \<Longrightarrow> same_screen s s"
  by (simp add: same_screen_def)

lemma same_screen_runs:
  fixes s t :: "'a tty_scheme"
  assumes "same_screen s t"
  shows "runs buf n s t" "cursor_ok s \<Longrightarrow> outputs buf n [] s t"
proof -
  note d = assms [unfolded same_screen_def]
  show r: "runs buf n s t" using d by (simp add: runs_def)
  have "grid t = grid s" by (rule grid_cong) (use d in simp)
  then show "outputs buf n [] s t" if "cursor_ok s"
    using r d that by (simp add: outputs_def text_of_def cursor_ok_def)
qed

lemma same_screen_upd_fd:
  fixes s :: "'a tty_scheme"
  assumes "program_ok s" "2 \<le> k" "flags (f (fd_array s ! k)) \<noteq> 0 \<Longrightarrow> closable (fops (f (fd_array s ! k)))"
  shows "same_screen s (upd_fd (tasks_running s) k f s)"
proof -
  have "runs 0 0 s (upd_fd (tasks_running s) k f s)" using assms by (intro runs_upd_fd(1)) simp_all
  then show ?thesis by (simp add: same_screen_def runs_def) (simp add: upd_fd_def upd_pcb_def)
qed

lemma rtc_more_tty:
  fixes s t :: "'a tty_scheme"
  assumes "rtc.more t = rtc.more s"
  shows "boot_block t = boot_block s" "tasks_running t = tasks_running s" "screen_x t = screen_x s" "screen_y t = screen_y s"
    "terminals t = terminals s" "display_terminal_id t = display_terminal_id s" "fd_array t = fd_array s"
  using assms by (cases s; cases t; simp add: fd_array_def pcb_of_def)+

lemma same_screen_clock:
  fixes s t :: "'a tty_scheme"
  assumes ok: "program_ok s" and t: "rtc.more t = rtc.more s" "memory t = memory s" "int_flag t = int_flag s"
  shows "same_screen s t" "fd_array t = fd_array s"
proof -
  note m = rtc_more_tty [OF t(1)]
  have "program_ok t" using ok terminals_ok_same [of t s] by (simp add: program_ok_def m t(3))
  then show "same_screen s t" "fd_array t = fd_array s" by (simp_all add: same_screen_def m t)
qed

lemma rtc_spin_quiet:
  "rtc_spin irqs s = Some (t, rest) \<Longrightarrow> rtc.more t = rtc.more s \<and> int_flag t = int_flag s \<and> memory t = memory s"
proof (induction irqs arbitrary: s)
  case Nil
  then show ?case by (subst (asm) rtc_spin.simps) (auto split: if_splits)
next
  case (Cons fires irqs)
  define u where "u = (if fires then rtc_handler s else s)"
  have "int_flag (rtc_handler s) = int_flag s"
    by (simp add: rtc_handler_def send_eoi_def outb_def Let_def)
  then have u: "rtc.more u = rtc.more s" "int_flag u = int_flag s" "memory u = memory s" by (simp_all add: u_def)
  from Cons.prems consider "t = s" | "rtc_spin irqs u = Some (t, rest)"
    by (subst (asm) rtc_spin.simps) (auto simp: u_def split: if_splits)
  then show ?case using Cons.IH [of u] u by cases auto
qed

subsection \<open>Opening, setting and waiting\<close>

definition clock_fd :: "nat \<Rightarrow> 'a task_scheme \<Rightarrow> bool" where
  "clock_fd k s \<longleftrightarrow> 2 \<le> k \<and> k < 8 \<and> flags (fd_array s ! k) \<noteq> 0 \<and> fops (fd_array s ! k) = Some Rtc_fops"

lemma open_clock:
  fixes s :: "'a tty_scheme"
  assumes ok: "program_ok s" and name: "in_program (memory s) a xs" "a \<noteq> 0" "xs \<noteq> []" "length xs \<le> 32"
    and k: "find_open_fd (fd_array s) = Some k" and i: "lookup (memory s) (boot_block s) xs = Some i"
    and d: "d_type (dentry_at (memory s) (entry_addr (boot_block s) (of_nat i))) = 0"
  shows "\<exists>t. ece391_open P a s = Some (int k, t) \<and> same_screen s t \<and> clock_fd k t \<and> rtc_ok t \<and>
    fd_array t = (fd_array s)[k := opened_fd Rtc_fops 0 (fd_array s ! k)]"
proof -
  note o = program_okD [OF ok]
  have k2: "2 \<le> k" "k < 8" using fd_table.search_Some [OF o(5), of k] k by simp_all
  define e where "e = dentry_at (memory s) (entry_addr (boot_block s) (of_nat i))"
  define u where "u = s\<lparr>virt_freq := 2\<rparr>"
  have u: "same_screen s u" "fd_array u = fd_array s" unfolding u_def by (rule same_screen_clock [OF ok]; simp)+
  define t where "t = upd_fd (tasks_running u) k (opened_fd Rtc_fops (d_inode e)) u"
  have ty: "d_type e = 0" "type_fops 0 = Rtc_fops" using d by (simp_all add: e_def type_fops_def)
  have "ece391_open P a s = Some (int k, t)"
    using syscall_open_found [OF o(3,5) name(2) _ name(3,4) k i e_def, of "prog_links P" "prog_frame P"] name(1) u(1)
    by (simp add: call_defs do_call_simps [OF ok] t_def in_program_def ty u_def same_screen_def)
  moreover have "same_screen u t"
    unfolding t_def using u(1) k2 by (intro same_screen_upd_fd) (simp_all add: same_screen_def opened_fd_def closable_def)
  then have "same_screen s t" by (rule same_screen_trans [OF u(1)])
  moreover have f: "fd_array t = (fd_array s)[k := opened_fd Rtc_fops 0 (fd_array s ! k)]"
    unfolding t_def fds_of_upd_fd u(2) by (simp add: opened_fd_def)
  moreover have "virt_freq t = 2" by (simp add: t_def u_def upd_fd_def upd_pcb_def)
  then have "rtc_ok t" by (simp add: rtc_ok_def valid_freqs_def)
  moreover have "clock_fd k t" using k2 o(5) by (simp add: clock_fd_def f opened_fd_def)
  ultimately show ?thesis by blast
qed

lemma write_clock:
  fixes s :: "'a tty_scheme"
  assumes ok: "program_ok s" and k: "clock_fd k s" and v: "rd32 (memory s) buf \<in> set valid_freqs"
  shows "\<exists>t. ece391_write P (int k) buf 4 s = Some (0, t) \<and> same_screen s t \<and> fd_array t = fd_array s \<and>
    virt_freq t = rd32 (memory s) buf"
proof -
  note o = program_okD [OF ok]
  define t where "t = s\<lparr>rtc_inter_count := 0, virt_freq := rd32 (memory s) buf\<rparr>"
  have kw: "unat (of_nat k :: u32) = k" using k by (simp add: clock_fd_def unat_of_nat take_bit_nat_eq_self)
  then have kk: "\<not> (of_nat k :: u32) > 7" "\<not> (of_nat k :: u32) < 1" "(of_nat k :: u32) \<noteq> 0"
    using k by (auto simp: word_less_nat_alt clock_fd_def)
  have "rtc_write buf 4 s = (0, t)" using v by (simp add: rtc_write_correct t_def valid_freqs_def)
  then have "ece391_write P (int k) buf 4 s = Some (0, t)"
    using k o(4) kk
    by (simp add: call_defs do_call_simps [OF ok] syscall_write_def fops_has_write_def fops_write_def kw clock_fd_def Let_def)
  moreover have "same_screen s t" "fd_array t = fd_array s" unfolding t_def by (rule same_screen_clock [OF ok]; simp)+
  ultimately show ?thesis by (simp add: t_def)
qed

lemma read_clock:
  fixes s :: "'a tty_scheme"
  assumes ok: "program_ok s" and k: "clock_fd k s" and r: "rtc_ok s" "rtc_period s \<le> count_list (prog_irqs P) True"
  shows "\<exists>t. ece391_read P (int k) buf 4 s = Some (0, t) \<and> same_screen s t \<and> fd_array t = fd_array s \<and>
    virt_freq t = virt_freq s"
proof -
  note o = program_okD [OF ok]
  have kw: "unat (of_nat k :: u32) = k" using k by (simp add: clock_fd_def unat_of_nat take_bit_nat_eq_self)
  then have kk: "\<not> (of_nat k :: u32) > 7" "(of_nat k :: u32) \<noteq> 1"
    using k by (auto simp: word_less_nat_alt clock_fd_def)
  obtain t rest where t: "rtc_read (prog_irqs P) s = Some (0, t, rest)" "virt_freq t = virt_freq s"
    using rtc_read_returns [OF r] by blast
  have "rtc.more t = rtc.more s \<and> int_flag t = int_flag s \<and> memory t = memory s"
    using t(1) rtc_spin_quiet [of "prog_irqs P" "s\<lparr>rtc_inter_count := 0\<rparr>" t rest] by (auto simp: rtc_read_def split: option.splits)
  then have "same_screen s t" "fd_array t = fd_array s" using same_screen_clock [OF ok, of t] by blast+
  moreover have "ece391_read P (int k) buf 4 s = Some (0, t)"
    using k o(4) kk t(1)
    by (simp add: call_defs do_call_simps [OF ok] syscall_read_def fops_has_read_def fops_read_def kw clock_fd_def Let_def)
  ultimately show ?thesis using t(2) by blast
qed

lemma outputs_changes:
  fixes s :: "'a tty_scheme"
  assumes "program_ok s" "cursor_ok s" "user_range stk n" "changes (memory s) m A" "A \<subseteq> area stk n"
  shows "outputs stk n [] s (s\<lparr>memory := m\<rparr>)"
proof (rule runs_memory(2) [OF assms(1,3) _ assms(2)])
  fix a assume "\<not> unat (a - stk) < n"
  then have "a \<notin> A" using assms(5) by (auto simp: area_def)
  then show "m a = memory s a" by (rule changes_at [OF assms(4)])
qed

lemma screen_only_clock:
  fixes s t :: "'a tty_scheme"
  shows "screen_only s t \<Longrightarrow> virt_freq t = virt_freq s"
  by (auto simp: screen_only_def)

text \<open>A program with a file of the clock.\<close>

definition clock_file :: "'a tty_scheme \<Rightarrow> bool" where
  "clock_file s \<longleftrightarrow> (\<exists>i. lookup (memory s) (boot_block s) (bytes ''rtc'') = Some i \<and>
     d_type (dentry_at (memory s) (entry_addr (boot_block s) (of_nat i))) = 0)"

lemma literal_name:
  "in_program m a (bytes x) \<Longrightarrow> x \<noteq> [] \<Longrightarrow> length x \<le> 32 \<Longrightarrow> a \<noteq> 0 \<and> bytes x \<noteq> [] \<and> length (bytes x) \<le> 32"
proof -
  assume h: "in_program m a (bytes x)" "x \<noteq> []" "length x \<le> 32"
  then have "user_range a 1" by (auto simp: in_program_def user_range_def dest!: spec [of _ 0])
  then show ?thesis using user_range_nonzero h by (auto simp: bytes_def)
qed

lemma clock_file_runs:
  fixes s t :: "'a tty_scheme"
  assumes "runs buf n s t" "image_apart (memory s) (boot_block s)" "clock_file s"
  shows "clock_file t"
proof -
  obtain i where i: "lookup (memory s) (boot_block s) (bytes ''rtc'') = Some i"
    "d_type (dentry_at (memory s) (entry_addr (boot_block s) (of_nat i))) = 0"
    using assms(3) by (auto simp: clock_file_def)
  note same = runs_image(2) [OF assms(1,2)]
  have "boot_block t = boot_block s" using assms(1) by (simp add: runs_def)
  then show ?thesis
    using i same_image_lookup [OF same] same_image_entry(2) [OF same lookup_name(1) [OF i(1)]] by (auto simp: clock_file_def)
qed

text \<open>A program whose waits see 64 interrupts of the clock.\<close>

definition clock_program :: "string list \<Rightarrow> unit program" where
  "clock_program X = (sample_program X)\<lparr>prog_irqs := replicate 64 True\<rparr>"

lemma clock_program_simps [simp]:
  "prog_lit (clock_program X) = prog_lit (sample_program X)" "count_list (prog_irqs (clock_program X)) True = 64"
  "literals_at (clock_program X) m Y = literals_at (sample_program X) m Y"
  "literals_apart (clock_program X) Y buf n = literals_apart (sample_program X) Y buf n"
  by (simp_all add: clock_program_def literals_at_def literals_apart_def numeral_eq_Suc)

end
