(* ===== verification/Pingpong.thy ===== *)
theory Pingpong
  imports Clock
begin

section \<open>pingpong\<close>

text \<open>
  \<open>src/syscalls/ece391pingpong.c\<close>: a letter that bounces between two walls, a line per tick of the
  clock, for ever.
\<close>

text \<open>
  The line on the screen is \<open>buf\<close>; its inner part are the places 2 to 77. The program never ends:
  \<open>pingpong_loop\<close> is its endless loop, \<open>pingpong_rounds\<close> the first turns of it.
\<close>

definition fill_range :: "addr \<Rightarrow> nat \<Rightarrow> nat \<Rightarrow> u8 \<Rightarrow> mem \<Rightarrow> mem" where
  "fill_range buf i k c m = fold (\<lambda>i m. m(buf + of_nat i := c)) [i..<k] m"

definition pingpong_walls :: "addr \<Rightarrow> mem \<Rightarrow> mem" where
  "pingpong_walls buf m = (fill_range buf 0 81 0x20 m)(buf + 80 := 0, buf + 79 := 0x0A, buf + 78 := 0x7C, buf + 1 := 0x7C)"

definition pingpong_frame :: "'a program \<Rightarrow> addr \<Rightarrow> addr \<Rightarrow> int \<Rightarrow> u8 \<Rightarrow> nat \<Rightarrow> 'a tty_scheme \<Rightarrow> 'a tty_scheme option" where
  "pingpong_frame P buf garbage rtc_fd curchar j s = do {
     let m = fill_range buf 2 78 0x20 (memory s);
     s \<leftarrow> ece391_fdputs P 1 buf (s\<lparr>memory := m(buf + of_nat j := curchar)\<rparr>);
     (_, s) \<leftarrow> ece391_read P rtc_fd garbage 4 s;
     Some s
   }"

primrec pingpong_frames :: "'a program \<Rightarrow> addr \<Rightarrow> addr \<Rightarrow> int \<Rightarrow> u8 \<Rightarrow> nat list \<Rightarrow> 'a tty_scheme \<Rightarrow> 'a tty_scheme option" where
  "pingpong_frames P buf garbage rtc_fd curchar [] s = Some s"
| "pingpong_frames P buf garbage rtc_fd curchar (j # js) s = do {
     s \<leftarrow> pingpong_frame P buf garbage rtc_fd curchar j s;
     pingpong_frames P buf garbage rtc_fd curchar js s
   }"

definition pingpong_round :: "'a program \<Rightarrow> addr \<Rightarrow> addr \<Rightarrow> int \<Rightarrow> u8 \<Rightarrow> 'a tty_scheme \<Rightarrow> (u8 \<times> 'a tty_scheme) option" where
  "pingpong_round P buf garbage rtc_fd curchar s = do {
     s \<leftarrow> pingpong_frames P buf garbage rtc_fd curchar [2..<78] s;
     s \<leftarrow> pingpong_frames P buf garbage rtc_fd curchar (rev [2..<78]) s;
     Some (if curchar = 0x5A then 0x41 else curchar + 1, s)
   }"

primrec pingpong_rounds :: "nat \<Rightarrow> 'a program \<Rightarrow> addr \<Rightarrow> addr \<Rightarrow> int \<Rightarrow> u8 \<Rightarrow> 'a tty_scheme \<Rightarrow> (u8 \<times> 'a tty_scheme) option" where
  "pingpong_rounds 0 P buf garbage rtc_fd curchar s = Some (curchar, s)"
| "pingpong_rounds (Suc n) P buf garbage rtc_fd curchar s = do {
     (curchar, s) \<leftarrow> pingpong_round P buf garbage rtc_fd curchar s;
     pingpong_rounds n P buf garbage rtc_fd curchar s
   }"

partial_function (option) pingpong_loop ::
  "'a program \<Rightarrow> addr \<Rightarrow> addr \<Rightarrow> int \<Rightarrow> u8 \<Rightarrow> 'a tty_scheme \<Rightarrow> (int \<times> 'a tty_scheme) option" where
  "pingpong_loop P buf garbage rtc_fd curchar s = do {
     (curchar, s) \<leftarrow> pingpong_round P buf garbage rtc_fd curchar s;
     pingpong_loop P buf garbage rtc_fd curchar s
   }"

definition pingpong_start :: "'a program \<Rightarrow> addr \<Rightarrow> addr \<Rightarrow> 'a tty_scheme \<Rightarrow> (int \<times> 'a tty_scheme) option" where
  "pingpong_start P buf ret_val s = do {
     let s = s\<lparr>memory := pingpong_walls buf (memory s)\<rparr>;
     (rtc_fd, s) \<leftarrow> ece391_open P (prog_lit P ''rtc'') s;
     let s = s\<lparr>memory := wr32 (memory s) ret_val 32\<rparr>;
     (r, s) \<leftarrow> ece391_write P rtc_fd ret_val 4 s;
     Some (rtc_fd, s\<lparr>memory := wr32 (memory s) ret_val (word_of_int r)\<rparr>)
   }"

definition pingpong_main :: "'a program \<Rightarrow> addr \<Rightarrow> addr \<Rightarrow> addr \<Rightarrow> 'a tty_scheme \<Rightarrow> (int \<times> 'a tty_scheme) option" where
  "pingpong_main P buf ret_val garbage s = do {
     (rtc_fd, s) \<leftarrow> pingpong_start P buf ret_val s;
     pingpong_loop P buf garbage rtc_fd 0x41 s
   }"

text \<open>What is to be seen: a letter between two walls.\<close>

definition pong_line :: "u8 \<Rightarrow> nat \<Rightarrow> u8 list" where
  "pong_line c j = map (\<lambda>i. if i = j then c else if i = 1 \<or> i = 78 then 0x7C else if i = 79 then 0x0A else 0x20) [0..<80]"

definition pong_round :: "u8 \<Rightarrow> u8 list" where
  "pong_round c = concat (map (pong_line c) ([2..<78] @ rev [2..<78]))"

definition pong_letter :: "nat \<Rightarrow> u8" where
  "pong_letter n = 0x41 + of_nat (n mod 26)"

definition walls :: "addr \<Rightarrow> mem \<Rightarrow> bool" where
  "walls buf m \<longleftrightarrow> m buf = 0x20 \<and> m (buf + 1) = 0x7C \<and> m (buf + 78) = 0x7C \<and> m (buf + 79) = 0x0A \<and> m (buf + 80) = 0"

text \<open>The variables of the program lie in its stack frame of \<open>n\<close> bytes at \<open>stk\<close>.\<close>

definition pong_frame :: "addr \<Rightarrow> nat \<Rightarrow> addr \<Rightarrow> addr \<Rightarrow> bool" where
  "pong_frame stk n buf ret_val \<longleftrightarrow> user_range stk n \<and> n < 2 ^ 31 \<and> area buf 81 \<subseteq> area stk n \<and> area ret_val 4 \<subseteq> area stk n \<and>
     area buf 81 \<inter> area ret_val 4 = {}"

lemma fill_range_at:
  assumes "k < 2 ^ 32" "j \<le> 2 ^ 32"
  shows "fill_range buf i j c m (buf + of_nat k) = (if i \<le> k \<and> k < j then c else m (buf + of_nat k))"
  using assms(2)
proof (induction j)
  case (Suc j)
  then have "(of_nat k :: u32) = of_nat j \<longleftrightarrow> k = j" using assms(1) of_nat_inj_word [of k j, where 'a = 32] by simp
  then show ?case using Suc by (cases "i \<le> j") (auto simp: fill_range_def)
qed (simp add: fill_range_def)

lemma fill_range_changes:
  assumes "j \<le> n" "n \<le> 2 ^ 32"
  shows "changes m (fill_range buf i j c m) (area buf n)"
  using assms(1)
proof (induction j)
  case (Suc j)
  then show ?case using area_offset [of j n buf] assms(2) by (cases "i \<le> j") (auto simp: fill_range_def changes_def)
qed (simp add: fill_range_def)

lemma pong_frameD:
  assumes "pong_frame stk n buf ret"
  shows "user_range stk n" "n \<le> 2 ^ 32" "n < 2 ^ 31" "area buf 81 \<subseteq> area stk n" "area ret 4 \<subseteq> area stk n"
    "area ret 4 \<inter> area buf 81 = {}" "user_range buf 81"
proof -
  show *: "user_range stk n" "n \<le> 2 ^ 32" "n < 2 ^ 31" "area buf 81 \<subseteq> area stk n" "area ret 4 \<subseteq> area stk n" "area ret 4 \<inter> area buf 81 = {}"
    using assms by (auto simp: pong_frame_def)
  show "user_range buf 81"
    unfolding user_range_def
  proof (intro allI impI)
    fix i :: nat assume "i < 81"
    then have "buf + of_nat i \<in> area stk n" using *(4) area_offset [of i 81 buf] by auto
    then have "in_window (stk + of_nat (unat (buf + of_nat i - stk)))" using *(1) unfolding user_range_def area_def by blast
    then show "in_window (buf + of_nat i)" by simp
  qed
qed

lemma pong_line_at:
  assumes w: "walls buf m" and j: "2 \<le> j" "j < 78" and c: "c \<noteq> 0"
  defines "m' \<equiv> (fill_range buf 2 78 0x20 m)(buf + of_nat j := c)"
  shows "string_at m' buf (pong_line c j)" "walls buf m'" "changes m m' (area buf 81)"
proof -
  have at: "m' (buf + of_nat i) = (if i = j then c else if 2 \<le> i \<and> i < 78 then 0x20 else m (buf + of_nat i))" if "i < 81" for i
    using fill_range_at [of i 78 buf 2 "0x20" m] that j of_nat_inj_word [of i j, where 'a = 32] by (auto simp: m'_def)
  from at [of 0] at [of 1] at [of 78] at [of 79] at [of 80] j
  have *: "m' buf = m buf" "m' (buf + 1) = m (buf + 1)" "m' (buf + 78) = m (buf + 78)" "m' (buf + 79) = m (buf + 79)"
    "m' (buf + 80) = m (buf + 80)"
    by simp_all
  then show "walls buf m'" using w by (simp add: walls_def)
  have "m' (buf + of_nat i) = pong_line c j ! i" if i: "i < 80" for i
  proof -
    consider "i = 0" | "i = 1" | "2 \<le> i" "i < 78" | "i = 78" | "i = 79" using i by linarith
    then show ?thesis
    proof cases
      case 3
      then show ?thesis using at [of i] by (simp add: pong_line_def)
    qed (use * w j in \<open>simp_all add: walls_def pong_line_def\<close>)
  qed
  then show "string_at m' buf (pong_line c j)"
    using * w c by (auto simp: string_at_def walls_def pong_line_def)
  have "changes m (fill_range buf 2 78 0x20 m) (area buf 81)" by (rule fill_range_changes) simp_all
  moreover have "buf + of_nat j \<in> area buf 81" using j by (intro area_offset) simp_all
  ultimately show "changes m m' (area buf 81)" by (auto simp: m'_def changes_def)
qed

text \<open>What holds while the ball is in the air: the walls are drawn and the clock is running.\<close>

definition pong_ready :: "'a program \<Rightarrow> nat \<Rightarrow> addr \<Rightarrow> 'a tty_scheme \<Rightarrow> bool" where
  "pong_ready P k buf s \<longleftrightarrow> program_ok s \<and> cursor_ok s \<and> clock_fd k s \<and> virt_freq s = 32 \<and>
     32 \<le> count_list (prog_irqs P) True \<and> walls buf (memory s)"

lemma pingpong_frame_shows:
  fixes s :: "'a tty_scheme"
  assumes fr: "pong_frame stk n buf ret" and ok: "pong_ready P k buf s" and j: "2 \<le> j" "j < 78" and c: "c \<noteq> 0"
  shows "\<exists>t. pingpong_frame P buf garbage (int k) c j s = Some t \<and> outputs stk n (pong_line c j) s t \<and> pong_ready P k buf t"
proof -
  note f = pong_frameD [OF fr]
  have o: "program_ok s" "cursor_ok s" "clock_fd k s" "virt_freq s = 32" "walls buf (memory s)"
    using ok by (simp_all add: pong_ready_def)
  define m where "m = (fill_range buf 2 78 0x20 (memory s))(buf + of_nat j := c)"
  note l = pong_line_at [OF o(5) j c, folded m_def]
  define s1 where "s1 = s\<lparr>memory := m\<rparr>"
  have 1: "outputs stk n [] s s1" unfolding s1_def by (rule outputs_changes [OF o(1,2) f(1) l(3) f(4)])
  have o1: "program_ok s1" "cursor_ok s1" using outputs_ok [OF 1] by simp_all
  have len: "length (pong_line c j) = 80" by (simp add: pong_line_def)
  have "in_program m buf (pong_line c j)"
    using l(1) f(7) unfolding in_program_def user_range_def len by simp
  then have pr: "ece391_fdputs P 1 buf s1 = Some (fold putc (pong_line c j) s1)"
    by (intro fdputs_prints [OF o1(1)]) (simp add: s1_def)
  define s2 where "s2 = fold putc (pong_line c j) s1"
  have 2: "outputs stk n (pong_line c j) s1 s2" unfolding s2_def by (rule outputs_print [OF o1])
  note p2 = program_ok_print [OF o1(1), of "pong_line c j", folded s2_def]
  have "clock_fd k s1" using o(3) by (simp add: clock_fd_def s1_def fd_array_def pcb_of_def)
  then have k2: "clock_fd k s2" using p2(3) by (simp add: clock_fd_def)
  have v2: "virt_freq s2 = 32"
    using screen_only_clock [OF screen_only_fold_putc [of s1 "pong_line c j"]] o(4) by (simp add: s2_def s1_def)
  then have "rtc_ok s2" "rtc_period s2 = 32" by (simp_all add: rtc_ok_def valid_freqs_def rtc_period_def)
  then obtain t where t: "ece391_read P (int k) garbage 4 s2 = Some (0, t)" "same_screen s2 t" "fd_array t = fd_array s2"
    "virt_freq t = virt_freq s2"
    using read_clock [OF p2(1) k2, of P garbage] ok by (auto simp: pong_ready_def)
  have 3: "outputs stk n [] s2 t" using same_screen_runs(2) [OF t(2)] outputs_ok [OF 2] by simp
  have out: "outputs stk n (pong_line c j) s t"
    using outputs_trans [OF outputs_trans [OF 1 2] 3] by simp
  have "in_window (buf + of_nat i)" if "i < 81" for i using f(7) that by (simp add: user_range_def)
  then have "memory t (buf + of_nat i) = m (buf + of_nat i)" if "i < 81" for i
    using p2(2) t(2) that by (simp add: same_window_def same_screen_def s1_def)
  from this [of 0] this [of 1] this [of 78] this [of 79] this [of 80]
  have "walls buf (memory t)" using l(2) by (simp add: walls_def)
  moreover have "pingpong_frame P buf garbage (int k) c j s = Some t"
    using pr t(1) by (simp add: pingpong_frame_def s1_def m_def s2_def)
  ultimately show ?thesis
    using out outputs_ok [OF out] k2 v2 t(3,4) ok by (simp add: pong_ready_def clock_fd_def)
qed

lemma pingpong_frames_show:
  fixes s :: "'a tty_scheme"
  assumes fr: "pong_frame stk n buf ret" and "pong_ready P k buf s" and "\<forall>j \<in> set js. 2 \<le> j \<and> j < 78" and c: "c \<noteq> 0"
  shows "\<exists>t. pingpong_frames P buf garbage (int k) c js s = Some t \<and> outputs stk n (concat (map (pong_line c) js)) s t \<and>
    pong_ready P k buf t"
  using assms(2,3)
proof (induction js arbitrary: s)
  case Nil
  then show ?case by (simp add: pong_ready_def outputs_refl)
next
  case (Cons j js)
  obtain t where t: "pingpong_frame P buf garbage (int k) c j s = Some t" "outputs stk n (pong_line c j) s t" "pong_ready P k buf t"
    using pingpong_frame_shows [OF fr Cons.prems(1) _ _ c, of j] Cons.prems(2) by auto
  obtain u where "pingpong_frames P buf garbage (int k) c js t = Some u" "outputs stk n (concat (map (pong_line c) js)) t u"
    "pong_ready P k buf u"
    using Cons.IH [OF t(3)] Cons.prems(2) by auto
  then show ?case using t outputs_trans [OF t(2)] by simp
qed

lemma pong_letter_range: "pong_letter n \<noteq> 0" "(if pong_letter n = 0x5A then 0x41 else pong_letter n + 1) = pong_letter (Suc n)"
proof -
  have u: "unat (pong_letter n) = 0x41 + n mod 26" for n
    by (simp add: pong_letter_def unat_word_ariths unat_of_nat take_bit_nat_eq_self)
  show "pong_letter n \<noteq> 0" using u [of n] by (simp add: word_unat_eq_iff)
  have "unat (pong_letter n + 1) = 0x41 + n mod 26 + 1" using u [of n] by (simp add: unat_word_ariths)
  moreover have "pong_letter n = 0x5A \<longleftrightarrow> n mod 26 = 25" using u [of n] by (auto simp: word_unat_eq_iff)
  ultimately show "(if pong_letter n = 0x5A then 0x41 else pong_letter n + 1) = pong_letter (Suc n)"
    using u [of "Suc n"] by (auto simp: word_unat_eq_iff mod_Suc)
qed

lemma pingpong_rounds_show:
  fixes s :: "'a tty_scheme"
  assumes fr: "pong_frame stk n buf ret" and "pong_ready P k buf s"
  shows "\<exists>t. pingpong_rounds r P buf garbage (int k) (pong_letter i) s = Some (pong_letter (i + r), t) \<and>
    outputs stk n (concat (map (pong_round \<circ> pong_letter) [i..<i + r])) s t \<and> pong_ready P k buf t"
  using assms(2)
proof (induction r arbitrary: i s)
  case 0
  then show ?case by (simp add: pong_ready_def outputs_refl)
next
  case (Suc r)
  let ?c = "pong_letter i"
  obtain t where t: "pingpong_frames P buf garbage (int k) ?c [2..<78] s = Some t"
    "outputs stk n (concat (map (pong_line ?c) [2..<78])) s t" "pong_ready P k buf t"
    using pingpong_frames_show [OF fr Suc.prems _ pong_letter_range(1), of "[2..<78]" garbage i] by auto
  obtain u where u: "pingpong_frames P buf garbage (int k) ?c (rev [2..<78]) t = Some u"
    "outputs stk n (concat (map (pong_line ?c) (rev [2..<78]))) t u" "pong_ready P k buf u"
    using pingpong_frames_show [OF fr t(3) _ pong_letter_range(1), of "rev [2..<78]" garbage i] by auto
  have 1: "pingpong_round P buf garbage (int k) ?c s = Some (pong_letter (Suc i), u)"
    using t(1) u(1) by (simp only: pingpong_round_def Option.bind.simps pong_letter_range(2))
  have 2: "outputs stk n (pong_round ?c) s u"
    using outputs_trans [OF t(2) u(2)] by (simp only: pong_round_def map_append concat_append)
  obtain v where v: "pingpong_rounds r P buf garbage (int k) (pong_letter (Suc i)) u = Some (pong_letter (Suc i + r), v)"
    "outputs stk n (concat (map (pong_round \<circ> pong_letter) [Suc i..<Suc i + r])) u v" "pong_ready P k buf v"
    using Suc.IH [OF u(3)] by blast
  have e: "[i..<i + Suc r] = i # [Suc i..<Suc i + r]" by (simp add: upt_conv_Cons)
  have 3: "outputs stk n (concat (map (pong_round \<circ> pong_letter) [i..<i + Suc r])) s v"
    using outputs_trans [OF 2 v(2)] unfolding e by (simp only: list.map concat.simps comp_apply)
  have "pingpong_rounds (Suc r) P buf garbage (int k) (pong_letter i) s = Some (pong_letter (i + Suc r), v)"
    using 1 v(1) by simp
  then show ?case using 3 v(3) by blast
qed

lemma pingpong_loop_endless: "pingpong_loop P buf garbage rtc_fd c s = None"
proof (rule ccontr)
  assume "pingpong_loop P buf garbage rtc_fd c s \<noteq> None"
  then obtain y where "pingpong_loop P buf garbage rtc_fd c s = Some y" by auto
  then show False
    by (rule pingpong_loop.raw_induct [of "\<lambda>_ _. False", rotated])
      (auto split: bind_splits)
qed

lemma pingpong_walls_spec: "walls buf (pingpong_walls buf m)" "changes m (pingpong_walls buf m) (area buf 81)"
proof -
  note at = fill_range_at [of _ 81 buf 0 "0x20" m]
  show "walls buf (pingpong_walls buf m)"
    using at [of 0] by (simp add: walls_def pingpong_walls_def)
  have "changes m (fill_range buf 0 81 0x20 m) (area buf 81)" by (rule fill_range_changes) simp_all
  moreover have "buf + of_nat j \<in> area buf 81" if "j < 81" for j using that by (intro area_offset) simp_all
  from this [of 80] this [of 79] this [of 78] this [of 1]
  have "buf + 80 \<in> area buf 81" "buf + 79 \<in> area buf 81" "buf + 78 \<in> area buf 81" "buf + 1 \<in> area buf 81" by simp_all
  ultimately show "changes m (pingpong_walls buf m) (area buf 81)" by (auto simp: pingpong_walls_def changes_def)
qed

lemma walls_changes: "changes m m' A \<Longrightarrow> A \<inter> area buf 81 = {} \<Longrightarrow> walls buf m' = walls buf m"
  using changes_in [of m m' A buf 81 0] changes_in [of m m' A buf 81 1] changes_in [of m m' A buf 81 78]
    changes_in [of m m' A buf 81 79] changes_in [of m m' A buf 81 80]
  by (simp add: walls_def)

lemma pingpong_starts:
  fixes s :: "'a tty_scheme"
  assumes st: "started s" "clock_file s" and fr: "pong_frame stk n buf ret"
    and lit: "literals_at P (memory s) {''rtc''}" "literals_apart P {''rtc''} stk n"
    and irqs: "32 \<le> count_list (prog_irqs P) True"
  shows "\<exists>t. pingpong_start P buf ret s = Some (2, t) \<and> outputs stk n [] s t \<and> pong_ready P 2 buf t"
proof -
  note f = pong_frameD [OF fr]
  have o: "program_ok s" "cursor_ok s" "fd_array s = std_fds" "image_apart (memory s) (boot_block s)"
    using st(1) by (simp_all add: started_def)
  define s1 where "s1 = s\<lparr>memory := pingpong_walls buf (memory s)\<rparr>"
  note w = pingpong_walls_spec [where buf = buf and m = "memory s"]
  have 1: "outputs stk n [] s s1" unfolding s1_def by (rule outputs_changes [OF o(1,2) f(1) w(2) f(4)])
  have r1: "runs stk n s s1" "program_ok s1" "cursor_ok s1" using 1 outputs_ok [OF 1] by (simp_all add: outputs_def)
  have fd1: "fd_array s1 = std_fds" using o(3) by (simp add: s1_def fd_array_def pcb_of_def)
  have name: "in_program (memory s1) (prog_lit P ''rtc'') (bytes ''rtc'')"
    using runs_literals [OF r1(1) lit f(2)] by (simp add: literals_at_def)
  have ln: "prog_lit P ''rtc'' \<noteq> 0" "bytes ''rtc'' \<noteq> []" "length (bytes ''rtc'') \<le> 32" using literal_name [OF name] by simp_all
  obtain i where i: "lookup (memory s1) (boot_block s1) (bytes ''rtc'') = Some i"
    "d_type (dentry_at (memory s1) (entry_addr (boot_block s1) (of_nat i))) = 0"
    using clock_file_runs [OF r1(1) o(4) st(2)] by (auto simp: clock_file_def)
  have fo: "find_open_fd (fd_array s1) = Some 2" using std_fds_first(1) fd1 by simp
  obtain s2 where s2: "ece391_open P (prog_lit P ''rtc'') s1 = Some (int 2, s2)" "same_screen s1 s2" "clock_fd 2 s2" "rtc_ok s2"
    using open_clock [OF r1(2) name ln fo i, of P] by blast
  have 2: "outputs stk n [] s1 s2" by (rule same_screen_runs(2) [OF s2(2) r1(3)])
  have o2: "program_ok s2" "cursor_ok s2" using outputs_ok [OF 2] by simp_all
  define s3 where "s3 = s2\<lparr>memory := wr32 (memory s2) ret 32\<rparr>"
  have 3: "outputs stk n [] s2 s3" unfolding s3_def by (rule outputs_changes [OF o2 f(1) changes_wr32 f(5)])
  have o3: "program_ok s3" "cursor_ok s3" using outputs_ok [OF 3] by simp_all
  have k3: "clock_fd 2 s3" using s2(3) by (simp add: s3_def clock_fd_def fd_array_def pcb_of_def)
  have v3: "rd32 (memory s3) ret = 32" by (simp add: s3_def rd32_wr32)
  obtain s4 where s4: "ece391_write P (int 2) ret 4 s3 = Some (0, s4)" "same_screen s3 s4" "fd_array s4 = fd_array s3" "virt_freq s4 = 32"
    using write_clock [OF o3(1) k3, of ret P] by (auto simp: v3 valid_freqs_def)
  have 4: "outputs stk n [] s3 s4" by (rule same_screen_runs(2) [OF s4(2) o3(2)])
  have o4: "program_ok s4" "cursor_ok s4" using outputs_ok [OF 4] by simp_all
  define t where "t = s4\<lparr>memory := wr32 (memory s4) ret 0\<rparr>"
  have 5: "outputs stk n [] s4 t" unfolding t_def by (rule outputs_changes [OF o4 f(1) changes_wr32 f(5)])
  have all: "outputs stk n [] s t"
    using outputs_trans [OF 1 outputs_trans [OF 2 outputs_trans [OF 3 outputs_trans [OF 4 5]]]] by simp
  have "memory s2 = memory s1" "memory s4 = memory s3" using s2(2) s4(2) by (simp_all add: same_screen_def)
  then have "walls buf (memory t)"
    using w(1) walls_changes [OF changes_wr32 f(6)] by (simp add: t_def s3_def s1_def)
  moreover have "clock_fd 2 t" using k3 s4(3) by (simp add: t_def clock_fd_def fd_array_def pcb_of_def)
  ultimately have "pong_ready P 2 buf t" using outputs_ok [OF 5] s4(4) irqs by (simp add: pong_ready_def t_def)
  moreover have "pingpong_start P buf ret s = Some (2, t)"
    using s2(1) s4(1) by (simp add: pingpong_start_def s1_def [symmetric] s3_def [symmetric] t_def)
  ultimately show ?thesis using all by blast
qed



end
