(* ===== verification/Fish.thy ===== *)
theory Fish
  imports Clock Grep
begin

section \<open>fish\<close>

text \<open>
  The main function of \<open>src/fish/fish.c\<close>: two text files are the two frames of an animation; where
  they differ from blank, a blinking character is handed to the engine, and then the clock drives
  it. The variables whose addresses are taken are addresses in the stack frames of \<open>main\<close> and
  \<open>add_frames\<close>.
\<close>

record fish_frame =
  fish_c0 :: addr
  fish_c1 :: addr
  frames_struct :: addr
  main_struct :: addr
  fish_ret_val :: addr
  fish_garbage :: addr
  main_blink_stack :: addr

text \<open>The engine as \<open>main\<close> calls it: its temporary structure is at another place of the stack.\<close>

definition main_vars :: "blink_vars \<Rightarrow> fish_frame \<Rightarrow> blink_vars" where
  "main_vars B F = B\<lparr>blink_stack := main_blink_stack F\<rparr>"

definition mp1_set_video_mode :: "'a program \<Rightarrow> blink_vars \<Rightarrow> 'a tty_scheme \<Rightarrow> (addr \<times> 'a tty_scheme) option" where
  "mp1_set_video_mode P B s = do {
     (r, s) \<leftarrow> ece391_vidmap P (vmem_base_addr B) s;
     Some (if r = -1 then 0 else rd32 (memory s) (vmem_base_addr B), s)
   }"

definition store_byte :: "addr \<Rightarrow> u8 \<Rightarrow> 'a tty_scheme \<Rightarrow> 'a tty_scheme" where
  "store_byte a c s = s\<lparr>memory := (memory s)(a := c)\<rparr>"

text \<open>The next character of a frame, unless its line has ended.\<close>

definition frame_char :: "'a program \<Rightarrow> int \<Rightarrow> addr \<Rightarrow> bool \<Rightarrow> 'a tty_scheme \<Rightarrow> (bool \<times> 'a tty_scheme) option" where
  "frame_char P fdn c eof s =
     (if memory s c = 0x0A then Some (eof, s)
      else do {
        (num_bytes, s) \<leftarrow> ece391_read P fdn c 1 s;
        Some (if num_bytes = 0 then (True, store_byte c 0x0A s) else (eof, s))
      })"

definition frame_cell :: "blink_vars \<Rightarrow> fish_frame \<Rightarrow> u32 \<Rightarrow> u32 \<Rightarrow> 'a tty_scheme \<Rightarrow> 'a tty_scheme option" where
  "frame_cell B F row col s =
     (let m = memory s; c0 = m (fish_c0 F); c1 = m (fish_c1 F); b = frames_struct F in
      if (c0 \<noteq> 0x20 \<and> c0 \<noteq> 0x0A) \<or> (c1 \<noteq> 0x20 \<and> c1 \<noteq> 0x0A) then do {
        let m = m(b + ON_CHAR := if c0 = 0x0A then 0x20 else c0);
        let m = m(b + OFF_CHAR := if c1 = 0x0A then 0x20 else c1);
        let m = wr16 m (b + LOCATION) (ucast (row * 80 + col + 40));
        (r, m) \<leftarrow> mp1_ioctl B b 0 m;
        Some (s\<lparr>memory := m\<rparr>)
      }
      else Some s)"

partial_function (option) frame_row ::
  "'a program \<Rightarrow> blink_vars \<Rightarrow> fish_frame \<Rightarrow> int \<Rightarrow> int \<Rightarrow> u32 \<Rightarrow> u32 \<Rightarrow> bool \<Rightarrow> bool \<Rightarrow> 'a tty_scheme \<Rightarrow>
    (bool \<times> bool \<times> 'a tty_scheme) option" where
  "frame_row P B F fd0 fd1 row col eof0 eof1 s = do {
     (eof0, s) \<leftarrow> frame_char P fd0 (fish_c0 F) eof0 s;
     (eof1, s) \<leftarrow> frame_char P fd1 (fish_c1 F) eof1 s;
     if memory s (fish_c0 F) = 0x0A \<and> memory s (fish_c1 F) = 0x0A then Some (eof0, eof1, s)
     else do {
       s \<leftarrow> frame_cell B F row col s;
       frame_row P B F fd0 fd1 row (col + 1) eof0 eof1 s
     }
   }"

definition frame_end :: "'a program \<Rightarrow> int \<Rightarrow> addr \<Rightarrow> bool \<Rightarrow> 'a tty_scheme \<Rightarrow> 'a tty_scheme option" where
  "frame_end P fdn c eof s =
     (if eof then do { (r, s) \<leftarrow> ece391_close P fdn (store_byte c 0x0A s); Some s }
      else Some (store_byte c 0x30 s))"

partial_function (option) frame_rows ::
  "'a program \<Rightarrow> blink_vars \<Rightarrow> fish_frame \<Rightarrow> int \<Rightarrow> int \<Rightarrow> u32 \<Rightarrow> bool \<Rightarrow> bool \<Rightarrow> 'a tty_scheme \<Rightarrow> 'a tty_scheme option" where
  "frame_rows P B F fd0 fd1 row eof0 eof1 s =
     (if \<not> eof0 \<or> \<not> eof1 then do {
        (eof0, eof1, s) \<leftarrow> frame_row P B F fd0 fd1 row 0 eof0 eof1 s;
        s \<leftarrow> frame_end P fd0 (fish_c0 F) eof0 s;
        s \<leftarrow> frame_end P fd1 (fish_c1 F) eof1 s;
        frame_rows P B F fd0 fd1 (row + 1) eof0 eof1 s
      }
      else Some s)"

text \<open>A program that calls \<open>halt\<close> does not come back: the left value is what the call leaves.\<close>

definition add_frames_vars :: "fish_frame \<Rightarrow> 'a tty_scheme \<Rightarrow> 'a tty_scheme" where
  "add_frames_vars F s = (let m = (memory s)(fish_c0 F := 0x30, fish_c1 F := 0x30);
      m = wr16 m (frames_struct F + ON_LENGTH) 15
    in s\<lparr>memory := wr16 m (frames_struct F + OFF_LENGTH) 15\<rparr>)"

definition add_frames ::
  "'a program \<Rightarrow> blink_vars \<Rightarrow> fish_frame \<Rightarrow> addr \<Rightarrow> addr \<Rightarrow> 'a tty_scheme \<Rightarrow>
    ('a tty_scheme outcome option + 'a tty_scheme) option" where
  "add_frames P B F f0 f1 s = do {
     (fd0, s) \<leftarrow> ece391_open P f0 (add_frames_vars F s);
     if fd0 < 0 then Some (Inl (ece391_halt P (-1) s))
     else do {
       (fd1, s) \<leftarrow> ece391_open P f1 s;
       if fd1 < 0 then Some (Inl (ece391_halt P (-1) s))
       else do { s \<leftarrow> frame_rows P B F fd0 fd1 0 False False s; Some (Inr s) }
     }
   }"

text \<open>The loops that wait for the clock; \<open>n\<close> turns are left.\<close>

primrec fish_wait :: "nat \<Rightarrow> 'a program \<Rightarrow> blink_vars \<Rightarrow> fish_frame \<Rightarrow> int \<Rightarrow> 'a tty_scheme \<Rightarrow> 'a tty_scheme option" where
  "fish_wait 0 P B F rtc_fd s = Some s"
| "fish_wait (Suc n) P B F rtc_fd s = do {
     (r, s) \<leftarrow> ece391_read P rtc_fd (fish_garbage F) 4 s;
     m \<leftarrow> mp1_rtc_tasklet B (memory s);
     fish_wait n P B F rtc_fd (s\<lparr>memory := m\<rparr>)
   }"

definition fish_ioctl :: "blink_vars \<Rightarrow> u32 \<Rightarrow> u32 \<Rightarrow> 'a tty_scheme \<Rightarrow> 'a tty_scheme option" where
  "fish_ioctl B arg cmd s = do { (r, m) \<leftarrow> mp1_ioctl B arg cmd (memory s); Some (s\<lparr>memory := m\<rparr>) }"

definition fish_blinker :: "fish_frame \<Rightarrow> 'a tty_scheme \<Rightarrow> 'a tty_scheme" where
  "fish_blinker F s = (let b = main_struct F; m = (memory s)(b + ON_CHAR := 0x49, b + OFF_CHAR := 0x4D);
      m = wr16 m (b + ON_LENGTH) 7; m = wr16 m (b + OFF_LENGTH) 6
    in s\<lparr>memory := wr16 m (b + LOCATION) (6 * 80 + 60)\<rparr>)"

definition fish_show :: "'a program \<Rightarrow> blink_vars \<Rightarrow> fish_frame \<Rightarrow> int \<Rightarrow> 'a tty_scheme \<Rightarrow> (int \<times> 'a tty_scheme) option" where
  "fish_show P B F rtc_fd s = do {
     let s = s\<lparr>memory := wr32 (memory s) (fish_ret_val F) 32\<rparr>;
     (r, s) \<leftarrow> ece391_write P rtc_fd (fish_ret_val F) 4 s;
     let s = s\<lparr>memory := wr32 (memory s) (fish_ret_val F) (word_of_int r)\<rparr>;
     s \<leftarrow> fish_wait 100 P B F rtc_fd s;
     s \<leftarrow> fish_ioctl (main_vars B F) (main_struct F) 0 (fish_blinker F s);
     s \<leftarrow> fish_wait 100 P B F rtc_fd s;
     s \<leftarrow> fish_ioctl (main_vars B F) (push_bit 16 40 OR (6 * 80 + 60)) 3 s;
     s \<leftarrow> fish_wait 100 P B F rtc_fd s;
     s \<leftarrow> fish_ioctl (main_vars B F) (6 * 80 + 60) 1 s;
     s \<leftarrow> fish_wait 100 P B F rtc_fd s;
     (r, s) \<leftarrow> ece391_close P rtc_fd s;
     Some (0, s)
   }"

definition fish_main ::
  "'a program \<Rightarrow> blink_vars \<Rightarrow> fish_frame \<Rightarrow> 'a tty_scheme \<Rightarrow> ('a tty_scheme outcome option + int \<times> 'a tty_scheme) option" where
  "fish_main P B F s = do {
     (vmem, s) \<leftarrow> mp1_set_video_mode P B (s\<lparr>memory := blink_start B (memory s)\<rparr>);
     if vmem = 0 then Some (Inr (-1, s))
     else do {
       (rtc_fd, s) \<leftarrow> ece391_open P (prog_lit P ''rtc'') s;
       out \<leftarrow> add_frames P B F (prog_lit P ''frame0.txt'') (prog_lit P ''frame1.txt'') s;
       case out of
         Inl halted \<Rightarrow> Some (Inl halted)
       | Inr s \<Rightarrow> do { (r, s) \<leftarrow> fish_show P B F rtc_fd s; Some (Inr (r, s)) }
     }
   }"

subsection \<open>What is to be seen\<close>

text \<open>The characters of two lines, one above the other; behind its end a line is blank.\<close>

definition char_at :: "u8 list \<Rightarrow> nat \<Rightarrow> u8" where
  "char_at l i = (if i < length l then l ! i else 0x20)"

definition cell :: "nat \<Rightarrow> nat \<Rightarrow> u8 \<Rightarrow> u8 \<Rightarrow> blinker list" where
  "cell r c a b = (if a = 0x20 \<and> b = 0x20 then []
     else [\<lparr>location = of_nat (80 * r + c + 40), on_char = a, off_char = b, on_length = 15, off_length = 15,
       countdown = 0, status = 0\<rparr>])"

definition row_cells :: "nat \<Rightarrow> nat \<Rightarrow> u8 list \<Rightarrow> u8 list \<Rightarrow> blinker list" where
  "row_cells r c l0 l1 = concat (map (\<lambda>i. cell r (c + i) (char_at l0 i) (char_at l1 i)) [0..<max (length l0) (length l1)])"

definition line_at :: "u8 list list \<Rightarrow> nat \<Rightarrow> u8 list" where
  "line_at L i = (if i < length L then L ! i else [])"

definition frame_cells :: "nat \<Rightarrow> u8 list list \<Rightarrow> u8 list list \<Rightarrow> blinker list" where
  "frame_cells r L0 L1 = concat (map (\<lambda>i. row_cells (r + i) 0 (line_at L0 i) (line_at L1 i)) [0..<max (length L0) (length L1)])"

text \<open>What \<open>main\<close> does with the engine when the frames are the texts \<open>xs\<close> and \<open>ys\<close>.\<close>

definition moving_blinker :: blinker where
  "moving_blinker = \<lparr>location = 540, on_char = 0x49, off_char = 0x4D, on_length = 7, off_length = 6, countdown = 0, status = 0\<rparr>"

definition fish_ops :: "u8 list \<Rightarrow> u8 list \<Rightarrow> blink_op list" where
  "fish_ops xs ys = map Add (frame_cells 0 (split_lines xs) (split_lines ys)) @ replicate 100 Tick @
     Add moving_blinker # replicate 100 Tick @ Sync 40 540 # replicate 100 Tick @ Remove 540 # replicate 100 Tick"

lemma upt_max_Suc: "0 < n \<Longrightarrow> [0..<n] = 0 # map Suc [0..<n - 1]"
  by (simp add: upt_conv_Cons map_Suc_upt)

lemma char_at_Suc: "char_at l (Suc i) = char_at (tl l) i"
  by (cases l) (simp_all add: char_at_def)

lemma row_cells_step:
  assumes "l0 \<noteq> [] \<or> l1 \<noteq> []"
  shows "row_cells r c l0 l1 = cell r c (char_at l0 0) (char_at l1 0) @ row_cells r (Suc c) (tl l0) (tl l1)"
proof -
  have n: "0 < max (length l0) (length l1)" using assms by (cases l0; cases l1) auto
  have m: "max (length l0) (length l1) - 1 = max (length (tl l0)) (length (tl l1))" by (cases l0; cases l1) auto
  show ?thesis
    unfolding row_cells_def upt_max_Suc [OF n] m by (simp add: char_at_Suc comp_def)
qed

lemma line_at_Suc: "line_at L (Suc i) = line_at (tl L) i"
  by (cases L) (simp_all add: line_at_def)

lemma frame_cells_step:
  assumes "L0 \<noteq> [] \<or> L1 \<noteq> []"
  shows "frame_cells r L0 L1 = row_cells r 0 (line_at L0 0) (line_at L1 0) @ frame_cells (Suc r) (tl L0) (tl L1)"
proof -
  have n: "0 < max (length L0) (length L1)" using assms by (cases L0; cases L1) auto
  have m: "max (length L0) (length L1) - 1 = max (length (tl L0)) (length (tl L1))" by (cases L0; cases L1) auto
  show ?thesis
    unfolding frame_cells_def upt_max_Suc [OF n] m by (simp add: line_at_Suc comp_def)
qed

lemma row_cells_Nil [simp]: "row_cells r c [] [] = []"
  by (simp add: row_cells_def)

lemma frame_cells_Nil [simp]: "frame_cells r [] [] = []"
  by (simp add: frame_cells_def)

subsection \<open>The operations of the engine\<close>

lemma spec_blinks_append:
  "spec_blinks (xs @ ys) s = (case spec_blinks xs s of (rs, t) \<Rightarrow> case spec_blinks ys t of (qs, u) \<Rightarrow> (rs @ qs, u))"
  by (induction xs arbitrary: s) (auto split: prod.splits)

lemma spec_add_cong: "blink_new b = blink_new c \<Longrightarrow> spec_blink (Add b) x = spec_blink (Add c) x"
proof (cases x)
  case (Pair bs scr)
  assume e: "blink_new b = blink_new c"
  have "location (blink_new b) = location (blink_new c)" "on_char (blink_new b) = on_char (blink_new c)" using e by simp_all
  then have "location b = location c" "on_char b = on_char c" by (simp_all add: blink_new_def)
  then show ?thesis using e by (simp add: Pair)
qed

text \<open>Adding the structure the program has filled in.\<close>

lemma ioctl_add:
  assumes L: "blink_layout B" and arg: "arg_apart B arg" and ok: "blinks_ok B ps m"
    and b: "blink_new (blink_at m arg) = blink_new b" "location b \<noteq> 0"
  shows "\<exists>r m' qs. mp1_ioctl B arg 0 m = Some (r, m') \<and> blinks_ok B qs m' \<and>
    spec_blink (Add b) (blinkers ps m, shown m) = (r, blinkers qs m', shown m') \<and> changes m m' (engine B)"
proof -
  note ad = arg_apartD [OF arg]
  let ?c = "blink_at m arg"
  have "location (blink_new ?c) = location (blink_new b)" using b(1) by simp
  then have l: "location ?c \<noteq> 0" using b(2) by (simp add: blink_new_def)
  have s: "spec_blink (Add b) x = spec_blink (Add ?c) x" for x using spec_add_cong [OF b(1)] by simp
  note a = add_spec [OF L ok ad(6)]
  have len: "length (blinkers ps m) = length ps" by (simp add: blinkers_def)
  have e: "mp1_ioctl B arg 0 m = Some (fst (mp1_ioctl_add B arg m), snd (mp1_ioctl_add B arg m))" by (simp add: mp1_ioctl_def)
  show ?thesis
  proof (cases "80 * 25 \<le> location ?c \<or> length ps = BLINKS")
    case True
    then show ?thesis unfolding s using a e
      by (intro exI [of _ "-1"] exI [of _ "snd (mp1_ioctl_add B arg m)"] exI [of _ ps]) (auto simp: len)
  next
    case False
    then obtain p where "fst (mp1_ioctl_add B arg m) = 0" "blinks_ok B (p # ps) (snd (mp1_ioctl_add B arg m))"
      "blinkers (p # ps) (snd (mp1_ioctl_add B arg m)) = blink_new ?c # blinkers ps m"
      "shown (snd (mp1_ioctl_add B arg m)) = (shown m)[unat (location ?c) := on_char ?c]"
      using a(1) l by auto
    then show ?thesis unfolding s using e False a(2)
      by (intro exI [of _ 0] exI [of _ "snd (mp1_ioctl_add B arg m)"] exI [of _ "p # ps"]) (simp add: len)
  qed
qed

subsection \<open>The memory of the program\<close>

definition fish_own :: "blink_vars \<Rightarrow> fish_frame \<Rightarrow> (addr \<times> nat) list" where
  "fish_own B F = [(blink_array B, 32000), (mp1_list_head B, 4), (vmem_base_addr B, 4), (blink_stack B, 16),
     (main_blink_stack F, 16), (frames_struct F, 16), (fish_c0 F, 1), (fish_c1 F, 1), (main_struct F, 16), (fish_ret_val F, 4)]"

definition fish_area :: "blink_vars \<Rightarrow> fish_frame \<Rightarrow> addr set" where
  "fish_area B F = area video_mem_addr 4096 \<union> (\<Union>(a, n) \<in> set (fish_own B F). area a n)"

definition fish_layout :: "'a program \<Rightarrow> blink_vars \<Rightarrow> fish_frame \<Rightarrow> string set \<Rightarrow> bool" where
  "fish_layout P B F X \<longleftrightarrow>
     separate (blink_areas B @ [(frames_struct F, 16), (fish_c0 F, 1), (fish_c1 F, 1)]) \<and>
     separate (blink_areas (main_vars B F) @ [(main_struct F, 16), (fish_ret_val F, 4)]) \<and>
     (\<forall>(a, n) \<in> set (fish_own B F). user_range a n) \<and>
     (\<forall>x \<in> X. \<forall>(a, n) \<in> set (fish_own B F). area (prog_lit P x) (Suc (length x)) \<inter> area a n = {})"

text \<open>Memory the engine does not look at.\<close>

definition spare :: "blink_vars \<Rightarrow> addr set \<Rightarrow> bool" where
  "spare B A \<longleftrightarrow> A \<inter> area (blink_array B) 32000 = {} \<and> A \<inter> area (mp1_list_head B) 4 = {} \<and>
     A \<inter> area (vmem_base_addr B) 4 = {} \<and> A \<inter> area video_mem_addr 4096 = {}"

lemma spare_keeps:
  assumes "blinks_ok B ps m" "changes m m' A" "spare B A"
  shows "blinks_ok B ps m'" "blinkers ps m' = blinkers ps m" "shown m' = shown m"
  using blinks_ok_same [OF assms(1,2)] shown_changes [OF assms(2)] assms(3) by (simp_all add: spare_def)

lemma main_vars_simps [simp]:
  "blink_array (main_vars B F) = blink_array B" "mp1_list_head (main_vars B F) = mp1_list_head B"
  "vmem_base_addr (main_vars B F) = vmem_base_addr B" "blink_stack (main_vars B F) = main_blink_stack F"
  "blinks_ok (main_vars B F) ps m = blinks_ok B ps m"
  by (simp_all add: main_vars_def blinks_ok_def slots_def blink_slot_def)

lemma separate_append:
  "separate (xs @ ys) \<longleftrightarrow> separate xs \<and> separate ys \<and> (\<forall>(a, n) \<in> set xs. \<forall>(c, k) \<in> set ys. area a n \<inter> area c k = {})"
  by (induction xs rule: separate.induct) (simp_all add: ball_Un conj_ac)

lemma fish_layoutD:
  assumes "fish_layout P B F X"
  shows "blink_layout B" "blink_layout (main_vars B F)" "arg_apart B (frames_struct F)" "arg_apart (main_vars B F) (main_struct F)"
    "spare B (area (fish_c0 F) 1)" "spare B (area (fish_c1 F) 1)" "spare B (area (frames_struct F) 16)"
    "spare B (area (main_struct F) 16)" "spare B (area (fish_ret_val F) 4)"
    "area (fish_c0 F) 1 \<inter> area (frames_struct F) 16 = {}" "area (fish_c1 F) 1 \<inter> area (frames_struct F) 16 = {}"
    "area (fish_c0 F) 1 \<inter> area (fish_c1 F) 1 = {}" "engine B \<inter> area (fish_c0 F) 1 = {}" "engine B \<inter> area (fish_c1 F) 1 = {}"
    "engine B \<inter> area (frames_struct F) 16 = {}"
proof -
  let ?l = "[(frames_struct F, 16), (fish_c0 F, 1), (fish_c1 F, 1)]" and ?k = "[(main_struct F, 16), (fish_ret_val F, 4)]"
  note s = assms [unfolded fish_layout_def separate_append]
  show "blink_layout B" "blink_layout (main_vars B F)" using s by (simp_all add: blink_layout_def)
  have a: "area a n \<inter> area c k = {}" if "(a, n) \<in> set (blink_areas B)" "(c, k) \<in> set ?l" for a n c k using s that by blast
  have b: "area a n \<inter> area c k = {}" if "(a, n) \<in> set (blink_areas (main_vars B F))" "(c, k) \<in> set ?k" for a n c k using s that by blast
  have tl: "(a, n) \<in> set (blink_areas C)" if "(a, n) \<in> set (tl (blink_areas C))" for C a n
    using that by (simp add: blink_areas_def)
  have "area (frames_struct F) 16 \<inter> area a n = {}" if "(a, n) \<in> set (tl (blink_areas B))" for a n
    using a [OF tl [OF that], of "frames_struct F" 16] by (simp add: Int_commute)
  then show "arg_apart B (frames_struct F)" unfolding arg_apart_def by blast
  have "area (main_struct F) 16 \<inter> area a n = {}" if "(a, n) \<in> set (tl (blink_areas (main_vars B F)))" for a n
    using b [OF tl [OF that], of "main_struct F" 16] by (simp add: Int_commute)
  then show "arg_apart (main_vars B F) (main_struct F)" unfolding arg_apart_def by blast
  have mem: "(blink_array C, 32000) \<in> set (blink_areas C)" "(mp1_list_head C, 4) \<in> set (blink_areas C)"
    "(vmem_base_addr C, 4) \<in> set (blink_areas C)" "(video_mem_addr, 4096) \<in> set (blink_areas C)" "(blink_stack C, 16) \<in> set (blink_areas C)" for C
    by (simp_all add: blink_areas_def STRUCT_SIZE_def BLINKS_def)
  have sp: "spare B (area c k)" if "(c, k) \<in> set ?l" for c k
    unfolding spare_def using a [OF mem(1) that] a [OF mem(2) that] a [OF mem(3) that] a [OF mem(4) that] by (simp add: Int_commute)
  have sq: "spare B (area c k)" if "(c, k) \<in> set ?k" for c k
    unfolding spare_def using b [OF mem(1) that] b [OF mem(2) that] b [OF mem(3) that] b [OF mem(4) that] by (simp add: Int_commute)
  show "spare B (area (fish_c0 F) 1)" "spare B (area (fish_c1 F) 1)" "spare B (area (frames_struct F) 16)" by (rule sp; simp)+
  show "spare B (area (main_struct F) 16)" "spare B (area (fish_ret_val F) 4)" by (rule sq; simp)+
  show "area (fish_c0 F) 1 \<inter> area (frames_struct F) 16 = {}" "area (fish_c1 F) 1 \<inter> area (frames_struct F) 16 = {}"
    "area (fish_c0 F) 1 \<inter> area (fish_c1 F) 1 = {}"
    using s by (simp_all add: Int_commute)
  have e: "engine B \<inter> area c k = {}" if "(c, k) \<in> set ?l" for c k
    unfolding engine_def Int_Un_distrib2
    using a [OF mem(1) that] a [OF mem(2) that] a [OF mem(4) that] a [OF mem(5) that] by simp
  show "engine B \<inter> area (fish_c0 F) 1 = {}" "engine B \<inter> area (fish_c1 F) 1 = {}" "engine B \<inter> area (frames_struct F) 16 = {}"
    by (rule e; simp)+
qed

lemma fish_area_sub:
  "engine B \<subseteq> fish_area B F" "engine (main_vars B F) \<subseteq> fish_area B F" "area (fish_c0 F) 1 \<subseteq> fish_area B F" "area (fish_c1 F) 1 \<subseteq> fish_area B F"
  "area (frames_struct F) 16 \<subseteq> fish_area B F" "area (main_struct F) 16 \<subseteq> fish_area B F" "area (fish_ret_val F) 4 \<subseteq> fish_area B F"
  "area (vmem_base_addr B) 4 \<subseteq> fish_area B F" "area (blink_array B) 32000 \<subseteq> fish_area B F"
  by (auto simp: fish_area_def fish_own_def engine_def)

lemma area_window: "user_range a n \<Longrightarrow> x \<in> area a n \<Longrightarrow> in_window x"
proof -
  assume "user_range a n" "x \<in> area a n"
  then have "in_window (a + of_nat (unat (x - a)))" unfolding user_range_def area_def by blast
  then show ?thesis by simp
qed

lemma video_screen_area: "x \<in> area video_mem_addr 4096 \<Longrightarrow> screen_area x"
proof -
  assume "x \<in> area video_mem_addr 4096"
  then have u: "unat (x - 0xB8000) < 4096" by (simp add: area_def video_mem_addr_def)
  have "x - 0xB7F04 = (x - 0xB8000) + 0xFC" by simp
  then have "unat (x - 0xB7F04) = unat (x - 0xB8000) + 0xFC" using u by (simp only: unat_word_ariths) simp
  then show ?thesis using u by (simp add: screen_area_def)
qed

lemma fish_area_scratch: "fish_layout P B F X \<Longrightarrow> x \<in> fish_area B F \<Longrightarrow> scratch x"
  using area_window video_screen_area scratch_cases(1,2) unfolding fish_layout_def fish_area_def by blast

subsection \<open>Steps of the program\<close>

text \<open>The program writes only its own variables and the screen.\<close>

definition fish_runs :: "blink_vars \<Rightarrow> fish_frame \<Rightarrow> 'a tty_scheme \<Rightarrow> 'a tty_scheme \<Rightarrow> bool" where
  "fish_runs B F s t \<longleftrightarrow> program_ok t \<and> boot_block t = boot_block s \<and> tasks_running t = tasks_running s \<and>
     changes (memory s) (memory t) (fish_area B F)"

lemma fish_runs_refl: "program_ok s \<Longrightarrow> fish_runs B F s s"
  by (simp add: fish_runs_def)

lemma fish_runs_same: "fish_runs B F s t \<Longrightarrow> same_screen t u \<Longrightarrow> fish_runs B F s u"
  by (simp add: fish_runs_def same_screen_def)

lemma fd_array_memory [simp]: "fd_array (s\<lparr>memory := m\<rparr>) = fd_array s"
  by (simp add: fd_array_def pcb_of_def)

lemma fish_runs_memory:
  fixes s t :: "'a tty_scheme"
  assumes "fish_runs B F s t" "changes (memory t) m A" "A \<subseteq> fish_area B F"
  shows "fish_runs B F s (t\<lparr>memory := m\<rparr>)"
proof -
  have "program_ok (t\<lparr>memory := m\<rparr>)"
    using assms(1) terminals_ok_same [of "t\<lparr>memory := m\<rparr>" t] by (auto simp: fish_runs_def program_ok_def)
  then show ?thesis
    using assms(1) changes_trans [OF _ changes_mono [OF assms(2,3)]] by (simp add: fish_runs_def)
qed

lemma fish_image:
  fixes s t :: "'a tty_scheme"
  assumes "fish_layout P B F X" "fish_runs B F s t" "image_apart (memory s) (boot_block s)"
  shows "same_image (boot_block s) (memory s) (memory t)" "image_apart (memory t) (boot_block t)"
proof -
  have "undisturbed (memory s) (memory t)"
    using assms(2) fish_area_scratch [OF assms(1)] unfolding fish_runs_def undisturbed_def changes_def by blast
  then show "same_image (boot_block s) (memory s) (memory t)" "image_apart (memory t) (boot_block t)"
    using image_now [OF assms(3)] assms(2) by (simp_all add: fish_runs_def)
qed

lemma fish_literal:
  fixes s t :: "'a tty_scheme"
  assumes L: "fish_layout P B F X" and r: "fish_runs B F s t" and x: "x \<in> X" "in_program (memory s) (prog_lit P x) (bytes x)"
  shows "in_program (memory t) (prog_lit P x) (bytes x)"
proof -
  have len: "length (bytes x) = length x" "length x < 2 ^ 31" using x(2) by (simp_all add: bytes_def in_program_def)
  have w: "in_window (prog_lit P x + of_nat i)" if "i \<le> length x" for i using x(2) that len by (simp add: in_program_def)
  have "memory t (prog_lit P x + of_nat i) = memory s (prog_lit P x + of_nat i)" if i: "i \<le> length x" for i
  proof -
    have "prog_lit P x + of_nat i \<in> area (prog_lit P x) (Suc (length x))" using len i by (intro area_offset) simp_all
    moreover have "area (prog_lit P x) (Suc (length x)) \<inter> area a n = {}" if "(a, n) \<in> set (fish_own B F)" for a n
      using L x(1) that unfolding fish_layout_def by blast
    moreover have "prog_lit P x + of_nat i \<notin> area video_mem_addr 4096" using w [OF i] window_not_screen video_screen_area by blast
    ultimately have "prog_lit P x + of_nat i \<notin> fish_area B F" unfolding fish_area_def by blast
    then show ?thesis using r unfolding fish_runs_def changes_def by blast
  qed
  then show ?thesis using x(2) string_at_cong [of "bytes x" "memory t" "prog_lit P x" "memory s"] len by (simp add: in_program_def)
qed

subsection \<open>Reading a frame\<close>

text \<open>What is left of a frame: \<open>e\<close> says that its end has been seen.\<close>

definition frame_source :: "'a tty_scheme \<Rightarrow> nat \<Rightarrow> u32 \<Rightarrow> u8 list \<Rightarrow> bool \<Rightarrow> u8 list \<Rightarrow> bool" where
  "frame_source s k ino xs e rest \<longleftrightarrow> (if e then rest = []
     else flags (fd_array s ! k) \<noteq> 0 \<and> fops (fd_array s ! k) = Some File_fops \<and> inode (fd_array s ! k) = ino \<and>
       unat (file_position (fd_array s ! k)) \<le> length xs \<and> rest = drop (unat (file_position (fd_array s ! k))) xs)"

lemma frame_source_cong: "fd_array t ! k = fd_array s ! k \<Longrightarrow> frame_source t k ino xs e rest = frame_source s k ino xs e rest"
  by (simp add: frame_source_def)

definition other_fds :: "nat \<Rightarrow> 'a tty_scheme \<Rightarrow> 'a tty_scheme \<Rightarrow> bool" where
  "other_fds k s t \<longleftrightarrow> (\<forall>j. j \<noteq> k \<longrightarrow> fd_array t ! j = fd_array s ! j)"

text \<open>The two files, in a machine that is about to run the program.\<close>

definition frame_file :: "'a tty_scheme \<Rightarrow> u32 \<Rightarrow> u8 list \<Rightarrow> bool" where
  "frame_file s ino xs \<longleftrightarrow> image_apart (memory s) (boot_block s) \<and> ino < boot_inodes (memory s) (boot_block s) \<and>
     xs = file_bytes (memory s) (boot_block s) ino"

lemma read_end_byte: "p < n \<Longrightarrow> read_end n p 1 = p + 1"
  using div_times_less_eq_dividend [of "p + 1" 4096] by (simp add: read_end_def Let_def)

lemma frame_read:
  fixes s s0 :: "'a tty_scheme"
  assumes L: "fish_layout P B F X" and r: "fish_runs B F s0 s" and f: "frame_file s0 ino xs"
    and c: "c \<in> {fish_c0 F, fish_c1 F}" and k: "2 \<le> k" "k < 8" and src: "frame_source s k ino xs False rest"
  shows "rest = [] \<Longrightarrow> ece391_read P (int k) c 1 s = Some (0, s)"
    "rest = x # ys \<Longrightarrow> \<exists>t. ece391_read P (int k) c 1 s = Some (1, t) \<and> memory t = (memory s)(c := x) \<and> fish_runs B F s0 t \<and>
      frame_source t k ino xs False ys \<and> other_fds k s t"
proof -
  have ok: "program_ok s" "boot_block s = boot_block s0" using r by (simp_all add: fish_runs_def)
  have img0: "image_apart (memory s0) (boot_block s0)" "ino < boot_inodes (memory s0) (boot_block s0)"
    using f by (simp_all add: frame_file_def)
  note im = fish_image [OF L r img0(1)]
  let ?f = "fd_array s ! k"
  define p where "p = unat (file_position ?f)"
  have s: "flags ?f \<noteq> 0" "fops ?f = Some File_fops" "inode ?f = ino" "p \<le> length xs" "rest = drop p xs"
    using src by (simp_all add: frame_source_def p_def)
  have io: "image_ok (memory s0) (boot_block s0)" using img0(1) by (simp add: image_apart_def)
  have size: "file_size (memory s) (boot_block s) ino = length xs" "length xs < 0x200000"
    using same_image_inode(1) [OF im(1) img0(2)] f img0 by (simp_all add: frame_file_def file_bytes_def ok(2) image_apart_def)
  have inodes: "ino < boot_inodes (memory s) (boot_block s)" using same_image_boot(1) [OF im(1)] img0(2) ok(2) by simp
  have "(c, 1) \<in> set (fish_own B F)" using c by (auto simp: fish_own_def)
  then have ur: "user_range c 1" using L unfolding fish_layout_def by blast
  have rd: "ece391_read P (int k) c 1 s = (if length xs \<le> p then Some (0, s)
     else Some (int (read_end (length xs) p 1 - p), upd_fd (tasks_running s) k (\<lambda>f. f\<lparr>file_position := of_nat (read_end (length xs) p 1)\<rparr>)
       (s\<lparr>memory := put (memory s) c (map (file_byte (memory s) (boot_block s) ino) [p..<read_end (length xs) p 1])\<rparr>)))"
    using read_file [OF ok(1) k refl s(1,2) im(2) _ ur _ _, of P] s(3,4) size inodes user_range_nonzero [OF ur]
    by (simp add: p_def [symmetric])
  show "ece391_read P (int k) c 1 s = Some (0, s)" if "rest = []" using rd s(5) that by simp
  assume x: "rest = x # ys"
  have p0: "p < length xs" using x s(5) by (cases "p < length xs") simp_all
  have "xs ! p # drop (Suc p) xs = x # ys" using Cons_nth_drop_Suc [OF p0] s(5) x by simp
  then have p: "p < length xs" "x = xs ! p" "ys = drop (Suc p) xs" using p0 by simp_all
  have "file_byte (memory s) (boot_block s) ino p = file_byte (memory s0) (boot_block s0) ino p"
    using same_image_ok(3) [OF im(1) io img0(2), of p] p(1) size(2) ok(2) by simp
  then have b: "file_byte (memory s) (boot_block s) ino p = x"
    using p(1,2) f by (simp add: frame_file_def file_bytes_def)
  define u where "u = s\<lparr>memory := (memory s)(c := x)\<rparr>"
  define t where "t = upd_fd (tasks_running u) k (\<lambda>f. f\<lparr>file_position := of_nat (p + 1)\<rparr>) u"
  have call: "ece391_read P (int k) c 1 s = Some (1, t)"
    using rd p(1) b by (simp add: read_end_byte [OF p(1), simplified] t_def u_def)
  have "changes (memory s) ((memory s)(c := x)) (area c 1)" by (simp add: changes_def area_def)
  moreover have sub: "area c 1 \<subseteq> fish_area B F" using c fish_area_sub(3,4) by blast
  ultimately have ru: "fish_runs B F s0 u" unfolding u_def by (rule fish_runs_memory [OF r])
  have fu: "fd_array u = fd_array s" by (simp add: u_def)
  have same: "same_screen u t"
    unfolding t_def using ru k(1) s(2) by (intro same_screen_upd_fd) (simp_all add: fish_runs_def fu closable_def)
  have ft: "fd_array t = (fd_array s)[k := ?f\<lparr>file_position := of_nat (p + 1)\<rparr>]"
    unfolding t_def fds_of_upd_fd fu ..
  have len: "length (fd_array s) = 8" by (rule program_okD(5) [OF ok(1)])
  have "unat (of_nat (p + 1) :: u32) = p + 1" using p(1) size(2) by (simp only: unat_of_nat) (simp add: take_bit_nat_eq_self)
  then have "frame_source t k ino xs False ys"
    using s(1-3) p k len unfolding frame_source_def ft by simp
  moreover have "other_fds k s t" by (simp add: other_fds_def ft)
  moreover have "memory t = (memory s)(c := x)" using same by (simp add: same_screen_def u_def)
  ultimately show "\<exists>t. ece391_read P (int k) c 1 s = Some (1, t) \<and> memory t = (memory s)(c := x) \<and> fish_runs B F s0 t \<and>
      frame_source t k ino xs False ys \<and> other_fds k s t"
    using call fish_runs_same [OF ru same] by blast
qed

text \<open>One character further.\<close>

definition next_char :: "u8 \<Rightarrow> bool \<Rightarrow> u8 list \<Rightarrow> u8 \<times> bool \<times> u8 list" where
  "next_char ch e rest = (if ch = 0x0A then (ch, e, rest) else case rest of [] \<Rightarrow> (0x0A, True, []) | x # ys \<Rightarrow> (x, e, ys))"

text \<open>What is left of the line, and what comes behind it.\<close>

definition row_left :: "u8 \<Rightarrow> u8 list \<Rightarrow> u8 list" where
  "row_left ch rest = (if ch = 0x0A then [] else takeWhile (\<lambda>c. c \<noteq> 0x0A) rest)"

definition row_end :: "u8 \<Rightarrow> bool \<Rightarrow> u8 list \<Rightarrow> bool \<times> u8 list" where
  "row_end ch e rest = (if ch = 0x0A then (e, rest)
     else if 0x0A \<in> set rest then (e, tl (dropWhile (\<lambda>c. c \<noteq> 0x0A) rest)) else (True, []))"

lemma next_char_row:
  assumes "next_char ch e rest = (ch', e', rest')"
  shows "row_left ch rest = [] \<Longrightarrow> ch' = 0x0A \<and> row_end ch e rest = (e', rest')"
    "row_left ch rest \<noteq> [] \<Longrightarrow> ch' = hd (row_left ch rest) \<and> ch' \<noteq> 0x0A \<and> row_left ch' rest' = tl (row_left ch rest) \<and>
      row_end ch' e' rest' = row_end ch e rest \<and> e' = e"
  using assms by (cases rest; auto simp: next_char_def row_left_def row_end_def split: if_splits)+

lemma row_end_left: "row_left 0x0A rest = []" "row_end 0x0A e rest = (e, rest)"
  by (simp_all add: row_left_def row_end_def)

lemma next_char_ends:
  assumes "next_char ch e rest = (ch', e', rest')"
  shows "row_end ch' e' rest' = row_end ch e rest \<and> row_left ch' rest' = tl (row_left ch rest)"
  using next_char_row [OF assms] row_end_left by (cases "row_left ch rest = []") (simp, blast)

text \<open>While \<open>add_frames\<close> draws.\<close>

definition drawing :: "blink_vars \<Rightarrow> fish_frame \<Rightarrow> 'a tty_scheme \<Rightarrow> addr list \<Rightarrow> 'a tty_scheme \<Rightarrow> bool" where
  "drawing B F s0 ps s \<longleftrightarrow> fish_runs B F s0 s \<and> blinks_ok B ps (memory s) \<and>
     on_length (blink_at (memory s) (frames_struct F)) = 15 \<and> off_length (blink_at (memory s) (frames_struct F)) = 15"

definition same_picture :: "addr list \<Rightarrow> 'a tty_scheme \<Rightarrow> 'a tty_scheme \<Rightarrow> bool" where
  "same_picture ps s t \<longleftrightarrow> blinkers ps (memory t) = blinkers ps (memory s) \<and> shown (memory t) = shown (memory s)"

lemma drawing_char:
  fixes s t :: "'a tty_scheme"
  assumes L: "fish_layout P B F X" and d: "drawing B F s0 ps s" and r: "fish_runs B F s0 t"
    and c: "c \<in> {fish_c0 F, fish_c1 F}" "memory t = (memory s)(c := x)"
  shows "drawing B F s0 ps t" "same_picture ps s t"
proof -
  note l = fish_layoutD [OF L]
  have ch: "changes (memory s) (memory t) (area c 1)" by (simp add: c(2) changes_def area_def)
  have sp: "spare B (area c 1)" "area c 1 \<inter> area (frames_struct F) 16 = {}" using c(1) l(5,6,10,11) by auto
  note k = spare_keeps [OF _ ch sp(1), of ps]
  show "drawing B F s0 ps t" "same_picture ps s t"
    using d r k blink_at_changes(1) [OF ch sp(2)] by (simp_all add: drawing_def same_picture_def)
qed

lemma drawing_same:
  fixes s t :: "'a tty_scheme"
  shows "drawing B F s0 ps s \<Longrightarrow> same_screen s t \<Longrightarrow> drawing B F s0 ps t"
  using fish_runs_same [of B F s0 s t] by (simp add: drawing_def same_screen_def)

lemma frame_char_spec:
  fixes s s0 :: "'a tty_scheme"
  assumes L: "fish_layout P B F X" and d: "drawing B F s0 ps s" and f: "frame_file s0 ino xs"
    and c: "c \<in> {fish_c0 F, fish_c1 F}" and k: "2 \<le> k" "k < 8" and src: "frame_source s k ino xs e rest" "e \<Longrightarrow> memory s c = 0x0A"
    and nx: "next_char (memory s c) e rest = (ch', e', rest')"
  shows "\<exists>t. frame_char P (int k) c e s = Some (e', t) \<and> drawing B F s0 ps t \<and> same_picture ps s t \<and>
    memory t = (memory s)(c := ch') \<and> frame_source t k ino xs e' rest' \<and> other_fds k s t"
proof (cases "memory s c = 0x0A")
  case True
  then have "frame_char P (int k) c e s = Some (e', s)" "ch' = memory s c" "e' = e" "rest' = rest"
    using nx by (simp_all add: frame_char_def next_char_def)
  then show ?thesis using d src by (intro exI [of _ s]) (simp add: same_picture_def other_fds_def)
next
  case False
  then have e: "\<not> e" using src(2) by blast
  then have src': "frame_source s k ino xs False rest" using src(1) by simp
  have r: "fish_runs B F s0 s" using d by (simp add: drawing_def)
  note rd = frame_read [OF L r f c k src']
  show ?thesis
  proof (cases rest)
    case Nil
    define t where "t = store_byte c 0x0A s"
    have q: "ch' = 0x0A" "e'" "rest' = []" using nx Nil False by (simp_all add: next_char_def)
    have "changes (memory s) ((memory s)(c := 0x0A)) (area c 1)" by (simp add: changes_def area_def)
    moreover have "area c 1 \<subseteq> fish_area B F" using c fish_area_sub(3,4) by blast
    ultimately have rt: "fish_runs B F s0 t" unfolding t_def store_byte_def by (rule fish_runs_memory [OF r])
    have m: "memory t = (memory s)(c := 0x0A)" "fd_array t = fd_array s" by (simp_all add: t_def store_byte_def)
    have "frame_char P (int k) c e s = Some (e', t)"
      using rd(1) [OF Nil] False q by (simp add: frame_char_def t_def)
    then show ?thesis
      using drawing_char [OF L d rt c m(1)] m q by (intro exI [of _ t]) (simp add: frame_source_def other_fds_def)
  next
    case (Cons x ys)
    have q: "ch' = x" "e' = e" "rest' = ys" using nx Cons False by (simp_all add: next_char_def)
    obtain t where t: "ece391_read P (int k) c 1 s = Some (1, t)" "memory t = (memory s)(c := x)" "fish_runs B F s0 t"
      "frame_source t k ino xs False ys" "other_fds k s t"
      using rd(2) [OF Cons] by blast
    have "frame_char P (int k) c e s = Some (e', t)" using t(1) False q by (simp add: frame_char_def)
    then show ?thesis using drawing_char [OF L d t(3) c t(2)] t q e by auto
  qed
qed

lemma frame_location: "(ucast (of_nat r * 80 + of_nat c + 40 :: u32) :: u16) = of_nat (80 * r + c + 40)"
proof -
  have "(ucast (of_nat n :: u32) :: u16) = of_nat n" for n
    by (rule bit_word_eqI) (auto simp: bit_simps dest: bit_imp_le_length)
  from this [of "80 * r + c + 40"] show ?thesis by (simp add: mult.commute)
qed

lemma cell_struct:
  fixes m :: mem and a b :: u8 and l :: u16
  assumes "on_length (blink_at m p) = 15" "off_length (blink_at m p) = 15"
  defines "m' \<equiv> wr16 (m(p + ON_CHAR := a, p + OFF_CHAR := b)) (p + LOCATION) l"
  shows "blink_new (blink_at m' p) = blink_new \<lparr>location = l, on_char = a, off_char = b, on_length = 15, off_length = 15,
      countdown = 0, status = 0\<rparr>" "changes m m' (area p 16)" "on_length (blink_at m' p) = 15" "off_length (blink_at m' p) = 15"
proof -
  have "rd16 m' (p + LOCATION) = l" unfolding m'_def by (rule rd16_wr16)
  then have f: "location (blink_at m' p) = l" "on_char (blink_at m' p) = a" "off_char (blink_at m' p) = b"
    "on_length (blink_at m' p) = on_length (blink_at m p)" "off_length (blink_at m' p) = off_length (blink_at m p)"
    by (simp_all add: blink_at_def m'_def wr16_def rd16_def add.assoc)
  then show "blink_new (blink_at m' p) = blink_new \<lparr>location = l, on_char = a, off_char = b, on_length = 15, off_length = 15,
      countdown = 0, status = 0\<rparr>" "on_length (blink_at m' p) = 15" "off_length (blink_at m' p) = 15"
    using assms(1,2) by (simp_all add: blink_new_def)
  show "changes m m' (area p 16)" by (auto simp: m'_def changes_def wr16_def area_def)
qed

text \<open>What happens on the screen is what the operations do to an abstract list of blinkers.\<close>

definition acts :: "blink_op list \<Rightarrow> addr list \<Rightarrow> 'a tty_scheme \<Rightarrow> addr list \<Rightarrow> 'a tty_scheme \<Rightarrow> bool" where
  "acts ops ps s qs t \<longleftrightarrow> (\<exists>rs. spec_blinks ops (blinkers ps (memory s), shown (memory s)) =
     (rs, blinkers qs (memory t), shown (memory t)))"

lemma acts_append: "acts xs ps s qs t \<Longrightarrow> acts ys qs t os u \<Longrightarrow> acts (xs @ ys) ps s os u"
  by (auto simp: acts_def spec_blinks_append)

lemma acts_same: "same_picture ps s t \<Longrightarrow> acts [] ps s ps t"
  by (simp add: acts_def same_picture_def)

lemma acts_before: "same_picture ps s t \<Longrightarrow> acts ops ps t qs u \<Longrightarrow> acts ops ps s qs u"
  by (simp add: acts_def same_picture_def)

lemma acts_after: "acts ops ps s qs t \<Longrightarrow> same_picture qs t u \<Longrightarrow> acts ops ps s qs u"
  by (simp add: acts_def same_picture_def)

lemma same_picture_screen: "same_screen s t \<Longrightarrow> same_picture ps s t"
  by (simp add: same_picture_def same_screen_def)

lemma acts_one:
  "spec_blink op (blinkers ps (memory s), shown (memory s)) = (r, blinkers qs m, shown m) \<Longrightarrow> memory t = m \<Longrightarrow> acts [op] ps s qs t"
  by (simp add: acts_def)

definition visible :: "u8 \<Rightarrow> u8" where
  "visible c = (if c = 0x0A then 0x20 else c)"

lemma in_area_one: "a \<in> area a 1"
  by (simp add: area_def)

lemma frame_cell_spec:
  fixes s s0 :: "'a tty_scheme"
  assumes L: "fish_layout P B F X" and d: "drawing B F s0 ps s"
    and a: "a = visible (memory s (fish_c0 F))" and b: "b = visible (memory s (fish_c1 F))"
    and l: "\<forall>x \<in> set (cell r c a b). location x \<noteq> 0"
  shows "\<exists>t qs. frame_cell B F (of_nat r) (of_nat c) s = Some t \<and> drawing B F s0 qs t \<and> acts (map Add (cell r c a b)) ps s qs t \<and>
    fd_array t = fd_array s \<and> memory t (fish_c0 F) = memory s (fish_c0 F) \<and> memory t (fish_c1 F) = memory s (fish_c1 F)"
proof (cases "a = 0x20 \<and> b = 0x20")
  case True
  then have "frame_cell B F (of_nat r) (of_nat c) s = Some s"
    using a b by (auto simp: frame_cell_def visible_def Let_def split: if_splits)
  moreover have "cell r c a b = []" using True by (simp add: cell_def)
  ultimately show ?thesis using d by (intro exI [of _ s] exI [of _ ps]) (simp add: acts_def)
next
  case False
  note f = fish_layoutD [OF L]
  let ?q = "frames_struct F" and ?x = "\<lparr>location = of_nat (80 * r + c + 40), on_char = a, off_char = b, on_length = 15,
      off_length = 15, countdown = 0, status = 0\<rparr>"
  define m1 where "m1 = wr16 ((memory s)(?q + ON_CHAR := a, ?q + OFF_CHAR := b)) (?q + LOCATION) (of_nat (80 * r + c + 40))"
  have d': "fish_runs B F s0 s" "blinks_ok B ps (memory s)" "on_length (blink_at (memory s) ?q) = 15" "off_length (blink_at (memory s) ?q) = 15"
    using d by (simp_all add: drawing_def)
  note st = cell_struct [OF d'(3,4), of a b "of_nat (80 * r + c + 40)", folded m1_def]
  note k = spare_keeps [OF d'(2) st(2) f(7)]
  have x1: "cell r c a b = [?x]" using False by (simp only: cell_def if_False)
  then have "?x \<in> set (cell r c a b)" by simp
  then have x: "cell r c a b = [?x]" "location ?x \<noteq> 0" using l x1 by blast+
  obtain res m2 qs where m2: "mp1_ioctl B ?q 0 m1 = Some (res, m2)" "blinks_ok B qs m2"
    "spec_blink (Add ?x) (blinkers ps m1, shown m1) = (res, blinkers qs m2, shown m2)" "changes m1 m2 (engine B)"
    using ioctl_add [OF f(1,3) k(1) st(1) x(2)] by blast
  define t where "t = s\<lparr>memory := m2\<rparr>"
  have call: "frame_cell B F (of_nat r) (of_nat c) s = Some t"
  proof -
    have cond: "(memory s (fish_c0 F) \<noteq> 0x20 \<and> memory s (fish_c0 F) \<noteq> 0x0A) \<or> (memory s (fish_c1 F) \<noteq> 0x20 \<and> memory s (fish_c1 F) \<noteq> 0x0A)"
      using False a b by (auto simp: visible_def split: if_splits)
    have "frame_cell B F (of_nat r) (of_nat c) s = do { (r, m) \<leftarrow> mp1_ioctl B ?q 0 m1; Some (s\<lparr>memory := m\<rparr>) }"
      unfolding frame_cell_def Let_def m1_def frame_location a b visible_def using cond by (simp only: if_True)
    then show ?thesis by (simp add: m2(1) t_def)
  qed
  have sub: "area ?q 16 \<subseteq> fish_area B F" "engine B \<subseteq> fish_area B F" by (rule fish_area_sub)+
  have "changes (memory s) m2 (fish_area B F)"
    using changes_trans [OF changes_mono [OF st(2) sub(1)] changes_mono [OF m2(4) sub(2)]] .
  then have rt: "fish_runs B F s0 t" unfolding t_def by (rule fish_runs_memory [OF d'(1)]) simp
  have "engine B \<inter> area ?q 16 = {}" by (rule f(15))
  then have bl: "on_length (blink_at m2 ?q) = 15" "off_length (blink_at m2 ?q) = 15"
    using blink_at_changes(1) [OF m2(4)] st(3,4) by simp_all
  have "drawing B F s0 qs t" using rt m2(2) bl by (simp add: drawing_def t_def)
  moreover have "acts (map Add (cell r c a b)) ps s qs t"
    using m2(3) k(2,3) unfolding x(1) by (simp add: acts_def t_def)
  moreover have "m2 y = memory s y" if "y \<notin> engine B" "y \<notin> area ?q 16" for y
    using changes_at [OF m2(4) that(1)] changes_at [OF st(2) that(2)] by simp
  moreover have "fish_c0 F \<notin> engine B \<and> fish_c0 F \<notin> area ?q 16" "fish_c1 F \<notin> engine B \<and> fish_c1 F \<notin> area ?q 16"
    using f(10,11,13,14) in_area_one by blast+
  ultimately show ?thesis using call by (intro exI [of _ t] exI [of _ qs]) (simp add: t_def)
qed

text \<open>The state at a character of a row: both frames, \<open>q0\<close> and \<open>q1\<close>.\<close>

definition at_chars :: "fish_frame \<Rightarrow> nat \<Rightarrow> nat \<Rightarrow> u32 \<Rightarrow> u32 \<Rightarrow> u8 list \<Rightarrow> u8 list \<Rightarrow> 'a tty_scheme \<Rightarrow>
    u8 \<Rightarrow> bool \<Rightarrow> u8 list \<Rightarrow> u8 \<Rightarrow> bool \<Rightarrow> u8 list \<Rightarrow> bool" where
  "at_chars F k0 k1 ino0 ino1 xs ys s c0 e0 r0 c1 e1 r1 \<longleftrightarrow> memory s (fish_c0 F) = c0 \<and> memory s (fish_c1 F) = c1 \<and>
     frame_source s k0 ino0 xs e0 r0 \<and> frame_source s k1 ino1 ys e1 r1 \<and> (e0 \<longrightarrow> c0 = 0x0A) \<and> (e1 \<longrightarrow> c1 = 0x0A)"

definition others :: "nat set \<Rightarrow> 'a tty_scheme \<Rightarrow> 'a tty_scheme \<Rightarrow> bool" where
  "others K s t \<longleftrightarrow> (\<forall>j. j \<notin> K \<longrightarrow> fd_array t ! j = fd_array s ! j)"

lemma next_chars:
  fixes s s0 :: "'a tty_scheme"
  assumes L: "fish_layout P B F X" and d: "drawing B F s0 ps s" and f: "frame_file s0 ino0 xs" "frame_file s0 ino1 ys"
    and k: "2 \<le> k0" "k0 < 8" "2 \<le> k1" "k1 < 8" "k0 \<noteq> k1" and at: "at_chars F k0 k1 ino0 ino1 xs ys s c0 e0 r0 c1 e1 r1"
    and n: "next_char c0 e0 r0 = (c0', e0', r0')" "next_char c1 e1 r1 = (c1', e1', r1')"
  shows "\<exists>t u. frame_char P (int k0) (fish_c0 F) e0 s = Some (e0', t) \<and> frame_char P (int k1) (fish_c1 F) e1 t = Some (e1', u) \<and>
    drawing B F s0 ps u \<and> same_picture ps s u \<and> at_chars F k0 k1 ino0 ino1 xs ys u c0' e0' r0' c1' e1' r1' \<and> others {k0, k1} s u"
proof -
  note a = at [unfolded at_chars_def]
  have ne: "fish_c0 F \<noteq> fish_c1 F" using fish_layoutD(12) [OF L] by (metis disjoint_iff in_area_one)
  have n0: "next_char (memory s (fish_c0 F)) e0 r0 = (c0', e0', r0')" using a n(1) by simp
  obtain t where t: "frame_char P (int k0) (fish_c0 F) e0 s = Some (e0', t)" "drawing B F s0 ps t" "same_picture ps s t"
    "memory t = (memory s)(fish_c0 F := c0')" "frame_source t k0 ino0 xs e0' r0'" "other_fds k0 s t"
    using frame_char_spec [OF L d f(1) _ k(1,2) _ _ n0] a by blast
  have m: "memory t (fish_c1 F) = c1" using t(4) ne a by simp
  have s1: "frame_source t k1 ino1 ys e1 r1" using a frame_source_cong [of t k1 s] t(6) k(5) by (simp add: other_fds_def)
  have e1: "e1 \<Longrightarrow> memory t (fish_c1 F) = 0x0A" using a m by simp
  have n1: "next_char (memory t (fish_c1 F)) e1 r1 = (c1', e1', r1')" using m n(2) by simp
  obtain u where u: "frame_char P (int k1) (fish_c1 F) e1 t = Some (e1', u)" "drawing B F s0 ps u" "same_picture ps t u"
    "memory u = (memory t)(fish_c1 F := c1')" "frame_source u k1 ino1 ys e1' r1'" "other_fds k1 t u"
    using frame_char_spec [OF L t(2) f(2) _ k(3,4) s1 e1 n1] by blast
  have "frame_source u k0 ino0 xs e0' r0'" using t(5) frame_source_cong [of u k0 t] u(6) k(5) by (simp add: other_fds_def)
  moreover have "e0' \<longrightarrow> c0' = 0x0A" "e1' \<longrightarrow> c1' = 0x0A"
    using n a by (auto simp: next_char_def split: if_splits list.splits)
  ultimately have "at_chars F k0 k1 ino0 ino1 xs ys u c0' e0' r0' c1' e1' r1'"
    using u(4,5) t(4) ne by (simp add: at_chars_def)
  moreover have "others {k0, k1} s u" using t(6) u(6) by (simp add: others_def other_fds_def)
  moreover have "same_picture ps s u" using t(3) u(3) by (simp add: same_picture_def)
  ultimately show ?thesis using t(1) u(1,2) by blast
qed

lemma row_left_visible:
  assumes "next_char ch e rest = (ch', e', rest')"
  shows "visible ch' = char_at (row_left ch rest) 0"
  using next_char_row [OF assms] by (cases "row_left ch rest") (auto simp: visible_def char_at_def)

lemma at_chars_cong:
  fixes s t :: "'a tty_scheme"
  shows "fd_array t = fd_array s \<Longrightarrow> memory t (fish_c0 F) = memory s (fish_c0 F) \<Longrightarrow> memory t (fish_c1 F) = memory s (fish_c1 F) \<Longrightarrow>
    at_chars F k0 k1 ino0 ino1 xs ys t c0 e0 r0 c1 e1 r1 = at_chars F k0 k1 ino0 ino1 xs ys s c0 e0 r0 c1 e1 r1"
  by (simp add: at_chars_def frame_source_def)

lemma others_trans: "others K s t \<Longrightarrow> others K t u \<Longrightarrow> others K s u"
  by (simp add: others_def)

lemma frame_row_spec:
  fixes s s0 :: "'a tty_scheme"
  assumes L: "fish_layout P B F X" and f: "frame_file s0 ino0 xs" "frame_file s0 ino1 ys"
    and k: "2 \<le> k0" "k0 < 8" "2 \<le> k1" "k1 < 8" "k0 \<noteq> k1"
    and "drawing B F s0 ps s" "at_chars F k0 k1 ino0 ino1 xs ys s c0 e0 r0 c1 e1 r1"
    and "\<forall>x \<in> set (row_cells r c (row_left c0 r0) (row_left c1 r1)). location x \<noteq> 0"
  shows "\<exists>t qs e0' r0' e1' r1'. frame_row P B F (int k0) (int k1) (of_nat r) (of_nat c) e0 e1 s = Some (e0', e1', t) \<and>
    drawing B F s0 qs t \<and> acts (map Add (row_cells r c (row_left c0 r0) (row_left c1 r1))) ps s qs t \<and>
    at_chars F k0 k1 ino0 ino1 xs ys t 0x0A e0' r0' 0x0A e1' r1' \<and> row_end c0 e0 r0 = (e0', r0') \<and> row_end c1 e1 r1 = (e1', r1') \<and>
    others {k0, k1} s t"
  using assms(9-11)
proof (induction "length (row_left c0 r0) + length (row_left c1 r1)" arbitrary: c s ps c0 e0 r0 c1 e1 r1 rule: less_induct)
  case less
  obtain c0' e0' r0' c1' e1' r1' where n: "next_char c0 e0 r0 = (c0', e0', r0')" "next_char c1 e1 r1 = (c1', e1', r1')"
    by (metis surj_pair)
  let ?l0 = "row_left c0 r0" and ?l1 = "row_left c1 r1"
  obtain t u where u: "frame_char P (int k0) (fish_c0 F) e0 s = Some (e0', t)" "frame_char P (int k1) (fish_c1 F) e1 t = Some (e1', u)"
    "drawing B F s0 ps u" "same_picture ps s u" "at_chars F k0 k1 ino0 ino1 xs ys u c0' e0' r0' c1' e1' r1'" "others {k0, k1} s u"
    using next_chars [OF L less.prems(1) f k less.prems(2) n] by blast
  note q0 = next_char_row [OF n(1)] and q1 = next_char_row [OF n(2)]
  have m: "memory u (fish_c0 F) = c0'" "memory u (fish_c1 F) = c1'" using u(5) by (simp_all add: at_chars_def)
  have end_eq: "row_end c0' e0' r0' = row_end c0 e0 r0" "row_left c0' r0' = tl ?l0" "row_end c1' e1' r1' = row_end c1 e1 r1" "row_left c1' r1' = tl ?l1"
    using next_char_ends [OF n(1)] next_char_ends [OF n(2)] by blast+
  show ?case
  proof (cases "?l0 = [] \<and> ?l1 = []")
    case True
    then have z: "c0' = 0x0A" "c1' = 0x0A" "row_end c0 e0 r0 = (e0', r0')" "row_end c1 e1 r1 = (e1', r1')" using q0(1) q1(1) by simp_all
    have "frame_row P B F (int k0) (int k1) (of_nat r) (of_nat c) e0 e1 s = Some (e0', e1', u)"
      using u(1,2) m z by (subst frame_row.simps) simp
    moreover have "acts (map Add (row_cells r c ?l0 ?l1)) ps s ps u" using acts_same [OF u(4)] True by simp
    ultimately show ?thesis using u(3,5,6) z by blast
  next
    case False
    then have nn: "c0' \<noteq> 0x0A \<or> c1' \<noteq> 0x0A" using q0(2) q1(2) by blast
    have step: "row_cells r c ?l0 ?l1 = cell r c (visible c0') (visible c1') @ row_cells r (Suc c) (tl ?l0) (tl ?l1)"
      using row_cells_step [of ?l0 ?l1 r c] False row_left_visible [OF n(1)] row_left_visible [OF n(2)] by simp
    have lc: "\<forall>x \<in> set (cell r c (visible c0') (visible c1')). location x \<noteq> 0"
      "\<forall>x \<in> set (row_cells r (Suc c) (row_left c0' r0') (row_left c1' r1')). location x \<noteq> 0"
      using less.prems(3) unfolding step end_eq by simp_all
    have v: "visible c0' = visible (memory u (fish_c0 F))" "visible c1' = visible (memory u (fish_c1 F))" using m by simp_all
    obtain w os where w: "frame_cell B F (of_nat r) (of_nat c) u = Some w" "drawing B F s0 os w"
      "acts (map Add (cell r c (visible c0') (visible c1'))) ps u os w" "fd_array w = fd_array u"
      "memory w (fish_c0 F) = memory u (fish_c0 F)" "memory w (fish_c1 F) = memory u (fish_c1 F)"
      using frame_cell_spec [OF L u(3) v lc(1)] by blast
    have at: "at_chars F k0 k1 ino0 ino1 xs ys w c0' e0' r0' c1' e1' r1'" using at_chars_cong [OF w(4-6)] u(5) by simp
    have less': "length (row_left c0' r0') + length (row_left c1' r1') < length ?l0 + length ?l1"
      unfolding end_eq using False by (cases ?l0; cases ?l1) auto
    obtain z qs e0'' r0'' e1'' r1'' where z: "frame_row P B F (int k0) (int k1) (of_nat r) (of_nat (Suc c)) e0' e1' w = Some (e0'', e1'', z)"
      "drawing B F s0 qs z" "acts (map Add (row_cells r (Suc c) (row_left c0' r0') (row_left c1' r1'))) os w qs z"
      "at_chars F k0 k1 ino0 ino1 xs ys z 0x0A e0'' r0'' 0x0A e1'' r1''" "row_end c0' e0' r0' = (e0'', r0'')" "row_end c1' e1' r1' = (e1'', r1'')"
      "others {k0, k1} w z"
      using less.hyps [OF less' w(2) at lc(2)] by blast
    have "(of_nat (Suc c) :: u32) = of_nat c + 1" by simp
    then have "frame_row P B F (int k0) (int k1) (of_nat r) (of_nat c) e0 e1 s = Some (e0'', e1'', z)"
      using u(1,2) m nn w(1) z(1) by (subst frame_row.simps) (auto simp: add.commute)
    moreover have "acts (map Add (row_cells r c ?l0 ?l1)) ps s qs z"
      unfolding step map_append using acts_append [OF acts_before [OF u(4) w(3)] z(3)] by (simp only: end_eq)
    moreover have "others {k0, k1} s z" using u(6) w(4) z(7) by (simp add: others_def)
    ultimately show ?thesis using z(2,4,5,6) end_eq by auto
  qed
qed

subsection \<open>All rows\<close>

lemma close_fd:
  fixes s :: "'a tty_scheme"
  assumes ok: "program_ok s" and k: "2 \<le> k" "k < 8"
  shows "\<exists>r t. ece391_close P (int k) s = Some (r, t) \<and> same_screen s t \<and> other_fds k s t"
proof -
  note o = program_okD [OF ok]
  have kw: "sint (of_nat k :: u32) = int k" using k by (intro sint_of_nat_fits) simp
  show ?thesis
  proof (cases "flags (fd_array s ! k) = 0")
    case True
    then have "ece391_close P (int k) s = Some (-1, s)" using refused_calls(3) [OF ok, of "int k" P] kw by simp
    then show ?thesis using same_screen_refl [OF ok] by (auto simp: other_fds_def)
  next
    case False
    define t where "t = upd_fd (tasks_running s) k closed_fd s"
    have "syscall_close (int k) s = Some (0, t)" using close_open_fd [OF o(3,10), of "int k"] False k by (simp add: t_def)
    then have "ece391_close P (int k) s = Some (0, t)" by (simp add: call_defs do_call_simps [OF ok] kw)
    moreover have "same_screen s t"
      unfolding t_def using k by (intro same_screen_upd_fd [OF ok]) (simp_all add: closed_fd_def)
    moreover have "other_fds k s t" by (simp add: other_fds_def t_def fds_of_upd_fd)
    ultimately show ?thesis by blast
  qed
qed

definition start_char :: "bool \<Rightarrow> u8" where
  "start_char e = (if e then 0x0A else 0x30)"

definition lines_of :: "bool \<Rightarrow> u8 list \<Rightarrow> u8 list list" where
  "lines_of e rest = (if e then [] else split_lines rest)"

lemma frame_lines:
  "row_left (start_char e) rest = line_at (lines_of e rest) 0"
  "row_end (start_char e) e rest = (e', rest') \<Longrightarrow> lines_of e' rest' = tl (lines_of e rest)"
  "lines_of e rest = [] \<longleftrightarrow> e"
proof -
  let ?l = "takeWhile (\<lambda>c. c \<noteq> 0x0A) rest"
  have w: "?l = rest \<longleftrightarrow> 0x0A \<notin> set rest" by (auto simp: takeWhile_eq_all_conv)
  have sl: "split_lines rest = (if 0x0A \<in> set rest then ?l # split_lines (drop (Suc (length ?l)) rest) else [?l])"
    unfolding split_lines.simps [of rest] Let_def w by simp
  then show "row_left (start_char e) rest = line_at (lines_of e rest) 0"
    by (simp add: row_left_def start_char_def lines_of_def line_at_def)
  show "lines_of e rest = [] \<longleftrightarrow> e" using sl by (simp add: lines_of_def)
  have "tl (dropWhile (\<lambda>c. c \<noteq> 0x0A) rest) = drop (Suc (length ?l)) rest"
    by (simp add: dropWhile_eq_drop drop_Suc tl_drop)
  then show "lines_of e' rest' = tl (lines_of e rest)" if "row_end (start_char e) e rest = (e', rest')"
    using that sl by (auto simp: row_end_def start_char_def lines_of_def split: if_splits)
qed

lemma frame_end_spec:
  fixes s s0 :: "'a tty_scheme"
  assumes L: "fish_layout P B F X" and d: "drawing B F s0 ps s" and k: "2 \<le> k" "k < 8" and c: "c \<in> {fish_c0 F, fish_c1 F}"
  shows "\<exists>t. frame_end P (int k) c e s = Some t \<and> drawing B F s0 ps t \<and> same_picture ps s t \<and>
    memory t = (memory s)(c := start_char e) \<and> other_fds k s t \<and> (\<not> e \<longrightarrow> fd_array t = fd_array s)"
proof -
  define t where "t = store_byte c (start_char e) s"
  have r: "fish_runs B F s0 s" using d by (simp add: drawing_def)
  have m: "memory t = (memory s)(c := start_char e)" "fd_array t = fd_array s" by (simp_all add: t_def store_byte_def)
  have "changes (memory s) ((memory s)(c := start_char e)) (area c 1)" by (simp add: changes_def area_def)
  moreover have "area c 1 \<subseteq> fish_area B F" using c fish_area_sub(3,4) by blast
  ultimately have rt: "fish_runs B F s0 t" unfolding t_def store_byte_def by (rule fish_runs_memory [OF r])
  note dt = drawing_char [OF L d rt c m(1)]
  show ?thesis
  proof (cases e)
    case True
    have ok: "program_ok t" using rt by (simp add: fish_runs_def)
    obtain res u where u: "ece391_close P (int k) t = Some (res, u)" "same_screen t u" "other_fds k t u"
      using close_fd [OF ok k] by blast
    have "frame_end P (int k) c e s = Some u" using u(1) True by (simp add: frame_end_def t_def start_char_def)
    moreover have "same_picture ps s u" using dt(2) same_picture_screen [OF u(2), of ps] by (simp add: same_picture_def)
    ultimately show ?thesis
      using drawing_same [OF dt(1) u(2)] u(2,3) m True by (intro exI [of _ u]) (simp add: same_screen_def other_fds_def)
  next
    case False
    have "frame_end P (int k) c e s = Some t" using False by (simp add: frame_end_def t_def start_char_def)
    then show ?thesis using dt m by (intro exI [of _ t]) (simp add: other_fds_def)
  qed
qed

lemma frame_ends:
  fixes s s0 :: "'a tty_scheme"
  assumes L: "fish_layout P B F X" and d: "drawing B F s0 ps s" and k: "2 \<le> k0" "k0 < 8" "2 \<le> k1" "k1 < 8" "k0 \<noteq> k1"
    and at: "at_chars F k0 k1 ino0 ino1 xs ys s 0x0A e0 r0 0x0A e1 r1"
  shows "\<exists>t u. frame_end P (int k0) (fish_c0 F) e0 s = Some t \<and> frame_end P (int k1) (fish_c1 F) e1 t = Some u \<and>
    drawing B F s0 ps u \<and> same_picture ps s u \<and>
    at_chars F k0 k1 ino0 ino1 xs ys u (start_char e0) e0 r0 (start_char e1) e1 r1 \<and> others {k0, k1} s u"
proof -
  note a = at [unfolded at_chars_def]
  have ne: "fish_c0 F \<noteq> fish_c1 F" using fish_layoutD(12) [OF L] by (metis disjoint_iff in_area_one)
  obtain t where t: "frame_end P (int k0) (fish_c0 F) e0 s = Some t" "drawing B F s0 ps t" "same_picture ps s t"
    "memory t = (memory s)(fish_c0 F := start_char e0)" "other_fds k0 s t" "\<not> e0 \<longrightarrow> fd_array t = fd_array s"
    using frame_end_spec [OF L d k(1,2)] by blast
  obtain u where u: "frame_end P (int k1) (fish_c1 F) e1 t = Some u" "drawing B F s0 ps u" "same_picture ps t u"
    "memory u = (memory t)(fish_c1 F := start_char e1)" "other_fds k1 t u" "\<not> e1 \<longrightarrow> fd_array u = fd_array t"
    using frame_end_spec [OF L t(2) k(3,4)] by blast
  have src: "frame_source s k0 ino0 xs e0 r0" "frame_source s k1 ino1 ys e1 r1" using a by simp_all
  have "frame_source u k0 ino0 xs e0 r0"
  proof (cases e0)
    case False
    then have "fd_array u ! k0 = fd_array s ! k0" using t(6) u(5) k(5) by (simp add: other_fds_def)
    then show ?thesis using src(1) frame_source_cong [of u k0 s] by simp
  qed (use src(1) in \<open>simp add: frame_source_def\<close>)
  moreover have "frame_source u k1 ino1 ys e1 r1"
  proof (cases e1)
    case False
    then have "fd_array u ! k1 = fd_array s ! k1" using u(6) t(5) k(5) by (simp add: other_fds_def)
    then show ?thesis using src(2) frame_source_cong [of u k1 s] by simp
  qed (use src(2) in \<open>simp add: frame_source_def\<close>)
  ultimately have "at_chars F k0 k1 ino0 ino1 xs ys u (start_char e0) e0 r0 (start_char e1) e1 r1"
    using t(4) u(4) ne by (simp add: at_chars_def start_char_def)
  moreover have "same_picture ps s u" using t(3) u(3) by (simp add: same_picture_def)
  moreover have "others {k0, k1} s u" using t(5) u(5) by (simp add: others_def other_fds_def)
  ultimately show ?thesis using t(1) u(1,2) by blast
qed

lemma frame_rows_spec:
  fixes s s0 :: "'a tty_scheme"
  assumes L: "fish_layout P B F X" and f: "frame_file s0 ino0 xs" "frame_file s0 ino1 ys"
    and k: "2 \<le> k0" "k0 < 8" "2 \<le> k1" "k1 < 8" "k0 \<noteq> k1"
    and "drawing B F s0 ps s" "at_chars F k0 k1 ino0 ino1 xs ys s (start_char e0) e0 r0 (start_char e1) e1 r1"
    and "\<forall>x \<in> set (frame_cells r (lines_of e0 r0) (lines_of e1 r1)). location x \<noteq> 0"
  shows "\<exists>t qs. frame_rows P B F (int k0) (int k1) (of_nat r) e0 e1 s = Some t \<and> drawing B F s0 qs t \<and>
    acts (map Add (frame_cells r (lines_of e0 r0) (lines_of e1 r1))) ps s qs t \<and> others {k0, k1} s t"
  using assms(9-11)
proof (induction "length (lines_of e0 r0) + length (lines_of e1 r1)" arbitrary: r s ps e0 r0 e1 r1 rule: less_induct)
  case less
  let ?L0 = "lines_of e0 r0" and ?L1 = "lines_of e1 r1"
  show ?case
  proof (cases "e0 \<and> e1")
    case True
    then have "?L0 = []" "?L1 = []" by (simp_all add: lines_of_def)
    moreover have "frame_rows P B F (int k0) (int k1) (of_nat r) e0 e1 s = Some s" using True by (subst frame_rows.simps) simp
    ultimately show ?thesis using less.prems(1) by (intro exI [of _ s] exI [of _ ps]) (simp add: acts_def others_def)
  next
    case False
    then have ne: "?L0 \<noteq> [] \<or> ?L1 \<noteq> []" using frame_lines(3) by blast
    note step = frame_cells_step [OF ne, of r]
    note ln = frame_lines(1) [of e0 r0] frame_lines(1) [of e1 r1]
    have lc: "\<forall>x \<in> set (row_cells r 0 (row_left (start_char e0) r0) (row_left (start_char e1) r1)). location x \<noteq> 0"
      "\<forall>x \<in> set (frame_cells (Suc r) (tl ?L0) (tl ?L1)). location x \<noteq> 0"
      using less.prems(3) unfolding step ln by simp_all
    obtain t os e0' r0' e1' r1' where t: "frame_row P B F (int k0) (int k1) (of_nat r) (of_nat 0) e0 e1 s = Some (e0', e1', t)"
      "drawing B F s0 os t" "acts (map Add (row_cells r 0 (row_left (start_char e0) r0) (row_left (start_char e1) r1))) ps s os t"
      "at_chars F k0 k1 ino0 ino1 xs ys t 0x0A e0' r0' 0x0A e1' r1'" "row_end (start_char e0) e0 r0 = (e0', r0')"
      "row_end (start_char e1) e1 r1 = (e1', r1')" "others {k0, k1} s t"
      using frame_row_spec [OF L f k less.prems(1,2) lc(1)] by blast
    obtain v u where u: "frame_end P (int k0) (fish_c0 F) e0' t = Some v" "frame_end P (int k1) (fish_c1 F) e1' v = Some u"
      "drawing B F s0 os u" "same_picture os t u" "at_chars F k0 k1 ino0 ino1 xs ys u (start_char e0') e0' r0' (start_char e1') e1' r1'"
      "others {k0, k1} t u"
      using frame_ends [OF L t(2) k t(4)] by blast
    have L': "lines_of e0' r0' = tl ?L0" "lines_of e1' r1' = tl ?L1" using frame_lines(2) t(5,6) by blast+
    have small: "length (lines_of e0' r0') + length (lines_of e1' r1') < length ?L0 + length ?L1"
      unfolding L' using ne by (cases ?L0; cases ?L1) auto
    obtain z qs where z: "frame_rows P B F (int k0) (int k1) (of_nat (Suc r)) e0' e1' u = Some z" "drawing B F s0 qs z"
      "acts (map Add (frame_cells (Suc r) (tl ?L0) (tl ?L1))) os u qs z" "others {k0, k1} u z"
      using less.hyps [OF small u(3,5)] lc(2) unfolding L' by blast
    have "frame_rows P B F (int k0) (int k1) (of_nat r) e0 e1 s = Some z"
      using t(1) u(1,2) z(1) False by (subst frame_rows.simps) (auto simp: add.commute)
    moreover have "acts (map Add (frame_cells r ?L0 ?L1)) ps s qs z"
      unfolding step map_append using acts_append [OF acts_after [OF t(3) u(4)] z(3)] by (simp only: ln)
    moreover have "others {k0, k1} s z" using others_trans [OF t(7) others_trans [OF u(6) z(4)]] .
    ultimately show ?thesis using z(2) by blast
  qed
qed

end
