(* ===== verification/Animation.thy ===== *)
theory Animation
  imports Fish
begin

section \<open>The animation of fish\<close>

text \<open>
  The whole of \<open>fish\<close>: its two frames, read through the file system, are on the screen, blink with
  the clock, and a moving blinker is added, synchronised and removed.
\<close>

subsection \<open>Opening the frames\<close>

definition frame_named :: "'a tty_scheme \<Rightarrow> string \<Rightarrow> u8 list \<Rightarrow> bool" where
  "frame_named s x xs \<longleftrightarrow> (\<exists>i. lookup (memory s) (boot_block s) (bytes x) = Some i \<and>
     (let d = dentry_at (memory s) (entry_addr (boot_block s) (of_nat i)) in d_type d = 2 \<and> frame_file s (d_inode d) xs))"

lemma fish_runs_runs: "fish_runs B F s0 s \<Longrightarrow> runs buf n s t \<Longrightarrow> memory t = memory s \<Longrightarrow> fish_runs B F s0 t"
  by (simp add: fish_runs_def runs_def)

text \<open>What the file system holds has not changed since the start.\<close>

lemma fish_lookup:
  fixes s s0 :: "'a tty_scheme"
  assumes L: "fish_layout P B F X" and r: "fish_runs B F s0 s" and img: "image_apart (memory s0) (boot_block s0)"
    and i: "lookup (memory s0) (boot_block s0) xs = Some i"
  shows "lookup (memory s) (boot_block s) xs = Some i"
    "dentry_at (memory s) (entry_addr (boot_block s) (of_nat i)) = dentry_at (memory s0) (entry_addr (boot_block s0) (of_nat i))"
proof -
  note im = fish_image(1) [OF L r img]
  have "boot_block s = boot_block s0" using r by (simp add: fish_runs_def)
  then show "lookup (memory s) (boot_block s) xs = Some i"
    "dentry_at (memory s) (entry_addr (boot_block s) (of_nat i)) = dentry_at (memory s0) (entry_addr (boot_block s0) (of_nat i))"
    using i same_image_lookup [OF im] same_image_entry(2) [OF im lookup_name(1) [OF i]] by simp_all
qed

lemma open_frame:
  fixes s s0 :: "'a tty_scheme"
  assumes L: "fish_layout P B F X" and r: "fish_runs B F s0 s" and f: "frame_named s0 x xs"
    and x: "x \<in> X" "x \<noteq> []" "length x \<le> 32" "in_program (memory s0) (prog_lit P x) (bytes x)"
    and k: "find_open_fd (fd_array s) = Some k" "fd_array s ! k = empty_fd"
  shows "\<exists>t ino. ece391_open P (prog_lit P x) s = Some (int k, t) \<and> fish_runs B F s0 t \<and> memory t = memory s \<and>
    frame_file s0 ino xs \<and> frame_source t k ino xs False xs \<and> fd_array t = (fd_array s)[k := opened_fd File_fops ino empty_fd]"
proof -
  obtain i where i: "lookup (memory s0) (boot_block s0) (bytes x) = Some i"
    "d_type (dentry_at (memory s0) (entry_addr (boot_block s0) (of_nat i))) = 2"
    "frame_file s0 (d_inode (dentry_at (memory s0) (entry_addr (boot_block s0) (of_nat i)))) xs"
    using f by (auto simp: frame_named_def Let_def)
  let ?ino = "d_inode (dentry_at (memory s0) (entry_addr (boot_block s0) (of_nat i)))"
  have img: "image_apart (memory s0) (boot_block s0)" using i(3) by (simp add: frame_file_def)
  note lk = fish_lookup [OF L r img i(1)]
  have name: "in_program (memory s) (prog_lit P x) (bytes x)" by (rule fish_literal [OF L r x(1,4)])
  have ln: "prog_lit P x \<noteq> 0" "bytes x \<noteq> []" "length (bytes x) \<le> 32" using literal_name [OF name x(2,3)] by simp_all
  have ok: "program_ok s" using r by (simp add: fish_runs_def)
  define d where "d = dentry_at (memory s) (entry_addr (boot_block s) (of_nat i))"
  have d: "d_type d = 2" "d_type d \<in> {1, 2}" "d_inode d = ?ino" "type_fops 2 = File_fops" using lk(2) i(2) by (simp_all add: d_def type_fops_def)
  obtain t where t: "ece391_open P (prog_lit P x) s = Some (int k, t)" "runs 0 0 s t" "memory t = memory s" "2 \<le> k" "k < 8"
    "fd_array t = (fd_array s)[k := opened_fd File_fops ?ino empty_fd]"
    using open_found [OF ok name ln k(1) lk(1) d_def d(2), of P 0 0] unfolding d(1,3,4) k(2) by blast
  have len: "length (fd_array s) = 8" by (rule program_okD(5) [OF ok])
  have "frame_source t k ?ino xs False xs"
    using t(5) len by (simp add: frame_source_def t(6) opened_fd_def) (simp add: empty_fd_def)
  then show ?thesis using t(1,3,6) fish_runs_runs [OF r t(2,3)] i(3) by blast
qed

subsection \<open>The frames are drawn\<close>

lemma add_frames_vars_spec:
  fixes s s0 :: "'a tty_scheme"
  assumes L: "fish_layout P B F X" and r: "fish_runs B F s0 s" and ok: "blinks_ok B ps (memory s)"
  defines "t \<equiv> add_frames_vars F s"
  shows "drawing B F s0 ps t" "same_picture ps s t" "memory t (fish_c0 F) = 0x30" "memory t (fish_c1 F) = 0x30" "fd_array t = fd_array s"
proof -
  note f = fish_layoutD [OF L]
  let ?q = "frames_struct F" and ?A = "area (fish_c0 F) 1 \<union> area (fish_c1 F) 1 \<union> area (frames_struct F) 16"
  define m1 where "m1 = (memory s)(fish_c0 F := 0x30, fish_c1 F := 0x30)"
  define m2 where "m2 = wr16 m1 (?q + ON_LENGTH) 15"
  define m3 where "m3 = wr16 m2 (?q + OFF_LENGTH) 15"
  have t: "t = s\<lparr>memory := m3\<rparr>" by (simp add: t_def add_frames_vars_def m1_def m2_def m3_def Let_def)
  have c12: "changes m1 m2 (area ?q 16)" "changes m2 m3 (area ?q 16)" unfolding m2_def m3_def by (rule changes_fields)+
  have c1: "changes (memory s) m1 ?A" by (auto simp: m1_def changes_def area_def)
  have "changes m1 m3 (area ?q 16)" by (rule changes_trans [OF c12])
  then have c: "changes (memory s) m3 ?A" using changes_trans [OF c1 changes_mono] by blast
  have sp: "spare B ?A" using f(5,6,7) by (simp add: spare_def Int_Un_distrib2)
  note k = spare_keeps [OF ok c sp]
  have "?A \<subseteq> fish_area B F" using fish_area_sub(3,4,5) by blast
  then have rt: "fish_runs B F s0 t" unfolding t by (rule fish_runs_memory [OF r c])
  have "blink_at m2 ?q = (blink_at m1 ?q)\<lparr>on_length := 15\<rparr>" "blink_at m3 ?q = (blink_at m2 ?q)\<lparr>off_length := 15\<rparr>"
    unfolding m2_def m3_def by (rule blink_at_wr16)+
  then show "drawing B F s0 ps t" using rt k(1) by (simp add: drawing_def t)
  show "same_picture ps s t" using k(2,3) by (simp add: same_picture_def t)
  have ne: "fish_c0 F \<noteq> fish_c1 F" using f(12) by (metis disjoint_iff in_area_one)
  have out: "fish_c0 F \<notin> area ?q 16" "fish_c1 F \<notin> area ?q 16" using f(10,11) in_area_one by blast+
  show "memory t (fish_c0 F) = 0x30" "memory t (fish_c1 F) = 0x30"
    using changes_at [OF \<open>changes m1 m3 (area ?q 16)\<close>] out ne by (simp_all add: t m1_def)
  show "fd_array t = fd_array s" by (simp add: t)
qed

lemma add_frames_spec:
  fixes s s0 :: "'a tty_scheme"
  assumes L: "fish_layout P B F X" and r: "fish_runs B F s0 s" and ok: "blinks_ok B ps (memory s)"
    and f: "frame_named s0 x xs" "frame_named s0 y ys"
    and x: "x \<in> X" "x \<noteq> []" "length x \<le> 32" "in_program (memory s0) (prog_lit P x) (bytes x)"
    and y: "y \<in> X" "y \<noteq> []" "length y \<le> 32" "in_program (memory s0) (prog_lit P y) (bytes y)"
    and fds: "find_open_fd (fd_array s) = Some 3" "fd_array s ! 3 = empty_fd" "fd_array s ! 4 = empty_fd"
    and l: "\<forall>b \<in> set (frame_cells 0 (split_lines xs) (split_lines ys)). location b \<noteq> 0"
  shows "\<exists>t qs. add_frames P B F (prog_lit P x) (prog_lit P y) s = Some (Inr t) \<and> fish_runs B F s0 t \<and> blinks_ok B qs (memory t) \<and>
    acts (map Add (frame_cells 0 (split_lines xs) (split_lines ys))) ps s qs t \<and> others {3, 4} s t"
proof -
  define s1 where "s1 = add_frames_vars F s"
  note v = add_frames_vars_spec [OF L r ok, folded s1_def]
  have r1: "fish_runs B F s0 s1" using v(1) by (simp add: drawing_def)
  have len: "length (fd_array s) = 8" using r program_okD(5) [of s] by (simp add: fish_runs_def)
  obtain s2 ino0 where s2: "ece391_open P (prog_lit P x) s1 = Some (int 3, s2)" "fish_runs B F s0 s2" "memory s2 = memory s1"
    "frame_file s0 ino0 xs" "frame_source s2 3 ino0 xs False xs" "fd_array s2 = (fd_array s1)[3 := opened_fd File_fops ino0 empty_fd]"
    using open_frame [OF L r1 f(1) x, of 3] fds v(5) by auto
  have fo: "find_open_fd (fd_array s2) = Some 4"
  proof -
    have "flags (fd_array s ! 2) \<noteq> 0" using fd_table.search_Some [OF len, of 3] fds(1) by auto
    then show ?thesis using fds(3) len by (simp add: s2(6) v(5) find_open_fd_def upt_rec opened_fd_def) (simp add: empty_fd_def)
  qed
  have e4: "fd_array s2 ! 4 = empty_fd" using fds(3) by (simp add: s2(6) v(5))
  obtain s3 ino1 where s3: "ece391_open P (prog_lit P y) s2 = Some (int 4, s3)" "fish_runs B F s0 s3" "memory s3 = memory s2"
    "frame_file s0 ino1 ys" "frame_source s3 4 ino1 ys False ys" "fd_array s3 = (fd_array s2)[4 := opened_fd File_fops ino1 empty_fd]"
    using open_frame [OF L s2(2) f(2) y fo e4] by blast
  have d3: "drawing B F s0 ps s3" using v(1) s2(3) s3(2,3) by (simp add: drawing_def)
  have "frame_source s3 3 ino0 xs False xs" using s2(5) frame_source_cong [of s3 3 s2] by (simp add: s3(6))
  then have at: "at_chars F 3 4 ino0 ino1 xs ys s3 (start_char False) False xs (start_char False) False ys"
    using v(3,4) s2(3) s3(3,5) by (simp add: at_chars_def start_char_def)
  have ll: "lines_of False zs = split_lines zs" for zs by (simp add: lines_of_def)
  obtain t qs where t: "frame_rows P B F (int 3) (int 4) (of_nat 0) False False s3 = Some t" "drawing B F s0 qs t"
    "acts (map Add (frame_cells 0 (split_lines xs) (split_lines ys))) ps s3 qs t" "others {3, 4} s3 t"
    using frame_rows_spec [OF L s2(4) s3(4) _ _ _ _ _ d3 at, of 0] l unfolding ll by auto
  have "add_frames P B F (prog_lit P x) (prog_lit P y) s = Some (Inr t)"
    using s2(1) s3(1) t(1) by (simp add: add_frames_def s1_def [symmetric])
  moreover have sp: "same_picture ps s s3" using v(2) s2(3) s3(3) by (simp add: same_picture_def)
  moreover note acts_before [OF sp t(3)]
  moreover have "others {3, 4} s t" using t(4) by (simp add: others_def s3(6) s2(6) v(5))
  ultimately show ?thesis using t(2) unfolding drawing_def by blast
qed

subsection \<open>The clock drives the engine\<close>

definition ticking :: "blink_vars \<Rightarrow> fish_frame \<Rightarrow> 'a tty_scheme \<Rightarrow> addr list \<Rightarrow> 'a tty_scheme \<Rightarrow> bool" where
  "ticking B F s0 ps s \<longleftrightarrow> fish_runs B F s0 s \<and> blinks_ok B ps (memory s) \<and> clock_fd 2 s \<and> virt_freq s = 32"

lemma clock_fd_memory [simp]: "clock_fd k (s\<lparr>memory := m\<rparr>) = clock_fd k s"
  by (simp add: clock_fd_def)

lemma ticking_memory:
  fixes s s0 :: "'a tty_scheme"
  assumes "ticking B F s0 ps s" "changes (memory s) m A" "A \<subseteq> fish_area B F" "blinks_ok B qs m"
  shows "ticking B F s0 qs (s\<lparr>memory := m\<rparr>)"
  using assms(1,4) fish_runs_memory [OF _ assms(2,3)] by (simp add: ticking_def)

lemma ticking_spare:
  fixes s s0 :: "'a tty_scheme"
  assumes "ticking B F s0 ps s" "changes (memory s) m A" "A \<subseteq> fish_area B F" "spare B A"
  shows "ticking B F s0 ps (s\<lparr>memory := m\<rparr>)" "same_picture ps s (s\<lparr>memory := m\<rparr>)"
  using ticking_memory [OF assms(1,2,3)] spare_keeps [OF _ assms(2,4), of ps] assms(1)
  by (simp_all add: ticking_def same_picture_def)

lemma fish_wait_spec:
  fixes s s0 :: "'a tty_scheme"
  assumes L: "fish_layout P B F X" and irqs: "32 \<le> count_list (prog_irqs P) True" and "ticking B F s0 ps s"
  shows "\<exists>t qs. fish_wait n P B F 2 s = Some t \<and> ticking B F s0 qs t \<and> acts (replicate n Tick) ps s qs t"
  using assms(3)
proof (induction n arbitrary: s ps)
  case 0
  then show ?case by (intro exI [of _ s] exI [of _ ps]) (simp add: acts_def)
next
  case (Suc n)
  note d = Suc.prems [unfolded ticking_def]
  have ok: "program_ok s" using d by (simp add: fish_runs_def)
  have "rtc_ok s" "rtc_period s = 32" using d by (simp_all add: rtc_ok_def valid_freqs_def rtc_period_def)
  then obtain t where t: "ece391_read P (int 2) (fish_garbage F) 4 s = Some (0, t)" "same_screen s t" "fd_array t = fd_array s" "virt_freq t = virt_freq s"
    using read_clock [OF ok _ _, of 2 P "fish_garbage F"] d irqs by auto
  have dt: "ticking B F s0 ps t" using d t fish_runs_same [of B F s0 s t] by (simp add: ticking_def same_screen_def clock_fd_def)
  note L1 = fish_layoutD(1) [OF L]
  obtain m where m: "mp1_rtc_tasklet B (memory t) = Some m" "blinks_ok B ps m" "blinkers ps m = map blink_next (blinkers ps (memory t))"
    "shown m = fold blink_show (blinkers ps (memory t)) (shown (memory t))" "changes (memory t) m (engine B)"
    using tasklet_spec [OF L1, of ps "memory t"] dt by (auto simp: ticking_def)
  have du: "ticking B F s0 ps (t\<lparr>memory := m\<rparr>)" by (rule ticking_memory [OF dt m(5) fish_area_sub(1) m(2)])
  obtain u qs where u: "fish_wait n P B F 2 (t\<lparr>memory := m\<rparr>) = Some u" "ticking B F s0 qs u" "acts (replicate n Tick) ps (t\<lparr>memory := m\<rparr>) qs u"
    using Suc.IH [OF du] by blast
  have "acts [Tick] ps t ps (t\<lparr>memory := m\<rparr>)" using m(3,4) by (simp add: acts_def)
  then have "acts [Tick] ps s ps (t\<lparr>memory := m\<rparr>)" using acts_before [OF same_picture_screen [OF t(2)]] by blast
  then have "acts (replicate (Suc n) Tick) ps s qs u" using acts_append [OF _ u(3), of "[Tick]" ps s] by simp
  moreover have "fish_wait (Suc n) P B F 2 s = Some u" using t(1) m(1) u(1) by simp
  ultimately show ?case using u(2) by blast
qed

text \<open>The other operations, as \<open>main\<close> calls them.\<close>

lemma fish_ioctl_spec:
  fixes s s0 :: "'a tty_scheme"
  assumes d: "ticking B F s0 ps s" and op: "mp1_ioctl (main_vars B F) arg cmd (memory s) = Some (r, m)" "blinks_ok B qs m"
    "spec_blink op (blinkers ps (memory s), shown (memory s)) = (r, blinkers qs m, shown m)"
    "changes (memory s) m (engine (main_vars B F) \<union> area (main_struct F) 16)"
  shows "\<exists>t. fish_ioctl (main_vars B F) arg cmd s = Some t \<and> ticking B F s0 qs t \<and> acts [op] ps s qs t"
proof -
  define t where "t = s\<lparr>memory := m\<rparr>"
  have "engine (main_vars B F) \<union> area (main_struct F) 16 \<subseteq> fish_area B F" using fish_area_sub(2,6) by blast
  then have "ticking B F s0 qs t" unfolding t_def by (rule ticking_memory [OF d op(4) _ op(2)])
  moreover have "acts [op] ps s qs t" by (rule acts_one [OF op(3)]) (simp add: t_def)
  ultimately show ?thesis using op(1) by (intro exI [of _ t]) (simp add: fish_ioctl_def t_def)
qed

lemma fish_run_spec:
  fixes s s0 :: "'a tty_scheme"
  assumes L: "fish_layout P B F X" and d: "ticking B F s0 ps s" and op: "proper_op op"
    and run: "run_blink (main_vars B F) (main_struct F) op (memory s) = mp1_ioctl (main_vars B F) arg cmd (memory s)"
  shows "\<exists>t qs. fish_ioctl (main_vars B F) arg cmd s = Some t \<and> ticking B F s0 qs t \<and> acts [op] ps s qs t"
proof -
  note f = fish_layoutD [OF L]
  have ok: "blinks_ok (main_vars B F) ps (memory s)" using d by (simp add: ticking_def)
  obtain r m qs where m: "run_blink (main_vars B F) (main_struct F) op (memory s) = Some (r, m)" "blinks_ok (main_vars B F) qs m"
    "spec_blink op (blinkers ps (memory s), shown (memory s)) = (r, blinkers qs m, shown m)"
    "changes (memory s) m (engine (main_vars B F) \<union> area (main_struct F) 16)"
    using run_blink_refines [OF f(2) ok f(4) op] by blast
  have "mp1_ioctl (main_vars B F) arg cmd (memory s) = Some (r, m)" "blinks_ok B qs m" using m(1,2) run by simp_all
  from fish_ioctl_spec [OF d this m(3,4)] show ?thesis by blast
qed

lemma fish_add_spec:
  fixes s s0 :: "'a tty_scheme"
  assumes L: "fish_layout P B F X" and d: "ticking B F s0 ps s"
  shows "\<exists>t qs. fish_ioctl (main_vars B F) (main_struct F) 0 (fish_blinker F s) = Some t \<and> ticking B F s0 qs t \<and>
    acts [Add moving_blinker] ps s qs t"
proof -
  note f = fish_layoutD [OF L]
  let ?q = "main_struct F"
  define m0 where "m0 = (memory s)(?q + ON_CHAR := 0x49, ?q + OFF_CHAR := 0x4D)"
  define m1 where "m1 = wr16 m0 (?q + ON_LENGTH) 7"
  define m2 where "m2 = wr16 m1 (?q + OFF_LENGTH) 6"
  define m3 where "m3 = wr16 m2 (?q + LOCATION) 540"
  have u: "fish_blinker F s = s\<lparr>memory := m3\<rparr>" by (simp add: fish_blinker_def m0_def m1_def m2_def m3_def Let_def)
  have b2: "blink_at m2 ?q = (blink_at m0 ?q)\<lparr>on_length := 7, off_length := 6\<rparr>"
    unfolding m2_def m1_def blink_at_wr16 by simp
  have "rd16 m3 (?q + LOCATION) = 540" unfolding m3_def by (rule rd16_wr16)
  then have "location (blink_at m3 ?q) = 540" "on_char (blink_at m3 ?q) = on_char (blink_at m2 ?q)" "off_char (blink_at m3 ?q) = off_char (blink_at m2 ?q)"
    "on_length (blink_at m3 ?q) = on_length (blink_at m2 ?q)" "off_length (blink_at m3 ?q) = off_length (blink_at m2 ?q)"
    by (simp_all add: blink_at_def m3_def wr16_def rd16_def add.assoc)
  moreover have "on_char (blink_at m0 ?q) = 0x49" "off_char (blink_at m0 ?q) = 0x4D" by (simp_all add: blink_at_def m0_def)
  ultimately have new: "blink_new (blink_at m3 ?q) = blink_new moving_blinker" by (simp add: b2 blink_new_def moving_blinker_def)
  have "changes (memory s) m0 (area ?q 16)" by (auto simp: m0_def changes_def area_def)
  moreover have "changes m0 m1 (area ?q 16)" "changes m1 m2 (area ?q 16)" unfolding m1_def m2_def by (rule changes_fields)+
  moreover have "changes m2 m3 (area ?q 16)" unfolding m3_def by (auto simp: changes_def wr16_def area_def)
  ultimately have c: "changes (memory s) m3 (area ?q 16)" using changes_trans by blast
  note k = ticking_spare [OF d c fish_area_sub(6) f(8), folded u]
  have m: "memory (fish_blinker F s) = m3" by (simp add: u)
  have okm: "blinks_ok (main_vars B F) ps m3" using k(1) m by (simp add: ticking_def)
  have l: "location moving_blinker \<noteq> 0" by (simp add: moving_blinker_def)
  obtain r m4 qs where m4: "mp1_ioctl (main_vars B F) ?q 0 m3 = Some (r, m4)" "blinks_ok (main_vars B F) qs m4"
    "spec_blink (Add moving_blinker) (blinkers ps m3, shown m3) = (r, blinkers qs m4, shown m4)" "changes m3 m4 (engine (main_vars B F))"
    using ioctl_add [OF f(2,4) okm new l] by blast
  have "blinks_ok B qs m4" "changes m3 m4 (engine (main_vars B F) \<union> area ?q 16)" using m4(2) changes_mono [OF m4(4)] by auto
  from fish_ioctl_spec [OF k(1), unfolded m, OF m4(1) this(1) m4(3) this(2)] show ?thesis
    using acts_before [OF k(2)] by blast
qed


text \<open>Setting the rate of the clock, and leaving.\<close>

definition clock_open :: "blink_vars \<Rightarrow> fish_frame \<Rightarrow> 'a tty_scheme \<Rightarrow> addr list \<Rightarrow> 'a tty_scheme \<Rightarrow> bool" where
  "clock_open B F s0 ps s \<longleftrightarrow> fish_runs B F s0 s \<and> blinks_ok B ps (memory s) \<and> clock_fd 2 s"

lemma clock_open_memory:
  fixes s s0 :: "'a tty_scheme"
  assumes "clock_open B F s0 ps s" "changes (memory s) m A" "A \<subseteq> fish_area B F" "spare B A"
  shows "clock_open B F s0 ps (s\<lparr>memory := m\<rparr>)" "same_picture ps s (s\<lparr>memory := m\<rparr>)"
  using fish_runs_memory [OF _ assms(2,3), of s0] spare_keeps [OF _ assms(2,4), of ps] assms(1)
  by (simp_all add: clock_open_def same_picture_def)

lemma fish_rate_spec:
  fixes s s0 :: "'a tty_scheme"
  assumes L: "fish_layout P B F X" and d: "clock_open B F s0 ps s"
  defines "u \<equiv> s\<lparr>memory := wr32 (memory s) (fish_ret_val F) 32\<rparr>"
  shows "\<exists>t. ece391_write P (int 2) (fish_ret_val F) 4 u = Some (0, t) \<and>
    ticking B F s0 ps (t\<lparr>memory := wr32 (memory t) (fish_ret_val F) 0\<rparr>) \<and>
    same_picture ps s (t\<lparr>memory := wr32 (memory t) (fish_ret_val F) 0\<rparr>)"
proof -
  note f = fish_layoutD [OF L]
  note k = clock_open_memory [OF d changes_wr32 fish_area_sub(7) f(9), of 32, folded u_def]
  have c: "program_ok u" "clock_fd 2 u" using k(1) by (simp_all add: clock_open_def fish_runs_def)
  have v: "rd32 (memory u) (fish_ret_val F) = 32" by (simp add: u_def rd32_wr32)
  obtain t where t: "ece391_write P (int 2) (fish_ret_val F) 4 u = Some (0, t)" "same_screen u t" "fd_array t = fd_array u" "virt_freq t = 32"
    using write_clock [OF c, of "fish_ret_val F" P] by (auto simp: v valid_freqs_def)
  have "memory t = memory u" using t(2) by (simp add: same_screen_def)
  then have "clock_open B F s0 ps t" using k(1) t(3) fish_runs_same [OF _ t(2), of B F s0] by (simp add: clock_open_def clock_fd_def)
  note j = clock_open_memory [OF this changes_wr32 fish_area_sub(7) f(9), of 0]
  have "same_picture ps u t" by (rule same_picture_screen [OF t(2)])
  then have "same_picture ps s (t\<lparr>memory := wr32 (memory t) (fish_ret_val F) 0\<rparr>)" using k(2) j(2) by (simp add: same_picture_def)
  then show ?thesis using t(1,4) j(1) by (auto simp: ticking_def clock_open_def)
qed

lemma fish_close_spec:
  fixes s s0 :: "'a tty_scheme"
  assumes d: "ticking B F s0 ps s"
  shows "\<exists>r t. ece391_close P (int 2) s = Some (r, t) \<and> fish_runs B F s0 t \<and> blinks_ok B ps (memory t) \<and> same_picture ps s t"
proof -
  have "program_ok s" using d by (simp add: ticking_def fish_runs_def)
  then obtain r t where t: "ece391_close P (int 2) s = Some (r, t)" "same_screen s t" using close_fd [of s 2 P] by auto
  have "fish_runs B F s0 t" "blinks_ok B ps (memory t)"
    using d fish_runs_same [OF _ t(2), of B F s0] t(2) by (simp_all add: ticking_def same_screen_def)
  then show ?thesis using t(1) same_picture_screen [OF t(2)] by blast
qed

text \<open>The part of \<open>main\<close> behind \<open>add_frames\<close>.\<close>

definition show_ops :: "blink_op list" where
  "show_ops = replicate 100 Tick @ [Add moving_blinker] @ replicate 100 Tick @ [Sync 40 540] @ replicate 100 Tick @
     [Remove 540] @ replicate 100 Tick"

lemma fish_ops_show: "fish_ops xs ys = map Add (frame_cells 0 (split_lines xs) (split_lines ys)) @ show_ops"
  by (simp add: fish_ops_def show_ops_def)

lemma fish_show_spec:
  fixes s s0 :: "'a tty_scheme"
  assumes L: "fish_layout P B F X" and irqs: "32 \<le> count_list (prog_irqs P) True" and d: "clock_open B F s0 ps s"
  shows "\<exists>t qs. fish_show P B F 2 s = Some (0, t) \<and> fish_runs B F s0 t \<and> blinks_ok B qs (memory t) \<and> acts show_ops ps s qs t"
proof -
  define u where "u = s\<lparr>memory := wr32 (memory s) (fish_ret_val F) 32\<rparr>"
  obtain t where t: "ece391_write P (int 2) (fish_ret_val F) 4 u = Some (0, t)"
    "ticking B F s0 ps (t\<lparr>memory := wr32 (memory t) (fish_ret_val F) 0\<rparr>)"
    "same_picture ps s (t\<lparr>memory := wr32 (memory t) (fish_ret_val F) 0\<rparr>)"
    using fish_rate_spec [OF L d] unfolding u_def by blast
  define v where "v = t\<lparr>memory := wr32 (memory t) (fish_ret_val F) 0\<rparr>"
  note w = fish_wait_spec [OF L irqs, where n = 100]
  obtain a as where a: "fish_wait 100 P B F 2 v = Some a" "ticking B F s0 as a" "acts (replicate 100 Tick) ps v as a"
    using w [OF t(2)] unfolding v_def by blast
  obtain b bs where b: "fish_ioctl (main_vars B F) (main_struct F) 0 (fish_blinker F a) = Some b" "ticking B F s0 bs b"
    "acts [Add moving_blinker] as a bs b"
    using fish_add_spec [OF L a(2)] by blast
  obtain c cs where c: "fish_wait 100 P B F 2 b = Some c" "ticking B F s0 cs c" "acts (replicate 100 Tick) bs b cs c"
    using w [OF b(2)] by blast
  obtain e es where e: "fish_ioctl (main_vars B F) (push_bit 16 40 OR (6 * 80 + 60)) 3 c = Some e" "ticking B F s0 es e" "acts [Sync 40 540] cs c es e"
    using fish_run_spec [OF L c(2), of "Sync 40 540" "push_bit 16 40 OR (6 * 80 + 60)" 3] by auto
  obtain g gs where g: "fish_wait 100 P B F 2 e = Some g" "ticking B F s0 gs g" "acts (replicate 100 Tick) es e gs g"
    using w [OF e(2)] by blast
  obtain h hs where h: "fish_ioctl (main_vars B F) (6 * 80 + 60) 1 g = Some h" "ticking B F s0 hs h" "acts [Remove 540] gs g hs h"
    using fish_run_spec [OF L g(2), of "Remove 540" "6 * 80 + 60" 1] by auto
  obtain k ks where k: "fish_wait 100 P B F 2 h = Some k" "ticking B F s0 ks k" "acts (replicate 100 Tick) hs h ks k"
    using w [OF h(2)] by blast
  obtain r z where z: "ece391_close P (int 2) k = Some (r, z)" "fish_runs B F s0 z" "blinks_ok B ks (memory z)" "same_picture ks k z"
    using fish_close_spec [OF k(2)] by blast
  have "fish_show P B F 2 s = Some (0, z)"
    using t(1) a(1) b(1) c(1) e(1) g(1) h(1) k(1) z(1) by (simp add: fish_show_def u_def [symmetric] v_def Let_def)
  moreover have "acts show_ops ps v ks z"
    unfolding show_ops_def
    using acts_append [OF a(3) acts_append [OF b(3) acts_append [OF c(3) acts_append [OF e(3) acts_append [OF g(3)
      acts_append [OF h(3) acts_after [OF k(3) z(4)]]]]]]] .
  then have "acts show_ops ps s ks z" using acts_before t(3) unfolding v_def by blast
  ultimately show ?thesis using z(2,3) by blast
qed

subsection \<open>The program\<close>

text \<open>The screen is mapped, and its address handed to the engine.\<close>

lemma videomem_int_flag:
  fixes s :: "'a paging_scheme"
  shows "int_flag (videomem_map L addr_148MB p s) = int_flag s"
  unfolding videomem_map_def Let_def window_index fold_video_page
  by (simp add: set_directory_def flush_TLB_def load_cr3_def)

lemma fish_vidmap:
  fixes s :: "'a tty_scheme"
  assumes ok: "program_ok s" and p: "user_range p 4"
  shows "\<exists>t. ece391_vidmap P p s = Some (0, t\<lparr>memory := wr32 (memory s) p addr_148MB\<rparr>) \<and> same_screen s t \<and> fd_array t = fd_array s"
proof -
  define t where "t = videomem_map (paging_tables (prog_links P)) addr_148MB video_mem_addr s"
  note more = paging_more_tty [OF map_fields(6) [of "paging_tables (prog_links P)" video_mem_addr s]]
  have "p \<noteq> 0" using user_range_nonzero [OF p] by simp
  moreover have "p \<noteq> fourM" using area_window [OF p, of p] by (auto simp: area_def in_window_def fourM_def virtual_mem_def)
  ultimately have "ece391_vidmap P p s = Some (0, t\<lparr>memory := wr32 (memory t) p addr_148MB\<rparr>)"
    by (simp add: call_defs do_call_simps [OF ok] syscall_vidmap_def t_def Let_def)
  moreover have "program_ok t"
    using ok terminals_ok_same [of t s] by (simp add: program_ok_def t_def more map_fields videomem_screen videomem_int_flag fd_array_def pcb_of_def)
  then have "same_screen s t" by (simp add: same_screen_def t_def more map_fields videomem_screen)
  moreover have "fd_array t = fd_array s" by (simp add: fd_array_def pcb_of_def t_def more)
  moreover have "memory t = memory s" by (simp add: t_def map_fields)
  ultimately show ?thesis by auto
qed

lemma blink_started:
  assumes L: "blink_layout B" and h: "rd32 m (mp1_list_head B) = 0"
  defines "m' \<equiv> wr32 (blink_start B m) (vmem_base_addr B) addr_148MB"
  shows "blinks_ok B [] m'" "shown m' = shown m" "rd32 m' (vmem_base_addr B) = addr_148MB"
proof -
  note d = blink_layoutD [OF L] and c = blink_start_clears [where m = m and B = B]
  have v: "changes (blink_start B m) m' (area (vmem_base_addr B) 4)" unfolding m'_def by (rule changes_wr32)
  show r: "rd32 m' (vmem_base_addr B) = addr_148MB" by (simp add: m'_def rd32_wr32)
  have "shown m' = shown (blink_start B m)" by (rule shown_changes [OF v d(10)])
  then show "shown m' = shown m" using shown_changes [OF c(1) d(5)] by simp
  have "rd32 m' (mp1_list_head B) = 0" using rd32_changes [OF v] rd32_changes [OF c(1)] d(2,6) h by (simp add: Int_commute)
  moreover have "rd16 m' (p + LOCATION) = 0" if p: "p \<in> slots B" for p
  proof -
    have "area p 16 \<inter> area (vmem_base_addr B) 4 = {}" using slots_in_array [OF p] d(3) by blast
    then have "blink_at m' p = blink_at (blink_start B m) p" using blink_at_changes(1) [OF v] by (simp add: Int_commute)
    then have "location (blink_at m' p) = location (blink_at (blink_start B m) p)" by simp
    then show ?thesis using c(2) [OF p] by (simp add: blink_at_def)
  qed
  ultimately show "blinks_ok B [] m'" using r by (simp add: blinks_ok_def)
qed

lemma fish_video_spec:
  fixes s :: "'a tty_scheme"
  assumes L: "fish_layout P B F X" and ok: "program_ok s" and h: "rd32 (memory s) (mp1_list_head B) = 0"
  shows "\<exists>t. mp1_set_video_mode P B (s\<lparr>memory := blink_start B (memory s)\<rparr>) = Some (addr_148MB, t) \<and> fish_runs B F s t \<and>
    blinks_ok B [] (memory t) \<and> shown (memory t) = shown (memory s) \<and> fd_array t = fd_array s"
proof -
  note f = fish_layoutD [OF L]
  define s1 where "s1 = s\<lparr>memory := blink_start B (memory s)\<rparr>"
  have r1: "fish_runs B F s s1"
    unfolding s1_def by (rule fish_runs_memory [OF fish_runs_refl [OF ok] blink_start_clears(1) fish_area_sub(9)])
  have "(vmem_base_addr B, 4) \<in> set (fish_own B F)" by (simp add: fish_own_def)
  then have p: "user_range (vmem_base_addr B) 4" using L unfolding fish_layout_def by blast
  obtain u where u: "ece391_vidmap P (vmem_base_addr B) s1 = Some (0, u\<lparr>memory := wr32 (memory s1) (vmem_base_addr B) addr_148MB\<rparr>)"
    "same_screen s1 u" "fd_array u = fd_array s1"
    using fish_vidmap [OF _ p, of s1 P] r1 by (auto simp: fish_runs_def)
  define t where "t = u\<lparr>memory := wr32 (memory s1) (vmem_base_addr B) addr_148MB\<rparr>"
  have "memory u = memory s1" using u(2) by (simp add: same_screen_def)
  then have "changes (memory u) (wr32 (memory s1) (vmem_base_addr B) addr_148MB) (area (vmem_base_addr B) 4)"
    using changes_wr32 by simp
  then have "fish_runs B F s t" unfolding t_def by (rule fish_runs_memory [OF fish_runs_same [OF r1 u(2)] _ fish_area_sub(8)])
  moreover note b = blink_started [OF f(1) h]
  moreover have "mp1_set_video_mode P B s1 = Some (addr_148MB, t)" using u(1) b(3) by (simp add: mp1_set_video_mode_def t_def s1_def)
  moreover have "fd_array t = fd_array s" using u(3) by (simp add: t_def s1_def)
  ultimately show ?thesis by (intro exI [of _ t]) (simp add: t_def s1_def)
qed

text \<open>The clock is the first file the program opens.\<close>

lemma fish_open_clock:
  fixes s s0 :: "'a tty_scheme"
  assumes L: "fish_layout P B F X" and r: "fish_runs B F s0 s" and img: "image_apart (memory s0) (boot_block s0)" and c: "clock_file s0"
    and x: "''rtc'' \<in> X" "in_program (memory s0) (prog_lit P ''rtc'') (bytes ''rtc'')" and fds: "fd_array s = std_fds"
  shows "\<exists>t. ece391_open P (prog_lit P ''rtc'') s = Some (2, t) \<and> same_screen s t \<and> clock_fd 2 t \<and>
    fd_array t = std_fds[2 := opened_fd Rtc_fops 0 empty_fd]"
proof -
  obtain i where i: "lookup (memory s0) (boot_block s0) (bytes ''rtc'') = Some i"
    "d_type (dentry_at (memory s0) (entry_addr (boot_block s0) (of_nat i))) = 0"
    using c by (auto simp: clock_file_def)
  note lk = fish_lookup [OF L r img i(1)]
  have name: "in_program (memory s) (prog_lit P ''rtc'') (bytes ''rtc'')" by (rule fish_literal [OF L r x])
  have ln: "prog_lit P ''rtc'' \<noteq> 0" "bytes ''rtc'' \<noteq> []" "length (bytes ''rtc'') \<le> 32" using literal_name [OF name] by simp_all
  have ok: "program_ok s" using r by (simp add: fish_runs_def)
  have "find_open_fd (fd_array s) = Some 2" using fds std_fds_first(1) by simp
  from open_clock [OF ok name ln this lk(1), of P] show ?thesis
    using i(2) lk(2) fds std_fds_first(2) by auto
qed

lemma fish_fds:
  defines "fds \<equiv> std_fds[2 := opened_fd Rtc_fops 0 empty_fd]"
  shows "find_open_fd fds = Some 3" "fds ! 3 = empty_fd" "fds ! 4 = empty_fd"
  by (simp_all add: fds_def find_open_fd_def std_fds_def opened_fd_def upt_rec) (simp_all add: empty_fd_def)

text \<open>C12: \<open>fish\<close> shows its animation. On a machine with the clock and two frame files, whatever
  their texts (as long as no character falls on location 0), \<open>main\<close> runs to its end and returns 0. The screen
  and the list of the engine's blinkers are then what the abstract engine makes of this sequence
  of operations: a blinker is added for every place where one of the two frames is not
  blank, row by row from column 40 on, the shorter line and the shorter frame being filled with blanks;
  then the clock ticks 100 times, a moving blinker is added, synchronised 40 columns further after
  100 more ticks and removed after another 100, and the clock ticks 100 times more.\<close>
theorem fish_animates:
  fixes s :: "'a tty_scheme"
  assumes "started s" "clock_file s" "frame_named s ''frame0.txt'' xs" "frame_named s ''frame1.txt'' ys"
    and "fish_layout P B F {''rtc'', ''frame0.txt'', ''frame1.txt''}" "literals_at P (memory s) {''rtc'', ''frame0.txt'', ''frame1.txt''}"
    and "rd32 (memory s) (mp1_list_head B) = 0" "32 \<le> count_list (prog_irqs P) True"
    and "\<forall>b \<in> set (frame_cells 0 (split_lines xs) (split_lines ys)). location b \<noteq> 0"
  shows "\<exists>t ps rs. fish_main P B F s = Some (Inr (0, t)) \<and> program_ok t \<and> blinks_ok B ps (memory t) \<and>
    spec_blinks (fish_ops xs ys) ([], shown (memory s)) = (rs, blinkers ps (memory t), shown (memory t))"
proof -
  note L = assms(5)
  have o: "program_ok s" "fd_array s = std_fds" "image_apart (memory s) (boot_block s)" using assms(1) by (simp_all add: started_def)
  have lit: "in_program (memory s) (prog_lit P x) (bytes x)" if "x \<in> {''rtc'', ''frame0.txt'', ''frame1.txt''}" for x
    using assms(6) that unfolding literals_at_def by blast
  obtain s1 where s1: "mp1_set_video_mode P B (s\<lparr>memory := blink_start B (memory s)\<rparr>) = Some (addr_148MB, s1)" "fish_runs B F s s1"
    "blinks_ok B [] (memory s1)" "shown (memory s1) = shown (memory s)" "fd_array s1 = std_fds"
    using fish_video_spec [OF L o(1) assms(7)] o(2) by auto
  obtain s2 where s2: "ece391_open P (prog_lit P ''rtc'') s1 = Some (2, s2)" "same_screen s1 s2" "clock_fd 2 s2"
    "fd_array s2 = std_fds[2 := opened_fd Rtc_fops 0 empty_fd]"
    using fish_open_clock [OF L s1(2) o(3) assms(2) _ _ s1(5)] lit by auto
  have r2: "fish_runs B F s s2" by (rule fish_runs_same [OF s1(2) s2(2)])
  have m2: "memory s2 = memory s1" using s2(2) by (simp add: same_screen_def)
  have ok2: "blinks_ok B [] (memory s2)" using s1(3) m2 by simp
  obtain s3 qs where s3: "add_frames P B F (prog_lit P ''frame0.txt'') (prog_lit P ''frame1.txt'') s2 = Some (Inr s3)" "fish_runs B F s s3"
    "blinks_ok B qs (memory s3)" "acts (map Add (frame_cells 0 (split_lines xs) (split_lines ys))) [] s2 qs s3" "others {3, 4} s2 s3"
    using add_frames_spec [OF L r2 ok2 assms(3,4) _ _ _ lit _ _ _ lit _ _ _ assms(9)] fish_fds s2(4) by auto
  have "clock_fd 2 s3" using s2(3) s3(5) by (simp add: clock_fd_def others_def)
  then have "clock_open B F s qs s3" using s3(2,3) by (simp add: clock_open_def)
  then obtain t ps where t: "fish_show P B F 2 s3 = Some (0, t)" "fish_runs B F s t" "blinks_ok B ps (memory t)" "acts show_ops qs s3 ps t"
    using fish_show_spec [OF L assms(8)] by blast
  have "acts (fish_ops xs ys) [] s2 ps t" unfolding fish_ops_show by (rule acts_append [OF s3(4) t(4)])
  then have a: "\<exists>rs. spec_blinks (fish_ops xs ys) ([], shown (memory s)) = (rs, blinkers ps (memory t), shown (memory t))"
    using s1(4) m2 by (simp add: acts_def blinkers_def)
  have "fish_main P B F s = Some (Inr (0, t))" using s1(1) s2(1) s3(1) t(1) by (simp add: fish_main_def addr_148MB_def)
  then show ?thesis using a t(2,3) unfolding fish_runs_def by blast
qed

subsection \<open>A concrete animation\<close>

definition demo_fish_vars :: blink_vars where
  "demo_fish_vars = \<lparr>blink_array = 0x8200000, mp1_list_head = 0x8208000, vmem_base_addr = 0x8208004, blink_stack = 0x8208010\<rparr>"

definition demo_fish :: fish_frame where
  "demo_fish = \<lparr>fish_c0 = 0x8208040, fish_c1 = 0x8208041, frames_struct = 0x8208030, main_struct = 0x8208050,
     fish_ret_val = 0x8208060, fish_garbage = 0x8208064, main_blink_stack = 0x8208020\<rparr>"

definition fish_names :: "string list" where
  "fish_names = [''rtc'', ''frame0.txt'', ''frame1.txt'']"

definition fish_entries :: "(u8 list \<times> u8) list" where
  "fish_entries = [(bytes ''rtc'', 0), (bytes ''frame0.txt'', 2), (bytes ''frame1.txt'', 2)]"

lemma literals_apart_area:
  assumes "literals_apart P X buf n" "n \<le> 2 ^ 32" "x \<in> X" "area a k \<subseteq> area buf n"
  shows "area (prog_lit P x) (Suc (length x)) \<inter> area a k = {}"
proof -
  have ap: "apart (prog_lit P x) (Suc (length x)) buf n" using assms(1,3) by (simp add: literals_apart_def)
  have "z \<notin> area buf n" if "z \<in> area (prog_lit P x) (Suc (length x))" for z
    using apart_outside [OF ap _ assms(2), of "unat (z - prog_lit P x)"] that by (simp add: area_def)
  then show ?thesis using assms(4) by blast
qed

lemma fish_names_ok: "plain_text fish_names" "proper_entries fish_entries" "set fish_names = {''rtc'', ''frame0.txt'', ''frame1.txt''}"
  by (simp_all add: plain_text_def literal_image_def bytes_def fish_names_def fish_entries_def proper_entries_def shell_name_def)

lemma fish_own_within: "(a, n) \<in> set (fish_own demo_fish_vars demo_fish) \<Longrightarrow> unat (a - 0x8200000) + n \<le> 0x100000"
  by (auto simp: fish_own_def demo_fish_vars_def demo_fish_def)

lemma demo_fish_layout: "fish_layout (clock_program fish_names) demo_fish_vars demo_fish {''rtc'', ''frame0.txt'', ''frame1.txt''}"
proof -
  have lit: "literals_apart (clock_program fish_names) {''rtc'', ''frame0.txt'', ''frame1.txt''} 0x8200000 0x100000"
    using files_literals(2) [OF fish_names_ok(2,1), where n = "0x100000"] by (simp add: fish_names_ok(3))
  have own: "user_range a n" "area a n \<subseteq> area 0x8200000 0x100000" if an: "(a, n) \<in> set (fish_own demo_fish_vars demo_fish)" for a n
  proof -
    define j where "j = unat (a - 0x8200000)"
    have j: "a = 0x8200000 + of_nat j" "j + n \<le> 0x100000" using fish_own_within [OF an] by (simp_all add: j_def)
    then show "area a n \<subseteq> area 0x8200000 0x100000" using area_sub [of j n "0x100000" "0x8200000"] by simp
    have "in_window (0x8200000 + of_nat (j + i))" if "i < n" for i
    proof -
      have "j + i < 0x100000" using that j(2) by simp
      then show ?thesis using sample_buffer [of "0x100000"] unfolding user_range_def by blast
    qed
    then show "user_range a n" by (simp add: user_range_def j(1) add.assoc)
  qed
  have "separate (blink_areas demo_fish_vars @ [(frames_struct demo_fish, 16), (fish_c0 demo_fish, 1), (fish_c1 demo_fish, 1)])"
    "separate (blink_areas (main_vars demo_fish_vars demo_fish) @ [(main_struct demo_fish, 16), (fish_ret_val demo_fish, 4)])"
    by (simp_all add: blink_areas_def main_vars_def demo_fish_vars_def demo_fish_def STRUCT_SIZE_def BLINKS_def video_mem_addr_def
        area_disjointI)
  moreover have "\<forall>(a, n) \<in> set (fish_own demo_fish_vars demo_fish). user_range a n" using own(1) by blast
  moreover have "\<forall>x \<in> {''rtc'', ''frame0.txt'', ''frame1.txt''}. \<forall>(a, n) \<in> set (fish_own demo_fish_vars demo_fish).
      area (prog_lit (clock_program fish_names) x) (Suc (length x)) \<inter> area a n = {}"
    using literals_apart_area [OF lit _ _ own(2)] by fastforce
  ultimately show ?thesis unfolding fish_layout_def by blast
qed

lemma demo_fish_disk:
  defines "s \<equiv> files_started fish_entries fish_names"
  shows "clock_file s" "frame_named s ''frame0.txt'' [0x7F, 0x45, 0x4C, 0x46, 0]" "frame_named s ''frame1.txt'' [0x7F, 0x45, 0x4C, 0x46, 0]"
    "rd32 (memory s) 0x8208000 = 0"
proof -
  note P = fish_names_ok(2) and X = fish_names_ok(1)
  have n: "length fish_entries = 3" by (simp add: fish_entries_def)
  have lk: "lookup (files_memory fish_entries fish_names) 0x100000 (fst (fish_entries ! i)) = Some (i + 2)" if "i < 3" for i
    using files_lookup [OF P X, of i] that by (simp add: n)
  note im = files_image [OF P X]
  let ?f = "file_byte (sample_memory fish_names) 0x100000 0"
  have t: "map ?f [0..<shown_end (file_size (sample_memory fish_names) 0x100000 0)] = [0x7F, 0x45, 0x4C, 0x46, 0]"
    using sample_file [OF X] by (simp add: file_text_def)
  from arg_cong [OF t, of length] have "shown_end (file_size (sample_memory fish_names) 0x100000 0) = 5" by simp
  then have "map ?f [0..<5] = [0x7F, 0x45, 0x4C, 0x46, 0]" using t by (simp only:)
  moreover have "file_bytes (files_memory fish_entries fish_names) 0x100000 0 = map ?f [0..<5]"
    unfolding file_bytes_def im(3) by (rule map_cong) (simp_all add: im(4))
  ultimately have "frame_file s 0 [0x7F, 0x45, 0x4C, 0x46, 0]" using im(1,2) by (simp add: frame_file_def s_def)
  then show "clock_file s" "frame_named s ''frame0.txt'' [0x7F, 0x45, 0x4C, 0x46, 0]" "frame_named s ''frame1.txt'' [0x7F, 0x45, 0x4C, 0x46, 0]"
    using lk [of 0] lk [of 1] lk [of 2] files_entry(2,3) [OF P, of 0 fish_names] files_entry(2,3) [OF P, of 1 fish_names]
      files_entry(2,3) [OF P, of 2 fish_names]
    by (simp_all add: clock_file_def frame_named_def s_def n) (simp_all add: fish_entries_def)
  have "length (concat (map entry_bytes fish_entries)) = 192" using length_entries [OF P] by (simp add: n)
  moreover have "length (literal_image fish_names) = 26" by (simp add: literal_image_def fish_names_def bytes_def)
  ultimately have "files_memory fish_entries fish_names a = sample_disk a" if "a \<in> {0x8208000, 0x8208001, 0x8208002, 0x8208003}" for a
    using that by (auto simp: files_memory_def sample_memory_def put_outside)
  from this [of "0x8208000"] this [of "0x8208001"] this [of "0x8208002"] this [of "0x8208003"] show "rd32 (memory s) 0x8208000 = 0"
    by (simp add: s_def rd32_def) (simp add: sample_disk_def shell_image_def elf_image_def demo_image_def)
qed

lemma fish_animates_witness:
  "\<exists>t ps rs. fish_main (clock_program fish_names) demo_fish_vars demo_fish (files_started fish_entries fish_names) = Some (Inr (0, t)) \<and>
    spec_blinks (fish_ops [0x7F, 0x45, 0x4C, 0x46, 0] [0x7F, 0x45, 0x4C, 0x46, 0]) ([], shown (files_memory fish_entries fish_names)) =
      (rs, blinkers ps (memory t), shown (memory t))"
proof -
  let ?xs = "[0x7F, 0x45, 0x4C, 0x46, 0] :: u8 list"
  note P = fish_names_ok(2) and X = fish_names_ok(1)
  have l: "literals_at (clock_program fish_names) (memory (files_started fish_entries fish_names)) {''rtc'', ''frame0.txt'', ''frame1.txt''}"
    using files_literals(1) [OF P X, of "set fish_names"] by (simp add: fish_names_ok(3))
  have "split_lines ?xs = [?xs]" by (rule split_lines_simps) simp
  then have c: "\<forall>b \<in> set (frame_cells 0 (split_lines ?xs) (split_lines ?xs)). location b \<noteq> 0"
    by (simp add: frame_cells_def line_at_def row_cells_def char_at_def cell_def upt_rec)
  show ?thesis
    using fish_animates [OF files_started_ok [OF P X] demo_fish_disk(1-3) demo_fish_layout l _ _ c] demo_fish_disk(4)
    by (simp add: demo_fish_vars_def) blast
qed

end
