(* ===== verification/Emulate.thy ===== *)
theory Emulate
  imports User Blinkers
begin

section \<open>The system calls on Linux\<close>

text \<open>
  \<open>src/syscalls/ece391emulate.c\<close> (\<open>src/fish/ece391emulate.c\<close> is the same text) lets the programs run
  on Linux: some calls are handed through, the others are put together from the
  library. Linux and its library are the parameter \<open>linux\<close>: the system call interrupt, a new
  process, directories and devices, each over a state \<open>'w\<close> of the world. \<open>'d\<close> are the handles of
  open directories.
\<close>

datatype wait_status = Exited u8 | Signaled nat

text \<open>\<open>exec_child\<close> is \<open>None\<close> where \<open>execv\<close> fails; otherwise it gives what \<open>wait\<close> reports.\<close>

record ('w, 'd) linux =
  int80 :: "u32 \<Rightarrow> u32 list \<Rightarrow> mem \<Rightarrow> 'w \<Rightarrow> u32 \<times> mem \<times> 'w"
  exec_child :: "mem \<Rightarrow> addr \<Rightarrow> addr list \<Rightarrow> 'w \<Rightarrow> (wait_status \<times> 'w) option"
  open_device :: "string \<Rightarrow> 'w \<Rightarrow> int \<times> 'w"
  close_device :: "int \<Rightarrow> 'w \<Rightarrow> 'w"
  open_directory :: "'w \<Rightarrow> 'd option \<times> 'w"
  next_entry :: "'d \<Rightarrow> 'w \<Rightarrow> u8 list option \<times> 'w"
  close_directory :: "'d \<Rightarrow> 'w \<Rightarrow> 'w"
  map_device :: "int \<Rightarrow> 'w \<Rightarrow> addr option \<times> 'w"

record ('w, 'd) emulated =
  em_memory :: mem
  em_world :: 'w
  start_esp :: addr
  dir_fd :: int
  dir_handle :: "'d option"
  mem_fd :: int

text \<open>The wrapper of a call that Linux answers: numbers above \<open>0xFFFFC000\<close> are errors.\<close>

definition linux_call :: "('w, 'd) linux \<Rightarrow> u32 \<Rightarrow> u32 list \<Rightarrow> ('w, 'd) emulated \<Rightarrow> int \<times> ('w, 'd) emulated" where
  "linux_call X number args s =
     (let (eax, m, w) = int80 X number args (em_memory s) (em_world s)
      in (if eax > 0xFFFFC000 then -1 else sint eax, s\<lparr>em_memory := m, em_world := w\<rparr>))"

definition emu_start :: "('w, 'd) linux \<Rightarrow> (('w, 'd) emulated \<Rightarrow> (int \<times> ('w, 'd) emulated) option) \<Rightarrow> addr \<Rightarrow>
    ('w, 'd) emulated \<Rightarrow> (int \<times> ('w, 'd) emulated) option" where
  "emu_start X main esp s = do {
     (r, s) \<leftarrow> main (s\<lparr>start_esp := esp\<rparr>);
     Some (linux_call X 1 [word_of_int r] s)
   }"

subsection \<open>execute\<close>

partial_function (option) skip_blanks :: "mem \<Rightarrow> addr \<Rightarrow> addr option" where
  "skip_blanks m scan = (if m scan = 0x20 then skip_blanks m (scan + 1) else Some scan)"

partial_function (option) skip_word :: "mem \<Rightarrow> addr \<Rightarrow> addr option" where
  "skip_word m scan = (if m scan \<noteq> 0 \<and> m scan \<noteq> 0x20 \<and> m scan \<noteq> 0x0A then skip_word m (scan + 1) else Some scan)"

text \<open>The loop over the arguments; \<open>args\<close> is the filled part of the array.\<close>

partial_function (option) emu_args :: "mem \<Rightarrow> addr \<Rightarrow> addr list \<Rightarrow> (mem \<times> addr list) option" where
  "emu_args m scan args = do {
     scan \<leftarrow> skip_blanks m scan;
     if m scan = 0 \<or> m scan = 0x0A then Some (m(scan := 0), args)
     else do {
       p \<leftarrow> skip_word m scan;
       if m p \<noteq> 0 then emu_args (m(p := 0)) (p + 1) (args @ [scan])
       else emu_args m p (args @ [scan])
     }
   }"

definition emu_words :: "addr \<Rightarrow> addr \<Rightarrow> mem \<Rightarrow> (mem \<times> addr list) option" where
  "emu_words buf command m = do {
     m \<leftarrow> ece391_strcpy (m(buf := 0x2E, buf + 1 := 0x2F)) (buf + 2) command;
     scan \<leftarrow> skip_word m (buf + 2);
     if m scan \<noteq> 0 then emu_args (m(scan := 0)) (scan + 1) [buf] else Some (m, [buf])
   }"

text \<open>A child whose \<open>execv\<close> returns kills itself.\<close>

definition emu_child :: "('w, 'd) linux \<Rightarrow> mem \<Rightarrow> addr \<Rightarrow> addr list \<Rightarrow> 'w \<Rightarrow> wait_status \<times> 'w" where
  "emu_child X m buf args w = (case exec_child X m buf args w of Some r \<Rightarrow> r | None \<Rightarrow> (Signaled 9, w))"

fun wait_value :: "wait_status \<Rightarrow> int" where
  "wait_value (Exited c) = uint c"
| "wait_value (Signaled k) = (if k = 9 then -1 else 256)"

definition emu_execute :: "('w, 'd) linux \<Rightarrow> addr \<Rightarrow> addr \<Rightarrow> ('w, 'd) emulated \<Rightarrow> (int \<times> ('w, 'd) emulated) option" where
  "emu_execute X buf command s = do {
     n \<leftarrow> ece391_strlen (em_memory s) command;
     if n > 1023 then Some (-1, s)
     else do {
       (m, args) \<leftarrow> emu_words buf command (em_memory s);
       let (status, w) = emu_child X m buf args (em_world s);
       Some (wait_value status, s\<lparr>em_memory := m, em_world := w\<rparr>)
     }
   }"

subsection \<open>The other calls\<close>

text \<open>\<open>dot\<close> is the address of the literal \<open>"."\<close>.\<close>

definition emu_open :: "('w, 'd) linux \<Rightarrow> addr \<Rightarrow> addr \<Rightarrow> ('w, 'd) emulated \<Rightarrow> (int \<times> ('w, 'd) emulated) option" where
  "emu_open X dot filename s = do {
     c \<leftarrow> ece391_strcmp (em_memory s) filename dot;
     Some (if c = 0 then
             (let (d, w) = open_directory X (em_world s); (f, w) = open_device X ''/dev/null'' w
              in (f, s\<lparr>dir_handle := d, dir_fd := f, em_world := w\<rparr>))
           else linux_call X 5 [filename, 0] s)
   }"

partial_function (option) emu_getargs_loop :: "addr \<Rightarrow> int \<Rightarrow> int \<Rightarrow> addr \<Rightarrow> int \<Rightarrow> mem \<Rightarrow> ((int + addr \<times> int) \<times> mem) option" where
  "emu_getargs_loop argv idx argc buf nbytes m =
     (if idx < argc then do {
        let a = rd32 m (argv + 4 * word_of_int idx);
        len \<leftarrow> map_option sint (ece391_strlen m a);
        if len > nbytes then Some (Inl (-1), m)
        else do {
          m \<leftarrow> ece391_strcpy m buf (rd32 m (argv + 4 * word_of_int idx));
          let buf = buf + word_of_int len;
          let nbytes = nbytes - len;
          if idx + 1 \<ge> argc then Some (Inr (buf, nbytes), m)
          else if nbytes < 1 then Some (Inl (-1), m)
          else emu_getargs_loop argv (idx + 1) argc (buf + 1) (nbytes - 1) (m(buf := 0x20))
        }
      }
      else Some (Inr (buf, nbytes), m))"

definition emu_getargs :: "addr \<Rightarrow> int \<Rightarrow> ('w, 'd) emulated \<Rightarrow> (int \<times> ('w, 'd) emulated) option" where
  "emu_getargs buf nbytes s = do {
     let argc = sint (rd32 (em_memory s) (start_esp s));
     (r, m) \<leftarrow> emu_getargs_loop (start_esp s + 4) 1 argc buf nbytes (em_memory s);
     Some (case r of
         Inl e \<Rightarrow> (e, s\<lparr>em_memory := m\<rparr>)
       | Inr (buf, nbytes) \<Rightarrow> if nbytes < 1 then (-1, s\<lparr>em_memory := m\<rparr>) else (0, s\<lparr>em_memory := m(buf := 0)\<rparr>))
   }"

definition emu_vidmap :: "('w, 'd) linux \<Rightarrow> addr \<Rightarrow> ('w, 'd) emulated \<Rightarrow> int \<times> ('w, 'd) emulated" where
  "emu_vidmap X screen_start s =
     (let s = (if mem_fd s = -1 then (let (f, w) = open_device X ''/dev/mem'' (em_world s) in s\<lparr>mem_fd := f, em_world := w\<rparr>) else s);
          (image, w) = map_device X (mem_fd s) (em_world s); s = s\<lparr>em_world := w\<rparr>
      in case image of None \<Rightarrow> (-1, s) | Some a \<Rightarrow> (0, s\<lparr>em_memory := wr32 (em_memory s) screen_start (a + 0xB8000)\<rparr>))"

text \<open>The name of a directory entry, filled up with NULs to 32 bytes.\<close>

function emu_pad :: "addr \<Rightarrow> int \<Rightarrow> int \<Rightarrow> mem \<Rightarrow> int \<times> mem" where
  "emu_pad to n_copied nbytes m =
     (if nbytes > n_copied \<and> 32 > n_copied then emu_pad (to + 1) (n_copied + 1) nbytes (m(to := 0)) else (n_copied, m))"
  by pat_completeness auto
termination
  by (relation "measure (\<lambda>(to, n_copied, nbytes, m). nat (32 - n_copied))") auto

declare emu_pad.simps [simp del]

primrec emu_copy_name :: "u8 list \<Rightarrow> addr \<Rightarrow> int \<Rightarrow> int \<Rightarrow> mem \<Rightarrow> int \<times> mem" where
  "emu_copy_name [] to n_copied nbytes m = emu_pad to n_copied nbytes m"
| "emu_copy_name (c # from) to n_copied nbytes m =
     (let m = m(to := c) in
      if n_copied + 1 = nbytes then (nbytes, m)
      else if 32 = n_copied + 1 then (32, m)
      else emu_copy_name from (to + 1) (n_copied + 1) nbytes m)"

definition emu_read :: "('w, 'd) linux \<Rightarrow> int \<Rightarrow> addr \<Rightarrow> int \<Rightarrow> ('w, 'd) emulated \<Rightarrow> int \<times> ('w, 'd) emulated" where
  "emu_read X fdn buf nbytes s =
     (case dir_handle s of
        Some d \<Rightarrow>
          if dir_fd s \<noteq> fdn then linux_call X 3 [word_of_int fdn, buf, word_of_int nbytes] s
          else (case next_entry X d (em_world s) of
              (None, w) \<Rightarrow> (0, s\<lparr>em_world := w\<rparr>)
            | (Some name, w) \<Rightarrow> (let (r, m) = emu_copy_name name buf 0 nbytes (em_memory s) in (r, s\<lparr>em_world := w, em_memory := m\<rparr>)))
      | None \<Rightarrow> linux_call X 3 [word_of_int fdn, buf, word_of_int nbytes] s)"

definition emu_write :: "('w, 'd) linux \<Rightarrow> int \<Rightarrow> addr \<Rightarrow> int \<Rightarrow> ('w, 'd) emulated \<Rightarrow> int \<times> ('w, 'd) emulated" where
  "emu_write X fdn buf nbytes s =
     (if dir_handle s = None \<or> dir_fd s \<noteq> fdn then linux_call X 4 [word_of_int fdn, buf, word_of_int nbytes] s else (-1, s))"

definition emu_close :: "('w, 'd) linux \<Rightarrow> int \<Rightarrow> ('w, 'd) emulated \<Rightarrow> int \<times> ('w, 'd) emulated" where
  "emu_close X fdn s =
     (case dir_handle s of
        Some d \<Rightarrow>
          if dir_fd s \<noteq> fdn then linux_call X 6 [word_of_int fdn] s
          else (0, s\<lparr>em_world := close_device X (dir_fd s) (close_directory X d (em_world s)), dir_handle := None, dir_fd := -1\<rparr>)
      | None \<Rightarrow> linux_call X 6 [word_of_int fdn] s)"

subsection \<open>Words of a command\<close>

definition word_char :: "u8 \<Rightarrow> bool" where
  "word_char c \<longleftrightarrow> c \<noteq> 0x20 \<and> c \<noteq> 0x0A"

function arg_words :: "u8 list \<Rightarrow> u8 list list" where
  "arg_words xs = (let ys = dropWhile (\<lambda>c. c = 0x20) xs; w = takeWhile word_char ys in
     if ys = [] \<or> hd ys = 0x0A then [] else w # arg_words (drop (Suc (length w)) ys))"
  by pat_completeness auto
termination
proof (relation "measure length")
  fix xs ys w :: "u8 list"
  assume d: "ys = dropWhile (\<lambda>c. c = 0x20) xs" "\<not> (ys = [] \<or> hd ys = 0x0A)"
  have "length ys \<le> length xs" unfolding d(1) by (rule length_dropWhile_le)
  then show "(drop (Suc (length w)) ys, xs) \<in> measure length" using d(2) by (cases ys) auto
qed simp

declare arg_words.simps [simp del]

text \<open>The words of a command: the name of the program, and its arguments.\<close>

definition command_words :: "u8 list \<Rightarrow> u8 list list" where
  "command_words xs = (let w = takeWhile word_char xs in w # arg_words (drop (Suc (length w)) xs))"

lemma arg_words_length: "2 * length (arg_words xs) \<le> Suc (length xs)"
proof (induction xs rule: arg_words.induct)
  case (1 xs)
  let ?ys = "dropWhile (\<lambda>c. c = 0x20) xs"
  have l: "length ?ys \<le> length xs" by (rule length_dropWhile_le)
  show ?case
  proof (cases "?ys = [] \<or> hd ?ys = 0x0A")
    case True
    then show ?thesis by (subst arg_words.simps) (auto simp: Let_def)
  next
    case False
    let ?w = "takeWhile word_char ?ys"
    have n: "2 * Suc k \<le> Suc x" if "1 \<le> w" "w \<le> y" "2 * k \<le> Suc (y - Suc w)" "y \<le> x" for k w x y :: nat
    proof (cases "y = w")
      case True
      then have "k = 0" using that(3) by simp
      then show ?thesis using that(1,2,4) by simp
    qed (use that in simp)
    have "hd ?ys \<noteq> 0x20" using False hd_dropWhile by blast
    then have "?w \<noteq> []" using False by (cases ?ys) (auto simp: word_char_def)
    then have "1 \<le> length ?w" by (cases ?w) auto
    moreover have "length ?w \<le> length ?ys" by (rule length_takeWhile_le)
    moreover have "2 * length (arg_words (drop (Suc (length ?w)) ?ys)) \<le> Suc (length (drop (Suc (length ?w)) ?ys))"
      using 1 [OF refl refl] False by blast
    moreover have "arg_words xs = ?w # arg_words (drop (Suc (length ?w)) ?ys)" using False by (subst arg_words.simps) (simp add: Let_def)
    ultimately show ?thesis using n [OF _ _ _ l] by (simp only: length_Cons length_drop)
  qed
qed

subsection \<open>Strings in memory\<close>

lemma area_next: "j + k \<le> 2 ^ 32 \<Longrightarrow> area a j \<inter> area (a + of_nat j) k = {}"
proof (rule equals0I)
  fix x assume jk: "j + k \<le> 2 ^ 32" and x: "x \<in> area a j \<inter> area (a + of_nat j) k"
  define i where "i = unat (x - (a + of_nat j))"
  have i: "i < k" using x by (simp add: i_def area_def)
  have "x - a = of_nat (j + i)" by (simp add: i_def)
  moreover have "unat (of_nat (j + i) :: u32) = j + i" using i jk by (simp only: unat_of_nat) (simp add: take_bit_nat_eq_self)
  ultimately have "unat (x - a) = j + i" by (simp only:)
  then show False using x by (simp add: area_def)
qed

lemma string_at_changes:
  assumes "string_at m a xs" "changes m m' A" "A \<inter> area a (Suc (length xs)) = {}"
  shows "string_at m' a xs"
proof -
  have l: "length xs < 2 ^ 32" using assms(1) by (simp add: string_at_def)
  have "m' (a + of_nat i) = m (a + of_nat i)" if "i \<le> length xs" for i
    using changes_in [OF assms(2,3), of i] l that by simp
  then show ?thesis using assms(1) by (simp add: string_at_def)
qed

text \<open>A NUL cuts a string in two.\<close>

lemma string_cut:
  assumes s: "string_at m a xs" and k: "k \<le> length xs" and l: "length xs < 2 ^ 31"
  shows "string_at (m(a + of_nat k := 0)) a (take k xs)"
    "k < length xs \<Longrightarrow> string_at (m(a + of_nat k := 0)) (a + of_nat (Suc k)) (drop (Suc k) xs)"
proof -
  have inj: "(of_nat i :: u32) = of_nat j \<longleftrightarrow> i = j" if "i < 2 ^ 32" "j < 2 ^ 32" for i j
    using of_nat_inj_word [of i j, where 'a = 32] that by simp
  show "string_at (m(a + of_nat k := 0)) a (take k xs)"
    using s k l by (auto simp: string_at_def inj dest: in_set_takeD)
  assume k: "k < length xs"
  have c: "changes m (m(a + of_nat k := 0)) (area (a + of_nat k) 1)" by (simp add: changes_def area_def)
  have "area (a + of_nat k) 1 \<inter> area (a + of_nat (Suc k)) (Suc (length (drop (Suc k) xs))) = {}"
    using area_next [of 1 "Suc (length (drop (Suc k) xs))" "a + of_nat k"] l by (simp add: ac_simps)
  then show "string_at (m(a + of_nat k := 0)) (a + of_nat (Suc k)) (drop (Suc k) xs)"
    using string_at_changes [OF string_at_drop [OF s, of "Suc k"] c] k by simp
qed

lemma skip_blanks_string:
  "string_at m a xs \<Longrightarrow> skip_blanks m a = Some (a + of_nat (length (takeWhile (\<lambda>c. c = 0x20) xs)))"
proof (induction xs arbitrary: a)
  case Nil
  then show ?case by (subst skip_blanks.simps) (simp add: string_at_Nil)
next
  case (Cons x xs)
  then show ?case by (subst skip_blanks.simps) (auto simp: string_at_Cons add.assoc)
qed

lemma skip_word_string:
  "string_at m a xs \<Longrightarrow> skip_word m a = Some (a + of_nat (length (takeWhile word_char xs)))"
proof (induction xs arbitrary: a)
  case Nil
  then show ?case by (subst skip_word.simps) (simp add: string_at_Nil)
next
  case (Cons x xs)
  have w: "word_char x \<longleftrightarrow> x \<noteq> 0x20 \<and> x \<noteq> 0x0A" by (rule word_char_def)
  show ?case using Cons by (subst skip_word.simps) (auto simp: string_at_Cons add.assoc w)
qed


text \<open>The first word of a string, cut off.\<close>

lemma word_step:
  fixes ys :: "u8 list"
  assumes p: "string_at m p ys" and l: "length ys < 2 ^ 31"
  defines "w \<equiv> takeWhile word_char ys"
  defines "q \<equiv> p + of_nat (length w)" and "r \<equiv> drop (Suc (length w)) ys"
  shows "skip_word m p = Some q" "string_at (m(q := 0)) p w" "length w \<le> length ys" "p + of_nat (Suc (length w)) = q + 1"
    "length w < length ys \<Longrightarrow> m q \<noteq> 0 \<and> string_at (m(q := 0)) (q + 1) r \<and> area (q + 1) (Suc (length r)) \<inter> area p (Suc (length w)) = {}"
    "\<not> length w < length ys \<Longrightarrow> m q = 0 \<and> r = []"
proof -
  show w: "length w \<le> length ys" unfolding w_def by (rule length_takeWhile_le)
  have t: "take (length w) ys = w" unfolding w_def by (rule takeWhile_eq_take [symmetric])
  show "skip_word m p = Some q" using skip_word_string [OF p] by (simp add: q_def w_def)
  note cut = string_cut [OF p w l, folded q_def r_def, unfolded t]
  show "string_at (m(q := 0)) p w" by (rule cut(1))
  show q1: "p + of_nat (Suc (length w)) = q + 1" by (simp add: q_def add.commute)
  show "m q \<noteq> 0 \<and> string_at (m(q := 0)) (q + 1) r \<and> area (q + 1) (Suc (length r)) \<inter> area p (Suc (length w)) = {}" if "length w < length ys"
  proof -
    have "m q \<noteq> 0" using string_at_nonzero [OF p that] by (simp add: q_def)
    moreover have "string_at (m(q := 0)) (q + 1) r" using cut(2) [OF that] unfolding q1 .
    moreover have "area p (Suc (length w)) \<inter> area (q + 1) (Suc (length r)) = {}"
      using area_next [of "Suc (length w)" "Suc (length r)" p, unfolded q1] l that by (simp add: r_def)
    ultimately show ?thesis by blast
  qed
  show "m q = 0 \<and> r = []" if "\<not> length w < length ys"
  proof -
    have "length w = length ys" using w that by simp
    then show ?thesis using string_at_end [OF p] by (simp add: q_def r_def)
  qed
qed

lemma changes_step:
  assumes "changes m m1 A" "changes m1 m2 C" "A \<subseteq> D" "C \<subseteq> D"
  shows "changes m m2 D"
  by (rule changes_trans [OF changes_mono [OF assms(1,3)] changes_mono [OF assms(2,4)]])

text \<open>The loop over the arguments finds the words, each now a string of its own.\<close>

lemma emu_args_spec:
  assumes "string_at m scan xs" "length xs < 2 ^ 31"
  shows "\<exists>m' as. emu_args m scan args = Some (m', args @ as) \<and> list_all2 (string_at m') as (arg_words xs) \<and>
    changes m m' (area scan (Suc (length xs)))"
  using assms
proof (induction xs arbitrary: m scan args rule: arg_words.induct)
  case (1 xs)
  let ?ys = "dropWhile (\<lambda>c. c = 0x20) xs" and ?k = "length (takeWhile (\<lambda>c. c = 0x20) xs)"
  define p where "p = scan + of_nat ?k"
  note s = 1(2) and l = 1(3)
  have k: "?k \<le> length xs" "drop ?k xs = ?ys" "length ?ys + ?k = length xs"
    using length_takeWhile_le [of "\<lambda>c. c = 0x20" xs] by (simp_all add: dropWhile_eq_drop)
  have p: "string_at m p ?ys" using string_at_drop [OF s k(1)] by (simp add: p_def k(2))
  have b: "skip_blanks m scan = Some p" using skip_blanks_string [OF s] by (simp add: p_def)
  have sub: "area (p + of_nat j) n \<subseteq> area scan (Suc (length xs))" if "j + n \<le> Suc (length ?ys)" for j n
    using area_sub [of "?k + j" n "Suc (length xs)" scan] that k(3) l by (simp add: p_def add.assoc)
  have one: "changes m (m(a := 0)) (area a 1)" for a by (simp add: changes_def area_def)
  show ?case
  proof (cases "?ys = [] \<or> hd ?ys = 0x0A")
    case True
    have "m p = 0 \<or> m p = 0x0A" using p True by (cases ?ys) (auto simp: string_at_eval)
    then have "emu_args m scan args = Some (m(p := 0), args)" using b by (subst emu_args.simps) simp
    moreover have "arg_words xs = []" using True by (subst arg_words.simps) (auto simp: Let_def)
    moreover have "changes m (m(p := 0)) (area scan (Suc (length xs)))" using changes_mono [OF one] sub [of 0 1] by simp
    ultimately show ?thesis by auto
  next
    case False
    have ly: "length ?ys < 2 ^ 31" using k(3) l by simp
    define w where "w = takeWhile word_char ?ys"
    define q where "q = p + of_nat (length w)"
    define r where "r = drop (Suc (length w)) ?ys"
    note st = word_step [OF p ly, folded w_def, folded q_def r_def]
    have words: "arg_words xs = w # arg_words r" using False by (subst arg_words.simps) (simp add: Let_def w_def r_def)
    have m: "m p \<noteq> 0" "m p \<noteq> 0x0A" using p False by (cases ?ys; auto simp: string_at_eval)+
    show ?thesis
    proof (cases "length w < length ?ys")
      case True
      note t = st(5) [OF True]
      then have h: "string_at (m(q := 0)) (q + 1) r" "length r < 2 ^ 31" using ly by (simp_all add: r_def del: fun_upd_apply)
      obtain m' as where m': "emu_args (m(q := 0)) (q + 1) (args @ [p]) = Some (m', (args @ [p]) @ as)"
        "list_all2 (string_at m') as (arg_words r)" "changes (m(q := 0)) m' (area (q + 1) (Suc (length r)))"
        using 1(1) [OF refl refl False, folded w_def, folded r_def, OF h, of "args @ [p]"] by blast
      have "emu_args m scan args = Some (m', args @ p # as)" using b m st(1) t m'(1) by (subst emu_args.simps) simp
      moreover have "string_at m' p w" by (rule string_at_changes [OF st(2) m'(3)]) (use t in blast)
      moreover have "area q 1 \<subseteq> area scan (Suc (length xs))" using sub [of "length w" 1] st(3) by (simp add: q_def)
      moreover have "area (q + 1) (Suc (length r)) \<subseteq> area scan (Suc (length xs))"
        using sub [of "Suc (length w)" "Suc (length r)", unfolded st(4)] True by (simp add: r_def)
      moreover note changes_step [OF one m'(3) calculation(3,4)]
      ultimately show ?thesis using m'(2) unfolding words by (intro exI [of _ m'] exI [of _ "p # as"]) simp
    next
      case False
      note t = st(6) [OF False]
      then have m1: "m(q := 0) = m" by auto
      have "emu_args m q (args @ [p]) = Some (m, args @ [p])"
        using t m1 skip_blanks_string [of m q "[]"] by (subst emu_args.simps) (simp add: string_at_Nil)
      then have "emu_args m scan args = Some (m, args @ [p])" using b m st(1) t by (subst emu_args.simps) simp
      moreover have "arg_words r = []" using t by (subst arg_words.simps) simp
      ultimately show ?thesis using st(2) m1 unfolding words by (intro exI [of _ m] exI [of _ "[p]"]) simp
    qed
  qed
qed


lemma changes_put: "length xs \<le> n \<Longrightarrow> changes m (put m a xs) (area a n)"
  unfolding changes_def area_def by (auto intro!: put_outside)

text \<open>The command is copied behind \<open>"./"\<close>.\<close>

lemma command_copied:
  assumes s: "string_at m command cmd" and l: "length cmd \<le> 1023" and ap: "area buf 1026 \<inter> area command (Suc (length cmd)) = {}"
  defines "m0 \<equiv> m(buf := 0x2E, buf + 1 := 0x2F)"
  shows "\<exists>m1. ece391_strcpy m0 (buf + 2) command = Some m1 \<and> string_at m1 (buf + 2) cmd \<and> changes m0 m1 (area (buf + 2) 1024)"
proof -
  have o: "buf + of_nat i \<in> area buf 1026" if "i < 1026" for i using area_offset [OF that, of buf] by simp
  have c0: "changes m m0 (area buf 1026)" using o [of 0] o [of 1] by (auto simp: m0_def changes_def)
  have s0: "string_at m0 command cmd" by (rule string_at_changes [OF s c0 ap])
  have away: "buf + 2 + of_nat i \<noteq> command + of_nat j" if ij: "i < j" "j \<le> length cmd" for i j
  proof -
    have "command + of_nat j \<in> area command (Suc (length cmd))" using ij(2) l by (intro area_offset) simp_all
    moreover have "buf + of_nat (2 + i) \<in> area buf 1026" using ij l by (intro o) simp
    ultimately show ?thesis using ap by (auto simp: add.assoc)
  qed
  have "string_at (put m0 (buf + 2) (cmd @ [0])) (buf + 2) cmd" using s l by (intro string_at_put) (simp_all add: string_at_def)
  moreover have "changes m0 (put m0 (buf + 2) (cmd @ [0])) (area (buf + 2) 1024)" using l by (intro changes_put) simp
  ultimately show ?thesis using ece391_strcpy_string [OF s0 away] by blast
qed

lemma words_result:
  assumes c1: "changes (m(buf := 0x2E, buf + 1 := 0x2F)) m1 (area (buf + 2) 1024)" and l: "length cmd \<le> 1023"
  defines "w \<equiv> takeWhile word_char cmd"
  defines "r \<equiv> drop (Suc (length w)) cmd"
  assumes w: "string_at m' (buf + 2) w" and as: "list_all2 (string_at m') as (arg_words r)" and c2: "changes m1 m' (area (buf + 2) 1024)"
  shows "changes m m' (area buf 1026) \<and>
    list_all2 (string_at m') (buf # as) (case command_words cmd of w # ws \<Rightarrow> (0x2E # 0x2F # w) # ws)"
proof -
  define m0 where "m0 = m(buf := 0x2E, buf + 1 := 0x2F)"
  have c: "changes m0 m' (area (buf + 2) 1024)" unfolding m0_def by (rule changes_trans [OF c1 c2])
  have "buf + 1 - (buf + 2) = (0xFFFFFFFF :: u32)" by simp
  then have "unat (buf + 1 - (buf + 2)) = 0xFFFFFFFF" by (simp only:) simp
  then have "buf \<notin> area (buf + 2) 1024" "buf + 1 \<notin> area (buf + 2) 1024" by (simp_all add: area_def)
  then have "m' buf = 0x2E" "m' (buf + 1) = 0x2F" using changes_at [OF c] by (simp_all add: m0_def)
  moreover have "length w \<le> 1023" using length_takeWhile_le [of word_char cmd] l by (simp add: w_def)
  ultimately have "string_at m' buf (0x2E # 0x2F # w)" using w by (simp add: string_at_Cons add.assoc)
  moreover have "changes m m0 (area buf 1026)"
    using area_offset [of 0 1026 buf] area_offset [of 1 1026 buf] by (auto simp: m0_def changes_def)
  then have "changes m m' (area buf 1026)" using changes_step [OF _ c] area_sub [of 2 1024 1026 buf] by simp
  ultimately show ?thesis using as by (simp add: command_words_def w_def r_def Let_def)
qed

lemma emu_words_spec:
  assumes s: "string_at m command cmd" and l: "length cmd \<le> 1023" and ap: "area buf 1026 \<inter> area command (Suc (length cmd)) = {}"
  shows "\<exists>m' as. emu_words buf command m = Some (m', buf # as) \<and> changes m m' (area buf 1026) \<and>
    list_all2 (string_at m') (buf # as) (case command_words cmd of w # ws \<Rightarrow> (0x2E # 0x2F # w) # ws)"
proof -
  define m0 where "m0 = m(buf := 0x2E, buf + 1 := 0x2F)"
  define w where "w = takeWhile word_char cmd"
  define q where "q = buf + 2 + of_nat (length w)"
  define r where "r = drop (Suc (length w)) cmd"
  obtain m1 where m1: "ece391_strcpy m0 (buf + 2) command = Some m1" "string_at m1 (buf + 2) cmd" "changes m0 m1 (area (buf + 2) 1024)"
    using command_copied [OF s l ap] unfolding m0_def by blast
  have ly: "length cmd < 2 ^ 31" using l by simp
  note st = word_step [OF m1(2) ly, folded w_def, folded q_def r_def]
  note ext = words_result [OF m1(3)[unfolded m0_def] l, folded w_def, folded r_def]
  have e: "emu_words buf command m = (if m1 q \<noteq> 0 then emu_args (m1(q := 0)) (q + 1) [buf] else Some (m1, [buf]))"
    using m1(1) st(1) by (simp add: emu_words_def m0_def)
  show ?thesis
  proof (cases "length w < length cmd")
    case True
    note t = st(5) [OF True]
    then have h: "string_at (m1(q := 0)) (q + 1) r" "length r < 2 ^ 31" using ly by (simp_all add: r_def del: fun_upd_apply)
    obtain m' as where m': "emu_args (m1(q := 0)) (q + 1) [buf] = Some (m', [buf] @ as)" "list_all2 (string_at m') as (arg_words r)"
      "changes (m1(q := 0)) m' (area (q + 1) (Suc (length r)))"
      using emu_args_spec [OF h, of "[buf]"] by blast
    have "string_at m' (buf + 2) w" by (rule string_at_changes [OF st(2) m'(3)]) (use t in blast)
    moreover have "changes m1 (m1(q := 0)) (area q 1)" by (simp add: changes_def area_def)
    moreover have "area q 1 \<subseteq> area (buf + 2) 1024" using area_sub [of "length w" 1 1024 "buf + 2"] True l by (simp add: q_def)
    moreover have "area (q + 1) (Suc (length r)) \<subseteq> area (buf + 2) 1024"
      using area_sub [of "Suc (length w)" "Suc (length r)" 1024 "buf + 2", unfolded st(4)] True l by (simp add: r_def)
    moreover note changes_step [OF calculation(2) m'(3) calculation(3,4)]
    ultimately show ?thesis using e t m'(1,2) ext [of m' as] by auto
  next
    case False
    note t = st(6) [OF False]
    then have "m1(q := 0) = m1" by auto
    moreover have "arg_words r = []" using t by (subst arg_words.simps) simp
    ultimately show ?thesis using e t st(2) ext [of m1 "[]"] by auto
  qed
qed

text \<open>C14: \<open>execute\<close> of the emulation hands the words of the command to the new process. A command of more
  than 1023 characters is refused with -1. Otherwise the program that is
  started is \<open>./\<close> with the first word, and its arguments are that name and the other words, each a
  string of its own, where words are separated by blanks and a newline behind a blank ends the command;
  at most 513 of the 1024 places for arguments are used and nothing outside the local buffer is written.
  The result is the exit status, -1 when the program could not be started, or 256 when a signal ended it.\<close>
theorem emu_execute_words:
  fixes s :: "('w, 'd) emulated"
  assumes "string_at (em_memory s) command cmd" "area buf 1026 \<inter> area command (Suc (length cmd)) = {}" "length cmd < 2 ^ 31"
  shows "if 1023 < length cmd then emu_execute X buf command s = Some (-1, s)
    else \<exists>m as. emu_execute X buf command s = (let (status, w) = emu_child X m buf (buf # as) (em_world s) in
        Some (wait_value status, s\<lparr>em_memory := m, em_world := w\<rparr>)) \<and>
      list_all2 (string_at m) (buf # as) (case command_words cmd of w # ws \<Rightarrow> (0x2E # 0x2F # w) # ws) \<and>
      length (buf # as) \<le> 513 \<and> changes (em_memory s) m (area buf 1026)"
proof -
  have n: "ece391_strlen (em_memory s) command = Some (of_nat (length cmd))" by (rule ece391_strlen_string [OF assms(1)])
  have "(of_nat (length cmd) :: u32) > 1023 \<longleftrightarrow> 1023 < length cmd"
    using assms(3) by (simp add: word_less_nat_alt unat_of_nat take_bit_nat_eq_self)
  note e = n this
  show ?thesis
  proof (cases "1023 < length cmd")
    case True
    then show ?thesis using e by (simp add: emu_execute_def)
  next
    case False
    then have l: "length cmd \<le> 1023" by simp
    obtain m as where m: "emu_words buf command (em_memory s) = Some (m, buf # as)" "changes (em_memory s) m (area buf 1026)"
      "list_all2 (string_at m) (buf # as) (case command_words cmd of w # ws \<Rightarrow> (0x2E # 0x2F # w) # ws)"
      using emu_words_spec [OF assms(1) l assms(2)] by blast
    have "length (buf # as) = length (command_words cmd)" using list_all2_lengthD [OF m(3)] by (simp add: command_words_def Let_def)
    moreover have "length (command_words cmd) \<le> 513"
      using arg_words_length [of "drop (Suc (length (takeWhile word_char cmd))) cmd"] l by (simp add: command_words_def Let_def)
    moreover have "emu_execute X buf command s = (let (status, w) = emu_child X m buf (buf # as) (em_world s) in
        Some (wait_value status, s\<lparr>em_memory := m, em_world := w\<rparr>))"
      using e False m(1) by (simp add: emu_execute_def)
    ultimately show ?thesis using m(2,3) unfolding if_not_P [OF False] by (intro exI [of _ m] exI [of _ as]) (simp only: simp_thms)
  qed
qed


subsection \<open>Arguments of a process\<close>

fun join_args :: "u8 list list \<Rightarrow> u8 list" where
  "join_args [] = []"
| "join_args [x] = x"
| "join_args (x # y # ys) = x @ 0x20 # join_args (y # ys)"

text \<open>The arguments from \<open>idx\<close> on, all outside the addresses \<open>C\<close>.\<close>

definition args_at :: "addr \<Rightarrow> int \<Rightarrow> u8 list list \<Rightarrow> addr set \<Rightarrow> mem \<Rightarrow> bool" where
  "args_at argv idx ys C m \<longleftrightarrow> (\<forall>i < length ys. let p = argv + 4 * word_of_int (idx + int i) in
     C \<inter> area p 4 = {} \<and> string_at m (rd32 m p) (ys ! i) \<and> length (ys ! i) < 2 ^ 31 \<and> C \<inter> area (rd32 m p) (Suc (length (ys ! i))) = {})"

lemma args_at_changes:
  assumes "args_at argv idx ys C m" "changes m m' A" "A \<subseteq> C"
  shows "args_at argv idx ys C m'"
  unfolding args_at_def Let_def
proof (intro allI impI)
  fix i assume i: "i < length ys"
  let ?p = "argv + 4 * word_of_int (idx + int i)"
  note d = assms(1) [unfolded args_at_def Let_def, rule_format, OF i]
  have r: "rd32 m' ?p = rd32 m ?p" by (rule rd32_changes [OF assms(2)]) (use d assms(3) in blast)
  have "string_at m' (rd32 m ?p) (ys ! i)" by (rule string_at_changes [OF _ assms(2)]) (use d assms(3) in blast)+
  then show "C \<inter> area ?p 4 = {} \<and> string_at m' (rd32 m' ?p) (ys ! i) \<and> length (ys ! i) < 2 ^ 31 \<and> C \<inter> area (rd32 m' ?p) (Suc (length (ys ! i))) = {}"
    using d unfolding r by blast
qed

lemma args_at_Cons:
  assumes "args_at argv idx (y # ys) C m"
  shows "string_at m (rd32 m (argv + 4 * word_of_int idx)) y" "length y < 2 ^ 31"
    "C \<inter> area (rd32 m (argv + 4 * word_of_int idx)) (Suc (length y)) = {}" "args_at argv (idx + 1) ys C m"
proof -
  note d = assms [unfolded args_at_def Let_def, rule_format]
  show "string_at m (rd32 m (argv + 4 * word_of_int idx)) y" "length y < 2 ^ 31"
    "C \<inter> area (rd32 m (argv + 4 * word_of_int idx)) (Suc (length y)) = {}"
    using d [of 0] by simp_all
  have "idx + 1 + int i = idx + int (Suc i)" for i by simp
  then show "args_at argv (idx + 1) ys C m" unfolding args_at_def Let_def using d [of "Suc i" for i] by (simp add: add.assoc)
qed

text \<open>One argument is copied, with its NUL, if it fits without it.\<close>

lemma argument_copied:
  assumes s: "string_at m a y" "length y < 2 ^ 31" and ap: "C \<inter> area a (Suc (length y)) = {}"
    and b: "area buf (Suc (nat n)) \<subseteq> C" "n < 2 ^ 31" "int (length y) \<le> n"
  shows "map_option sint (ece391_strlen m a) = Some (int (length y))" "ece391_strcpy m buf a = Some (put m buf (y @ [0]))"
    "changes m (put m buf (y @ [0])) (area buf (Suc (nat n)))"
proof -
  show "map_option sint (ece391_strlen m a) = Some (int (length y))"
    using ece391_strlen_string [OF s(1)] sint_of_nat_fits [of "length y"] s(2) by simp
  have "buf + of_nat i \<noteq> a + of_nat j" if ij: "i < j" "j \<le> length y" for i j
  proof -
    have "buf + of_nat i \<in> area buf (Suc (nat n))" using ij b(2,3) by (intro area_offset) simp_all
    moreover have "a + of_nat j \<in> area a (Suc (length y))" using ij s(2) by (intro area_offset) simp_all
    ultimately show ?thesis using ap b(1) by auto
  qed
  then show "ece391_strcpy m buf a = Some (put m buf (y @ [0]))" by (rule ece391_strcpy_string [OF s(1)])
  show "changes m (put m buf (y @ [0])) (area buf (Suc (nat n)))" using b(3) by (intro changes_put) simp
qed

lemma emu_getargs_step:
  assumes len: "map_option sint (ece391_strlen m (rd32 m (argv + 4 * word_of_int idx))) = Some (int l)" and "idx < argc"
  shows "n < int l \<Longrightarrow> emu_getargs_loop argv idx argc buf n m = Some (Inl (-1), m)"
    "int l \<le> n \<Longrightarrow> ece391_strcpy m buf (rd32 m (argv + 4 * word_of_int idx)) = Some m1 \<Longrightarrow>
      emu_getargs_loop argv idx argc buf n m =
        (if idx + 1 \<ge> argc then Some (Inr (buf + of_nat l, n - int l), m1)
         else if n - int l < 1 then Some (Inl (-1), m1)
         else emu_getargs_loop argv (idx + 1) argc (buf + of_nat l + 1) (n - int l - 1) (m1(buf + of_nat l := 0x20)))"
proof -
  obtain z where z: "ece391_strlen m (rd32 m (argv + 4 * word_of_int idx)) = Some z" "sint z = int l" using len by auto
  show "n < int l \<Longrightarrow> emu_getargs_loop argv idx argc buf n m = Some (Inl (-1), m)"
    using z assms(2) by (subst emu_getargs_loop.simps) simp
  show "int l \<le> n \<Longrightarrow> ece391_strcpy m buf (rd32 m (argv + 4 * word_of_int idx)) = Some m1 \<Longrightarrow>
      emu_getargs_loop argv idx argc buf n m =
        (if idx + 1 \<ge> argc then Some (Inr (buf + of_nat l, n - int l), m1)
         else if n - int l < 1 then Some (Inl (-1), m1)
         else emu_getargs_loop argv (idx + 1) argc (buf + of_nat l + 1) (n - int l - 1) (m1(buf + of_nat l := 0x20)))"
    using z assms(2) by (subst emu_getargs_loop.simps) (simp add: Let_def)
qed

lemma put_joined: "put (put m buf (y @ [0x20])) (buf + of_nat (length y) + 1) (xs @ [0]) = put m buf ((y @ 0x20 # xs) @ [0])"
  using put_append [of m buf "y @ [0x20]" "xs @ [0]"] by (simp add: ac_simps)

lemma rest_of_buffer:
  "int (length y) < n \<Longrightarrow> n < 2 ^ 31 \<Longrightarrow>
    area (buf + of_nat (length y) + 1) (Suc (nat (n - int (length y) - 1))) \<subseteq> area buf (Suc (nat n))"
proof -
  assume n: "int (length y) < n" "n < 2 ^ 31"
  have b: "buf + of_nat (Suc (length y)) = buf + of_nat (length y) + 1" by (simp add: add.commute)
  show ?thesis using area_sub [of "Suc (length y)" "Suc (nat (n - int (length y) - 1))" "Suc (nat n)" buf, unfolded b] n by simp
qed

lemma emu_getargs_loop_spec:
  assumes "ys \<noteq> []" "0 \<le> n" "n < 2 ^ 31" "args_at argv idx ys C m" "area buf (Suc (nat n)) \<subseteq> C"
  shows "if int (length (join_args ys)) \<le> n
    then emu_getargs_loop argv idx (idx + int (length ys)) buf n m =
      Some (Inr (buf + of_nat (length (join_args ys)), n - int (length (join_args ys))), put m buf (join_args ys @ [0]))
    else \<exists>m'. emu_getargs_loop argv idx (idx + int (length ys)) buf n m = Some (Inl (-1), m') \<and> changes m m' (area buf (Suc (nat n)))"
  using assms
proof (induction ys arbitrary: idx buf n m)
  case (Cons y ys)
  note a = args_at_Cons [OF Cons.prems(4)]
  let ?p = "argv + 4 * word_of_int idx" and ?argc = "idx + int (length (y # ys))"
  have len: "map_option sint (ece391_strlen m (rd32 m ?p)) = Some (int (length y))"
    using ece391_strlen_string [OF a(1)] sint_of_nat_fits [of "length y"] a(2) by simp
  have "idx < ?argc" by simp
  note step = emu_getargs_step [OF len this]
  have J: "length y \<le> length (join_args (y # ys))" "ys \<noteq> [] \<Longrightarrow> join_args (y # ys) = y @ 0x20 # join_args ys" by (cases ys; simp)+
  show ?case
  proof (cases "int (length y) > n")
    case True
    then have "emu_getargs_loop argv idx ?argc buf n m = Some (Inl (-1), m)" by (rule step(1))
    then show ?thesis using True J(1) by simp
  next
    case False
    then have fits: "int (length y) \<le> n" by simp
    note c = argument_copied [OF a(1,2,3) Cons.prems(5,3) fits]
    let ?m1 = "put m buf (y @ [0])" and ?b = "buf + of_nat (length y)"
    show ?thesis
    proof (cases "ys = []")
      case True
      then have "emu_getargs_loop argv idx ?argc buf n m = Some (Inr (?b, n - int (length y)), ?m1)"
        using step(2) [OF fits c(2)] by simp
      then show ?thesis using True fits by simp
    next
      case more: False
      then have k: "1 \<le> length ys" by (cases ys) auto
      show ?thesis
      proof (cases "n - int (length y) < 1")
        case True
        then have "emu_getargs_loop argv idx ?argc buf n m = Some (Inl (-1), ?m1)"
          using step(2) [OF fits c(2)] more by simp
        then show ?thesis using True c(3) by (simp add: J(2) [OF more])
      next
        case False
        let ?m2 = "put m buf (y @ [0x20])" and ?n = "n - int (length y) - 1"
        have m2: "?m1(?b := 0x20) = ?m2" by (simp add: put_append)
        have c2: "changes m ?m2 (area buf (Suc (nat n)))" using fits by (intro changes_put) simp
        have e: "emu_getargs_loop argv idx ?argc buf n m = emu_getargs_loop argv (idx + 1) (idx + 1 + int (length ys)) (?b + 1) ?n ?m2"
          using step(2) [OF fits c(2)] more False by (simp add: m2 add.assoc)
        have sub: "area (?b + 1) (Suc (nat ?n)) \<subseteq> area buf (Suc (nat n))" by (rule rest_of_buffer) (use False fits Cons.prems(3) in simp_all)
        note ih = Cons.IH [OF more _ _ args_at_changes [OF a(4) c2 Cons.prems(5)] order_trans [OF sub Cons.prems(5)]]
        have jl: "int (length (join_args (y # ys))) = int (length y) + 1 + int (length (join_args ys))" using J(2) [OF more] by simp
        have pt: "put ?m2 (?b + 1) (join_args ys @ [0]) = put m buf (join_args (y # ys) @ [0])"
          unfolding J(2) [OF more] by (rule put_joined)
        show ?thesis
        proof (cases "int (length (join_args ys)) \<le> ?n")
          case True
          then show ?thesis using ih False Cons.prems(3) pt jl J(2) [OF more] unfolding e by (simp add: algebra_simps)
        next
          case no: False
          obtain m' where "emu_getargs_loop argv (idx + 1) (idx + 1 + int (length ys)) (?b + 1) ?n ?m2 = Some (Inl (-1), m')"
            "changes ?m2 m' (area (?b + 1) (Suc (nat ?n)))"
            using ih no False Cons.prems(3) by auto
          then show ?thesis using no jl e changes_trans [OF c2 changes_mono [OF _ sub]] by auto
        qed
      qed
    qed
  qed
qed simp

text \<open>C15: \<open>getargs\<close> of the emulation joins the arguments of the process with blanks. If they fit with
  a NUL behind them, 0 is returned and exactly that text and the NUL are written; without arguments
  the text is empty, where the kernel returns -1. Otherwise the result is -1 and nothing is written outside the buffer and
  the one byte behind it; that byte is overwritten when the text fills the buffer exactly, since the
  copy of an argument writes its NUL before the test for room.\<close>
theorem emu_getargs_correct:
  fixes s :: "('w, 'd) emulated"
  assumes "sint (rd32 (em_memory s) (start_esp s)) = 1 + int (length ys)" "0 \<le> n" "n < 2 ^ 31"
    and "args_at (start_esp s + 4) 1 ys (area buf (Suc (nat n))) (em_memory s)"
  shows "if int (length (join_args ys)) < n
    then emu_getargs buf n s = Some (0, s\<lparr>em_memory := put (em_memory s) buf (join_args ys @ [0])\<rparr>)
    else \<exists>m. emu_getargs buf n s = Some (-1, s\<lparr>em_memory := m\<rparr>) \<and> changes (em_memory s) m (area buf (Suc (nat n))) \<and>
      (ys \<noteq> [] \<and> int (length (join_args ys)) = n \<longrightarrow> m (buf + of_nat (nat n)) = 0)"
proof (cases "ys = []")
  case True
  then show ?thesis using assms(1,2)
    by (simp add: emu_getargs_def emu_getargs_loop.simps) (auto intro: exI [of _ "em_memory s"])
next
  case False
  let ?J = "join_args ys" and ?m = "em_memory s"
  have argc: "sint (rd32 ?m (start_esp s)) = 1 + int (length ys)" by (rule assms(1))
  note l = emu_getargs_loop_spec [OF False assms(2,3,4) order_refl]
  show ?thesis
  proof (cases "int (length ?J) \<le> n")
    case True
    have z: "put ?m buf (?J @ [0]) (buf + of_nat (length ?J)) = 0" using True assms(3) by (subst put_inside) simp_all
    then have u: "(put ?m buf (?J @ [0]))(buf + of_nat (length ?J) := 0) = put ?m buf (?J @ [0])" by auto
    have c: "changes ?m (put ?m buf (?J @ [0])) (area buf (Suc (nat n)))" using True by (intro changes_put) simp
    have "emu_getargs buf n s = (if n - int (length ?J) < 1 then Some (-1, s\<lparr>em_memory := put ?m buf (?J @ [0])\<rparr>)
        else Some (0, s\<lparr>em_memory := put ?m buf (?J @ [0])\<rparr>))"
      using l True by (simp add: emu_getargs_def argc u)
    then show ?thesis using True z c by auto
  next
    case no: False
    then obtain m where "emu_getargs_loop (start_esp s + 4) 1 (1 + int (length ys)) buf n ?m = Some (Inl (-1), m)"
      "changes ?m m (area buf (Suc (nat n)))"
      using l by auto
    then show ?thesis using no by (intro if_not_P [THEN iffD2]) (auto simp: emu_getargs_def argc)
  qed
qed

subsection \<open>A concrete process\<close>

definition demo_linux :: "(nat, nat) linux" where
  "demo_linux = \<lparr>int80 = (\<lambda>k as m w. (0, m, w)), exec_child = (\<lambda>m p as w. Some (Exited 7, Suc w)), open_device = (\<lambda>x w. (3, w)),
     close_device = (\<lambda>f w. w), open_directory = (\<lambda>w. (Some 0, w)), next_entry = (\<lambda>d w. (None, w)),
     close_directory = (\<lambda>d w. w), map_device = (\<lambda>f w. (None, w))\<rparr>"

definition demo_emulated :: "mem \<Rightarrow> (nat, nat) emulated" where
  "demo_emulated m = \<lparr>em_memory = m, em_world = 0, start_esp = 0x3000, dir_fd = -1, dir_handle = None, mem_fd = -1\<rparr>"

lemma emu_execute_words_witness:
  "\<exists>m a. emu_execute demo_linux 0x2000 0x1000 (demo_emulated (put (\<lambda>_. 0) 0x1000 [0x6C, 0x73, 0x20, 0x2D, 0x61, 0x0A])) =
      Some (7, (demo_emulated m)\<lparr>em_world := 1\<rparr>) \<and> string_at m 0x2000 [0x2E, 0x2F, 0x6C, 0x73] \<and> string_at m a [0x2D, 0x61]"
proof -
  let ?cmd = "[0x6C, 0x73, 0x20, 0x2D, 0x61, 0x0A] :: u8 list"
  let ?s = "demo_emulated (put (\<lambda>_. 0) 0x1000 ?cmd)"
  have s: "string_at (em_memory ?s) 0x1000 ?cmd" by (simp add: demo_emulated_def string_at_eval)
  have ap: "area (0x2000 :: addr) 1026 \<inter> area 0x1000 (Suc (length ?cmd)) = {}" by (rule area_disjointI) simp_all
  have w: "command_words ?cmd = [[0x6C, 0x73], [0x2D, 0x61]]"
    by (simp add: command_words_def word_char_def arg_words.simps)
  obtain m as where m: "emu_execute demo_linux 0x2000 0x1000 ?s = (let (status, w) = emu_child demo_linux m 0x2000 (0x2000 # as) (em_world ?s) in
        Some (wait_value status, ?s\<lparr>em_memory := m, em_world := w\<rparr>))"
      "list_all2 (string_at m) (0x2000 # as) [[0x2E, 0x2F, 0x6C, 0x73], [0x2D, 0x61]]"
    using emu_execute_words [OF s ap, of demo_linux] by (auto simp: w)
  from m(2) obtain a where "as = [a]" "string_at m 0x2000 [0x2E, 0x2F, 0x6C, 0x73]" "string_at m a [0x2D, 0x61]"
    by (auto simp: list_all2_Cons2)
  then show ?thesis using m(1) by (auto simp: emu_child_def demo_linux_def demo_emulated_def)
qed

lemma emu_getargs_correct_witness:
  defines "m \<equiv> put (wr32 (wr32 (wr32 (\<lambda>_. 0) 0x3000 3) 0x3008 0x4000) 0x300C 0x5000) 0x4000 [0x2D, 0x61]"
  shows "\<exists>t. emu_getargs 0x2000 4 (demo_emulated (m(0x2004 := 0xFF, 0x5000 := 0x62))) = Some (-1, demo_emulated t) \<and> t 0x2004 = 0"
proof -
  let ?m = "m(0x2004 := 0xFF, 0x5000 := 0x62)"
  have rd: "rd32 ?m 0x3000 = 3" "rd32 ?m 0x3008 = 0x4000" "rd32 ?m 0x300C = 0x5000" by (simp_all add: m_def rd32_def wr32_def)
  have st: "string_at ?m 0x4000 [0x2D, 0x61]" "string_at ?m 0x5000 [0x62]" by (simp_all add: m_def string_at_eval wr32_def)
  have ap: "area (0x2000 :: addr) 5 \<inter> area a k = {}" if "a \<in> {0x3008, 0x300C, 0x4000, 0x5000}" "k \<le> 4" for a k
    using that by (intro area_disjointI) auto
  have a: "args_at (start_esp (demo_emulated ?m) + 4) 1 [[0x2D, 0x61], [0x62]] (area 0x2000 (Suc (nat 4))) (em_memory (demo_emulated ?m))"
    using rd st ap by (auto simp: args_at_def demo_emulated_def less_Suc_eq Let_def)
  have "sint (rd32 (em_memory (demo_emulated ?m)) (start_esp (demo_emulated ?m))) = 1 + int (length [[0x2D, 0x61], [0x62 :: u8]])"
    using rd by (simp add: demo_emulated_def)
  from emu_getargs_correct [OF this _ _ a] show ?thesis by (auto simp: demo_emulated_def)
qed

end
