(* ===== verification/Results.thy ===== *)
theory Results
  imports Sample
begin

section \<open>The results of the calls\<close>

text \<open>
  The model gives the result of a call as an integer; a program finds it in a 32 bit register. Every
  result fits: it is an \<open>int32_t\<close>, so that the number in the register, read with its sign, is the
  number of the model.
\<close>

definition int32 :: "int \<Rightarrow> bool" where
  "int32 r \<longleftrightarrow> - (2 ^ 31) \<le> r \<and> r < 2 ^ 31"

lemma int32_simps [simp]: "int32 (-1)" "int32 0" "int32 (sint (w :: u32))"
  using sint_ge [of w] sint_lt [of w] by (simp_all add: int32_def)

lemma int32_nat: "0 \<le> r \<Longrightarrow> r < 2 ^ 31 \<Longrightarrow> int32 r"
  by (simp add: int32_def)

lemma int32_register: "int32 r \<Longrightarrow> sint (word_of_int r :: u32) = r"
  unfolding int32_def by (rule sint_fits) simp_all

text \<open>The drivers.\<close>

lemma terminal_copy_range:
  "terminal_copy i buf n k s = Some (r, t) \<Longrightarrow> k \<le> r \<and> r \<le> k + int (unat n - i)"
proof (induction i buf n k s rule: terminal_copy.induct)
  case (1 i buf n k s)
  show ?case
  proof (cases "i < unat n \<and> i < length (keyboard_buffer (displayed s)) \<and> keyboard_buffer (displayed s) ! i \<noteq> 0")
    case True
    then have "k + 1 \<le> r \<and> r \<le> k + 1 + int (unat n - Suc i)"
      using 1 by (subst (asm) (2) terminal_copy.simps) (simp add: Let_def)
    then show ?thesis using True by linarith
  next
    case False
    then have "r = k" using 1(2) by (subst (asm) terminal_copy.simps) (auto simp: Let_def split: if_splits)
    then show ?thesis by simp
  qed
qed

lemma terminal_write_range: "k \<le> fst (terminal_write_loop n p k s) \<and> fst (terminal_write_loop n p k s) \<le> k + int n"
proof (induction n arbitrary: p k s)
  case (Suc n)
  let ?s = "putc (memory s p) s"
  let ?k = "if memory ?s p \<noteq> 0x0A then k + 1 else k"
  have "fst (terminal_write_loop (Suc n) p k s) = fst (terminal_write_loop n (p + 1) ?k ?s)"
    by (simp only: terminal_write_loop.simps Let_def)
  moreover have "k \<le> ?k" "?k \<le> k + 1" by simp_all
  ultimately show ?case using Suc.IH [of ?k "p + 1" ?s] by linarith
qed simp

lemma read_data_int32: "int32 (fst (read_data bb ino off buf n m))"
  by (auto simp: read_data_def Let_def split: prod.splits)

lemma directory_read_int32: "directory_read off buf n s = Some (r, t) \<Longrightarrow> int32 r"
  by (auto simp: directory_read_def Let_def split: if_splits bind_splits)

lemma fops_read_int32:
  fixes s :: "'a tty_scheme"
  assumes "fops_read table irqs hs t k buf n s = Some (r, u)" "uint n < 2 ^ 31"
  shows "int32 r"
proof (cases table)
  case Stdin_fops
  then have "\<exists>s1 s2 :: 'a tty_scheme. terminal_copy 0 buf n 0 s1 = Some (r, s2)"
    using assms(1) by (auto simp: fops_read_def terminal_read_def Let_def split: bind_splits) blast
  then have "0 \<le> r" "r \<le> uint n" using terminal_copy_range [of 0 buf n 0 _ r] by fastforce+
  then show ?thesis using assms(2) by (intro int32_nat) simp_all
next
  case File_fops
  then show ?thesis
    using assms(1) read_data_int32 [of "boot_block s" "inode (fd (pcb_of t s) ! k)" "file_position (fd (pcb_of t s) ! k)" buf n "memory s"]
    by (auto simp: fops_read_def file_read_def Let_def split: prod.splits)
next
  case Dir_fops
  then show ?thesis
    using assms(1) directory_read_int32 by (auto simp: fops_read_def dir_read_def Let_def split: bind_splits)
next
  case Rtc_fops
  then show ?thesis using assms(1) by (auto simp: fops_read_def rtc_read_def Let_def split: bind_splits option.splits)
qed (use assms(1) in \<open>simp add: fops_read_def\<close>)

lemma fops_write_int32:
  assumes "fops_write table t k buf n s = Some (r, u)" "uint n < 2 ^ 31"
  shows "int32 r"
proof (cases table)
  case Stdout_fops
  then have "r = fst (terminal_write_loop (unat n) buf 0 s)" using assms(1) by (simp add: fops_write_def terminal_write_def)
  then have "0 \<le> r" "r \<le> uint n" using terminal_write_range [of 0 "unat n" buf s] by simp_all
  then show ?thesis using assms(2) by (intro int32_nat) simp_all
qed (use assms(1) in \<open>auto simp: fops_write_def rtc_write_def dir_write_def file_write_def Let_def split: if_splits\<close>)

subsection \<open>The calls\<close>

lemma open_int32: "syscall_open L fr a s = Some (r, t) \<Longrightarrow> int32 r"
proof -
  assume h: "syscall_open L fr a s = Some (r, t)"
  have "k < 8" if "find_open_fd (fd_array s) = Some k" for k
  proof -
    have "\<exists>i < length [2..<8]. k = [2..<8] ! i" using that unfolding find_open_fd_def find_Some_iff by blast
    then have "k \<in> set [2..<8]" using nth_mem by blast
    then show ?thesis by auto
  qed
  then have "r = -1 \<or> 0 \<le> r \<and> r < 8"
    using h by (auto simp: syscall_open_def Let_def split: if_splits option.splits bind_splits)
  then show ?thesis by (auto simp: int32_def)
qed

lemma close_int32: "syscall_close k s = Some (r, t) \<Longrightarrow> int32 r"
  by (auto simp: syscall_close_def Let_def split: if_splits option.splits prod.splits)

lemma getargs_int32: "syscall_getargs buf n s = Some (r, t) \<Longrightarrow> int32 r"
  by (auto simp: syscall_getargs_def Let_def split: if_splits bind_splits)

lemma vidmap_int32: "syscall_vidmap L p s = (r, t) \<Longrightarrow> int32 r"
  by (auto simp: syscall_vidmap_def Let_def split: if_splits)

lemma read_int32: "syscall_read irqs hs k buf n s = Some (r, t) \<Longrightarrow> uint n < 2 ^ 31 \<Longrightarrow> int32 r"
  using fops_read_int32 by (auto simp: syscall_read_def Let_def split: if_splits option.splits)

lemma write_int32: "syscall_write k buf n s = Some (r, t) \<Longrightarrow> uint n < 2 ^ 31 \<Longrightarrow> int32 r"
  using fops_write_int32 by (auto simp: syscall_write_def Let_def split: if_splits option.splits)

lemma halt_int32: "syscall_halt L fr c s = Some (Returns r t) \<Longrightarrow> int32 r"
  by (auto simp: syscall_halt_def leave_task_def Let_def split: if_splits bind_splits prod.splits)

lemma execute_int32: "syscall_execute L fr a s = Some (Returns r t) \<Longrightarrow> int32 r"
proof -
  assume "syscall_execute L fr a s = Some (Returns r t)"
  then have "r = -1 \<or> r = 0"
    by (auto simp: syscall_execute_def start_task_def Let_def split: if_splits bind_splits prod.splits)
  then show ?thesis by auto
qed



end
