(* ===== verification/Sigtest.thy ===== *)
theory Sigtest
  imports Dialogue Blinkers
begin

section \<open>sigtest\<close>

text \<open>
  \<open>src/syscalls/ece391sigtest.c\<close> tries out signals, which this kernel does not have: the call that
  would install a handler is not in its table, and the store through the null pointer that is to raise
  a signal ends the program instead. The static variables \<open>charbuf\<close> and \<open>badbuf\<close> are at addresses of the program.
\<close>

record sig_vars =
  charbuf_at :: addr
  badbuf_at :: addr

definition ece391_set_handler :: "'a program \<Rightarrow> int \<Rightarrow> addr \<Rightarrow> 'a tty_scheme \<Rightarrow> (int \<times> 'a tty_scheme) option" where
  "ece391_set_handler P signum handler s = call_result (do_call P 9 (word_of_int signum) handler 0 s)"

text \<open>
  A store of the program at any address: where the tables give it no page it may use,
  the processor raises the page fault. The left value is what is left of the program then.
\<close>

definition user_store :: "'a program \<Rightarrow> vectors \<Rightarrow> addr \<Rightarrow> u8 \<Rightarrow> 'a tty_scheme \<Rightarrow>
    ('a tty_scheme handled + 'a tty_scheme) option" where
  "user_store P V a c s = (case walk (paging_tables (prog_links P)) s (a div 4096) of
       Some (f, True) \<Rightarrow> Some (Inr (s\<lparr>memory := (memory s)(mapped a := c)\<rparr>))
     | _ \<Rightarrow> map_option Inl (HANDLE_EXCEPTION V (prog_links P) (prog_frame P) exception_page_fault s))"

definition sig_number :: "int \<Rightarrow> string" where
  "sig_number signum = (if signum = 0 then line ''0'' else if signum = 1 then line ''1'' else if signum = 2 then line ''2''
     else if signum = 3 then line ''3'' else line ''invalid'')"

definition alarm_sighandler :: "'a program \<Rightarrow> int \<Rightarrow> 'a tty_scheme \<Rightarrow> 'a tty_scheme option" where
  "alarm_sighandler P signum s = do {
     s \<leftarrow> says P ''Alarm signal handler called, signum: '' s;
     says P (sig_number signum) s
   }"

text \<open>\<open>signum_at\<close> is the address of the argument: the handler changes what is saved above it.\<close>

definition segfault_sighandler :: "'a program \<Rightarrow> sig_vars \<Rightarrow> addr \<Rightarrow> addr \<Rightarrow> int \<Rightarrow> 'a tty_scheme \<Rightarrow> 'a tty_scheme option" where
  "segfault_sighandler P G buf signum_at signum s = do {
     s \<leftarrow> says P ''Segfault signal handler called, signum: '' s;
     s \<leftarrow> says P (sig_number signum) s;
     s \<leftarrow> says P (line ''Press enter to continue...'') s;
     (r, s) \<leftarrow> ece391_read P 0 buf 1 s;
     let s = s\<lparr>memory := wr32 (memory s) (badbuf_at G) (charbuf_at G)\<rparr>;
     let s = s\<lparr>memory := wr32 (memory s) (signum_at + 4 * 7) (charbuf_at G)\<rparr>;
     says P (line ''Signal handler returning'') s
   }"

text \<open>\<open>segv\<close> and \<open>alarm\<close> are the addresses of the two handlers.\<close>

definition sigtest_install :: "'a program \<Rightarrow> addr \<Rightarrow> addr \<Rightarrow> 'a tty_scheme \<Rightarrow> 'a tty_scheme option" where
  "sigtest_install P segv alarm s = do {
     s \<leftarrow> says P (line ''Installing signal handlers'') s;
     (r, s) \<leftarrow> ece391_set_handler P 1 segv s;
     (r, s) \<leftarrow> ece391_set_handler P 3 alarm s;
     Some s
   }"

definition sigtest_greet :: "'a program \<Rightarrow> sig_vars \<Rightarrow> addr \<Rightarrow> int \<Rightarrow> 'a tty_scheme \<Rightarrow> (int \<times> 'a tty_scheme) option" where
  "sigtest_greet P G buf cnt s = do {
     let s = s\<lparr>memory := (memory s)(buf + word_of_int cnt := 0)\<rparr>;
     s \<leftarrow> says P ''Hello, '' s;
     s \<leftarrow> ece391_fdputs P 1 buf s;
     s \<leftarrow> (if memory s (charbuf_at G) = 1 then says P (line ''success'') s else says P (line ''failure'') s);
     Some (0, s)
   }"

definition sigtest_question :: string where
  "sigtest_question = ''Hi, what'' @ CHR 0x27 # ''s your name? ''"

definition sigtest_main :: "'a program \<Rightarrow> vectors \<Rightarrow> sig_vars \<Rightarrow> addr \<Rightarrow> addr \<Rightarrow> addr \<Rightarrow> 'a tty_scheme \<Rightarrow>
    ('a tty_scheme handled + int \<times> 'a tty_scheme) option" where
  "sigtest_main P V G buf segv alarm s = do {
     (r, s) \<leftarrow> ece391_getargs P buf 1024 s;
     if r \<noteq> 0 then do { s \<leftarrow> says P (line ''could not read argument'') s; Some (Inr (3, s)) }
     else do {
       s \<leftarrow> (if memory s buf = 0x31 then sigtest_install P segv alarm s else Some s);
       s \<leftarrow> says P sigtest_question s;
       (cnt, s) \<leftarrow> ece391_read P 0 buf 1023 s;
       if cnt = -1 then do { s \<leftarrow> says P (line (''Can'' @ CHR 0x27 # ''t read name from keyboard.'')) s; Some (Inr (3, s)) }
       else do {
         out \<leftarrow> user_store P V (rd32 (memory s) (badbuf_at G)) 1 s;
         case out of
           Inl h \<Rightarrow> Some (Inl h)
         | Inr s \<Rightarrow> do { (r, s) \<leftarrow> sigtest_greet P G buf cnt s; Some (Inr (r, s)) }
       }
     }
   }"

subsection \<open>What the program's calls leave alone\<close>

definition same_machine :: "'a tty_scheme \<Rightarrow> 'a tty_scheme \<Rightarrow> bool" where
  "same_machine s t \<longleftrightarrow> page_directory t = page_directory s \<and> page_table t = page_table s \<and> video_page t = video_page s \<and>
     pcbs t = pcbs s \<and> task_slots t = task_slots s \<and> tasks_running t = tasks_running s"

lemma same_machine_walk: "same_machine s t \<Longrightarrow> walk L t = walk L s"
  by (rule walk_cong) (simp_all add: same_machine_def)

lemma same_machine_trans: "same_machine s t \<Longrightarrow> same_machine t u \<Longrightarrow> same_machine s u"
  by (simp add: same_machine_def)

lemma same_machine_memory: "same_machine s (s\<lparr>memory := m\<rparr>)"
  by (simp add: same_machine_def)

lemma same_machine_print:
  fixes s :: "'a tty_scheme"
  shows "same_machine s (fold putc xs s)"
proof -
  have "screen.more (fold putc xs s) = screen.more s" using screen_only_fields [OF screen_only_fold_putc [of s xs]] by simp
  then show ?thesis by (cases s; cases "fold putc xs s") (simp add: same_machine_def)
qed

lemma terminal_copy_machine:
  fixes s t :: "'a tty_scheme"
  shows "terminal_copy i buf n k s = Some (r, t) \<Longrightarrow> same_machine s t"
proof (induction i buf n k s rule: terminal_copy.induct)
  case (1 i buf n k s)
  then show ?case
    by (subst (asm) (2) terminal_copy.simps) (auto simp: same_machine_def upd_displayed_def Let_def split: if_splits)
qed

lemma terminal_read_machine:
  fixes s t :: "'a tty_scheme"
  assumes "allow_terminal_read (displayed s) \<noteq> 0" "terminal_read hs buf n s = Some (r, t, hs')"
  shows "same_machine s t"
proof -
  have "terminal_spin hs s = Some (s, hs)" using assms(1) by (subst terminal_spin.simps) simp
  then obtain u where "terminal_copy 0 buf n 0 (cli s) = Some (r, u)"
    "t = sti (upd_displayed (\<lambda>t. t\<lparr>keyboard_buffer_size := 0, allow_terminal_read := 0\<rparr>) u)"
    using assms(2) by (auto simp: terminal_read_def split: bind_splits)
  then show ?thesis using terminal_copy_machine [of 0 buf n 0 "cli s" r u] by (simp add: same_machine_def upd_displayed_def cli_def sti_def)
qed

text \<open>A running task of the kernel's forest, at a point of its program.\<close>

definition stands :: "mem \<Rightarrow> addr \<Rightarrow> 'a tty_scheme \<Rightarrow> 'a tty_scheme \<Rightarrow> bool" where
  "stands m0 bb s t \<longleftrightarrow> keeps m0 bb s t \<and> same_machine s t"

lemma stands_trans: "stands m0 bb s t \<Longrightarrow> stands m0 bb t u \<Longrightarrow> stands m0 bb s u"
  using same_machine_trans [of s t u] by (simp add: stands_def keeps_def)

lemma stands_ok: "stands m0 bb s t \<Longrightarrow> kernel_ok m0 bb t \<and> current_ok t"
  by (simp add: stands_def keeps_def)

lemma stands_says:
  fixes s :: "'a tty_scheme"
  assumes "kernel_ok m0 bb s" "current_ok s" "at_work P X buf s" "x \<in> X" "says P x s = Some t"
  shows "stands m0 bb s t"
proof -
  have "t = fold putc (bytes x) s" using says_prints [of s P X x] assms(3-5) by (simp add: at_work_def)
  then show ?thesis
    using same_machine_print [of s "bytes x"] keeps_calm [OF assms(1,2)] fold_putc_terminals [OF kernel_okD(4) [OF assms(1)], of "bytes x"]
    by (simp add: stands_def)
qed

lemma getargs_memory: "syscall_getargs buf n s = Some (r, t) \<Longrightarrow> \<exists>m. t = s\<lparr>memory := m\<rparr>"
proof -
  assume "syscall_getargs buf n s = Some (r, t)"
  moreover have "\<exists>m. s = s\<lparr>memory := m\<rparr>" by (rule exI [of _ "memory s"]) (cases s, simp)
  ultimately show ?thesis by (auto simp: syscall_getargs_def Let_def split: if_splits bind_splits)
qed

lemma stands_getargs:
  fixes s :: "'a tty_scheme"
  assumes ok: "kernel_ok m0 bb s" "current_ok s" "program_ok s" and buf: "user_range buf 1024"
    and g: "ece391_getargs P buf 1024 s = Some (r, t)"
  shows "stands m0 bb s t" "line_waits l t = line_waits l s"
proof -
  have g: "syscall_getargs buf 1024 s = Some (r, t)" using g by (simp add: call_defs do_call_simps [OF ok(3)])
  obtain m where m: "t = s\<lparr>memory := m\<rparr>" using getargs_memory [OF g] by blast
  have "keeps m0 bb s t" using getargs_keeps [OF ok(1,2) _ _ g] buf by simp
  then show "stands m0 bb s t" by (simp add: stands_def m same_machine_memory)
  show "line_waits l t = line_waits l s" by (simp add: line_waits_def m displayed_def)
qed

lemma stands_read:
  fixes s :: "'a tty_scheme"
  assumes ok: "kernel_ok m0 bb s" "current_ok s" "program_ok s" and img: "image_apart m0 bb" and h: "prog_handlers P = []"
    and fds: "fd_array s = std_fds" and buf: "user_range buf 1023" and l: "line_waits l s"
    and r: "ece391_read P 0 buf 1023 s = Some (k, t)"
  shows "stands m0 bb s t"
proof -
  have rd: "syscall_read (prog_irqs P) [] 0 buf 1023 s = Some (k, t)"
    using r by (simp add: call_defs do_call_simps [OF ok(3)] h)
  have "\<forall>f \<in> set std_fds. file_position f = 0" by (simp add: std_fds_def empty_fd_def)
  then have "unat (file_position (std_fds ! i)) = 0" if "i < 8" for i
    using that nth_mem [of i std_fds] std_fds_first(3) by simp
  then have "keeps m0 bb s t" using read_keeps [OF ok(1,2) img _ _ rd] buf fds by simp
  moreover have "\<exists>hs'. terminal_read [] buf 1023 s = Some (k, t, hs')"
    using rd program_okD [OF ok(3)] by (auto simp: syscall_read_def fops_has_read_def fops_read_def Let_def split: bind_splits)
  then have "same_machine s t" using terminal_read_machine [of s] l by (auto simp: line_waits_def)
  ultimately show ?thesis by (simp add: stands_def)
qed

subsection \<open>How it ends\<close>

definition sigtest_literals :: "string set" where
  "sigtest_literals = {line ''Installing signal handlers'', sigtest_question}"

text \<open>A store through the null pointer, where the tables give a program nothing at page 0.\<close>

definition null_trapped :: "'a program \<Rightarrow> 'a tty_scheme \<Rightarrow> bool" where
  "null_trapped P s \<longleftrightarrow> (\<forall>f. walk (paging_tables (prog_links P)) s 0 \<noteq> Some (f, True))"

lemma null_store:
  "null_trapped P s \<Longrightarrow> user_store P V 0 c s = map_option Inl (HANDLE_EXCEPTION V (prog_links P) (prog_frame P) exception_page_fault s)"
  by (auto simp: user_store_def null_trapped_def split: option.splits bool.splits)

lemma null_fault_ends:
  fixes s :: "'a tty_scheme"
  assumes ok: "kernel_ok m0 bb s" "current_ok s" "3 \<le> tasks_running s" and msg: "messages_ok (prog_links P) m0" "exceptions_linked V m0"
    and null: "null_trapped P s"
  shows "\<exists>t. user_store P V 0 c s = Some (Inl (Leaves (Returns_from_execute 256
      (old_esp (pcb_of (tasks_running s) s)) (old_ebp (pcb_of (tasks_running s) s)) t))) \<and> keeps m0 bb s t \<and>
    task_slots t = (task_slots s)[unat (tasks_running s) := 0] \<and> tasks_running t = task_id_parent (pcb_of (tasks_running s) s)"
proof -
  have "exception_page_fault \<in> fst ` set exception_messages" by (simp add: exception_messages_def)
  from exception_cases [OF ok(1,2) msg this, of "prog_frame P"]
  show ?thesis using ok(3) by (auto simp: null_store [OF null] word_le_nat_alt word_less_nat_alt split: if_splits)
qed

text \<open>The null pointer in the data of the program stays while its array is written.\<close>

lemma rd32_apart:
  fixes s t :: "'a tty_scheme"
  assumes "runs buf n s t" "n \<le> 2 ^ 32" "user_range a 4" "apart a 4 buf n"
  shows "rd32 (memory t) a = rd32 (memory s) a"
proof -
  have "memory t (a + of_nat i) = memory s (a + of_nat i)" if "i < 4" for i
    using assms(1,3) that apart_outside [OF assms(4) that assms(2)] by (simp add: runs_def user_range_def)
  from this [of 0] this [of 1] this [of 2] this [of 3] show ?thesis by (simp add: rd32_def)
qed

lemma sigtest_asks:
  fixes s :: "'a tty_scheme"
  assumes ok: "kernel_ok m0 bb s" "current_ok s" and img: "image_apart m0 bb" and h: "prog_handlers P = []"
    and w: "at_work P sigtest_literals buf s" and fds: "fd_array s = std_fds" and l: "line_waits l s"
  shows "\<exists>t u. says P sigtest_question s = Some t \<and> ece391_read P 0 buf 1023 t = Some (int (length l), u) \<and>
    outputs buf 1024 (bytes sigtest_question) s u \<and> stands m0 bb s u"
proof -
  have X: "sigtest_question \<in> sigtest_literals" by (simp add: sigtest_literals_def)
  obtain t u where t: "says P sigtest_question s = Some t" "ece391_read P 0 buf 1023 t = Some (int (length l), u)"
    "outputs buf 1024 (bytes sigtest_question) s u"
    using ask [OF w X l] by blast
  have e: "t = fold putc (bytes sigtest_question) s"
    using says_prints [of s P sigtest_literals sigtest_question] w X t(1) by (simp add: at_work_def)
  have pok: "program_ok t" "fd_array t = std_fds" "line_waits l t"
    using w program_ok_print [of s "bytes sigtest_question"] fds l line_waits_print [of l "bytes sigtest_question" s]
    by (simp_all add: e at_work_def)
  have st: "stands m0 bb s t" by (rule stands_says [OF ok w X t(1)])
  have "user_range buf 1023" using w by (simp add: at_work_def user_range_def)
  from stands_read [OF _ _ pok(1) img h pok(2) this pok(3) t(2)] stands_ok [OF st]
  have "stands m0 bb t u" by blast
  then show ?thesis using t stands_trans [OF st] by blast
qed

lemma set_handler_absent:
  "ece391_set_handler P signum handler s = None"
  by (simp add: ece391_set_handler_def do_call_def syscall_dispatch_def syscall_jump_def call_result_def)


subsection \<open>A machine on which it runs\<close>

definition sigtest_strings :: "string list" where
  "sigtest_strings = [line ''Installing signal handlers'', sigtest_question]"

definition sigtest_linked :: "unit program" where
  "sigtest_linked = (sample_program sigtest_strings)\<lparr>prog_links := boot_links demo_links\<rparr>"

definition sigtest_memory :: mem where
  "sigtest_memory = put linked_image 0x8048000 (literal_image sigtest_strings)"

text \<open>Task 3 under the first shell, with one argument and a line that waits.\<close>

definition sigtest_machine :: "u8 list \<Rightarrow> tty" where
  "sigtest_machine xs = demo_child\<lparr>memory := sigtest_memory, int_flag := True,
     page_directory := (page_directory demo_child)(32 := task_frame 3 OR 0x87), terminals := terminals (sample_state [] [0x78, 0x0A]),
     pcbs := (\<lambda>a. (pcbs demo_child a)\<lparr>argument_buf := xs @ replicate (129 - length xs) 0\<rparr>)\<rparr>"

lemma sigtest_machine_pcb: "pcb_of i (sigtest_machine xs) = (pcb_of i demo_child)\<lparr>argument_buf := xs @ replicate (129 - length xs) 0\<rparr>"
  by (simp add: sigtest_machine_def pcb_of_def)

lemma sigtest_memory_ok:
  "undisturbed linked_image sigtest_memory" "image_apart sigtest_memory 0x100000" "plain_text sigtest_strings"
  "messages_ok (boot_links demo_links) sigtest_memory" "exceptions_linked demo_vectors sigtest_memory"
proof -
  show p: "plain_text sigtest_strings"
    by (simp add: plain_text_def literal_image_def bytes_def line_def sigtest_strings_def sigtest_question_def)
  then show u: "undisturbed linked_image sigtest_memory"
    unfolding sigtest_memory_def plain_text_def by (intro undisturbed_put) (auto intro!: scratch_cases(1) window_offset)
  note b = linked_boot_ok [of demo_links]
  show "image_apart sigtest_memory 0x100000" using image_now(2) [OF _ u] b by (simp add: boot_ok_def)
  show "messages_ok (boot_links demo_links) sigtest_memory"
    using message_undisturbed [OF u] b unfolding boot_ok_def messages_ok_def by blast
  show "exceptions_linked demo_vectors sigtest_memory"
    using message_undisturbed [OF u] demo_linked unfolding exceptions_linked_def by blast
qed

lemma sigtest_machine_frame:
  "memory (sigtest_machine xs) = sigtest_memory" "int_flag (sigtest_machine xs)" "boot_block (sigtest_machine xs) = 0x100000"
  "tasks_running (sigtest_machine xs) = 3" "task_slots (sigtest_machine xs) = [1, 1, 1, 1, 0, 0]"
  "page_directory (sigtest_machine xs) 0 = 0" "page_directory (sigtest_machine xs) 32 = task_frame 3 OR 0x87"
  "screen_x (sigtest_machine xs) = 3" "screen_y (sigtest_machine xs) = 4" "displayed (sigtest_machine xs) = displayed (sample_state [] [0x78, 0x0A])"
  "terminals (sigtest_machine xs) = terminals (sample_state [] [0x78, 0x0A])" "display_terminal_id (sigtest_machine xs) = 0"
proof -
  obtain pc where pc: "demo_child = demo_shell\<lparr>tasks_running := 3, task_slots := [1, 1, 1, 1, 0, 0], pcbs := pc\<rparr>"
    unfolding demo_child_def using create_pcb_frame by (metis)
  show "memory (sigtest_machine xs) = sigtest_memory" "int_flag (sigtest_machine xs)" "boot_block (sigtest_machine xs) = 0x100000"
    "tasks_running (sigtest_machine xs) = 3" "task_slots (sigtest_machine xs) = [1, 1, 1, 1, 0, 0]"
    "page_directory (sigtest_machine xs) 0 = 0" "page_directory (sigtest_machine xs) 32 = task_frame 3 OR 0x87"
    "screen_x (sigtest_machine xs) = 3" "screen_y (sigtest_machine xs) = 4"
    "displayed (sigtest_machine xs) = displayed (sample_state [] [0x78, 0x0A])"
    "terminals (sigtest_machine xs) = terminals (sample_state [] [0x78, 0x0A])" "display_terminal_id (sigtest_machine xs) = 0"
    by (simp_all add: sigtest_machine_def pc demo_shell_def demo_tty_def displayed_def sample_state_def)
qed

lemma sigtest_machine_ok:
  "tasks_ok (sigtest_machine xs)" "current_ok (sigtest_machine xs)" "fd_array (sigtest_machine xs) = std_fds"
  "descriptors_ok (sigtest_machine xs)" "terminals_ok (sigtest_machine xs)"
proof -
  let ?s = "sigtest_machine xs"
  have sl: "task_slots ?s = task_slots demo_child" by (simp add: sigtest_machine_def)
  show "tasks_ok ?s"
    using tasks_ok_cong [OF sl] demo_child_ok(1) by (simp add: sigtest_machine_pcb)
  have r: "running ?s = running demo_child" by (rule running_slots) (rule sl)
  show "current_ok ?s"
    using demo_child_ok(2,3) by (simp add: current_ok_def r sigtest_machine_frame sigtest_machine_pcb)
  have p: "fd (pcb_of i ?s) = std_fds" if "i < 6" for i
    using that by (simp add: sigtest_machine_pcb demo_child_pcb new_pcb_def) (simp add: demo_shell_def pcb_of_def)
  then show "fd_array ?s = std_fds" by (simp add: fd_array_def sigtest_machine_frame)
  show "descriptors_ok ?s" using p [OF running_less [of ?s]] std_fds_ok by (simp add: descriptors_ok_def)
  show "terminals_ok ?s"
    by (simp add: terminals_ok_def tty_ok_def cursor_of_def cursor_at_def sigtest_machine_frame)
      (simp add: sample_state_def demo_terminal_def nth_append TERMINAL_SIZE_def)
qed

lemma sigtest_machine_started:
  "started (sigtest_machine xs)" "line_waits [0x78, 0x0A] (sigtest_machine xs)" "kernel_ok sigtest_memory 0x100000 (sigtest_machine xs)"
  "xs \<noteq> [] \<Longrightarrow> 0 \<notin> set xs \<Longrightarrow> length xs < 129 \<Longrightarrow> argument_is xs (sigtest_machine xs)" "null_trapped P (sigtest_machine xs)"
proof -
  let ?s = "sigtest_machine xs"
  note f = sigtest_machine_frame [of xs] and o = sigtest_machine_ok [of xs]
  have "program_ok ?s" using o std_fds_ok by (simp add: program_ok_def f)
  moreover have "cursor_ok ?s" by (simp add: cursor_ok_def f screen_consts)
  ultimately show "started ?s" using o(3) sigtest_memory_ok(2) by (simp add: started_def f)
  show "line_waits [0x78, 0x0A] ?s" using sample_ok(3) [of "[0x78, 0x0A]" "[]"] by (simp add: line_waits_def f)
  show "kernel_ok sigtest_memory 0x100000 ?s" using o by (simp add: kernel_ok_def alive_def window_ok_def f)
  show "null_trapped P ?s" by (simp add: null_trapped_def walk_def f)
  show "xs \<noteq> [] \<Longrightarrow> 0 \<notin> set xs \<Longrightarrow> length xs < 129 \<Longrightarrow> argument_is xs ?s"
    by (auto simp: argument_is_def sigtest_machine_pcb intro!: exI [of _ "replicate (128 - length xs) 0"] simp flip: replicate_Suc)
qed

lemma sigtest_data:
  "literals_at sigtest_linked sigtest_memory sigtest_literals" "literals_apart sigtest_linked sigtest_literals 0x8200000 1024"
  "user_range 0x8100000 4" "apart 0x8100000 4 0x8200000 1024" "rd32 sigtest_memory 0x8100000 = 0"
proof -
  have Y: "sigtest_literals \<subseteq> set sigtest_strings" by (simp add: sigtest_literals_def sigtest_strings_def)
  show "literals_at sigtest_linked sigtest_memory sigtest_literals" "literals_apart sigtest_linked sigtest_literals 0x8200000 1024"
    using sample_literals(1) [OF sigtest_memory_ok(3) Y, of linked_image] sample_literals(2) [OF sigtest_memory_ok(3) Y, of 1024]
    by (simp_all add: literals_at_def literals_apart_def sigtest_linked_def sigtest_memory_def)
  have "in_window (0x8100000 + of_nat i)" if "i < 4" for i
    using window_offset [of "0xB8000 + i"] that by simp
  then show "user_range 0x8100000 4" by (simp add: user_range_def)
  show "apart 0x8100000 4 0x8200000 1024" by (rule apart_literal) simp_all
  have "sigtest_memory (0x8100000 + of_nat i) = elf_image (0x8100000 + of_nat i)" if "i < 4" for i
  proof -
    have "length (literal_image sigtest_strings) < 0xB8000"
      by (simp add: literal_image_def bytes_def line_def sigtest_strings_def sigtest_question_def)
    moreover have "unat (0x8100000 + of_nat i - 0x8048000 :: u32) = 0xB8000 + i" "unat (0x8100000 + of_nat i :: u32) = 0x8100000 + i"
      using that by (simp_all add: unat_word_ariths unat_of_nat take_bit_nat_eq_self)
    ultimately show ?thesis
      by (simp add: sigtest_memory_def put_outside linked_low shell_image_above)
  qed
  from this [of 0] this [of 1] this [of 2] this [of 3] show "rd32 sigtest_memory 0x8100000 = 0"
    by (simp add: rd32_def elf_image_def demo_image_def)
qed


end
