(* ===== verification/Spec2Isabelle.thy ===== *)
theory Spec2Isabelle
  imports Entry Syserr Search Dialogue Pingpong Animation Emulate Results Sigtest
begin

text \<open>
  A teaching kernel for the 386 (\<open>src/student-distrib\<close>): three text terminals with a shell each,
  up to six programs, a read-only file system in memory, a keyboard, a clock and a timer; and
  the programs that run on it (\<open>src/syscalls\<close>).

  State. Every C file's globals are one record that extends the record of the files below it:
  \<open>machine\<close> (memory, ports, interrupt flag), \<open>pic\<close> (i8259.c), \<open>rtc\<close> (rtc.c), \<open>screen\<close> (the cursor
  of lib.c), \<open>paging\<close> (paging.c, with the TLB and the frames behind the program window), \<open>fs\<close>
  (fs_module.c), \<open>task\<close> (the task table and control blocks of system_call.c), \<open>tty\<close> (keyboard.c),
  \<open>sched\<close> (scheduler.c, pit.c), \<open>intr\<close> (the IDT), \<open>booted\<close> (the descriptors of kernel.c). An
  operation is a function on the record of its own file and all extensions, so it applies to
  the whole kernel. Machine integers are words, pointers are addresses into one byte memory;
  a pointer to a local or to a control block is modelled by its value. A result of \<open>None\<close> means
  that the C code has none: an endless scan, a call through NULL or an index off an array.

  Theories, in the order of the imports:
  \<^item> \<open>Prelude\<close>: words, byte memory, C strings, \<open>named_theorems\<close>, the locale \<open>slot_table\<close> of a table
    searched for its lowest free slot.
  \<^item> \<open>LibMem\<close>, \<open>LibString\<close>: memset, memcpy, memmove and the string functions of lib.c, by the
    instruction and by the byte, equal to reference functions.
  \<^item> \<open>Machine\<close>, \<open>Pic\<close>, \<open>Rtc\<close>: ports, the interrupt controllers (locale \<open>irq_controller\<close>), the clock.
  \<^item> \<open>Screen\<close>: putc, puts, printf over the frame buffer, refining an abstract text screen.
  \<^item> \<open>Paging\<close>: the tables, the walk over them, the TLB; the frames of the tasks are disjoint.
  \<^item> \<open>Fs\<close>: directory, inodes and data blocks; what a read copies.
  \<^item> \<open>Task\<close>: slots, control blocks and the forest of tasks \<open>tasks_ok\<close>; chains of children end.
  \<^item> \<open>Terminal\<close>: scan codes, the line buffer (locale \<open>line_buffer\<close>), reading and writing a
    terminal, switching terminals.
  \<^item> \<open>Syscall\<close>: the eight calls; \<open>Descriptors\<close> and \<open>Exec\<close>: what they do to descriptor tables and
    to the running programs, with the round trips open/close and execute/halt.
  \<^item> \<open>Footprint\<close>, \<open>Calls\<close>: the memory the kernel may write, the invariant \<open>kernel_ok\<close>, and that
    every call and interrupt keeps it.
  \<^item> \<open>Scheduler\<close>: timer ticks and the start of the three shells.
  \<^item> \<open>Interrupts\<close>: IDT, exceptions and the system call gate.
  \<^item> \<open>Kernel\<close>: the step relation \<open>kstep\<close> of events in any order, its reachable states, and the
    invariant by rule induction.
  \<^item> \<open>Entry\<close>: from the boot loader to the running shells.
  \<^item> \<open>User\<close>: the library of the programs (ece391support.c, the wrappers and the start code of
    ece391syscall.S), what a program sees of the kernel (locales \<open>console\<close>, \<open>report\<close>): what it
    prints is on the screen, the line it reads is the one the user completed, and the rest of
    the machine stays as it was (\<open>runs\<close>, \<open>outputs\<close>).
  \<^item> \<open>Sample\<close>: a linker, a disk and a machine for the concrete instances.
  \<^item> \<open>Syserr\<close>: the eight tests of ece391syserr.c, which this kernel passes.
  \<^item> \<open>Programs\<close>: the other main functions; \<open>cat\<close>, whose loop is proved in the locale
    \<open>chunk_source\<close>. \<open>Listing\<close>: \<open>ls\<close>, its other instance. \<open>Grep\<close>: the search of
    one file, as the lines of its text that hold the pattern; \<open>Search\<close>: the search of the whole
    directory. \<open>Dialogue\<close>: hello, counter, the shell,
    and testprint from its start code to the return of its parent's \<open>execute\<close>.
  \<^item> \<open>Blink\<close>, \<open>Blinkers\<close>: the blink engine of fish (\<open>src/fish/blink.S\<close> and the allocator of fish.c): its
    linked list in memory refines a list of blinkers over the abstract text screen.
  \<^item> \<open>Disk\<close>, \<open>Clock\<close>: a disk with further files; the clock as a program sees it. \<open>Pingpong\<close>: the
    endless game. \<open>Fish\<close>: the main function of fish.c and the drawing of its two frames;
    \<open>Animation\<close>: the whole run, as operations on the abstract engine.
  \<^item> \<open>Emulate\<close>: the system calls on Linux (ece391emulate.c), over a parameter for Linux.
  \<^item> \<open>Sigtest\<close>: the program that tries out signals, and how the page fault it raises ends it.
  \<^item> \<open>Results\<close>: what every call returns is a 32 bit integer.

  Loops. Bounded loops are structural recursions or folds over index lists; the directory
  search and the copies of \<open>execute\<close> recurse with a measure; scans for a NUL byte, chains of
  children and the waits for interrupts are \<open>partial_function (option)\<close> or run against an
  explicit list of interrupts, and the theorems prove that they return.

  Assumptions. The stack addresses of locals, the linker's addresses of literals and tables
  and the bytes a device answers are parameters. A call is atomic with respect to
  interrupts, except for the waits of the two blocking reads. The pointers a program passes
  lie in its window; the calls do not check them. The memory a program reaches is the
  4 MB window at 128 MB. The addresses of a program's literals and local arrays are
  parameters of it (\<open>prog_lit\<close>, \<open>buf\<close>), and the theorems assume that an array does not overlap a
  literal. A program the shell starts is a parameter of the shell; it keeps the shell's memory.

  Not modelled: \<open>boot.S\<close>, the register saving of \<open>interrupt_handler.S\<close>, the tests
  (\<open>tests.c\<close>), the 16 and 32 bit port macros of \<open>lib.h\<close> that nothing uses, privilege switches by
  the processor. Signals: the kernel has none.
\<close>

end
